(* ===== verification/Sim_Prelude.thy ===== *)
theory Sim_Prelude
  imports Complex_Main "HOL-Library.Multiset" "HOL-Library.Char_ord" "HOL-Library.List_Lexorder"
begin

text \<open>
  The facts and names every component of the development shares: the vocabulary of the
  model (request identifiers, token identifiers, ticks), the collections the component
  theories feed (\<open>kv_simps\<close>, \<open>frame_simps\<close>), the error values that stand for the panics and
  runtime errors of the Go code, and small lemmas on lists, options and reference counts
  that the library does not have in the shape used here.
\<close>

section \<open>Vocabulary\<close>

text \<open>A request is shared by pointer in the Go code; its identifier is its address here.\<close>

type_synonym rid = string

text \<open>\<open>sim/internal/tokenid\<close>: a token is an opaque signed 32-bit identifier.\<close>

type_synonym token = int

text \<open>Simulation time in ticks (microseconds), an \<open>int64\<close>.\<close>

type_synonym tick = int

text \<open>\<open>math.MaxInt64\<close>.\<close>

definition max_int64 :: int where
  "max_int64 = 2 ^ 63 - 1"

text \<open>
  The ways a Go function of the model can stop without returning: an explicit panic, an
  index or slice outside its bounds, or the fuel of a loop model running out (which the
  theorems show not to happen).
\<close>

datatype go_error =
    Panic string
  | IndexOutOfRange
  | OutOfFuel

type_synonym 'a outcome = "go_error + 'a"

text \<open>Sequencing: an operation that stops with an error stops its caller.\<close>

definition obind :: "'a outcome \<Rightarrow> ('a \<Rightarrow> 'b outcome) \<Rightarrow> 'b outcome" where
  "obind x f = (case x of Inl e \<Rightarrow> Inl e | Inr y \<Rightarrow> f y)"

lemma obind_simps [simp]: "obind (Inl e) f = Inl e" "obind (Inr y) f = f y"
  by (simp_all add: obind_def)

lemma obind_Inr_iff: "obind x f = Inr z \<longleftrightarrow> (\<exists>y. x = Inr y \<and> f y = Inr z)"
  by (cases x) auto

named_theorems kv_simps \<open>characteristic equations of the KV cache operations\<close>
named_theorems frame_simps \<open>fields an operation leaves unchanged\<close>

section \<open>Lists\<close>

lemma count_list_remove1:
  "count_list (remove1 x xs) y = (if x = y \<and> x \<in> set xs then count_list xs y - 1 else count_list xs y)"
  by (induction xs) (auto simp: count_list_0_iff)

lemma count_list_pos_iff: "0 < count_list xs x \<longleftrightarrow> x \<in> set xs"
  by (induction xs) auto

lemma distinct_remove1_append:
  "x \<notin> set ys \<Longrightarrow> remove1 x (ys @ x # zs) = ys @ zs"
  by (induction ys) auto

lemma split_list_distinct:
  assumes "x \<in> set xs" "distinct xs"
  obtains ys zs where "xs = ys @ x # zs" "x \<notin> set ys" "x \<notin> set zs"
    "distinct ys" "distinct zs" "set ys \<inter> set zs = {}" "remove1 x xs = ys @ zs"
proof -
  from assms(1) obtain ys zs where e: "xs = ys @ x # zs" by (meson split_list)
  with assms(2) have "x \<notin> set ys" "x \<notin> set zs" "distinct ys" "distinct zs" "set ys \<inter> set zs = {}"
    by auto
  then show ?thesis using that e distinct_remove1_append by metis
qed

lemma concat_butlast_last:
  "xs \<noteq> [] \<Longrightarrow> concat (map f xs) = concat (map f (butlast xs)) @ f (last xs)"
  by (induction xs) auto

lemma sum_list_upd:
  "i < length xs \<Longrightarrow> (\<Sum>x\<leftarrow>xs[i := y]. f x) + f (xs ! i) = (\<Sum>x\<leftarrow>xs. f x) + (f y :: 'b :: comm_monoid_add)"
  by (induction xs arbitrary: i) (auto simp: nth_Cons' ac_simps split: nat.split)

lemma hd_opt_append:
  "(case xs @ ys of [] \<Rightarrow> None | z # _ \<Rightarrow> Some z) =
   (case xs of [] \<Rightarrow> (case ys of [] \<Rightarrow> None | z # _ \<Rightarrow> Some z) | z # _ \<Rightarrow> Some z)"
  by (cases xs) auto

lemma nth_last_Suc:
  "xs \<noteq> [] \<Longrightarrow> xs ! (length xs - Suc 0) = last xs"
  by (simp add: last_conv_nth)

lemma int_length_remove1: "x \<in> set xs \<Longrightarrow> int (length (remove1 x xs)) = int (length xs) - 1"
  by (induction xs) auto

section \<open>Sums over maps\<close>

text \<open>
  Reference counting: how often a value occurs in the lists a finite map holds. The KV
  cache counts the requests that hold a block this way.
\<close>

definition refs :: "('k \<rightharpoonup> 'v list) \<Rightarrow> 'v \<Rightarrow> nat" where
  "refs m v = (\<Sum>k \<in> dom m. count_list (the (m k)) v)"

lemma refs_empty [simp]: "refs Map.empty v = 0"
  by (simp add: refs_def)

lemma refs_upd:
  assumes "finite (dom m)"
  shows "refs (m(k \<mapsto> xs)) v + (case m k of None \<Rightarrow> 0 | Some ys \<Rightarrow> count_list ys v) =
         refs m v + count_list xs v"
proof -
  let ?D = "dom m - {k}"
  have fin: "finite ?D" using assms by simp
  have same: "(\<Sum>j \<in> ?D. count_list (the ((m(k \<mapsto> xs)) j)) v) = (\<Sum>j \<in> ?D. count_list (the (m j)) v)"
    by (rule sum.cong) auto
  have new: "refs (m(k \<mapsto> xs)) v = count_list xs v + (\<Sum>j \<in> ?D. count_list (the (m j)) v)"
  proof -
    have D: "dom (m(k \<mapsto> xs)) = insert k ?D" by auto
    show ?thesis unfolding refs_def D by (subst sum.insert) (use fin same in auto)
  qed
  show ?thesis
  proof (cases "m k")
    case None
    then have "?D = dom m" by auto
    with new None show ?thesis by (simp add: refs_def)
  next
    case (Some ys)
    then have D: "dom m = insert k ?D" by auto
    have "refs m v = count_list ys v + (\<Sum>j \<in> ?D. count_list (the (m j)) v)"
      unfolding refs_def by (subst D, subst sum.insert) (use fin Some in auto)
    with new Some show ?thesis by simp
  qed
qed

lemma refs_append:
  assumes "finite (dom m)" "m k = Some ys"
  shows "refs (m(k \<mapsto> ys @ xs)) v = refs m v + count_list xs v"
  using refs_upd [OF assms(1), of k "ys @ xs" v] assms(2) by simp

lemma refs_fresh:
  assumes "finite (dom m)" "m k = None"
  shows "refs (m(k \<mapsto> xs)) v = refs m v + count_list xs v"
  using refs_upd [OF assms(1), of k xs v] assms(2) by simp

lemma refs_remove:
  assumes "finite (dom m)" "m k = Some ys"
  shows "refs m v = refs (m(k := None)) v + count_list ys v"
proof -
  have "m = (m(k := None))(k \<mapsto> ys)" using assms(2) by auto
  moreover have "finite (dom (m(k := None)))" using assms(1) by simp
  ultimately show ?thesis
    using refs_fresh [of "m(k := None)" k ys v] by (metis fun_upd_same)
qed

lemma refs_pos:
  assumes "finite (dom m)"
  shows "0 < refs m v \<longleftrightarrow> (\<exists>k ys. m k = Some ys \<and> v \<in> set ys)"
proof -
  have "0 < refs m v \<longleftrightarrow> (\<exists>k \<in> dom m. 0 < count_list (the (m k)) v)"
    unfolding refs_def using assms by (metis (no_types, lifting) gr0I not_gr0 sum_eq_0_iff)
  then show ?thesis by (force simp: count_list_pos_iff)
qed

section \<open>The contract of a comparator\<close>

text \<open>
  Every \<open>Less\<close> the simulator hands to \<open>container/heap\<close> or \<open>sort.SliceStable\<close> must be a strict
  weak order: asymmetric, with "does not precede" transitive. The heap and the stable sort
  are proved correct once, inside this locale; each component interprets it on its own
  comparator. A comparator that also decides between any two distinct elements
  (\<open>total_less\<close>) leaves the result no freedom at all.
\<close>

locale weak_order =
  fixes lt :: "'a \<Rightarrow> 'a \<Rightarrow> bool"
  assumes lt_asym: "lt a b \<Longrightarrow> \<not> lt b a"
    and nlt_trans: "\<not> lt b a \<Longrightarrow> \<not> lt c b \<Longrightarrow> \<not> lt c a"
begin

lemma lt_irrefl [simp]: "\<not> lt a a"
  using lt_asym by blast

lemma lt_trans: "lt a b \<Longrightarrow> lt b c \<Longrightarrow> lt a c"
  using lt_asym nlt_trans by blast

end

locale total_less = weak_order lt for lt :: "'a \<Rightarrow> 'a \<Rightarrow> bool" +
  assumes lt_total: "a \<noteq> b \<Longrightarrow> lt a b \<or> lt b a"
begin

lemma sorted_unique:
  assumes "mset xs = mset ys" "sorted_wrt (\<lambda>a b. \<not> lt b a) xs" "sorted_wrt (\<lambda>a b. \<not> lt b a) ys"
  shows "xs = ys"
  using assms
proof (induction xs arbitrary: ys)
  case Nil
  then show ?case by simp
next
  case (Cons x xs)
  then obtain y zs where ys: "ys = y # zs" by (cases ys) auto
  have "x \<in> set ys" "y \<in> set (x # xs)"
    using Cons.prems(1) ys by (metis list.set_intros(1) set_mset_mset)+
  then have "x = y" using Cons.prems(2,3) ys lt_total by fastforce
  then show ?case using Cons.IH [of zs] Cons.prems ys by simp
qed

end

end
