(* ===== verification/Linked_List.thy ===== *)
theory Linked_List
  imports Sim_Prelude
begin

text \<open>
  The doubly linked lists of the simulator. Four components keep one, each with its own
  copy of the same pointer surgery: the LRU free list of the GPU cache (\<open>sim/kv/cache.go\<close>),
  the evictable list of the CPU staging tier (\<open>sim/kv/offload_cputier.go\<close>), the resident
  adapter slots (\<open>sim/lora/resident_set.go\<close>) and the router's per-instance prefix cache
  (\<open>sim/prefix_cache_index.go\<close>). Pointers are modelled field by field: a list is a head, a
  tail and the two link fields as functions from a node's address to an optional address.
  The theory holds that surgery, the predicate that a set of links spells a given list, and
  the lemmas that the surgery implements appending, pushing and removing.
\<close>

section \<open>Links and the operations on them\<close>

record 'k dll =
  dl_head :: "'k option"
  dl_tail :: "'k option"
  dl_prev :: "'k \<Rightarrow> 'k option"
  dl_next :: "'k \<Rightarrow> 'k option"

definition dll_empty :: "'k dll" where
  "dll_empty = \<lparr>dl_head = None, dl_tail = None, dl_prev = (\<lambda>_. None), dl_next = (\<lambda>_. None)\<rparr>"

text \<open>\<open>appendToTail\<close>: link a node after the tail.\<close>

definition dll_append :: "'k \<Rightarrow> 'k dll \<Rightarrow> 'k dll" where
  "dll_append k d =
     (let d1 = d\<lparr>dl_next := (dl_next d)(k := None), dl_prev := (dl_prev d)(k := dl_tail d)\<rparr>;
          d2 = (case dl_tail d of
                  Some t \<Rightarrow> d1\<lparr>dl_next := (dl_next d1)(t := Some k)\<rparr>
                | None \<Rightarrow> d1\<lparr>dl_head := Some k\<rparr>)
      in d2\<lparr>dl_tail := Some k\<rparr>)"

text \<open>\<open>pushHead\<close>: link a node before the head.\<close>

definition dll_push_head :: "'k \<Rightarrow> 'k dll \<Rightarrow> 'k dll" where
  "dll_push_head k d =
     (let d1 = d\<lparr>dl_prev := (dl_prev d)(k := None), dl_next := (dl_next d)(k := dl_head d)\<rparr>;
          d2 = (case dl_head d of
                  Some h \<Rightarrow> d1\<lparr>dl_prev := (dl_prev d1)(h := Some k)\<rparr>
                | None \<Rightarrow> d1);
          d3 = d2\<lparr>dl_head := Some k\<rparr>
      in (case dl_tail d3 of None \<Rightarrow> d3\<lparr>dl_tail := Some k\<rparr> | Some _ \<Rightarrow> d3))"

text \<open>\<open>unlink\<close>: detach a node and clear its own links.\<close>

definition dll_unlink :: "'k \<Rightarrow> 'k dll \<Rightarrow> 'k dll" where
  "dll_unlink k d =
     (let d1 = (case dl_prev d k of
                  Some p \<Rightarrow> d\<lparr>dl_next := (dl_next d)(p := dl_next d k)\<rparr>
                | None \<Rightarrow> d\<lparr>dl_head := dl_next d k\<rparr>);
          d2 = (case dl_next d1 k of
                  Some n \<Rightarrow> d1\<lparr>dl_prev := (dl_prev d1)(n := dl_prev d1 k)\<rparr>
                | None \<Rightarrow> d1\<lparr>dl_tail := dl_prev d1 k\<rparr>)
      in d2\<lparr>dl_prev := (dl_prev d2)(k := None), dl_next := (dl_next d2)(k := None)\<rparr>)"

text \<open>The loop \<open>for e := head; e != nil; e = e.next\<close>: the nodes from a pointer on.\<close>

partial_function (option) dll_walk :: "('k \<Rightarrow> 'k option) \<Rightarrow> 'k option \<Rightarrow> 'k list option" where
  "dll_walk nx cur = (case cur of
       None \<Rightarrow> Some []
     | Some k \<Rightarrow> Option.bind (dll_walk nx (nx k)) (\<lambda>ks. Some (k # ks)))"

section \<open>Links that spell a list\<close>

fun succ_of :: "'k list \<Rightarrow> 'k \<Rightarrow> 'k option" where
  "succ_of (x # y # zs) k = (if k = x then Some y else succ_of (y # zs) k)"
| "succ_of _ k = None"

definition hd_opt :: "'k list \<Rightarrow> 'k option" where
  "hd_opt xs = (case xs of [] \<Rightarrow> None | x # _ \<Rightarrow> Some x)"

lemma hd_opt_simps [simp]: "hd_opt [] = None" "hd_opt (x # xs) = Some x"
  by (simp_all add: hd_opt_def)

lemma hd_opt_app: "hd_opt (xs @ ys) = (if xs = [] then hd_opt ys else hd_opt xs)"
  by (cases xs) auto

lemma hd_opt_eq_None [simp]: "hd_opt xs = None \<longleftrightarrow> xs = []"
  by (cases xs) auto

lemma hd_opt_rev_last: "xs \<noteq> [] \<Longrightarrow> hd_opt (rev xs) = Some (last xs)"
  by (metis hd_opt_simps(2) last_snoc append_butlast_last_id rev.simps(2) rev_rev_ident list.exhaust rev_is_Nil_conv)

definition dll_list :: "'k dll \<Rightarrow> 'k list \<Rightarrow> bool" where
  "dll_list d xs \<longleftrightarrow> distinct xs \<and> dl_head d = hd_opt xs \<and> dl_tail d = hd_opt (rev xs) \<and>
     dl_next d = succ_of xs \<and> dl_prev d = succ_of (rev xs)"

lemma dll_list_distinct: "dll_list d xs \<Longrightarrow> distinct xs"
  by (simp add: dll_list_def)

lemma dll_list_head: "dll_list d xs \<Longrightarrow> dl_head d = hd_opt xs"
  by (simp add: dll_list_def)

lemma dll_list_empty: "dll_list dll_empty []"
  by (simp add: dll_list_def dll_empty_def fun_eq_iff)

lemma succ_of_notin: "k \<notin> set xs \<Longrightarrow> succ_of xs k = None"
  by (induction xs k rule: succ_of.induct) auto

text \<open>Where a node's successor lies when the list is cut in two.\<close>

lemma succ_of_append:
  assumes "distinct (ys @ zs)"
  shows "succ_of (ys @ zs) k =
    (if k \<in> set ys then (if hd_opt (rev ys) = Some k then hd_opt zs else succ_of ys k)
     else succ_of zs k)"
  using assms
proof (induction ys)
  case Nil
  then show ?case by simp
next
  case (Cons y ys)
  show ?case
  proof (cases ys)
    case Nil
    then show ?thesis using Cons.prems by (cases zs) (auto simp: succ_of_notin)
  next
    case (Cons y' ys')
    then have "hd_opt (rev (y # ys)) = hd_opt (rev ys)" by (simp add: hd_opt_app)
    moreover have "hd_opt (rev ys) \<noteq> Some y"
      using Cons.prems Cons by (metis distinct.simps(2) hd_opt_rev_last last_in_set list.discI option.inject append_Cons UnCI set_append)
    ultimately show ?thesis using Cons.IH Cons.prems Cons by auto
  qed
qed

text \<open>The links of a list with one node taken out.\<close>

lemma succ_of_remove:
  assumes "distinct (ys @ k # zs)"
  shows "succ_of (ys @ zs) =
    (case hd_opt (rev ys) of
       Some p \<Rightarrow> (succ_of (ys @ k # zs))(p := hd_opt zs, k := None)
     | None \<Rightarrow> (succ_of (ys @ k # zs))(k := None))"
proof (rule ext)
  fix j
  have d: "distinct (ys @ zs)" using assms by auto
  have "k \<notin> set (ys @ zs)" using assms by auto
  show "succ_of (ys @ zs) j =
    (case hd_opt (rev ys) of
       Some p \<Rightarrow> (succ_of (ys @ k # zs))(p := hd_opt zs, k := None)
     | None \<Rightarrow> (succ_of (ys @ k # zs))(k := None)) j"
  proof (cases "j = k")
    case True
    then show ?thesis using \<open>k \<notin> _\<close> by (simp add: succ_of_notin split: option.split)
  next
    case False
    have step: "succ_of (k # zs) j = succ_of zs j" using False by (cases zs) auto
    show ?thesis
    proof (cases "hd_opt (rev ys)")
      case None
      then show ?thesis using step False by simp
    next
      case (Some p)
      then have "p \<in> set ys" by (metis hd_opt_eq_None hd_opt_rev_last last_in_set option.discI option.inject rev_is_Nil_conv)
      with Some show ?thesis
        using False step succ_of_append [OF d, of j] succ_of_append [OF assms, of j] by auto
    qed
  qed
qed

lemma succ_of_mid:
  assumes "distinct (ys @ k # zs)"
  shows "succ_of (ys @ k # zs) k = hd_opt zs"
proof -
  have "succ_of (k # zs) k = hd_opt zs" by (cases zs) auto
  then show ?thesis using succ_of_append [OF assms, of k] assms by simp
qed

section \<open>The surgery implements list operations\<close>

lemma dll_append_list:
  assumes "dll_list d xs" "k \<notin> set xs"
  shows "dll_list (dll_append k d) (xs @ [k])"
proof -
  have d: "distinct (xs @ [k])" and dr: "distinct ([k] @ rev xs)"
    using assms by (auto simp: dll_list_def)
  have nx: "succ_of (xs @ [k]) =
     (case hd_opt (rev xs) of Some t \<Rightarrow> (succ_of xs)(k := None, t := Some k) | None \<Rightarrow> (succ_of xs)(k := None))"
    using succ_of_append [OF d] assms(2)
    by (auto simp: fun_eq_iff succ_of_notin split: option.split dest: arg_cong [where f = "Option.set_option"])
       (metis hd_opt_eq_None hd_opt_rev_last last_in_set option.inject option.distinct(1) rev_is_Nil_conv)+
  have pv: "succ_of (k # rev xs) = (succ_of (rev xs))(k := hd_opt (rev xs))"
    using succ_of_append [OF dr] assms(2) by (auto simp: fun_eq_iff succ_of_notin)
  have t: "hd_opt (rev xs) = Some k \<Longrightarrow> False"
    using assms(2) by (metis hd_opt_rev_last hd_opt_eq_None last_in_set option.discI option.inject rev_is_Nil_conv)
  show ?thesis
    using assms d nx pv t
    by (cases "hd_opt (rev xs)")
      (auto simp: dll_list_def dll_append_def Let_def hd_opt_app )
qed

lemma dll_push_head_list:
  assumes "dll_list d xs" "k \<notin> set xs"
  shows "dll_list (dll_push_head k d) (k # xs)"
proof -
  have d: "distinct ([k] @ xs)" and dr: "distinct (rev xs @ [k])"
    using assms by (auto simp: dll_list_def)
  have nx: "succ_of (k # xs) = (succ_of xs)(k := hd_opt xs)"
    using succ_of_append [OF d] assms(2) by (auto simp: fun_eq_iff succ_of_notin)
  have pv: "succ_of (rev xs @ [k]) =
     (case hd_opt xs of Some h \<Rightarrow> (succ_of (rev xs))(h := Some k, k := None) | None \<Rightarrow> (succ_of (rev xs))(k := None))"
  proof (cases xs)
    case Nil
    then show ?thesis by (auto simp: fun_eq_iff)
  next
    case (Cons h ys)
    then show ?thesis
      using succ_of_append [OF dr] assms(2) by (auto simp: fun_eq_iff succ_of_notin)
  qed
  show ?thesis
    using assms d nx pv
    by (cases xs) (auto simp: dll_list_def dll_push_head_def Let_def hd_opt_app fun_upd_twist split: option.splits)
qed

lemma dll_unlink_split:
  assumes "dll_list d (ys @ k # zs)"
  shows "dll_list (dll_unlink k d) (ys @ zs)"
proof -
  have d: "distinct (ys @ k # zs)" using assms by (simp add: dll_list_def)
  have dr: "distinct (rev zs @ k # rev ys)" using d by auto
  have nk: "dl_next d k = hd_opt zs" using assms succ_of_mid [OF d] by (simp add: dll_list_def)
  have pk: "dl_prev d k = hd_opt (rev ys)" using assms succ_of_mid [OF dr] by (simp add: dll_list_def)
  have N: "dl_next d = succ_of (ys @ k # zs)" and P: "dl_prev d = succ_of (rev zs @ k # rev ys)"
    using assms by (simp_all add: dll_list_def)
  have ph: "hd_opt (rev ys) \<noteq> Some k" and nh: "hd_opt zs \<noteq> Some k"
    using d by (auto simp: hd_opt_def split: list.splits)
  show ?thesis
    using assms d nk pk ph nh succ_of_remove [OF d] succ_of_remove [OF dr]
    by (auto simp: dll_list_def dll_unlink_def Let_def hd_opt_app N P split: option.splits)
qed

lemma dll_unlink_list:
  assumes "dll_list d xs" "k \<in> set xs"
  shows "dll_list (dll_unlink k d) (remove1 k xs)"
  using assms dll_unlink_split split_list_distinct by (metis dll_list_distinct)

lemma dll_walk_list:
  assumes "dll_list d xs"
  shows "dll_walk (dl_next d) (dl_head d) = Some xs"
proof -
  have "distinct (ys @ zs) \<Longrightarrow> dll_walk (succ_of (ys @ zs)) (hd_opt zs) = Some zs" for ys zs :: "'a list"
  proof (induction zs arbitrary: ys)
    case Nil
    then show ?case by (simp add: dll_walk.simps)
  next
    case (Cons z zs)
    then have "dll_walk (succ_of ((ys @ [z]) @ zs)) (hd_opt zs) = Some zs"
      by (metis append.assoc append_Cons append_Nil)
    then show ?case
      using Cons.prems succ_of_mid [of ys z zs] by (subst dll_walk.simps) simp
  qed
  from this [of "[]" xs] show ?thesis using assms by (simp add: dll_list_def)
qed

text \<open>The loop that walks from a pointer on until a node satisfies the test.\<close>

partial_function (option) dll_find :: "('k \<Rightarrow> bool) \<Rightarrow> ('k \<Rightarrow> 'k option) \<Rightarrow> 'k option \<Rightarrow> 'k option option" where
  "dll_find P nx cur = (case cur of
       None \<Rightarrow> Some None
     | Some k \<Rightarrow> if P k then Some (Some k) else dll_find P nx (nx k))"

lemma dll_find_list:
  assumes "dll_list d xs"
  shows "dll_find P (dl_next d) (dl_head d) = Some (find P xs)"
proof -
  have "distinct (ys @ zs) \<Longrightarrow> dll_find P (succ_of (ys @ zs)) (hd_opt zs) = Some (find P zs)" for ys zs :: "'a list"
  proof (induction zs arbitrary: ys)
    case Nil
    then show ?case by (simp add: dll_find.simps)
  next
    case (Cons z zs)
    then have "dll_find P (succ_of ((ys @ [z]) @ zs)) (hd_opt zs) = Some (find P zs)"
      by (metis append.assoc append_Cons append_Nil)
    then show ?case
      using Cons.prems succ_of_mid [of ys z zs] by (subst dll_find.simps) simp
  qed
  from this [of "[]" xs] show ?thesis using assms by (simp add: dll_list_def)
qed

text \<open>\<open>touch\<close>: to the tail; \<open>move to front\<close>: to the head.\<close>

lemma dll_touch_list:
  assumes "dll_list d xs" "k \<in> set xs"
  shows "dll_list (dll_append k (dll_unlink k d)) (remove1 k xs @ [k])"
  using dll_append_list [OF dll_unlink_list [OF assms]] dll_list_distinct [OF assms(1)] by simp

lemma dll_front_list:
  assumes "dll_list d xs" "k \<in> set xs"
  shows "dll_list (dll_push_head k (dll_unlink k d)) (k # remove1 k xs)"
  using dll_push_head_list [OF dll_unlink_list [OF assms]] dll_list_distinct [OF assms(1)] by simp

end
