(* ===== verification/Request_Model.thy ===== *)
theory Request_Model
  imports Sim_Prelude
begin

text \<open>
  The request and the wait queue (\<open>sim/request.go\<close>, \<open>sim/queue.go\<close>, \<open>sim/batch.go\<close>). A request
  is the record of the fields the modelled components read or write; workload metadata no
  modelled component reads (modality counts, session links, streaming flags) is left out.
  Requests are shared by pointer, so the queue and the batch hold identifiers and the
  records live in a store from identifiers to records, which the components update. The
  \<open>float64\<close> fields are integers by construction (\<open>Priority\<close>) or exact rationals (\<open>specDecodeCarry\<close>).
\<close>

section \<open>Requests\<close>

datatype req_state = StateQueued | StateRunning | StateCompleted | StateTimedOut | StateWaitingForRemoteKVs

record request =
  rq_id :: rid
  rq_input :: "token list"
  rq_output :: "token list"
  rq_max_output :: int
  rq_state :: req_state
  rq_progress :: int
  rq_ttft_set :: bool
  rq_first_token :: tick
  rq_arrival :: tick
  rq_sched_step :: int
  rq_fin_step :: int
  rq_departure :: tick
  rq_new_tokens :: int
  rq_length_capped :: bool
  rq_itl :: "int list"
  rq_priority :: int
  rq_tenant :: string
  rq_model :: string
  rq_slo_class :: string
  rq_adapter :: string
  rq_adapter_pinned :: bool
  rq_deadline :: tick
  rq_slo_target :: int
  rq_redirected :: bool
  rq_decode_sub :: bool
  rq_gw_enqueue :: tick
  rq_gw_dispatch :: tick
  rq_carry :: rat

type_synonym req_store = "rid \<Rightarrow> request"

definition input_len :: "request \<Rightarrow> int" where
  "input_len r = int (length (rq_input r))"

definition output_len :: "request \<Rightarrow> int" where
  "output_len r = int (length (rq_output r))"

text \<open>The progress index at which a request is finished.\<close>

definition completion_progress_index :: "request \<Rightarrow> int" where
  "completion_progress_index r = input_len r + max (output_len r) 1 - 1"

definition full_input_tokens :: "request \<Rightarrow> token list" where
  "full_input_tokens r = rq_input r"

text \<open>\<open>InputTokenSlice\<close> panics outside the prompt.\<close>

definition input_token_slice :: "request \<Rightarrow> int \<Rightarrow> int \<Rightarrow> token list outcome" where
  "input_token_slice r start stop =
     (if start < 0 \<or> stop < start \<or> stop > input_len r
      then Inl (Panic ''Request.InputTokenSlice: invalid range'')
      else Inr (take (nat (stop - start)) (drop (nat start) (rq_input r))))"

lemma input_len_nonneg [simp]: "0 \<le> input_len r"
  by (simp add: input_len_def)

lemma output_len_nonneg [simp]: "0 \<le> output_len r"
  by (simp add: output_len_def)

lemma input_token_slice_ok:
  assumes "0 \<le> start" "start \<le> stop" "stop \<le> input_len r"
  shows "\<exists>ts. input_token_slice r start stop = Inr ts \<and> int (length ts) = stop - start"
  using assms by (auto simp: input_token_slice_def input_len_def)

lemma completion_after_input: "input_len r \<le> completion_progress_index r"
  by (simp add: completion_progress_index_def)

section \<open>The wait queue\<close>

text \<open>A FIFO queue of request pointers; the front is the head of the list.\<close>

type_synonym wait_queue = "rid list"

definition wq_enqueue :: "rid \<Rightarrow> wait_queue \<Rightarrow> wait_queue" where
  "wq_enqueue r q = q @ [r]"

definition wq_len :: "wait_queue \<Rightarrow> int" where
  "wq_len q = int (length q)"

definition wq_peek :: "wait_queue \<Rightarrow> rid option" where
  "wq_peek q = (case q of [] \<Rightarrow> None | r # _ \<Rightarrow> Some r)"

definition wq_peek_at :: "int \<Rightarrow> wait_queue \<Rightarrow> rid option" where
  "wq_peek_at i q = (if i < 0 \<or> i \<ge> int (length q) then None else Some (q ! nat i))"

definition wq_prepend_front :: "rid \<Rightarrow> wait_queue \<Rightarrow> wait_queue" where
  "wq_prepend_front r q = [r] @ q"

text \<open>\<open>Reorder\<close> panics when the function changes the length of the queue.\<close>

definition wq_reorder :: "(rid list \<Rightarrow> rid list) \<Rightarrow> wait_queue \<Rightarrow> wait_queue outcome" where
  "wq_reorder fn q =
     (if length (fn q) \<noteq> length q then Inl (Panic ''Reorder: fn changed queue length'') else Inr (fn q))"

fun wq_remove :: "rid \<Rightarrow> wait_queue \<Rightarrow> bool \<times> wait_queue" where
  "wq_remove r [] = (False, [])"
| "wq_remove r (x # q) =
     (if x = r then (True, q) else (let (found, q') = wq_remove r q in (found, x # q')))"

definition wq_dequeue :: "wait_queue \<Rightarrow> rid option \<times> wait_queue" where
  "wq_dequeue q = (case q of [] \<Rightarrow> (None, []) | r # q' \<Rightarrow> (Some r, q'))"

lemma wq_remove_eq [simp]: "wq_remove r q = (r \<in> set q, remove1 r q)"
  by (induction q) auto

lemma wq_peek_at_0: "wq_peek_at 0 q = wq_peek q"
  by (cases q) (auto simp: wq_peek_at_def wq_peek_def)

lemma wq_peek_at_SomeD: "wq_peek_at i q = Some r \<Longrightarrow> 0 \<le> i \<and> nat i < length q \<and> q ! nat i = r"
  by (auto simp: wq_peek_at_def split: if_splits)

lemma wq_peek_at_in: "wq_peek_at i q = Some r \<Longrightarrow> r \<in> set q"
  using wq_peek_at_SomeD nth_mem by metis

lemma wq_dequeue_remove1: "q \<noteq> [] \<Longrightarrow> wq_dequeue q = (Some (hd q), remove1 (hd q) q)"
  by (cases q) (auto simp: wq_dequeue_def)

end
