(* ===== verification/Block_Hash.thy ===== *)
theory Block_Hash
  imports Sim_Prelude "HOL-Library.Word"
begin

unbundle bit_operations_syntax

text \<open>
  Content identity of KV blocks (\<open>sim/internal/hash/hash.go\<close>, \<open>sim/internal/kvkey/kvkey.go\<close>):
  SHA-256 over the previous block's digest and the decimal rendering of the tokens, the
  chains of block and chunk keys built from it, and the interner of keys. SHA-256 itself
  is the standard library's and is written out on 32-bit words. The lemmas show that the
  rendering is unambiguous, so that two chains agree on a key only if they agree on the
  whole prefix, unless SHA-256 itself collides on the messages hashed.
\<close>

section \<open>crypto/sha256 and encoding/hex\<close>

type_synonym w32 = "32 word"

text \<open>
  The constants of the standard: the first 32 bits of the fractional parts of the cube roots
  (round constants) and square roots (initial state) of the first primes. \<open>frac_root e p\<close> is
  \<open>\<lfloor>2\<^bsup>32\<^esup> p\<^bsup>1/e\<^esup>\<rfloor> mod 2\<^bsup>32\<^esup>\<close>, the root found bit by bit.
\<close>

fun root_bits :: "nat \<Rightarrow> int \<Rightarrow> nat \<Rightarrow> int \<Rightarrow> int" where
  "root_bits e x 0 r = r"
| "root_bits e x (Suc k) r = root_bits e x k (if (r + 2 ^ k) ^ e \<le> x then r + 2 ^ k else r)"

definition frac_root :: "nat \<Rightarrow> int \<Rightarrow> w32" where
  "frac_root e p = of_int (root_bits e (p * 2 ^ (32 * e)) 38 0)"

definition sha_primes :: "int list" where
  "sha_primes = [2, 3, 5, 7, 11, 13, 17, 19, 23, 29, 31, 37, 41, 43, 47, 53, 59, 61, 67, 71, 73, 79, 83, 89, 97,
    101, 103, 107, 109, 113, 127, 131, 137, 139, 149, 151, 157, 163, 167, 173, 179, 181, 191,
    193, 197, 199, 211, 223, 227, 229, 233, 239, 241, 251, 257, 263, 269, 271, 277, 281, 283,
    293, 307, 311]"

definition sha_k :: "w32 list" where
  "sha_k = map (frac_root 3) sha_primes"

definition sha_init :: "w32 list" where
  "sha_init = map (frac_root 2) (take 8 sha_primes)"

definition sha_s0 :: "w32 \<Rightarrow> w32" where
  "sha_s0 x = word_rotr 7 x XOR word_rotr 18 x XOR drop_bit 3 x"

definition sha_s1 :: "w32 \<Rightarrow> w32" where
  "sha_s1 x = word_rotr 17 x XOR word_rotr 19 x XOR drop_bit 10 x"

text \<open>The message schedule: \<open>n\<close> more words after those in \<open>ws\<close>.\<close>

fun sha_schedule :: "nat \<Rightarrow> w32 list \<Rightarrow> w32 list" where
  "sha_schedule 0 ws = ws"
| "sha_schedule (Suc n) ws =
     (let t = length ws
      in sha_schedule n (ws @ [sha_s1 (ws ! (t - 2)) + ws ! (t - 7) + sha_s0 (ws ! (t - 15)) + ws ! (t - 16)]))"

definition sha_round :: "w32 \<times> w32 \<Rightarrow> w32 list \<Rightarrow> w32 list" where
  "sha_round kw hs =
     (let a = hs ! 0; b = hs ! 1; c = hs ! 2; d = hs ! 3; e = hs ! 4; f = hs ! 5; g = hs ! 6; h = hs ! 7;
          s1 = word_rotr 6 e XOR word_rotr 11 e XOR word_rotr 25 e;
          ch = (e AND f) XOR (NOT e AND g);
          t1 = h + s1 + ch + fst kw + snd kw;
          s0 = word_rotr 2 a XOR word_rotr 13 a XOR word_rotr 22 a;
          maj = (a AND b) XOR (a AND c) XOR (b AND c)
      in [t1 + (s0 + maj), a, b, c, d + t1, e, f, g])"

definition sha_rounds :: "(w32 \<times> w32) list \<Rightarrow> w32 list \<Rightarrow> w32 list" where
  "sha_rounds kws hs = fold sha_round kws hs"

definition sha_compress :: "w32 list \<Rightarrow> w32 list \<Rightarrow> w32 list" where
  "sha_compress hs ws = map2 (+) hs (sha_rounds (zip sha_k (sha_schedule 48 ws)) hs)"

fun sha_blocks :: "w32 list \<Rightarrow> w32 list \<Rightarrow> nat \<Rightarrow> w32 list" where
  "sha_blocks hs ws 0 = hs"
| "sha_blocks hs ws (Suc n) = sha_blocks (sha_compress hs (take 16 ws)) (drop 16 ws) n"

fun be_words :: "nat list \<Rightarrow> w32 list" where
  "be_words (a # b # c # d # bs) = of_nat (((a * 256 + b) * 256 + c) * 256 + d) # be_words bs"
| "be_words _ = []"

definition be_bytes :: "w32 \<Rightarrow> nat list" where
  "be_bytes w = map (\<lambda>i. unat w div 256 ^ i mod 256) [3, 2, 1, 0]"

definition sha_pad :: "nat list \<Rightarrow> nat list" where
  "sha_pad m = m @ [128] @ replicate ((119 - length m mod 64) mod 64) 0 @
               map (\<lambda>i. (8 * length m) div 256 ^ i mod 256) [7, 6, 5, 4, 3, 2, 1, 0]"

definition sha256 :: "string \<Rightarrow> nat list" where
  "sha256 m = (let p = sha_pad (map of_char m)
               in concat (map be_bytes (sha_blocks sha_init (be_words p) (length p div 64))))"

definition hex_digit :: "nat \<Rightarrow> char" where
  "hex_digit n = (if n < 10 then char_of (48 + n) else char_of (87 + n))"

definition hex_encode :: "nat list \<Rightarrow> string" where
  "hex_encode bs = concat (map (\<lambda>b. [hex_digit (b div 16 mod 16), hex_digit (b mod 16)]) bs)"

section \<open>Hashing a block\<close>

text \<open>\<open>strconv.AppendInt(_, _, 10)\<close>.\<close>

fun nat_digits :: "nat \<Rightarrow> string" where
  "nat_digits n = (if n < 10 then [char_of (48 + n)] else nat_digits (n div 10) @ [char_of (48 + n mod 10)])"

declare nat_digits.simps [simp del]

definition dec_int :: "int \<Rightarrow> string" where
  "dec_int i = (if i < 0 then CHR ''-'' # nat_digits (nat (- i)) else nat_digits (nat i))"

text \<open>The bytes \<open>HashBlock\<close> writes to the hasher.\<close>

definition hash_preimage :: "string \<Rightarrow> token list \<Rightarrow> string" where
  "hash_preimage prev ts = prev @ concat (map (\<lambda>t. dec_int t @ ''|'') ts)"

definition hash_block :: "string \<Rightarrow> token list \<Rightarrow> string" where
  "hash_block prev ts = hex_encode (sha256 (hash_preimage prev ts))"

text \<open>The chain loop over the complete blocks of a token sequence.\<close>

fun block_hashes_loop :: "nat \<Rightarrow> nat \<Rightarrow> string \<Rightarrow> token list \<Rightarrow> string list" where
  "block_hashes_loop bs 0 prev ts = []"
| "block_hashes_loop bs (Suc n) prev ts =
     (let h = hash_block prev (take bs ts) in h # block_hashes_loop bs n h (drop bs ts))"

definition compute_block_hashes :: "int \<Rightarrow> token list \<Rightarrow> string list outcome" where
  "compute_block_hashes bs ts =
     (if bs \<le> 0 then Inl (Panic ''ComputeBlockHashes: blockSize must be > 0'')
      else Inr (block_hashes_loop (nat bs) (length ts div nat bs) '''' ts))"

definition derive_chunk_keys :: "string \<Rightarrow> token list \<Rightarrow> int \<Rightarrow> string list outcome" where
  "derive_chunk_keys prev ts tokens_per_chunk =
     (if tokens_per_chunk \<le> 0 then Inl (Panic ''DeriveChunkKeys: tokensPerChunk must be > 0'')
      else Inr (block_hashes_loop (nat tokens_per_chunk) (length ts div nat tokens_per_chunk) prev ts))"

section \<open>The interner\<close>

record interner =
  in_ids :: "string \<rightharpoonup> nat"
  in_keys :: "string list"

definition new_interner :: interner where
  "new_interner = \<lparr>in_ids = Map.empty, in_keys = []\<rparr>"

definition intern :: "string \<Rightarrow> interner \<Rightarrow> nat \<times> interner" where
  "intern k s = (case in_ids s k of
       Some i \<Rightarrow> (i, s)
     | None \<Rightarrow> (let i = length (in_keys s)
               in (i, s\<lparr>in_ids := (in_ids s)(k \<mapsto> i), in_keys := in_keys s @ [k]\<rparr>)))"

definition interner_key :: "int \<Rightarrow> interner \<Rightarrow> string option" where
  "interner_key i s = (if i < 0 \<or> i \<ge> int (length (in_keys s)) then None else Some (in_keys s ! nat i))"

definition interner_len :: "interner \<Rightarrow> int" where
  "interner_len s = int (length (in_keys s))"

definition interner_inv :: "interner \<Rightarrow> bool" where
  "interner_inv s \<longleftrightarrow> distinct (in_keys s) \<and>
     (\<forall>k i. in_ids s k = Some i \<longleftrightarrow> i < length (in_keys s) \<and> in_keys s ! i = k)"

lemma interner_inv_new: "interner_inv new_interner"
  by (simp add: interner_inv_def new_interner_def)

lemma intern_inv:
  assumes inv: "interner_inv s" and step: "intern k s = (i, s')"
  shows "interner_inv s'" "in_ids s' k = Some i" "i < length (in_keys s')" "in_keys s' ! i = k"
proof -
  have ids: "in_ids s j = Some n \<longleftrightarrow> n < length (in_keys s) \<and> in_keys s ! n = j" for j n
    using inv by (simp add: interner_inv_def)
  have "interner_inv s' \<and> in_ids s' k = Some i \<and> i < length (in_keys s') \<and> in_keys s' ! i = k"
  proof (cases "in_ids s k")
    case None
    then have new: "k \<notin> set (in_keys s)"
      using ids by (metis in_set_conv_nth option.distinct(1))
    have s': "s' = s\<lparr>in_ids := (in_ids s)(k \<mapsto> i), in_keys := in_keys s @ [k]\<rparr>" "i = length (in_keys s)"
      using step None by (auto simp: intern_def Let_def)
    have "in_ids s' j = Some n \<longleftrightarrow> n < length (in_keys s') \<and> in_keys s' ! n = j" for j n
      using ids [of j n] s' new None nth_mem [of n "in_keys s"] by (auto simp: nth_append less_Suc_eq)
    then show ?thesis using inv s' new by (simp add: interner_inv_def)
  next
    case (Some n)
    then have "s' = s" "i = n" using step by (simp_all add: intern_def)
    then show ?thesis using Some inv ids [of k n] by simp
  qed
  then show "interner_inv s'" "in_ids s' k = Some i" "i < length (in_keys s')" "in_keys s' ! i = k"
    by simp_all
qed

section \<open>Digests have a fixed length\<close>

lemma length_hex_encode: "length (hex_encode bs) = 2 * length bs"
  by (induction bs) (auto simp: hex_encode_def)

lemma length_sha_rounds: "length hs = 8 \<Longrightarrow> length (sha_rounds kws hs) = 8"
  unfolding sha_rounds_def by (induction kws arbitrary: hs) (auto simp: sha_round_def Let_def)

lemma length_sha_compress: "length hs = 8 \<Longrightarrow> length (sha_compress hs ws) = 8"
  by (simp add: sha_compress_def length_sha_rounds)

lemma length_sha_blocks: "length hs = 8 \<Longrightarrow> length (sha_blocks hs ws n) = 8"
  by (induction n arbitrary: hs ws) (auto simp: length_sha_compress)

lemma length_concat_const: "(\<And>x. x \<in> set xs \<Longrightarrow> length (f x) = n) \<Longrightarrow> length (concat (map f xs)) = n * length xs"
  by (induction xs) auto

lemma length_sha256: "length (sha256 m) = 32"
  by (simp add: sha256_def Let_def length_concat_const [where n = 4] be_bytes_def length_sha_blocks sha_init_def sha_primes_def)

lemma length_hash_block: "length (hash_block p ts) = 64"
  by (simp add: hash_block_def length_hex_encode length_sha256)

lemma hash_block_nonempty [simp]: "hash_block p ts \<noteq> []" "[] \<noteq> hash_block p ts"
  using length_hash_block [of p ts] by auto

lemma length_block_hashes_loop [simp]: "length (block_hashes_loop bs n p ts) = n"
  by (induction n arbitrary: p ts) (auto simp: Let_def)

section \<open>The rendering is unambiguous\<close>

text \<open>
  Tokens are 32-bit, so a rendered token is never as long as a digest: the length of the
  text before the first separator tells whether a digest precedes the tokens.
\<close>

definition token_ok :: "token \<Rightarrow> bool" where
  "token_ok t \<longleftrightarrow> - (2 ^ 31) \<le> t \<and> t < 2 ^ 31"

text \<open>The previous keys a chain starts from or passes through.\<close>

definition prev_ok :: "string \<Rightarrow> bool" where
  "prev_ok p \<longleftrightarrow> p = [] \<or> length p = 64 \<and> CHR ''|'' \<notin> set p"

lemma of_char_digit: "m < 10 \<Longrightarrow> of_char (char_of (48 + m :: nat)) = 48 + m"
  by (simp add: of_char_of)

lemma char_of_digit_inj: "m < 10 \<Longrightarrow> n < 10 \<Longrightarrow> char_of (48 + m :: nat) = char_of (48 + n) \<Longrightarrow> m = n"
  by (metis of_char_digit add_left_cancel)

lemma char_of_digit_neq:
  assumes "m < 10"
  shows "char_of (48 + m :: nat) \<noteq> CHR ''|''" "char_of (48 + m :: nat) \<noteq> CHR ''-''"
proof -
  have c: "of_char (CHR ''|'') = (124 :: nat)" "of_char (CHR ''-'') = (45 :: nat)" by simp_all
  have "48 + m \<noteq> 124" "48 + m \<noteq> 45" using assms by simp_all
  then show "char_of (48 + m :: nat) \<noteq> CHR ''|''" "char_of (48 + m :: nat) \<noteq> CHR ''-''"
    using of_char_digit [OF assms] c by metis+
qed

lemma nat_digits_chars: "c \<in> set (nat_digits n) \<Longrightarrow> \<exists>m < 10. c = char_of (48 + m :: nat)"
proof (induction n rule: nat_digits.induct)
  case (1 n)
  show ?case
  proof (cases "n < 10")
    case True
    then show ?thesis using 1(2) by (auto simp: nat_digits.simps [of n])
  next
    case False
    then have "c \<in> set (nat_digits (n div 10)) \<or> c = char_of (48 + n mod 10)"
      using 1(2) by (auto simp: nat_digits.simps [of n])
    moreover have "n mod 10 < 10" by simp
    ultimately show ?thesis using 1(1) False by blast
  qed
qed

lemma nat_digits_nonempty [simp]: "nat_digits n \<noteq> []"
  by (subst nat_digits.simps) simp

lemma nat_digits_inj: "nat_digits m = nat_digits n \<Longrightarrow> m = n"
proof (induction m arbitrary: n rule: nat_digits.induct)
  case (1 m)
  have e: "nat_digits m = nat_digits n" by fact
  show ?case
  proof (cases "m < 10 \<or> n < 10")
    case True
    have ne: "nat_digits k \<noteq> []" for k by (simp add: nat_digits.simps [of k])
    show ?thesis
      using e True ne [of "m div 10"] ne [of "n div 10"] ne [of "m div 10", symmetric] ne [of "n div 10", symmetric]
      by (auto simp: nat_digits.simps [of m] nat_digits.simps [of n] split: if_splits dest: char_of_digit_inj)
  next
    case False
    then have "nat_digits (m div 10) = nat_digits (n div 10)" "char_of (48 + m mod 10) = (char_of (48 + n mod 10) :: char)"
      using e by (simp_all add: nat_digits.simps [of m] nat_digits.simps [of n])
    then have "m div 10 = n div 10" "m mod 10 = n mod 10"
      using 1(1) False char_of_digit_inj [of "m mod 10" "n mod 10"] by auto
    then show ?thesis by (metis div_mod_decomp)
  qed
qed

lemma length_nat_digits: "n < 10 ^ Suc k \<Longrightarrow> length (nat_digits n) \<le> Suc k"
proof (induction k arbitrary: n)
  case 0
  then show ?case by (simp add: nat_digits.simps)
next
  case (Suc k)
  then have "n div 10 < 10 ^ Suc k" by (simp add: less_mult_imp_div_less mult.commute)
  then show ?case using Suc.IH [of "n div 10"] by (subst nat_digits.simps) auto
qed

lemma dec_int_no_sep: "CHR ''|'' \<notin> set (dec_int t)"
proof -
  have "CHR ''|'' \<notin> set (nat_digits n)" for n
    using nat_digits_chars [of "CHR ''|''" n] char_of_digit_neq(1) by metis
  then show ?thesis by (simp add: dec_int_def)
qed

lemma dec_int_inj: "dec_int s = dec_int t \<Longrightarrow> s = t"
proof -
  have "CHR ''-'' # xs \<noteq> nat_digits n" for xs n
    using nat_digits_chars [of "CHR ''-''" n] char_of_digit_neq(2) by (metis list.set_intros(1))
  then show "dec_int s = dec_int t \<Longrightarrow> s = t"
    by (auto simp: dec_int_def dest!: nat_digits_inj split: if_splits) metis+
qed

lemma length_dec_int:
  assumes "token_ok t"
  shows "length (dec_int t) \<le> 11"
proof -
  have "length (nat_digits n) \<le> 10" if "n < 10 ^ 10" for n
    using length_nat_digits [of n 9] that by simp
  moreover have "nat t < 10 ^ 10" "nat (- t) < 10 ^ 10"
    using assms by (auto simp: token_ok_def nat_less_iff)
  ultimately have "length (nat_digits (nat t)) \<le> 10" "length (nat_digits (nat (- t))) \<le> 10"
    by blast+
  then show ?thesis by (simp add: dec_int_def)
qed

text \<open>Text up to the first separator determines itself and the rest.\<close>

lemma sep_unique:
  "c \<notin> set xs \<Longrightarrow> c \<notin> set ys \<Longrightarrow> xs @ c # r = ys @ c # r' \<Longrightarrow> xs = ys \<and> r = r'"
proof (induction xs arbitrary: ys)
  case Nil
  then show ?case by (cases ys) auto
next
  case (Cons x xs)
  then show ?case by (cases ys) auto
qed

definition render_tokens :: "token list \<Rightarrow> string" where
  "render_tokens ts = concat (map (\<lambda>t. dec_int t @ ''|'') ts)"

lemma render_tokens_simps [simp]:
  "render_tokens [] = []" "render_tokens (t # ts) = dec_int t @ CHR ''|'' # render_tokens ts"
  by (simp_all add: render_tokens_def)

lemma render_tokens_inj: "render_tokens ts = render_tokens us \<Longrightarrow> ts = us"
proof (induction ts arbitrary: us)
  case Nil
  then show ?case by (cases us) auto
next
  case (Cons t ts)
  then obtain u us' where us: "us = u # us'" by (cases us) auto
  then have "dec_int t = dec_int u \<and> render_tokens ts = render_tokens us'"
    using Cons.prems sep_unique [OF dec_int_no_sep dec_int_no_sep] by simp
  then show ?case using Cons.IH us dec_int_inj by blast
qed

lemma hash_preimage_inj:
  assumes "prev_ok p" "prev_ok q" "ts \<noteq> []" "us \<noteq> []"
    and "\<forall>t \<in> set ts \<union> set us. token_ok t"
    and "hash_preimage p ts = hash_preimage q us"
  shows "p = q \<and> ts = us"
proof -
  obtain t ts' u us' where c: "ts = t # ts'" "us = u # us'"
    using assms(3,4) by (meson list.exhaust)
  have "(p @ dec_int t) @ CHR ''|'' # render_tokens ts' = (q @ dec_int u) @ CHR ''|'' # render_tokens us'"
    using assms(6) c by (simp add: hash_preimage_def render_tokens_def)
  moreover have "CHR ''|'' \<notin> set (p @ dec_int t)" "CHR ''|'' \<notin> set (q @ dec_int u)"
    using assms(1,2) dec_int_no_sep by (auto simp: prev_ok_def)
  ultimately have e: "p @ dec_int t = q @ dec_int u" and r: "render_tokens ts' = render_tokens us'"
    using sep_unique [of "CHR ''|''" "p @ dec_int t" "q @ dec_int u"] by metis+
  have "length (dec_int t) \<le> 11" "length (dec_int u) \<le> 11"
    using assms(5) c length_dec_int by auto
  moreover have "length p + length (dec_int t) = length q + length (dec_int u)"
    using arg_cong [OF e, of length] by simp
  ultimately have "length p = length q"
    using assms(1,2) by (auto simp: prev_ok_def)
  then have "p = q" "dec_int t = dec_int u"
    using e append_eq_append_conv [of p q "dec_int t" "dec_int u"] by simp_all
  then show ?thesis using r c dec_int_inj render_tokens_inj by blast
qed

section \<open>Digests are hexadecimal text\<close>

lemma sha256_bytes: "b \<in> set (sha256 m) \<Longrightarrow> b < 256"
  by (auto simp: sha256_def Let_def be_bytes_def)

lemma hex_digit_inj: "m < 16 \<Longrightarrow> n < 16 \<Longrightarrow> hex_digit m = hex_digit n \<Longrightarrow> m = n"
  by (drule arg_cong [where f = "of_char :: char \<Rightarrow> nat"])
    (auto simp: hex_digit_def of_char_of split: if_splits)

lemma hex_digit_no_sep: "n < 16 \<Longrightarrow> hex_digit n \<noteq> CHR ''|''"
proof
  assume n: "n < 16" and "hex_digit n = CHR ''|''"
  then have "of_char (hex_digit n) = (124 :: nat)" by simp
  then show False using n by (auto simp: hex_digit_def of_char_of split: if_splits)
qed

lemma hex_encode_inj:
  "\<forall>b \<in> set bs \<union> set cs. b < 256 \<Longrightarrow> hex_encode bs = hex_encode cs \<Longrightarrow> bs = cs"
proof (induction bs arbitrary: cs)
  case Nil
  then show ?case by (cases cs) (auto simp: hex_encode_def)
next
  case (Cons b bs)
  then obtain c cs' where cs: "cs = c # cs'" by (cases cs) (auto simp: hex_encode_def)
  have d: "hex_digit (b div 16 mod 16) = hex_digit (c div 16 mod 16)" "hex_digit (b mod 16) = hex_digit (c mod 16)"
    "hex_encode bs = hex_encode cs'"
    using Cons.prems(2) cs by (auto simp: hex_encode_def)
  then have "b div 16 mod 16 = c div 16 mod 16" "b mod 16 = c mod 16"
    using hex_digit_inj by simp_all
  moreover have "b div 16 < 16" "c div 16 < 16" using Cons.prems(1) cs by auto
  ultimately have "b = c" by (metis div_mod_decomp mod_less)
  then show ?case using Cons.IH [of cs'] Cons.prems(1) cs d(3) by simp
qed

lemma prev_ok_hash_block [simp]: "prev_ok (hash_block p ts)"
proof -
  have "CHR ''|'' \<notin> set (hex_encode bs)" for bs
    by (induction bs) (auto simp: hex_encode_def hex_digit_no_sep [symmetric])
  then show ?thesis by (simp add: prev_ok_def length_hash_block) (simp add: hash_block_def)
qed

lemma prev_ok_Nil [simp]: "prev_ok []"
  by (simp add: prev_ok_def)

lemma hash_block_inj:
  assumes "inj_on sha256 M" "hash_preimage p ts \<in> M" "hash_preimage q us \<in> M"
    and "prev_ok p" "prev_ok q" "ts \<noteq> []" "us \<noteq> []"
    and "\<forall>t \<in> set ts \<union> set us. token_ok t"
    and "hash_block p ts = hash_block q us"
  shows "p = q \<and> ts = us"
proof -
  have "sha256 (hash_preimage p ts) = sha256 (hash_preimage q us)"
    using assms(9) hex_encode_inj sha256_bytes by (auto simp: hash_block_def)
  then have "hash_preimage p ts = hash_preimage q us"
    using assms(1-3) by (metis inj_onD)
  then show ?thesis using hash_preimage_inj assms(4-8) by blast
qed

text \<open>The same on a set of hashed blocks: no two of them share a key.\<close>

definition hashable :: "string \<times> token list \<Rightarrow> bool" where
  "hashable b \<longleftrightarrow> prev_ok (fst b) \<and> snd b \<noteq> [] \<and> (\<forall>t \<in> set (snd b). token_ok t)"

lemma inj_on_hash_block:
  assumes "inj_on sha256 ((\<lambda>b. hash_preimage (fst b) (snd b)) ` B)" "\<forall>b \<in> B. hashable b"
  shows "inj_on (\<lambda>b. hash_block (fst b) (snd b)) B"
proof (rule inj_onI)
  fix a b
  assume ab: "a \<in> B" "b \<in> B" and e: "hash_block (fst a) (snd a) = hash_block (fst b) (snd b)"
  have "fst a = fst b \<and> snd a = snd b"
    by (rule hash_block_inj [OF assms(1)]) (use ab e assms(2) in \<open>auto simp: hashable_def\<close>)
  then show "a = b" by (simp add: prod_eq_iff)
qed

section \<open>Chains of keys\<close>

text \<open>The \<open>i\<close>-th block of a token sequence and the key it is chained to.\<close>

definition nth_block :: "nat \<Rightarrow> token list \<Rightarrow> nat \<Rightarrow> token list" where
  "nth_block bs ts i = take bs (drop (i * bs) ts)"

definition chain_prev :: "nat \<Rightarrow> nat \<Rightarrow> string \<Rightarrow> token list \<Rightarrow> nat \<Rightarrow> string" where
  "chain_prev bs n p ts i = (if i = 0 then p else block_hashes_loop bs n p ts ! (i - 1))"

lemma block_hashes_loop_nth:
  "i < n \<Longrightarrow> block_hashes_loop bs n p ts ! i = hash_block (chain_prev bs n p ts i) (nth_block bs ts i)"
proof (induction n arbitrary: i p ts)
  case (Suc n)
  let ?h = "hash_block p (take bs ts)"
  show ?case
  proof (cases i)
    case 0
    then show ?thesis by (simp add: chain_prev_def nth_block_def Let_def)
  next
    case (Suc j)
    then have "block_hashes_loop bs (Suc n) p ts ! i = block_hashes_loop bs n ?h (drop bs ts) ! j"
      by (simp add: Let_def)
    also have "\<dots> = hash_block (chain_prev bs n ?h (drop bs ts) j) (nth_block bs (drop bs ts) j)"
      using Suc.IH [of j] Suc.prems Suc by simp
    also have "chain_prev bs n ?h (drop bs ts) j = chain_prev bs (Suc n) p ts i"
      using Suc by (cases j) (simp_all add: chain_prev_def Let_def)
    also have "nth_block bs (drop bs ts) j = nth_block bs ts i"
      using Suc by (simp add: nth_block_def add.commute)
    finally show ?thesis .
  qed
qed simp

lemma take_nth_block: "take (Suc i * bs) ts = take (i * bs) ts @ nth_block bs ts i"
  by (simp add: nth_block_def take_add [symmetric] add.commute)

text \<open>The blocks a chain over \<open>ts\<close> hashes, with the keys they are chained to.\<close>

definition chain_pairs :: "nat \<Rightarrow> nat \<Rightarrow> string \<Rightarrow> token list \<Rightarrow> (string \<times> token list) set" where
  "chain_pairs bs n p ts = (\<lambda>i. (chain_prev bs n p ts i, nth_block bs ts i)) ` {..<n}"

lemma chain_prev_ok: "prev_ok p \<Longrightarrow> i \<le> n \<Longrightarrow> prev_ok (chain_prev bs n p ts i)"
  by (cases i) (auto simp: chain_prev_def block_hashes_loop_nth)

lemma nth_block_nonempty: "0 < bs \<Longrightarrow> i < n \<Longrightarrow> n * bs \<le> length ts \<Longrightarrow> nth_block bs ts i \<noteq> []"
proof -
  assume a: "0 < bs" "i < n" "n * bs \<le> length ts"
  then have "i * bs < length ts" using mult_less_mono1 [of i n bs] by linarith
  then show ?thesis using a by (simp add: nth_block_def)
qed

lemma set_nth_block: "set (nth_block bs ts i) \<subseteq> set ts"
  by (auto simp: nth_block_def dest: in_set_takeD in_set_dropD)

lemma chain_pairs_hashable:
  assumes "0 < bs" "prev_ok p" "n * bs \<le> length ts" "\<forall>t \<in> set ts. token_ok t" "b \<in> chain_pairs bs n p ts"
  shows "hashable b"
  using assms set_nth_block [of bs ts] nth_block_nonempty [OF assms(1) _ assms(3)]
  by (auto simp: chain_pairs_def hashable_def chain_prev_ok subset_iff)

lemma chain_key_agree:
  assumes inj: "inj_on (\<lambda>b. hash_block (fst b) (snd b)) (chain_pairs bs n [] ts \<union> chain_pairs bs m [] us)"
    and "i < n" "j < m"
    and "block_hashes_loop bs n [] ts ! i = block_hashes_loop bs m [] us ! j"
  shows "i = j \<and> take (Suc i * bs) ts = take (Suc i * bs) us"
  using assms(2-4)
proof (induction i arbitrary: j)
  case (0 j)
  have e: "chain_prev bs n [] ts 0 = chain_prev bs m [] us j \<and> nth_block bs ts 0 = nth_block bs us j"
    using inj_onD [OF inj, of "(chain_prev bs n [] ts 0, nth_block bs ts 0)" "(chain_prev bs m [] us j, nth_block bs us j)"]
      0 by (auto simp: chain_pairs_def block_hashes_loop_nth)
  then have "j = 0"
    using 0(2) by (cases j) (auto simp: chain_prev_def block_hashes_loop_nth dest: sym)
  then show ?case using e take_nth_block [of 0 bs ts] take_nth_block [of 0 bs us] by simp
next
  case (Suc i j)
  have e: "chain_prev bs n [] ts (Suc i) = chain_prev bs m [] us j \<and> nth_block bs ts (Suc i) = nth_block bs us j"
    using inj_onD [OF inj, of "(chain_prev bs n [] ts (Suc i), nth_block bs ts (Suc i))"
        "(chain_prev bs m [] us j, nth_block bs us j)"]
      Suc.prems by (auto simp: chain_pairs_def block_hashes_loop_nth)
  obtain j' where j: "j = Suc j'"
    using e Suc.prems(1) by (cases j) (auto simp: chain_prev_def block_hashes_loop_nth)
  have "i = j' \<and> take (Suc i * bs) ts = take (Suc i * bs) us"
    using Suc.IH [of j'] Suc.prems e j by (auto simp: chain_prev_def)
  then show ?case using e j take_nth_block [of "Suc i" bs ts] take_nth_block [of j bs us] by auto
qed

end
