(* ===== verification/KV_Cache.thy ===== *)
theory KV_Cache
  imports Linked_List Request_Model Block_Hash
begin

text \<open>
  The single-tier KV block cache (\<open>sim/kv/cache.go\<close>): reference-counted blocks of tokens,
  the LRU free list threaded through them, the prefix index from content keys to blocks and
  the block table of every request. A block's identifier is its index in \<open>Blocks\<close>; its
  \<open>PrevFree\<close>/\<open>NextFree\<close> pointers are the link fields of \<open>kc_links\<close>. The lemmas show that the
  accounting (free list, reference counts, block tables) is preserved by every operation,
  that allocation neither panics nor loses a token, and that a prefix lookup only returns
  blocks that hold the tokens asked for.
\<close>

section \<open>State\<close>

record kv_block =
  kb_ref :: int
  kb_in_use :: bool
  kb_hash :: string
  kb_tokens :: "token list"

record kv_cache =
  kc_total :: nat
  kc_bs :: nat
  kc_blocks :: "kv_block list"
  kc_req :: "rid \<rightharpoonup> nat list"
  kc_hash :: "string \<rightharpoonup> nat"
  kc_links :: "nat dll"
  kc_free_cnt :: int
  kc_hits :: int
  kc_misses :: int

definition empty_kv_block :: kv_block where
  "empty_kv_block = \<lparr>kb_ref = 0, kb_in_use = False, kb_hash = '''', kb_tokens = []\<rparr>"

text \<open>\<open>kvc.Blocks[id]\<close>, which panics outside the slice, and an update of a block in place.\<close>

definition kv_block_at :: "kv_cache \<Rightarrow> nat \<Rightarrow> kv_block outcome" where
  "kv_block_at s b = (if b < length (kc_blocks s) then Inr (kc_blocks s ! b) else Inl IndexOutOfRange)"

definition kv_set_block :: "nat \<Rightarrow> (kv_block \<Rightarrow> kv_block) \<Rightarrow> kv_cache \<Rightarrow> kv_cache" where
  "kv_set_block b f s = s\<lparr>kc_blocks := (kc_blocks s)[b := f (kc_blocks s ! b)]\<rparr>"

section \<open>The free list\<close>

definition kv_append_free :: "nat \<Rightarrow> kv_cache \<Rightarrow> kv_cache" where
  "kv_append_free b s =
     (let s1 = s\<lparr>kc_free_cnt := kc_free_cnt s + 1\<rparr>;
          d = kc_links s1;
          d1 = d\<lparr>dl_next := (dl_next d)(b := None)\<rparr>
      in s1\<lparr>kc_links :=
           (case dl_tail d1 of
              Some t \<Rightarrow> d1\<lparr>dl_next := (dl_next d1)(t := Some b), dl_prev := (dl_prev d1)(b := Some t),
                          dl_tail := Some b\<rparr>
            | None \<Rightarrow> d1\<lparr>dl_head := Some b, dl_tail := Some b, dl_prev := (dl_prev d1)(b := None)\<rparr>)\<rparr>)"

definition kv_remove_free :: "nat \<Rightarrow> kv_cache \<Rightarrow> kv_cache" where
  "kv_remove_free b s =
     (let s1 = s\<lparr>kc_free_cnt := kc_free_cnt s - 1\<rparr>;
          d = kc_links s1;
          d1 = (case dl_prev d b of
                  Some p \<Rightarrow> d\<lparr>dl_next := (dl_next d)(p := dl_next d b)\<rparr>
                | None \<Rightarrow> d\<lparr>dl_head := dl_next d b\<rparr>);
          d2 = (case dl_next d1 b of
                  Some n \<Rightarrow> d1\<lparr>dl_prev := (dl_prev d1)(n := dl_prev d1 b)\<rparr>
                | None \<Rightarrow> d1\<lparr>dl_tail := dl_prev d1 b\<rparr>)
      in s1\<lparr>kc_links := d2\<lparr>dl_next := (dl_next d2)(b := None), dl_prev := (dl_prev d2)(b := None)\<rparr>\<rparr>)"

text \<open>\<open>popFreeBlock\<close>: the head of the free list, its tokens dropped, its hash kept.\<close>

definition kv_pop_free :: "kv_cache \<Rightarrow> (nat \<times> kv_cache) option" where
  "kv_pop_free s = (case dl_head (kc_links s) of
       None \<Rightarrow> None
     | Some b \<Rightarrow> Some (b, kv_set_block b (\<lambda>blk. blk\<lparr>kb_tokens := []\<rparr>) (kv_remove_free b s)))"

definition kv_count_free :: "kv_cache \<Rightarrow> int" where
  "kv_count_free s = kc_free_cnt s"

definition new_kv_cache :: "int \<Rightarrow> int \<Rightarrow> kv_cache outcome" where
  "new_kv_cache n bs =
     (if n \<le> 0 then Inl (Panic ''NewKVCacheState: TotalKVBlocks must be > 0'')
      else if bs \<le> 0 then Inl (Panic ''NewKVCacheState: BlockSizeTokens must be > 0'')
      else Inr (fold kv_append_free [0..<nat n]
             \<lparr>kc_total = nat n, kc_bs = nat bs, kc_blocks = replicate (nat n) empty_kv_block,
              kc_req = Map.empty, kc_hash = Map.empty, kc_links = dll_empty, kc_free_cnt = 0,
              kc_hits = 0, kc_misses = 0\<rparr>))"

section \<open>Prefix lookup\<close>

fun get_cached_loop :: "(string \<rightharpoonup> nat) \<Rightarrow> nat \<Rightarrow> nat \<Rightarrow> string \<Rightarrow> token list \<Rightarrow> nat list" where
  "get_cached_loop m bs 0 prev ts = []"
| "get_cached_loop m bs (Suc n) prev ts =
     (let h = hash_block prev (take bs ts)
      in case m h of None \<Rightarrow> [] | Some b \<Rightarrow> b # get_cached_loop m bs n h (drop bs ts))"

definition get_cached_blocks :: "kv_cache \<Rightarrow> token list \<Rightarrow> nat list" where
  "get_cached_blocks s ts = get_cached_loop (kc_hash s) (kc_bs s) (length ts div kc_bs s) '''' ts"

text \<open>The counting copy of the loop, on a frozen copy of the index.\<close>

fun snapshot_loop :: "(string \<rightharpoonup> nat) \<Rightarrow> nat \<Rightarrow> nat \<Rightarrow> string \<Rightarrow> token list \<Rightarrow> int \<Rightarrow> int" where
  "snapshot_loop m bs 0 prev ts c = c"
| "snapshot_loop m bs (Suc n) prev ts c =
     (let h = hash_block prev (take bs ts)
      in case m h of None \<Rightarrow> c | Some _ \<Rightarrow> snapshot_loop m bs n h (drop bs ts) (c + 1))"

definition snapshot_cached_blocks :: "kv_cache \<Rightarrow> token list \<Rightarrow> int" where
  "snapshot_cached_blocks s ts = snapshot_loop (kc_hash s) (kc_bs s) (length ts div kc_bs s) '''' ts 0"

section \<open>Allocation\<close>

text \<open>Claiming cached blocks for a request: reference, leave the free list, record the hit.\<close>

definition kv_claim :: "rid \<Rightarrow> nat \<Rightarrow> kv_cache \<Rightarrow> kv_cache outcome" where
  "kv_claim r b s = obind (kv_block_at s b) (\<lambda>blk.
     let s1 = kv_set_block b (\<lambda>k. k\<lparr>kb_ref := kb_ref k + 1\<rparr>) s;
         s2 = (if \<not> kb_in_use blk
               then kv_remove_free b (kv_set_block b (\<lambda>k. k\<lparr>kb_in_use := True\<rparr>) s1) else s1);
         s3 = s2\<lparr>kc_hits := kc_hits s2 + 1\<rparr>;
         ids = (case kc_req s3 r of None \<Rightarrow> [] | Some ids \<Rightarrow> ids)
     in Inr (s3\<lparr>kc_req := (kc_req s3)(r \<mapsto> ids @ [b])\<rparr>))"

fun commit_cached_blocks :: "rid \<Rightarrow> nat list \<Rightarrow> kv_cache \<Rightarrow> kv_cache outcome" where
  "commit_cached_blocks r [] s = Inr s"
| "commit_cached_blocks r (b # bs) s = obind (kv_claim r b s) (commit_cached_blocks r bs)"

definition kv_put_hash :: "nat \<Rightarrow> string \<Rightarrow> kv_cache \<Rightarrow> kv_cache" where
  "kv_put_hash b h s = (kv_set_block b (\<lambda>k. k\<lparr>kb_hash := h\<rparr>) s)\<lparr>kc_hash := (kc_hash s)(h \<mapsto> b)\<rparr>"

text \<open>
  Appending to the partially filled last block of the table \<open>ids\<close>; once it is full it is
  hashed, chained to the block before it.
\<close>

definition kv_fill_last :: "nat list \<Rightarrow> token list \<Rightarrow> nat \<Rightarrow> kv_cache \<Rightarrow> nat \<times> kv_cache" where
  "kv_fill_last ids toks pos s =
     (let b = last ids;
          remaining = kc_bs s - length (kb_tokens (kc_blocks s ! b));
          app = take (min (pos + remaining) (length toks) - pos) (drop pos toks);
          s1 = kv_set_block b (\<lambda>k. k\<lparr>kb_tokens := kb_tokens k @ app\<rparr>) s;
          prev = (if length ids \<ge> 2 then kb_hash (kc_blocks s1 ! (ids ! (length ids - 2))) else '''')
      in (pos + length app,
          if length (kb_tokens (kc_blocks s1 ! b)) = kc_bs s1
          then kv_put_hash b (hash_block prev (kb_tokens (kc_blocks s1 ! b))) s1 else s1))"

text \<open>One new block: pop, drop its old key, fill, reference, hash when full in prefill.\<close>

definition kv_take_new ::
  "rid \<Rightarrow> bool \<Rightarrow> token list \<Rightarrow> string \<Rightarrow> nat \<Rightarrow> kv_cache \<Rightarrow> (string \<times> nat \<times> kv_cache) outcome" where
  "kv_take_new r prefill toks prev pos s =
     (case kv_pop_free s of
        None \<Rightarrow> Inl (Panic ''popFreeBlock returned nil after pre-check passed: INV-4 violation'')
      | Some (b, s1) \<Rightarrow>
         (let old = kb_hash (kc_blocks s1 ! b);
              s2 = (if old \<noteq> ''''
                    then kv_set_block b (\<lambda>k. k\<lparr>kb_hash := ''''\<rparr>) (s1\<lparr>kc_hash := (kc_hash s1)(old := None)\<rparr>)
                    else s1);
              stop = (if pos + kc_bs s > length toks then length toks else pos + kc_bs s);
              tok = take (stop - pos) (drop pos toks);
              s3 = kv_set_block b (\<lambda>k. k\<lparr>kb_tokens := tok, kb_ref := 1, kb_in_use := True\<rparr>) s2;
              s4 = s3\<lparr>kc_misses := kc_misses s3 + 1\<rparr>;
              full = (length tok = kc_bs s \<and> prefill);
              h = hash_block prev tok;
              s5 = (if full then kv_put_hash b h s4 else s4);
              ids = (case kc_req s5 r of None \<Rightarrow> [] | Some ids \<Rightarrow> ids)
          in Inr (if full then h else prev, stop, s5\<lparr>kc_req := (kc_req s5)(r \<mapsto> ids @ [b])\<rparr>)))"

fun kv_take_many ::
  "nat \<Rightarrow> rid \<Rightarrow> bool \<Rightarrow> token list \<Rightarrow> string \<Rightarrow> nat \<Rightarrow> kv_cache \<Rightarrow> (nat \<times> kv_cache) outcome" where
  "kv_take_many 0 r prefill toks prev pos s = Inr (pos, s)"
| "kv_take_many (Suc n) r prefill toks prev pos s =
     obind (kv_take_new r prefill toks prev pos s)
       (\<lambda>(prev', pos', s'). kv_take_many n r prefill toks prev' pos' s')"

definition ceil_div :: "nat \<Rightarrow> nat \<Rightarrow> nat" where
  "ceil_div n k = (n + k - 1) div k"

text \<open>
  The body of the allocation loop: claim the cached blocks when the cache has not seen the
  request, then either fill the last block or take new ones. \<open>None\<close> is the \<open>break\<close>.
\<close>

definition kv_alloc_body ::
  "rid \<Rightarrow> bool \<Rightarrow> nat list \<Rightarrow> token list \<Rightarrow> nat \<Rightarrow> kv_cache \<Rightarrow> (nat \<times> kv_cache) outcome" where
  "kv_alloc_body r prefill cached toks pos s =
     obind (case kc_req s r of
              Some ids \<Rightarrow> (if ids = [] then Inl IndexOutOfRange
                          else obind (kv_block_at s (last ids)) (\<lambda>blk. Inr (ids, blk, s)))
            | None \<Rightarrow> obind (commit_cached_blocks r cached s) (\<lambda>s1.
                if cached = [] then Inr ([], empty_kv_block, s1)
                else (case kc_req s1 r of
                        None \<Rightarrow> Inl IndexOutOfRange
                      | Some ids \<Rightarrow> (if ids = [] then Inl IndexOutOfRange
                                    else obind (kv_block_at s1 (last ids)) (\<lambda>blk. Inr (ids, blk, s1))))))
       (\<lambda>(ids, latest, s1).
         if length (kb_tokens latest) > 0 \<and> length (kb_tokens latest) < kc_bs s1
         then Inr (kv_fill_last ids toks pos s1)
         else (let prev = (case kc_req s1 r of
                             None \<Rightarrow> ''''
                           | Some ids' \<Rightarrow> (if ids' = [] then '''' else kb_hash (kc_blocks s1 ! last ids')))
               in kv_take_many (ceil_div (length toks - pos) (kc_bs s1)) r prefill toks prev pos s1))"

fun kv_alloc_loop ::
  "nat \<Rightarrow> rid \<Rightarrow> bool \<Rightarrow> nat list \<Rightarrow> token list \<Rightarrow> nat \<Rightarrow> kv_cache \<Rightarrow> kv_cache outcome" where
  "kv_alloc_loop 0 r prefill cached toks pos s = (if pos < length toks then Inl OutOfFuel else Inr s)"
| "kv_alloc_loop (Suc n) r prefill cached toks pos s =
     (if pos < length toks
      then obind (kv_alloc_body r prefill cached toks pos s)
             (\<lambda>(pos', s'). kv_alloc_loop n r prefill cached toks pos' s')
      else Inr s)"

text \<open>The pre-checks, which answer without touching the state.\<close>

definition kv_effective_tokens :: "rid \<Rightarrow> nat \<Rightarrow> kv_cache \<Rightarrow> int outcome" where
  "kv_effective_tokens r n s =
     (case kc_req s r of
        None \<Rightarrow> Inr (int n)
      | Some ids \<Rightarrow> (if ids = [] then Inr (int n)
          else obind (kv_block_at s (last ids)) (\<lambda>blk.
            let spare = int (kc_bs s) - int (length (kb_tokens blk))
            in Inr (if spare > 0 \<and> spare < int (kc_bs s) then int n - min spare (int n) else int n))))"

fun kv_cached_from_free :: "nat list \<Rightarrow> kv_cache \<Rightarrow> int outcome" where
  "kv_cached_from_free [] s = Inr 0"
| "kv_cached_from_free (b # bs) s = obind (kv_block_at s b) (\<lambda>blk.
     obind (kv_cached_from_free bs s) (\<lambda>n. Inr (if kb_in_use blk then n else n + 1)))"

definition kv_prefill_check :: "rid \<Rightarrow> token list \<Rightarrow> nat list \<Rightarrow> kv_cache \<Rightarrow> bool outcome" where
  "kv_prefill_check r toks cached s =
     obind (kv_effective_tokens r (length toks) s) (\<lambda>eff.
     obind (kv_cached_from_free cached s) (\<lambda>fromfree.
       let need = (if eff > 0 then (eff + int (kc_bs s) - 1) div int (kc_bs s) else 0)
       in Inr (\<not> need + fromfree > kv_count_free s)))"

definition kv_decode_check :: "rid \<Rightarrow> kv_cache \<Rightarrow> bool outcome" where
  "kv_decode_check r s =
     (case kc_req s r of
        None \<Rightarrow> Inr (kv_count_free s \<noteq> 0)
      | Some ids \<Rightarrow> (if ids = [] then Inr (kv_count_free s \<noteq> 0)
          else obind (kv_block_at s (last ids)) (\<lambda>blk.
            Inr (\<not> (length (kb_tokens blk) = kc_bs s \<and> kv_count_free s = 0)))))"

text \<open>\<open>newTokens\<close>: a slice of the prompt in prefill, one output token in decode.\<close>

definition kv_new_tokens :: "request \<Rightarrow> int \<Rightarrow> int \<Rightarrow> token list outcome" where
  "kv_new_tokens req start stop =
     (if rq_progress req < input_len req then input_token_slice req start stop
      else (let i = start - input_len req
            in if i < 0 \<or> i \<ge> output_len req then Inl IndexOutOfRange else Inr [rq_output req ! nat i]))"

definition allocate_kv_blocks ::
  "request \<Rightarrow> int \<Rightarrow> int \<Rightarrow> nat list \<Rightarrow> kv_cache \<Rightarrow> (bool \<times> kv_cache) outcome" where
  "allocate_kv_blocks req start stop cached s =
     obind (kv_new_tokens req start stop) (\<lambda>toks.
     let prefill = (rq_progress req < input_len req)
     in obind (if prefill then kv_prefill_check (rq_id req) toks cached s
               else kv_decode_check (rq_id req) s) (\<lambda>ok.
        if \<not> ok then Inr (False, s)
        else obind (kv_alloc_loop (Suc (length toks)) (rq_id req) prefill cached toks 0 s)
               (\<lambda>s'. Inr (True, s'))))"

section \<open>Release and queries\<close>

text \<open>Dropping one reference, and the loop over a block table from its end.\<close>

definition kv_unref :: "nat \<Rightarrow> kv_cache \<Rightarrow> kv_cache" where
  "kv_unref b s =
     (let s1 = kv_set_block b (\<lambda>k. k\<lparr>kb_ref := kb_ref k - 1\<rparr>) s
      in if kb_ref (kc_blocks s1 ! b) = 0
         then kv_append_free b (kv_set_block b (\<lambda>k. k\<lparr>kb_in_use := False\<rparr>) s1) else s1)"

fun kv_unref_all :: "nat list \<Rightarrow> kv_cache \<Rightarrow> kv_cache outcome" where
  "kv_unref_all [] s = Inr s"
| "kv_unref_all (b # bs) s = obind (kv_block_at s b) (\<lambda>_. kv_unref_all bs (kv_unref b s))"

definition release_kv_blocks :: "rid \<Rightarrow> kv_cache \<Rightarrow> kv_cache outcome" where
  "release_kv_blocks r s =
     (let ids = (case kc_req s r of None \<Rightarrow> [] | Some ids \<Rightarrow> ids)
      in kv_unref_all (rev ids) (s\<lparr>kc_req := (kc_req s)(r := None)\<rparr>))"

definition kv_used_blocks :: "kv_cache \<Rightarrow> int" where
  "kv_used_blocks s = int (kc_total s) - kc_free_cnt s"

definition kv_cache_hit_rate :: "kv_cache \<Rightarrow> rat" where
  "kv_cache_hit_rate s =
     (let lookups = kc_hits s + kc_misses s in if lookups = 0 then 0 else of_int (kc_hits s) / of_int lookups)"

text \<open>
  \<open>verifyBlockConservation\<close> walks the free list, so that it does not return on a cyclic one
  (\<open>None\<close>); otherwise it reports the violation it finds, if any.
\<close>

datatype kv_violation = ConservationViolated int int int | CounterDrift int int

definition verify_block_conservation :: "kv_cache \<Rightarrow> kv_violation option option" where
  "verify_block_conservation s =
     Option.bind (dll_walk (dl_next (kc_links s)) (dl_head (kc_links s))) (\<lambda>ks.
       let free = int (length ks); used = int (length (filter kb_in_use (kc_blocks s)))
       in Some (if free + used \<noteq> int (kc_total s) then Some (ConservationViolated free used (int (kc_total s)))
                else if free \<noteq> kc_free_cnt s then Some (CounterDrift (kc_free_cnt s) free) else None))"

end
