(* ===== verification/Batch_Formation.thy ===== *)
theory Batch_Formation
  imports KV_Cache
begin

text \<open>
  Batch formation (\<open>sim/batch_formation.go\<close>): one scheduling pass over the running batch
  (Phase 1: continuing requests, preempting when blocks run out) and the wait queue
  (Phase 2: admissions). The KV store is reached through the interface of
  \<open>sim/kv_store.go\<close>, a record of its operations over an abstract store state; the optional
  capabilities the code finds by type assertion are optional fields. The state that
  \<open>FormBatch\<close> mutates (requests, batch, wait queue, store, computed-token map, token budget,
  result lists) is one record.
\<close>

section \<open>Interfaces and state\<close>

record 'k kv_ops =
  ko_allocate :: "request \<Rightarrow> int \<Rightarrow> int \<Rightarrow> nat list \<Rightarrow> 'k \<Rightarrow> (bool \<times> 'k) outcome"
  ko_cached :: "token list \<Rightarrow> 'k \<Rightarrow> nat list"
  ko_release :: "rid \<Rightarrow> 'k \<Rightarrow> 'k outcome"
  ko_block_size :: "'k \<Rightarrow> int"
  ko_poll_deferred :: "(tick \<Rightarrow> 'k \<Rightarrow> rid list \<times> 'k) option"
  ko_is_deferred :: "rid \<Rightarrow> 'k \<Rightarrow> bool"
  ko_reloadable_end :: "(request \<Rightarrow> int \<Rightarrow> 'k \<Rightarrow> int option) option"

datatype preemption_policy = PreemptionFCFS | PreemptionPriority | PreemptionOther string

record batch_ctx =
  bc_max_tokens :: int
  bc_max_seqs :: int
  bc_prefill_threshold :: int
  bc_max_model_len :: int
  bc_now :: tick
  bc_step_count :: int
  bc_adapter_resident :: "(string \<Rightarrow> bool) option"
  bc_decode_tokens :: "(request \<Rightarrow> int) option"
  bc_no_prefix_cache :: bool

record 'k batch_state =
  bf_reqs :: req_store
  bf_running :: "rid list"
  bf_waitq :: wait_queue
  bf_kv :: 'k
  bf_computed :: "rid \<rightharpoonup> int"
  bf_budget :: int
  bf_scheduled :: "rid list"
  bf_preempted :: "rid list"
  bf_preemption :: bool

definition set_req :: "rid \<Rightarrow> (request \<Rightarrow> request) \<Rightarrow> 'k batch_state \<Rightarrow> 'k batch_state" where
  "set_req r f st = st\<lparr>bf_reqs := (bf_reqs st)(r := f (bf_reqs st r))\<rparr>"

definition new_batch_formation :: "string \<Rightarrow> preemption_policy" where
  "new_batch_formation p =
     (if p = '''' then PreemptionFCFS else if p = ''fcfs'' then PreemptionFCFS
      else if p = ''priority'' then PreemptionPriority else PreemptionOther p)"

definition decode_tokens_to_completion :: "request \<Rightarrow> int" where
  "decode_tokens_to_completion q = max (completion_progress_index q - rq_progress q) 0"

definition min_model_len :: "batch_ctx \<Rightarrow> int \<Rightarrow> int \<Rightarrow> int" where
  "min_model_len ctx pos n = (if bc_max_model_len ctx > 0 then min n (max (bc_max_model_len ctx - 1 - pos) 0) else n)"

section \<open>Preemption\<close>

text \<open>
  \<open>selectPriorityVictim\<close>: the scan from the tail of the batch to its head that keeps the
  request with the largest (priority, arrival) seen, the first one seen on a tie.
\<close>

fun victim_scan :: "req_store \<Rightarrow> rid list \<Rightarrow> nat \<Rightarrow> nat \<Rightarrow> nat" where
  "victim_scan m rs 0 v = v"
| "victim_scan m rs (Suc i) v =
     (let q = m (rs ! i); best = m (rs ! v)
      in victim_scan m rs i
           (if rq_priority q > rq_priority best \<or>
               rq_priority q = rq_priority best \<and> rq_arrival q > rq_arrival best then i else v))"

definition select_priority_victim :: "req_store \<Rightarrow> rid list \<Rightarrow> nat" where
  "select_priority_victim m rs = victim_scan m rs (length rs - 1) (length rs - 1)"

definition victim_index :: "preemption_policy \<Rightarrow> req_store \<Rightarrow> rid list \<Rightarrow> nat" where
  "victim_index pol m rs = (if pol = PreemptionPriority then select_priority_victim m rs else length rs - 1)"

definition reset_preempted :: "request \<Rightarrow> request" where
  "reset_preempted q = q\<lparr>rq_state := StateQueued, rq_progress := 0, rq_itl := [], rq_carry := 0, rq_ttft_set := False\<rparr>"

text \<open>Evicting the request at index \<open>v\<close> of the batch.\<close>

definition evict_victim :: "'k kv_ops \<Rightarrow> nat \<Rightarrow> 'k batch_state \<Rightarrow> 'k batch_state outcome" where
  "evict_victim ops v st =
     (let victim = bf_running st ! v;
          st1 = st\<lparr>bf_preemption := True,
                   bf_running := take v (bf_running st) @ drop (Suc v) (bf_running st),
                   bf_preempted := bf_preempted st @ [victim]\<rparr>;
          n = rq_new_tokens (bf_reqs st1 victim);
          st2 = (if n > 0 then set_req victim (\<lambda>q. q\<lparr>rq_new_tokens := 0\<rparr>) (st1\<lparr>bf_budget := bf_budget st1 + n\<rparr>) else st1);
          st3 = set_req victim reset_preempted st2
      in obind (ko_release ops victim (bf_kv st3)) (\<lambda>kv.
           Inr (st3\<lparr>bf_kv := kv, bf_computed := (bf_computed st3)(victim := None),
                    bf_waitq := wq_prepend_front victim (bf_waitq st3)\<rparr>)))"

text \<open>
  \<open>preemptForTokens\<close>: allocate or evict and retry. \<open>idx\<close> is the caller's \<open>reqIndex\<close>, \<open>adj\<close>
  the evictions below it so far; the loop evicts at most the whole batch.
\<close>

fun preempt_for_tokens ::
  "nat \<Rightarrow> 'k kv_ops \<Rightarrow> preemption_policy \<Rightarrow> rid \<Rightarrow> int \<Rightarrow> nat \<Rightarrow> nat \<Rightarrow> 'k batch_state \<Rightarrow>
   (bool \<times> nat \<times> 'k batch_state) outcome" where
  "preempt_for_tokens 0 ops pol r n idx adj st = Inl OutOfFuel"
| "preempt_for_tokens (Suc fuel) ops pol r n idx adj st =
     (let q = bf_reqs st r
      in obind (ko_allocate ops q (rq_progress q) (rq_progress q + n) [] (bf_kv st)) (\<lambda>(ok, kv).
           let st1 = st\<lparr>bf_kv := kv\<rparr>
           in if ok then Inr (True, adj, st1)
              else if bf_running st1 = [] then Inr (False, adj, st1)
              else (let v = victim_index pol (bf_reqs st1) (bf_running st1);
                        victim = bf_running st1 ! v;
                        adj' = (if int v < int idx - int adj then adj + 1 else adj)
                    in obind (evict_victim ops v st1) (\<lambda>st2.
                         if victim = r then Inr (False, adj', st2)
                         else preempt_for_tokens fuel ops pol r n idx adj' st2))))"

section \<open>Phase 1\<close>

text \<open>Scheduling \<open>n\<close> tokens of a request once its blocks are there.\<close>

definition grant_tokens :: "rid \<Rightarrow> int \<Rightarrow> 'k batch_state \<Rightarrow> 'k batch_state" where
  "grant_tokens r n st =
     (set_req r (\<lambda>q. q\<lparr>rq_new_tokens := n\<rparr>) st)\<lparr>
        bf_budget := bf_budget st - n,
        bf_computed := (bf_computed st)(r \<mapsto> (case bf_computed st r of None \<Rightarrow> 0 | Some c \<Rightarrow> c) + n)\<rparr>"

definition prefill_chunk :: "batch_ctx \<Rightarrow> int \<Rightarrow> request \<Rightarrow> int" where
  "prefill_chunk ctx budget q =
     (let n = input_len q - rq_progress q;
          n1 = (if 0 < bc_prefill_threshold ctx \<and> bc_prefill_threshold ctx < n then bc_prefill_threshold ctx else n)
      in min_model_len ctx (rq_progress q) (min n1 budget))"

definition decode_grant :: "batch_ctx \<Rightarrow> int \<Rightarrow> request \<Rightarrow> int" where
  "decode_grant ctx budget q =
     (let g = (case bc_decode_tokens ctx of
                 None \<Rightarrow> 1
               | Some f \<Rightarrow> min (min (f q) budget) (decode_tokens_to_completion q))
      in min_model_len ctx (rq_progress q) g)"

text \<open>One request of Phase 1; the boolean tells whether the loop goes on.\<close>

definition phase1_prefill ::
  "'k kv_ops \<Rightarrow> preemption_policy \<Rightarrow> batch_ctx \<Rightarrow> rid \<Rightarrow> nat \<Rightarrow> 'k batch_state \<Rightarrow> (bool \<times> nat \<times> 'k batch_state) outcome" where
  "phase1_prefill ops pol ctx r idx st =
     (let q = bf_reqs st r
      in if input_len q - rq_progress q > 0
         then (let n = prefill_chunk ctx (bf_budget st) q
               in obind (preempt_for_tokens (Suc (length (bf_running st))) ops pol r n idx 0 st) (\<lambda>(ok, adj, st1).
                    if \<not> ok then Inr (False, idx - adj, st1) else Inr (True, idx - adj, grant_tokens r n st1)))
         else Inr (True, idx, st))"

definition phase1_decode ::
  "'k kv_ops \<Rightarrow> preemption_policy \<Rightarrow> batch_ctx \<Rightarrow> rid \<Rightarrow> nat \<Rightarrow> 'k batch_state \<Rightarrow> (bool \<times> nat \<times> 'k batch_state) outcome" where
  "phase1_decode ops pol ctx r idx st =
     (let q = bf_reqs st r
      in if rq_progress q \<ge> input_len q \<and> output_len q > 0
         then (let n = decode_grant ctx (bf_budget st) q
               in if n > 0
                  then obind (preempt_for_tokens (Suc (length (bf_running st))) ops pol r n idx 0 st) (\<lambda>(ok, adj, st1).
                         if \<not> ok then Inr (False, idx - adj, st1) else Inr (True, idx - adj, grant_tokens r n st1))
                  else Inr (True, idx, st))
         else Inr (True, idx, st))"

datatype phase1_exit = AllVisited | BudgetExhausted | CannotSchedule

fun phase1_loop ::
  "nat \<Rightarrow> 'k kv_ops \<Rightarrow> preemption_policy \<Rightarrow> batch_ctx \<Rightarrow> nat \<Rightarrow> 'k batch_state \<Rightarrow> (phase1_exit \<times> 'k batch_state) outcome" where
  "phase1_loop 0 ops pol ctx idx st = (if idx < length (bf_running st) then Inl OutOfFuel else Inr (AllVisited, st))"
| "phase1_loop (Suc fuel) ops pol ctx idx st =
     (if idx < length (bf_running st)
      then (if bf_budget st \<le> 0 then Inr (BudgetExhausted, st)
            else (let r = bf_running st ! idx
                  in obind (phase1_prefill ops pol ctx r idx st) (\<lambda>(go, idx1, st1).
                       if \<not> go then Inr (CannotSchedule, st1)
                       else obind (phase1_decode ops pol ctx r idx1 st1) (\<lambda>(go2, idx2, st2).
                              if \<not> go2 then Inr (CannotSchedule, st2)
                              else phase1_loop fuel ops pol ctx (Suc idx2) st2))))
      else Inr (AllVisited, st))"

definition zero_new_tokens :: "rid list \<Rightarrow> req_store \<Rightarrow> req_store" where
  "zero_new_tokens rs m = (\<lambda>r. if r \<in> set rs then (m r)\<lparr>rq_new_tokens := 0\<rparr> else m r)"

section \<open>Phase 2\<close>

definition dequeue_admitted :: "rid \<Rightarrow> nat \<Rightarrow> wait_queue \<Rightarrow> wait_queue" where
  "dequeue_admitted r skipped q = (if skipped = 0 then snd (wq_dequeue q) else snd (wq_remove r q))"

text \<open>The common tail of both admission paths.\<close>

definition admit :: "batch_ctx \<Rightarrow> rid \<Rightarrow> nat \<Rightarrow> int \<Rightarrow> int \<Rightarrow> 'k batch_state \<Rightarrow> 'k batch_state" where
  "admit ctx r skipped n computed st =
     (set_req r (\<lambda>q. q\<lparr>rq_sched_step := bc_step_count ctx, rq_state := StateRunning, rq_new_tokens := n\<rparr>) st)\<lparr>
        bf_waitq := dequeue_admitted r skipped (bf_waitq st),
        bf_running := bf_running st @ [r],
        bf_scheduled := bf_scheduled st @ [r],
        bf_budget := bf_budget st - n,
        bf_computed := (bf_computed st)(r \<mapsto> computed)\<rparr>"

text \<open>Decode tokens of a transferred sub-request; \<open>None\<close> when the budget is exhausted.\<close>

definition sub_decode_grant :: "batch_ctx \<Rightarrow> int \<Rightarrow> request \<Rightarrow> int option" where
  "sub_decode_grant ctx budget q = (case bc_decode_tokens ctx of
       None \<Rightarrow> Some 1
     | Some f \<Rightarrow>
         (let out_room = decode_tokens_to_completion q;
              g1 = (if out_room \<ge> 1 then min (f q) out_room else 1);
              room = max (bc_max_model_len ctx - 1 - rq_progress q) 0;
              g2 = (if bc_max_model_len ctx > 0 then (if room \<ge> 1 then min g1 room else 1) else g1);
              g3 = min g2 budget
          in if g3 < 1 then None else Some g3))"

text \<open>
  Sizing a new admission: cached blocks, the start of the uncached part, the chunk billed and
  its end. The chunk starts after what a reload would bring back.
\<close>

definition admission_size ::
  "'k kv_ops \<Rightarrow> batch_ctx \<Rightarrow> int \<Rightarrow> request \<Rightarrow> 'k \<Rightarrow> nat list \<times> int \<times> int \<times> int" where
  "admission_size ops ctx budget q kv =
     (let cached = (if bc_no_prefix_cache ctx then [] else ko_cached ops (full_input_tokens q) kv);
          start = int (length cached) * ko_block_size ops kv;
          computed_start = (case ko_reloadable_end ops of
              None \<Rightarrow> start
            | Some f \<Rightarrow> (case f q start kv of None \<Rightarrow> start | Some e \<Rightarrow> (if e > start then e else start)));
          n0 = input_len q - computed_start;
          n1 = (if 0 < bc_prefill_threshold ctx \<and> bc_prefill_threshold ctx < n0 then bc_prefill_threshold ctx else n0);
          n = min_model_len ctx computed_start (min n1 budget)
      in (cached, start, n, computed_start + n))"

datatype 'k phase2_step = Stop "'k batch_state" | Skip "'k batch_state" | Admit "'k batch_state"

definition phase2_request ::
  "'k kv_ops \<Rightarrow> batch_ctx \<Rightarrow> rid list \<Rightarrow> rid \<Rightarrow> nat \<Rightarrow> 'k batch_state \<Rightarrow> 'k phase2_step outcome" where
  "phase2_request ops ctx deferred r skipped st =
     (let q = bf_reqs st r
      in if r \<in> set deferred then Inr (Skip st)
         else if (case bc_adapter_resident ctx of None \<Rightarrow> False
                  | Some f \<Rightarrow> \<not> rq_decode_sub q \<and> rq_adapter q \<noteq> '''' \<and> \<not> f (rq_adapter q))
         then Inr (Stop st)
         else if rq_decode_sub q
         then (case sub_decode_grant ctx (bf_budget st) q of
                 None \<Rightarrow> Inr (Stop st)
               | Some n \<Rightarrow>
                   obind (ko_allocate ops q (rq_progress q) (rq_progress q + n) [] (bf_kv st)) (\<lambda>(ok, kv).
                     let st1 = st\<lparr>bf_kv := kv\<rparr>
                     in if \<not> ok then Inr (Stop st1)
                        else Inr (Admit (admit ctx r skipped n (rq_progress q + n) st1))))
         else (let (cached, start, n, stop) = admission_size ops ctx (bf_budget st) q (bf_kv st)
               in obind (ko_allocate ops q start stop cached (bf_kv st)) (\<lambda>(ok, kv).
                    let st1 = st\<lparr>bf_kv := kv\<rparr>
                    in if \<not> ok
                       then (if ko_poll_deferred ops \<noteq> None \<and> ko_is_deferred ops r kv then Inr (Skip st1) else Inr (Stop st1))
                       else Inr (Admit (admit ctx r skipped n stop st1)))))"

fun phase2_loop ::
  "nat \<Rightarrow> 'k kv_ops \<Rightarrow> batch_ctx \<Rightarrow> rid list \<Rightarrow> nat \<Rightarrow> 'k batch_state \<Rightarrow> 'k batch_state outcome" where
  "phase2_loop 0 ops ctx deferred skipped st =
     (if int (length (bf_running st)) < bc_max_seqs ctx \<and> length (bf_waitq st) > skipped \<and> bf_budget st > 0 \<and> \<not> bf_preemption st
      then Inl OutOfFuel else Inr st)"
| "phase2_loop (Suc fuel) ops ctx deferred skipped st =
     (if int (length (bf_running st)) < bc_max_seqs ctx \<and> length (bf_waitq st) > skipped \<and> bf_budget st > 0 \<and> \<not> bf_preemption st
      then obind (phase2_request ops ctx deferred (bf_waitq st ! skipped) skipped st) (\<lambda>res.
             case res of
               Stop st1 \<Rightarrow> Inr st1
             | Skip st1 \<Rightarrow> phase2_loop fuel ops ctx deferred (Suc skipped) st1
             | Admit st1 \<Rightarrow> phase2_loop fuel ops ctx deferred skipped st1)
      else Inr st)"

text \<open>The token budget is set, and no request has a grant from the step before.\<close>

definition pass_start :: "batch_ctx \<Rightarrow> 'k batch_state \<Rightarrow> 'k batch_state" where
  "pass_start ctx st = st\<lparr>bf_budget := bc_max_tokens ctx, bf_scheduled := [], bf_preempted := [], bf_preemption := False,
     bf_reqs := zero_new_tokens (bf_running st) (bf_reqs st)\<rparr>"

text \<open>
  \<open>FormBatch\<close>. The first component of the result tells how Phase 1 ended; the code does not
  report it, the theorems are stated over it.
\<close>

definition form_batch ::
  "'k kv_ops \<Rightarrow> preemption_policy \<Rightarrow> batch_ctx \<Rightarrow> 'k batch_state \<Rightarrow> (phase1_exit \<times> 'k batch_state \<times> 'k batch_state) outcome" where
  "form_batch ops pol ctx st0 =
     (let st1 = pass_start ctx st0
      in obind (phase1_loop (Suc (length (bf_running st1))) ops pol ctx 0 st1) (\<lambda>(exit, st2).
           let (deferred, kv) = (case ko_poll_deferred ops of None \<Rightarrow> ([], bf_kv st2) | Some f \<Rightarrow> f (bc_now ctx) (bf_kv st2));
               st3 = st2\<lparr>bf_kv := kv\<rparr>
           in obind (phase2_loop (Suc (length (bf_waitq st3))) ops ctx deferred 0 st3) (\<lambda>st4. Inr (exit, st2, st4))))"

end
