(* ===== verification/Batch_Preemption.thy ===== *)
theory Batch_Preemption
  imports Batch_Formation
begin

text \<open>
  What the preemption loop and Phase 1 of batch formation do to the batch, for every KV
  store: which requests leave, how the index and the token budget follow, and that the loop
  ends. The relation \<open>evicts\<close> describes a stretch of the pass by the list of requests
  evicted in it; evictions and grants compose.
\<close>

section \<open>Victims\<close>

text \<open>\<open>(priority, arrival)\<close> in lexicographic order.\<close>

definition less_urgent :: "request \<Rightarrow> request \<Rightarrow> bool" where
  "less_urgent p q \<longleftrightarrow> rq_priority p > rq_priority q \<or> rq_priority p = rq_priority q \<and> rq_arrival p > rq_arrival q"

interpretation urgency: weak_order "\<lambda>p q. less_urgent q p"
  by unfold_locales (auto simp: less_urgent_def)

lemma less_urgent_step:
  "less_urgent a v \<Longrightarrow> \<not> less_urgent j v \<Longrightarrow> less_urgent a j"
  by (auto simp: less_urgent_def)

lemma victim_scan_max:
  assumes "v < length rs" "i \<le> v"
    and "\<forall>j. i \<le> j \<and> j < length rs \<longrightarrow> \<not> less_urgent (m (rs ! j)) (m (rs ! v))"
    and "\<forall>j. v < j \<and> j < length rs \<longrightarrow> less_urgent (m (rs ! v)) (m (rs ! j))"
  shows "victim_scan m rs i v < length rs \<and>
    (\<forall>j < length rs. \<not> less_urgent (m (rs ! j)) (m (rs ! victim_scan m rs i v))) \<and>
    (\<forall>j. victim_scan m rs i v < j \<and> j < length rs \<longrightarrow> less_urgent (m (rs ! victim_scan m rs i v)) (m (rs ! j)))"
  using assms
proof (induction i arbitrary: v)
  case 0
  then show ?case by simp
next
  case (Suc i)
  show ?case
  proof (cases "less_urgent (m (rs ! i)) (m (rs ! v))")
    case True
    have above: "less_urgent (m (rs ! i)) (m (rs ! j))" if "i < j" "j < length rs" for j
      using less_urgent_step [OF True] Suc.prems(3) that by simp
    have "\<not> less_urgent (m (rs ! j)) (m (rs ! i))" if "i \<le> j" "j < length rs" for j
      using above [of j] that urgency.lt_asym [of "m (rs ! j)"] by (cases "j = i") auto
    moreover have "\<forall>j. i < j \<and> j < length rs \<longrightarrow> less_urgent (m (rs ! i)) (m (rs ! j))"
      using above by blast
    ultimately have "victim_scan m rs i i < length rs \<and>
      (\<forall>j < length rs. \<not> less_urgent (m (rs ! j)) (m (rs ! victim_scan m rs i i))) \<and>
      (\<forall>j. victim_scan m rs i i < j \<and> j < length rs \<longrightarrow> less_urgent (m (rs ! victim_scan m rs i i)) (m (rs ! j)))"
      using Suc.IH [of i] Suc.prems(1,2) by simp
    then show ?thesis using True by (simp add: less_urgent_def Let_def)
  next
    case False
    have all: "\<forall>j. i \<le> j \<and> j < length rs \<longrightarrow> \<not> less_urgent (m (rs ! j)) (m (rs ! v))"
      using Suc.prems(3) False by (metis le_antisym not_less_eq_eq)
    have "victim_scan m rs (Suc i) v = victim_scan m rs i v"
      using False by (auto simp: less_urgent_def Let_def)
    then show ?thesis using Suc.IH [of v] Suc.prems(1,2,4) all by simp
  qed
qed

lemma select_priority_victim_max:
  assumes "rs \<noteq> []"
  shows "select_priority_victim m rs < length rs"
    "j < length rs \<Longrightarrow> \<not> less_urgent (m (rs ! j)) (m (rs ! select_priority_victim m rs))"
    "select_priority_victim m rs < j \<Longrightarrow> j < length rs \<Longrightarrow> less_urgent (m (rs ! select_priority_victim m rs)) (m (rs ! j))"
proof -
  have "\<not> less_urgent (m (rs ! j)) (m (rs ! (length rs - 1)))" if "length rs - 1 \<le> j \<and> j < length rs" for j
  proof -
    have "j = length rs - 1" using that by linarith
    then show ?thesis by (simp add: less_urgent_def)
  qed
  then have "victim_scan m rs (length rs - 1) (length rs - 1) < length rs \<and>
    (\<forall>j < length rs. \<not> less_urgent (m (rs ! j)) (m (rs ! victim_scan m rs (length rs - 1) (length rs - 1)))) \<and>
    (\<forall>j. victim_scan m rs (length rs - 1) (length rs - 1) < j \<and> j < length rs \<longrightarrow>
       less_urgent (m (rs ! victim_scan m rs (length rs - 1) (length rs - 1))) (m (rs ! j)))"
    using assms by (intro victim_scan_max) auto
  then show "select_priority_victim m rs < length rs"
    "j < length rs \<Longrightarrow> \<not> less_urgent (m (rs ! j)) (m (rs ! select_priority_victim m rs))"
    "select_priority_victim m rs < j \<Longrightarrow> j < length rs \<Longrightarrow> less_urgent (m (rs ! select_priority_victim m rs)) (m (rs ! j))"
    by (simp_all add: select_priority_victim_def)
qed

lemma victim_index_less: "rs \<noteq> [] \<Longrightarrow> victim_index pol m rs < length rs"
  using select_priority_victim_max(1) by (auto simp: victim_index_def)

section \<open>Removing by index\<close>

lemma remove_nth_filter:
  "distinct xs \<Longrightarrow> v < length xs \<Longrightarrow> take v xs @ drop (Suc v) xs = filter (\<lambda>x. x \<noteq> xs ! v) xs"
proof (induction xs arbitrary: v)
  case (Cons x xs)
  show ?case
  proof (cases v)
    case 0
    have "filter (\<lambda>y. y \<noteq> x) xs = xs" using Cons.prems by (auto intro!: filter_True)
    then show ?thesis using 0 by simp
  next
    case (Suc w)
    then show ?thesis using Cons.IH [of w] Cons.prems by auto
  qed
qed simp

lemma length_filter_take:
  assumes "distinct xs" "v < length xs" "c \<le> length xs"
  shows "length (filter (\<lambda>x. x \<noteq> xs ! v) (take c xs)) = (if v < c then c - 1 else c)"
proof (cases "v < c")
  case True
  then have "filter (\<lambda>x. x \<noteq> take c xs ! v) (take c xs) = take v (take c xs) @ drop (Suc v) (take c xs)"
    using remove_nth_filter [of "take c xs" v] assms by simp
  then show ?thesis using True assms by simp
next
  case False
  have "xs ! v \<notin> set (take c xs)"
  proof
    assume "xs ! v \<in> set (take c xs)"
    then obtain j where "j < c" "xs ! j = xs ! v" by (auto simp: in_set_conv_nth)
    then show False using False assms nth_eq_iff_index_eq [OF assms(1), of j v] by simp
  qed
  then have "filter (\<lambda>x. x \<noteq> xs ! v) (take c xs) = take c xs" by (auto simp: filter_id_conv)
  then show ?thesis using False assms(3) by simp
qed

section \<open>Evictions\<close>

definition new_tokens_nonneg :: "'k batch_state \<Rightarrow> bool" where
  "new_tokens_nonneg st \<longleftrightarrow> (\<forall>r \<in> set (bf_running st). 0 \<le> rq_new_tokens (bf_reqs st r))"

text \<open>
  From \<open>st\<close> to \<open>st'\<close> exactly the requests of \<open>evs\<close> were evicted, in that order: out of the
  batch, reset, their grants back in the budget, at the front of the wait queue.
\<close>

definition evicted :: "request \<Rightarrow> request" where
  "evicted q = reset_preempted (q\<lparr>rq_new_tokens := 0\<rparr>)"

definition evicts :: "rid list \<Rightarrow> 'k batch_state \<Rightarrow> 'k batch_state \<Rightarrow> bool" where
  "evicts evs st st' \<longleftrightarrow>
     distinct evs \<and> set evs \<subseteq> set (bf_running st) \<and>
     bf_running st' = filter (\<lambda>x. x \<notin> set evs) (bf_running st) \<and>
     bf_waitq st' = rev evs @ bf_waitq st \<and>
     bf_reqs st' = (\<lambda>x. if x \<in> set evs then evicted (bf_reqs st x) else bf_reqs st x) \<and>
     bf_budget st' = bf_budget st + (\<Sum>x \<leftarrow> evs. rq_new_tokens (bf_reqs st x)) \<and>
     bf_computed st' = (\<lambda>x. if x \<in> set evs then None else bf_computed st x) \<and>
     bf_preempted st' = bf_preempted st @ evs \<and> bf_scheduled st' = bf_scheduled st \<and>
     bf_preemption st' = (bf_preemption st \<or> evs \<noteq> [])"

lemma evicts_Nil_kv: "evicts [] st (st\<lparr>bf_kv := kv\<rparr>)"
  by (simp add: evicts_def)

lemma evicts_trans:
  assumes "evicts xs st st'" "evicts ys st' st''"
  shows "evicts (xs @ ys) st st''"
proof -
  have ys: "set ys \<subseteq> {x \<in> set (bf_running st). x \<notin> set xs}" using assms by (auto simp: evicts_def)
  then have disj: "\<And>x. x \<in> set ys \<Longrightarrow> x \<notin> set xs" by auto
  have "(\<Sum>x \<leftarrow> ys. rq_new_tokens (bf_reqs st' x)) = (\<Sum>x \<leftarrow> ys. rq_new_tokens (bf_reqs st x))"
    using assms(1) disj by (intro arg_cong [where f = sum_list] map_cong) (auto simp: evicts_def)
  then show ?thesis
    using assms ys disj unfolding evicts_def by (auto simp: fun_eq_iff intro!: filter_cong)
qed

lemma evict_victim_evicts:
  assumes "evict_victim ops v st = Inr st'" "distinct (bf_running st)" "v < length (bf_running st)" "new_tokens_nonneg st"
  shows "evicts [bf_running st ! v] st st'" "new_tokens_nonneg st'"
proof -
  let ?r = "bf_running st ! v"
  have nn: "0 \<le> rq_new_tokens (bf_reqs st ?r)" using assms(3,4) by (simp add: new_tokens_nonneg_def)
  obtain kv where st': "st' = (set_req ?r reset_preempted
      (if rq_new_tokens (bf_reqs st ?r) > 0
       then set_req ?r (\<lambda>q. q\<lparr>rq_new_tokens := 0\<rparr>) (st\<lparr>bf_preemption := True,
              bf_running := take v (bf_running st) @ drop (Suc v) (bf_running st),
              bf_preempted := bf_preempted st @ [?r], bf_budget := bf_budget st + rq_new_tokens (bf_reqs st ?r)\<rparr>)
       else st\<lparr>bf_preemption := True, bf_running := take v (bf_running st) @ drop (Suc v) (bf_running st),
              bf_preempted := bf_preempted st @ [?r]\<rparr>))
      \<lparr>bf_kv := kv, bf_computed := (bf_computed st)(?r := None), bf_waitq := wq_prepend_front ?r (bf_waitq st)\<rparr>"
    using assms(1) by (auto simp: evict_victim_def Let_def obind_Inr_iff set_req_def split: if_splits)
  have "evicted (bf_reqs st ?r) = reset_preempted (bf_reqs st ?r)" if "\<not> rq_new_tokens (bf_reqs st ?r) > 0"
    using that nn by (cases "bf_reqs st ?r") (simp add: evicted_def)
  then show ev: "evicts [?r] st st'"
    using nn assms(3) remove_nth_filter [OF assms(2,3)]
    by (auto simp: evicts_def st' set_req_def evicted_def wq_prepend_front_def fun_eq_iff)
  then show "new_tokens_nonneg st'" using assms(4) by (auto simp: new_tokens_nonneg_def evicts_def)
qed

lemma sum_list_filter_split:
  "(\<Sum>r \<leftarrow> filter P xs. f r) + (\<Sum>r \<leftarrow> filter (\<lambda>x. \<not> P x) xs. f r) = (\<Sum>r \<leftarrow> xs. f r)" for f :: "'a \<Rightarrow> int"
  by (induction xs) auto

lemma evicts_kv [simp]: "evicts evs (st\<lparr>bf_kv := kv\<rparr>) st' = evicts evs st st'"
  by (simp add: evicts_def cong: if_cong)

lemma evicts_budget:
  assumes "evicts evs st st'" "distinct (bf_running st)"
  shows "bf_budget st' + (\<Sum>r \<leftarrow> bf_running st'. rq_new_tokens (bf_reqs st' r)) =
    bf_budget st + (\<Sum>r \<leftarrow> bf_running st. rq_new_tokens (bf_reqs st r))"
proof -
  let ?f = "\<lambda>r. rq_new_tokens (bf_reqs st r)" and ?R = "bf_running st"
  have kept: "map (\<lambda>r. rq_new_tokens (bf_reqs st' r)) (bf_running st') = map ?f (filter (\<lambda>x. x \<notin> set evs) ?R)"
    using assms(1) by (auto simp: evicts_def)
  have "bf_budget st' = bf_budget st + (\<Sum>r \<leftarrow> evs. ?f r)"
    using assms(1) by (simp add: evicts_def)
  moreover have "(\<Sum>r \<leftarrow> filter (\<lambda>x. x \<notin> set evs) ?R. ?f r) + (\<Sum>r \<leftarrow> filter (\<lambda>x. x \<in> set evs) ?R. ?f r) = (\<Sum>r \<leftarrow> ?R. ?f r)"
    using sum_list_filter_split [of ?f "\<lambda>x. x \<notin> set evs" ?R] by simp
  moreover have "mset (filter (\<lambda>x. x \<in> set evs) ?R) = mset evs"
  proof (rule set_eq_iff_mset_eq_distinct [THEN iffD1])
    show "set (filter (\<lambda>x. x \<in> set evs) ?R) = set evs" using assms(1) by (auto simp: evicts_def)
  qed (use assms in \<open>auto simp: evicts_def\<close>)
  then have "sum_mset (mset (map ?f (filter (\<lambda>x. x \<in> set evs) ?R))) = sum_mset (mset (map ?f evs))"
    unfolding mset_map by (rule arg_cong)
  then have "(\<Sum>r \<leftarrow> filter (\<lambda>x. x \<in> set evs) ?R. ?f r) = (\<Sum>r \<leftarrow> evs. ?f r)"
    unfolding sum_mset_sum_list .
  ultimately show ?thesis unfolding kept by linarith
qed

text \<open>
  The loop: it evicts until the allocation succeeds, the request itself goes, or the batch is
  empty. \<open>idx - adj\<close> stays the place of the request among the survivors.
\<close>

lemma preempt_for_tokens_evicts:
  assumes "preempt_for_tokens fuel ops pol r n idx adj st = Inr (ok, adj', st')"
    and "distinct (bf_running st)" "new_tokens_nonneg st" "adj \<le> idx" "idx - adj \<le> length (bf_running st)"
  shows "\<exists>evs. evicts evs st st' \<and> new_tokens_nonneg st' \<and>
    (ok \<longrightarrow> r \<notin> set evs) \<and> (\<not> ok \<longrightarrow> r \<in> set evs \<or> bf_running st' = []) \<and> adj' \<le> idx \<and>
    idx - adj' = length (filter (\<lambda>x. x \<notin> set evs) (take (idx - adj) (bf_running st)))"
  using assms
proof (induction fuel arbitrary: adj st)
  case 0
  then show ?case by simp
next
  case (Suc fuel)
  let ?q = "bf_reqs st r"
  obtain ok1 kv where alloc: "ko_allocate ops ?q (rq_progress ?q) (rq_progress ?q + n) [] (bf_kv st) = Inr (ok1, kv)"
    using Suc.prems(1) by (auto simp: obind_Inr_iff Let_def)
  let ?st1 = "st\<lparr>bf_kv := kv\<rparr>"
  have nn1: "new_tokens_nonneg ?st1" using Suc.prems(3) by (simp add: new_tokens_nonneg_def)
  show ?case
  proof (cases "ok1 \<or> bf_running st = []")
    case True
    then have "st' = ?st1" "adj' = adj" "ok = ok1" "\<not> ok \<longrightarrow> bf_running st = []"
      using Suc.prems(1) alloc by (auto simp: Let_def split: if_splits)
    then show ?thesis
      using evicts_Nil_kv [of st kv] nn1 Suc.prems(4,5) by (intro exI [of _ "[]"]) simp
  next
    case False
    let ?v = "victim_index pol (bf_reqs st) (bf_running st)"
    let ?x = "bf_running st ! ?v"
    let ?adj = "if int ?v < int idx - int adj then adj + 1 else adj"
    have v: "?v < length (bf_running st)" using False victim_index_less by blast
    obtain st2 where st2: "evict_victim ops ?v ?st1 = Inr st2"
      and rest: "(if ?x = r then Inr (False, ?adj, st2) else preempt_for_tokens fuel ops pol r n idx ?adj st2) = Inr (ok, adj', st')"
      using Suc.prems(1) alloc False by (auto simp: Let_def obind_Inr_iff split: if_splits)
    have ev1: "evicts [?x] ?st1 st2" and nn2: "new_tokens_nonneg st2"
      using evict_victim_evicts [OF st2] Suc.prems(2) v nn1 by simp_all
    have ev: "evicts [?x] st st2" using ev1 by simp
    have adj: "?adj \<le> idx" "idx - ?adj = length (filter (\<lambda>x. x \<noteq> ?x) (take (idx - adj) (bf_running st)))"
      using length_filter_take [OF Suc.prems(2) v Suc.prems(5)] Suc.prems(4) by (auto simp: of_nat_diff)
    have run2: "bf_running st2 = filter (\<lambda>x. x \<noteq> ?x) (bf_running st)" using ev by (simp add: evicts_def)
    have cut: "take (idx - ?adj) (bf_running st2) = filter (\<lambda>x. x \<noteq> ?x) (take (idx - adj) (bf_running st))"
    proof -
      have "bf_running st2 = filter (\<lambda>x. x \<noteq> ?x) (take (idx - adj) (bf_running st)) @ filter (\<lambda>x. x \<noteq> ?x) (drop (idx - adj) (bf_running st))"
        unfolding run2 by (metis append_take_drop_id filter_append)
      then show ?thesis unfolding adj(2) by simp
    qed
    show ?thesis
    proof (cases "?x = r")
      case True
      then show ?thesis using rest ev nn2 adj by (intro exI [of _ "[?x]"]) auto
    next
      case neq: False
      have d2: "distinct (bf_running st2)" using Suc.prems(2) run2 by simp
      have le2: "idx - ?adj \<le> length (bf_running st2)"
        unfolding adj(2) run2 by (metis append_take_drop_id filter_append le_add1 length_append)
      have rest': "preempt_for_tokens fuel ops pol r n idx ?adj st2 = Inr (ok, adj', st')" using rest neq by simp
      obtain evs where evs: "evicts evs st2 st'" "new_tokens_nonneg st'" "ok \<longrightarrow> r \<notin> set evs"
        "\<not> ok \<longrightarrow> r \<in> set evs \<or> bf_running st' = []" "adj' \<le> idx"
        "idx - adj' = length (filter (\<lambda>x. x \<notin> set evs) (take (idx - ?adj) (bf_running st2)))"
        using Suc.IH [OF rest' d2 nn2 adj(1) le2] by blast
      have "idx - adj' = length (filter (\<lambda>x. x \<notin> set (?x # evs)) (take (idx - adj) (bf_running st)))"
        unfolding evs(6) cut by (auto intro!: arg_cong [where f = length] filter_cong)
      moreover have "evicts (?x # evs) st st'" using evicts_trans [OF ev evs(1)] by simp
      ultimately show ?thesis using evs neq by (intro exI [of _ "?x # evs"]) auto
    qed
  qed
qed

text \<open>The fuel \<open>Suc (length running)\<close> is enough: every round but the last takes one request out.\<close>

lemma preempt_for_tokens_fuel:
  assumes "distinct (bf_running st)" "new_tokens_nonneg st" "length (bf_running st) < fuel"
  shows "preempt_for_tokens fuel ops pol r n idx adj st \<noteq> Inl OutOfFuel \<or>
    (\<exists>q lo hi kv. ko_allocate ops q lo hi [] kv = Inl OutOfFuel) \<or> (\<exists>x kv. ko_release ops x kv = Inl OutOfFuel)"
  using assms
proof (induction fuel arbitrary: adj st)
  case 0
  then show ?case by simp
next
  case (Suc fuel)
  let ?q = "bf_reqs st r"
  show ?case
  proof (cases "ko_allocate ops ?q (rq_progress ?q) (rq_progress ?q + n) [] (bf_kv st)")
    case (Inl e)
    then show ?thesis by (cases "e = OutOfFuel") (auto simp: Let_def)
  next
    case (Inr p)
    obtain ok kv where p: "p = (ok, kv)" by (cases p)
    let ?st1 = "st\<lparr>bf_kv := kv\<rparr>" and ?v = "victim_index pol (bf_reqs st) (bf_running st)"
    show ?thesis
    proof (cases "ok \<or> bf_running st = []")
      case True
      then show ?thesis using Inr p by (auto simp: Let_def)
    next
      case False
      then have v: "?v < length (bf_running st)" using victim_index_less by blast
      show ?thesis
      proof (cases "evict_victim ops ?v ?st1")
        case (Inl e)
        then have "\<exists>x kv'. ko_release ops x kv' = Inl e"
          by (auto simp: evict_victim_def Let_def obind_def split: sum.splits if_splits)
        then show ?thesis using Inr p False Inl by (cases "e = OutOfFuel") (auto simp: Let_def)
      next
        case st2: (Inr st2)
        have "evicts [bf_running st ! ?v] ?st1 st2" "new_tokens_nonneg st2"
          using evict_victim_evicts [OF st2] Suc.prems v by (auto simp: new_tokens_nonneg_def)
        then have "distinct (bf_running st2)" "new_tokens_nonneg st2" "length (bf_running st2) < fuel"
          using Suc.prems v length_filter_less [of "bf_running st ! ?v" "bf_running st" "\<lambda>x. x \<noteq> bf_running st ! ?v"]
          by (auto simp: evicts_def)
        from Suc.IH [OF this] show ?thesis using Inr p False st2 by (auto simp: Let_def)
      qed
    qed
  qed
qed

end
