(* ===== verification/Batch_Phase1.thy ===== *)
theory Batch_Phase1
  imports Batch_Preemption
begin

text \<open>
  Phase 1 of batch formation, for every KV store: the index adjustment after a preemption
  skips nobody (INV-12 of the invariant registry), grants and evictions keep the token
  budget balanced, and the loop ends.
\<close>

section \<open>What Phase 1 may do\<close>

definition phase1_rel :: "'k batch_state \<Rightarrow> 'k batch_state \<Rightarrow> bool" where
  "phase1_rel st st' \<longleftrightarrow> (\<exists>evs. distinct evs \<and> set evs \<subseteq> set (bf_running st) \<and>
     bf_running st' = filter (\<lambda>x. x \<notin> set evs) (bf_running st) \<and>
     bf_waitq st' = rev evs @ bf_waitq st \<and>
     bf_preempted st' = bf_preempted st @ evs \<and> bf_scheduled st' = bf_scheduled st \<and>
     bf_preemption st' = (bf_preemption st \<or> evs \<noteq> []) \<and>
     (\<forall>x \<in> set evs. bf_reqs st' x = evicted (bf_reqs st x)) \<and>
     (\<forall>x. x \<notin> set evs \<longrightarrow> (\<exists>n. bf_reqs st' x = (bf_reqs st x)\<lparr>rq_new_tokens := n\<rparr>)) \<and>
     (\<forall>x. x \<notin> set (bf_running st) \<longrightarrow> bf_reqs st' x = bf_reqs st x))"

lemma new_tokens_self: "\<exists>n. q = q\<lparr>rq_new_tokens := n\<rparr>" for q :: request
  by (rule exI [of _ "rq_new_tokens q"]) simp

lemma evicted_new_tokens [simp]: "evicted (q\<lparr>rq_new_tokens := n\<rparr>) = evicted q"
  by (simp add: evicted_def)

lemma evicts_phase1_rel: "evicts evs st st' \<Longrightarrow> phase1_rel st st'"
  unfolding phase1_rel_def evicts_def using new_tokens_self by (intro exI [of _ evs]) auto

lemma grant_phase1_rel: "r \<in> set (bf_running st) \<Longrightarrow> phase1_rel st (grant_tokens r n st)"
proof -
  assume r: "r \<in> set (bf_running st)"
  have req: "bf_reqs (grant_tokens r n st) x =
      (bf_reqs st x)\<lparr>rq_new_tokens := (if x = r then n else rq_new_tokens (bf_reqs st x))\<rparr>" for x
    by (simp add: grant_tokens_def set_req_def)
  then have ex: "\<exists>m. bf_reqs (grant_tokens r n st) x = (bf_reqs st x)\<lparr>rq_new_tokens := m\<rparr>" for x by blast
  have rest: "bf_running (grant_tokens r n st) = bf_running st" "bf_waitq (grant_tokens r n st) = bf_waitq st"
    "bf_preempted (grant_tokens r n st) = bf_preempted st" "bf_scheduled (grant_tokens r n st) = bf_scheduled st"
    "bf_preemption (grant_tokens r n st) = bf_preemption st"
    by (simp_all add: grant_tokens_def set_req_def)
  have other: "bf_reqs (grant_tokens r n st) x = bf_reqs st x" if "x \<notin> set (bf_running st)" for x
    using r that by (auto simp: grant_tokens_def set_req_def)
  show "phase1_rel st (grant_tokens r n st)"
    unfolding phase1_rel_def rest using ex other by (intro exI [of _ "[]"]) simp
qed

lemma phase1_rel_refl: "phase1_rel st st"
  unfolding phase1_rel_def using new_tokens_self by (intro exI [of _ "[]"]) auto

lemma phase1_rel_trans:
  assumes "phase1_rel st st'" "phase1_rel st' st''"
  shows "phase1_rel st st''"
proof -
  obtain xs where xs: "distinct xs" "set xs \<subseteq> set (bf_running st)"
     "bf_running st' = filter (\<lambda>x. x \<notin> set xs) (bf_running st)" "bf_waitq st' = rev xs @ bf_waitq st"
     "bf_preempted st' = bf_preempted st @ xs" "bf_scheduled st' = bf_scheduled st"
     "bf_preemption st' = (bf_preemption st \<or> xs \<noteq> [])"
     "\<forall>x \<in> set xs. bf_reqs st' x = evicted (bf_reqs st x)"
     "\<forall>x. x \<notin> set xs \<longrightarrow> (\<exists>n. bf_reqs st' x = (bf_reqs st x)\<lparr>rq_new_tokens := n\<rparr>)"
     "\<forall>x. x \<notin> set (bf_running st) \<longrightarrow> bf_reqs st' x = bf_reqs st x"
    using assms(1) unfolding phase1_rel_def by blast
  obtain ys where ys: "distinct ys" "set ys \<subseteq> set (bf_running st')"
     "bf_running st'' = filter (\<lambda>x. x \<notin> set ys) (bf_running st')" "bf_waitq st'' = rev ys @ bf_waitq st'"
     "bf_preempted st'' = bf_preempted st' @ ys" "bf_scheduled st'' = bf_scheduled st'"
     "bf_preemption st'' = (bf_preemption st' \<or> ys \<noteq> [])"
     "\<forall>x \<in> set ys. bf_reqs st'' x = evicted (bf_reqs st' x)"
     "\<forall>x. x \<notin> set ys \<longrightarrow> (\<exists>n. bf_reqs st'' x = (bf_reqs st' x)\<lparr>rq_new_tokens := n\<rparr>)"
     "\<forall>x. x \<notin> set (bf_running st') \<longrightarrow> bf_reqs st'' x = bf_reqs st' x"
    using assms(2) unfolding phase1_rel_def by blast
  have disj: "x \<notin> set xs" "x \<in> set (bf_running st)" if "x \<in> set ys" for x
    using that ys(2) xs(3) by auto
  have A: "bf_reqs st'' x = evicted (bf_reqs st x)" if "x \<in> set (xs @ ys)" for x
  proof (cases "x \<in> set xs")
    case True
    then have "bf_reqs st'' x = bf_reqs st' x" using ys(10) xs(3) by simp
    then show ?thesis using xs(8) True by simp
  next
    case False
    then obtain n where "bf_reqs st' x = (bf_reqs st x)\<lparr>rq_new_tokens := n\<rparr>" using xs(9) by blast
    then show ?thesis using ys(8) that False by simp
  qed
  have B: "\<exists>n. bf_reqs st'' x = (bf_reqs st x)\<lparr>rq_new_tokens := n\<rparr>" if "x \<notin> set (xs @ ys)" for x
  proof -
    have "x \<notin> set xs" "x \<notin> set ys" using that by auto
    then obtain n m where "bf_reqs st' x = (bf_reqs st x)\<lparr>rq_new_tokens := n\<rparr>" "bf_reqs st'' x = (bf_reqs st' x)\<lparr>rq_new_tokens := m\<rparr>"
      using xs(9) ys(9) by blast
    then show ?thesis by auto
  qed
  have C: "bf_reqs st'' x = bf_reqs st x" if "x \<notin> set (bf_running st)" for x
    using that xs(3,10) ys(10) by simp
  have D: "bf_running st'' = filter (\<lambda>x. x \<notin> set (xs @ ys)) (bf_running st)"
    unfolding ys(3) xs(3) by (auto intro!: filter_cong)
  show ?thesis
    unfolding phase1_rel_def
    by (intro exI [of _ "xs @ ys"]) (use xs(1,2,4,5,6,7) ys(1,4,5,6,7) disj A B C D in auto)
qed

section \<open>The loop invariant\<close>

text \<open>Why a request may get no token in a pass: its length limit, its speculative peek, or
  nothing left to decode.\<close>

definition capped :: "batch_ctx \<Rightarrow> request \<Rightarrow> bool" where
  "capped ctx q \<longleftrightarrow> (bc_max_model_len ctx > 0 \<and> bc_max_model_len ctx - 1 - rq_progress q \<le> 0) \<or>
     (case bc_decode_tokens ctx of None \<Rightarrow> False
      | Some f \<Rightarrow> rq_progress q \<ge> input_len q \<and> (f q \<le> 0 \<or> decode_tokens_to_completion q = 0))"

definition settled :: "batch_ctx \<Rightarrow> request \<Rightarrow> bool" where
  "settled ctx q \<longleftrightarrow> rq_new_tokens q > 0 \<or> capped ctx q \<or> (rq_progress q \<ge> input_len q \<and> output_len q = 0)"

text \<open>The peek proposes a token count from the request's decode state, not from the grant.\<close>

definition peek_stable :: "batch_ctx \<Rightarrow> bool" where
  "peek_stable ctx \<longleftrightarrow> (\<forall>f q n. bc_decode_tokens ctx = Some f \<longrightarrow> f (q\<lparr>rq_new_tokens := n\<rparr>) = f q)"

lemma request_len_new_tokens [simp]:
  "input_len (q\<lparr>rq_new_tokens := n\<rparr>) = input_len q" "output_len (q\<lparr>rq_new_tokens := n\<rparr>) = output_len q"
  "decode_tokens_to_completion (q\<lparr>rq_new_tokens := n\<rparr>) = decode_tokens_to_completion q"
  by (simp_all add: input_len_def output_len_def decode_tokens_to_completion_def completion_progress_index_def)

lemma capped_new_tokens: "peek_stable ctx \<Longrightarrow> capped ctx (q\<lparr>rq_new_tokens := n\<rparr>) = capped ctx q"
  by (cases "bc_decode_tokens ctx") (simp_all add: capped_def peek_stable_def)

definition granted_sum :: "'k batch_state \<Rightarrow> int" where
  "granted_sum st = (\<Sum>r \<leftarrow> bf_running st. rq_new_tokens (bf_reqs st r))"

definition budget_ok :: "int \<Rightarrow> 'k batch_state \<Rightarrow> bool" where
  "budget_ok K st \<longleftrightarrow> distinct (bf_running st) \<and> new_tokens_nonneg st \<and> 0 \<le> bf_budget st \<and> bf_budget st + granted_sum st = K"

definition visited_ok :: "batch_ctx \<Rightarrow> nat \<Rightarrow> nat \<Rightarrow> 'k batch_state \<Rightarrow> bool" where
  "visited_ok ctx i j st \<longleftrightarrow> (\<forall>r \<in> set (take i (bf_running st)). settled ctx (bf_reqs st r)) \<and>
     (\<forall>r \<in> set (drop j (bf_running st)). rq_new_tokens (bf_reqs st r) = 0)"

lemma granted_sum_nonneg: "new_tokens_nonneg st \<Longrightarrow> 0 \<le> granted_sum st"
  unfolding granted_sum_def new_tokens_nonneg_def by (intro sum_list_nonneg) auto

lemma evicts_budget_ok:
  assumes "evicts evs st st'" "budget_ok K st" "new_tokens_nonneg st'"
  shows "budget_ok K st'"
proof -
  have "0 \<le> (\<Sum>x \<leftarrow> evs. rq_new_tokens (bf_reqs st x))"
    using assms(1,2) by (intro sum_list_nonneg) (auto simp: evicts_def budget_ok_def new_tokens_nonneg_def)
  then have "bf_budget st \<le> bf_budget st'" using assms(1) by (simp add: evicts_def)
  then show ?thesis
    using assms evicts_budget [OF assms(1)] by (auto simp: budget_ok_def granted_sum_def evicts_def)
qed

lemma sum_list_update_fun:
  "distinct xs \<Longrightarrow> r \<in> set xs \<Longrightarrow> (\<Sum>x \<leftarrow> xs. if x = r then n else f x) = (\<Sum>x \<leftarrow> xs. f x) - f r + n" for f :: "'a \<Rightarrow> int"
proof (induction xs)
  case (Cons x xs)
  show ?case
  proof (cases "x = r")
    case True
    then have "(\<Sum>x \<leftarrow> xs. if x = r then n else f x) = (\<Sum>x \<leftarrow> xs. f x)"
      using Cons.prems by (intro arg_cong [where f = sum_list] map_cong) auto
    then show ?thesis using True by simp
  next
    case False
    then show ?thesis using Cons by auto
  qed
qed simp

lemma grant_budget_ok:
  assumes "budget_ok K st" "r \<in> set (bf_running st)" "rq_new_tokens (bf_reqs st r) = 0" "0 \<le> n" "n \<le> bf_budget st"
  shows "budget_ok K (grant_tokens r n st)"
proof -
  have fields: "bf_running (grant_tokens r n st) = bf_running st" "bf_budget (grant_tokens r n st) = bf_budget st - n"
    "\<And>x. rq_new_tokens (bf_reqs (grant_tokens r n st) x) = (if x = r then n else rq_new_tokens (bf_reqs st x))"
    by (simp_all add: grant_tokens_def set_req_def)
  have "granted_sum (grant_tokens r n st) = granted_sum st + n"
    unfolding granted_sum_def fields
    using sum_list_update_fun [of "bf_running st" r n "\<lambda>x. rq_new_tokens (bf_reqs st x)"] assms(1-3)
    by (simp add: budget_ok_def)
  then show ?thesis using assms fields by (auto simp: budget_ok_def new_tokens_nonneg_def)
qed

section \<open>One visit\<close>

text \<open>Where the visited request and the requests around it are after the evictions.\<close>

lemma filter_at_index:
  assumes "i < length xs" "P (xs ! i)"
  defines "j \<equiv> length (filter P (take i xs))"
  shows "j < length (filter P xs)" "filter P xs ! j = xs ! i"
    "take j (filter P xs) = filter P (take i xs)" "drop (Suc j) (filter P xs) = filter P (drop (Suc i) xs)"
proof -
  have e: "filter P xs = filter P (take i xs) @ xs ! i # filter P (drop (Suc i) xs)"
    using assms(1,2) by (metis (no_types, lifting) filter.simps(2) filter_append id_take_nth_drop)
  show "j < length (filter P xs)" "filter P xs ! j = xs ! i"
    "take j (filter P xs) = filter P (take i xs)" "drop (Suc j) (filter P xs) = filter P (drop (Suc i) xs)"
    unfolding e j_def by simp_all
qed

definition visit :: "'k kv_ops \<Rightarrow> preemption_policy \<Rightarrow> rid \<Rightarrow> int \<Rightarrow> nat \<Rightarrow> 'k batch_state \<Rightarrow> (bool \<times> nat \<times> 'k batch_state) outcome" where
  "visit ops pol r n idx st =
     obind (preempt_for_tokens (Suc (length (bf_running st))) ops pol r n idx 0 st) (\<lambda>(ok, adj, st1).
        if \<not> ok then Inr (False, idx - adj, st1) else Inr (True, idx - adj, grant_tokens r n st1))"

lemma visit_ok:
  assumes "visit ops pol r n idx st = Inr (go, j, st')"
    and "budget_ok K st" "visited_ok ctx idx idx st" "idx < length (bf_running st)" "r = bf_running st ! idx"
    and "0 \<le> n" "n \<le> bf_budget st"
  shows "phase1_rel st st' \<and> budget_ok K st' \<and>
    (go \<longrightarrow> j < length (bf_running st') \<and> bf_running st' ! j = r \<and> visited_ok ctx j (Suc j) st' \<and>
       length (bf_running st') - Suc j \<le> length (bf_running st) - Suc idx \<and>
       bf_reqs st' r = (bf_reqs st r)\<lparr>rq_new_tokens := n\<rparr>) \<and>
    (\<not> go \<longrightarrow> bf_preemption st' \<and> r \<in> set (bf_preempted st') \<or> bf_running st' = [])"
proof -
  obtain ok adj st1 where pre: "preempt_for_tokens (Suc (length (bf_running st))) ops pol r n idx 0 st = Inr (ok, adj, st1)"
    and res: "(if \<not> ok then (False, idx - adj, st1) else (True, idx - adj, grant_tokens r n st1)) = (go, j, st')"
    using assms(1) by (auto simp: visit_def obind_Inr_iff split: if_splits)
  have dist: "distinct (bf_running st)" and nn: "new_tokens_nonneg st" using assms(2) by (simp_all add: budget_ok_def)
  obtain evs where evs: "evicts evs st st1" "new_tokens_nonneg st1" "ok \<longrightarrow> r \<notin> set evs"
    "\<not> ok \<longrightarrow> r \<in> set evs \<or> bf_running st1 = []"
    "idx - adj = length (filter (\<lambda>x. x \<notin> set evs) (take idx (bf_running st)))"
    using preempt_for_tokens_evicts [OF pre dist nn] assms(4) by auto
  have b1: "budget_ok K st1" using evicts_budget_ok [OF evs(1) assms(2) evs(2)] .
  show ?thesis
  proof (cases ok)
    case False
    then show ?thesis using res evs b1 evicts_phase1_rel [OF evs(1)] by (auto simp: evicts_def)
  next
    case True
    then have r: "r \<notin> set evs" and st': "st' = grant_tokens r n st1" "go" "j = length (filter (\<lambda>x. x \<notin> set evs) (take idx (bf_running st)))"
      using res evs by auto
    have run1: "bf_running st1 = filter (\<lambda>x. x \<notin> set evs) (bf_running st)" using evs(1) by (simp add: evicts_def)
    note at = filter_at_index [of idx "bf_running st" "\<lambda>x. x \<notin> set evs", folded st'(3), folded run1]
    have j: "j < length (bf_running st1)" "bf_running st1 ! j = r"
      "take j (bf_running st1) = filter (\<lambda>x. x \<notin> set evs) (take idx (bf_running st))"
      "drop (Suc j) (bf_running st1) = filter (\<lambda>x. x \<notin> set evs) (drop (Suc idx) (bf_running st))"
      using at assms(4,5) r by simp_all
    have rin: "r \<in> set (bf_running st1)" using j(1,2) by (metis nth_mem)
    have req1: "bf_reqs st1 x = bf_reqs st x" if "x \<notin> set evs" for x using evs(1) that by (simp add: evicts_def)
    have zero: "rq_new_tokens (bf_reqs st r) = 0"
      using assms(3,4,5) unfolding visited_ok_def by (metis Cons_nth_drop_Suc list.set_intros(1))
    have le: "n \<le> bf_budget st1"
    proof -
      have "0 \<le> (\<Sum>x \<leftarrow> evs. rq_new_tokens (bf_reqs st x))"
        using evs(1) nn by (intro sum_list_nonneg) (auto simp: evicts_def new_tokens_nonneg_def)
      then show ?thesis using evs(1) assms(7) by (simp add: evicts_def)
    qed
    have fields: "bf_running st' = bf_running st1" "bf_reqs st' x = (if x = r then (bf_reqs st1 r)\<lparr>rq_new_tokens := n\<rparr> else bf_reqs st1 x)" for x
      by (simp_all add: st' grant_tokens_def set_req_def)
    have notr: "r \<notin> set (take idx (bf_running st))" "r \<notin> set (drop (Suc idx) (bf_running st))"
      using assms(4,5) dist id_take_nth_drop [OF assms(4)] by (metis distinct_append distinct.simps(2) disjoint_iff list.set_intros(1))+
    have "visited_ok ctx j (Suc j) st'"
      unfolding visited_ok_def fields j(3,4)
      using assms(3) notr req1 set_drop_subset_set_drop [of idx "Suc idx" "bf_running st"]
      by (auto simp: visited_ok_def)
    moreover have "phase1_rel st st'"
      using phase1_rel_trans [OF evicts_phase1_rel [OF evs(1)] grant_phase1_rel [OF rin]] st' by simp
    moreover have "budget_ok K st'"
      using grant_budget_ok [OF b1 rin _ assms(6) le] req1 [OF r] zero st' by simp
    moreover have "length (bf_running st') - Suc j \<le> length (bf_running st) - Suc idx"
      unfolding fields using arg_cong [OF j(4), of length] length_filter_le [of "\<lambda>x. x \<notin> set evs" "drop (Suc idx) (bf_running st)"]
      by simp
    ultimately show ?thesis using j fields st' req1 [OF r] by simp
  qed
qed

section \<open>The loop\<close>

lemma phase1_prefill_visit:
  "input_len (bf_reqs st r) - rq_progress (bf_reqs st r) > 0 \<Longrightarrow>
    phase1_prefill ops pol ctx r idx st = visit ops pol r (prefill_chunk ctx (bf_budget st) (bf_reqs st r)) idx st"
  by (simp add: phase1_prefill_def visit_def Let_def)

lemma phase1_decode_visit:
  "rq_progress (bf_reqs st r) \<ge> input_len (bf_reqs st r) \<Longrightarrow> output_len (bf_reqs st r) > 0 \<Longrightarrow>
    decode_grant ctx (bf_budget st) (bf_reqs st r) > 0 \<Longrightarrow>
    phase1_decode ops pol ctx r idx st = visit ops pol r (decode_grant ctx (bf_budget st) (bf_reqs st r)) idx st"
  by (simp add: phase1_decode_def visit_def Let_def)

lemma prefill_chunk_bounds:
  assumes "input_len q - rq_progress q > 0" "0 < budget"
  shows "0 \<le> prefill_chunk ctx budget q" "prefill_chunk ctx budget q \<le> budget"
    "prefill_chunk ctx budget q = 0 \<Longrightarrow> capped ctx q"
    "prefill_chunk ctx budget q \<le> input_len q - rq_progress q"
  using assms by (auto simp: prefill_chunk_def min_model_len_def capped_def Let_def min_def max_def split: if_splits)

lemma decode_grant_bounds:
  assumes "rq_progress q \<ge> input_len q" "0 < budget"
  shows "decode_grant ctx budget q \<le> budget" "decode_grant ctx budget q \<le> 0 \<Longrightarrow> capped ctx q"
  using assms
  by (auto simp: decode_grant_def min_model_len_def capped_def decode_tokens_to_completion_def Let_def min_def max_def
      split: option.splits if_splits)

text \<open>The two sections of the loop body together visit the request at the index once.\<close>

lemma phase1_body_ok:
  assumes "phase1_prefill ops pol ctx r idx st = Inr (go1, idx1, st1)"
    and "go1 \<Longrightarrow> phase1_decode ops pol ctx r idx1 st1 = Inr (go, j, st')" "\<not> go1 \<Longrightarrow> \<not> go \<and> st' = st1"
    and "budget_ok K st" "visited_ok ctx idx idx st" "idx < length (bf_running st)" "r = bf_running st ! idx"
    and "0 < bf_budget st" "peek_stable ctx"
  shows "phase1_rel st st' \<and> budget_ok K st' \<and>
    (go \<longrightarrow> j < length (bf_running st') \<and> visited_ok ctx (Suc j) (Suc j) st' \<and>
       length (bf_running st') - Suc j \<le> length (bf_running st) - Suc idx) \<and>
    (\<not> go \<longrightarrow> bf_preemption st' \<and> r \<in> set (bf_preempted st') \<or> bf_running st' = [])"
proof -
  let ?q = "bf_reqs st r"
  have zero: "rq_new_tokens ?q = 0"
    using assms(5,6,7) unfolding visited_ok_def by (metis Cons_nth_drop_Suc list.set_intros(1))
  have step: "visited_ok ctx (Suc j') (Suc j') s"
    if "visited_ok ctx j' (Suc j') s" "j' < length (bf_running s)" "bf_running s ! j' = r" "settled ctx (bf_reqs s r)" for j' s
    using that by (auto simp: visited_ok_def take_Suc_conv_app_nth)
  show ?thesis
  proof (cases "input_len ?q - rq_progress ?q > 0")
    case pre: True
    let ?n = "prefill_chunk ctx (bf_budget st) ?q"
    have v: "visit ops pol r ?n idx st = Inr (go1, idx1, st1)"
      using assms(1) phase1_prefill_visit [OF pre] by simp
    note ok = visit_ok [OF v assms(4-7) prefill_chunk_bounds(1,2) [OF pre assms(8)]]
    show ?thesis
    proof (cases go1)
      case False
      then show ?thesis using ok assms(3) by simp
    next
      case True
      then have req: "bf_reqs st1 r = ?q\<lparr>rq_new_tokens := ?n\<rparr>" using ok by simp
      then have "phase1_decode ops pol ctx r idx1 st1 = Inr (True, idx1, st1)"
        using pre by (simp add: phase1_decode_def Let_def)
      then have e: "go" "j = idx1" "st' = st1" using assms(2) True by simp_all
      have "settled ctx (bf_reqs st1 r)"
        using prefill_chunk_bounds(1,3) [OF pre assms(8), of ctx] capped_new_tokens [OF assms(9)]
        by (cases "?n = 0") (auto simp: settled_def req)
      then show ?thesis using ok True e step by blast
    qed
  next
    case dec: False
    then have e1: "go1" "idx1 = idx" "st1 = st"
      using assms(1) by (auto simp: phase1_prefill_def Let_def)
    have d: "phase1_decode ops pol ctx r idx st = Inr (go, j, st')" using assms(2) e1 by simp
    have prog: "rq_progress ?q \<ge> input_len ?q" using dec by simp
    let ?n = "decode_grant ctx (bf_budget st) ?q"
    show ?thesis
    proof (cases "output_len ?q > 0 \<and> ?n > 0")
      case True
      have v: "visit ops pol r ?n idx st = Inr (go, j, st')"
        using d phase1_decode_visit [OF prog, of ctx] True by simp
      have bounds: "0 \<le> ?n" "?n \<le> bf_budget st" using True decode_grant_bounds(1) [OF prog assms(8)] by simp_all
      note ok = visit_ok [OF v assms(4-7) bounds]
      show ?thesis
      proof (cases go)
        case True': True
        then have "settled ctx (bf_reqs st' r)" using ok True by (simp add: settled_def)
        then show ?thesis using ok True' step by blast
      qed (use ok in simp)
    next
      case False
      then have e: "go" "j = idx" "st' = st"
        using d prog by (auto simp: phase1_decode_def Let_def split: if_splits)
      have "settled ctx ?q"
        using False prog decode_grant_bounds(2) [OF prog assms(8), of ctx] output_len_nonneg [of ?q]
        by (auto simp: settled_def)
      moreover have "visited_ok ctx idx (Suc idx) st"
        using assms(5) set_drop_subset_set_drop [of idx "Suc idx" "bf_running st"] by (auto simp: visited_ok_def)
      ultimately have "visited_ok ctx (Suc idx) (Suc idx) st" using step [of idx st] assms(6,7) by simp
      then show ?thesis using e assms(4,6) phase1_rel_refl [of st] by simp
    qed
  qed
qed

lemma phase1_loop_ok:
  assumes "phase1_loop fuel ops pol ctx idx st = Inr (exit, st')"
    and "budget_ok K st" "visited_ok ctx idx idx st" "idx \<le> length (bf_running st)" "peek_stable ctx"
  shows "phase1_rel st st' \<and> budget_ok K st' \<and>
    (exit = AllVisited \<longrightarrow> (\<forall>r \<in> set (bf_running st'). settled ctx (bf_reqs st' r))) \<and>
    (exit = BudgetExhausted \<longrightarrow> bf_budget st' = 0) \<and>
    (exit = CannotSchedule \<longrightarrow> bf_preemption st' \<or> bf_running st' = [])"
  using assms
proof (induction fuel arbitrary: idx st)
  case 0
  then have "idx = length (bf_running st)" "st' = st" "exit = AllVisited" by (auto split: if_splits)
  then show ?case using 0 phase1_rel_refl by (auto simp: visited_ok_def)
next
  case (Suc fuel)
  show ?case
  proof (cases "idx < length (bf_running st)")
    case False
    then have "idx = length (bf_running st)" "st' = st" "exit = AllVisited" using Suc.prems by auto
    then show ?thesis using Suc.prems phase1_rel_refl by (auto simp: visited_ok_def)
  next
    case idx: True
    show ?thesis
    proof (cases "bf_budget st \<le> 0")
      case True
      then have "st' = st" "exit = BudgetExhausted" using Suc.prems idx by auto
      then show ?thesis using Suc.prems True phase1_rel_refl by (auto simp: budget_ok_def)
    next
      case False
      let ?r = "bf_running st ! idx"
      obtain go1 idx1 st1 where p: "phase1_prefill ops pol ctx ?r idx st = Inr (go1, idx1, st1)"
        using Suc.prems(1) idx False by (auto simp: Let_def obind_Inr_iff)
      show ?thesis
      proof (cases go1)
        case False': False
        then have e: "exit = CannotSchedule" "st' = st1" using Suc.prems(1) idx False p by (auto simp: Let_def)
        show ?thesis
          using phase1_body_ok [OF p _ _ Suc.prems(2,3) idx refl, of False idx1 st1] False False' Suc.prems(5) e by auto
      next
        case go1: True
        obtain go2 idx2 st2 where d: "phase1_decode ops pol ctx ?r idx1 st1 = Inr (go2, idx2, st2)"
          using Suc.prems(1) idx False p go1 by (auto simp: Let_def obind_Inr_iff)
        have body: "phase1_rel st st2 \<and> budget_ok K st2 \<and>
          (go2 \<longrightarrow> idx2 < length (bf_running st2) \<and> visited_ok ctx (Suc idx2) (Suc idx2) st2) \<and>
          (\<not> go2 \<longrightarrow> bf_preemption st2 \<and> ?r \<in> set (bf_preempted st2) \<or> bf_running st2 = [])"
          using phase1_body_ok [OF p d _ Suc.prems(2,3) idx refl] False go1 Suc.prems(5) by simp
        show ?thesis
        proof (cases go2)
          case False': False
          then have "exit = CannotSchedule" "st' = st2" using Suc.prems(1) idx False p d go1 by (auto simp: Let_def)
          then show ?thesis using body False' by auto
        next
          case go2: True
          have "phase1_loop fuel ops pol ctx (Suc idx2) st2 = Inr (exit, st')"
            using Suc.prems(1) idx False p d go1 go2 by (auto simp: Let_def)
          moreover have "Suc idx2 \<le> length (bf_running st2)" using body go2 by simp
          ultimately show ?thesis
            using Suc.IH [of "Suc idx2" st2] body go2 Suc.prems(5) phase1_rel_trans by blast
        qed
      qed
    qed
  qed
qed

end
