(* ===== verification/KV_Accounting.thy ===== *)
theory KV_Accounting
  imports KV_Cache
begin

text \<open>
  The accounting of the KV cache: free list, reference counts and block tables agree after
  every operation (INV-4 of the repository's invariant registry), allocation never reaches
  the panic behind its pre-check, and a block with room is held by one request only, so
  that filling it in place changes nobody else's tokens.
\<close>

section \<open>The invariant\<close>

definition kv_table :: "kv_cache \<Rightarrow> rid \<Rightarrow> nat list" where
  "kv_table s r = (case kc_req s r of None \<Rightarrow> [] | Some ids \<Rightarrow> ids)"

abbreviation blk :: "kv_cache \<Rightarrow> nat \<Rightarrow> kv_block" where
  "blk s b \<equiv> kc_blocks s ! b"

text \<open>The tokens a request has in the cache, in order.\<close>

definition kv_stored :: "kv_cache \<Rightarrow> rid \<Rightarrow> token list" where
  "kv_stored s r = concat (map (\<lambda>b. kb_tokens (blk s b)) (kv_table s r))"

definition kv_free_ok :: "kv_cache \<Rightarrow> bool" where
  "kv_free_ok s \<longleftrightarrow> (\<exists>fl. dll_list (kc_links s) fl \<and> kc_free_cnt s = int (length fl) \<and>
     set fl = {b. b < kc_total s \<and> \<not> kb_in_use (blk s b)})"

text \<open>
  Accounting, with \<open>P\<close> the references a release has taken out of the block tables and not
  yet off the blocks.
\<close>

definition kv_acct :: "nat list \<Rightarrow> kv_cache \<Rightarrow> bool" where
  "kv_acct P s \<longleftrightarrow> 0 < kc_bs s \<and> length (kc_blocks s) = kc_total s \<and> finite (dom (kc_req s)) \<and>
     kv_free_ok s \<and>
     (\<forall>b < kc_total s. kb_ref (blk s b) = int (refs (kc_req s) b + count_list P b)) \<and>
     (\<forall>b < kc_total s. kb_in_use (blk s b) \<longleftrightarrow> 0 < refs (kc_req s) b + count_list P b) \<and>
     (\<forall>b \<in> set P. b < kc_total s) \<and>
     (\<forall>r ids. kc_req s r = Some ids \<longrightarrow> ids \<noteq> [] \<and> (\<forall>b \<in> set ids. b < kc_total s))"

text \<open>Contents: what blocks hold, and what the prefix index points to.\<close>

definition kv_held_ok :: "kv_cache \<Rightarrow> bool" where
  "kv_held_ok s \<longleftrightarrow>
     (\<forall>r ids b. kc_req s r = Some ids \<longrightarrow> b \<in> set ids \<longrightarrow>
        kb_tokens (blk s b) \<noteq> [] \<and> length (kb_tokens (blk s b)) \<le> kc_bs s \<and>
        (length (kb_tokens (blk s b)) \<noteq> kc_bs s \<longrightarrow> b = last ids \<and> refs (kc_req s) b = 1))"

definition kv_index_ok :: "kv_cache \<Rightarrow> bool" where
  "kv_index_ok s \<longleftrightarrow>
     (\<forall>h b. kc_hash s h = Some b \<longrightarrow> b < kc_total s \<and> kb_hash (blk s b) = h \<and> h \<noteq> []) \<and>
     (\<forall>b < kc_total s. kb_hash (blk s b) \<noteq> [] \<longrightarrow> length (kb_tokens (blk s b)) = kc_bs s)"

definition kv_inv :: "kv_cache \<Rightarrow> bool" where
  "kv_inv s \<longleftrightarrow> kv_acct [] s \<and> kv_held_ok s \<and> kv_index_ok s"

text \<open>The last block of a request's table, when it has one, has no room.\<close>

definition kv_last_full :: "rid \<Rightarrow> kv_cache \<Rightarrow> bool" where
  "kv_last_full r s \<longleftrightarrow>
     (\<forall>ids. kc_req s r = Some ids \<longrightarrow> length (kb_tokens (blk s (last ids))) = kc_bs s)"

text \<open>Work on behalf of \<open>r\<close> leaves the geometry and every other request's tokens alone.\<close>

definition kv_frame :: "rid \<Rightarrow> kv_cache \<Rightarrow> kv_cache \<Rightarrow> bool" where
  "kv_frame r s s' \<longleftrightarrow> kc_total s' = kc_total s \<and> kc_bs s' = kc_bs s \<and>
     (\<forall>r'. r' \<noteq> r \<longrightarrow> kc_req s' r' = kc_req s r' \<and> kv_stored s' r' = kv_stored s r')"

lemma kv_frame_refl [simp]: "kv_frame r s s"
  by (simp add: kv_frame_def)

lemma kv_frame_trans: "kv_frame r s s' \<Longrightarrow> kv_frame r s' s'' \<Longrightarrow> kv_frame r s s''"
  by (simp add: kv_frame_def)

lemma kv_frame_geometry:
  assumes "kv_frame r s s'"
  shows "kc_total s' = kc_total s" "kc_bs s' = kc_bs s"
  using assms by (simp_all add: kv_frame_def)

lemma kv_frameI:
  assumes "kc_total s' = kc_total s" "kc_bs s' = kc_bs s"
    and "\<And>q. q \<noteq> r \<Longrightarrow> kc_req s' q = kc_req s q"
    and "\<And>q b. q \<noteq> r \<Longrightarrow> b \<in> set (kv_table s q) \<Longrightarrow> kb_tokens (blk s' b) = kb_tokens (blk s b)"
  shows "kv_frame r s s'"
proof -
  have "kv_stored s' q = kv_stored s q" if "q \<noteq> r" for q
  proof -
    have "kv_table s' q = kv_table s q" using assms(3) that by (simp add: kv_table_def)
    then show ?thesis unfolding kv_stored_def
      using assms(4) [OF that] by (metis (no_types, lifting) map_eq_conv)
  qed
  then show ?thesis using assms(1-3) by (simp add: kv_frame_def)
qed

section \<open>The free list surgery\<close>

lemma kv_append_free_eq:
  "kv_append_free b s = s\<lparr>kc_free_cnt := kc_free_cnt s + 1, kc_links := dll_append b (kc_links s)\<rparr>"
  by (cases "dl_tail (kc_links s)") (simp_all add: kv_append_free_def dll_append_def Let_def)

lemma kv_remove_free_eq:
  "kv_remove_free b s = s\<lparr>kc_free_cnt := kc_free_cnt s - 1, kc_links := dll_unlink b (kc_links s)\<rparr>"
  by (simp add: kv_remove_free_def dll_unlink_def Let_def split: option.splits)

lemma kv_free_ok_same:
  assumes "kv_free_ok s" "kc_links s' = kc_links s" "kc_free_cnt s' = kc_free_cnt s" "kc_total s' = kc_total s"
    and "\<And>b. b < kc_total s \<Longrightarrow> kb_in_use (blk s' b) = kb_in_use (blk s b)"
  shows "kv_free_ok s'"
proof -
  have "{b. b < kc_total s \<and> \<not> kb_in_use (blk s' b)} = {b. b < kc_total s \<and> \<not> kb_in_use (blk s b)}"
    using assms(5) by auto
  then show ?thesis using assms(1-4) by (simp add: kv_free_ok_def)
qed

lemma kv_free_ok_unlink:
  assumes "kv_free_ok s" "b < kc_total s" "\<not> kb_in_use (blk s b)"
    and "kc_links s' = dll_unlink b (kc_links s)" "kc_free_cnt s' = kc_free_cnt s - 1" "kc_total s' = kc_total s"
    and "\<And>c. c < kc_total s \<Longrightarrow> kb_in_use (blk s' c) = (c = b \<or> kb_in_use (blk s c))"
  shows "kv_free_ok s'"
proof -
  obtain fl where fl: "dll_list (kc_links s) fl" "kc_free_cnt s = int (length fl)"
    "set fl = {b. b < kc_total s \<and> \<not> kb_in_use (blk s b)}"
    using assms(1) by (auto simp: kv_free_ok_def)
  then have b: "b \<in> set fl" using assms(2,3) by simp
  have "dll_list (kc_links s') (remove1 b fl)"
    using dll_unlink_list [OF fl(1) b] assms(4) by simp
  moreover have "set (remove1 b fl) = {c. c < kc_total s' \<and> \<not> kb_in_use (blk s' c)}"
    using fl(3) dll_list_distinct [OF fl(1)] assms(6,7) by (auto simp: set_remove1_eq)
  moreover have "kc_free_cnt s' = int (length (remove1 b fl))"
    using fl(2) b assms(5) by (simp add: length_remove1) (cases fl, auto)
  ultimately show ?thesis unfolding kv_free_ok_def by blast
qed

lemma kv_free_ok_append:
  assumes "kv_free_ok s" "b < kc_total s" "kb_in_use (blk s b)"
    and "kc_links s' = dll_append b (kc_links s)" "kc_free_cnt s' = kc_free_cnt s + 1" "kc_total s' = kc_total s"
    and "\<And>c. c < kc_total s \<Longrightarrow> kb_in_use (blk s' c) = (c \<noteq> b \<and> kb_in_use (blk s c))"
  shows "kv_free_ok s'"
proof -
  obtain fl where fl: "dll_list (kc_links s) fl" "kc_free_cnt s = int (length fl)"
    "set fl = {b. b < kc_total s \<and> \<not> kb_in_use (blk s b)}"
    using assms(1) by (auto simp: kv_free_ok_def)
  then have b: "b \<notin> set fl" using assms(3) by simp
  have "dll_list (kc_links s') (fl @ [b])"
    using dll_append_list [OF fl(1) b] assms(4) by simp
  moreover have "set (fl @ [b]) = {c. c < kc_total s' \<and> \<not> kb_in_use (blk s' c)}"
    using fl(3) assms(2,6,7) by auto
  moreover have "kc_free_cnt s' = int (length (fl @ [b]))"
    using fl(2) assms(5) by simp
  ultimately show ?thesis unfolding kv_free_ok_def by blast
qed

lemma kv_free_count:
  assumes "kv_free_ok s"
  shows "kc_free_cnt s = int (card {b. b < kc_total s \<and> \<not> kb_in_use (blk s b)})"
proof -
  obtain fl where "dll_list (kc_links s) fl" "kc_free_cnt s = int (length fl)"
    "set fl = {b. b < kc_total s \<and> \<not> kb_in_use (blk s b)}"
    using assms by (auto simp: kv_free_ok_def)
  then show ?thesis by (metis distinct_card dll_list_distinct)
qed

lemma kv_free_head:
  assumes "kv_free_ok s"
  shows "kc_free_cnt s = 0 \<and> dl_head (kc_links s) = None \<or>
    (\<exists>b. dl_head (kc_links s) = Some b \<and> 0 < kc_free_cnt s \<and> b < kc_total s \<and> \<not> kb_in_use (blk s b))"
proof -
  obtain fl where fl: "dll_list (kc_links s) fl" "kc_free_cnt s = int (length fl)"
    "set fl = {b. b < kc_total s \<and> \<not> kb_in_use (blk s b)}"
    using assms by (auto simp: kv_free_ok_def)
  show ?thesis
  proof (cases fl)
    case Nil
    then show ?thesis using fl dll_list_head [OF fl(1)] by simp
  next
    case (Cons b bs)
    then have "b \<in> set fl" "0 < length fl" by simp_all
    then have "b < kc_total s \<and> \<not> kb_in_use (blk s b)" "0 < kc_free_cnt s"
      unfolding fl(2,3) by simp_all
    moreover have "dl_head (kc_links s) = Some b"
      using dll_list_head [OF fl(1)] Cons by simp
    ultimately show ?thesis by simp
  qed
qed

lemma kv_free_nonneg: "kv_free_ok s \<Longrightarrow> 0 \<le> kc_free_cnt s"
  using kv_free_count by fastforce

lemma blk_set_block:
  "blk (kv_set_block b f s) c = (if c = b \<and> b < length (kc_blocks s) then f (blk s b) else blk s c)"
  by (cases "b < length (kc_blocks s)") (auto simp: kv_set_block_def list_update_beyond)

lemma kv_set_block_fields [simp]:
  "kc_total (kv_set_block b f s) = kc_total s" "kc_bs (kv_set_block b f s) = kc_bs s"
  "length (kc_blocks (kv_set_block b f s)) = length (kc_blocks s)"
  "kc_req (kv_set_block b f s) = kc_req s" "kc_hash (kv_set_block b f s) = kc_hash s"
  "kc_links (kv_set_block b f s) = kc_links s" "kc_free_cnt (kv_set_block b f s) = kc_free_cnt s"
  "kc_hits (kv_set_block b f s) = kc_hits s" "kc_misses (kv_set_block b f s) = kc_misses s"
  by (simp_all add: kv_set_block_def)

lemma refs_table:
  assumes "finite (dom (kc_req s))"
  shows "refs ((kc_req s)(r \<mapsto> kv_table s r @ xs)) v = refs (kc_req s) v + count_list xs v"
  using refs_upd [OF assms, of r "kv_table s r @ xs" v]
  by (auto simp: kv_table_def split: option.splits)

lemma in_kv_table: "b \<in> set (kv_table s r) \<longleftrightarrow> (\<exists>ids. kc_req s r = Some ids \<and> b \<in> set ids)"
  by (cases "kc_req s r") (simp_all add: kv_table_def)

lemma refs_pos_table:
  assumes "finite (dom (kc_req s))"
  shows "0 < refs (kc_req s) v \<longleftrightarrow> (\<exists>r. v \<in> set (kv_table s r))"
  unfolding refs_pos [OF assms] in_kv_table ..

lemma kv_table_range:
  "kv_acct P s \<Longrightarrow> b \<in> set (kv_table s r) \<Longrightarrow> b < kc_total s"
  unfolding kv_acct_def in_kv_table by blast

lemma kv_table_in_use:
  assumes "kv_acct P s" "b \<in> set (kv_table s r)"
  shows "kb_in_use (blk s b)"
proof -
  have "0 < refs (kc_req s) b" using assms refs_pos_table by (auto simp: kv_acct_def)
  then show ?thesis using assms kv_table_range [OF assms] by (simp add: kv_acct_def)
qed

section \<open>Claiming a cached block\<close>

definition kv_claimed :: "rid \<Rightarrow> nat \<Rightarrow> kv_cache \<Rightarrow> kv_cache" where
  "kv_claimed r b s = s\<lparr>
     kc_blocks := (kc_blocks s)[b := (blk s b)\<lparr>kb_ref := kb_ref (blk s b) + 1, kb_in_use := True\<rparr>],
     kc_free_cnt := (if kb_in_use (blk s b) then kc_free_cnt s else kc_free_cnt s - 1),
     kc_links := (if kb_in_use (blk s b) then kc_links s else dll_unlink b (kc_links s)),
     kc_hits := kc_hits s + 1,
     kc_req := (kc_req s)(r \<mapsto> kv_table s r @ [b])\<rparr>"

lemma kv_claim_eq: "b < length (kc_blocks s) \<Longrightarrow> kv_claim r b s = Inr (kv_claimed r b s)"
proof -
  assume len: "b < length (kc_blocks s)"
  have k: "k\<lparr>kb_ref := n, kb_in_use := True\<rparr> = k\<lparr>kb_ref := n\<rparr>" if "kb_in_use k" for k :: kv_block and n
    using that by (cases k) simp
  show "kv_claim r b s = Inr (kv_claimed r b s)"
  proof (cases "kb_in_use (blk s b)")
    case True
    show ?thesis
      unfolding kv_claim_def kv_claimed_def k [OF True]
      by (simp add: True len kv_block_at_def kv_set_block_def kv_table_def Let_def)
  next
    case False
    then show ?thesis
      using len by (simp add: kv_claim_def kv_claimed_def kv_block_at_def kv_set_block_def kv_remove_free_eq
        kv_table_def Let_def)
  qed
qed

lemma kv_claimed_fields [simp]:
  "kc_total (kv_claimed r b s) = kc_total s" "kc_bs (kv_claimed r b s) = kc_bs s"
  "kc_hash (kv_claimed r b s) = kc_hash s"
  "length (kc_blocks (kv_claimed r b s)) = length (kc_blocks s)"
  "kc_req (kv_claimed r b s) = (kc_req s)(r \<mapsto> kv_table s r @ [b])"
  "kc_free_cnt (kv_claimed r b s) = (if kb_in_use (blk s b) then kc_free_cnt s else kc_free_cnt s - 1)"
  by (simp_all add: kv_claimed_def)

lemma kv_claimed_blk:
  assumes "b < length (kc_blocks s)"
  shows "kb_tokens (blk (kv_claimed r b s) c) = kb_tokens (blk s c)"
    "kb_hash (blk (kv_claimed r b s) c) = kb_hash (blk s c)"
    "kb_in_use (blk (kv_claimed r b s) c) = (c = b \<or> kb_in_use (blk s c))"
    "kb_ref (blk (kv_claimed r b s) c) = kb_ref (blk s c) + (if c = b then 1 else 0)"
  using assms by (auto simp: kv_claimed_def nth_list_update)

lemma kv_claimed_free_ok:
  assumes "kv_free_ok s" "b < kc_total s" "b < length (kc_blocks s)"
  shows "kv_free_ok (kv_claimed r b s)"
proof (cases "kb_in_use (blk s b)")
  case True
  show ?thesis
    by (rule kv_free_ok_same [OF assms(1)]) (use True assms(3) in \<open>auto simp: kv_claimed_blk, simp_all add: kv_claimed_def\<close>)
next
  case False
  show ?thesis
    by (rule kv_free_ok_unlink [OF assms(1,2) False])
      (use False assms(3) in \<open>auto simp: kv_claimed_blk, simp_all add: kv_claimed_def\<close>)
qed

lemma kv_claimed_acct:
  assumes "kv_acct [] s" "b < kc_total s"
  shows "kv_acct [] (kv_claimed r b s)"
proof -
  have fin: "finite (dom (kc_req s))" and len: "b < length (kc_blocks s)"
    using assms by (simp_all add: kv_acct_def)
  show ?thesis
    using assms kv_claimed_free_ok [of s b r] len kv_table_range [OF assms(1)] refs_table [OF fin, of r "[b]"]
    unfolding kv_acct_def by (auto simp: kv_claimed_blk)
qed

lemma kv_claimed_held:
  assumes "kv_inv s" "b < kc_total s" "length (kb_tokens (blk s b)) = kc_bs s" "kv_last_full r s"
  shows "kv_held_ok (kv_claimed r b s)" "kv_last_full r (kv_claimed r b s)"
proof -
  have fin: "finite (dom (kc_req s))" and len: "b < length (kc_blocks s)" and pos: "0 < kc_bs s"
    using assms by (simp_all add: kv_inv_def kv_acct_def)
  show "kv_last_full r (kv_claimed r b s)"
    using assms(3) len by (simp add: kv_last_full_def kv_claimed_blk)
  have held: "kb_tokens (blk s c) \<noteq> [] \<and> length (kb_tokens (blk s c)) \<le> kc_bs s \<and>
      (length (kb_tokens (blk s c)) \<noteq> kc_bs s \<longrightarrow> c = last ids \<and> refs (kc_req s) c = 1)"
    if "kc_req s q = Some ids" "c \<in> set ids" for q ids c
    using assms(1) that by (simp add: kv_inv_def kv_held_ok_def)
  show "kv_held_ok (kv_claimed r b s)"
    unfolding kv_held_ok_def
  proof (intro allI impI)
    fix q ids c
    assume ids: "kc_req (kv_claimed r b s) q = Some ids" "c \<in> set ids"
    have "kb_tokens (blk s c) \<noteq> [] \<and> length (kb_tokens (blk s c)) \<le> kc_bs s \<and>
      (length (kb_tokens (blk s c)) \<noteq> kc_bs s \<longrightarrow> c = last ids \<and> refs (kc_req s) c = 1 \<and> c \<noteq> b)"
    proof (cases "c = b")
      case True
      then show ?thesis using assms(3) pos by auto
    next
      case False
      show ?thesis
      proof (cases "q = r")
        case True
        then have "ids = kv_table s r @ [b]" using ids by auto
        then obtain ids' where t: "kc_req s r = Some ids'" "c \<in> set ids'"
          using ids(2) False by (auto simp: in_kv_table)
        then show ?thesis using held [OF t] assms(4) by (auto simp: kv_last_full_def)
      next
        case neq: False
        then have "kc_req s q = Some ids" using ids by auto
        then show ?thesis using held ids(2) False by blast
      qed
    qed
    then show "kb_tokens (blk (kv_claimed r b s) c) \<noteq> [] \<and>
        length (kb_tokens (blk (kv_claimed r b s) c)) \<le> kc_bs (kv_claimed r b s) \<and>
        (length (kb_tokens (blk (kv_claimed r b s) c)) \<noteq> kc_bs (kv_claimed r b s) \<longrightarrow>
         c = last ids \<and> refs (kc_req (kv_claimed r b s)) c = 1)"
      using refs_table [OF fin, of r "[b]" c] by (auto simp: kv_claimed_blk len)
  qed
qed

lemma kv_index_ok_same:
  assumes "kv_index_ok s" "kc_total s' = kc_total s" "kc_bs s' = kc_bs s" "kc_hash s' = kc_hash s"
    and "\<And>b. b < kc_total s \<Longrightarrow> kb_hash (blk s' b) = kb_hash (blk s b) \<and> kb_tokens (blk s' b) = kb_tokens (blk s b)"
  shows "kv_index_ok s'"
  using assms unfolding kv_index_ok_def by auto

lemma kv_claimed_inv:
  assumes "kv_inv s" "b < kc_total s" "length (kb_tokens (blk s b)) = kc_bs s" "kv_last_full r s"
  shows "kv_inv (kv_claimed r b s)"
proof -
  have "b < length (kc_blocks s)" using assms by (simp add: kv_inv_def kv_acct_def)
  then have "kv_index_ok (kv_claimed r b s)"
    using assms(1) kv_index_ok_same [of s "kv_claimed r b s"] by (simp add: kv_inv_def kv_claimed_blk)
  moreover have "kv_acct [] s" using assms(1) by (simp add: kv_inv_def)
  ultimately show ?thesis
    using kv_claimed_acct [OF _ assms(2)] kv_claimed_held(1) [OF assms] by (simp add: kv_inv_def)
qed

lemma kv_claimed_frame:
  assumes "b < length (kc_blocks s)"
  shows "kv_frame r s (kv_claimed r b s)"
  by (rule kv_frameI) (simp_all add: kv_claimed_blk [OF assms])

lemma kv_claimed_table: "kv_table (kv_claimed r b s) r = kv_table s r @ [b]"
  by (simp add: kv_table_def)

text \<open>Blocks a claim takes off the free list: those not in use, each counted once.\<close>

definition kv_idle :: "nat list \<Rightarrow> kv_cache \<Rightarrow> int" where
  "kv_idle bs s = int (length (filter (\<lambda>b. \<not> kb_in_use (blk s b)) bs))"

lemma kv_cached_from_free_eq:
  "\<forall>b \<in> set bs. b < length (kc_blocks s) \<Longrightarrow> kv_cached_from_free bs s = Inr (kv_idle bs s)"
  by (induction bs) (simp_all add: kv_block_at_def kv_idle_def)

lemma commit_cached_blocks_ok:
  assumes "kv_inv s" "\<forall>b \<in> set bs. b < kc_total s \<and> length (kb_tokens (blk s b)) = kc_bs s" "kv_last_full r s"
  shows "\<exists>s'. commit_cached_blocks r bs s = Inr s' \<and> kv_inv s' \<and> kv_last_full r s' \<and> kv_frame r s s' \<and>
    kv_table s' r = kv_table s r @ bs \<and> (bs \<noteq> [] \<longrightarrow> kc_req s' r \<noteq> None) \<and> (bs = [] \<longrightarrow> s' = s) \<and>
    kc_hash s' = kc_hash s \<and>
    (\<forall>c. kb_tokens (blk s' c) = kb_tokens (blk s c) \<and> kb_hash (blk s' c) = kb_hash (blk s c)) \<and>
    kc_free_cnt s - kv_idle bs s \<le> kc_free_cnt s'"
  using assms
proof (induction bs arbitrary: s)
  case Nil
  then show ?case by (simp add: kv_idle_def)
next
  case (Cons b bs)
  let ?s1 = "kv_claimed r b s"
  have b: "b < kc_total s" "length (kb_tokens (blk s b)) = kc_bs s" and len: "b < length (kc_blocks s)"
    using Cons.prems by (auto simp: kv_inv_def kv_acct_def)
  have inv1: "kv_inv ?s1" "kv_last_full r ?s1"
    using Cons.prems b kv_claimed_inv kv_claimed_held(2) by blast+
  have "\<forall>c \<in> set bs. c < kc_total ?s1 \<and> length (kb_tokens (blk ?s1 c)) = kc_bs ?s1"
    using Cons.prems(2) len by (simp add: kv_claimed_blk)
  from Cons.IH [OF inv1(1) this inv1(2)] obtain s' where
    s': "commit_cached_blocks r bs ?s1 = Inr s'" "kv_inv s'" "kv_last_full r s'" "kv_frame r ?s1 s'"
      "kv_table s' r = kv_table ?s1 r @ bs" "bs = [] \<longrightarrow> s' = ?s1" "kc_hash s' = kc_hash s"
      "\<forall>c. kb_tokens (blk s' c) = kb_tokens (blk ?s1 c) \<and> kb_hash (blk s' c) = kb_hash (blk ?s1 c)"
      "kc_free_cnt ?s1 - kv_idle bs ?s1 \<le> kc_free_cnt s'"
    by auto
  have tab: "kv_table s' r = kv_table s r @ b # bs"
    using s'(5) by (simp add: kv_claimed_table)
  moreover from tab have "kc_req s' r \<noteq> None" by (auto simp: kv_table_def split: option.splits)
  moreover have "kv_idle bs ?s1 \<le> kv_idle bs s"
    unfolding kv_idle_def by (induction bs) (auto simp: kv_claimed_blk len)
  then have "kc_free_cnt s - kv_idle (b # bs) s \<le> kc_free_cnt s'"
    using s'(9) by (auto simp: kv_idle_def split: if_splits)
  ultimately show ?case
    using s' kv_frame_trans [OF kv_claimed_frame [OF len] s'(4)] kv_claim_eq [OF len, of r]
    by (auto simp: kv_claimed_blk len)
qed

section \<open>Taking a new block\<close>

text \<open>The state after \<open>b\<close> is popped, stripped of its old key, filled with \<open>tok\<close> and, when
  \<open>h\<close> is not empty, indexed under \<open>h\<close>.\<close>

definition kv_taken :: "rid \<Rightarrow> token list \<Rightarrow> string \<Rightarrow> nat \<Rightarrow> kv_cache \<Rightarrow> kv_cache" where
  "kv_taken r tok h b s =
     (let m = (if kb_hash (blk s b) \<noteq> [] then (kc_hash s)(kb_hash (blk s b) := None) else kc_hash s)
      in s\<lparr>kc_blocks := (kc_blocks s)[b := \<lparr>kb_ref = 1, kb_in_use = True, kb_hash = h, kb_tokens = tok\<rparr>],
           kc_free_cnt := kc_free_cnt s - 1, kc_links := dll_unlink b (kc_links s),
           kc_misses := kc_misses s + 1,
           kc_hash := (if h \<noteq> [] then m(h \<mapsto> b) else m),
           kc_req := (kc_req s)(r \<mapsto> kv_table s r @ [b])\<rparr>)"

lemma kv_taken_fields [simp]:
  "kc_total (kv_taken r tok h b s) = kc_total s" "kc_bs (kv_taken r tok h b s) = kc_bs s"
  "length (kc_blocks (kv_taken r tok h b s)) = length (kc_blocks s)"
  "kc_req (kv_taken r tok h b s) = (kc_req s)(r \<mapsto> kv_table s r @ [b])"
  "kc_free_cnt (kv_taken r tok h b s) = kc_free_cnt s - 1"
  by (simp_all add: kv_taken_def Let_def)

lemma kv_taken_blk:
  assumes "b < length (kc_blocks s)"
  shows "blk (kv_taken r tok h b s) c =
    (if c = b then \<lparr>kb_ref = 1, kb_in_use = True, kb_hash = h, kb_tokens = tok\<rparr> else blk s c)"
  using assms by (simp add: kv_taken_def Let_def)

lemma kv_take_new_eq:
  assumes "dl_head (kc_links s) = Some b" "b < length (kc_blocks s)" "pos \<le> length toks"
  shows "kv_take_new r prefill toks prev pos s =
    (let tok = take (kc_bs s) (drop pos toks); full = (length tok = kc_bs s \<and> prefill); h = hash_block prev tok
     in Inr (if full then h else prev, pos + length tok, kv_taken r tok (if full then h else []) b s))"
proof -
  have stop: "(if pos + kc_bs s > length toks then length toks else pos + kc_bs s) =
      pos + length (take (kc_bs s) (drop pos toks))"
    using assms(3) by auto
  have tok: "take (pos + length (take (kc_bs s) (drop pos toks)) - pos) (drop pos toks) =
      take (kc_bs s) (drop pos toks)"
    by (simp add: min_def)
  have cut: "take (min (length toks - pos) (kc_bs s)) (drop pos toks) = take (kc_bs s) (drop pos toks)"
    by (simp add: min_def)
  show ?thesis
    unfolding kv_take_new_def kv_pop_free_def assms(1) option.case prod.case Let_def
    using assms(2)
    by (cases "blk s b")
      (simp add: stop tok cut kv_remove_free_eq kv_set_block_def kv_put_hash_def kv_taken_def kv_table_def Let_def)
qed

lemma kv_taken_free_ok:
  assumes "kv_free_ok s" "b < kc_total s" "b < length (kc_blocks s)" "\<not> kb_in_use (blk s b)"
  shows "kv_free_ok (kv_taken r tok h b s)"
  by (rule kv_free_ok_unlink [OF assms(1,2,4)])
    (use assms(3) in \<open>auto simp: kv_taken_blk, simp_all add: kv_taken_def Let_def\<close>)

lemma kv_taken_table: "kv_table (kv_taken r tok h b s) r = kv_table s r @ [b]"
  by (simp add: kv_table_def)

text \<open>A block on the free list is in nobody's table.\<close>

lemma kv_idle_unheld:
  assumes "kv_acct P s" "b < kc_total s" "\<not> kb_in_use (blk s b)"
  shows "refs (kc_req s) b = 0" "b \<notin> set (kv_table s q)"
  using assms kv_table_in_use [OF assms(1)] by (auto simp: kv_acct_def)

lemma kv_taken_acct:
  assumes "kv_acct [] s" "b < kc_total s" "\<not> kb_in_use (blk s b)"
  shows "kv_acct [] (kv_taken r tok h b s)"
proof -
  have fin: "finite (dom (kc_req s))" and len: "b < length (kc_blocks s)"
    using assms by (simp_all add: kv_acct_def)
  show ?thesis
    using assms kv_taken_free_ok [of s b r tok h] len kv_table_range [OF assms(1)] refs_table [OF fin, of r "[b]"]
      kv_idle_unheld(1) [OF assms]
    unfolding kv_acct_def by (auto simp: kv_taken_blk)
qed

lemma kv_taken_held:
  assumes "kv_inv s" "b < kc_total s" "\<not> kb_in_use (blk s b)" "kv_last_full r s"
    and "tok \<noteq> []" "length tok \<le> kc_bs s"
  shows "kv_held_ok (kv_taken r tok h b s)"
  unfolding kv_held_ok_def
proof (intro allI impI)
  fix q ids c
  let ?s = "kv_taken r tok h b s"
  assume ids: "kc_req ?s q = Some ids" "c \<in> set ids"
  have acct: "kv_acct [] s" and fin: "finite (dom (kc_req s))" and len: "b < length (kc_blocks s)"
    using assms by (simp_all add: kv_inv_def kv_acct_def)
  have refs: "refs (kc_req ?s) c = refs (kc_req s) c + (if c = b then 1 else 0)"
    using refs_table [OF fin, of r "[b]" c] by simp
  have held: "kb_tokens (blk s c) \<noteq> [] \<and> length (kb_tokens (blk s c)) \<le> kc_bs s \<and>
      (length (kb_tokens (blk s c)) \<noteq> kc_bs s \<longrightarrow> c = last ids' \<and> refs (kc_req s) c = 1)"
    if "kc_req s q = Some ids'" "c \<in> set ids'" for ids'
    using assms(1) that by (simp add: kv_inv_def kv_held_ok_def)
  show "kb_tokens (blk ?s c) \<noteq> [] \<and> length (kb_tokens (blk ?s c)) \<le> kc_bs ?s \<and>
        (length (kb_tokens (blk ?s c)) \<noteq> kc_bs ?s \<longrightarrow> c = last ids \<and> refs (kc_req ?s) c = 1)"
  proof (cases "c = b")
    case True
    have "q = r"
    proof (rule ccontr)
      assume "q \<noteq> r"
      then have "b \<in> set (kv_table s q)" using ids True by (auto simp: in_kv_table)
      then show False using kv_idle_unheld(2) [OF acct assms(2,3)] by blast
    qed
    then have "last ids = b" using ids(1) by auto
    then show ?thesis
      using True refs kv_idle_unheld(1) [OF acct assms(2,3)] assms(5,6) by (simp add: kv_taken_blk len)
  next
    case False
    show ?thesis
    proof (cases "q = r")
      case True
      then have "ids = kv_table s r @ [b]" using ids by auto
      then obtain ids' where t: "kc_req s q = Some ids'" "c \<in> set ids'"
        using ids(2) False True by (auto simp: in_kv_table)
      then show ?thesis using held [OF t] assms(4) True False by (auto simp: kv_last_full_def kv_taken_blk len)
    next
      case neq: False
      then have "kc_req s q = Some ids" using ids by auto
      then show ?thesis using held [OF _ ids(2)] refs False by (simp add: kv_taken_blk len)
    qed
  qed
qed

lemma kv_taken_index:
  assumes "kv_index_ok s" "b < kc_total s" "b < length (kc_blocks s)" "h = [] \<or> length tok = kc_bs s"
  shows "kv_index_ok (kv_taken r tok h b s)"
proof -
  have sub: "c < kc_total s \<and> c \<noteq> b \<and> kb_hash (blk s c) = k \<and> k \<noteq> []"
    if "(if kb_hash (blk s b) \<noteq> [] then (kc_hash s)(kb_hash (blk s b) := None) else kc_hash s) k = Some c" for k c
    using assms(1) that unfolding kv_index_ok_def by (auto split: if_splits)
  show ?thesis
    unfolding kv_index_ok_def
  proof (intro conjI allI impI)
    fix k c
    assume "kc_hash (kv_taken r tok h b s) k = Some c"
    then have "h \<noteq> [] \<and> k = h \<and> c = b \<or>
       (if kb_hash (blk s b) \<noteq> [] then (kc_hash s)(kb_hash (blk s b) := None) else kc_hash s) k = Some c"
      by (auto simp: kv_taken_def Let_def split: if_splits)
    then have kc: "(k = h \<and> c = b \<and> h \<noteq> []) \<or> (c < kc_total s \<and> c \<noteq> b \<and> kb_hash (blk s c) = k \<and> k \<noteq> [])"
      using sub by blast
    then show "c < kc_total (kv_taken r tok h b s)" using assms(2) by auto
    show "kb_hash (blk (kv_taken r tok h b s) c) = k" using kc by (auto simp: kv_taken_blk assms(3))
    show "k \<noteq> []" using kc by auto
  next
    fix c
    assume "c < kc_total (kv_taken r tok h b s)" "kb_hash (blk (kv_taken r tok h b s) c) \<noteq> []"
    then show "length (kb_tokens (blk (kv_taken r tok h b s) c)) = kc_bs (kv_taken r tok h b s)"
      using assms by (auto simp: kv_taken_blk kv_index_ok_def split: if_splits)
  qed
qed

lemma kv_taken_inv:
  assumes "kv_inv s" "b < kc_total s" "\<not> kb_in_use (blk s b)" "kv_last_full r s"
    and "tok \<noteq> []" "length tok \<le> kc_bs s" "h = [] \<or> length tok = kc_bs s"
  shows "kv_inv (kv_taken r tok h b s)"
  using assms kv_taken_acct [of s b r tok h] kv_taken_held [OF assms(1-6)] kv_taken_index [of s b h tok r]
  unfolding kv_inv_def by (simp add: kv_acct_def)

lemma kv_taken_frame:
  assumes "kv_acct P s" "b < kc_total s" "\<not> kb_in_use (blk s b)"
  shows "kv_frame r s (kv_taken r tok h b s)"
proof (rule kv_frameI)
  fix q c
  assume "c \<in> set (kv_table s q)"
  then have "c \<noteq> b" using kv_idle_unheld(2) [OF assms] by blast
  then show "kb_tokens (blk (kv_taken r tok h b s) c) = kb_tokens (blk s c)"
    using assms by (simp add: kv_taken_blk kv_acct_def)
qed simp_all

lemma kv_taken_stored:
  assumes "kv_acct P s" "b < kc_total s" "\<not> kb_in_use (blk s b)"
  shows "kv_stored (kv_taken r tok h b s) r = kv_stored s r @ tok"
proof -
  have len: "b < length (kc_blocks s)" using assms by (simp add: kv_acct_def)
  have old: "map (\<lambda>c. kb_tokens (blk (kv_taken r tok h b s) c)) (kv_table s r) = map (\<lambda>c. kb_tokens (blk s c)) (kv_table s r)"
    using kv_idle_unheld(2) [OF assms, of r] by (auto simp: kv_taken_blk len)
  have new: "kb_tokens (blk (kv_taken r tok h b s) b) = tok" by (simp add: kv_taken_blk len)
  show "kv_stored (kv_taken r tok h b s) r = kv_stored s r @ tok"
    unfolding kv_stored_def kv_taken_table map_append concat_append old by (simp add: new)
qed

section \<open>Keys\<close>

text \<open>
  The key of block \<open>i\<close> of a table is chained to the key of block \<open>i - 1\<close>. These are the pairs
  of previous key and tokens that the keyed blocks of a table stand for.
\<close>

definition kv_prev_key :: "kv_cache \<Rightarrow> nat list \<Rightarrow> nat \<Rightarrow> string" where
  "kv_prev_key s ids i = (if i = 0 then [] else kb_hash (blk s (ids ! (i - 1))))"

definition kv_pairs :: "kv_cache \<Rightarrow> rid \<Rightarrow> (string \<times> token list) set" where
  "kv_pairs s r = {(kv_prev_key s (kv_table s r) i, kb_tokens (blk s (kv_table s r ! i))) | i.
     i < length (kv_table s r) \<and> kb_hash (blk s (kv_table s r ! i)) \<noteq> []}"

text \<open>Every key in the cache is the hash of a pair of \<open>U\<close> with the block's own tokens.\<close>

definition kv_keys :: "(string \<times> token list) set \<Rightarrow> kv_cache \<Rightarrow> bool" where
  "kv_keys U s \<longleftrightarrow> (\<forall>b < kc_total s. kb_hash (blk s b) \<noteq> [] \<longrightarrow>
     (\<exists>p. prev_ok p \<and> (p, kb_tokens (blk s b)) \<in> U \<and> kb_hash (blk s b) = hash_block p (kb_tokens (blk s b))))"

lemma kv_keys_mono: "kv_keys U s \<Longrightarrow> U \<subseteq> V \<Longrightarrow> kv_keys V s"
  unfolding kv_keys_def by blast

lemma kv_keys_prev_ok: "kv_keys U s \<Longrightarrow> b < kc_total s \<Longrightarrow> prev_ok (kb_hash (blk s b))"
  by (cases "kb_hash (blk s b) = []") (auto simp: kv_keys_def)

definition kv_last_key :: "kv_cache \<Rightarrow> rid \<Rightarrow> string" where
  "kv_last_key s r = (if kv_table s r = [] then [] else kb_hash (blk s (last (kv_table s r))))"

lemma kv_pairs_extend:
  assumes "kv_table s' r = kv_table s r @ xs"
    and "\<And>b. b \<in> set (kv_table s r) \<Longrightarrow> kb_tokens (blk s' b) = kb_tokens (blk s b) \<and> kb_hash (blk s' b) = kb_hash (blk s b)"
  shows "kv_pairs s r \<subseteq> kv_pairs s' r"
proof
  fix x assume "x \<in> kv_pairs s r"
  then obtain i where i: "i < length (kv_table s r)" "kb_hash (blk s (kv_table s r ! i)) \<noteq> []"
    "x = (kv_prev_key s (kv_table s r) i, kb_tokens (blk s (kv_table s r ! i)))"
    by (auto simp: kv_pairs_def)
  have "kv_prev_key s' (kv_table s' r) i = kv_prev_key s (kv_table s r) i"
    using i(1) assms less_imp_diff_less [OF i(1), of 1] by (simp add: kv_prev_key_def nth_append)
  then have "x = (kv_prev_key s' (kv_table s' r) i, kb_tokens (blk s' (kv_table s' r ! i)))"
    using i assms by (simp add: nth_append)
  then show "x \<in> kv_pairs s' r"
    unfolding kv_pairs_def using i assms by (auto simp: nth_append intro!: exI [of _ i])
qed

text \<open>Taking a block keeps the keys explained, when the chain starts at the table's last key.\<close>

lemma kv_taken_keys:
  assumes "kv_acct P s" "b < kc_total s" "\<not> kb_in_use (blk s b)"
    and "h = [] \<or> h = hash_block (kv_last_key s r) tok"
    and keys: "kv_keys (U \<union> kv_pairs s r) s"
  shows "kv_keys (U \<union> kv_pairs (kv_taken r tok h b s) r) (kv_taken r tok h b s)"
proof -
  let ?s = "kv_taken r tok h b s"
  have len: "b < length (kc_blocks s)" using assms by (simp add: kv_acct_def)
  have tab: "kv_table ?s r = kv_table s r @ [b]" by (rule kv_taken_table)
  have unheld: "c \<noteq> b" if "c \<in> set (kv_table s r)" for c
    using kv_idle_unheld(2) [OF assms(1-3)] that by blast
  have sub: "kv_pairs s r \<subseteq> kv_pairs ?s r"
    by (rule kv_pairs_extend [OF tab]) (use unheld in \<open>simp add: kv_taken_blk len\<close>)
  have new: "(kv_last_key s r, tok) \<in> kv_pairs ?s r" if "h \<noteq> []"
  proof -
    let ?i = "length (kv_table s r)"
    have "kv_prev_key ?s (kv_table ?s r) ?i = kv_last_key s r"
    proof (cases "kv_table s r = []")
      case True
      then show ?thesis by (simp add: kv_prev_key_def kv_last_key_def)
    next
      case False
      then have "(kv_table s r @ [b]) ! (?i - 1) = last (kv_table s r)"
        by (simp add: nth_append last_conv_nth)
      then show ?thesis
        using False unheld [of "last (kv_table s r)"] by (simp add: kv_prev_key_def kv_last_key_def tab kv_taken_blk len)
    qed
    then show ?thesis unfolding kv_pairs_def
      using that by (auto simp: tab kv_taken_blk len intro!: exI [of _ ?i])
  qed
  have pk: "prev_ok (kv_last_key s r)"
    using kv_keys_prev_ok [OF keys] kv_table_range [OF assms(1) last_in_set] by (simp add: kv_last_key_def)
  show ?thesis
    unfolding kv_keys_def
  proof (intro allI impI)
    fix c
    assume c: "c < kc_total ?s" "kb_hash (blk ?s c) \<noteq> []"
    show "\<exists>p. prev_ok p \<and> (p, kb_tokens (blk ?s c)) \<in> U \<union> kv_pairs ?s r \<and>
            kb_hash (blk ?s c) = hash_block p (kb_tokens (blk ?s c))"
    proof (cases "c = b")
      case True
      then have "h \<noteq> []" using c(2) by (simp add: kv_taken_blk len)
      then show ?thesis
        using True new pk assms(4) by (auto simp: kv_taken_blk len intro!: exI [of _ "kv_last_key s r"])
    next
      case False
      then obtain p where "prev_ok p" "(p, kb_tokens (blk s c)) \<in> U \<union> kv_pairs s r"
        "kb_hash (blk s c) = hash_block p (kb_tokens (blk s c))"
        using keys c unfolding kv_keys_def by (auto simp: kv_taken_blk len)
      then show ?thesis using False sub by (auto simp: kv_taken_blk len intro!: exI [of _ p])
    qed
  qed
qed

lemma ceil_div_pos: "0 < k \<Longrightarrow> 0 < n \<Longrightarrow> ceil_div n k = Suc (ceil_div (n - k) k)"
proof (cases "n \<le> k")
  case True
  assume "0 < k" "0 < n"
  then have "(n + k - 1) div k = 1" using True by (intro div_nat_eqI) auto
  then show ?thesis using True \<open>0 < k\<close> by (simp add: ceil_div_def)
next
  case False
  assume "0 < k" "0 < n"
  moreover from this have "n + k - 1 = (n - k + k - 1) + k" using False by simp
  ultimately show ?thesis unfolding ceil_div_def by (metis False add_diff_cancel_left' add_diff_inverse_nat
      div_add_self2 less_imp_le_nat linorder_not_le not_less_zero add.commute Suc_eq_plus1 gr_implies_not0)
qed

lemma ceil_div_0 [simp]: "0 < k \<Longrightarrow> ceil_div 0 k = 0"
  by (simp add: ceil_div_def)

text \<open>The loop that takes as many blocks as the remaining tokens need.\<close>

lemma kv_take_many_ok:
  assumes "kv_inv s" "pos \<le> length toks" "n = ceil_div (length toks - pos) (kc_bs s)" "int n \<le> kc_free_cnt s"
    and "0 < n \<longrightarrow> kv_last_full r s" "0 < n \<longrightarrow> prefill \<longrightarrow> prev = kv_last_key s r"
  shows "\<exists>s'. kv_take_many n r prefill toks prev pos s = Inr (length toks, s') \<and> kv_inv s' \<and> kv_frame r s s' \<and>
    kv_stored s' r = kv_stored s r @ drop pos toks \<and> kc_free_cnt s' = kc_free_cnt s - int n \<and>
    (\<forall>U. kv_keys (U \<union> kv_pairs s r) s \<longrightarrow> kv_keys (U \<union> kv_pairs s' r) s')"
  using assms
proof (induction n arbitrary: pos prev s)
  case 0
  then have "0 < kc_bs s" by (simp add: kv_inv_def kv_acct_def)
  then have "pos = length toks" using 0 ceil_div_pos [of "kc_bs s" "length toks - pos"] by (cases "pos = length toks") auto
  then show ?case using 0 by simp
next
  case (Suc n)
  have acct: "kv_acct [] s" and free: "kv_free_ok s" and bs: "0 < kc_bs s" and lb: "length (kc_blocks s) = kc_total s"
    using Suc.prems(1) by (simp_all add: kv_inv_def kv_acct_def)
  obtain b where b: "dl_head (kc_links s) = Some b" "b < kc_total s" "\<not> kb_in_use (blk s b)"
    using kv_free_head [OF free] Suc.prems(4) by auto
  let ?tok = "take (kc_bs s) (drop pos toks)"
  let ?full = "length ?tok = kc_bs s \<and> prefill"
  let ?h = "if ?full then hash_block prev ?tok else []"
  let ?s1 = "kv_taken r ?tok ?h b s"
  have pos: "pos < length toks"
    using Suc.prems(2,3) bs by (cases "pos = length toks") auto
  have tok: "?tok \<noteq> []" "length ?tok \<le> kc_bs s" using pos bs by auto
  have last: "kv_last_full r s" and prev: "prefill \<Longrightarrow> prev = kv_last_key s r"
    using Suc.prems(5,6) by simp_all
  have step: "kv_take_new r prefill toks prev pos s = Inr (if ?full then ?h else prev, pos + length ?tok, ?s1)"
    using kv_take_new_eq [OF b(1) _ Suc.prems(2), of r prefill prev] b(2) lb by (simp add: Let_def)
  have inv1: "kv_inv ?s1"
    by (rule kv_taken_inv [OF Suc.prems(1) b(2,3) last tok]) simp
  have n: "n = ceil_div (length toks - (pos + length ?tok)) (kc_bs s)"
    using Suc.prems(3) ceil_div_pos [OF bs, of "length toks - pos"] pos by (auto simp: min_def)
  have more: "length ?tok = kc_bs s" if "0 < n"
    using n that bs by (cases "length toks - pos < kc_bs s") auto
  have last1: "kv_last_full r ?s1" if "0 < n"
    using more [OF that] b(2) lb by (simp add: kv_last_full_def kv_taken_blk)
  have prev1: "(if ?full then ?h else prev) = kv_last_key ?s1 r" if "0 < n" "prefill"
    using more [OF that(1)] that(2) b(2) lb by (simp add: kv_last_key_def kv_taken_table kv_taken_blk)
  have keys1: "kv_keys (U \<union> kv_pairs s r) s \<Longrightarrow> kv_keys (U \<union> kv_pairs ?s1 r) ?s1" for U
    by (rule kv_taken_keys [OF acct b(2,3)]) (use prev in auto)
  have "\<exists>s'. kv_take_many n r prefill toks (if ?full then ?h else prev) (pos + length ?tok) ?s1 = Inr (length toks, s') \<and>
      kv_inv s' \<and> kv_frame r ?s1 s' \<and> kv_stored s' r = kv_stored ?s1 r @ drop (pos + length ?tok) toks \<and>
      kc_free_cnt s' = kc_free_cnt ?s1 - int n \<and>
      (\<forall>U. kv_keys (U \<union> kv_pairs ?s1 r) ?s1 \<longrightarrow> kv_keys (U \<union> kv_pairs s' r) s')"
    by (rule Suc.IH) (use inv1 pos n Suc.prems(4) last1 prev1 in \<open>auto simp: min_def\<close>)
  then obtain s' where s':
    "kv_take_many n r prefill toks (if ?full then ?h else prev) (pos + length ?tok) ?s1 = Inr (length toks, s')"
    "kv_inv s'" "kv_frame r ?s1 s'" "kv_stored s' r = kv_stored ?s1 r @ drop (pos + length ?tok) toks"
    "kc_free_cnt s' = kc_free_cnt ?s1 - int n"
    "\<And>U. kv_keys (U \<union> kv_pairs ?s1 r) ?s1 \<Longrightarrow> kv_keys (U \<union> kv_pairs s' r) s'"
    by blast
  have "kv_stored s' r = kv_stored s r @ drop pos toks"
  proof -
    have "?tok @ drop (pos + length ?tok) toks = drop pos toks"
      by (metis append_take_drop_id drop_drop add.commute length_take min.cobounded2 take_all drop_all
          append_Nil2 length_drop min_def nle_le)
    then show ?thesis using s'(4) kv_taken_stored [OF acct b(2,3), of r ?tok ?h] by simp
  qed
  moreover have "kv_frame r s s'"
    using kv_frame_trans [OF kv_taken_frame [OF acct b(2,3)] s'(3)] .
  moreover have "kc_free_cnt s' = kc_free_cnt s - int (Suc n)" using s'(5) by simp
  ultimately show ?case
    using s'(1,2,6) keys1 step by auto
qed

section \<open>Filling the last block\<close>

lemma refs_one:
  assumes "finite (dom m)" "m k = Some xs" "v \<in> set xs" "refs m v = 1"
  shows "count_list xs v = 1" "j \<noteq> k \<Longrightarrow> m j = Some ys \<Longrightarrow> v \<notin> set ys"
proof -
  have "0 < count_list xs v" using assms(3) by (simp add: count_list_pos_iff)
  then have c: "count_list xs v = 1" "refs (m(k := None)) v = 0"
    using refs_remove [OF assms(1,2), of v] assms(4) by linarith+
  show "count_list xs v = 1" by (rule c(1))
  assume "j \<noteq> k" "m j = Some ys"
  then show "v \<notin> set ys"
    using refs_pos [of "m(k := None)" v] assms(1) c(2) by (metis dom_fun_upd finite_Diff fun_upd_apply less_numeral_extra(3))
qed

definition kv_filled :: "nat \<Rightarrow> token list \<Rightarrow> string \<Rightarrow> kv_cache \<Rightarrow> kv_cache" where
  "kv_filled b ts key s = s\<lparr>
     kc_blocks := (kc_blocks s)[b := (blk s b)\<lparr>kb_tokens := ts, kb_hash := (if key \<noteq> [] then key else kb_hash (blk s b))\<rparr>],
     kc_hash := (if key \<noteq> [] then (kc_hash s)(key \<mapsto> b) else kc_hash s)\<rparr>"

lemma kv_filled_fields [simp]:
  "kc_total (kv_filled b ts key s) = kc_total s" "kc_bs (kv_filled b ts key s) = kc_bs s"
  "length (kc_blocks (kv_filled b ts key s)) = length (kc_blocks s)"
  "kc_req (kv_filled b ts key s) = kc_req s" "kc_links (kv_filled b ts key s) = kc_links s"
  "kc_free_cnt (kv_filled b ts key s) = kc_free_cnt s"
  "kv_table (kv_filled b ts key s) q = kv_table s q"
  by (simp_all add: kv_filled_def kv_table_def)

lemma kv_filled_blk:
  assumes "b < length (kc_blocks s)"
  shows "blk (kv_filled b ts key s) c =
    (if c = b then (blk s b)\<lparr>kb_tokens := ts, kb_hash := (if key \<noteq> [] then key else kb_hash (blk s b))\<rparr> else blk s c)"
  using assms by (simp add: kv_filled_def)

lemma kv_fill_last_eq:
  assumes "last ids < length (kc_blocks s)" "length (kb_tokens (blk s (last ids))) < kc_bs s" "pos \<le> length toks"
  shows "kv_fill_last ids toks pos s =
    (let b = last ids; app = take (kc_bs s - length (kb_tokens (blk s b))) (drop pos toks);
         ts = kb_tokens (blk s b) @ app;
         prev = (if length ids \<ge> 2 then kb_hash (blk s (ids ! (length ids - 2))) else [])
     in (pos + length app, kv_filled b ts (if length ts = kc_bs s then hash_block prev ts else []) s))"
proof -
  let ?b = "last ids" and ?m = "kc_bs s - length (kb_tokens (blk s (last ids)))"
  have app: "take (min (pos + ?m) (length toks) - pos) (drop pos toks) = take ?m (drop pos toks)"
    using assms(3) by (simp add: min_def)
  have h: "kb_hash ((kc_blocks s)[?b := k] ! c) = kb_hash (blk s c)" if "kb_hash k = kb_hash (blk s ?b)" for k c
    using assms(1) that by (cases "c = ?b") simp_all
  show ?thesis
    unfolding kv_fill_last_def Let_def app
    using assms(1) by (cases "blk s (last ids)") (auto simp: kv_filled_def kv_set_block_def kv_put_hash_def h)
qed

text \<open>What a request with a partly filled last block knows: the block is its own.\<close>

lemma kv_partial_own:
  assumes "kv_inv s" "kc_req s r = Some ids" "length (kb_tokens (blk s (last ids))) \<noteq> kc_bs s"
  shows "last ids < kc_total s" "last ids \<notin> set (butlast ids)" "q \<noteq> r \<Longrightarrow> last ids \<notin> set (kv_table s q)"
    "kb_hash (blk s (last ids)) = []" "length (kb_tokens (blk s (last ids))) < kc_bs s"
    "kb_tokens (blk s (last ids)) \<noteq> []" "ids \<noteq> []" "refs (kc_req s) (last ids) = 1"
proof -
  show ne: "ids \<noteq> []" using assms(1,2) by (auto simp: kv_inv_def kv_acct_def)
  then have mem: "last ids \<in> set ids" by simp
  then show range: "last ids < kc_total s" using assms(1,2) by (auto simp: kv_inv_def kv_acct_def)
  have held: "kb_tokens (blk s (last ids)) \<noteq> [] \<and> length (kb_tokens (blk s (last ids))) \<le> kc_bs s \<and>
      refs (kc_req s) (last ids) = 1"
    using assms mem unfolding kv_inv_def kv_held_ok_def by blast
  then show "kb_tokens (blk s (last ids)) \<noteq> []" "refs (kc_req s) (last ids) = 1"
    "length (kb_tokens (blk s (last ids))) < kc_bs s" using assms(3) by auto
  have fin: "finite (dom (kc_req s))" using assms(1) by (simp add: kv_inv_def kv_acct_def)
  have "count_list ids (last ids) = 1"
    by (rule refs_one(1) [OF fin assms(2) mem]) (use held in simp)
  moreover have "count_list ids (last ids) = count_list (butlast ids) (last ids) + 1"
    using ne by (metis append_butlast_last_id count_list_append count_list.simps add_0)
  ultimately show "last ids \<notin> set (butlast ids)" by (simp add: count_list_0_iff)
  show "q \<noteq> r \<Longrightarrow> last ids \<notin> set (kv_table s q)"
    using refs_one(2) [OF fin assms(2) mem] held by (auto simp: in_kv_table)
  show "kb_hash (blk s (last ids)) = []"
    using assms(1,3) range unfolding kv_inv_def kv_index_ok_def by blast
qed

lemma kv_filled_acct:
  assumes "kv_acct P s" "b < kc_total s"
  shows "kv_acct P (kv_filled b ts key s)"
proof -
  have len: "b < length (kc_blocks s)" using assms by (simp add: kv_acct_def)
  have "kv_free_ok (kv_filled b ts key s)"
    by (rule kv_free_ok_same [of s]) (use assms len in \<open>auto simp: kv_acct_def kv_filled_blk\<close>)
  then show ?thesis using assms len unfolding kv_acct_def by (auto simp: kv_filled_blk)
qed

lemma kv_filled_held:
  assumes "kv_inv s" "kc_req s r = Some ids" "length (kb_tokens (blk s (last ids))) \<noteq> kc_bs s"
    and "ts \<noteq> []" "length ts \<le> kc_bs s"
  shows "kv_held_ok (kv_filled (last ids) ts key s)"
  unfolding kv_held_ok_def
proof (intro allI impI)
  fix q qids c
  assume q: "kc_req (kv_filled (last ids) ts key s) q = Some qids" "c \<in> set qids"
  have len: "last ids < length (kc_blocks s)"
    using kv_partial_own(1) [OF assms(1-3)] assms(1) by (simp add: kv_inv_def kv_acct_def)
  have old: "kb_tokens (blk s c) \<noteq> [] \<and> length (kb_tokens (blk s c)) \<le> kc_bs s \<and>
      (length (kb_tokens (blk s c)) \<noteq> kc_bs s \<longrightarrow> c = last qids \<and> refs (kc_req s) c = 1)"
    using assms(1) q by (simp add: kv_inv_def kv_held_ok_def)
  show "kb_tokens (blk (kv_filled (last ids) ts key s) c) \<noteq> [] \<and>
    length (kb_tokens (blk (kv_filled (last ids) ts key s) c)) \<le> kc_bs (kv_filled (last ids) ts key s) \<and>
    (length (kb_tokens (blk (kv_filled (last ids) ts key s) c)) \<noteq> kc_bs (kv_filled (last ids) ts key s) \<longrightarrow>
      c = last qids \<and> refs (kc_req (kv_filled (last ids) ts key s)) c = 1)"
    using old assms(3-5) by (auto simp: kv_filled_blk len)
qed

lemma kv_filled_index:
  assumes "kv_index_ok s" "b < kc_total s" "b < length (kc_blocks s)" "kb_hash (blk s b) = []"
    and "key = [] \<or> length ts = kc_bs s"
  shows "kv_index_ok (kv_filled b ts key s)"
  unfolding kv_index_ok_def
proof (intro conjI allI impI)
  fix k c
  assume "kc_hash (kv_filled b ts key s) k = Some c"
  then have "k = key \<and> c = b \<and> key \<noteq> [] \<or> kc_hash s k = Some c"
    by (auto simp: kv_filled_def split: if_splits)
  then have "k = key \<and> c = b \<and> key \<noteq> [] \<or> c < kc_total s \<and> kb_hash (blk s c) = k \<and> k \<noteq> [] \<and> c \<noteq> b"
    using assms(1,4) unfolding kv_index_ok_def by blast
  then show "c < kc_total (kv_filled b ts key s)" "kb_hash (blk (kv_filled b ts key s) c) = k" "k \<noteq> []"
    using assms(2) by (auto simp: kv_filled_blk assms(3))
next
  fix c
  assume "c < kc_total (kv_filled b ts key s)" "kb_hash (blk (kv_filled b ts key s) c) \<noteq> []"
  then show "length (kb_tokens (blk (kv_filled b ts key s) c)) = kc_bs (kv_filled b ts key s)"
    using assms by (auto simp: kv_filled_blk kv_index_ok_def split: if_splits)
qed

lemma kv_filled_inv:
  assumes "kv_inv s" "kc_req s r = Some ids" "length (kb_tokens (blk s (last ids))) \<noteq> kc_bs s"
    and "ts \<noteq> []" "length ts \<le> kc_bs s" "key = [] \<or> length ts = kc_bs s"
  shows "kv_inv (kv_filled (last ids) ts key s)"
proof -
  note own = kv_partial_own [OF assms(1-3)]
  have "kv_acct [] s" "kv_index_ok s" and len: "last ids < length (kc_blocks s)"
    using assms(1) own(1) by (simp_all add: kv_inv_def kv_acct_def)
  then show ?thesis
    using kv_filled_acct [OF _ own(1)] kv_filled_held [OF assms(1-5)] kv_filled_index [OF _ own(1) len own(4) assms(6)]
    by (simp add: kv_inv_def)
qed

lemma kv_filled_frame:
  assumes "kv_inv s" "kc_req s r = Some ids" "length (kb_tokens (blk s (last ids))) \<noteq> kc_bs s"
  shows "kv_frame r s (kv_filled (last ids) ts key s)"
proof (rule kv_frameI)
  have len: "last ids < length (kc_blocks s)"
    using kv_partial_own(1) [OF assms] assms(1) by (simp add: kv_inv_def kv_acct_def)
  fix q c
  assume "q \<noteq> r" "c \<in> set (kv_table s q)"
  then have "c \<noteq> last ids" using kv_partial_own(3) [OF assms] by blast
  then show "kb_tokens (blk (kv_filled (last ids) ts key s) c) = kb_tokens (blk s c)"
    by (simp add: kv_filled_blk len)
qed simp_all

lemma kv_filled_stored:
  assumes "kv_inv s" "kc_req s r = Some ids" "length (kb_tokens (blk s (last ids))) \<noteq> kc_bs s"
  shows "kv_stored (kv_filled (last ids) (kb_tokens (blk s (last ids)) @ app) key s) r = kv_stored s r @ app"
proof -
  let ?s = "kv_filled (last ids) (kb_tokens (blk s (last ids)) @ app) key s"
  note own = kv_partial_own [OF assms]
  have len: "last ids < length (kc_blocks s)" using own(1) assms(1) by (simp add: kv_inv_def kv_acct_def)
  have tab: "kv_table s r = butlast ids @ [last ids]" using assms(2) own(7) by (simp add: kv_table_def)
  have old: "map (\<lambda>c. kb_tokens (blk ?s c)) (butlast ids) = map (\<lambda>c. kb_tokens (blk s c)) (butlast ids)"
    using own(2) by (auto simp: kv_filled_blk len)
  have new: "kb_tokens (blk ?s (last ids)) = kb_tokens (blk s (last ids)) @ app"
    by (simp add: kv_filled_blk len)
  show ?thesis
    unfolding kv_stored_def kv_filled_fields tab map_append concat_append old by (simp add: new)
qed

lemma kv_filled_keys:
  assumes "kv_inv s" "kc_req s r = Some ids" "length (kb_tokens (blk s (last ids))) \<noteq> kc_bs s"
    and key: "key = [] \<or> key = hash_block (kv_prev_key s ids (length ids - 1)) ts"
    and keys: "kv_keys (U \<union> kv_pairs s r) s"
  shows "kv_keys (U \<union> kv_pairs (kv_filled (last ids) ts key s) r) (kv_filled (last ids) ts key s)"
proof -
  let ?s = "kv_filled (last ids) ts key s" and ?n = "length ids - 1"
  note own = kv_partial_own [OF assms(1-3)]
  have len: "last ids < length (kc_blocks s)" using own(1) assms(1) by (simp add: kv_inv_def kv_acct_def)
  have tab: "kv_table s r = ids" using assms(2) by (simp add: kv_table_def)
  have lastn: "ids ! ?n = last ids" using own(7) by (simp add: last_conv_nth)
  have before: "ids ! i \<noteq> last ids" if "i < ?n" for i
    using own(2) that by (metis length_butlast nth_butlast nth_mem)
  have prev: "kv_prev_key ?s ids i = kv_prev_key s ids i" if "i < length ids" for i
    using before [of "i - 1"] that by (auto simp: kv_prev_key_def kv_filled_blk len)
  have sub: "kv_pairs s r \<subseteq> kv_pairs ?s r"
  proof
    fix x assume "x \<in> kv_pairs s r"
    then obtain i where i: "i < length ids" "kb_hash (blk s (ids ! i)) \<noteq> []"
      "x = (kv_prev_key s ids i, kb_tokens (blk s (ids ! i)))"
      by (auto simp: kv_pairs_def tab)
    then have "i \<noteq> ?n" using own(4) lastn by metis
    then have "ids ! i \<noteq> last ids" using before i(1) by simp
    then show "x \<in> kv_pairs ?s r"
      unfolding kv_pairs_def using i prev by (auto simp: tab kv_filled_blk len intro!: exI [of _ i])
  qed
  have new: "(kv_prev_key s ids ?n, ts) \<in> kv_pairs ?s r" if "key \<noteq> []"
    unfolding kv_pairs_def using that own(7) lastn prev [of ?n]
    by (auto simp: tab kv_filled_blk len intro!: exI [of _ ?n])
  have pk: "prev_ok (kv_prev_key s ids ?n)"
    using kv_keys_prev_ok [OF keys, of "ids ! (?n - 1)"] assms(1,2) own(7)
    by (auto simp: kv_prev_key_def kv_inv_def kv_acct_def)
  show ?thesis
    unfolding kv_keys_def
  proof (intro allI impI)
    fix c
    assume c: "c < kc_total ?s" "kb_hash (blk ?s c) \<noteq> []"
    show "\<exists>p. prev_ok p \<and> (p, kb_tokens (blk ?s c)) \<in> U \<union> kv_pairs ?s r \<and>
            kb_hash (blk ?s c) = hash_block p (kb_tokens (blk ?s c))"
    proof (cases "c = last ids")
      case True
      then have k: "key \<noteq> []" using c(2) own(4) by (auto simp: kv_filled_blk len split: if_splits)
      then have "kb_hash (blk ?s c) = hash_block (kv_prev_key s ids ?n) ts" "kb_tokens (blk ?s c) = ts"
        using True key by (simp_all add: kv_filled_blk len)
      then show ?thesis using new [OF k] pk by auto
    next
      case False
      then obtain p where "prev_ok p" "(p, kb_tokens (blk s c)) \<in> U \<union> kv_pairs s r"
        "kb_hash (blk s c) = hash_block p (kb_tokens (blk s c))"
        using keys c unfolding kv_keys_def by (auto simp: kv_filled_blk len)
      then show ?thesis using False sub by (auto simp: kv_filled_blk len intro!: exI [of _ p])
    qed
  qed
qed

text \<open>Filling the last block with what fits of the tokens from \<open>pos\<close> on.\<close>

lemma kv_fill_last_ok:
  assumes "kv_inv s" "kc_req s r = Some ids" "length (kb_tokens (blk s (last ids))) \<noteq> kc_bs s" "pos < length toks"
  defines "n \<equiv> min (kc_bs s - length (kb_tokens (blk s (last ids)))) (length toks - pos)"
  obtains s' where "kv_fill_last ids toks pos s = (pos + n, s')" "0 < n" "kv_inv s'" "kv_frame r s s'"
    "kv_stored s' r = kv_stored s r @ take n (drop pos toks)" "kc_free_cnt s' = kc_free_cnt s"
    "kc_req s' = kc_req s" "pos + n < length toks \<Longrightarrow> kv_last_full r s'"
    "\<And>U. kv_keys (U \<union> kv_pairs s r) s \<Longrightarrow> kv_keys (U \<union> kv_pairs s' r) s'"
proof -
  note own = kv_partial_own [OF assms(1-3)]
  have len: "last ids < length (kc_blocks s)" using own(1) assms(1) by (simp add: kv_inv_def kv_acct_def)
  let ?app = "take (kc_bs s - length (kb_tokens (blk s (last ids)))) (drop pos toks)"
  let ?ts = "kb_tokens (blk s (last ids)) @ ?app"
  let ?prev = "if length ids \<ge> 2 then kb_hash (blk s (ids ! (length ids - 2))) else []"
  let ?key = "if length ?ts = kc_bs s then hash_block ?prev ?ts else []"
  let ?s = "kv_filled (last ids) ?ts ?key s"
  have app: "length ?app = n" "?app = take n (drop pos toks)" and n: "0 < n"
    using own(5) assms(4) by (simp_all add: n_def min_def)
  have prev: "?prev = kv_prev_key s ids (length ids - 1)"
    using own(7) by (cases "length ids \<ge> 2") (auto simp: kv_prev_key_def numeral_2_eq_2 not_le less_Suc_eq)
  have ts: "?ts \<noteq> []" "length ?ts \<le> kc_bs s" "?key = [] \<or> length ?ts = kc_bs s" using own(5,6) by auto
  have "kv_fill_last ids toks pos s = (pos + n, ?s)"
    using kv_fill_last_eq [OF len own(5), of pos toks] assms(4) app(1) by (simp add: Let_def)
  moreover have "kv_last_full r ?s" if "pos + n < length toks"
  proof -
    have "n = kc_bs s - length (kb_tokens (blk s (last ids)))" using that by (auto simp: n_def min_def split: if_splits)
    then show ?thesis using assms(2) own(5) app(1) by (simp add: kv_last_full_def kv_filled_blk len)
  qed
  moreover have "kv_stored ?s r = kv_stored s r @ take n (drop pos toks)"
    using kv_filled_stored [OF assms(1-3)] app(2) by simp
  moreover have "kv_keys (U \<union> kv_pairs ?s r) ?s" if "kv_keys (U \<union> kv_pairs s r) s" for U
    by (rule kv_filled_keys [OF assms(1-3) _ that]) (use prev in auto)
  ultimately show thesis
    using that [of ?s] n kv_filled_inv [OF assms(1-3) ts] kv_filled_frame [OF assms(1-3)] by simp
qed

section \<open>The allocation loop\<close>

text \<open>With no room left in the last block, one round of the loop places all the tokens.\<close>

lemma kv_alloc_loop_full:
  assumes "kv_inv s" "pos \<le> length toks" "kv_last_full r s" "kc_req s r \<noteq> None \<or> cached = []"
    and "int (ceil_div (length toks - pos) (kc_bs s)) \<le> kc_free_cnt s" "pos < length toks \<Longrightarrow> 0 < m"
  shows "\<exists>s'. kv_alloc_loop m r prefill cached toks pos s = Inr s' \<and> kv_inv s' \<and> kv_frame r s s' \<and>
    kv_stored s' r = kv_stored s r @ drop pos toks \<and>
    (\<forall>U. kv_keys (U \<union> kv_pairs s r) s \<longrightarrow> kv_keys (U \<union> kv_pairs s' r) s')"
proof (cases "pos < length toks")
  case False
  then show ?thesis using assms by (cases m) auto
next
  case True
  then obtain k where m: "m = Suc k" using assms(6) by (cases m) auto
  let ?n = "ceil_div (length toks - pos) (kc_bs s)"
  obtain s' where s': "kv_take_many ?n r prefill toks (kv_last_key s r) pos s = Inr (length toks, s')"
    "kv_inv s'" "kv_frame r s s'" "kv_stored s' r = kv_stored s r @ drop pos toks"
    "\<forall>U. kv_keys (U \<union> kv_pairs s r) s \<longrightarrow> kv_keys (U \<union> kv_pairs s' r) s'"
    using kv_take_many_ok [OF assms(1,2) refl assms(5), of r prefill "kv_last_key s r"] assms(3) by blast
  have "kv_alloc_body r prefill cached toks pos s = Inr (length toks, s')"
  proof (cases "kc_req s r")
    case None
    then show ?thesis
      using assms(4) s'(1) by (simp add: kv_alloc_body_def empty_kv_block_def kv_last_key_def kv_table_def Let_def)
  next
    case (Some ids)
    then have "ids \<noteq> []" "last ids < length (kc_blocks s)"
      using assms(1) by (auto simp: kv_inv_def kv_acct_def)
    moreover have "length (kb_tokens (blk s (last ids))) = kc_bs s"
      using assms(3) Some by (simp add: kv_last_full_def)
    ultimately show ?thesis
      using Some s'(1) by (simp add: kv_alloc_body_def kv_block_at_def kv_last_key_def kv_table_def Let_def)
  qed
  moreover have "kv_alloc_loop k r prefill cached toks (length toks) s' = Inr s'" by (cases k) auto
  ultimately show ?thesis using s' True m by simp
qed

lemma kv_alloc_loop_partial:
  assumes "kv_inv s" "kc_req s r = Some ids" "length (kb_tokens (blk s (last ids))) \<noteq> kc_bs s" "toks \<noteq> []"
    and "int (ceil_div (length toks - (kc_bs s - length (kb_tokens (blk s (last ids))))) (kc_bs s)) \<le> kc_free_cnt s"
  shows "\<exists>s'. kv_alloc_loop (Suc (length toks)) r prefill cached toks 0 s = Inr s' \<and> kv_inv s' \<and> kv_frame r s s' \<and>
    kv_stored s' r = kv_stored s r @ toks \<and>
    (\<forall>U. kv_keys (U \<union> kv_pairs s r) s \<longrightarrow> kv_keys (U \<union> kv_pairs s' r) s')"
proof -
  note own = kv_partial_own [OF assms(1-3)]
  have len: "last ids < length (kc_blocks s)" using own(1) assms(1) by (simp add: kv_inv_def kv_acct_def)
  define n where "n = min (kc_bs s - length (kb_tokens (blk s (last ids)))) (length toks - 0)"
  obtain s1 where s1: "kv_fill_last ids toks 0 s = (0 + n, s1)" "0 < n" "kv_inv s1" "kv_frame r s s1"
    "kv_stored s1 r = kv_stored s r @ take n (drop 0 toks)" "kc_free_cnt s1 = kc_free_cnt s"
    "kc_req s1 = kc_req s" "0 + n < length toks \<Longrightarrow> kv_last_full r s1"
    "\<And>U. kv_keys (U \<union> kv_pairs s r) s \<Longrightarrow> kv_keys (U \<union> kv_pairs s1 r) s1"
    using kv_fill_last_ok [OF assms(1-3), of 0 toks] assms(4) unfolding n_def by blast
  have body: "kv_alloc_body r prefill cached toks 0 s = Inr (n, s1)"
    using assms(2) own(5,6,7) len s1(1) by (simp add: kv_alloc_body_def kv_block_at_def)
  have rest: "\<exists>s'. kv_alloc_loop (length toks) r prefill cached toks n s1 = Inr s' \<and> kv_inv s' \<and> kv_frame r s1 s' \<and>
    kv_stored s' r = kv_stored s1 r @ drop n toks \<and>
    (\<forall>U. kv_keys (U \<union> kv_pairs s1 r) s1 \<longrightarrow> kv_keys (U \<union> kv_pairs s' r) s')"
  proof (cases "n < length toks")
    case True
    then have "n = kc_bs s - length (kb_tokens (blk s (last ids)))" by (auto simp: n_def min_def split: if_splits)
    then have "int (ceil_div (length toks - n) (kc_bs s1)) \<le> kc_free_cnt s1"
      using assms(5) s1(6) kv_frame_geometry(2) [OF s1(4)] by simp
    then show ?thesis
      using kv_alloc_loop_full [OF s1(3), of n toks r cached "length toks" prefill] True s1(7,8) assms(2,4) by simp
  next
    case False
    then have "n = length toks" by (simp add: n_def)
    moreover have "kv_alloc_loop (length toks) r prefill cached toks (length toks) s1 = Inr s1"
      by (cases "length toks") auto
    ultimately show ?thesis using s1(3) by simp
  qed
  then obtain s' where s': "kv_alloc_loop (length toks) r prefill cached toks n s1 = Inr s'" "kv_inv s'"
    "kv_frame r s1 s'" "kv_stored s' r = kv_stored s1 r @ drop n toks"
    "\<forall>U. kv_keys (U \<union> kv_pairs s1 r) s1 \<longrightarrow> kv_keys (U \<union> kv_pairs s' r) s'"
    by blast
  have "kv_alloc_loop (Suc (length toks)) r prefill cached toks 0 s = Inr s'"
    using body s'(1) assms(4) by simp
  moreover have "kv_stored s' r = kv_stored s r @ toks" using s'(4) s1(5) by simp
  ultimately show ?thesis using s' s1(9) kv_frame_trans [OF s1(4) s'(3)] by blast
qed

lemma kv_alloc_loop_fresh:
  assumes "kv_inv s" "kc_req s r = None" "toks \<noteq> []"
    and cached: "\<forall>b \<in> set cached. b < kc_total s \<and> length (kb_tokens (blk s b)) = kc_bs s"
    and "int (ceil_div (length toks) (kc_bs s)) + kv_idle cached s \<le> kc_free_cnt s"
  shows "\<exists>s'. kv_alloc_loop (Suc (length toks)) r prefill cached toks 0 s = Inr s' \<and> kv_inv s' \<and> kv_frame r s s' \<and>
    kv_stored s' r = concat (map (\<lambda>b. kb_tokens (blk s b)) cached) @ toks \<and>
    (\<forall>U. kv_keys (U \<union> kv_pairs s r) s \<longrightarrow> kv_keys (U \<union> kv_pairs s' r) s')"
proof -
  have last: "kv_last_full r s" using assms(2) by (simp add: kv_last_full_def)
  obtain s1 where s1: "commit_cached_blocks r cached s = Inr s1" "kv_inv s1" "kv_last_full r s1" "kv_frame r s s1"
    "kv_table s1 r = kv_table s r @ cached" "cached \<noteq> [] \<longrightarrow> kc_req s1 r \<noteq> None" "cached = [] \<longrightarrow> s1 = s"
    "\<forall>c. kb_tokens (blk s1 c) = kb_tokens (blk s c) \<and> kb_hash (blk s1 c) = kb_hash (blk s c)"
    "kc_free_cnt s - kv_idle cached s \<le> kc_free_cnt s1"
    using commit_cached_blocks_ok [OF assms(1) cached last] by blast
  have tab: "kv_table s1 r = cached" using s1(5) assms(2) by (simp add: kv_table_def)
  have body: "kv_alloc_body r prefill cached toks 0 s = kv_alloc_body r prefill cached toks 0 s1"
  proof (cases "cached = []")
    case True
    then show ?thesis using s1(7) by simp
  next
    case False
    then obtain ids where ids: "kc_req s1 r = Some ids" using s1(6) by auto
    then have "ids \<noteq> []" "last ids < length (kc_blocks s1)"
      using s1(2) by (auto simp: kv_inv_def kv_acct_def)
    then show ?thesis using False ids assms(2) s1(1) by (simp add: kv_alloc_body_def kv_block_at_def)
  qed
  have free: "int (ceil_div (length toks - 0) (kc_bs s1)) \<le> kc_free_cnt s1"
    using assms(5) s1(9) kv_frame_geometry(2) [OF s1(4)] by simp
  have owned: "kc_req s1 r \<noteq> None \<or> cached = []" using s1(6) by blast
  obtain s' where s': "kv_alloc_loop (Suc (length toks)) r prefill cached toks 0 s1 = Inr s'" "kv_inv s'"
    "kv_frame r s1 s'" "kv_stored s' r = kv_stored s1 r @ toks"
    "\<forall>U. kv_keys (U \<union> kv_pairs s1 r) s1 \<longrightarrow> kv_keys (U \<union> kv_pairs s' r) s'"
    using kv_alloc_loop_full [OF s1(2) le0 s1(3) owned free, of "Suc (length toks)" prefill]
    unfolding drop_0 by blast
  have "kv_alloc_loop (Suc (length toks)) r prefill cached toks 0 s = Inr s'"
    using s'(1) body assms(3) by simp
  moreover have "kv_stored s1 r = concat (map (\<lambda>b. kb_tokens (blk s b)) cached)"
    using s1(8) by (simp add: kv_stored_def tab)
  moreover have "\<forall>U. kv_keys (U \<union> kv_pairs s r) s \<longrightarrow> kv_keys (U \<union> kv_pairs s' r) s'"
  proof (intro allI impI)
    fix U assume that: "kv_keys (U \<union> kv_pairs s r) s"
    have "kv_pairs s r = {}" using assms(2) by (simp add: kv_pairs_def kv_table_def)
    then have "kv_keys U s1" using that s1(8) kv_frame_geometry(1) [OF s1(4)] by (simp add: kv_keys_def)
    then have "kv_keys (U \<union> kv_pairs s1 r) s1" by (rule kv_keys_mono) blast
    then show "kv_keys (U \<union> kv_pairs s' r) s'" using s'(5) by blast
  qed
  ultimately show ?thesis
    using s'(2,4) kv_frame_trans [OF s1(4) s'(3)] by (intro exI [of _ s']) simp
qed

section \<open>Allocation\<close>

text \<open>
  The arguments the scheduler passes: a slice of the prompt in prefill, the index of an
  output token and no cached blocks in decode, and cached blocks that are full.
\<close>

definition kv_alloc_args :: "request \<Rightarrow> int \<Rightarrow> int \<Rightarrow> nat list \<Rightarrow> kv_cache \<Rightarrow> bool" where
  "kv_alloc_args q start stop cached s \<longleftrightarrow>
     (if rq_progress q < input_len q then 0 \<le> start \<and> start \<le> stop \<and> stop \<le> input_len q
      else input_len q \<le> start \<and> start < input_len q + output_len q \<and> cached = []) \<and>
     (\<forall>b \<in> set cached. b < kc_total s \<and> length (kb_tokens (blk s b)) = kc_bs s)"

text \<open>Tokens that fit into the last block, and the blocks an allocation needs besides.\<close>

definition kv_room :: "kv_cache \<Rightarrow> rid \<Rightarrow> nat" where
  "kv_room s r = (if kv_table s r = [] then 0
                  else kc_bs s - length (kb_tokens (blk s (last (kv_table s r)))))"

definition kv_need :: "kv_cache \<Rightarrow> rid \<Rightarrow> nat \<Rightarrow> nat" where
  "kv_need s r n = ceil_div (n - kv_room s r) (kc_bs s)"

lemma kv_new_tokens_ok:
  assumes "kv_alloc_args q start stop cached s"
  obtains toks where "kv_new_tokens q start stop = Inr toks" "\<not> rq_progress q < input_len q \<Longrightarrow> length toks = 1"
  using assms by (cases "rq_progress q < input_len q")
    (auto simp: kv_alloc_args_def kv_new_tokens_def input_token_slice_def Let_def)

lemma kv_last_block:
  assumes "kv_inv s" "kc_req s r = Some ids"
  shows "ids \<noteq> []" "last ids < length (kc_blocks s)" "last ids < kc_total s"
    "0 < length (kb_tokens (blk s (last ids)))" "length (kb_tokens (blk s (last ids))) \<le> kc_bs s"
proof -
  show ne: "ids \<noteq> []" and "last ids < length (kc_blocks s)" "last ids < kc_total s"
    using assms by (auto simp: kv_inv_def kv_acct_def)
  then show "0 < length (kb_tokens (blk s (last ids)))" "length (kb_tokens (blk s (last ids))) \<le> kc_bs s"
    using assms unfolding kv_inv_def kv_held_ok_def by (metis last_in_set length_greater_0_conv)+
qed

lemma kv_effective_tokens_eq:
  assumes "kv_inv s"
  shows "kv_effective_tokens r n s = Inr (int (n - kv_room s r))"
proof (cases "kc_req s r")
  case None
  then show ?thesis by (simp add: kv_effective_tokens_def kv_room_def kv_table_def)
next
  case (Some ids)
  then show ?thesis
    using kv_last_block [OF assms Some]
    by (auto simp: kv_effective_tokens_def kv_room_def kv_table_def kv_block_at_def Let_def min_def)
qed

lemma ceil_div_int: "0 < k \<Longrightarrow> (int n + int k - 1) div int k = int (ceil_div n k)"
proof -
  assume "0 < k"
  then have "int n + int k - 1 = int (n + k - 1)" by simp
  then show "(int n + int k - 1) div int k = int (ceil_div n k)" by (simp only: ceil_div_def zdiv_int)
qed

lemma kv_prefill_check_eq:
  assumes "kv_inv s" "\<forall>b \<in> set cached. b < kc_total s"
  shows "kv_prefill_check r toks cached s =
    Inr (int (kv_need s r (length toks)) + kv_idle cached s \<le> kc_free_cnt s)"
proof -
  have bs: "0 < kc_bs s" and "\<forall>b \<in> set cached. b < length (kc_blocks s)"
    using assms by (simp_all add: kv_inv_def kv_acct_def)
  then have idle: "kv_cached_from_free cached s = Inr (kv_idle cached s)"
    by (intro kv_cached_from_free_eq)
  let ?n = "length toks - kv_room s r"
  have "(if int ?n > 0 then (int ?n + int (kc_bs s) - 1) div int (kc_bs s) else 0) = int (ceil_div ?n (kc_bs s))"
    using ceil_div_int [OF bs, of ?n] bs by (cases "?n = 0") simp_all
  then show ?thesis
    by (simp add: kv_prefill_check_def kv_effective_tokens_eq [OF assms(1)] idle kv_need_def kv_count_free_def Let_def not_less)
qed

lemma kv_decode_check_eq:
  assumes "kv_inv s"
  shows "kv_decode_check r s = Inr (int (kv_need s r 1) \<le> kc_free_cnt s)"
proof -
  have bs: "0 < kc_bs s" and nonneg: "0 \<le> kc_free_cnt s"
    using assms kv_free_nonneg by (auto simp: kv_inv_def kv_acct_def)
  have one: "ceil_div (Suc 0) (kc_bs s) = Suc 0" using ceil_div_pos [OF bs, of 1] bs by simp
  show ?thesis
  proof (cases "kc_req s r")
    case None
    then show ?thesis
      using one nonneg by (simp add: kv_decode_check_def kv_need_def kv_room_def kv_table_def kv_count_free_def) linarith
  next
    case (Some ids)
    note last = kv_last_block [OF assms Some]
    show ?thesis
    proof (cases "length (kb_tokens (blk s (last ids))) = kc_bs s")
      case True
      then show ?thesis
        using Some last(1,2) one nonneg
        by (simp add: kv_decode_check_def kv_need_def kv_room_def kv_table_def kv_block_at_def kv_count_free_def) linarith
    next
      case False
      then have "kv_need s r 1 = 0"
        using Some last bs by (simp add: kv_need_def kv_room_def kv_table_def)
      then show ?thesis
        using Some last(1,2) False nonneg by (simp add: kv_decode_check_def kv_block_at_def)
    qed
  qed
qed

lemma kv_stored_fresh: "kc_req s r = None \<Longrightarrow> kv_stored s r = []"
  by (simp add: kv_stored_def kv_table_def)

text \<open>What a successful allocation adds to the request's tokens.\<close>

definition kv_added :: "rid \<Rightarrow> nat list \<Rightarrow> token list \<Rightarrow> kv_cache \<Rightarrow> token list" where
  "kv_added r cached toks s =
     (if kc_req s r = None \<and> toks \<noteq> [] then concat (map (\<lambda>b. kb_tokens (blk s b)) cached) else []) @ toks"

lemma kv_alloc_loop_ok:
  assumes "kv_inv s" "\<forall>b \<in> set cached. b < kc_total s \<and> length (kb_tokens (blk s b)) = kc_bs s"
    and need: "int (kv_need s r (length toks)) + kv_idle cached s \<le> kc_free_cnt s"
  shows "\<exists>s'. kv_alloc_loop (Suc (length toks)) r prefill cached toks 0 s = Inr s' \<and> kv_inv s' \<and> kv_frame r s s' \<and>
    kv_stored s' r = kv_stored s r @ kv_added r cached toks s \<and>
    (\<forall>U. kv_keys (U \<union> kv_pairs s r) s \<longrightarrow> kv_keys (U \<union> kv_pairs s' r) s')"
proof (cases "toks = []")
  case True
  then show ?thesis using assms(1) by (simp add: kv_added_def)
next
  case toks: False
  have idle: "0 \<le> kv_idle cached s" by (simp add: kv_idle_def)
  show ?thesis
  proof (cases "kc_req s r")
    case None
    have "int (ceil_div (length toks) (kc_bs s)) + kv_idle cached s \<le> kc_free_cnt s"
      using need None by (simp add: kv_need_def kv_room_def kv_table_def)
    from kv_alloc_loop_fresh [OF assms(1) None toks assms(2) this, of prefill]
    show ?thesis using None toks by (simp add: kv_added_def kv_stored_fresh)
  next
    case (Some ids)
    note last = kv_last_block [OF assms(1) Some]
    have added: "kv_added r cached toks s = toks" using Some by (simp add: kv_added_def)
    show ?thesis
    proof (cases "length (kb_tokens (blk s (last ids))) = kc_bs s")
      case True
      then have "kv_last_full r s" and "kv_room s r = 0"
        using Some last(1) by (simp_all add: kv_last_full_def kv_room_def kv_table_def)
      moreover from this have "int (ceil_div (length toks - 0) (kc_bs s)) \<le> kc_free_cnt s"
        using need idle by (simp add: kv_need_def)
      ultimately show ?thesis
        using kv_alloc_loop_full [OF assms(1), of 0 toks r cached "Suc (length toks)" prefill] Some
        unfolding added by simp
    next
      case False
      then have "kv_room s r = kc_bs s - length (kb_tokens (blk s (last ids)))"
        using Some last(1) by (simp add: kv_room_def kv_table_def)
      then have "int (ceil_div (length toks - (kc_bs s - length (kb_tokens (blk s (last ids))))) (kc_bs s)) \<le> kc_free_cnt s"
        using need idle by (simp add: kv_need_def)
      from kv_alloc_loop_partial [OF assms(1) Some False toks this] show ?thesis unfolding added .
    qed
  qed
qed

text \<open>
  Allocation answers exactly the question whether the blocks suffice; on a no nothing
  changes, and on a yes the request has its tokens and nobody else notices.
\<close>

lemma allocate_cases:
  assumes "kv_inv s" "kv_alloc_args q start stop cached s" "kv_new_tokens q start stop = Inr toks"
  shows "if int (kv_need s (rq_id q) (length toks)) + kv_idle cached s \<le> kc_free_cnt s
    then \<exists>s'. allocate_kv_blocks q start stop cached s = Inr (True, s') \<and> kv_inv s' \<and> kv_frame (rq_id q) s s' \<and>
      kv_stored s' (rq_id q) = kv_stored s (rq_id q) @ kv_added (rq_id q) cached toks s \<and>
      (\<forall>U. kv_keys (U \<union> kv_pairs s (rq_id q)) s \<longrightarrow> kv_keys (U \<union> kv_pairs s' (rq_id q)) s')
    else allocate_kv_blocks q start stop cached s = Inr (False, s)"
proof -
  let ?enough = "int (kv_need s (rq_id q) (length toks)) + kv_idle cached s \<le> kc_free_cnt s"
  let ?pre = "rq_progress q < input_len q"
  have cached: "\<forall>b \<in> set cached. b < kc_total s \<and> length (kb_tokens (blk s b)) = kc_bs s"
    using assms(2) by (simp add: kv_alloc_args_def)
  have check: "(if ?pre then kv_prefill_check (rq_id q) toks cached s else kv_decode_check (rq_id q) s) = Inr ?enough"
  proof (cases ?pre)
    case True
    then show ?thesis using kv_prefill_check_eq [OF assms(1)] cached by simp
  next
    case False
    have "length toks = 1" using kv_new_tokens_ok [OF assms(2)] False assms(3) by auto
    moreover have "cached = []" using False assms(2) by (simp add: kv_alloc_args_def)
    ultimately show ?thesis using False kv_decode_check_eq [OF assms(1)] by (simp add: kv_idle_def)
  qed
  show ?thesis
  proof (cases ?enough)
    case True
    from kv_alloc_loop_ok [OF assms(1) cached True, of ?pre]
    show ?thesis using True check unfolding allocate_kv_blocks_def assms(3) Let_def obind_simps check by auto
  next
    case False
    then show ?thesis unfolding allocate_kv_blocks_def assms(3) Let_def obind_simps check by simp
  qed
qed

section \<open>Release\<close>

lemma kv_unref_fields [simp]:
  "kc_total (kv_unref b s) = kc_total s" "kc_bs (kv_unref b s) = kc_bs s" "kc_req (kv_unref b s) = kc_req s"
  "kc_hash (kv_unref b s) = kc_hash s" "length (kc_blocks (kv_unref b s)) = length (kc_blocks s)"
  by (simp_all add: kv_unref_def Let_def kv_append_free_eq)

lemma kv_unref_blk:
  assumes "b < length (kc_blocks s)"
  shows "kb_tokens (blk (kv_unref b s) c) = kb_tokens (blk s c)" "kb_hash (blk (kv_unref b s) c) = kb_hash (blk s c)"
    "kb_ref (blk (kv_unref b s) c) = kb_ref (blk s c) - (if c = b then 1 else 0)"
    "kb_in_use (blk (kv_unref b s) c) = (kb_in_use (blk s c) \<and> \<not> (c = b \<and> kb_ref (blk s b) = 1))"
  using assms by (auto simp: kv_unref_def Let_def kv_append_free_eq blk_set_block)

lemma kv_unref_acct:
  assumes "kv_acct (b # P) s"
  shows "kv_acct P (kv_unref b s)"
proof -
  have b: "b < kc_total s" and len: "b < length (kc_blocks s)" and use: "kb_in_use (blk s b)"
    and ref: "kb_ref (blk s b) = int (refs (kc_req s) b + count_list P b) + 1"
    using assms by (auto simp: kv_acct_def)
  have "kv_free_ok (kv_unref b s)"
  proof (cases "kb_ref (blk s b) = 1")
    case True
    show ?thesis
      by (rule kv_free_ok_append [of s b])
        (use assms b use True len in \<open>auto simp: kv_acct_def kv_unref_blk, simp_all add: kv_unref_def Let_def kv_append_free_eq blk_set_block\<close>)
  next
    case False
    show ?thesis
      by (rule kv_free_ok_same [of s])
        (use assms False len in \<open>auto simp: kv_acct_def kv_unref_blk, simp_all add: kv_unref_def Let_def kv_append_free_eq blk_set_block\<close>)
  qed
  then show ?thesis
    using assms len ref unfolding kv_acct_def by (auto simp: kv_unref_blk)
qed

lemma kv_unref_all_ok:
  assumes "kv_acct P s"
  shows "\<exists>s'. kv_unref_all P s = Inr s' \<and> kv_acct [] s' \<and> kc_req s' = kc_req s \<and> kc_hash s' = kc_hash s \<and>
    kc_total s' = kc_total s \<and> kc_bs s' = kc_bs s \<and>
    (\<forall>c. kb_tokens (blk s' c) = kb_tokens (blk s c) \<and> kb_hash (blk s' c) = kb_hash (blk s c))"
  using assms
proof (induction P arbitrary: s)
  case (Cons b P)
  have len: "b < length (kc_blocks s)" using Cons.prems by (simp add: kv_acct_def)
  from Cons.IH [OF kv_unref_acct [OF Cons.prems]] show ?case
    using len by (simp add: kv_block_at_def kv_unref_blk)
qed simp

lemma release_ok:
  assumes "kv_inv s"
  shows "\<exists>s'. release_kv_blocks r s = Inr s' \<and> kv_inv s' \<and> kc_req s' = (kc_req s)(r := None) \<and>
    kv_frame r s s' \<and> kc_hash s' = kc_hash s \<and>
    (\<forall>c. kb_tokens (blk s' c) = kb_tokens (blk s c) \<and> kb_hash (blk s' c) = kb_hash (blk s c))"
proof -
  have acct: "kv_acct [] s" and held: "kv_held_ok s" and index: "kv_index_ok s" and fin: "finite (dom (kc_req s))"
    using assms by (simp_all add: kv_inv_def kv_acct_def)
  let ?s0 = "s\<lparr>kc_req := (kc_req s)(r := None)\<rparr>" and ?P = "rev (kv_table s r)"
  have refs: "refs (kc_req s) b = refs ((kc_req s)(r := None)) b + count_list ?P b" for b
    using refs_remove [OF fin, of r _ b] by (cases "kc_req s r") (auto simp: kv_table_def fun_upd_idem)
  have free0: "kv_free_ok ?s0" using acct by (simp add: kv_acct_def kv_free_ok_def)
  have "kv_acct ?P ?s0"
    using acct free0 kv_table_range [OF acct, of _ r] fin unfolding kv_acct_def by (auto simp: refs)
  from kv_unref_all_ok [OF this] obtain s' where s': "kv_unref_all ?P ?s0 = Inr s'" "kv_acct [] s'"
    "kc_req s' = (kc_req s)(r := None)" "kc_hash s' = kc_hash s" "kc_total s' = kc_total s" "kc_bs s' = kc_bs s"
    "\<forall>c. kb_tokens (blk s' c) = kb_tokens (blk s c) \<and> kb_hash (blk s' c) = kb_hash (blk s c)"
    by auto
  have "kv_held_ok s'"
    unfolding kv_held_ok_def
  proof (intro allI impI)
    fix q ids c
    assume q: "kc_req s' q = Some ids" "c \<in> set ids"
    then have sq: "kc_req s q = Some ids" using s'(3) by (auto split: if_splits)
    have "0 < refs (kc_req s') c" using refs_pos [of "kc_req s'" c] s'(2) q by (auto simp: kv_acct_def)
    then have "refs (kc_req s') c = 1" if "refs (kc_req s) c = 1" using refs [of c] that s'(3) by simp
    moreover have "kb_tokens (blk s c) \<noteq> [] \<and> length (kb_tokens (blk s c)) \<le> kc_bs s \<and>
        (length (kb_tokens (blk s c)) \<noteq> kc_bs s \<longrightarrow> c = last ids \<and> refs (kc_req s) c = 1)"
      using held sq q(2) by (simp add: kv_held_ok_def)
    ultimately show "kb_tokens (blk s' c) \<noteq> [] \<and> length (kb_tokens (blk s' c)) \<le> kc_bs s' \<and>
        (length (kb_tokens (blk s' c)) \<noteq> kc_bs s' \<longrightarrow> c = last ids \<and> refs (kc_req s') c = 1)"
      using s'(6,7) by simp
  qed
  moreover have "kv_index_ok s'"
    by (rule kv_index_ok_same [OF index]) (use s' in simp_all)
  moreover have "kv_frame r s s'"
    by (rule kv_frameI) (use s' in simp_all)
  moreover have "release_kv_blocks r s = Inr s'"
    using s'(1) by (simp add: release_kv_blocks_def kv_table_def)
  ultimately show ?thesis using s' by (auto simp: kv_inv_def)
qed

section \<open>A new cache\<close>

lemma new_cache_loop:
  assumes "n \<le> total_n"
    and "s0 = \<lparr>kc_total = total_n, kc_bs = bs, kc_blocks = replicate total_n empty_kv_block, kc_req = Map.empty,
              kc_hash = Map.empty, kc_links = dll_empty, kc_free_cnt = 0, kc_hits = 0, kc_misses = 0\<rparr>"
  shows "\<exists>d. fold kv_append_free [0..<n] s0 = s0\<lparr>kc_links := d, kc_free_cnt := int n\<rparr> \<and> dll_list d [0..<n]"
  using assms(1)
proof (induction n)
  case 0
  then show ?case using assms(2) dll_list_empty by simp
next
  case (Suc n)
  then obtain d where d: "fold kv_append_free [0..<n] s0 = s0\<lparr>kc_links := d, kc_free_cnt := int n\<rparr>" "dll_list d [0..<n]"
    by auto
  then have "fold kv_append_free [0..<Suc n] s0 = s0\<lparr>kc_links := dll_append n d, kc_free_cnt := int (Suc n)\<rparr>"
    by (simp add: kv_append_free_eq)
  moreover have "dll_list (dll_append n d) [0..<Suc n]" using dll_append_list [OF d(2)] by simp
  ultimately show ?case by blast
qed

lemma new_kv_cache_ok:
  assumes "new_kv_cache n k = Inr s"
  shows "kv_inv s" "kc_total s = nat n" "kc_bs s = nat k" "kc_req s = Map.empty" "kc_hash s = Map.empty"
    "kc_free_cnt s = n" "kv_keys U s"
proof -
  have pos: "0 < n" "0 < k" using assms by (auto simp: new_kv_cache_def split: if_splits)
  obtain d where d: "s = \<lparr>kc_total = nat n, kc_bs = nat k, kc_blocks = replicate (nat n) empty_kv_block, kc_req = Map.empty,
      kc_hash = Map.empty, kc_links = d, kc_free_cnt = int (nat n), kc_hits = 0, kc_misses = 0\<rparr>"
    "dll_list d [0..<nat n]"
    using new_cache_loop [of "nat n" "nat n" _ "nat k", OF order_refl refl] assms pos
    by (auto simp: new_kv_cache_def)
  have "kv_free_ok s" unfolding kv_free_ok_def using d by (intro exI [of _ "[0..<nat n]"]) (auto simp: empty_kv_block_def)
  then show "kv_inv s"
    using pos unfolding kv_inv_def kv_acct_def kv_held_ok_def kv_index_ok_def d(1) by (simp add: empty_kv_block_def)
  show "kc_total s = nat n" "kc_bs s = nat k" "kc_req s = Map.empty" "kc_hash s = Map.empty" "kc_free_cnt s = n"
    using d(1) pos by simp_all
  show "kv_keys U s" using d(1) by (simp add: kv_keys_def empty_kv_block_def)
qed

lemma new_kv_cache_Inr: "0 < n \<Longrightarrow> 0 < k \<Longrightarrow> \<exists>s. new_kv_cache n k = Inr s"
  by (simp add: new_kv_cache_def)

section \<open>Conservation\<close>

lemma kv_used_eq:
  assumes "kv_acct P s"
  shows "kv_used_blocks s = int (length (filter kb_in_use (kc_blocks s)))"
proof -
  have len: "length (kc_blocks s) = kc_total s" and free: "kv_free_ok s" using assms by (simp_all add: kv_acct_def)
  have "length (filter kb_in_use (kc_blocks s)) = card {b. b < kc_total s \<and> kb_in_use (blk s b)}"
    using len by (simp add: length_filter_conv_card)
  moreover have "card {b. b < kc_total s \<and> \<not> kb_in_use (blk s b)} + card {b. b < kc_total s \<and> kb_in_use (blk s b)} = kc_total s"
  proof -
    have "{b. b < kc_total s \<and> \<not> kb_in_use (blk s b)} \<union> {b. b < kc_total s \<and> kb_in_use (blk s b)} = {..<kc_total s}" by auto
    moreover have "{b. b < kc_total s \<and> \<not> kb_in_use (blk s b)} \<inter> {b. b < kc_total s \<and> kb_in_use (blk s b)} = {}" by auto
    ultimately show ?thesis by (metis card_Un_disjoint card_lessThan finite_Un finite_lessThan)
  qed
  ultimately show ?thesis using kv_free_count [OF free] by (simp add: kv_used_blocks_def)
qed

lemma verify_block_conservation_ok:
  assumes "kv_acct P s"
  shows "verify_block_conservation s = Some None"
proof -
  obtain fl where fl: "dll_list (kc_links s) fl" "kc_free_cnt s = int (length fl)"
    using assms unfolding kv_acct_def kv_free_ok_def by blast
  have "int (length fl) + int (length (filter kb_in_use (kc_blocks s))) = int (kc_total s)"
    using kv_used_eq [OF assms] fl(2) by (simp add: kv_used_blocks_def)
  then show ?thesis
    using fl(2) dll_walk_list [OF fl(1)] by (simp add: verify_block_conservation_def Let_def)
qed

section \<open>Prefix lookup\<close>

text \<open>Both lookup loops read the keys of the chain up to the first one that is absent.\<close>

lemma get_cached_loop_eq:
  "get_cached_loop m bs n p ts = map (\<lambda>h. the (m h)) (takeWhile (\<lambda>h. m h \<noteq> None) (block_hashes_loop bs n p ts))"
  by (induction n arbitrary: p ts) (auto simp: Let_def split: option.split)

lemma snapshot_loop_eq:
  "snapshot_loop m bs n p ts c = c + int (length (takeWhile (\<lambda>h. m h \<noteq> None) (block_hashes_loop bs n p ts)))"
  by (induction n arbitrary: p ts c) (auto simp: Let_def split: option.split)

lemma get_cached_nth:
  assumes "i < length (get_cached_blocks s ts)"
  defines "n \<equiv> length ts div kc_bs s"
  shows "i < n" "kc_hash s (block_hashes_loop (kc_bs s) n [] ts ! i) = Some (get_cached_blocks s ts ! i)"
proof -
  let ?hs = "block_hashes_loop (kc_bs s) n [] ts" and ?P = "\<lambda>h. kc_hash s h \<noteq> None"
  have e: "get_cached_blocks s ts = map (\<lambda>h. the (kc_hash s h)) (takeWhile ?P ?hs)"
    by (simp add: get_cached_blocks_def get_cached_loop_eq n_def)
  then have i: "i < length (takeWhile ?P ?hs)" using assms(1) by simp
  then show "i < n" using length_takeWhile_le [of ?P ?hs] by simp
  from i have "takeWhile ?P ?hs ! i \<in> set (takeWhile ?P ?hs)" by (rule nth_mem)
  then have "?P (takeWhile ?P ?hs ! i)" by (rule set_takeWhileD [THEN conjunct2])
  moreover have "takeWhile ?P ?hs ! i = ?hs ! i" using i by (rule takeWhile_nth)
  moreover have "get_cached_blocks s ts ! i = the (kc_hash s (takeWhile ?P ?hs ! i))"
    unfolding e using i by (rule nth_map)
  ultimately show "kc_hash s (?hs ! i) = Some (get_cached_blocks s ts ! i)" by auto
qed

lemma get_cached_full:
  assumes "kv_inv s" "b \<in> set (get_cached_blocks s ts)"
  shows "b < kc_total s" "length (kb_tokens (blk s b)) = kc_bs s"
proof -
  obtain h where "kc_hash s h = Some b"
    using assms(2) get_cached_nth(2) by (metis in_set_conv_nth)
  then show "b < kc_total s" "length (kb_tokens (blk s b)) = kc_bs s"
    using assms(1) by (auto simp: kv_inv_def kv_index_ok_def)
qed

lemma get_cached_length: "length (get_cached_blocks s ts) \<le> length ts div kc_bs s"
  using get_cached_nth(1) [of _ s ts] by (metis leI less_irrefl)

text \<open>The blocks found hold the tokens asked for, unless two of the blocks hashed collide.\<close>

lemma get_cached_tokens:
  assumes "kv_inv s" "kv_keys U s"
    and inj: "inj_on (\<lambda>b. hash_block (fst b) (snd b)) (U \<union> chain_pairs (kc_bs s) (length ts div kc_bs s) [] ts)"
    and "i < length (get_cached_blocks s ts)"
  shows "kb_tokens (blk s (get_cached_blocks s ts ! i)) = nth_block (kc_bs s) ts i"
proof -
  let ?n = "length ts div kc_bs s" and ?b = "get_cached_blocks s ts ! i"
  let ?q = "(chain_prev (kc_bs s) ?n [] ts i, nth_block (kc_bs s) ts i)"
  note get = get_cached_nth [OF assms(4)]
  have b: "?b < kc_total s" "kb_hash (blk s ?b) = hash_block (fst ?q) (snd ?q)" "kb_hash (blk s ?b) \<noteq> []"
    using assms(1) get block_hashes_loop_nth [OF get(1)] unfolding kv_inv_def kv_index_ok_def by auto
  then obtain p where p: "(p, kb_tokens (blk s ?b)) \<in> U" "kb_hash (blk s ?b) = hash_block p (kb_tokens (blk s ?b))"
    using assms(2) unfolding kv_keys_def by blast
  have "(p, kb_tokens (blk s ?b)) = ?q"
    by (rule inj_onD [OF inj]) (use p b get(1) in \<open>auto simp: chain_pairs_def\<close>)
  then show ?thesis by simp
qed

lemma concat_blocks: "concat (map (nth_block bs ts) [0..<n]) = take (n * bs) ts"
proof (induction n)
  case (Suc n)
  then show ?case using take_nth_block [of n bs ts] by simp
qed simp

lemma get_cached_concat:
  assumes "kv_inv s" "kv_keys U s"
    and "inj_on (\<lambda>b. hash_block (fst b) (snd b)) (U \<union> chain_pairs (kc_bs s) (length ts div kc_bs s) [] ts)"
  shows "concat (map (\<lambda>b. kb_tokens (blk s b)) (get_cached_blocks s ts)) =
    take (length (get_cached_blocks s ts) * kc_bs s) ts"
proof -
  have "map (\<lambda>b. kb_tokens (blk s b)) (get_cached_blocks s ts) =
      map (nth_block (kc_bs s) ts) [0..<length (get_cached_blocks s ts)]"
    using get_cached_tokens [OF assms] by (intro nth_equalityI) simp_all
  then show ?thesis using concat_blocks by simp
qed

section \<open>Runs of a cache\<close>

text \<open>
  The states a cache reaches from its creation, allocating with the result of a lookup or
  with nothing and releasing. \<open>U\<close> collects the blocks the run has keyed.
\<close>

inductive kv_run :: "kv_cache \<Rightarrow> (string \<times> token list) set \<Rightarrow> bool" where
  start: "new_kv_cache n k = Inr s \<Longrightarrow> kv_run s {}"
| alloc: "kv_run s U \<Longrightarrow> kv_alloc_args q lo hi cached s \<Longrightarrow>
    allocate_kv_blocks q lo hi cached s = Inr (ok, s') \<Longrightarrow> kv_run s' (U \<union> kv_pairs s (rq_id q) \<union> kv_pairs s' (rq_id q))"
| release: "kv_run s U \<Longrightarrow> release_kv_blocks r s = Inr s' \<Longrightarrow> kv_run s' U"

lemma kv_pairs_finite: "finite (kv_pairs s r)"
proof -
  have "kv_pairs s r \<subseteq> (\<lambda>i. (kv_prev_key s (kv_table s r) i, kb_tokens (blk s (kv_table s r ! i)))) ` {..<length (kv_table s r)}"
    by (auto simp: kv_pairs_def)
  then show ?thesis using finite_subset by blast
qed

lemma kv_run_inv: "kv_run s U \<Longrightarrow> kv_inv s \<and> kv_keys U s \<and> finite U"
proof (induction rule: kv_run.induct)
  case (start n k s)
  then show ?case using new_kv_cache_ok by simp
next
  case (alloc s U q lo hi cached ok s')
  have inv: "kv_inv s" and keys: "kv_keys (U \<union> kv_pairs s (rq_id q)) s"
    using alloc.IH kv_keys_mono by blast+
  obtain toks where toks: "kv_new_tokens q lo hi = Inr toks" using kv_new_tokens_ok [OF alloc.hyps(2)] .
  have "kv_inv s' \<and> kv_keys (U \<union> kv_pairs s (rq_id q) \<union> kv_pairs s' (rq_id q)) s'"
  proof (cases "int (kv_need s (rq_id q) (length toks)) + kv_idle cached s \<le> kc_free_cnt s")
    case True
    then obtain s2 where "allocate_kv_blocks q lo hi cached s = Inr (True, s2)" "kv_inv s2"
      "\<forall>V. kv_keys (V \<union> kv_pairs s (rq_id q)) s \<longrightarrow> kv_keys (V \<union> kv_pairs s2 (rq_id q)) s2"
      using allocate_cases [OF inv alloc.hyps(2) toks] by auto
    moreover have "kv_keys ((U \<union> kv_pairs s (rq_id q)) \<union> kv_pairs s (rq_id q)) s" using keys by (simp add: Un_assoc)
    ultimately show ?thesis using alloc.hyps(3) by auto
  next
    case False
    then have "s' = s" using allocate_cases [OF inv alloc.hyps(2) toks] alloc.hyps(3) by auto
    then show ?thesis using inv kv_keys_mono [OF keys] by blast
  qed
  then show ?case using alloc.IH kv_pairs_finite by simp
next
  case (release s U r s')
  obtain s2 where s2: "release_kv_blocks r s = Inr s2" "kv_inv s2" "kv_frame r s s2"
    "\<forall>c. kb_tokens (blk s2 c) = kb_tokens (blk s c) \<and> kb_hash (blk s2 c) = kb_hash (blk s c)"
    using release_ok [of s r] release.IH by blast
  then have "s2 = s'" using release.hyps(2) by simp
  then show ?case
    using s2 release.IH kv_frame_geometry(1) [OF s2(3)] by (simp add: kv_keys_def)
qed

inductive_cases kv_run_caseE: "kv_run s U"

end
