(* ===== verification/Batch_Phase2.thy ===== *)
theory Batch_Phase2
  imports Batch_Phase1 KV_Accounting
begin

text \<open>
  Phase 2 of batch formation and the whole pass: admissions come off the wait queue in
  order, within the batch size and the token budget, and never after a preemption; no
  request is lost or duplicated. The laws the pass needs of a KV store are the locale
  \<open>kv_store\<close>; the single-tier cache provides them.
\<close>

section \<open>The KV store as batch formation sees it\<close>

locale kv_store =
  fixes ops :: "'k kv_ops"
  assumes cached_fits: "int (length (ko_cached ops ts kv)) * ko_block_size ops kv \<le> int (length ts)"
    and reload_fits: "ko_reloadable_end ops = Some f \<Longrightarrow> f q start kv = Some e \<Longrightarrow> e \<le> input_len q"

definition single_tier :: "kv_cache kv_ops" where
  "single_tier = \<lparr>ko_allocate = allocate_kv_blocks, ko_cached = (\<lambda>ts s. get_cached_blocks s ts),
     ko_release = release_kv_blocks, ko_block_size = (\<lambda>s. int (kc_bs s)),
     ko_poll_deferred = None, ko_is_deferred = (\<lambda>_ _. False), ko_reloadable_end = None\<rparr>"

lemma get_cached_fits: "length (get_cached_blocks s ts) * kc_bs s \<le> length ts"
proof -
  have "length (get_cached_blocks s ts) * kc_bs s \<le> (length ts div kc_bs s) * kc_bs s"
    using get_cached_length by (rule mult_le_mono1)
  also have "\<dots> \<le> length ts" by (rule div_times_less_eq_dividend)
  finally show ?thesis .
qed

interpretation single_tier: kv_store single_tier
proof
  fix ts :: "token list" and kv
  show "int (length (ko_cached single_tier ts kv)) * ko_block_size single_tier kv \<le> int (length ts)"
    using get_cached_fits [of kv ts] by (simp add: single_tier_def flip: of_nat_mult)
qed (simp add: single_tier_def)

section \<open>Admissions\<close>

definition admitted_from :: "batch_ctx \<Rightarrow> request \<Rightarrow> request \<Rightarrow> bool" where
  "admitted_from ctx q q' \<longleftrightarrow> (\<exists>n \<ge> 0. q' = q\<lparr>rq_sched_step := bc_step_count ctx, rq_state := StateRunning, rq_new_tokens := n\<rparr>)"

definition phase2_rel :: "batch_ctx \<Rightarrow> rid list \<Rightarrow> 'k batch_state \<Rightarrow> 'k batch_state \<Rightarrow> bool" where
  "phase2_rel ctx adm st st' \<longleftrightarrow> distinct adm \<and> set adm \<subseteq> set (bf_waitq st) \<and>
     bf_running st' = bf_running st @ adm \<and> bf_scheduled st' = bf_scheduled st @ adm \<and>
     bf_waitq st' = filter (\<lambda>x. x \<notin> set adm) (bf_waitq st) \<and>
     bf_preempted st' = bf_preempted st \<and> bf_preemption st' = bf_preemption st \<and>
     (\<forall>x \<in> set adm. admitted_from ctx (bf_reqs st x) (bf_reqs st' x)) \<and>
     (\<forall>x. x \<notin> set adm \<longrightarrow> bf_reqs st' x = bf_reqs st x)"

definition queues_ok :: "'k batch_state \<Rightarrow> bool" where
  "queues_ok st \<longleftrightarrow> distinct (bf_running st @ bf_waitq st)"

lemma phase2_rel_refl: "phase2_rel ctx [] st (st\<lparr>bf_kv := kv\<rparr>)" "phase2_rel ctx [] st st"
  by (simp_all add: phase2_rel_def)

lemma phase2_rel_kv [simp]: "phase2_rel ctx adm (st\<lparr>bf_kv := kv\<rparr>) st' = phase2_rel ctx adm st st'"
  by (simp add: phase2_rel_def)

lemma phase2_rel_trans:
  assumes "phase2_rel ctx xs st st'" "phase2_rel ctx ys st' st''"
  shows "phase2_rel ctx (xs @ ys) st st''"
proof -
  have disj: "\<And>x. x \<in> set ys \<Longrightarrow> x \<notin> set xs \<and> x \<in> set (bf_waitq st)" using assms by (auto simp: phase2_rel_def)
  moreover have "bf_waitq st'' = filter (\<lambda>x. x \<notin> set (xs @ ys)) (bf_waitq st)"
    using assms by (auto simp: phase2_rel_def intro!: filter_cong)
  moreover have "admitted_from ctx (bf_reqs st x) (bf_reqs st'' x)" if "x \<in> set (xs @ ys)" for x
    using that disj assms unfolding phase2_rel_def by (cases "x \<in> set xs") auto
  ultimately show ?thesis using assms unfolding phase2_rel_def by auto
qed

lemma dequeue_admitted_filter:
  assumes "distinct q" "s < length q"
  shows "dequeue_admitted (q ! s) s q = filter (\<lambda>x. x \<noteq> q ! s) q"
proof (cases "s = 0")
  case True
  then obtain y ys where "q = y # ys" using assms(2) by (cases q) auto
  moreover from this have "filter (\<lambda>x. x \<noteq> y) ys = ys" using assms(1) by (auto intro!: filter_True)
  ultimately show ?thesis using True by (simp add: dequeue_admitted_def wq_dequeue_def)
next
  case False
  have "removeAll x q = filter (\<lambda>y. y \<noteq> x) q" for x by (induction q) auto
  then show ?thesis using False assms(1) by (simp add: dequeue_admitted_def distinct_remove1_removeAll)
qed

lemma admit_rel:
  assumes "queues_ok st" "s < length (bf_waitq st)" "0 \<le> n"
  shows "phase2_rel ctx [bf_waitq st ! s] st (admit ctx (bf_waitq st ! s) s n c st)"
  using assms dequeue_admitted_filter [of "bf_waitq st" s]
  by (auto simp: phase2_rel_def admit_def set_req_def queues_ok_def admitted_from_def)

lemma admit_budget:
  assumes "queues_ok st" "s < length (bf_waitq st)" "0 \<le> n" "n \<le> bf_budget st" "budget_ok K st"
  shows "budget_ok K (admit ctx (bf_waitq st ! s) s n c st)"
proof -
  let ?r = "bf_waitq st ! s" and ?st' = "admit ctx (bf_waitq st ! s) s n c st"
  have "?r \<in> set (bf_waitq st)" using assms(2) by simp
  then have r: "?r \<notin> set (bf_running st)" using assms(1) by (auto simp: queues_ok_def)
  have reqs: "rq_new_tokens (bf_reqs ?st' x) = (if x = ?r then n else rq_new_tokens (bf_reqs st x))" for x
    by (simp add: admit_def set_req_def)
  have run: "bf_running ?st' = bf_running st @ [?r]" "bf_budget ?st' = bf_budget st - n"
    by (simp_all add: admit_def set_req_def)
  have "(\<Sum>x \<leftarrow> bf_running st. rq_new_tokens (bf_reqs ?st' x)) = granted_sum st"
    unfolding granted_sum_def reqs using r by (intro arg_cong [where f = sum_list] map_cong) auto
  then have "granted_sum ?st' = granted_sum st + n" unfolding granted_sum_def run by (simp add: reqs)
  then show ?thesis using assms r run by (auto simp: budget_ok_def new_tokens_nonneg_def reqs)
qed

lemma sub_decode_grant_bounds:
  "sub_decode_grant ctx budget q = Some n \<Longrightarrow> 0 < budget \<Longrightarrow> 1 \<le> n \<and> n \<le> budget"
  by (auto simp: sub_decode_grant_def Let_def split: option.splits if_splits)

context kv_store
begin

lemma admission_size_bounds:
  assumes "admission_size ops ctx budget q kv = (cached, start, n, stop)" "0 < budget"
  shows "0 \<le> n" "n \<le> budget" "start \<le> stop" "stop \<le> input_len q" "0 \<le> ko_block_size ops kv \<Longrightarrow> 0 \<le> start"
    "start = int (length cached) * ko_block_size ops kv"
    "cached = (if bc_no_prefix_cache ctx then [] else ko_cached ops (rq_input q) kv)"
proof -
  define cs where "cs = (case ko_reloadable_end ops of None \<Rightarrow> start
     | Some f \<Rightarrow> (case f q start kv of None \<Rightarrow> start | Some e \<Rightarrow> (if e > start then e else start)))"
  show st: "start = int (length cached) * ko_block_size ops kv"
    and cached: "cached = (if bc_no_prefix_cache ctx then [] else ko_cached ops (rq_input q) kv)"
    using assms(1) by (auto simp: admission_size_def full_input_tokens_def Let_def)
  then show "0 \<le> ko_block_size ops kv \<Longrightarrow> 0 \<le> start" by simp
  have "start \<le> input_len q"
    using st cached cached_fits [of "rq_input q" kv] by (auto simp: input_len_def)
  then have cs: "cs \<le> input_len q" "start \<le> cs" using reload_fits by (auto simp: cs_def split: option.split)
  define n1 where "n1 = (if 0 < bc_prefill_threshold ctx \<and> bc_prefill_threshold ctx < input_len q - cs
      then bc_prefill_threshold ctx else input_len q - cs)"
  have n: "n = min_model_len ctx cs (min n1 budget)" "stop = cs + n"
    using assms(1) by (auto simp: admission_size_def full_input_tokens_def Let_def cs_def n1_def)
  have n1: "0 \<le> n1" "n1 \<le> input_len q - cs" using cs by (auto simp: n1_def)
  show "0 \<le> n" "n \<le> budget" "start \<le> stop" "stop \<le> input_len q"
    using n n1 cs assms(2) by (auto simp: min_model_len_def)
qed

lemma phase2_request_ok:
  assumes "phase2_request ops ctx deferred (bf_waitq st ! s) s st = Inr res"
    and "queues_ok st" "s < length (bf_waitq st)" "0 < bf_budget st" "budget_ok K st"
  shows "case res of
      Stop st' \<Rightarrow> phase2_rel ctx [] st st' \<and> budget_ok K st'
    | Skip st' \<Rightarrow> phase2_rel ctx [] st st' \<and> budget_ok K st' \<and> (deferred \<noteq> [] \<or> ko_poll_deferred ops \<noteq> None)
    | Admit st' \<Rightarrow> phase2_rel ctx [bf_waitq st ! s] st st' \<and> budget_ok K st'"
proof -
  let ?r = "bf_waitq st ! s" and ?q = "bf_reqs st (bf_waitq st ! s)"
  have keep: "budget_ok K (st\<lparr>bf_kv := kv\<rparr>)" for kv
    using assms(5) by (simp add: budget_ok_def new_tokens_nonneg_def granted_sum_def)
  have adm: "phase2_rel ctx [?r] st (admit ctx ?r s n c (st\<lparr>bf_kv := kv\<rparr>)) \<and> budget_ok K (admit ctx ?r s n c (st\<lparr>bf_kv := kv\<rparr>))"
    if "0 \<le> n" "n \<le> bf_budget st" for n c kv
  proof -
    let ?st = "st\<lparr>bf_kv := kv\<rparr>"
    have "queues_ok ?st" "s < length (bf_waitq ?st)" "n \<le> bf_budget ?st" "bf_waitq ?st ! s = ?r"
      using assms(2,3) that(2) by (simp_all add: queues_ok_def)
    then show ?thesis
      using admit_rel [of ?st s n ctx c] admit_budget [of ?st s n K ctx c] that(1) keep [of kv] by simp
  qed
  show ?thesis
  proof (cases "?r \<in> set deferred")
    case True
    then show ?thesis using assms(1,5) phase2_rel_refl by (auto simp: phase2_request_def Let_def)
  next
    case notdef: False
    show ?thesis
    proof (cases "case bc_adapter_resident ctx of None \<Rightarrow> False | Some f \<Rightarrow> \<not> rq_decode_sub ?q \<and> rq_adapter ?q \<noteq> '''' \<and> \<not> f (rq_adapter ?q)")
      case True
      then show ?thesis using assms(1,5) notdef phase2_rel_refl by (auto simp: phase2_request_def Let_def)
    next
      case gate: False
      show ?thesis
      proof (cases "rq_decode_sub ?q")
        case sub: True
        show ?thesis
        proof (cases "sub_decode_grant ctx (bf_budget st) ?q")
          case None
          then show ?thesis using assms(1,5) notdef gate sub phase2_rel_refl by (auto simp: phase2_request_def Let_def)
        next
          case (Some n)
          then have "0 \<le> n" "n \<le> bf_budget st" using sub_decode_grant_bounds assms(4) by fastforce+
          then show ?thesis
            using assms(1) notdef gate sub Some adm keep phase2_rel_refl(1)
            by (auto simp: phase2_request_def Let_def obind_Inr_iff split: if_splits)
        qed
      next
        case pre: False
        obtain cached start n stop where size: "admission_size ops ctx (bf_budget st) ?q (bf_kv st) = (cached, start, n, stop)"
          by (cases "admission_size ops ctx (bf_budget st) ?q (bf_kv st)") auto
        obtain ok kv where alloc: "ko_allocate ops ?q start stop cached (bf_kv st) = Inr (ok, kv)"
          using assms(1) notdef gate pre size
          by (cases "ko_allocate ops ?q start stop cached (bf_kv st)") (auto simp: phase2_request_def Let_def)
        have "res = (if \<not> ok then (if ko_poll_deferred ops \<noteq> None \<and> ko_is_deferred ops ?r kv then Skip (st\<lparr>bf_kv := kv\<rparr>) else Stop (st\<lparr>bf_kv := kv\<rparr>))
            else Admit (admit ctx ?r s n stop (st\<lparr>bf_kv := kv\<rparr>)))"
          using assms(1) notdef gate pre alloc size unfolding phase2_request_def Let_def by (auto split: if_splits)
        then show ?thesis
          using adm [OF admission_size_bounds(1,2) [OF size assms(4)], of stop kv] keep [of kv] phase2_rel_refl(1) [of ctx st kv]
          by (cases ok; cases "ko_poll_deferred ops \<noteq> None \<and> ko_is_deferred ops ?r kv") simp_all
      qed
    qed
  qed
qed

lemma phase2_loop_ok:
  assumes "phase2_loop fuel ops ctx deferred s st = Inr st'" "queues_ok st" "budget_ok K st"
  shows "\<exists>adm. phase2_rel ctx adm st st' \<and> budget_ok K st' \<and>
    (bf_preemption st \<longrightarrow> st' = st) \<and>
    int (length (bf_running st')) \<le> max (int (length (bf_running st))) (bc_max_seqs ctx) \<and>
    (deferred = [] \<and> ko_poll_deferred ops = None \<and> s = 0 \<longrightarrow> bf_waitq st = adm @ bf_waitq st')"
  using assms
proof (induction fuel arbitrary: s st)
  case 0
  then have "st' = st" by (auto split: if_splits)
  then show ?case using 0 phase2_rel_refl(2) by (intro exI [of _ "[]"]) auto
next
  case (Suc fuel)
  let ?go = "int (length (bf_running st)) < bc_max_seqs ctx \<and> length (bf_waitq st) > s \<and> bf_budget st > 0 \<and> \<not> bf_preemption st"
  show ?case
  proof (cases ?go)
    case False
    then have "st' = st" using Suc.prems(1) by auto
    then show ?thesis using Suc.prems phase2_rel_refl(2) by (intro exI [of _ "[]"]) auto
  next
    case True
    obtain res where res: "phase2_request ops ctx deferred (bf_waitq st ! s) s st = Inr res"
      using Suc.prems(1) True by (auto simp: obind_Inr_iff)
    note ok = phase2_request_ok [OF res Suc.prems(2) _ _ Suc.prems(3)]
    show ?thesis
    proof (cases res)
      case (Stop st1)
      then have r1: "phase2_rel ctx [] st st1" "budget_ok K st1" using ok True by auto
      have e: "st' = st1" using Suc.prems(1) True res Stop by simp
      have "bf_running st1 = bf_running st" "bf_waitq st1 = bf_waitq st" using r1(1) by (simp_all add: phase2_rel_def)
      then show ?thesis using r1 True unfolding e by (intro exI [of _ "[]"]) simp
    next
      case (Skip st1)
      then have r1: "phase2_rel ctx [] st st1" "budget_ok K st1" "deferred \<noteq> [] \<or> ko_poll_deferred ops \<noteq> None"
        using ok True by auto
      have "phase2_loop fuel ops ctx deferred (Suc s) st1 = Inr st'" using Suc.prems(1) True res Skip by auto
      moreover have "queues_ok st1" using r1(1) Suc.prems(2) by (simp add: phase2_rel_def queues_ok_def)
      ultimately obtain adm where a: "phase2_rel ctx adm st1 st'" "budget_ok K st'"
        "int (length (bf_running st')) \<le> max (int (length (bf_running st1))) (bc_max_seqs ctx)"
        using Suc.IH [OF _ _ r1(2)] by blast
      then have rel: "phase2_rel ctx adm st st'" using phase2_rel_trans [OF r1(1)] by fastforce
      have "bf_running st1 = bf_running st" using r1(1) by (simp add: phase2_rel_def)
      then show ?thesis using rel a(2,3) r1(3) True by (intro exI [of _ adm]) auto
    next
      case (Admit st1)
      then have r1: "phase2_rel ctx [bf_waitq st ! s] st st1" "budget_ok K st1"
        using ok True by auto
      have l: "phase2_loop fuel ops ctx deferred s st1 = Inr st'" using Suc.prems(1) True res Admit by auto
      have mem: "bf_waitq st ! s \<in> set (bf_waitq st)" using True by simp
      have "queues_ok st1" using r1(1) Suc.prems(2) mem by (auto simp: phase2_rel_def queues_ok_def)
      then obtain adm where a: "phase2_rel ctx adm st1 st'" "budget_ok K st'"
        "int (length (bf_running st')) \<le> max (int (length (bf_running st1))) (bc_max_seqs ctx)"
        "deferred = [] \<and> ko_poll_deferred ops = None \<and> s = 0 \<longrightarrow> bf_waitq st1 = adm @ bf_waitq st'"
        using Suc.IH [OF l _ r1(2)] by blast
      have "bf_waitq st = bf_waitq st ! s # bf_waitq st1" if "s = 0"
      proof -
        obtain y ys where y: "bf_waitq st = y # ys" using True by (cases "bf_waitq st") auto
        then have "y \<notin> set ys" using Suc.prems(2) by (simp add: queues_ok_def)
        then show ?thesis using r1(1) that y by (auto simp: phase2_rel_def intro!: filter_True [symmetric])
      qed
      moreover have "phase2_rel ctx (bf_waitq st ! s # adm) st st'" using phase2_rel_trans [OF r1(1) a(1)] by simp
      moreover have len: "int (length (bf_running st1)) \<le> bc_max_seqs ctx" using r1(1) True by (simp add: phase2_rel_def)
      then have "int (length (bf_running st')) \<le> bc_max_seqs ctx" using a(3) by simp
      ultimately show ?thesis using a(2,4) True by (intro exI [of _ "bf_waitq st ! s # adm"]) auto
    qed
  qed
qed

end

end
