(* ===== verification/Batch_Safety.thy ===== *)
theory Batch_Safety
  imports Batch_Phase2
begin

text \<open>
  Batch formation returns: with a KV store that keeps its own invariant and answers the
  calls the scheduler makes, no pass panics, indexes out of range or loops. The laws are the
  locale \<open>kv_store_safe\<close>, provided by the single-tier cache; the whole-pass facts of the
  phases are put together here.
\<close>

section \<open>A store that answers\<close>

text \<open>The calls of the scheduler: a slice of the prompt or the index of an output token.\<close>

definition alloc_range :: "request \<Rightarrow> int \<Rightarrow> int \<Rightarrow> bool" where
  "alloc_range q lo hi \<longleftrightarrow>
     (if rq_progress q < input_len q then 0 \<le> lo \<and> lo \<le> hi \<and> hi \<le> input_len q
      else input_len q \<le> lo \<and> lo < input_len q + output_len q)"

locale kv_store_safe = kv_store ops for ops :: "'k kv_ops" +
  fixes inv :: "'k \<Rightarrow> bool"
  assumes alloc_running: "inv kv \<Longrightarrow> alloc_range q lo hi \<Longrightarrow>
      \<exists>ok kv'. ko_allocate ops q lo hi [] kv = Inr (ok, kv') \<and> inv kv'"
    and alloc_cached: "inv kv \<Longrightarrow> alloc_range q lo hi \<Longrightarrow> rq_progress q < input_len q \<Longrightarrow>
      \<exists>ok kv'. ko_allocate ops q lo hi (ko_cached ops ts kv) kv = Inr (ok, kv') \<and> inv kv'"
    and release_ok: "inv kv \<Longrightarrow> \<exists>kv'. ko_release ops r kv = Inr kv' \<and> inv kv'"
    and poll_ok: "inv kv \<Longrightarrow> ko_poll_deferred ops = Some f \<Longrightarrow> inv (snd (f t kv))"
    and block_size_nonneg: "inv kv \<Longrightarrow> 0 \<le> ko_block_size ops kv"

lemma alloc_range_args: "alloc_range q lo hi \<Longrightarrow> kv_alloc_args q lo hi [] s"
  by (simp add: alloc_range_def kv_alloc_args_def)

lemma allocate_total:
  assumes "kv_inv s" "kv_alloc_args q lo hi cached s"
  shows "\<exists>ok s'. allocate_kv_blocks q lo hi cached s = Inr (ok, s') \<and> kv_inv s'"
proof -
  obtain toks where toks: "kv_new_tokens q lo hi = Inr toks" using kv_new_tokens_ok [OF assms(2)] .
  show ?thesis using allocate_cases [OF assms toks] assms(1) by (auto split: if_splits)
qed

interpretation single_tier_safe: kv_store_safe single_tier kv_inv
proof
  fix kv q lo hi and ts :: "token list" and r
  show "\<exists>ok kv'. ko_allocate single_tier q lo hi [] kv = Inr (ok, kv') \<and> kv_inv kv'"
    if "kv_inv kv" "alloc_range q lo hi"
    using allocate_total [OF that(1) alloc_range_args [OF that(2)]] by (simp add: single_tier_def)
  show "\<exists>ok kv'. ko_allocate single_tier q lo hi (ko_cached single_tier ts kv) kv = Inr (ok, kv') \<and> kv_inv kv'"
    if "kv_inv kv" "alloc_range q lo hi" "rq_progress q < input_len q"
  proof -
    have "kv_alloc_args q lo hi (get_cached_blocks kv ts) kv"
      using that get_cached_full [OF that(1)] by (simp add: alloc_range_def kv_alloc_args_def)
    then show ?thesis using allocate_total [OF that(1)] by (simp add: single_tier_def)
  qed
  show "\<exists>kv'. ko_release single_tier r kv = Inr kv' \<and> kv_inv kv'" if "kv_inv kv"
    using release_ok [OF that, of r] by (auto simp: single_tier_def)
qed (simp_all add: single_tier_def)

section \<open>Requests a pass can handle\<close>

definition run_wf :: "request \<Rightarrow> bool" where
  "run_wf q \<longleftrightarrow> 0 \<le> rq_progress q \<and> (input_len q \<le> rq_progress q \<longrightarrow> output_len q = 0 \<or> rq_progress q < input_len q + output_len q)"

definition wait_wf :: "request \<Rightarrow> bool" where
  "wait_wf q \<longleftrightarrow> (if rq_decode_sub q then input_len q \<le> rq_progress q \<and> rq_progress q < input_len q + output_len q
                 else 0 \<le> rq_progress q \<and> rq_progress q < input_len q)"

definition batch_wf :: "'k batch_state \<Rightarrow> bool" where
  "batch_wf st \<longleftrightarrow> queues_ok st \<and> new_tokens_nonneg st \<and> (\<forall>r \<in> set (bf_running st). run_wf (bf_reqs st r))"

lemma run_wf_new_tokens [simp]: "run_wf (q\<lparr>rq_new_tokens := n\<rparr>) = run_wf q"
  by (simp add: run_wf_def)

lemma phase1_rel_batch_wf:
  assumes "phase1_rel st st'" "batch_wf st" "new_tokens_nonneg st'"
  shows "batch_wf st'"
proof -
  obtain evs where evs: "distinct evs" "set evs \<subseteq> set (bf_running st)"
     "bf_running st' = filter (\<lambda>x. x \<notin> set evs) (bf_running st)" "bf_waitq st' = rev evs @ bf_waitq st"
     "\<forall>x. x \<notin> set evs \<longrightarrow> (\<exists>n. bf_reqs st' x = (bf_reqs st x)\<lparr>rq_new_tokens := n\<rparr>)"
    using assms(1) unfolding phase1_rel_def by blast
  have "run_wf (bf_reqs st' x)" if x: "x \<in> set (bf_running st')" for x
  proof -
    have "x \<notin> set evs" "x \<in> set (bf_running st)" using x evs(3) by auto
    then show ?thesis using evs(5) assms(2) unfolding batch_wf_def by (metis run_wf_new_tokens)
  qed
  then show ?thesis using evs(1-4) assms(2,3) by (auto simp: batch_wf_def queues_ok_def)
qed

definition step_kv :: "'k phase2_step \<Rightarrow> 'k" where
  "step_kv res = bf_kv (case res of Stop s \<Rightarrow> s | Skip s \<Rightarrow> s | Admit s \<Rightarrow> s)"

lemma pass_start_fields:
  "bf_running (pass_start ctx st) = bf_running st" "bf_waitq (pass_start ctx st) = bf_waitq st"
  "bf_kv (pass_start ctx st) = bf_kv st" "bf_reqs (pass_start ctx st) = zero_new_tokens (bf_running st) (bf_reqs st)"
  "bf_budget (pass_start ctx st) = bc_max_tokens ctx" "bf_preempted (pass_start ctx st) = []"
  "bf_scheduled (pass_start ctx st) = []" "\<not> bf_preemption (pass_start ctx st)"
  by (simp_all add: pass_start_def)

lemma pass_start_ok:
  assumes "queues_ok st" "0 \<le> bc_max_tokens ctx"
  shows "budget_ok (bc_max_tokens ctx) (pass_start ctx st)" "visited_ok ctx 0 0 (pass_start ctx st)"
    "run_wf (bf_reqs (pass_start ctx st) r) = run_wf (bf_reqs st r)"
proof -
  have zero: "rq_new_tokens (bf_reqs (pass_start ctx st) r) = 0" if "r \<in> set (bf_running st)" for r
    using that by (simp add: pass_start_fields zero_new_tokens_def)
  then have e: "map (\<lambda>r. rq_new_tokens (bf_reqs (pass_start ctx st) r)) (bf_running st) = map (\<lambda>_. 0) (bf_running st)"
    by auto
  have "granted_sum (pass_start ctx st) = 0"
    unfolding granted_sum_def pass_start_fields(1) e by (simp add: sum_list_triv)
  then show "budget_ok (bc_max_tokens ctx) (pass_start ctx st)"
    using assms zero by (auto simp: budget_ok_def queues_ok_def new_tokens_nonneg_def pass_start_fields)
  show "visited_ok ctx 0 0 (pass_start ctx st)" using zero by (simp add: visited_ok_def pass_start_fields)
  show "run_wf (bf_reqs (pass_start ctx st) r) = run_wf (bf_reqs st r)"
    by (simp add: pass_start_fields zero_new_tokens_def)
qed

lemma evict_victim_total:
  "ko_release ops (bf_running st ! v) (bf_kv st) = Inr kv \<Longrightarrow> \<exists>st'. evict_victim ops v st = Inr st' \<and> bf_kv st' = kv"
  by (simp add: evict_victim_def set_req_def Let_def)

context kv_store_safe
begin

lemma preempt_total:
  assumes "inv (bf_kv st)" "batch_wf st" "length (bf_running st) < fuel"
    and "alloc_range (bf_reqs st r) (rq_progress (bf_reqs st r)) (rq_progress (bf_reqs st r) + n)"
  shows "\<exists>ok adj' st'. preempt_for_tokens fuel ops pol r n idx adj st = Inr (ok, adj', st') \<and> inv (bf_kv st')"
  using assms
proof (induction fuel arbitrary: adj st)
  case 0
  then show ?case by simp
next
  case (Suc fuel)
  let ?q = "bf_reqs st r"
  obtain ok kv where alloc: "ko_allocate ops ?q (rq_progress ?q) (rq_progress ?q + n) [] (bf_kv st) = Inr (ok, kv)" "inv kv"
    using alloc_running [OF Suc.prems(1,4)] by blast
  let ?st1 = "st\<lparr>bf_kv := kv\<rparr>" and ?v = "victim_index pol (bf_reqs st) (bf_running st)"
  let ?x = "bf_running st ! ?v"
  show ?case
  proof (cases "ok \<or> bf_running st = []")
    case True
    then show ?thesis using alloc by (auto simp: Let_def)
  next
    case False
    then have v: "?v < length (bf_running st)" using victim_index_less by blast
    obtain kv2 where kv2: "ko_release ops ?x kv = Inr kv2" "inv kv2" using release_ok [OF alloc(2)] by blast
    then obtain st2 where st2: "evict_victim ops ?v ?st1 = Inr st2" "bf_kv st2 = kv2"
      using evict_victim_total [of ops ?st1 ?v kv2] by auto
    have wf: "distinct (bf_running st)" "new_tokens_nonneg st"
      using Suc.prems(2) by (simp_all add: batch_wf_def queues_ok_def)
    have ev: "evicts [?x] st st2" "new_tokens_nonneg st2"
      using evict_victim_evicts [OF st2(1)] wf v by (auto simp: new_tokens_nonneg_def)
    show ?thesis
    proof (cases "?x = r")
      case True
      then show ?thesis using alloc False st2 kv2(2) by (auto simp: Let_def)
    next
      case neq: False
      have "batch_wf st2" using phase1_rel_batch_wf [OF evicts_phase1_rel [OF ev(1)] Suc.prems(2) ev(2)] .
      moreover have "length (bf_running st2) < fuel"
        using ev(1) Suc.prems(3) v length_filter_less [of ?x "bf_running st" "\<lambda>x. x \<noteq> ?x"]
        by (auto simp: evicts_def)
      moreover have "bf_reqs st2 r = bf_reqs st r" using ev(1) neq by (auto simp: evicts_def)
      ultimately have "\<exists>ok adj' st'. preempt_for_tokens fuel ops pol r n idx a st2 = Inr (ok, adj', st') \<and> inv (bf_kv st')" for a
        using Suc.IH [of st2] Suc.prems(4) st2(2) kv2(2) by simp
      then show ?thesis using alloc False st2 neq by (auto simp: Let_def)
    qed
  qed
qed

lemma grant_tokens_kv [simp]: "bf_kv (grant_tokens r n st) = bf_kv st"
  by (simp add: grant_tokens_def set_req_def)

lemma visit_total:
  assumes "inv (bf_kv st)" "batch_wf st"
    and "alloc_range (bf_reqs st r) (rq_progress (bf_reqs st r)) (rq_progress (bf_reqs st r) + n)"
  shows "\<exists>go j st'. visit ops pol r n idx st = Inr (go, j, st') \<and> inv (bf_kv st')"
  using preempt_total [OF assms(1,2) lessI assms(3), of pol idx 0] by (fastforce simp: visit_def)

lemma phase1_prefill_total:
  assumes "inv (bf_kv st)" "batch_wf st" "0 < bf_budget st" "r \<in> set (bf_running st)"
  shows "\<exists>go j st'. phase1_prefill ops pol ctx r idx st = Inr (go, j, st') \<and> inv (bf_kv st')"
proof (cases "input_len (bf_reqs st r) - rq_progress (bf_reqs st r) > 0")
  case True
  have "alloc_range (bf_reqs st r) (rq_progress (bf_reqs st r))
      (rq_progress (bf_reqs st r) + prefill_chunk ctx (bf_budget st) (bf_reqs st r))"
    using True prefill_chunk_bounds(1,4) [OF True assms(3), of ctx] assms(2,4)
    by (auto simp: alloc_range_def batch_wf_def run_wf_def)
  then show ?thesis using visit_total [OF assms(1,2)] phase1_prefill_visit [OF True] by simp
qed (use assms(1) in \<open>auto simp: phase1_prefill_def Let_def\<close>)

lemma phase1_decode_total:
  assumes "inv (bf_kv st)" "batch_wf st" "r \<in> set (bf_running st)"
  shows "\<exists>go j st'. phase1_decode ops pol ctx r idx st = Inr (go, j, st') \<and> inv (bf_kv st')"
proof (cases "rq_progress (bf_reqs st r) \<ge> input_len (bf_reqs st r) \<and> output_len (bf_reqs st r) > 0 \<and>
    decode_grant ctx (bf_budget st) (bf_reqs st r) > 0")
  case True
  then have "alloc_range (bf_reqs st r) (rq_progress (bf_reqs st r))
      (rq_progress (bf_reqs st r) + decode_grant ctx (bf_budget st) (bf_reqs st r))"
    using assms(2,3) by (auto simp: alloc_range_def batch_wf_def run_wf_def)
  from visit_total [OF assms(1,2) this] show ?thesis using phase1_decode_visit [of st r ctx ops pol idx] True by simp
qed (use assms(1) in \<open>auto simp: phase1_decode_def Let_def\<close>)

lemma phase1_loop_total:
  assumes "inv (bf_kv st)" "batch_wf st" "length (bf_running st) - idx < fuel"
    and "budget_ok K st" "visited_ok ctx idx idx st" "idx \<le> length (bf_running st)" "peek_stable ctx"
  shows "\<exists>exit st'. phase1_loop fuel ops pol ctx idx st = Inr (exit, st') \<and> inv (bf_kv st') \<and> batch_wf st'"
  using assms
proof (induction fuel arbitrary: idx st)
  case 0
  then show ?case by simp
next
  case (Suc fuel)
  show ?case
  proof (cases "idx < length (bf_running st) \<and> 0 < bf_budget st")
    case False
    then show ?thesis using Suc.prems by auto
  next
    case True
    let ?r = "bf_running st ! idx"
    have r: "?r \<in> set (bf_running st)" using True by simp
    obtain go1 idx1 st1 where p: "phase1_prefill ops pol ctx ?r idx st = Inr (go1, idx1, st1)" "inv (bf_kv st1)"
      using phase1_prefill_total [OF Suc.prems(1,2) _ r] True by blast
    show ?thesis
    proof (cases go1)
      case False
      have "phase1_rel st st1 \<and> budget_ok K st1"
        using phase1_body_ok [OF p(1) _ _ Suc.prems(4,5) _ refl, of False idx1 st1] True False Suc.prems(7) by auto
      then have "batch_wf st1" using phase1_rel_batch_wf Suc.prems(2) by (auto simp: budget_ok_def)
      then show ?thesis using True False p by (auto simp: Let_def)
    next
      case go1: True
      have mid: "batch_wf st1 \<and> ?r \<in> set (bf_running st1)"
      proof (cases "input_len (bf_reqs st ?r) - rq_progress (bf_reqs st ?r) > 0")
        case pre: True
        have v: "visit ops pol ?r (prefill_chunk ctx (bf_budget st) (bf_reqs st ?r)) idx st = Inr (go1, idx1, st1)"
          using p(1) phase1_prefill_visit [OF pre] by simp
        have "phase1_rel st st1" "budget_ok K st1" "idx1 < length (bf_running st1)" "bf_running st1 ! idx1 = ?r"
          using visit_ok [OF v Suc.prems(4,5) _ refl prefill_chunk_bounds(1,2) [OF pre]] True go1 by simp_all
        then show ?thesis using phase1_rel_batch_wf Suc.prems(2) nth_mem by (fastforce simp: budget_ok_def)
      next
        case False
        then have "st1 = st" using p(1) by (auto simp: phase1_prefill_def Let_def)
        then show ?thesis using Suc.prems(2) r by simp
      qed
      obtain go2 idx2 st2 where d: "phase1_decode ops pol ctx ?r idx1 st1 = Inr (go2, idx2, st2)" "inv (bf_kv st2)"
        using phase1_decode_total [OF p(2)] mid by blast
      have body: "phase1_rel st st2 \<and> budget_ok K st2 \<and>
          (go2 \<longrightarrow> idx2 < length (bf_running st2) \<and> visited_ok ctx (Suc idx2) (Suc idx2) st2 \<and>
             length (bf_running st2) - Suc idx2 \<le> length (bf_running st) - Suc idx)"
        using phase1_body_ok [OF p(1) d(1) _ Suc.prems(4,5) _ refl] True go1 Suc.prems(7) by simp
      then have wf2: "batch_wf st2" using phase1_rel_batch_wf Suc.prems(2) by (auto simp: budget_ok_def)
      show ?thesis
      proof (cases go2)
        case False
        then show ?thesis using True p d go1 wf2 by (auto simp: Let_def)
      next
        case go2: True
        have "length (bf_running st2) - Suc idx2 < fuel" using body go2 True Suc.prems(3) by linarith
        from Suc.IH [OF d(2) wf2 this] body go2 Suc.prems(7) show ?thesis
          using True p d go1 by (auto simp: Let_def)
      qed
    qed
  qed
qed

lemma admit_kv [simp]: "bf_kv (admit ctx r s n c st) = bf_kv st"
  by (simp add: admit_def set_req_def)

lemma phase2_request_total:
  assumes "inv (bf_kv st)" "wait_wf (bf_reqs st r)" "0 < bf_budget st"
  shows "\<exists>res. phase2_request ops ctx deferred r s st = Inr res \<and> inv (step_kv res)"
proof (cases "r \<in> set deferred \<or> (case bc_adapter_resident ctx of None \<Rightarrow> False
    | Some f \<Rightarrow> \<not> rq_decode_sub (bf_reqs st r) \<and> rq_adapter (bf_reqs st r) \<noteq> '''' \<and> \<not> f (rq_adapter (bf_reqs st r)))")
  case True
  then show ?thesis using assms(1) by (auto simp: phase2_request_def step_kv_def Let_def)
next
  case open_gate: False
  let ?q = "bf_reqs st r"
  show ?thesis
  proof (cases "rq_decode_sub ?q")
    case sub: True
    show ?thesis
    proof (cases "sub_decode_grant ctx (bf_budget st) ?q")
      case None
      then show ?thesis using assms(1) open_gate sub by (auto simp: phase2_request_def step_kv_def Let_def)
    next
      case (Some n)
      have "alloc_range ?q (rq_progress ?q) (rq_progress ?q + n)"
        using assms(2) sub by (simp add: wait_wf_def alloc_range_def)
      from alloc_running [OF assms(1) this] obtain ok kv where
        "ko_allocate ops ?q (rq_progress ?q) (rq_progress ?q + n) [] (bf_kv st) = Inr (ok, kv)" "inv kv" by blast
      then show ?thesis using open_gate sub Some by (cases ok) (simp_all add: phase2_request_def step_kv_def Let_def)
    qed
  next
    case pre: False
    obtain cached start n stop where size: "admission_size ops ctx (bf_budget st) ?q (bf_kv st) = (cached, start, n, stop)"
      by (cases "admission_size ops ctx (bf_budget st) ?q (bf_kv st)") auto
    note b = admission_size_bounds [OF size assms(3)]
    have prog: "rq_progress ?q < input_len ?q" using assms(2) pre by (simp add: wait_wf_def)
    have range: "alloc_range ?q start stop"
      using b(3,4) b(5) [OF block_size_nonneg [OF assms(1)]] prog by (simp add: alloc_range_def)
    have "\<exists>ok kv. ko_allocate ops ?q start stop cached (bf_kv st) = Inr (ok, kv) \<and> inv kv"
    proof (cases "bc_no_prefix_cache ctx")
      case True
      then have "cached = []" using b(7) by simp
      then show ?thesis using alloc_running [OF assms(1) range] by simp
    next
      case False
      then have "cached = ko_cached ops (rq_input ?q) (bf_kv st)" using b(7) by simp
      then show ?thesis using alloc_cached [OF assms(1) range prog] by simp
    qed
    then obtain ok kv where alloc: "ko_allocate ops ?q start stop cached (bf_kv st) = Inr (ok, kv)" "inv kv" by blast
    show ?thesis
      using open_gate pre size alloc
      by (cases ok; cases "ko_poll_deferred ops \<noteq> None \<and> ko_is_deferred ops r kv")
        (auto simp: phase2_request_def step_kv_def Let_def)
  qed
qed

lemma phase2_loop_total:
  assumes "inv (bf_kv st)" "queues_ok st" "budget_ok K st" "\<forall>r \<in> set (bf_waitq st). wait_wf (bf_reqs st r)"
    and "length (bf_waitq st) - s < fuel"
  shows "\<exists>st'. phase2_loop fuel ops ctx deferred s st = Inr st' \<and> inv (bf_kv st')"
  using assms
proof (induction fuel arbitrary: s st)
  case 0
  then show ?case by simp
next
  case (Suc fuel)
  let ?go = "int (length (bf_running st)) < bc_max_seqs ctx \<and> length (bf_waitq st) > s \<and> bf_budget st > 0 \<and> \<not> bf_preemption st"
  show ?case
  proof (cases ?go)
    case False
    then show ?thesis using Suc.prems(1) by auto
  next
    case True
    let ?r = "bf_waitq st ! s"
    have r: "?r \<in> set (bf_waitq st)" using True by simp
    obtain res where res: "phase2_request ops ctx deferred ?r s st = Inr res" "inv (step_kv res)"
      using phase2_request_total [OF Suc.prems(1)] Suc.prems(4) r True by blast
    note ok = phase2_request_ok [OF res(1) Suc.prems(2) _ _ Suc.prems(3)]
    show ?thesis
    proof (cases res)
      case (Stop st1)
      then show ?thesis using True res by (simp add: step_kv_def)
    next
      case (Skip st1)
      then have r1: "phase2_rel ctx [] st st1" "budget_ok K st1" using ok True by auto
      then have same: "bf_running st1 = bf_running st" "bf_waitq st1 = bf_waitq st" "bf_reqs st1 = bf_reqs st"
        by (auto simp: phase2_rel_def)
      have "queues_ok st1" "\<forall>r \<in> set (bf_waitq st1). wait_wf (bf_reqs st1 r)" "length (bf_waitq st1) - Suc s < fuel"
        "inv (bf_kv st1)"
        using Suc.prems(2,4,5) True same res(2) Skip by (auto simp: queues_ok_def step_kv_def)
      from Suc.IH [OF this(4,1) r1(2) this(2,3)] show ?thesis using True res(1) Skip by auto
    next
      case (Admit st1)
      then have r1: "phase2_rel ctx [?r] st st1" "budget_ok K st1" using ok True by auto
      then have same: "bf_running st1 = bf_running st @ [?r]" "bf_waitq st1 = filter (\<lambda>x. x \<noteq> ?r) (bf_waitq st)"
        "\<And>x. x \<noteq> ?r \<Longrightarrow> bf_reqs st1 x = bf_reqs st x"
        by (auto simp: phase2_rel_def)
      have "length (bf_waitq st1) < length (bf_waitq st)"
        unfolding same(2) using r by (intro length_filter_less) auto
      then have "queues_ok st1" "\<forall>r \<in> set (bf_waitq st1). wait_wf (bf_reqs st1 r)" "length (bf_waitq st1) - s < fuel"
        "inv (bf_kv st1)"
        using Suc.prems(2,4,5) True same r res(2) Admit by (auto simp: queues_ok_def step_kv_def)
      from Suc.IH [OF this(4,1) r1(2) this(2,3)] show ?thesis using True res(1) Admit by auto
    qed
  qed
qed

text \<open>The whole pass.\<close>

lemma form_batch_total:
  assumes "inv (bf_kv st0)" "queues_ok st0" "0 \<le> bc_max_tokens ctx" "peek_stable ctx"
    and "\<forall>r \<in> set (bf_running st0). run_wf (bf_reqs st0 r)" "\<forall>r \<in> set (bf_waitq st0). wait_wf (bf_reqs st0 r)"
  shows "\<exists>exit st2 st4. form_batch ops pol ctx st0 = Inr (exit, st2, st4) \<and> inv (bf_kv st4)"
proof -
  let ?st1 = "pass_start ctx st0"
  note start = pass_start_ok [OF assms(2,3)] and b1 = pass_start_ok(1) [OF assms(2,3)] and v1 = pass_start_ok(2) [OF assms(2,3)]
  have w1: "batch_wf ?st1"
    using assms(2,5) b1 start(3) by (auto simp: batch_wf_def budget_ok_def queues_ok_def pass_start_fields)
  have "length (bf_running ?st1) - 0 < Suc (length (bf_running ?st1))" by simp
  from phase1_loop_total [OF _ w1 this b1 v1 le0 assms(4), of pol] assms(1) obtain exit st2
    where p1: "phase1_loop (Suc (length (bf_running ?st1))) ops pol ctx 0 ?st1 = Inr (exit, st2)" "inv (bf_kv st2)" "batch_wf st2"
    by (auto simp: pass_start_fields)
  have rel: "phase1_rel ?st1 st2" and b2: "budget_ok (bc_max_tokens ctx) st2"
    using phase1_loop_ok [OF p1(1) b1 v1 le0 assms(4)] by blast+
  let ?poll = "case ko_poll_deferred ops of None \<Rightarrow> ([], bf_kv st2) | Some f \<Rightarrow> f (bc_now ctx) (bf_kv st2)"
  let ?st3 = "st2\<lparr>bf_kv := snd ?poll\<rparr>"
  have inv3: "inv (bf_kv ?st3)" using p1(2) poll_ok [OF p1(2)] by (cases "ko_poll_deferred ops") auto
  have q3: "queues_ok ?st3" using p1(3) by (simp add: batch_wf_def queues_ok_def)
  have b3: "budget_ok (bc_max_tokens ctx) ?st3" using b2 by (simp add: budget_ok_def new_tokens_nonneg_def granted_sum_def)
  have "\<exists>st4. phase2_loop (Suc (length (bf_waitq ?st3))) ops ctx (fst ?poll) 0 ?st3 = Inr st4 \<and> inv (bf_kv st4)"
  proof (cases "bf_preemption st2")
    case True
    then show ?thesis using inv3 by auto
  next
    case False
    then have w: "bf_waitq st2 = bf_waitq st0" "\<forall>x. x \<notin> set (bf_running st0) \<longrightarrow> bf_reqs st2 x = bf_reqs ?st1 x"
      using rel by (auto simp: phase1_rel_def pass_start_fields)
    have "bf_reqs ?st3 r = bf_reqs st0 r" if "r \<in> set (bf_waitq st0)" for r
      using w(2) assms(2) that by (auto simp: queues_ok_def pass_start_fields zero_new_tokens_def)
    then have "\<forall>r \<in> set (bf_waitq ?st3). wait_wf (bf_reqs ?st3 r)" using assms(6) w(1) by simp
    then show ?thesis by (rule phase2_loop_total [OF inv3 q3 b3]) simp
  qed
  then obtain st4 where p2: "phase2_loop (Suc (length (bf_waitq ?st3))) ops ctx (fst ?poll) 0 ?st3 = Inr st4" "inv (bf_kv st4)"
    by blast
  have "form_batch ops pol ctx st0 = Inr (exit, st2, st4)"
    unfolding form_batch_def Let_def p1(1) obind_simps prod.case
    using p2(1) by (cases ?poll) simp
  then show ?thesis using p2(2) by blast
qed

end

section \<open>The phases put together\<close>

context kv_store
begin

lemma form_batch_phases:
  assumes "form_batch ops pol ctx st0 = Inr (exit, st2, st4)"
    and "queues_ok st0" "0 \<le> bc_max_tokens ctx" "peek_stable ctx"
  obtains adm where "phase1_rel (pass_start ctx st0) st2"
    "budget_ok (bc_max_tokens ctx) st2" "budget_ok (bc_max_tokens ctx) st4" "phase2_rel ctx adm st2 st4"
    "exit = AllVisited \<Longrightarrow> \<forall>r \<in> set (bf_running st2). settled ctx (bf_reqs st2 r)"
    "exit = BudgetExhausted \<Longrightarrow> bf_budget st2 = 0"
    "exit = CannotSchedule \<Longrightarrow> bf_preemption st2 \<or> bf_running st2 = []"
    "bf_preemption st2 \<Longrightarrow> adm = []"
    "int (length (bf_running st4)) \<le> max (int (length (bf_running st2))) (bc_max_seqs ctx)"
    "ko_poll_deferred ops = None \<Longrightarrow> bf_waitq st2 = adm @ bf_waitq st4"
proof -
  let ?st1 = "pass_start ctx st0"
  note start = pass_start_ok [OF assms(2,3)] and b1 = pass_start_ok(1) [OF assms(2,3)] and v1 = pass_start_ok(2) [OF assms(2,3)]
  let ?poll = "case ko_poll_deferred ops of None \<Rightarrow> ([], bf_kv st2) | Some f \<Rightarrow> f (bc_now ctx) (bf_kv st2)"
  let ?st3 = "st2\<lparr>bf_kv := snd ?poll\<rparr>"
  obtain e2 s2 where one0: "phase1_loop (Suc (length (bf_running ?st1))) ops pol ctx 0 ?st1 = Inr (e2, s2)"
    using assms(1) unfolding form_batch_def Let_def obind_Inr_iff by (elim exE conjE) auto
  obtain d kv where poll: "(case ko_poll_deferred ops of None \<Rightarrow> ([], bf_kv s2) | Some f \<Rightarrow> f (bc_now ctx) (bf_kv s2)) = (d, kv)"
    by (cases "case ko_poll_deferred ops of None \<Rightarrow> ([], bf_kv s2) | Some f \<Rightarrow> f (bc_now ctx) (bf_kv s2)") blast
  have "obind (phase2_loop (Suc (length (bf_waitq s2))) ops ctx d 0 (s2\<lparr>bf_kv := kv\<rparr>)) (\<lambda>st4. Inr (e2, s2, st4)) = Inr (exit, st2, st4)"
    using assms(1) unfolding form_batch_def Let_def one0 obind_simps prod.case poll
    by (simp del: phase1_loop.simps phase2_loop.simps)
  then have e: "e2 = exit" "s2 = st2" and two: "phase2_loop (Suc (length (bf_waitq s2))) ops ctx d 0 (s2\<lparr>bf_kv := kv\<rparr>) = Inr st4"
    by (auto simp: obind_Inr_iff simp del: phase2_loop.simps)
  have p1: "phase1_loop (Suc (length (bf_running ?st1))) ops pol ctx 0 ?st1 = Inr (exit, st2)"
    and p2: "phase2_loop (Suc (length (bf_waitq ?st3))) ops ctx (fst ?poll) 0 ?st3 = Inr st4"
    using one0 two poll unfolding e by (simp_all del: phase1_loop.simps phase2_loop.simps)
  note one = phase1_loop_ok [OF p1 b1 v1 le0 assms(4)]
  have q2: "queues_ok st2"
  proof -
    obtain evs where evs: "distinct evs" "set evs \<subseteq> set (bf_running st0)"
        "bf_running st2 = filter (\<lambda>x. x \<notin> set evs) (bf_running st0)" "bf_waitq st2 = rev evs @ bf_waitq st0"
      using one by (auto simp: phase1_rel_def pass_start_fields)
    then show ?thesis using assms(2) by (auto simp: queues_ok_def)
  qed
  then have q3: "queues_ok ?st3" by (simp add: queues_ok_def)
  have b3: "budget_ok (bc_max_tokens ctx) ?st3" using one by (simp add: budget_ok_def new_tokens_nonneg_def granted_sum_def)
  obtain adm where adm: "phase2_rel ctx adm ?st3 st4" "budget_ok (bc_max_tokens ctx) st4"
    "bf_preemption ?st3 \<longrightarrow> st4 = ?st3"
    "int (length (bf_running st4)) \<le> max (int (length (bf_running ?st3))) (bc_max_seqs ctx)"
    "fst ?poll = [] \<and> ko_poll_deferred ops = None \<and> (0::nat) = 0 \<longrightarrow> bf_waitq ?st3 = adm @ bf_waitq st4"
    using phase2_loop_ok [OF p2 q3 b3] by blast
  have "adm = []" if "bf_preemption st2"
  proof -
    have "bf_running st2 = bf_running st2 @ adm" using adm(1,3) that by (auto simp: phase2_rel_def)
    then show ?thesis by simp
  qed
  then show thesis using that [of adm] one adm by simp
qed

end

end
