(* ===== verification/KV_Properties.thy ===== *)
theory KV_Properties
  imports KV_Accounting
begin

text \<open>
  The properties of the KV cache and of the content keys, each over states a cache reaches
  by allocating and releasing (\<open>kv_run\<close>), with an instance of each.
\<close>

section \<open>A concrete cache\<close>

definition demo_request :: "rid \<Rightarrow> token list \<Rightarrow> token list \<Rightarrow> request" where
  "demo_request r ts os = \<lparr>rq_id = r, rq_input = ts, rq_output = os, rq_max_output = 0, rq_state = StateQueued,
     rq_progress = 0, rq_ttft_set = False, rq_first_token = 0, rq_arrival = 0, rq_sched_step = 0, rq_fin_step = 0,
     rq_departure = 0, rq_new_tokens = 0, rq_length_capped = False, rq_itl = [], rq_priority = 0,
     rq_tenant = '''', rq_model = '''', rq_slo_class = '''', rq_adapter = '''', rq_adapter_pinned = False, rq_deadline = 0,
     rq_slo_target = 0, rq_redirected = False, rq_decode_sub = False, rq_gw_enqueue = 0, rq_gw_dispatch = 0,
     rq_carry = 0\<rparr>"

lemma demo_request_simps [simp]:
  "rq_id (demo_request r ts os) = r" "rq_input (demo_request r ts os) = ts" "rq_output (demo_request r ts os) = os"
  "rq_progress (demo_request r ts os) = 0"
  by (simp_all add: demo_request_def)

lemma demo_run: "\<exists>s. new_kv_cache 3 2 = Inr s \<and> kv_run s {}"
  using new_kv_cache_Inr [of 3 2] kv_run.start by auto

abbreviation demo_q :: request where
  "demo_q \<equiv> demo_request ''a'' [7, 8, 9] []"

lemma demo_alloc:
  assumes "new_kv_cache 3 2 = Inr s"
  shows "kv_alloc_args demo_q 0 3 [] s" "kv_new_tokens demo_q 0 3 = Inr [7, 8, 9]"
    "int (kv_need s (rq_id demo_q) (length [7 :: token, 8, 9])) + kv_idle [] s \<le> kc_free_cnt s"
    "\<exists>s'. allocate_kv_blocks demo_q 0 3 [] s = Inr (True, s')"
proof -
  show a: "kv_alloc_args demo_q 0 3 [] s"
    by (simp add: kv_alloc_args_def input_len_def)
  show t: "kv_new_tokens demo_q 0 3 = Inr [7, 8, 9]"
    by (simp add: kv_new_tokens_def input_len_def input_token_slice_def)
  note new = new_kv_cache_ok [OF assms]
  show n: "int (kv_need s (rq_id demo_q) (length [7 :: token, 8, 9])) + kv_idle [] s \<le> kc_free_cnt s"
    using new(3,4,6) by (simp add: kv_need_def kv_room_def kv_table_def ceil_div_def kv_idle_def)
  show "\<exists>s'. allocate_kv_blocks demo_q 0 3 [] s = Inr (True, s')"
    using allocate_cases [OF new(1) a t] n by auto
qed

section \<open>Properties\<close>

text \<open>C1 Block conservation (INV-4): in every reachable state of a cache the debug check
  \<open>verifyBlockConservation\<close> returns (the free list is not cyclic) and finds nothing to
  report, and \<open>UsedBlocks\<close> is the number of blocks in use.\<close>

theorem kv_block_conservation:
  assumes "kv_run s U"
  shows "verify_block_conservation s = Some None \<and>
    kv_used_blocks s = int (length (filter kb_in_use (kc_blocks s))) \<and> kv_used_blocks s \<le> int (kc_total s)"
proof -
  have "kv_acct [] s" using kv_run_inv [OF assms] by (simp add: kv_inv_def)
  moreover from this have "length (filter kb_in_use (kc_blocks s)) \<le> kc_total s"
    using length_filter_le [of kb_in_use "kc_blocks s"] by (simp add: kv_acct_def)
  ultimately show ?thesis using verify_block_conservation_ok kv_used_eq by simp
qed

theorem kv_block_conservation_witness:
  "\<exists>s. new_kv_cache 3 2 = Inr s \<and> verify_block_conservation s = Some None \<and> kv_used_blocks s = 0"
proof -
  obtain s where s: "new_kv_cache 3 2 = Inr s" "kv_run s {}" using demo_run by blast
  have "kv_used_blocks s = 0" using new_kv_cache_ok(2,6) [OF s(1)] by (simp add: kv_used_blocks_def)
  then show ?thesis using s(1) kv_block_conservation [OF s(2)] by blast
qed

text \<open>C2 Reference counts: a block's count is the number of times it occurs in the block
  tables, a block is in use exactly while that number is positive, and a block with room is
  held once, at the end of its holder's table.\<close>

theorem kv_reference_counts:
  assumes "kv_run s U" "b < kc_total s"
  shows "kb_ref (kc_blocks s ! b) = int (refs (kc_req s) b) \<and>
    kb_in_use (kc_blocks s ! b) = (\<exists>r. b \<in> set (kv_table s r)) \<and>
    (\<forall>r. b \<in> set (kv_table s r) \<and> length (kb_tokens (kc_blocks s ! b)) \<noteq> kc_bs s \<longrightarrow>
       b = last (kv_table s r) \<and> refs (kc_req s) b = 1)"
proof -
  have inv: "kv_inv s" using kv_run_inv [OF assms(1)] by blast
  then have fin: "finite (dom (kc_req s))" by (simp add: kv_inv_def kv_acct_def)
  have held: "b = last (kv_table s r) \<and> refs (kc_req s) b = 1"
    if b: "b \<in> set (kv_table s r)" and part: "length (kb_tokens (kc_blocks s ! b)) \<noteq> kc_bs s" for r
  proof -
    obtain ids where ids: "kc_req s r = Some ids" "b \<in> set ids" using b by (auto simp: in_kv_table)
    then show ?thesis using inv part unfolding kv_inv_def kv_held_ok_def kv_table_def by auto
  qed
  have "kb_ref (kc_blocks s ! b) = int (refs (kc_req s) b)" "kb_in_use (kc_blocks s ! b) = (0 < refs (kc_req s) b)"
    using inv assms(2) by (simp_all add: kv_inv_def kv_acct_def)
  then show ?thesis using held unfolding refs_pos_table [OF fin] by blast
qed

theorem kv_reference_counts_witness:
  "\<exists>s. new_kv_cache 3 2 = Inr s \<and> kb_ref (kc_blocks s ! 1) = 0"
proof -
  obtain s where s: "new_kv_cache 3 2 = Inr s" "kv_run s {}" using demo_run by blast
  then show ?thesis
    using kv_reference_counts [OF s(2), of 1] new_kv_cache_ok(2,4) [OF s(1)] by auto
qed

text \<open>C3 Check-then-act: with the arguments the scheduler passes, \<open>AllocateKVBlocks\<close> always
  returns (no panic behind the pre-check, no endless loop); it answers true exactly when the
  new blocks and the idle cached blocks fit the free list; on false nothing has changed.\<close>

theorem allocate_atomic:
  assumes "kv_run s U" "kv_alloc_args q lo hi cached s" "kv_new_tokens q lo hi = Inr toks"
  shows "\<exists>s'. allocate_kv_blocks q lo hi cached s =
      Inr (int (kv_need s (rq_id q) (length toks)) + kv_idle cached s \<le> kc_free_cnt s, s') \<and>
    (\<not> int (kv_need s (rq_id q) (length toks)) + kv_idle cached s \<le> kc_free_cnt s \<longrightarrow> s' = s)"
  using allocate_cases [OF _ assms(2,3)] kv_run_inv [OF assms(1)] by (auto split: if_splits)

theorem allocate_atomic_witness:
  "\<exists>s s'. new_kv_cache 3 2 = Inr s \<and> allocate_kv_blocks demo_q 0 3 [] s = Inr (True, s')"
proof -
  obtain s where s: "new_kv_cache 3 2 = Inr s" "kv_run s {}" using demo_run by blast
  note demo = demo_alloc [OF s(1)]
  show ?thesis using allocate_atomic [OF s(2) demo(1,2)] s(1) demo(3) by metis
qed

text \<open>C4 Allocation stores the tokens: on success the request's blocks hold what they held
  before, the claimed blocks' tokens when the request is new to the cache, and the new tokens,
  in that order; every other request's table and tokens are what they were.\<close>

theorem allocate_stores:
  assumes "kv_run s U" "kv_alloc_args q lo hi cached s" "kv_new_tokens q lo hi = Inr toks"
    and "allocate_kv_blocks q lo hi cached s = Inr (True, s')"
  shows "kv_stored s' (rq_id q) = kv_stored s (rq_id q) @ kv_added (rq_id q) cached toks s \<and>
    (\<forall>r. r \<noteq> rq_id q \<longrightarrow> kc_req s' r = kc_req s r \<and> kv_stored s' r = kv_stored s r)"
  using allocate_cases [OF _ assms(2,3)] kv_run_inv [OF assms(1)] assms(4)
  by (auto simp: kv_frame_def split: if_splits)

theorem allocate_stores_witness:
  "\<exists>s s'. new_kv_cache 3 2 = Inr s \<and> allocate_kv_blocks demo_q 0 3 [] s = Inr (True, s') \<and>
     kv_stored s' ''a'' = [7, 8, 9]"
proof -
  obtain s where s: "new_kv_cache 3 2 = Inr s" "kv_run s {}" using demo_run by blast
  note demo = demo_alloc [OF s(1)]
  obtain s' where s': "allocate_kv_blocks demo_q 0 3 [] s = Inr (True, s')" using demo(4) by blast
  show ?thesis
    using allocate_stores [OF s(2) demo(1,2) s'] s' s(1) new_kv_cache_ok(4) [OF s(1)]
    by (simp add: kv_stored_fresh kv_added_def)
qed

text \<open>C5 Prefix reuse is sound: when a request new to the cache is given the blocks a lookup
  of its prompt finds and the rest of its first chunk, its blocks hold exactly the first
  tokens of its prompt, unless two of the blocks hashed collide.\<close>

theorem prefix_reuse_sound:
  assumes "kv_run s U" "kc_req s (rq_id q) = None"
    and "inj_on (\<lambda>b. hash_block (fst b) (snd b))
           (U \<union> chain_pairs (kc_bs s) (length (rq_input q) div kc_bs s) [] (rq_input q))"
    and "rq_progress q < input_len q"
    and lo: "lo = length (get_cached_blocks s (rq_input q)) * kc_bs s" and hi: "lo < hi" "int hi \<le> input_len q"
    and "allocate_kv_blocks q (int lo) (int hi) (get_cached_blocks s (rq_input q)) s = Inr (True, s')"
  shows "kv_stored s' (rq_id q) = take hi (rq_input q)"
proof -
  let ?ids = "get_cached_blocks s (rq_input q)" and ?toks = "take (hi - lo) (drop lo (rq_input q))"
  have inv: "kv_inv s" and keys: "kv_keys U s" using kv_run_inv [OF assms(1)] by blast+
  have args: "kv_alloc_args q (int lo) (int hi) ?ids s"
    using assms(4) hi get_cached_full [OF inv] by (simp add: kv_alloc_args_def)
  have toks: "kv_new_tokens q (int lo) (int hi) = Inr ?toks" "?toks \<noteq> []"
    using assms(4) hi by (auto simp: kv_new_tokens_def input_token_slice_def input_len_def nat_diff_distrib)
  have "concat (map (\<lambda>b. kb_tokens (blk s b)) ?ids) = take lo (rq_input q)"
    unfolding lo by (rule get_cached_concat [OF inv keys assms(3)])
  then have "kv_added (rq_id q) ?ids ?toks s = take hi (rq_input q)"
    using assms(2) toks(2) hi(1) take_add [of lo "hi - lo" "rq_input q"] by (simp add: kv_added_def)
  moreover have "kv_stored s' (rq_id q) = kv_stored s (rq_id q) @ kv_added (rq_id q) ?ids ?toks s"
    using allocate_cases [OF inv args toks(1)] assms(8) by (auto split: if_splits)
  ultimately show ?thesis using kv_stored_fresh [OF assms(2)] by simp
qed

theorem prefix_reuse_sound_witness:
  "\<exists>s s'. new_kv_cache 3 2 = Inr s \<and> allocate_kv_blocks demo_q 0 3 [] s = Inr (True, s') \<and>
     kv_stored s' ''a'' = take 3 [7, 8, 9]"
proof -
  obtain s where s: "new_kv_cache 3 2 = Inr s" "kv_run s {}" using demo_run by blast
  note new = new_kv_cache_ok [OF s(1)] and demo = demo_alloc [OF s(1)]
  obtain s' where s': "allocate_kv_blocks demo_q 0 3 [] s = Inr (True, s')" using demo(4) by blast
  have none: "get_cached_blocks s (rq_input demo_q) = []"
    using new(5) by (simp add: get_cached_blocks_def get_cached_loop_eq takeWhile_eq_Nil_iff)
  have "kc_bs s = 2" using new(3) by simp
  then have inj: "inj_on (\<lambda>b. hash_block (fst b) (snd b))
      ({} \<union> chain_pairs (kc_bs s) (length (rq_input demo_q) div kc_bs s) [] (rq_input demo_q))"
    by (auto simp: chain_pairs_def inj_on_def numeral_3_eq_3 lessThan_Suc)
  have "kv_stored s' (rq_id demo_q) = take 3 (rq_input demo_q)"
    by (rule prefix_reuse_sound [OF s(2) _ inj _ refl, of 3 s'])
      (use s' none new(4) in \<open>simp_all add: input_len_def\<close>)
  then show ?thesis using s(1) s' by auto
qed

end
