(* ===== verification/Batch_Properties.thy ===== *)
theory Batch_Properties
  imports Batch_Safety KV_Properties
begin

text \<open>
  The properties of batch formation, over the single-tier KV cache, with an instance of
  each; and the scenario in which a self-preemption in priority mode leaves later requests
  of the batch unvisited.
\<close>

section \<open>A concrete pass\<close>

definition demo_ctx :: batch_ctx where
  "demo_ctx = \<lparr>bc_max_tokens = 8, bc_max_seqs = 4, bc_prefill_threshold = 0, bc_max_model_len = 0, bc_now = 0,
     bc_step_count = 1, bc_adapter_resident = None, bc_decode_tokens = None, bc_no_prefix_cache = True\<rparr>"

definition demo_batch :: "'k \<Rightarrow> 'k batch_state" where
  "demo_batch kv = \<lparr>bf_reqs = (\<lambda>r. demo_request r [7, 8, 9] [1]), bf_running = [], bf_waitq = [''a'', ''b''], bf_kv = kv,
     bf_computed = Map.empty, bf_budget = 0, bf_scheduled = [], bf_preempted = [], bf_preemption = False\<rparr>"

lemma demo_batch_fields [simp]:
  "bf_kv (demo_batch kv) = kv" "bf_running (demo_batch kv) = []" "bf_waitq (demo_batch kv) = [''a'', ''b'']"
  "bf_reqs (demo_batch kv) = (\<lambda>r. demo_request r [7, 8, 9] [1])"
  by (simp_all add: demo_batch_def)

lemma demo_pass:
  "queues_ok (demo_batch kv)" "0 \<le> bc_max_tokens demo_ctx" "peek_stable demo_ctx"
  "\<forall>r \<in> set (bf_running (demo_batch kv)). run_wf (bf_reqs (demo_batch kv) r)"
  "\<forall>r \<in> set (bf_waitq (demo_batch kv)). wait_wf (bf_reqs (demo_batch kv) r)"
  by (simp_all add: queues_ok_def demo_ctx_def peek_stable_def wait_wf_def input_len_def demo_request_def)

section \<open>Properties\<close>

text \<open>C6 A scheduling pass returns: on well-formed requests \<open>FormBatch\<close> over the single-tier
  cache neither panics nor loops, whatever it preempts, and leaves the cache consistent.\<close>

theorem form_batch_returns:
  assumes "kv_inv (bf_kv st)" "queues_ok st" "0 \<le> bc_max_tokens ctx" "peek_stable ctx"
    and "\<forall>r \<in> set (bf_running st). run_wf (bf_reqs st r)" "\<forall>r \<in> set (bf_waitq st). wait_wf (bf_reqs st r)"
  shows "\<exists>exit st2 st'. form_batch single_tier pol ctx st = Inr (exit, st2, st') \<and> kv_inv (bf_kv st')"
  using assms by (rule single_tier_safe.form_batch_total)

theorem form_batch_returns_witness:
  "\<exists>s exit st2 st'. new_kv_cache 3 2 = Inr s \<and> form_batch single_tier PreemptionFCFS demo_ctx (demo_batch s) = Inr (exit, st2, st')"
proof -
  obtain s where s: "new_kv_cache 3 2 = Inr s" using demo_run by blast
  have "kv_inv (bf_kv (demo_batch s))" using new_kv_cache_ok(1) [OF s] by simp
  from form_batch_returns [OF this demo_pass(1-5), of PreemptionFCFS] s show ?thesis by blast
qed

text \<open>C7 No request is lost or duplicated by a pass: batch and wait queue together hold the
  same requests before and after, each once.\<close>

theorem form_batch_conserves:
  assumes "form_batch single_tier pol ctx st = Inr (exit, st2, st')"
    and "queues_ok st" "0 \<le> bc_max_tokens ctx" "peek_stable ctx"
  shows "mset (bf_running st' @ bf_waitq st') = mset (bf_running st @ bf_waitq st) \<and> queues_ok st'"
proof -
  obtain adm where one: "phase1_rel (pass_start ctx st) st2" and two: "phase2_rel ctx adm st2 st'"
    by (rule single_tier.form_batch_phases [OF assms]) blast
  obtain evs where evs: "distinct evs" "set evs \<subseteq> set (bf_running st)"
      "bf_running st2 = filter (\<lambda>x. x \<notin> set evs) (bf_running st)" "bf_waitq st2 = rev evs @ bf_waitq st"
    using one unfolding phase1_rel_def pass_start_fields by blast
  have "set (bf_running st2 @ bf_waitq st2) = set (bf_running st @ bf_waitq st)" "queues_ok st2"
    using evs assms(2) by (auto simp: queues_ok_def)
  then have "set (bf_running st' @ bf_waitq st') = set (bf_running st @ bf_waitq st)" "queues_ok st'"
    using two by (auto simp: phase2_rel_def queues_ok_def)
  then show ?thesis
    using assms(2) set_eq_iff_mset_eq_distinct [THEN iffD1, of "bf_running st' @ bf_waitq st'" "bf_running st @ bf_waitq st"]
    unfolding queues_ok_def by blast
qed

theorem form_batch_conserves_witness:
  "\<exists>s exit st2 st'. new_kv_cache 3 2 = Inr s \<and> form_batch single_tier PreemptionFCFS demo_ctx (demo_batch s) = Inr (exit, st2, st') \<and>
     mset (bf_running st' @ bf_waitq st') = {#''a'', ''b''#}"
proof -
  obtain s where s: "new_kv_cache 3 2 = Inr s" using demo_run by blast
  have inv: "kv_inv (bf_kv (demo_batch s))" using new_kv_cache_ok(1) [OF s] by simp
  obtain exit st2 st' where f: "form_batch single_tier PreemptionFCFS demo_ctx (demo_batch s) = Inr (exit, st2, st')"
    using single_tier_safe.form_batch_total [OF inv demo_pass(1-5)] by blast
  show ?thesis using form_batch_conserves [OF f demo_pass(1-3)] s f by auto
qed

text \<open>C8 Budgets: the tokens granted in a pass sum to at most \<open>MaxNumBatchedTokens\<close>, with every
  preempted grant refunded and no negative grant, and admissions never take the batch past
  \<open>MaxNumSeqs\<close>.\<close>

theorem form_batch_budget:
  assumes "form_batch single_tier pol ctx st = Inr (exit, st2, st')"
    and "queues_ok st" "0 \<le> bc_max_tokens ctx" "peek_stable ctx"
  shows "(\<Sum>r \<leftarrow> bf_running st'. rq_new_tokens (bf_reqs st' r)) = bc_max_tokens ctx - bf_budget st' \<and> 0 \<le> bf_budget st' \<and>
    (\<forall>r \<in> set (bf_running st'). 0 \<le> rq_new_tokens (bf_reqs st' r)) \<and>
    int (length (bf_running st')) \<le> max (int (length (bf_running st))) (bc_max_seqs ctx)"
proof -
  obtain adm where b: "budget_ok (bc_max_tokens ctx) st'"
      "int (length (bf_running st')) \<le> max (int (length (bf_running st2))) (bc_max_seqs ctx)"
      "phase1_rel (pass_start ctx st) st2"
    by (rule single_tier.form_batch_phases [OF assms]) blast
  have "length (bf_running st2) \<le> length (bf_running st)"
    using b(3) unfolding phase1_rel_def pass_start_fields by (metis length_filter_le)
  then show ?thesis using b(1,2) by (auto simp: budget_ok_def granted_sum_def new_tokens_nonneg_def)
qed

theorem form_batch_budget_witness:
  "\<exists>s exit st2 st'. new_kv_cache 3 2 = Inr s \<and> form_batch single_tier PreemptionFCFS demo_ctx (demo_batch s) = Inr (exit, st2, st') \<and>
     (\<Sum>r \<leftarrow> bf_running st'. rq_new_tokens (bf_reqs st' r)) \<le> 8"
proof -
  obtain s where s: "new_kv_cache 3 2 = Inr s" using demo_run by blast
  have inv: "kv_inv (bf_kv (demo_batch s))" using new_kv_cache_ok(1) [OF s] by simp
  obtain exit st2 st' where f: "form_batch single_tier PreemptionFCFS demo_ctx (demo_batch s) = Inr (exit, st2, st')"
    using single_tier_safe.form_batch_total [OF inv demo_pass(1-5)] by blast
  have "bc_max_tokens demo_ctx = 8" by (simp add: demo_ctx_def)
  then show ?thesis using form_batch_budget [OF f demo_pass(1-3)] s f by auto
qed



text \<open>C10 Preemption is a full reset: the requests a pass preempted are at the front of the
  wait queue, last evicted first, queued with progress, grant, latencies and speculative
  carry cleared; and no request is admitted in a pass that preempted.\<close>

theorem preemption_resets:
  assumes "form_batch single_tier pol ctx st = Inr (exit, st2, st')"
    and "queues_ok st" "0 \<le> bc_max_tokens ctx" "peek_stable ctx" "bf_preempted st' \<noteq> []"
  shows "bf_waitq st' = rev (bf_preempted st') @ bf_waitq st \<and> bf_scheduled st' = [] \<and>
    (\<forall>r \<in> set (bf_preempted st'). rq_state (bf_reqs st' r) = StateQueued \<and> rq_progress (bf_reqs st' r) = 0 \<and>
       rq_new_tokens (bf_reqs st' r) = 0 \<and> rq_itl (bf_reqs st' r) = [] \<and> rq_carry (bf_reqs st' r) = 0 \<and>
       \<not> rq_ttft_set (bf_reqs st' r) \<and> r \<notin> set (bf_running st'))"
proof -
  obtain adm where one: "phase1_rel (pass_start ctx st) st2" and two: "phase2_rel ctx adm st2 st'"
      and none: "bf_preemption st2 \<Longrightarrow> adm = []"
    by (rule single_tier.form_batch_phases [OF assms(1-4)]) blast
  obtain evs where evs: "bf_running st2 = filter (\<lambda>x. x \<notin> set evs) (bf_running st)" "bf_waitq st2 = rev evs @ bf_waitq st"
      "bf_preempted st2 = evs" "bf_scheduled st2 = []" "bf_preemption st2 = (evs \<noteq> [])"
      "\<forall>x \<in> set evs. bf_reqs st2 x = evicted (bf_reqs (pass_start ctx st) x)"
    using one by (auto simp: phase1_rel_def pass_start_fields)
  have "evs \<noteq> []" using assms(5) two evs(3) by (simp add: phase2_rel_def)
  then have "adm = []" using none evs(5) by simp
  then have same: "bf_waitq st' = bf_waitq st2" "bf_preempted st' = evs" "bf_scheduled st' = []" "bf_running st' = bf_running st2"
      "bf_reqs st' = bf_reqs st2"
    using two evs(3,4) by (auto simp: phase2_rel_def)
  show ?thesis unfolding same using evs(1,2,6) by (simp add: evicted_def reset_preempted_def)
qed

text \<open>A request whose prompt is larger than the cache evicts itself.\<close>

lemma demo_preempt:
  assumes "new_kv_cache 1 1 = Inr s"
  defines "st \<equiv> (demo_batch s)\<lparr>bf_running := [''a''], bf_waitq := []\<rparr>"
  shows "\<exists>exit st2 st'. form_batch single_tier PreemptionFCFS demo_ctx st = Inr (exit, st2, st') \<and> bf_preempted st' = [''a'']"
proof -
  note new = new_kv_cache_ok [OF assms(1)]
  let ?q = "demo_request ''a'' [7, 8, 9] [1]"
  have q0: "?q\<lparr>rq_new_tokens := 0\<rparr> = ?q" by (simp add: demo_request_def)
  have a: "kv_alloc_args ?q 0 3 [] s" by (simp add: kv_alloc_args_def input_len_def)
  have t: "kv_new_tokens ?q 0 3 = Inr [7, 8, 9]"
    by (simp add: kv_new_tokens_def input_len_def input_token_slice_def)
  have "\<not> int (kv_need s (rq_id ?q) (length [7 :: token, 8, 9])) + kv_idle [] s \<le> kc_free_cnt s"
    using new(3,4,6) by (simp add: kv_need_def kv_room_def kv_table_def ceil_div_def kv_idle_def)
  then have alloc: "allocate_kv_blocks ?q 0 3 [] s = Inr (False, s)"
    using allocate_cases [OF new(1) a t] by (simp only: if_False)
  have rel: "release_kv_blocks ''a'' s = Inr (s\<lparr>kc_req := (kc_req s)(''a'' := None)\<rparr>)"
    using new(4) by (simp add: release_kv_blocks_def)
  show ?thesis
    by (simp add: form_batch_def pass_start_def zero_new_tokens_def st_def demo_batch_def phase1_prefill_def Let_def
        prefill_chunk_def min_model_len_def demo_ctx_def input_len_def q0 single_tier_def alloc rel
        victim_index_def evict_victim_def set_req_def)
qed

theorem preemption_resets_witness:
  "\<exists>s exit st2 st'. new_kv_cache 1 1 = Inr s \<and>
     form_batch single_tier PreemptionFCFS demo_ctx ((demo_batch s)\<lparr>bf_running := [''a''], bf_waitq := []\<rparr>) = Inr (exit, st2, st') \<and>
     bf_waitq st' = [''a''] \<and> rq_progress (bf_reqs st' ''a'') = 0"
proof -
  obtain s where s: "new_kv_cache 1 1 = Inr s" using new_kv_cache_Inr [of 1 1] by auto
  let ?st = "(demo_batch s)\<lparr>bf_running := [''a''], bf_waitq := []\<rparr>"
  obtain exit st2 st' where f: "form_batch single_tier PreemptionFCFS demo_ctx ?st = Inr (exit, st2, st')" "bf_preempted st' = [''a'']"
    using demo_preempt [OF s] by blast
  have "queues_ok ?st" by (simp add: queues_ok_def)
  from preemption_resets [OF f(1) this demo_pass(2,3)] f s show ?thesis by auto
qed

text \<open>Victims: in priority mode the victim is a least urgent request of the batch (largest
  \<open>(priority, arrival)\<close>), the one nearest the tail among equals; otherwise it is the tail.\<close>

theorem victim_least_urgent:
  assumes "rs \<noteq> []"
  shows "(let v = victim_index PreemptionPriority m rs in v < length rs \<and>
      (\<forall>j < length rs. \<not> less_urgent (m (rs ! j)) (m (rs ! v))) \<and>
      (\<forall>j. v < j \<and> j < length rs \<longrightarrow> less_urgent (m (rs ! v)) (m (rs ! j)))) \<and>
    (pol \<noteq> PreemptionPriority \<longrightarrow> rs ! victim_index pol m rs = last rs)"
  using select_priority_victim_max [OF assms] assms by (simp add: victim_index_def last_conv_nth Let_def)

theorem victim_least_urgent_witness:
  "[''x'', ''y''] ! victim_index PreemptionFCFS (\<lambda>r. demo_request r [] []) [''x'', ''y''] = ''y''"
  using victim_least_urgent [of "[''x'', ''y'']" "\<lambda>r. demo_request r [] []" PreemptionFCFS] by simp

text \<open>Admission order: over the single-tier store the requests a pass admits are a prefix of
  the wait queue in its order, appended to the batch in that order.\<close>

theorem admission_fifo:
  assumes "form_batch single_tier pol ctx st = Inr (exit, st2, st')"
    and "queues_ok st" "0 \<le> bc_max_tokens ctx" "peek_stable ctx" "bf_preempted st' = []"
  shows "bf_waitq st = bf_scheduled st' @ bf_waitq st' \<and> bf_running st' = bf_running st @ bf_scheduled st' \<and>
    (\<forall>r \<in> set (bf_scheduled st'). rq_state (bf_reqs st' r) = StateRunning \<and> rq_sched_step (bf_reqs st' r) = bc_step_count ctx)"
proof -
  obtain adm where one: "phase1_rel (pass_start ctx st) st2" and two: "phase2_rel ctx adm st2 st'"
      and fifo: "ko_poll_deferred single_tier = None \<Longrightarrow> bf_waitq st2 = adm @ bf_waitq st'"
    by (rule single_tier.form_batch_phases [OF assms(1-4)]) (rule that; simp)
  obtain evs where evs: "bf_running st2 = filter (\<lambda>x. x \<notin> set evs) (bf_running st)" "bf_waitq st2 = rev evs @ bf_waitq st"
      "bf_preempted st2 = evs" "bf_scheduled st2 = []"
    using one unfolding phase1_rel_def pass_start_fields by force
  have "evs = []" using two evs(3) assms(5) by (simp add: phase2_rel_def)
  then have s2: "bf_running st2 = bf_running st" "bf_waitq st2 = bf_waitq st" using evs(1,2) by simp_all
  have adm: "bf_scheduled st' = adm" "bf_running st' = bf_running st2 @ adm"
    "\<forall>x \<in> set adm. admitted_from ctx (bf_reqs st2 x) (bf_reqs st' x)"
    using two evs(4) by (simp_all add: phase2_rel_def)
  have "bf_waitq st2 = adm @ bf_waitq st'" using fifo by (simp add: single_tier_def)
  moreover have "rq_state (bf_reqs st' r) = StateRunning \<and> rq_sched_step (bf_reqs st' r) = bc_step_count ctx" if "r \<in> set adm" for r
    using adm(3) that by (auto simp: admitted_from_def)
  ultimately show ?thesis unfolding adm(1,2) s2 by blast
qed

theorem admission_fifo_witness:
  "\<exists>s exit st2 st'. new_kv_cache 3 2 = Inr s \<and> form_batch single_tier PreemptionFCFS demo_ctx (demo_batch s) = Inr (exit, st2, st') \<and>
     [''a'', ''b''] = bf_scheduled st' @ bf_waitq st'"
proof -
  obtain s where s: "new_kv_cache 3 2 = Inr s" using demo_run by blast
  have inv: "kv_inv (bf_kv (demo_batch s))" using new_kv_cache_ok(1) [OF s] by simp
  obtain exit st2 st' where f: "form_batch single_tier PreemptionFCFS demo_ctx (demo_batch s) = Inr (exit, st2, st')"
    using single_tier_safe.form_batch_total [OF inv demo_pass(1-5)] by blast
  have "bf_preempted st' = []"
  proof -
    obtain adm where one: "phase1_rel (pass_start demo_ctx (demo_batch s)) st2" and two: "phase2_rel demo_ctx adm st2 st'"
      by (rule single_tier.form_batch_phases [OF f demo_pass(1-3)]) blast
    then show ?thesis by (auto simp: phase1_rel_def phase2_rel_def pass_start_fields)
  qed
  from admission_fifo [OF f demo_pass(1-3) this] s f show ?thesis by auto
qed

section \<open>What the registry's statement of INV-12 leaves out\<close>

text \<open>
  A store with one slot, held by the request whose name it carries: allocation succeeds for
  that request only. In priority mode the least urgent request, first in the batch, evicts
  itself; the visit stops there, and the request behind it decodes nothing in this pass
  although it was not preempted, budget is left and no model length caps it.
\<close>

definition one_slot :: "rid kv_ops" where
  "one_slot = \<lparr>ko_allocate = (\<lambda>q lo hi c kv. Inr (kv = rq_id q, kv)), ko_cached = (\<lambda>_ _. []),
     ko_release = (\<lambda>r kv. Inr kv), ko_block_size = (\<lambda>_. 1), ko_poll_deferred = None,
     ko_is_deferred = (\<lambda>_ _. False), ko_reloadable_end = None\<rparr>"

definition self_evict_batch :: "rid batch_state" where
  "self_evict_batch = (demo_batch ''crit'')\<lparr>bf_running := [''bg'', ''crit''], bf_waitq := [],
     bf_reqs := (\<lambda>r. (demo_request r [7] [1, 2, 3])\<lparr>rq_progress := 1, rq_priority := (if r = ''bg'' then 5 else 0)\<rparr>)\<rparr>"

text \<open>Self-preemption ends the visit: with \<open>one_slot\<close> and the batch above the pass returns
  having left \<open>crit\<close> in the batch without a token, the whole budget unspent.\<close>

theorem self_preemption_stops_phase1:
  "\<exists>st2 st'. form_batch one_slot PreemptionPriority demo_ctx self_evict_batch = Inr (CannotSchedule, st2, st') \<and>
     bf_running st' = [''crit''] \<and> rq_new_tokens (bf_reqs st' ''crit'') = 0 \<and> bf_budget st' = 8"
  by (simp add: form_batch_def pass_start_def zero_new_tokens_def self_evict_batch_def demo_batch_def phase1_prefill_def
      phase1_decode_def decode_grant_def min_model_len_def demo_ctx_def input_len_def output_len_def one_slot_def demo_request_def
      victim_index_def select_priority_victim_def evict_victim_def set_req_def reset_preempted_def numeral_2_eq_2 Let_def)

text \<open>
  A prompt whose blocks are all cached is admitted with an empty chunk: the allocation then
  answers true without claiming a single block, because blocks are claimed in the loop over
  the new tokens, which does not run.
\<close>

theorem full_hit_claims_nothing:
  assumes "kv_inv s" "kc_req s (rq_id q) = None" "rq_progress q < input_len q"
    and "length (get_cached_blocks s (rq_input q)) * kc_bs s = length (rq_input q)"
    and "kv_idle (get_cached_blocks s (rq_input q)) s \<le> kc_free_cnt s"
  shows "allocate_kv_blocks q (input_len q) (input_len q) (get_cached_blocks s (rq_input q)) s = Inr (True, s)"
proof -
  let ?c = "get_cached_blocks s (rq_input q)"
  have toks: "kv_new_tokens q (input_len q) (input_len q) = Inr []"
    using assms(3) input_len_nonneg [of q] by (simp add: kv_new_tokens_def input_token_slice_def not_less)
  have bs: "0 < kc_bs s" using assms(1) by (simp add: kv_inv_def kv_acct_def)
  have "kv_prefill_check (rq_id q) [] ?c s = Inr True"
    using kv_prefill_check_eq [OF assms(1), of ?c "rq_id q" "[]"] get_cached_full [OF assms(1)] assms(5) bs
    by (simp add: kv_need_def)
  then show ?thesis using assms(3) toks by (simp add: allocate_kv_blocks_def Let_def)
qed

end
