(* ===== verification/Heap_Queue.thy ===== *)
theory Heap_Queue
  imports Sim_Prelude
begin

text \<open>
  The binary heap of Go's \<open>container/heap\<close>, which the simulator's event queue
  (\<open>sim/simulator.go\<close>), the transfer station's completion heap
  (\<open>sim/kvtransfer/station.go\<close>) and the gateway's eviction tracker
  (\<open>sim/cluster/eviction_tracker.go\<close>) are instances of. A heap is the slice of its entries,
  the order is the client's \<open>Less\<close>; \<open>up\<close>, \<open>down\<close>, \<open>Push\<close> and \<open>Pop\<close> are the library's loops.
  Inside the locale \<open>weak_order\<close>, which states what a client's \<open>Less\<close> promises, the heap is
  proved to be a priority queue: it keeps the entries, keeps the heap property, and pops an
  entry no other entry precedes.
\<close>

section \<open>The loops of container/heap\<close>

definition heap_swap :: "'a list \<Rightarrow> nat \<Rightarrow> nat \<Rightarrow> 'a list" where
  "heap_swap h i j = h[i := h ! j, j := h ! i]"

abbreviation par :: "nat \<Rightarrow> nat" where
  "par j \<equiv> (j - 1) div 2"

fun heap_up :: "('a \<Rightarrow> 'a \<Rightarrow> bool) \<Rightarrow> 'a list \<Rightarrow> nat \<Rightarrow> 'a list" where
  "heap_up lt h j =
     (let i = par j in
      if i = j \<or> \<not> lt (h ! j) (h ! i) then h else heap_up lt (heap_swap h i j) i)"

function heap_down :: "('a \<Rightarrow> 'a \<Rightarrow> bool) \<Rightarrow> 'a list \<Rightarrow> nat \<Rightarrow> nat \<Rightarrow> 'a list" where
  "heap_down lt h i n =
     (let j1 = 2 * i + 1 in
      if n \<le> j1 then h
      else let j2 = j1 + 1;
               j = (if j2 < n \<and> lt (h ! j2) (h ! j1) then j2 else j1)
           in if \<not> lt (h ! j) (h ! i) then h else heap_down lt (heap_swap h i j) j n)"
  by pat_completeness auto
termination
  by (relation "measure (\<lambda>(lt, h, i, n). n - i)") (auto simp: Let_def split: if_splits)

declare heap_up.simps [simp del] heap_down.simps [simp del]

text \<open>\<open>heap.Push\<close> appends and sifts up; \<open>heap.Pop\<close> swaps the root to the end and sifts down.\<close>

definition heap_push :: "('a \<Rightarrow> 'a \<Rightarrow> bool) \<Rightarrow> 'a \<Rightarrow> 'a list \<Rightarrow> 'a list" where
  "heap_push lt x h = heap_up lt (h @ [x]) (length h)"

definition heap_pop :: "('a \<Rightarrow> 'a \<Rightarrow> bool) \<Rightarrow> 'a list \<Rightarrow> ('a \<times> 'a list) option" where
  "heap_pop lt h =
     (if h = [] then None
      else let n = length h - 1; h' = heap_down lt (heap_swap h 0 n) 0 n
           in Some (h' ! n, take n h'))"

lemma heap_down_step:
  assumes "j = (if 2 * i + 1 + 1 < n \<and> lt (h ! (2 * i + 1 + 1)) (h ! (2 * i + 1)) then 2 * i + 1 + 1 else 2 * i + 1)"
    and "\<not> n \<le> 2 * i + 1"
  shows "heap_down lt h i n = (if lt (h ! j) (h ! i) then heap_down lt (heap_swap h i j) j n else h)"
  using assms(2) unfolding assms(1) by (subst heap_down.simps) (auto simp only: Let_def split: if_split)

section \<open>What the loops keep\<close>

lemma length_heap_swap [simp]: "length (heap_swap h i j) = length h"
  by (simp add: heap_swap_def)

lemma heap_swap_nth:
  "i < length h \<Longrightarrow> j < length h \<Longrightarrow>
   heap_swap h i j ! k = (if k = j then h ! i else if k = i then h ! j else h ! k)"
  by (cases "k < length h") (auto simp: heap_swap_def nth_list_update)

lemma mset_heap_swap: "i < length h \<Longrightarrow> j < length h \<Longrightarrow> mset (heap_swap h i j) = mset h"
  unfolding heap_swap_def by (rule mset_swap)

lemma par_less: "0 < j \<Longrightarrow> par j < j"
  by auto

lemma par_children: "0 < k \<Longrightarrow> par k = i \<longleftrightarrow> k = 2 * i + 1 \<or> k = 2 * i + 2"
  by auto

lemma length_heap_up: "length (heap_up lt h j) = length h"
  by (induction lt h j rule: heap_up.induct) (subst heap_up.simps, simp add: Let_def)

lemma mset_heap_up: "j < length h \<Longrightarrow> mset (heap_up lt h j) = mset h"
proof (induction lt h j rule: heap_up.induct)
  case (1 lt h j)
  then show ?case
    by (subst heap_up.simps) (auto simp: Let_def mset_heap_swap less_imp_diff_less div_less_dividend)
qed

lemma length_heap_down: "length (heap_down lt h i n) = length h"
  by (induction lt h i n rule: heap_down.induct) (subst heap_down.simps, simp add: Let_def)

lemma mset_heap_down: "n \<le> length h \<Longrightarrow> mset (heap_down lt h i n) = mset h"
proof (induction lt h i n rule: heap_down.induct)
  case (1 lt h i n)
  then show ?case by (subst heap_down.simps) (auto simp: Let_def mset_heap_swap)
qed

lemma heap_down_above: "n \<le> length h \<Longrightarrow> n \<le> k \<Longrightarrow> heap_down lt h i n ! k = h ! k"
proof (induction lt h i n rule: heap_down.induct)
  case (1 lt h i n)
  then show ?case by (subst heap_down.simps) (auto simp: Let_def heap_swap_nth)
qed

section \<open>The heap property\<close>

context weak_order begin

definition is_heap :: "'a list \<Rightarrow> bool" where
  "is_heap h \<longleftrightarrow> (\<forall>k. 0 < k \<and> k < length h \<longrightarrow> \<not> lt (h ! k) (h ! par k))"

definition heap_prefix :: "'a list \<Rightarrow> nat \<Rightarrow> bool" where
  "heap_prefix h n \<longleftrightarrow> (\<forall>k. 0 < k \<and> k < n \<longrightarrow> \<not> lt (h ! k) (h ! par k))"

lemma is_heap_Nil [simp]: "is_heap []"
  by (simp add: is_heap_def)

lemma heap_up_heap:
  assumes "j < length h"
    and "\<And>k. \<lbrakk>0 < k; k < length h; k \<noteq> j\<rbrakk> \<Longrightarrow> \<not> lt (h ! k) (h ! par k)"
    and "\<And>c. \<lbrakk>0 < j; 0 < c; c < length h; par c = j\<rbrakk> \<Longrightarrow> \<not> lt (h ! c) (h ! par j)"
  shows "is_heap (heap_up lt h j)"
  using assms
proof (induction j arbitrary: h rule: less_induct)
  case (less j)
  let ?i = "par j"
  show ?case
  proof (cases "?i = j \<or> \<not> lt (h ! j) (h ! ?i)")
    case True
    then have "\<not> lt (h ! k) (h ! par k)" if "0 < k" "k < length h" for k
      using less.prems(2) that by (cases "k = j") auto
    with True show ?thesis by (subst heap_up.simps) (simp add: Let_def is_heap_def)
  next
    case False
    then have j: "0 < j" and lt: "lt (h ! j) (h ! ?i)" by auto
    then have i: "?i < j" "?i < length h" using less.prems(1) par_less by auto
    let ?h = "heap_swap h ?i j"
    have nth: "?h ! k = (if k = j then h ! ?i else if k = ?i then h ! j else h ! k)" for k
      using heap_swap_nth less.prems(1) i(2) by blast
    have le: "\<not> lt (h ! ?i) (h ! j)" using lt lt_asym by blast
    have "is_heap (heap_up lt ?h ?i)"
    proof (rule less.IH [OF i(1)])
      show "?i < length ?h" using i by simp
    next
      fix k assume k: "0 < k" "k < length ?h" "k \<noteq> ?i"
      consider "k = j" | "k \<noteq> j" "par k = ?i" | "k \<noteq> j" "par k = j" | "k \<noteq> j" "par k \<noteq> ?i" "par k \<noteq> j"
        by blast
      then show "\<not> lt (?h ! k) (?h ! par k)"
      proof cases
        case 1 then show ?thesis using le nth i by auto
      next
        case 2
        then have "\<not> lt (h ! k) (h ! ?i)" using less.prems(2) [of k] k by simp
        with le have "\<not> lt (h ! k) (h ! j)" using nlt_trans by blast
        moreover have "?h ! k = h ! k" "?h ! par k = h ! j" using 2 k i nth by presburger+
        ultimately show ?thesis by simp
      next
        case 3
        then have "?h ! k = h ! k" "?h ! par k = h ! ?i" using k nth by presburger+
        moreover have "\<not> lt (h ! k) (h ! ?i)" using less.prems(3) [OF j k(1)] 3 k by simp
        ultimately show ?thesis by simp
      next
        case 4
        then have "?h ! k = h ! k" "?h ! par k = h ! par k" using k nth by presburger+
        moreover have "\<not> lt (h ! k) (h ! par k)" using less.prems(2) [of k] 4 k by simp
        ultimately show ?thesis by simp
      qed
    next
      fix c assume c: "0 < ?i" "0 < c" "c < length ?h" "par c = ?i"
      have up: "\<not> lt (h ! ?i) (h ! par ?i)" using less.prems(2) c(1) i by auto
      have pi: "par ?i \<noteq> ?i" "par ?i \<noteq> j" using par_less [OF c(1)] i by auto
      show "\<not> lt (?h ! c) (?h ! par ?i)"
      proof (cases "c = j")
        case True
        then show ?thesis using up nth pi by simp
      next
        case False
        then have "\<not> lt (h ! c) (h ! ?i)" using less.prems(2) [of c] c by auto
        then have "\<not> lt (h ! c) (h ! par ?i)" using up nlt_trans by blast
        moreover have "c \<noteq> ?i" using par_less [OF c(2)] c(4) by linarith
        then have "?h ! c = h ! c" using False nth by presburger
        moreover have "?h ! par ?i = h ! par ?i" using pi nth by presburger
        ultimately show ?thesis by simp
      qed
    qed
    with False show ?thesis by (subst heap_up.simps) (simp add: Let_def)
  qed
qed

lemma heap_down_heap:
  assumes "n \<le> length h" "i < n \<or> n = 0"
    and "\<And>k. \<lbrakk>0 < k; k < n; par k \<noteq> i\<rbrakk> \<Longrightarrow> \<not> lt (h ! k) (h ! par k)"
    and "\<And>c. \<lbrakk>0 < i; 0 < c; c < n; par c = i\<rbrakk> \<Longrightarrow> \<not> lt (h ! c) (h ! par i)"
  shows "heap_prefix (heap_down lt h i n) n"
  using assms
proof (induction "n - i" arbitrary: h i rule: less_induct)
  case (less i h)
  let ?j1 = "2 * i + 1" and ?j2 = "2 * i + 1 + 1"
  let ?j = "if ?j2 < n \<and> lt (h ! ?j2) (h ! ?j1) then ?j2 else ?j1"
  show ?case
  proof (cases "n \<le> ?j1")
    case True
    then have "heap_prefix h n" using less.prems(3) by (fastforce simp: heap_prefix_def par_children)
    with True show ?thesis by (subst heap_down.simps) (simp add: Let_def)
  next
    case False
    have j: "?j < n" "i < ?j" "0 < ?j" "par ?j = i" using False by auto
    have small: "\<not> lt (h ! c) (h ! ?j)" if "0 < c" "c < n" "par c = i" for c
      using that par_children [of c i] lt_asym by (auto split: if_splits)
    show ?thesis
    proof (cases "lt (h ! ?j) (h ! i)")
      case stop: False
      have "\<not> lt (h ! k) (h ! par k)" if "0 < k" "k < n" for k
        using that less.prems(3) small stop nlt_trans by (cases "par k = i") blast+
      then have "heap_prefix h n" by (simp add: heap_prefix_def)
      with stop show ?thesis unfolding heap_down_step [OF refl False] by simp
    next
      case True
      let ?h = "heap_swap h i ?j"
      have len: "i < length h" "?j < length h" using j less.prems(1) by linarith+
      have nth: "?h ! k = (if k = ?j then h ! i else if k = i then h ! ?j else h ! k)" for k
        using heap_swap_nth [OF len] by blast
      have le: "\<not> lt (h ! i) (h ! ?j)" using True lt_asym by blast
      have "heap_prefix (heap_down lt ?h ?j n) n"
      proof (rule less.hyps)
        show "n - ?j < n - i" using j by linarith
        show "n \<le> length ?h" using less.prems(1) by simp
        show "?j < n \<or> n = 0" using j by blast
      next
        fix k assume k: "0 < k" "k < n" "par k \<noteq> ?j"
        consider "k = i" | "k \<noteq> i" "par k = i" | "k \<noteq> i" "par k \<noteq> i" by blast
        then show "\<not> lt (?h ! k) (?h ! par k)"
        proof cases
          case 1
          then have "par i \<noteq> ?j" "par i \<noteq> i" "i \<noteq> ?j" using par_less [of i] k j by linarith+
          moreover have "\<not> lt (h ! ?j) (h ! par i)" using less.prems(4) [of ?j] 1 k j by blast
          moreover have "?h ! k = h ! ?j" "?h ! par k = h ! par i"
            using 1 calculation(1-3) nth by presburger+
          ultimately show ?thesis by presburger
        next
          case 2
          have "?h ! k = (if k = ?j then h ! i else h ! k)" using 2 nth [of k] by presburger
          then have "\<not> lt (?h ! k) (h ! ?j)" using small [OF k(1,2) 2(2)] le by presburger
          moreover have "i \<noteq> ?j" using j(2) by linarith
          then have "?h ! par k = h ! ?j" using 2(2) nth [of "par k"] by presburger
          ultimately show ?thesis by presburger
        next
          case 3
          then have "k \<noteq> ?j" using j by blast
          then have "?h ! k = h ! k" "?h ! par k = h ! par k"
            using 3 k nth by presburger+
          then show ?thesis using less.prems(3) k 3 by presburger
        qed
      next
        fix c assume c: "0 < ?j" "0 < c" "c < n" "par c = ?j"
        have "c \<noteq> i" "c \<noteq> ?j" "?j \<noteq> i" using par_less [OF c(2)] c(4) j by linarith+
        then have "?h ! c = h ! c" "?h ! i = h ! ?j" using nth by presburger+
        moreover have "par c \<noteq> i" using c(4) \<open>?j \<noteq> i\<close> by presburger
        then have "\<not> lt (h ! c) (h ! par c)" by (rule less.prems(3) [OF c(2,3)])
        then have "\<not> lt (h ! c) (h ! ?j)" unfolding c(4) .
        ultimately show "\<not> lt (?h ! c) (?h ! par ?j)" unfolding j(4) by presburger
      qed
      with True show ?thesis unfolding heap_down_step [OF refl False] by simp
    qed
  qed
qed

lemma heap_root_least:
  assumes "is_heap h" "k < length h"
  shows "\<not> lt (h ! k) (h ! 0)"
  using assms(2)
proof (induction k rule: less_induct)
  case (less k)
  show ?case
  proof (cases "k = 0")
    case True
    then show ?thesis using lt_asym by blast
  next
    case False
    then have "\<not> lt (h ! par k) (h ! 0)" using less par_less [of k] by auto
    moreover have "\<not> lt (h ! k) (h ! par k)" using assms(1) False less by (simp add: is_heap_def)
    ultimately show ?thesis by (metis nlt_trans)
  qed
qed

section \<open>The heap is a priority queue\<close>

lemma heap_push_heap:
  assumes "is_heap h"
  shows "is_heap (heap_push lt x h)"
  unfolding heap_push_def
proof (rule heap_up_heap)
  show "length h < length (h @ [x])" by simp
next
  fix k assume "0 < k" "k < length (h @ [x])" "k \<noteq> length h"
  then show "\<not> lt ((h @ [x]) ! k) ((h @ [x]) ! par k)"
    using assms par_less [of k] by (auto simp: is_heap_def nth_append)
next
  fix c assume "0 < c" "c < length (h @ [x])" "par c = length h"
  then show "\<not> lt ((h @ [x]) ! c) ((h @ [x]) ! par (length h))"
    using par_less [of c] by auto
qed

lemma heap_pop_heap:
  assumes "is_heap h" "heap_pop lt h = Some (x, h')"
  shows "is_heap h'"
proof -
  let ?n = "length h - 1"
  have h: "h \<noteq> []" and h': "h' = take ?n (heap_down lt (heap_swap h 0 ?n) 0 ?n)"
    using assms(2) by (auto simp: heap_pop_def Let_def split: if_splits)
  have "heap_prefix (heap_down lt (heap_swap h 0 ?n) 0 ?n) ?n"
  proof (rule heap_down_heap)
    show "?n \<le> length (heap_swap h 0 ?n)" "0 < ?n \<or> ?n = 0" by auto
  next
    fix k assume k: "0 < k" "k < ?n" "par k \<noteq> 0"
    then have "\<not> lt (h ! k) (h ! par k)" using assms(1) by (simp add: is_heap_def)
    then show "\<not> lt (heap_swap h 0 ?n ! k) (heap_swap h 0 ?n ! par k)"
      using k h par_less [of k] by (auto simp: heap_swap_nth)
  qed simp
  then show ?thesis unfolding h' by (auto simp: is_heap_def heap_prefix_def)
qed

end

lemma mset_heap_push: "mset (heap_push lt x h) = add_mset x (mset h)"
  by (simp add: heap_push_def mset_heap_up)

lemma length_heap_push: "length (heap_push lt x h) = Suc (length h)"
  by (simp add: heap_push_def length_heap_up)

lemma heap_pop_SomeD:
  assumes "heap_pop lt h = Some (x, h')"
  shows "x = h ! 0" "h \<noteq> []" "mset h = add_mset x (mset h')"
proof -
  let ?n = "length h - 1"
  let ?d = "heap_down lt (heap_swap h 0 ?n) 0 ?n"
  show h: "h \<noteq> []" using assms by (auto simp: heap_pop_def split: if_splits)
  have x: "x = ?d ! ?n" and h': "h' = take ?n ?d"
    using assms by (auto simp: heap_pop_def Let_def split: if_splits)
  have "x = heap_swap h 0 ?n ! ?n" unfolding x using heap_down_above [of ?n "heap_swap h 0 ?n" ?n] by simp
  then show x0: "x = h ! 0" using h by (simp add: heap_swap_nth)
  have "length ?d = Suc ?n" using h by (simp add: length_heap_down)
  then have "?d = h' @ [x]" unfolding h' x by (metis lessI order_refl take_Suc_conv_app_nth take_all_iff)
  moreover have "mset ?d = mset h" using h by (simp add: mset_heap_down mset_heap_swap)
  ultimately show "mset h = add_mset x (mset h')" by (metis union_code mset_append mset.simps add.commute mset_single_iff_right add_mset_add_single)
qed

lemma heap_pop_None [simp]: "heap_pop lt h = None \<longleftrightarrow> h = []"
  by (simp add: heap_pop_def Let_def)

context weak_order begin

lemma heap_pop_least:
  assumes "is_heap h" "heap_pop lt h = Some (x, h')" "y \<in> set h"
  shows "\<not> lt y x"
proof -
  obtain k where "k < length h" "y = h ! k" using assms(3) by (auto simp: in_set_conv_nth)
  then show ?thesis using heap_root_least [OF assms(1)] heap_pop_SomeD(1) [OF assms(2)] by auto
qed

end

end
