(* ===== verification/Event_Queue.thy ===== *)
theory Event_Queue
  imports Heap_Queue Request_Model
begin

text \<open>
  The instance simulator's events and event queue (\<open>sim/event.go\<close>, \<open>sim/simulator.go\<close>): the
  event kinds with their same-tick priorities, the queue's comparator (timestamp, priority,
  sequence number), and scheduling and extraction through \<open>container/heap\<close>.
\<close>

section \<open>Events\<close>

datatype event =
    ArrivalEvent tick rid
  | QueuedEvent tick rid
  | AdapterLoadCompletionEvent tick string
  | StepEvent tick
  | ScheduledEvent tick rid
  | RequestLeftEvent tick rid
  | TimeoutEvent tick rid

fun ev_timestamp :: "event \<Rightarrow> tick" where
  "ev_timestamp (ArrivalEvent t _) = t"
| "ev_timestamp (QueuedEvent t _) = t"
| "ev_timestamp (AdapterLoadCompletionEvent t _) = t"
| "ev_timestamp (StepEvent t) = t"
| "ev_timestamp (ScheduledEvent t _) = t"
| "ev_timestamp (RequestLeftEvent t _) = t"
| "ev_timestamp (TimeoutEvent t _) = t"

text \<open>The priority constants: at one tick, lower fires first.\<close>

fun ev_priority :: "event \<Rightarrow> int" where
  "ev_priority (ArrivalEvent _ _) = 0"
| "ev_priority (QueuedEvent _ _) = 1"
| "ev_priority (AdapterLoadCompletionEvent _ _) = 2"
| "ev_priority (StepEvent _) = 3"
| "ev_priority (ScheduledEvent _ _) = 4"
| "ev_priority (RequestLeftEvent _ _) = 5"
| "ev_priority (TimeoutEvent _ _) = 6"

section \<open>The event queue\<close>

record event_entry =
  ee_event :: event
  ee_seq :: int

type_synonym event_queue = "event_entry list"

definition eq_less :: "event_entry \<Rightarrow> event_entry \<Rightarrow> bool" where
  "eq_less a b =
     (if ev_timestamp (ee_event a) \<noteq> ev_timestamp (ee_event b)
      then ev_timestamp (ee_event a) < ev_timestamp (ee_event b)
      else if ev_priority (ee_event a) \<noteq> ev_priority (ee_event b)
      then ev_priority (ee_event a) < ev_priority (ee_event b)
      else ee_seq a < ee_seq b)"

text \<open>\<open>Schedule\<close>: number the event and push it. The counter is the simulator's.\<close>

definition eq_schedule :: "event \<Rightarrow> int \<times> event_queue \<Rightarrow> int \<times> event_queue" where
  "eq_schedule ev = (\<lambda>(ctr, q).
     let ctr' = ctr + 1 in (ctr', heap_push eq_less \<lparr>ee_event = ev, ee_seq = ctr'\<rparr> q))"

definition eq_pop :: "event_queue \<Rightarrow> (event_entry \<times> event_queue) option" where
  "eq_pop q = heap_pop eq_less q"

definition eq_peek_time :: "event_queue \<Rightarrow> tick outcome" where
  "eq_peek_time q = (case q of [] \<Rightarrow> Inl IndexOutOfRange | e # _ \<Rightarrow> Inr (ev_timestamp (ee_event e)))"

interpretation evq: weak_order eq_less
  by unfold_locales (auto simp: eq_less_def split: if_splits)

text \<open>
  The queue's invariant: the heap property, and sequence numbers that are distinct and at
  most the counter, so that no two entries tie.
\<close>

definition eq_inv :: "int \<times> event_queue \<Rightarrow> bool" where
  "eq_inv = (\<lambda>(ctr, q). evq.is_heap q \<and> distinct (map ee_seq q) \<and> (\<forall>e \<in> set q. ee_seq e \<le> ctr))"

lemma eq_inv_empty: "eq_inv (0, [])"
  by (simp add: eq_inv_def)

lemma mset_eq_schedule:
  "eq_schedule ev (ctr, q) = (ctr', q') \<Longrightarrow>
   ctr' = ctr + 1 \<and> mset q' = add_mset \<lparr>ee_event = ev, ee_seq = ctr + 1\<rparr> (mset q)"
  by (auto simp: eq_schedule_def Let_def mset_heap_push)

lemma set_eq_schedule:
  "eq_schedule ev (ctr, q) = (ctr', q') \<Longrightarrow> set q' = insert \<lparr>ee_event = ev, ee_seq = ctr + 1\<rparr> (set q)"
  using mset_eq_schedule by (metis set_mset_add_mset_insert set_mset_mset)

lemma distinct_map_mset: "mset xs = mset ys \<Longrightarrow> distinct (map f xs) = distinct (map f ys)"
  by (metis mset_eq_imp_distinct_iff mset_map)

lemma eq_schedule_inv:
  assumes "eq_inv (ctr, q)"
  shows "eq_inv (eq_schedule ev (ctr, q))"
proof -
  let ?e = "\<lparr>ee_event = ev, ee_seq = ctr + 1\<rparr>"
  have m: "mset (heap_push eq_less ?e q) = mset (?e # q)" by (simp add: mset_heap_push)
  have "distinct (map ee_seq (?e # q))" using assms by (fastforce simp: eq_inv_def)
  then have "distinct (map ee_seq (heap_push eq_less ?e q))" using distinct_map_mset [OF m] by blast
  moreover have "set (heap_push eq_less ?e q) = insert ?e (set q)"
    using m by (metis list.simps(15) set_mset_mset)
  ultimately show ?thesis
    using assms evq.heap_push_heap by (fastforce simp: eq_inv_def eq_schedule_def Let_def)
qed

lemma eq_pop_inv:
  assumes "eq_inv (ctr, q)" "eq_pop q = Some (e, q')"
  shows "eq_inv (ctr, q')" "mset q = add_mset e (mset q')"
proof -
  show m: "mset q = add_mset e (mset q')"
    using heap_pop_SomeD(3) [OF assms(2) [unfolded eq_pop_def]] .
  then have m': "mset q = mset (e # q')" by simp
  have "distinct (map ee_seq (e # q'))"
    using assms(1) distinct_map_mset [OF m', of ee_seq] by (simp add: eq_inv_def)
  moreover have "set q = set (e # q')" using m' by (rule mset_eq_setD)
  moreover have "evq.is_heap q'"
    using assms(1) evq.heap_pop_heap [OF _ assms(2) [unfolded eq_pop_def]] by (simp add: eq_inv_def)
  ultimately show "eq_inv (ctr, q')" using assms(1) by (simp add: eq_inv_def)
qed

lemma eq_pop_least:
  assumes "eq_inv (ctr, q)" "eq_pop q = Some (e, q')" "f \<in> set q'"
  shows "eq_less e f"
proof -
  have m: "mset q = mset (e # q')" using eq_pop_inv(2) [OF assms(1,2)] by simp
  have "f \<in> set q" using assms(3) m mset_eq_setD by fastforce
  then have "\<not> eq_less f e"
    using assms(1,2) evq.heap_pop_least unfolding eq_inv_def eq_pop_def by blast
  moreover have "ee_seq e \<noteq> ee_seq f"
  proof -
    have "distinct (map ee_seq (e # q'))"
      using assms(1) distinct_map_mset [OF m, of ee_seq] by (simp add: eq_inv_def)
    then show ?thesis using assms(3) by force
  qed
  ultimately show ?thesis by (auto simp: eq_less_def split: if_splits)
qed

lemma eq_pop_time:
  assumes "eq_inv (ctr, q)" "eq_pop q = Some (e, q')" "f \<in> set q"
  shows "ev_timestamp (ee_event e) \<le> ev_timestamp (ee_event f)"
proof -
  have "f = e \<or> f \<in> set q'"
    using eq_pop_inv(2) [OF assms(1,2)] assms(3) by (metis insert_iff set_mset_add_mset_insert set_mset_mset)
  then show ?thesis
  proof
    assume "f \<in> set q'"
    then have "eq_less e f" by (rule eq_pop_least [OF assms(1,2)])
    then show ?thesis by (auto simp: eq_less_def split: if_splits)
  qed simp
qed

end
