(* ===== verification/Scheduler.thy ===== *)
theory Scheduler
  imports Request_Model
begin

text \<open>
  The queue orderings of \<open>sim/scheduler.go\<close>: \<open>sort.SliceStable\<close> over the wait queue with the
  comparator of the policy. The stable sort is proved to permute, to order and to keep the
  order of equivalent elements for every weak order; each policy's comparator is then shown
  to be one, and to decide between any two requests, so that the order of the queue is a
  function of the set of waiting requests alone.
\<close>

section \<open>sort.SliceStable\<close>

fun stable_insert :: "('a \<Rightarrow> 'a \<Rightarrow> bool) \<Rightarrow> 'a \<Rightarrow> 'a list \<Rightarrow> 'a list" where
  "stable_insert lt x [] = [x]"
| "stable_insert lt x (y # ys) = (if lt y x then y # stable_insert lt x ys else x # y # ys)"

definition slice_stable :: "('a \<Rightarrow> 'a \<Rightarrow> bool) \<Rightarrow> 'a list \<Rightarrow> 'a list" where
  "slice_stable lt xs = foldr (stable_insert lt) xs []"

lemma mset_stable_insert: "mset (stable_insert lt x xs) = add_mset x (mset xs)"
  by (induction xs) auto

lemma mset_slice_stable [simp]: "mset (slice_stable lt xs) = mset xs"
  by (induction xs) (auto simp: slice_stable_def mset_stable_insert)

lemma length_slice_stable [simp]: "length (slice_stable lt xs) = length xs"
  by (metis mset_slice_stable size_mset)

lemma set_slice_stable [simp]: "set (slice_stable lt xs) = set xs"
  by (metis mset_slice_stable set_mset_mset)

lemma slice_stable_id: "sorted_wrt (\<lambda>a b. \<not> lt b a) xs \<Longrightarrow> slice_stable lt xs = xs"
proof (induction xs)
  case (Cons x xs)
  then show ?case by (cases xs) (auto simp: slice_stable_def)
qed (simp add: slice_stable_def)

context weak_order begin

lemma sorted_stable_insert:
  assumes "sorted_wrt (\<lambda>a b. \<not> lt b a) ys"
  shows "sorted_wrt (\<lambda>a b. \<not> lt b a) (stable_insert lt x ys)"
  using assms
proof (induction ys)
  case Nil
  then show ?case by simp
next
  case (Cons y ys)
  have "set (stable_insert lt x ys) = insert x (set ys)"
    by (metis mset_stable_insert set_mset_add_mset_insert set_mset_mset)
  then show ?case
  proof (cases "lt y x")
    case True
    then show ?thesis using Cons lt_asym [OF True] \<open>set (stable_insert lt x ys) = _\<close> by auto
  next
    case False
    then have "\<not> lt b x" if "b \<in> set ys" for b
      using Cons.prems that nlt_trans [of y x b] by simp
    then show ?thesis using Cons.prems False by simp
  qed
qed

lemma sorted_slice_stable: "sorted_wrt (\<lambda>a b. \<not> lt b a) (slice_stable lt xs)"
  by (induction xs) (auto simp: slice_stable_def sorted_stable_insert)

text \<open>Stability: the elements equivalent to any given one keep their order.\<close>

lemma stable_insert_filter:
  assumes "sorted_wrt (\<lambda>a b. \<not> lt b a) ys"
  shows "filter (\<lambda>y. \<not> lt y z \<and> \<not> lt z y) (stable_insert lt x ys) =
         filter (\<lambda>y. \<not> lt y z \<and> \<not> lt z y) (x # ys)"
  using assms
proof (induction ys)
  case (Cons y ys)
  show ?case
  proof (cases "lt y x")
    case True
    have "\<not> (\<not> lt x z \<and> \<not> lt z x \<and> \<not> lt y z \<and> \<not> lt z y)" using True nlt_trans by blast
    then show ?thesis using Cons True by auto
  qed simp
qed simp

lemma slice_stable_stable:
  "filter (\<lambda>y. \<not> lt y z \<and> \<not> lt z y) (slice_stable lt xs) = filter (\<lambda>y. \<not> lt y z \<and> \<not> lt z y) xs"
proof (induction xs)
  case (Cons x xs)
  have "slice_stable lt (x # xs) = stable_insert lt x (slice_stable lt xs)"
    by (simp add: slice_stable_def)
  then show ?case using Cons stable_insert_filter [OF sorted_slice_stable [of xs], of z x] by simp
qed (simp add: slice_stable_def)

end

context total_less begin

lemma slice_stable_perm: "mset xs = mset ys \<Longrightarrow> slice_stable lt xs = slice_stable lt ys"
  by (rule sorted_unique) (auto intro: sorted_slice_stable)

end

section \<open>The scheduling policies\<close>

datatype scheduler = FCFSScheduler | PriorityFCFSScheduler | SJFScheduler | ReversePriority

definition priority_fcfs_less :: "req_store \<Rightarrow> rid \<Rightarrow> rid \<Rightarrow> bool" where
  "priority_fcfs_less m i j =
     (if rq_priority (m i) \<noteq> rq_priority (m j) then rq_priority (m i) < rq_priority (m j)
      else if rq_arrival (m i) \<noteq> rq_arrival (m j) then rq_arrival (m i) < rq_arrival (m j)
      else i < j)"

definition sjf_less :: "req_store \<Rightarrow> rid \<Rightarrow> rid \<Rightarrow> bool" where
  "sjf_less m i j =
     (let li = input_len (m i); lj = input_len (m j) in
      if li \<noteq> lj then li < lj
      else if rq_arrival (m i) \<noteq> rq_arrival (m j) then rq_arrival (m i) < rq_arrival (m j)
      else i < j)"

definition reverse_priority_less :: "req_store \<Rightarrow> rid \<Rightarrow> rid \<Rightarrow> bool" where
  "reverse_priority_less m i j =
     (if rq_priority (m i) \<noteq> rq_priority (m j) then rq_priority (m i) > rq_priority (m j)
      else if rq_arrival (m i) \<noteq> rq_arrival (m j) then rq_arrival (m i) < rq_arrival (m j)
      else i < j)"

text \<open>\<open>OrderQueue\<close> of each policy; FCFS leaves the queue alone.\<close>

fun order_queue :: "scheduler \<Rightarrow> req_store \<Rightarrow> rid list \<Rightarrow> rid list" where
  "order_queue FCFSScheduler m q = q"
| "order_queue PriorityFCFSScheduler m q = slice_stable (priority_fcfs_less m) q"
| "order_queue SJFScheduler m q = slice_stable (sjf_less m) q"
| "order_queue ReversePriority m q = slice_stable (reverse_priority_less m) q"

definition new_scheduler :: "string \<Rightarrow> scheduler outcome" where
  "new_scheduler name =
     (if name = '''' \<or> name = ''fcfs'' then Inr FCFSScheduler
      else if name = ''priority-fcfs'' then Inr PriorityFCFSScheduler
      else if name = ''sjf'' then Inr SJFScheduler
      else if name = ''reverse-priority'' then Inr ReversePriority
      else Inl (Panic ''unknown scheduler''))"

interpretation pf: total_less "priority_fcfs_less m" for m
  by unfold_locales (auto simp: priority_fcfs_less_def split: if_splits)

interpretation sjf: total_less "sjf_less m" for m
  by unfold_locales (auto simp: sjf_less_def Let_def split: if_splits)

interpretation rp: total_less "reverse_priority_less m" for m
  by unfold_locales (auto simp: reverse_priority_less_def split: if_splits)

lemma mset_order_queue [simp]: "mset (order_queue s m q) = mset q"
  by (cases s) auto

lemma set_order_queue [simp]: "set (order_queue s m q) = set q"
  by (metis mset_order_queue set_mset_mset)

lemma length_order_queue [simp]: "length (order_queue s m q) = length q"
  by (metis mset_order_queue size_mset)

lemma distinct_order_queue [simp]: "distinct (order_queue s m q) = distinct q"
  using mset_order_queue mset_eq_imp_distinct_iff by blast

end
