(* ===== verification/Slo_Priority.thy ===== *)
theory Slo_Priority
  imports Sim_Prelude
begin

text \<open>
  The SLO priority map of \<open>sim/slo_priority.go\<close>: class names to integer priorities (higher is
  more important, negative is sheddable), its inversion to the engine's convention (lower is
  more urgent), and the facts the admission, gateway and scheduling components rest on. The
  Go map is an association list whose first binding of a key counts.
\<close>

record slo_map =
  sm_priorities :: "(string \<times> int) list"
  sm_default :: int
  sm_max :: int

text \<open>The loop that folds the largest priority of a map into a running maximum.\<close>

fun max_pri :: "int \<Rightarrow> (string \<times> int) list \<Rightarrow> int" where
  "max_pri m [] = m"
| "max_pri m ((_, p) # ps) = max_pri (if p > m then p else m) ps"

definition default_slo_map :: slo_map where
  "default_slo_map =
     (let priorities = [(''critical'', 4), (''standard'', 3), (''batch'', -1),
                        (''sheddable'', -2), (''background'', -3)]
      in \<lparr>sm_priorities = priorities, sm_default = 3, sm_max = max_pri 3 priorities\<rparr>)"

text \<open>\<open>m.priorities[k] = v\<close>: overwrite the binding of a key, or add one.\<close>

fun pri_update :: "string \<Rightarrow> int \<Rightarrow> (string \<times> int) list \<Rightarrow> (string \<times> int) list" where
  "pri_update k v [] = [(k, v)]"
| "pri_update k v ((k', v') # ps) = (if k' = k then (k, v) # ps else (k', v') # pri_update k v ps)"

fun apply_overrides :: "(string \<times> int) list \<Rightarrow> (string \<times> int) list \<Rightarrow> (string \<times> int) list outcome" where
  "apply_overrides ps [] = Inr ps"
| "apply_overrides ps ((k, v) # os) =
     (if v < -100 \<or> v > 100 then Inl (Panic ''NewSLOPriorityMap: override out of range'')
      else apply_overrides (pri_update k v ps) os)"

definition new_slo_map :: "(string \<times> int) list \<Rightarrow> slo_map outcome" where
  "new_slo_map overrides =
     (let m = default_slo_map in
      case apply_overrides (sm_priorities m) overrides of
        Inl e \<Rightarrow> Inl e
      | Inr ps \<Rightarrow> Inr (m\<lparr>sm_priorities := ps, sm_max := max_pri (sm_default m) ps\<rparr>))"

definition slo_priority :: "slo_map \<Rightarrow> string \<Rightarrow> int" where
  "slo_priority m c = (case map_of (sm_priorities m) c of Some p \<Rightarrow> p | None \<Rightarrow> sm_default m)"

definition is_sheddable :: "slo_map \<Rightarrow> string \<Rightarrow> bool" where
  "is_sheddable m c \<longleftrightarrow> slo_priority m c < 0"

definition invert_for_vllm :: "slo_map \<Rightarrow> string \<Rightarrow> int" where
  "invert_for_vllm m c = sm_max m - slo_priority m c"

text \<open>A well-formed map carries the maximum of its priorities and its default.\<close>

definition slo_wf :: "slo_map \<Rightarrow> bool" where
  "slo_wf m \<longleftrightarrow> sm_max m = max_pri (sm_default m) (sm_priorities m)"

lemma max_pri_ge: "m \<le> max_pri m ps"
proof (induction m ps rule: max_pri.induct)
  case (2 m c p ps)
  have "m \<le> (if p > m then p else m)" by simp
  also have "\<dots> \<le> max_pri (if p > m then p else m) ps" by (rule 2)
  finally show ?case by simp
qed simp

lemma max_pri_bound: "(c, p) \<in> set ps \<Longrightarrow> p \<le> max_pri m ps"
proof (induction m ps rule: max_pri.induct)
  case (2 m c' p' ps)
  have "p' \<le> (if p' > m then p' else m)" by simp
  also have "\<dots> \<le> max_pri (if p' > m then p' else m) ps" by (rule max_pri_ge)
  finally show ?case using 2 by auto
qed simp

lemma slo_wf_default: "slo_wf default_slo_map"
  by (simp add: slo_wf_def default_slo_map_def)

lemma slo_wf_new: "new_slo_map os = Inr m \<Longrightarrow> slo_wf m"
  by (auto simp: new_slo_map_def Let_def slo_wf_def split: sum.splits)

lemma slo_priority_le_max: "slo_wf m \<Longrightarrow> slo_priority m c \<le> sm_max m"
  using max_pri_ge max_pri_bound
  by (auto simp: slo_wf_def slo_priority_def split: option.split dest!: map_of_SomeD)

lemma invert_nonneg: "slo_wf m \<Longrightarrow> 0 \<le> invert_for_vllm m c"
  using slo_priority_le_max by (simp add: invert_for_vllm_def)

lemma invert_antitone: "invert_for_vllm m c < invert_for_vllm m d \<longleftrightarrow> slo_priority m d < slo_priority m c"
  by (simp add: invert_for_vllm_def)

lemma map_of_pri_update: "map_of (pri_update k v ps) = (map_of ps)(k \<mapsto> v)"
  by (induction k v ps rule: pri_update.induct) (auto simp: fun_eq_iff)

text \<open>The last override of a class is its priority, every other class keeps its own.\<close>

lemma apply_overrides_map_of:
  "apply_overrides ps os = Inr qs \<Longrightarrow> map_of qs = map_of ps ++ map_of (rev os)"
proof (induction ps os arbitrary: qs rule: apply_overrides.induct)
  case (1 ps)
  then show ?case by simp
next
  case (2 ps k v os)
  then have "map_of qs = map_of (pri_update k v ps) ++ map_of (rev os)" by (auto split: if_splits)
  then show ?case by (simp add: map_of_pri_update)
qed

end
