(* ===== verification/Go_Map.thy ===== *)
theory Go_Map
  imports Sim_Prelude "HOL-Library.AList"
begin

text \<open>
  Go maps whose size the code reads: association lists with one entry per key, so that
  \<open>len(m)\<close> computes. A lookup is \<open>map_of\<close>, an assignment \<open>AList.update\<close>, \<open>delete\<close> is
  \<open>AList.delete\<close>; the order of the entries, which Go leaves open, is read by no definition.
\<close>

type_synonym ('k, 'v) go_map = "('k \<times> 'v) list"

definition gm_len :: "('k, 'v) go_map \<Rightarrow> int" where
  "gm_len m = int (length m)"

abbreviation gm_keys :: "('k, 'v) go_map \<Rightarrow> 'k list" where
  "gm_keys m \<equiv> map fst m"

lemma gm_get_update [simp]: "map_of (AList.update k v m) = (map_of m)(k \<mapsto> v)"
  by (rule update_conv')

lemma gm_get_delete [simp]: "map_of (AList.delete k m) = (map_of m)(k := None)"
  by (rule delete_conv')

lemma gm_keys_set: "set (gm_keys m) = dom (map_of m)"
  by (simp add: dom_map_of_conv_image_fst)

lemma gm_len_card: "distinct (gm_keys m) \<Longrightarrow> gm_len m = int (card (dom (map_of m)))"
  by (simp add: gm_len_def flip: gm_keys_set) (metis distinct_card length_map list.set_map)

lemma gm_len_eq:
  assumes "distinct (gm_keys m)" "distinct xs" "set xs = dom (map_of m)"
  shows "gm_len m = int (length xs)"
  using gm_len_card [OF assms(1)] distinct_card [OF assms(2)] assms(3) by simp

lemma gm_delete_keys: "gm_keys (AList.delete k m) = removeAll k (gm_keys m)"
  by (rule delete_keys)

lemma gm_delete_remove1: "distinct (gm_keys m) \<Longrightarrow> gm_keys (AList.delete k m) = remove1 k (gm_keys m)"
  by (simp add: gm_delete_keys distinct_remove1_removeAll)

lemma gm_update_keys: "gm_keys (AList.update k v m) = (if k \<in> set (gm_keys m) then gm_keys m else gm_keys m @ [k])"
  by (rule update_keys)

lemma gm_update_distinct: "distinct (gm_keys m) \<Longrightarrow> distinct (gm_keys (AList.update k v m))"
  by (rule distinct_update)

lemma gm_delete_distinct: "distinct (gm_keys m) \<Longrightarrow> distinct (gm_keys (AList.delete k m))"
  by (rule distinct_delete)

lemma gm_delete_length:
  assumes "distinct (gm_keys m)"
  shows "length (AList.delete k m) = (if k \<in> set (gm_keys m) then length m - 1 else length m)"
  using gm_delete_remove1 [OF assms, of k] by (metis length_map length_remove1)

lemma gm_update_length:
  "length (AList.update k v m) = (if k \<in> set (gm_keys m) then length m else Suc (length m))"
  using gm_update_keys [of k v m] by (metis length_map length_append_singleton)

lemma gm_get_in: "map_of m k = Some v \<Longrightarrow> k \<in> set (gm_keys m)"
  unfolding gm_keys_set by (rule domI)

lemma gm_update_present: "map_of m k = Some v \<Longrightarrow> gm_keys (AList.update k w m) = gm_keys m"
  using gm_get_in [of m k v] by (simp only: gm_update_keys if_True)

lemma gm_get_None: "map_of m k = None \<longleftrightarrow> k \<notin> set (gm_keys m)"
  unfolding gm_keys_set by (simp add: domIff)

lemma gm_delete_notin: "map_of m k = None \<Longrightarrow> AList.delete k m = m"
  by (rule delete_id) (simp add: gm_get_None)

lemma gm_get_snoc: "k \<notin> set (gm_keys m) \<Longrightarrow> map_of (m @ [(k, v)]) = (map_of m)(k \<mapsto> v)"
  unfolding gm_get_None [symmetric] by (auto simp: map_add_def fun_eq_iff split: option.split)

text \<open>How \<open>len\<close> changes with an assignment and a deletion.\<close>

lemma gm_len_delete:
  assumes "distinct (gm_keys m)"
  shows "gm_len (AList.delete k m) = (if map_of m k = None then gm_len m else gm_len m - 1)"
proof (cases "k \<in> set (gm_keys m)")
  case True
  then have "length (gm_keys m) > 0" by (rule length_pos_if_in_set)
  then have "int (length m - 1) = int (length m) - 1" by (cases m) auto
  moreover have "map_of m k \<noteq> None" using True gm_get_None by metis
  ultimately show ?thesis using True gm_delete_length [OF assms, of k] by (simp add: gm_len_def)
next
  case False
  then have n: "map_of m k = None" by (simp only: gm_get_None) simp
  then show ?thesis using gm_delete_notin [OF n] by simp
qed

lemma gm_len_update: "gm_len (AList.update k v m) = (if map_of m k = None then gm_len m + 1 else gm_len m)"
  using gm_update_length [of k v m] gm_get_None [of m k] by (simp add: gm_len_def)

lemma gm_len_nonneg [simp]: "0 \<le> gm_len m"
  by (simp add: gm_len_def)

section \<open>Sums over the values of a map\<close>

definition gm_sum :: "('v \<Rightarrow> 'a::comm_monoid_add) \<Rightarrow> ('k, 'v) go_map \<Rightarrow> 'a" where
  "gm_sum f m = (\<Sum>e\<leftarrow>m. f (snd e))"

lemma gm_sum_Nil [simp]: "gm_sum f [] = 0"
  by (simp add: gm_sum_def)

lemma gm_sum_Cons [simp]: "gm_sum f (e # m) = f (snd e) + gm_sum f m"
  by (simp add: gm_sum_def)

lemma gm_sum_update_fresh: "map_of m k = None \<Longrightarrow> gm_sum f (AList.update k v m) = gm_sum f m + f v"
  by (induction m) (auto simp: ac_simps split: if_splits)

lemma gm_sum_delete:
  "distinct (gm_keys m) \<Longrightarrow> map_of m k = Some v \<Longrightarrow> gm_sum f m = gm_sum f (AList.delete k m) + f v"
proof (induction m)
  case (Cons e m)
  show ?case
  proof (cases "fst e = k")
    case True
    then have "map_of m k = None" using Cons.prems(1) by (simp add: gm_get_None)
    then show ?thesis using True Cons.prems gm_delete_notin [of m k] by (cases e) (simp add: ac_simps)
  next
    case False
    then show ?thesis using Cons by (cases e) (simp add: ac_simps)
  qed
qed simp

lemma gm_sum_update:
  "distinct (gm_keys m) \<Longrightarrow> map_of m k = Some v \<Longrightarrow> gm_sum f (AList.update k w m) + f v = gm_sum f m + f w"
proof (induction m)
  case (Cons e m)
  show ?case
  proof (cases "fst e = k")
    case True
    then show ?thesis using Cons.prems by (cases e) (simp add: ac_simps)
  next
    case False
    then show ?thesis using Cons by (cases e) (simp add: ac_simps)
  qed
qed simp

end
