(* ===== verification/Resident_Set.thy ===== *)
theory Resident_Set
  imports Linked_List Go_Map
begin

text \<open>
  The resident LoRA adapters of an instance (\<open>sim/lora/resident_set.go\<close>): a capacity-bounded
  LRU over adapter ids whose pinned entries are never evicted. A node of the linked list is
  addressed by its adapter id; its \<open>pinCount\<close> is the value of the id in the map, since an
  entry is in the map exactly while it is on the list. The specification is the list of
  (id, pins) pairs from least to most recently used; every operation refines one on that list.
\<close>

section \<open>The code\<close>

record resident_set =
  rs_capacity :: int
  rs_entries :: "(string, nat) go_map"
  rs_links :: "string dll"

definition new_resident_set :: "int \<Rightarrow> resident_set outcome" where
  "new_resident_set cap =
     (if cap \<le> 0 then Inl (Panic ''newResidentSet: capacity must be > 0'')
      else Inr \<lparr>rs_capacity = cap, rs_entries = [], rs_links = dll_empty\<rparr>)"

definition rs_len :: "resident_set \<Rightarrow> int" where
  "rs_len s = gm_len (rs_entries s)"

definition rs_at_capacity :: "resident_set \<Rightarrow> bool" where
  "rs_at_capacity s = (gm_len (rs_entries s) \<ge> rs_capacity s)"

text \<open>The walks return \<open>None\<close> when the list is cyclic, which the invariant excludes.\<close>

definition rs_resident_ids :: "resident_set \<Rightarrow> string list option" where
  "rs_resident_ids s =
     (if gm_len (rs_entries s) = 0 then Some [] else dll_walk (dl_next (rs_links s)) (dl_head (rs_links s)))"

definition rs_is_resident :: "string \<Rightarrow> resident_set \<Rightarrow> bool" where
  "rs_is_resident k s = (map_of (rs_entries s) k \<noteq> None)"

definition rs_unlink :: "string \<Rightarrow> resident_set \<Rightarrow> resident_set" where
  "rs_unlink k s = s\<lparr>rs_links := dll_unlink k (rs_links s)\<rparr>"

definition rs_append :: "string \<Rightarrow> resident_set \<Rightarrow> resident_set" where
  "rs_append k s = s\<lparr>rs_links := dll_append k (rs_links s)\<rparr>"

definition rs_touch :: "string \<Rightarrow> resident_set \<Rightarrow> resident_set" where
  "rs_touch k s = (case map_of (rs_entries s) k of None \<Rightarrow> s | Some _ \<Rightarrow> rs_append k (rs_unlink k s))"

definition rs_pins :: "resident_set \<Rightarrow> string \<Rightarrow> nat" where
  "rs_pins s k = (case map_of (rs_entries s) k of None \<Rightarrow> 0 | Some p \<Rightarrow> p)"

definition rs_evict :: "resident_set \<Rightarrow> ((string \<times> bool) \<times> resident_set) option" where
  "rs_evict s = Option.bind (dll_find (\<lambda>k. rs_pins s k = 0) (dl_next (rs_links s)) (dl_head (rs_links s)))
     (\<lambda>found. Some (case found of
         None \<Rightarrow> (('''', False), s)
       | Some k \<Rightarrow> (let s1 = rs_unlink k s
                  in ((k, True), s1\<lparr>rs_entries := AList.delete k (rs_entries s1)\<rparr>))))"

definition rs_store :: "string \<Rightarrow> resident_set \<Rightarrow> ((string \<times> bool) \<times> resident_set) option" where
  "rs_store k s =
     (if map_of (rs_entries s) k \<noteq> None then Some (('''', True), rs_touch k s)
      else Option.bind (if gm_len (rs_entries s) \<ge> rs_capacity s then rs_evict s else Some (('''', True), s))
             (\<lambda>((evicted, ok), s1).
                if \<not> ok then Some (('''', False), s1)
                else Some ((evicted, True), rs_append k (s1\<lparr>rs_entries := AList.update k 0 (rs_entries s1)\<rparr>))))"

definition rs_pin :: "string \<Rightarrow> resident_set \<Rightarrow> resident_set" where
  "rs_pin k s = (case map_of (rs_entries s) k of
       None \<Rightarrow> s | Some p \<Rightarrow> s\<lparr>rs_entries := AList.update k (p + 1) (rs_entries s)\<rparr>)"

definition rs_unpin :: "string \<Rightarrow> resident_set \<Rightarrow> resident_set" where
  "rs_unpin k s = (case map_of (rs_entries s) k of
       None \<Rightarrow> s | Some p \<Rightarrow> if p > 0 then s\<lparr>rs_entries := AList.update k (p - 1) (rs_entries s)\<rparr> else s)"

section \<open>The specification\<close>

type_synonym slots = "(string \<times> nat) list"

definition sp_touch :: "string \<Rightarrow> slots \<Rightarrow> slots" where
  "sp_touch k ls = (case map_of ls k of None \<Rightarrow> ls | Some p \<Rightarrow> AList.delete k ls @ [(k, p)])"

text \<open>The victim: the first entry in LRU order that nobody pins.\<close>

definition sp_victim :: "slots \<Rightarrow> string option" where
  "sp_victim ls = map_option fst (find (\<lambda>(_, p). p = 0) ls)"

definition sp_store :: "int \<Rightarrow> string \<Rightarrow> slots \<Rightarrow> (string \<times> bool) \<times> slots" where
  "sp_store cap k ls =
     (if map_of ls k \<noteq> None then (('''', True), sp_touch k ls)
      else if int (length ls) < cap then (('''', True), ls @ [(k, 0)])
      else case sp_victim ls of
             None \<Rightarrow> (('''', False), ls)
           | Some v \<Rightarrow> ((v, True), AList.delete v ls @ [(k, 0)]))"

definition sp_evict :: "slots \<Rightarrow> (string \<times> bool) \<times> slots" where
  "sp_evict ls = (case sp_victim ls of None \<Rightarrow> (('''', False), ls) | Some v \<Rightarrow> ((v, True), AList.delete v ls))"

definition sp_set_pins :: "string \<Rightarrow> (nat \<Rightarrow> nat) \<Rightarrow> slots \<Rightarrow> slots" where
  "sp_set_pins k f ls = map (\<lambda>(j, p). (j, if j = k then f p else p)) ls"

text \<open>The abstraction: the slots a resident set holds, read off its list and its map.\<close>

definition rs_slots :: "resident_set \<Rightarrow> slots" where
  "rs_slots s = (case rs_resident_ids s of None \<Rightarrow> [] | Some ids \<Rightarrow> map (\<lambda>k. (k, rs_pins s k)) ids)"

section \<open>Refinement\<close>

definition rs_rel :: "resident_set \<Rightarrow> slots \<Rightarrow> bool" where
  "rs_rel s ls \<longleftrightarrow> dll_list (rs_links s) (map fst ls) \<and> distinct (gm_keys (rs_entries s)) \<and>
     map_of (rs_entries s) = map_of ls \<and> int (length ls) \<le> rs_capacity s \<and> 0 < rs_capacity s"

lemma rs_rel_distinct: "rs_rel s ls \<Longrightarrow> distinct (map fst ls)"
  by (auto simp: rs_rel_def dll_list_def)

lemma rs_rel_len: "rs_rel s ls \<Longrightarrow> gm_len (rs_entries s) = int (length ls)"
  using gm_len_eq [of "rs_entries s" "map fst ls"] rs_rel_distinct [of s ls]
  by (simp add: rs_rel_def dom_map_of_conv_image_fst)

lemma rs_rel_new: "new_resident_set cap = Inr s \<Longrightarrow> rs_rel s [] \<and> rs_capacity s = cap"
  by (auto simp: new_resident_set_def rs_rel_def dll_list_empty split: if_splits)

lemma rs_rel_walk: "rs_rel s ls \<Longrightarrow> rs_resident_ids s = Some (map fst ls)"
  using rs_rel_len [of s ls] dll_walk_list [of "rs_links s" "map fst ls"]
  by (auto simp: rs_resident_ids_def rs_rel_def)

lemma rs_rel_touch:
  assumes "rs_rel s ls"
  shows "rs_rel (rs_touch k s) (sp_touch k ls)"
proof (cases "map_of ls k")
  case None
  then show ?thesis using assms by (simp add: rs_touch_def sp_touch_def rs_rel_def)
next
  case (Some p)
  have d: "distinct (map fst ls)" and k: "k \<in> set (map fst ls)"
    using rs_rel_distinct [OF assms] gm_get_in [OF Some] by simp_all
  have "map_of (AList.delete k ls @ [(k, p)]) = map_of ls"
    using Some by (subst gm_get_snoc) (simp_all add: gm_delete_keys fun_upd_idem)
  moreover have "length (AList.delete k ls @ [(k, p)]) = length ls"
    using gm_delete_length [OF d, of k] k by (auto intro: Suc_pred length_pos_if_in_set simp del: length_map simp flip: length_map [of fst ls])
  moreover have "dll_list (dll_append k (dll_unlink k (rs_links s))) (map fst (AList.delete k ls @ [(k, p)]))"
    using dll_touch_list [of "rs_links s" "map fst ls" k] assms k gm_delete_remove1 [OF d, of k] by (simp add: rs_rel_def)
  ultimately show ?thesis
    using assms Some by (simp add: rs_touch_def sp_touch_def rs_rel_def rs_append_def rs_unlink_def)
qed

lemma rs_pins_eq: "rs_rel s ls \<Longrightarrow> rs_pins s k = (case map_of ls k of None \<Rightarrow> 0 | Some p \<Rightarrow> p)"
  by (simp add: rs_pins_def rs_rel_def)

lemma find_map_of:
  assumes "distinct (map fst ls)"
  shows "find (\<lambda>k. (case map_of ls k of None \<Rightarrow> 0 | Some p \<Rightarrow> p) = (0 :: nat)) (map fst ls) = sp_victim ls"
proof -
  have "find (\<lambda>k. (case map_of ls k of None \<Rightarrow> 0 | Some p \<Rightarrow> p) = (0 :: nat)) (map fst ms) =
        map_option fst (find (\<lambda>(_, p). p = 0) ms)" if "set ms \<subseteq> set ls" for ms
    using that assms
  proof (induction ms)
    case (Cons x ms)
    then have "map_of ls (fst x) = Some (snd x)" by (simp add: map_of_eq_Some_iff)
    then show ?case using Cons by (cases x) simp
  qed simp
  then show ?thesis by (simp add: sp_victim_def)
qed

lemma sp_victim_SomeD: "sp_victim ls = Some v \<Longrightarrow> (v, 0) \<in> set ls"
  by (auto simp: sp_victim_def find_Some_iff in_set_conv_nth)

lemma rs_evict_eq:
  assumes "rs_rel s ls"
  shows "rs_evict s = Some (case sp_victim ls of
      None \<Rightarrow> (('''', False), s)
    | Some v \<Rightarrow> ((v, True), (rs_unlink v s)\<lparr>rs_entries := AList.delete v (rs_entries s)\<rparr>))"
proof -
  have l: "dll_list (rs_links s) (map fst ls)" using assms by (simp add: rs_rel_def)
  show ?thesis
    unfolding rs_evict_def dll_find_list [OF l] rs_pins_eq [OF assms] find_map_of [OF rs_rel_distinct [OF assms]]
    by (simp add: Let_def rs_unlink_def split: option.split)
qed

lemma rs_rel_delete:
  assumes "rs_rel s ls" "v \<in> set (map fst ls)"
  shows "rs_rel ((rs_unlink v s)\<lparr>rs_entries := AList.delete v (rs_entries s)\<rparr>) (AList.delete v ls)"
    "length (AList.delete v ls) = length ls - 1" "0 < length ls"
proof -
  note d = rs_rel_distinct [OF assms(1)]
  show "length (AList.delete v ls) = length ls - 1" "0 < length ls"
    using gm_delete_length [OF d, of v] assms(2) by auto
  moreover have "int (length ls - 1) \<le> rs_capacity s" using assms(1) by (auto simp: rs_rel_def)
  ultimately show "rs_rel ((rs_unlink v s)\<lparr>rs_entries := AList.delete v (rs_entries s)\<rparr>) (AList.delete v ls)"
    using assms dll_unlink_list [of "rs_links s" "map fst ls" v] gm_delete_remove1 [OF d, of v]
    by (simp add: rs_rel_def rs_unlink_def gm_delete_distinct)
qed

lemma rs_rel_insert:
  assumes "rs_rel s ls" "k \<notin> set (map fst ls)" "int (length ls) < rs_capacity s"
  shows "rs_rel (rs_append k (s\<lparr>rs_entries := AList.update k 0 (rs_entries s)\<rparr>)) (ls @ [(k, 0)])"
  using assms dll_append_list [of "rs_links s" "map fst ls" k] gm_get_snoc [OF assms(2), of 0]
  by (simp add: rs_rel_def rs_append_def gm_update_distinct)

lemma rs_store_ok:
  assumes "rs_rel s ls" "sp_store (rs_capacity s) k ls = (res, ls')"
  shows "\<exists>s'. rs_store k s = Some (res, s') \<and> rs_rel s' ls' \<and> rs_capacity s' = rs_capacity s"
proof (cases "map_of ls k = None")
  case False
  then show ?thesis
    using assms rs_rel_touch [OF assms(1), of k]
    by (auto simp: rs_store_def sp_store_def rs_rel_def rs_touch_def rs_append_def rs_unlink_def split: option.splits)
next
  case absent: True
  then have k: "k \<notin> set (map fst ls)" by (simp add: map_of_eq_None_iff)
  have e: "map_of (rs_entries s) k = None" using assms(1) absent by (simp add: rs_rel_def)
  note len = rs_rel_len [OF assms(1)]
  show ?thesis
  proof (cases "int (length ls) < rs_capacity s")
    case True
    then show ?thesis
      using assms e absent rs_rel_insert [OF assms(1) k True] len
      by (auto simp: rs_store_def sp_store_def rs_append_def)
  next
    case full: False
    show ?thesis
    proof (cases "sp_victim ls")
      case None
      then show ?thesis
        using assms e absent full len rs_evict_eq [OF assms(1)] None by (auto simp: rs_store_def sp_store_def)
    next
      case (Some v)
      let ?s = "(rs_unlink v s)\<lparr>rs_entries := AList.delete v (rs_entries s)\<rparr>"
      have v: "v \<in> set (map fst ls)" using sp_victim_SomeD [OF Some] by force
      note del = rs_rel_delete [OF assms(1) v]
      have "rs_rel (rs_append k (?s\<lparr>rs_entries := AList.update k 0 (rs_entries ?s)\<rparr>)) (AList.delete v ls @ [(k, 0)])"
      proof (rule rs_rel_insert [OF del(1)])
        show "k \<notin> set (map fst (AList.delete v ls))" using k by (simp add: gm_delete_keys)
        show "int (length (AList.delete v ls)) < rs_capacity ?s"
          using del(2,3) assms(1) unfolding rs_unlink_def rs_rel_def by (simp add: of_nat_diff; linarith)
      qed
      moreover have "((v, True), AList.delete v ls @ [(k, 0)]) = (res, ls')"
        using assms(2) Some full absent by (simp add: sp_store_def)
      ultimately show ?thesis
        using e full len rs_evict_eq [OF assms(1)] Some by (auto simp: rs_store_def rs_append_def rs_unlink_def)
    qed
  qed
qed

lemma map_of_set_pins: "map_of (sp_set_pins k f ls) = (\<lambda>j. if j = k then map_option f (map_of ls j) else map_of ls j)"
  by (induction ls) (auto simp: sp_set_pins_def fun_eq_iff)

lemma keys_set_pins [simp]: "map fst (sp_set_pins k f ls) = map fst ls"
  by (induction ls) (auto simp: sp_set_pins_def)

lemma length_set_pins [simp]: "length (sp_set_pins k f ls) = length ls"
  by (simp add: sp_set_pins_def)

lemma rs_rel_set_pins:
  assumes "rs_rel s ls" "map_of (rs_entries s) k = Some p"
  shows "rs_rel (s\<lparr>rs_entries := AList.update k (f p) (rs_entries s)\<rparr>) (sp_set_pins k f ls)"
  using assms by (auto simp: rs_rel_def map_of_set_pins gm_update_distinct fun_eq_iff)

lemma sp_set_pins_absent: "map_of ls k = None \<Longrightarrow> sp_set_pins k f ls = ls"
  by (induction ls) (auto simp: sp_set_pins_def split: if_splits)

lemma sp_set_pins_id: "(\<And>p. map_of ls k = Some p \<Longrightarrow> f p = p) \<Longrightarrow> distinct (map fst ls) \<Longrightarrow> sp_set_pins k f ls = ls"
  unfolding sp_set_pins_def by (rule map_idI) (auto simp: map_of_eq_Some_iff)

lemma rs_rel_pin:
  assumes "rs_rel s ls"
  shows "rs_rel (rs_pin k s) (sp_set_pins k Suc ls)"
proof (cases "map_of (rs_entries s) k")
  case None
  then have "map_of ls k = None" using assms by (simp add: rs_rel_def)
  then show ?thesis using assms None by (simp add: rs_pin_def sp_set_pins_absent)
next
  case (Some p)
  then show ?thesis using rs_rel_set_pins [OF assms Some, of Suc] by (simp add: rs_pin_def)
qed

lemma rs_rel_unpin:
  assumes "rs_rel s ls"
  shows "rs_rel (rs_unpin k s) (sp_set_pins k (\<lambda>p. p - 1) ls)"
proof (cases "map_of (rs_entries s) k")
  case None
  then have "map_of ls k = None" using assms by (simp add: rs_rel_def)
  then show ?thesis using assms None by (simp add: rs_unpin_def sp_set_pins_absent)
next
  case (Some p)
  then show ?thesis
  proof (cases "p > 0")
    case False
    then have "sp_set_pins k (\<lambda>p. p - 1) ls = ls"
      using assms Some by (intro sp_set_pins_id rs_rel_distinct [OF assms]) (auto simp: rs_rel_def)
    then show ?thesis using assms Some False by (simp add: rs_unpin_def)
  qed (use rs_rel_set_pins [OF assms Some, of "\<lambda>p. p - 1"] in \<open>simp add: rs_unpin_def\<close>)
qed

lemmas rs_rel_ops = rs_rel_touch rs_rel_pin rs_rel_unpin

section \<open>Reachable sets\<close>

inductive rs_run :: "int \<Rightarrow> resident_set \<Rightarrow> bool" for cap where
  start: "new_resident_set cap = Inr s \<Longrightarrow> rs_run cap s"
| touch: "rs_run cap s \<Longrightarrow> rs_run cap (rs_touch k s)"
| pin: "rs_run cap s \<Longrightarrow> rs_run cap (rs_pin k s)"
| unpin: "rs_run cap s \<Longrightarrow> rs_run cap (rs_unpin k s)"
| evict: "rs_run cap s \<Longrightarrow> rs_evict s = Some (res, s') \<Longrightarrow> rs_run cap s'"
| store: "rs_run cap s \<Longrightarrow> rs_store k s = Some (res, s') \<Longrightarrow> rs_run cap s'"

lemma rs_capacity_ops [simp]:
  "rs_capacity (rs_touch k s) = rs_capacity s" "rs_capacity (rs_pin k s) = rs_capacity s"
  "rs_capacity (rs_unpin k s) = rs_capacity s" "rs_capacity (rs_unlink k s) = rs_capacity s"
  "rs_capacity (rs_append k s) = rs_capacity s"
  by (auto simp: rs_touch_def rs_pin_def rs_unpin_def rs_append_def rs_unlink_def split: option.splits)

lemma rs_run_rel: "rs_run cap s \<Longrightarrow> rs_capacity s = cap \<and> (\<exists>ls. rs_rel s ls)"
proof (induction rule: rs_run.induct)
  case (start s)
  then show ?case using rs_rel_new by blast
next
  case (evict s res s')
  then obtain ls where ls: "rs_rel s ls" "rs_capacity s = cap" by blast
  show ?case
  proof (cases "sp_victim ls")
    case None
    then show ?thesis using evict(2) rs_evict_eq [OF ls(1)] ls by auto
  next
    case (Some v)
    then have "v \<in> set (map fst ls)" using sp_victim_SomeD by force
    then show ?thesis using evict(2) rs_evict_eq [OF ls(1)] Some rs_rel_delete(1) [OF ls(1)] ls(2) by auto
  qed
next
  case (store s k res s')
  then obtain ls where ls: "rs_rel s ls" "rs_capacity s = cap" by blast
  obtain res' ls' where "sp_store (rs_capacity s) k ls = (res', ls')" by fastforce
  from rs_store_ok [OF ls(1) this] show ?case using store(2) ls(2) by auto
qed (use rs_rel_touch rs_rel_pin rs_rel_unpin in \<open>simp; blast\<close>)+

section \<open>Properties\<close>

lemma rs_rel_resident: "rs_rel s ls \<Longrightarrow> rs_is_resident k s \<longleftrightarrow> k \<in> set (map fst ls)"
  unfolding rs_is_resident_def rs_rel_def by (metis gm_get_None)

lemma sp_victim_split:
  assumes "sp_victim ls = Some v"
  shows "\<exists>xs ys. ls = xs @ (v, 0) # ys \<and> (\<forall>(k, p) \<in> set xs. 0 < p)"
proof -
  obtain x where f: "find (\<lambda>(_, p). p = 0) ls = Some x" and v: "fst x = v" using assms by (auto simp: sp_victim_def)
  then obtain i where i: "i < length ls" "x = ls ! i" "snd x = 0" "\<forall>j < i. snd (ls ! j) \<noteq> 0"
    by (auto simp: find_Some_iff case_prod_beta)
  have x: "ls ! i = (v, 0)" using i(2,3) v by (metis prod.collapse)
  have "ls = take i ls @ (v, 0) # drop (Suc i) ls" using id_take_nth_drop [OF i(1)] unfolding x .
  moreover have "\<forall>(k, p) \<in> set (take i ls). 0 < p"
  proof (clarify)
    fix k p assume "(k, p) \<in> set (take i ls)"
    then obtain j where "j < length (take i ls)" "take i ls ! j = (k, p)" by (meson in_set_conv_nth)
    then have "j < i" "ls ! j = (k, p)" by auto
    then show "0 < p" using i(4) by (metis gr0I snd_conv)
  qed
  ultimately show ?thesis by blast
qed





section \<open>Refinement of the slots\<close>

lemma rs_rel_slots:
  assumes "rs_rel s ls"
  shows "rs_slots s = ls"
proof -
  have "map (\<lambda>k. (k, case map_of ls k of None \<Rightarrow> 0 | Some p \<Rightarrow> p)) (map fst ls) = ls"
    using rs_rel_distinct [OF assms] by (auto intro!: map_idI simp: map_of_eq_Some_iff split_beta)
  then show ?thesis by (simp add: rs_slots_def rs_rel_walk [OF assms] rs_pins_eq [OF assms])
qed

lemma rs_evict_slots:
  assumes "rs_rel s ls"
  shows "\<exists>s'. rs_evict s = Some (fst (sp_evict ls), s') \<and> rs_slots s' = snd (sp_evict ls)"
proof (cases "sp_victim ls")
  case None
  then show ?thesis using rs_evict_eq [OF assms] rs_rel_slots [OF assms] by (simp add: sp_evict_def)
next
  case (Some v)
  then have "v \<in> set (map fst ls)" using sp_victim_SomeD by force
  from rs_rel_slots [OF rs_rel_delete(1) [OF assms this]] show ?thesis
    using Some rs_evict_eq [OF assms] by (simp add: sp_evict_def)
qed

text \<open>C16 Adapter slots (INV-L2, INV-L5), as a functional refinement: a new resident set has no slots, and
  on every reachable set each pointer-level operation acts on the slots read off it as its
  specification on lists does, which moves a touched adapter to the recent end, changes the pins of one
  adapter, evicts the least recent adapter that nobody pins, and stores an adapter at the recent end,
  evicting only when all slots are taken. The set holds its slots and no more than its capacity of them.\<close>

theorem resident_set_refines:
  assumes "rs_run cap s"
  shows "(\<forall>s0. new_resident_set cap = Inr s0 \<longrightarrow> rs_slots s0 = []) \<and>
    rs_slots (rs_touch k s) = sp_touch k (rs_slots s) \<and>
    rs_slots (rs_pin k s) = sp_set_pins k Suc (rs_slots s) \<and>
    rs_slots (rs_unpin k s) = sp_set_pins k (\<lambda>p. p - 1) (rs_slots s) \<and>
    (\<exists>s'. rs_evict s = Some (fst (sp_evict (rs_slots s)), s') \<and> rs_slots s' = snd (sp_evict (rs_slots s))) \<and>
    (\<exists>s'. rs_store k s = Some (fst (sp_store cap k (rs_slots s)), s') \<and> rs_slots s' = snd (sp_store cap k (rs_slots s))) \<and>
    rs_resident_ids s = Some (map fst (rs_slots s)) \<and> distinct (map fst (rs_slots s)) \<and>
    (rs_is_resident k s \<longleftrightarrow> k \<in> fst ` set (rs_slots s)) \<and> rs_len s = int (length (rs_slots s)) \<and> rs_len s \<le> cap"
proof -
  obtain ls where ls: "rs_rel s ls" "rs_capacity s = cap" using rs_run_rel [OF assms] by blast
  note sl = rs_rel_slots [OF ls(1)]
  have new: "\<forall>s0. new_resident_set cap = Inr s0 \<longrightarrow> rs_slots s0 = []" using rs_rel_new rs_rel_slots by blast
  have store: "\<exists>s'. rs_store k s = Some (fst (sp_store cap k ls), s') \<and> rs_slots s' = snd (sp_store cap k ls)"
    using rs_store_ok [OF ls(1), of k "fst (sp_store cap k ls)" "snd (sp_store cap k ls)"] rs_rel_slots ls(2) by auto
  have len: "rs_len s = int (length ls)" "rs_len s \<le> cap" using rs_rel_len [OF ls(1)] ls by (auto simp: rs_len_def rs_rel_def)
  have res: "rs_is_resident k s \<longleftrightarrow> k \<in> fst ` set ls" using rs_rel_resident [OF ls(1), of k] by simp
  note ops = rs_rel_ops [OF ls(1), of k, THEN rs_rel_slots]
  show ?thesis
    unfolding sl by (intro conjI new ops store len res rs_evict_slots [OF ls(1)] rs_rel_walk [OF ls(1)] rs_rel_distinct [OF ls(1)])
qed

theorem resident_set_refines_witness:
  "\<exists>s1 s2 s3. rs_run 2 s2 \<and> rs_slots s2 = [(''a'', 1), (''b'', 0)] \<and> rs_store ''c'' s2 = Some ((''b'', True), s3) \<and>
     rs_slots s3 = [(''a'', 1), (''c'', 0)] \<and> s2 = rs_pin ''a'' s1"
proof -
  obtain s0 where s0: "new_resident_set 2 = Inr s0" by (simp add: new_resident_set_def)
  have r0: "rs_run 2 s0" by (rule rs_run.start [OF s0])
  have e0: "rs_slots s0 = []" using resident_set_refines [OF r0] s0 by blast
  obtain a where a: "rs_store ''a'' s0 = Some (fst (sp_store 2 ''a'' []), a)" "rs_slots a = [(''a'', 0)]"
    using resident_set_refines [OF r0, of "''a''"] unfolding e0 by (auto simp: sp_store_def)
  have ra: "rs_run 2 a" by (rule rs_run.store) (use r0 a(1) in \<open>simp_all add: sp_store_def\<close>)
  obtain b where b: "rs_store ''b'' a = Some (fst (sp_store 2 ''b'' [(''a'', 0)]), b)" "rs_slots b = [(''a'', 0), (''b'', 0)]"
    using resident_set_refines [OF ra, of "''b''"] unfolding a by (auto simp: sp_store_def)
  have rb: "rs_run 2 b" by (rule rs_run.store) (use ra b(1) in \<open>simp_all add: sp_store_def\<close>)
  have p: "rs_slots (rs_pin ''a'' b) = [(''a'', 1), (''b'', 0)]"
    using resident_set_refines [OF rb, of "''a''"] unfolding b by (auto simp: sp_set_pins_def)
  have rp: "rs_run 2 (rs_pin ''a'' b)" by (rule rs_run.pin [OF rb])
  have "sp_store 2 ''c'' [(''a'', 1), (''b'', 0)] = ((''b'', True), [(''a'', 1), (''c'', 0)])" by code_simp
  then obtain c where "rs_store ''c'' (rs_pin ''a'' b) = Some ((''b'', True), c)" "rs_slots c = [(''a'', 1), (''c'', 0)]"
    using resident_set_refines [OF rp, of "''c''"] unfolding p by auto
  then show ?thesis using rp p by blast
qed

end
