(* ===== verification/Sim_Metrics.thy ===== *)
theory Sim_Metrics
  imports Request_Model Go_Map
begin

text \<open>
  The metrics an instance accumulates (\<open>sim/metrics.go\<close>, \<open>sim/metrics_utils.go\<close>): the counters
  and per-request maps the simulator writes, and the numbering of completions. Tick values the
  code stores as \<open>float64\<close> are integers; the mean inter-token latency is an exact rational.
\<close>

section \<open>The record\<close>

record request_metrics =
  rm_id :: rid
  rm_arrived_at :: tick
  rm_prefill :: int
  rm_decode :: int
  rm_handled_by :: string
  rm_length_capped :: bool
  rm_completion_seq :: int
  rm_completion_clock :: tick
  rm_completion_index :: int

record metrics =
  me_completed :: int
  me_input_tokens :: int
  me_output_tokens :: int
  me_ended :: tick
  me_kv_used_integral :: int
  me_peak_kv :: int
  me_preemptions :: int
  me_kv_failures :: int
  me_still_queued :: int
  me_still_running :: int
  me_dropped :: int
  me_length_capped :: int
  me_timed_out :: int
  me_ttft_sum :: int
  me_ttfts :: "rid \<rightharpoonup> int"
  me_itls :: "rid \<rightharpoonup> rat"
  me_sched_delays :: "rid \<rightharpoonup> int"
  me_all_itls :: "int list"
  me_e2es :: "rid \<rightharpoonup> int"
  me_completion_times :: "rid \<rightharpoonup> int"
  me_step_counters :: "int list"
  me_waitq_sizes :: "int list"
  me_batch_sizes :: "int list"
  me_requests :: "(rid, request_metrics) go_map"
  me_adapter_loads :: "string \<Rightarrow> int"
  me_adapter_evictions :: "string \<Rightarrow> int"
  me_completions :: int

definition new_metrics :: metrics where
  "new_metrics = \<lparr>me_completed = 0, me_input_tokens = 0, me_output_tokens = 0, me_ended = 0, me_kv_used_integral = 0,
     me_peak_kv = 0, me_preemptions = 0, me_kv_failures = 0, me_still_queued = 0, me_still_running = 0, me_dropped = 0,
     me_length_capped = 0, me_timed_out = 0, me_ttft_sum = 0, me_ttfts = Map.empty, me_itls = Map.empty,
     me_sched_delays = Map.empty, me_all_itls = [], me_e2es = Map.empty, me_completion_times = Map.empty,
     me_step_counters = [], me_waitq_sizes = [], me_batch_sizes = [], me_requests = [], me_adapter_loads = (\<lambda>_. 0),
     me_adapter_evictions = (\<lambda>_. 0), me_completions = 0\<rparr>"

definition new_request_metrics :: "request \<Rightarrow> tick \<Rightarrow> request_metrics" where
  "new_request_metrics q arrived = \<lparr>rm_id = rq_id q, rm_arrived_at = arrived, rm_prefill = input_len q,
     rm_decode = output_len q, rm_handled_by = '''', rm_length_capped = rq_length_capped q,
     rm_completion_seq = 0, rm_completion_clock = 0, rm_completion_index = 0\<rparr>"

definition record_completion_order :: "rid \<Rightarrow> tick \<Rightarrow> metrics \<Rightarrow> metrics" where
  "record_completion_order r clock m = (case map_of (me_requests m) r of
       None \<Rightarrow> m
     | Some rm \<Rightarrow>
         (let m1 = m\<lparr>me_completions := me_completions m + 1\<rparr>
          in m1\<lparr>me_requests := AList.update r (rm\<lparr>rm_completion_seq := me_completions m1, rm_completion_clock := clock\<rparr>)
                  (me_requests m1)\<rparr>))"

definition injected_requests :: "metrics \<Rightarrow> int" where
  "injected_requests m = me_completed m + me_still_queued m + me_still_running m + me_dropped m + me_timed_out m"

end
