(* ===== verification/Simulator.thy ===== *)
theory Simulator
  imports Batch_Safety Event_Queue Scheduler Slo_Priority Resident_Set Sim_Metrics
begin

text \<open>
  The instance simulator (\<open>sim/simulator.go\<close>, \<open>sim/event.go\<close>): the event loop around batch
  formation. Everything a run does not change is the environment: the KV store's operations,
  the latency model (code outside this component, a parameter), the optional completion
  callback of the session layer, and the configuration. The state is the simulator's mutable
  fields; a request is addressed by its identifier. \<open>stepEvent\<close> is only compared with nil, so
  the time of the scheduled step stands for the pointer.
\<close>

section \<open>Environment and state\<close>

record ('k, 'c) sim_env =
  se_ops :: "'k kv_ops"
  se_used :: "'k \<Rightarrow> int"
  se_total :: "'k \<Rightarrow> int"
  se_set_clock :: "tick \<Rightarrow> 'k \<Rightarrow> 'k"
  se_mirror :: "request list \<Rightarrow> 'k \<Rightarrow> 'k"
  se_consume_latency :: "'k \<Rightarrow> int \<times> 'k"
  se_clear_deferred :: "(rid \<Rightarrow> 'k \<Rightarrow> 'k) option"
  se_queueing_time :: "request \<Rightarrow> int"
  se_step_time :: "request list \<Rightarrow> int"
  se_otpt :: int
  se_post_decode :: int
  se_load_latency :: "(string \<Rightarrow> rat) option"
  se_on_done :: "(request \<Rightarrow> tick \<Rightarrow> 'c \<Rightarrow> request list \<times> 'c) option"
  se_policy :: preemption_policy
  se_scheduler :: scheduler
  se_slo_map :: slo_map
  se_horizon :: tick
  se_max_seqs :: int
  se_max_tokens :: int
  se_prefill_threshold :: int
  se_no_prefix_cache :: bool
  se_max_model_len :: int
  se_spec_enabled :: bool
  se_spec_rate :: rat

record ('k, 'c) sim =
  si_clock :: tick
  si_ctr :: int
  si_events :: event_queue
  si_waitq :: wait_queue
  si_kv :: 'k
  si_running :: "rid list option"
  si_metrics :: metrics
  si_step_event :: "tick option"
  si_step_count :: int
  si_computed :: "rid \<rightharpoonup> int"
  si_reqs :: req_store
  si_resident :: "resident_set option"
  si_loading :: string
  si_session :: 'c

definition si_set_req :: "rid \<Rightarrow> (request \<Rightarrow> request) \<Rightarrow> ('k, 'c) sim \<Rightarrow> ('k, 'c) sim" where
  "si_set_req r f st = st\<lparr>si_reqs := (si_reqs st)(r := f (si_reqs st r))\<rparr>"

definition si_count :: "(metrics \<Rightarrow> metrics) \<Rightarrow> ('k, 'c) sim \<Rightarrow> ('k, 'c) sim" where
  "si_count f st = st\<lparr>si_metrics := f (si_metrics st)\<rparr>"

definition running_list :: "('k, 'c) sim \<Rightarrow> rid list" where
  "running_list st = (case si_running st of None \<Rightarrow> [] | Some rs \<Rightarrow> rs)"

text \<open>
  \<open>NewSimulator\<close>: the configuration checks in order, then the empty state. The block geometry
  and the adapter capacity (absent without adapters) are configuration.
\<close>

definition config_error :: "('k, 'c) sim_env \<Rightarrow> int \<Rightarrow> int \<Rightarrow> int option \<Rightarrow> string option" where
  "config_error env blocks bs cap =
     (if se_max_seqs env \<le> 0 then Some ''MaxNumSeqs must be > 0''
      else if se_max_tokens env \<le> 0 then Some ''MaxNumBatchedTokens must be > 0''
      else if se_prefill_threshold env < 0 then Some ''LongPrefillTokenThreshold must be >= 0''
      else if se_max_model_len env < 0 then Some ''MaxModelLen must be >= 0''
      else if se_max_model_len env > 0 \<and> bs \<le> 0 then Some ''BlockSizeTokens must be > 0 when MaxModelLen is set''
      else if se_max_model_len env > 0 \<and>
        se_max_model_len env div bs + (if se_max_model_len env mod bs \<noteq> 0 then 1 else 0) > blocks
      then Some ''KV cache too small for MaxModelLen''
      else (case cap of None \<Rightarrow> None | Some n \<Rightarrow> if n \<le> 0 then Some ''adapter_capacity must be > 0'' else None))"

definition new_simulator ::
  "('k, 'c) sim_env \<Rightarrow> int \<Rightarrow> int \<Rightarrow> int option \<Rightarrow> req_store \<Rightarrow> 'k \<Rightarrow> 'c \<Rightarrow> string + ('k, 'c) sim" where
  "new_simulator env blocks bs cap reqs kv c = (case config_error env blocks bs cap of
       Some e \<Rightarrow> Inl e
     | None \<Rightarrow> Inr \<lparr>si_clock = 0, si_ctr = 0, si_events = [], si_waitq = [], si_kv = kv, si_running = Some [],
         si_metrics = new_metrics, si_step_event = None, si_step_count = 0, si_computed = Map.empty, si_reqs = reqs,
         si_resident = (case (se_load_latency env, cap) of
             (Some _, Some n) \<Rightarrow> (case new_resident_set n of Inl _ \<Rightarrow> None | Inr s \<Rightarrow> Some s)
           | _ \<Rightarrow> None),
         si_loading = '''', si_session = c\<rparr>)"

section \<open>Scheduling events and injecting requests\<close>

definition si_schedule :: "event \<Rightarrow> ('k, 'c) sim \<Rightarrow> ('k, 'c) sim" where
  "si_schedule ev st = (let (ctr, q) = eq_schedule ev (si_ctr st, si_events st) in st\<lparr>si_ctr := ctr, si_events := q\<rparr>)"

definition si_schedule_step :: "tick \<Rightarrow> ('k, 'c) sim \<Rightarrow> ('k, 'c) sim" where
  "si_schedule_step t st = (si_schedule (StepEvent t) st)\<lparr>si_step_event := Some t\<rparr>"

definition schedule_step_if_idle :: "tick \<Rightarrow> ('k, 'c) sim \<Rightarrow> ('k, 'c) sim" where
  "schedule_step_if_idle t st =
     (if si_step_event st = None \<and> wq_len (si_waitq st) > 0 then si_schedule_step t st else st)"

definition register_request :: "request \<Rightarrow> metrics \<Rightarrow> metrics" where
  "register_request q m = m\<lparr>me_requests := AList.update (rq_id q) (new_request_metrics q (rq_arrival q)) (me_requests m)\<rparr>"

definition inject_arrival_at :: "request \<Rightarrow> tick \<Rightarrow> ('k, 'c) sim \<Rightarrow> ('k, 'c) sim" where
  "inject_arrival_at q t st =
     si_count (register_request q) (si_schedule (ArrivalEvent t (rq_id q)) (st\<lparr>si_reqs := (si_reqs st)(rq_id q := q)\<rparr>))"

definition inject_arrival :: "request \<Rightarrow> ('k, 'c) sim \<Rightarrow> ('k, 'c) sim" where
  "inject_arrival q st = inject_arrival_at q (rq_arrival q) st"

text \<open>The completion callback, whose follow-up requests are injected in order.\<close>

definition request_done :: "('k, 'c) sim_env \<Rightarrow> rid \<Rightarrow> tick \<Rightarrow> ('k, 'c) sim \<Rightarrow> ('k, 'c) sim" where
  "request_done env r t st = (case se_on_done env of
       None \<Rightarrow> st
     | Some f \<Rightarrow> (let (more, c) = f (si_reqs st r) t (si_session st)
                in fold inject_arrival more (st\<lparr>si_session := c\<rparr>)))"

section \<open>Enqueueing\<close>

definition auto_fill :: "('k, 'c) sim_env \<Rightarrow> request \<Rightarrow> request" where
  "auto_fill env q =
     (if rq_max_output q = 0 \<and> se_max_model_len env > 0 \<and> input_len q < se_max_model_len env
      then q\<lparr>rq_max_output := se_max_model_len env - input_len q\<rparr> else q)"

text \<open>Guards 0 to 2: negative budget, context window, cache capacity.\<close>

definition unservable :: "('k, 'c) sim_env \<Rightarrow> 'k \<Rightarrow> request \<Rightarrow> bool outcome" where
  "unservable env kv q =
     (if rq_max_output q < 0 then Inr True
      else if se_max_model_len env > 0 \<and> input_len q \<ge> se_max_model_len env then Inr True
      else if se_max_model_len env > 0 \<and> rq_max_output q > 0 \<and> input_len q + rq_max_output q > se_max_model_len env
      then Inr True
      else (let bs = ko_block_size (se_ops env) kv
            in if bs = 0 then Inl (Panic ''integer divide by zero'')
               else Inr ((input_len q + bs - 1) div bs > se_total env kv)))"

definition drop_request :: "('k, 'c) sim_env \<Rightarrow> rid \<Rightarrow> ('k, 'c) sim \<Rightarrow> ('k, 'c) sim" where
  "drop_request env r st =
     request_done env r (si_clock st)
       (si_count (\<lambda>m. m\<lparr>me_dropped := me_dropped m + 1, me_requests := AList.delete r (me_requests m)\<rparr>) st)"

definition enter_queue :: "('k, 'c) sim_env \<Rightarrow> rid \<Rightarrow> ('k, 'c) sim \<Rightarrow> ('k, 'c) sim" where
  "enter_queue env r st =
     (let st1 = si_set_req r (\<lambda>q. q\<lparr>rq_priority := invert_for_vllm (se_slo_map env) (rq_slo_class q)\<rparr>) st;
          st2 = st1\<lparr>si_waitq := wq_enqueue r (si_waitq st1)\<rparr>;
          d = rq_deadline (si_reqs st2 r)
      in if d > 0 \<and> d \<le> se_horizon env then si_schedule (TimeoutEvent d r) st2 else st2)"

definition enqueue_request :: "('k, 'c) sim_env \<Rightarrow> rid \<Rightarrow> ('k, 'c) sim \<Rightarrow> ('k, 'c) sim outcome" where
  "enqueue_request env r st =
     (if rq_state (si_reqs st r) = StateTimedOut then Inr st
      else (let st1 = si_set_req r (auto_fill env) st; q = si_reqs st1 r
            in obind (unservable env (si_kv st1) q) (\<lambda>bad.
                 if bad then Inr (drop_request env r st1)
                 else (let st2 = si_count (\<lambda>m. m\<lparr>me_input_tokens := me_input_tokens m + input_len q\<rparr>) st1
                       in if rq_deadline q > 0 \<and> rq_deadline q \<le> si_clock st2
                          then Inr (request_done env r (si_clock st2)
                                 (si_count (\<lambda>m. m\<lparr>me_timed_out := me_timed_out m + 1\<rparr>)
                                   (si_set_req r (\<lambda>q. q\<lparr>rq_state := StateTimedOut\<rparr>) st2)))
                          else Inr (enter_queue env r st2)))))"

definition enqueue_decode_sub :: "('k, 'c) sim_env \<Rightarrow> rid \<Rightarrow> tick \<Rightarrow> ('k, 'c) sim \<Rightarrow> ('k, 'c) sim" where
  "enqueue_decode_sub env r cluster_time st =
     (let st1 = enter_queue env r st
      in if running_list st1 = [] \<and> si_step_event st1 = None
         then si_schedule_step (if cluster_time > si_clock st1 then cluster_time else si_clock st1) st1 else st1)"

section \<open>Adapters\<close>

definition record_adapter_residency :: "rid \<Rightarrow> ('k, 'c) sim \<Rightarrow> ('k, 'c) sim" where
  "record_adapter_residency r st = (case si_resident st of
       None \<Rightarrow> st
     | Some rs \<Rightarrow>
         (let q = si_reqs st r; rs1 = rs_touch (rq_adapter q) rs
          in if rq_adapter q = '''' then st
             else if rq_adapter_pinned q then st\<lparr>si_resident := Some rs1\<rparr>
             else si_set_req r (\<lambda>q. q\<lparr>rq_adapter_pinned := True\<rparr>) (st\<lparr>si_resident := Some (rs_pin (rq_adapter q) rs1)\<rparr>)))"

definition release_adapter_pin :: "rid \<Rightarrow> ('k, 'c) sim \<Rightarrow> ('k, 'c) sim" where
  "release_adapter_pin r st = (case si_resident st of
       None \<Rightarrow> st
     | Some rs \<Rightarrow>
         (let q = si_reqs st r
          in if rq_adapter q = '''' \<or> \<not> rq_adapter_pinned q then st
             else si_set_req r (\<lambda>q. q\<lparr>rq_adapter_pinned := False\<rparr>) (st\<lparr>si_resident := Some (rs_unpin (rq_adapter q) rs)\<rparr>)))"

text \<open>
  The cold-load gate: at most one load at a time, started for a cold head of the wait queue,
  its slot freed first. The set's walk over a cyclic list would not return: \<open>OutOfFuel\<close>.
\<close>

definition load_ticks :: "rat \<Rightarrow> int" where
  "load_ticks l = max 1 \<lceil>l\<rceil>"

definition begin_load :: "string \<Rightarrow> tick \<Rightarrow> rat \<Rightarrow> ('k, 'c) sim \<Rightarrow> ('k, 'c) sim" where
  "begin_load a now l st = si_schedule (AdapterLoadCompletionEvent (now + load_ticks l) a) (st\<lparr>si_loading := a\<rparr>)"

definition maybe_start_adapter_load :: "('k, 'c) sim_env \<Rightarrow> tick \<Rightarrow> ('k, 'c) sim \<Rightarrow> ('k, 'c) sim outcome" where
  "maybe_start_adapter_load env now st = (case (si_resident st, se_load_latency env, wq_peek (si_waitq st)) of
       (Some rs, Some lat, Some head) \<Rightarrow>
         (let q = si_reqs st head; a = rq_adapter q
          in if si_loading st \<noteq> '''' \<or> rq_decode_sub q \<or> a = '''' \<or> rs_is_resident a rs then Inr st
             else if rs_at_capacity rs
             then (case rs_evict rs of
                     None \<Rightarrow> Inl OutOfFuel
                   | Some ((v, ok), rs1) \<Rightarrow>
                       if \<not> ok then Inr (st\<lparr>si_resident := Some rs1\<rparr>)
                       else Inr (begin_load a now (lat a)
                              (si_count (\<lambda>m. m\<lparr>me_adapter_evictions := (me_adapter_evictions m)(v := me_adapter_evictions m v + 1)\<rparr>)
                                (st\<lparr>si_resident := Some rs1\<rparr>))))
             else Inr (begin_load a now (lat a) st))
     | _ \<Rightarrow> Inr st)"

definition complete_adapter_load :: "tick \<Rightarrow> string \<Rightarrow> ('k, 'c) sim \<Rightarrow> ('k, 'c) sim outcome" where
  "complete_adapter_load now a st = (case si_resident st of
       None \<Rightarrow> Inr st
     | Some rs \<Rightarrow> (case rs_store a rs of
           None \<Rightarrow> Inl OutOfFuel
         | Some ((_, admitted), rs1) \<Rightarrow>
             (let st1 = st\<lparr>si_resident := Some rs1\<rparr>;
                  st2 = (if admitted
                         then si_count (\<lambda>m. m\<lparr>me_adapter_loads := (me_adapter_loads m)(a := me_adapter_loads m a + 1)\<rparr>) st1
                         else st1)
              in Inr (schedule_step_if_idle now (st2\<lparr>si_loading := ''''\<rparr>)))))"

section \<open>One step of the engine\<close>

definition batch_context :: "('k, 'c) sim_env \<Rightarrow> tick \<Rightarrow> ('k, 'c) sim \<Rightarrow> batch_ctx" where
  "batch_context env now st = \<lparr>bc_max_tokens = se_max_tokens env, bc_max_seqs = se_max_seqs env,
     bc_prefill_threshold = se_prefill_threshold env, bc_max_model_len = se_max_model_len env, bc_now = now,
     bc_step_count = si_step_count st,
     bc_adapter_resident = map_option (\<lambda>rs a. rs_is_resident a rs) (si_resident st),
     bc_decode_tokens = (if se_spec_enabled env then Some (\<lambda>q. max 1 \<lfloor>rq_carry q + se_spec_rate env\<rfloor>) else None),
     bc_no_prefix_cache = se_no_prefix_cache env\<rparr>"

definition batch_view :: "('k, 'c) sim \<Rightarrow> 'k batch_state" where
  "batch_view st = \<lparr>bf_reqs = si_reqs st, bf_running = running_list st, bf_waitq = si_waitq st, bf_kv = si_kv st,
     bf_computed = si_computed st, bf_budget = 0, bf_scheduled = [], bf_preempted = [], bf_preemption = False\<rparr>"

text \<open>Taking over the result of a pass, counting its preemptions.\<close>

definition batch_adopt :: "'k batch_state \<Rightarrow> ('k, 'c) sim \<Rightarrow> ('k, 'c) sim" where
  "batch_adopt b st =
     si_count (\<lambda>m. m\<lparr>me_preemptions := me_preemptions m + int (length (bf_preempted b))\<rparr>)
       (st\<lparr>si_reqs := bf_reqs b, si_running := Some (bf_running b), si_waitq := bf_waitq b, si_kv := bf_kv b,
           si_computed := bf_computed b\<rparr>)"

definition note_scheduled :: "tick \<Rightarrow> rid \<Rightarrow> ('k, 'c) sim \<Rightarrow> ('k, 'c) sim" where
  "note_scheduled now r st =
     record_adapter_residency r
       (si_count (\<lambda>m. m\<lparr>me_sched_delays := (me_sched_delays m)(r \<mapsto> now - rq_arrival (si_reqs st r))\<rparr>)
         (si_schedule (ScheduledEvent now r) st))"

definition record_queue_snapshots :: "('k, 'c) sim \<Rightarrow> ('k, 'c) sim" where
  "record_queue_snapshots st = si_count (\<lambda>m. m\<lparr>me_waitq_sizes := me_waitq_sizes m @ [wq_len (si_waitq st)],
     me_batch_sizes := me_batch_sizes m @ [int (length (running_list st))]\<rparr>) st"

definition schedule_batch :: "('k, 'c) sim_env \<Rightarrow> tick \<Rightarrow> ('k, 'c) sim \<Rightarrow> ('k, 'c) sim outcome" where
  "schedule_batch env now st =
     (let st1 = st\<lparr>si_step_count := si_step_count st + 1, si_kv := se_set_clock env now (si_kv st)\<rparr>
      in obind (wq_reorder (order_queue (se_scheduler env) (si_reqs st1)) (si_waitq st1)) (\<lambda>q.
         obind (maybe_start_adapter_load env now (st1\<lparr>si_waitq := q\<rparr>)) (\<lambda>st2.
         obind (form_batch (se_ops env) (se_policy env) (batch_context env now st2) (batch_view st2)) (\<lambda>(_, _, b).
           Inr (record_queue_snapshots (fold (note_scheduled now) (bf_scheduled b) (batch_adopt b st2)))))))"

text \<open>\<open>commitDecodeTokens\<close>, then the effect of executing the step on one request.\<close>

definition commit_decode_tokens :: "rat \<Rightarrow> request \<Rightarrow> request" where
  "commit_decode_tokens rate q =
     (let c = rq_carry q + (rate - of_int (rq_new_tokens q)) in q\<lparr>rq_carry := (if c < 0 then 0 else c)\<rparr>)"

definition advance_request :: "('k, 'c) sim_env \<Rightarrow> int option \<Rightarrow> int \<Rightarrow> request \<Rightarrow> request" where
  "advance_request env computed adv q =
     (if rq_progress q < input_len q
      then q\<lparr>rq_progress := (case computed of None \<Rightarrow> 0 | Some c \<Rightarrow> c)\<rparr>
      else if rq_new_tokens q > 0
      then (let q1 = q\<lparr>rq_progress := rq_progress q + rq_new_tokens q,
                       rq_itl := rq_itl q @ [adv + rq_new_tokens q * se_otpt env]\<rparr>
            in if se_spec_enabled env then commit_decode_tokens (se_spec_rate env) q1 else q1)
      else q)"

definition exec_request :: "('k, 'c) sim_env \<Rightarrow> tick \<Rightarrow> int \<Rightarrow> rid \<Rightarrow> ('k, 'c) sim \<Rightarrow> ('k, 'c) sim" where
  "exec_request env now adv r st =
     (let st1 = si_set_req r (advance_request env (si_computed st r) adv) st; q = si_reqs st1 r
      in if rq_progress q = input_len q \<and> \<not> rq_ttft_set q
         then (let t = now + adv + se_otpt env - rq_arrival q
               in si_count (\<lambda>m. m\<lparr>me_ttfts := (me_ttfts m)(r \<mapsto> t)\<rparr>)
                    (si_set_req r (\<lambda>q. q\<lparr>rq_ttft_set := True, rq_first_token := t\<rparr>) st1))
         else st1)"

definition record_kv_usage :: "('k, 'c) sim_env \<Rightarrow> int \<Rightarrow> ('k, 'c) sim \<Rightarrow> ('k, 'c) sim" where
  "record_kv_usage env dur st =
     (let used = se_used env (si_kv st)
      in si_count (\<lambda>m. m\<lparr>me_peak_kv := (if used > me_peak_kv m then used else me_peak_kv m),
           me_kv_used_integral := me_kv_used_integral m + used * dur\<rparr>) st)"

definition execute_batch_step :: "('k, 'c) sim_env \<Rightarrow> tick \<Rightarrow> ('k, 'c) sim \<Rightarrow> int \<times> ('k, 'c) sim" where
  "execute_batch_step env now st =
     (let scheduled = filter (\<lambda>r. rq_new_tokens (si_reqs st r) > 0) (running_list st);
          adv0 = se_step_time env (map (si_reqs st) scheduled);
          (lat, kv) = se_consume_latency env (si_kv st);
          adv = max 1 (adv0 + lat)
      in (adv, record_kv_usage env adv (fold (exec_request env now adv) (running_list st) (st\<lparr>si_kv := kv\<rparr>))))"

section \<open>Completions\<close>

definition output_tokens_of :: "request \<Rightarrow> int" where
  "output_tokens_of q =
     (let n0 = rq_progress q - input_len q;
          n1 = (if n0 < output_len q then n0 + 1 else n0)
      in if n1 > output_len q then output_len q else n1)"

definition mean_itl :: "request \<Rightarrow> rat" where
  "mean_itl q =
     (if output_len q > 0
      then of_int (sum_list (rq_itl q)) /
           of_int (max ((if rq_length_capped q then output_tokens_of q else output_len q) - 1) 1)
      else 0)"

definition record_request_completion :: "('k, 'c) sim_env \<Rightarrow> rid \<Rightarrow> ('k, 'c) sim \<Rightarrow> ('k, 'c) sim" where
  "record_request_completion env r st =
     (let st1 = release_adapter_pin r st; q = si_reqs st1 r; n = output_tokens_of q;
          lat = rq_first_token q + sum_list (rq_itl q) + (if output_len q > 0 then se_post_decode env else 0)
      in si_set_req r (\<lambda>q. q\<lparr>rq_carry := 0\<rparr>) (si_count (\<lambda>m.
           (record_completion_order r (si_clock st1) (m\<lparr>me_completed := me_completed m + 1,
              me_ttft_sum := me_ttft_sum m + rq_first_token q,
              me_output_tokens := (if n > 0 then me_output_tokens m + n else me_output_tokens m),
              me_e2es := (me_e2es m)(r \<mapsto> lat), me_itls := (me_itls m)(r \<mapsto> mean_itl q),
              me_step_counters := me_step_counters m @ [rq_fin_step q - rq_sched_step q],
              me_completion_times := (me_completion_times m)(r \<mapsto> lat + rq_arrival q)\<rparr>))
            \<lparr>me_all_itls := me_all_itls m @ rq_itl q\<rparr>) st1))"

text \<open>The common tail of both completion paths: release, departure, metrics, callback.\<close>

definition finish_request ::
  "('k, 'c) sim_env \<Rightarrow> tick \<Rightarrow> int \<Rightarrow> rid \<Rightarrow> ('k, 'c) sim \<Rightarrow> ('k, 'c) sim outcome" where
  "finish_request env now adv r st =
     obind (ko_release (se_ops env) r (si_kv st)) (\<lambda>kv.
       let st1 = si_set_req r (\<lambda>q. q\<lparr>rq_fin_step := si_step_count st, rq_departure := now + adv\<rparr>) (st\<lparr>si_kv := kv\<rparr>);
           st2 = record_request_completion env r (si_schedule (RequestLeftEvent (now + adv) r) st1)
       in Inr (request_done env r (now + adv) st2))"

definition final_token :: "('k, 'c) sim_env \<Rightarrow> rid \<Rightarrow> ('k, 'c) sim \<Rightarrow> ('k, 'c) sim outcome" where
  "final_token env r st =
     (let q = si_reqs st r
      in if output_len q > 0 \<and> rq_progress q < input_len q + output_len q
         then obind (ko_allocate (se_ops env) q (rq_progress q) (rq_progress q + 1) [] (si_kv st)) (\<lambda>(ok, kv).
                let st1 = st\<lparr>si_kv := kv\<rparr>
                in Inr (if ok then st1 else si_count (\<lambda>m. m\<lparr>me_kv_failures := me_kv_failures m + 1\<rparr>) st1))
         else Inr st)"

definition mark_capped :: "rid \<Rightarrow> ('k, 'c) sim \<Rightarrow> ('k, 'c) sim" where
  "mark_capped r st =
     si_count (\<lambda>m. m\<lparr>me_length_capped := me_length_capped m + 1,
          me_requests := (case map_of (me_requests m) r of
             None \<Rightarrow> me_requests m
           | Some rm \<Rightarrow> AList.update r (rm\<lparr>rm_length_capped := True\<rparr>) (me_requests m))\<rparr>)
       (si_set_req r (\<lambda>q. q\<lparr>rq_length_capped := True, rq_state := StateCompleted\<rparr>) st)"

text \<open>One request of \<open>processCompletions\<close>; the boolean tells whether it stays in the batch.\<close>

definition process_completion ::
  "('k, 'c) sim_env \<Rightarrow> tick \<Rightarrow> int \<Rightarrow> rid \<Rightarrow> ('k, 'c) sim \<Rightarrow> (bool \<times> ('k, 'c) sim) outcome" where
  "process_completion env now adv r st =
     (let q = si_reqs st r
      in if rq_progress q \<ge> completion_progress_index q
         then obind (final_token env r (si_set_req r (\<lambda>q. q\<lparr>rq_state := StateCompleted\<rparr>) st)) (\<lambda>st1.
              obind (finish_request env now adv r st1) (\<lambda>st2. Inr (False, st2)))
         else if se_max_model_len env > 0 \<and> rq_progress q \<ge> se_max_model_len env - 1
         then obind (finish_request env now adv r (mark_capped r st)) (\<lambda>st2. Inr (False, st2))
         else Inr (True, st))"

fun process_completions ::
  "('k, 'c) sim_env \<Rightarrow> tick \<Rightarrow> int \<Rightarrow> rid list \<Rightarrow> ('k, 'c) sim \<Rightarrow> (rid list \<times> ('k, 'c) sim) outcome" where
  "process_completions env now adv [] st = Inr ([], st)"
| "process_completions env now adv (r # rs) st =
     obind (process_completion env now adv r st) (\<lambda>(stays, st1).
     obind (process_completions env now adv rs st1) (\<lambda>(left, st2).
       Inr (if stays then r # left else left, st2)))"

definition schedule_next_step :: "tick \<Rightarrow> int \<Rightarrow> rid list \<Rightarrow> ('k, 'c) sim \<Rightarrow> ('k, 'c) sim" where
  "schedule_next_step now adv left st =
     (if left \<noteq> [] then si_schedule_step (now + adv) (st\<lparr>si_running := Some left\<rparr>)
      else (let st1 = st\<lparr>si_running := None, si_step_event := None\<rparr>
            in if wq_len (si_waitq st1) > 0 \<and> si_loading st1 = '''' then si_schedule_step (now + adv) st1 else st1))"

definition sim_step :: "('k, 'c) sim_env \<Rightarrow> tick \<Rightarrow> ('k, 'c) sim \<Rightarrow> ('k, 'c) sim outcome" where
  "sim_step env now st =
     (if si_running st = None \<and> wq_len (si_waitq st) = 0 then Inr (st\<lparr>si_step_event := None\<rparr>)
      else obind (schedule_batch env now st) (\<lambda>st1.
           let (adv, st2) = execute_batch_step env now st1;
               st3 = st2\<lparr>si_kv := se_mirror env (map (si_reqs st2) (running_list st2)) (si_kv st2)\<rparr>
           in obind (process_completions env now adv (running_list st3) st3) (\<lambda>(left, st4).
                Inr (schedule_next_step now adv left st4))))"

section \<open>Timeouts\<close>

definition clear_deferred_kv :: "('k, 'c) sim_env \<Rightarrow> rid \<Rightarrow> ('k, 'c) sim \<Rightarrow> ('k, 'c) sim" where
  "clear_deferred_kv env r st = (case se_clear_deferred env of
       None \<Rightarrow> st | Some f \<Rightarrow> st\<lparr>si_kv := f r (si_kv st)\<rparr>)"

definition timeout_remove :: "('k, 'c) sim_env \<Rightarrow> rid \<Rightarrow> bool \<Rightarrow> ('k, 'c) sim \<Rightarrow> ('k, 'c) sim" where
  "timeout_remove env r was_running st =
     (if was_running
      then (let left = filter (\<lambda>x. x \<noteq> r) (running_list st)
            in st\<lparr>si_running := (if left = [] then None else Some left)\<rparr>)
      else clear_deferred_kv env r (st\<lparr>si_waitq := snd (wq_remove r (si_waitq st))\<rparr>))"

definition timeout_request :: "('k, 'c) sim_env \<Rightarrow> rid \<Rightarrow> tick \<Rightarrow> ('k, 'c) sim \<Rightarrow> ('k, 'c) sim outcome" where
  "timeout_request env r now st =
     (let q = si_reqs st r
      in if rq_state q = StateCompleted \<or> rq_state q = StateTimedOut then Inr st
         else (let st1 = release_adapter_pin r (si_count (\<lambda>m. m\<lparr>me_timed_out := me_timed_out m + 1\<rparr>)
                           (si_set_req r (\<lambda>q. q\<lparr>rq_state := StateTimedOut\<rparr>) st))
               in obind (ko_release (se_ops env) r (si_kv st1)) (\<lambda>kv.
                    let st2 = timeout_remove env r (rq_state q = StateRunning)
                                (st1\<lparr>si_kv := kv, si_computed := (si_computed st1)(r := None)\<rparr>);
                        st3 = (if running_list st2 = [] \<and> si_step_event st2 = None \<and> wq_len (si_waitq st2) > 0
                               then si_schedule_step now st2 else st2)
                    in Inr (request_done env r now st3))))"

section \<open>The event loop\<close>

fun exec_event :: "('k, 'c) sim_env \<Rightarrow> event \<Rightarrow> ('k, 'c) sim \<Rightarrow> ('k, 'c) sim outcome" where
  "exec_event env (ArrivalEvent t r) st =
     Inr (si_schedule (QueuedEvent (t + se_queueing_time env (si_reqs st r)) r) st)"
| "exec_event env (QueuedEvent t r) st = obind (enqueue_request env r st) (\<lambda>st1. Inr (schedule_step_if_idle t st1))"
| "exec_event env (AdapterLoadCompletionEvent t a) st = complete_adapter_load t a st"
| "exec_event env (StepEvent t) st = sim_step env t st"
| "exec_event env (ScheduledEvent t r) st = Inr st"
| "exec_event env (RequestLeftEvent t r) st = Inr st"
| "exec_event env (TimeoutEvent t r) st = timeout_request env r t st"

text \<open>\<open>ProcessNextEvent\<close>, with the lazy cancellation of timeouts of completed requests.\<close>

definition process_next :: "('k, 'c) sim_env \<Rightarrow> ('k, 'c) sim \<Rightarrow> (event \<times> ('k, 'c) sim) outcome" where
  "process_next env st = (case eq_pop (si_events st) of
       None \<Rightarrow> Inl IndexOutOfRange
     | Some (e, q) \<Rightarrow>
         (let ev = ee_event e; st1 = st\<lparr>si_events := q\<rparr>
          in if (case ev of TimeoutEvent _ r \<Rightarrow> rq_state (si_reqs st1 r) = StateCompleted | _ \<Rightarrow> False)
             then Inr (ev, st1)
             else obind (exec_event env ev (st1\<lparr>si_clock := ev_timestamp ev\<rparr>)) (\<lambda>st2. Inr (ev, st2))))"

definition has_pending_events :: "('k, 'c) sim \<Rightarrow> bool" where
  "has_pending_events st \<longleftrightarrow> length (si_events st) > 0"

definition finalize :: "('k, 'c) sim_env \<Rightarrow> ('k, 'c) sim \<Rightarrow> ('k, 'c) sim" where
  "finalize env st =
     si_count (\<lambda>m. m\<lparr>me_still_queued := wq_len (si_waitq st),
       me_still_running := (case si_running st of None \<Rightarrow> me_still_running m | Some rs \<Rightarrow> int (length rs)),
       me_ended := min (si_clock st) (se_horizon env)\<rparr>) st"

text \<open>\<open>Run\<close>: an event beyond the horizon is the last one. \<open>None\<close> when the loop does not end.\<close>

partial_function (option) run_loop :: "('k, 'c) sim_env \<Rightarrow> ('k, 'c) sim \<Rightarrow> ('k, 'c) sim outcome option" where
  "run_loop env st =
     (if has_pending_events st
      then (case process_next env st of
              Inl e \<Rightarrow> Some (Inl e)
            | Inr (_, st1) \<Rightarrow> if si_clock st1 > se_horizon env then Some (Inr st1) else run_loop env st1)
      else Some (Inr st))"

definition sim_run :: "('k, 'c) sim_env \<Rightarrow> ('k, 'c) sim \<Rightarrow> ('k, 'c) sim outcome option" where
  "sim_run env st = Option.bind (run_loop env st) (\<lambda>res. Some (obind res (\<lambda>st1. Inr (finalize env st1))))"

section \<open>Draining\<close>

definition drain_wait_queue :: "('k, 'c) sim_env \<Rightarrow> ('k, 'c) sim \<Rightarrow> rid list \<times> ('k, 'c) sim" where
  "drain_wait_queue env st =
     (si_waitq st, (fold (clear_deferred_kv env) (si_waitq st) st)\<lparr>si_waitq := []\<rparr>)"

definition batch_size :: "('k, 'c) sim \<Rightarrow> int" where
  "batch_size st = (case si_running st of None \<Rightarrow> 0 | Some rs \<Rightarrow> int (length rs))"

definition queue_depth :: "('k, 'c) sim \<Rightarrow> int" where
  "queue_depth st = wq_len (si_waitq st)"

end
