(* ===== verification/Sim_Sched.thy ===== *)
theory Sim_Sched
  imports Simulator
begin

text \<open>
  What the event loop keeps: the clock never goes back (INV-3), at most one step is ever
  scheduled and \<open>stepEvent\<close> tells which, at most one adapter load is in flight, and work never
  waits without a step or a load to come (INV-8). Operations that only add arrivals, timeouts,
  departures and observations are handled by one relation (\<open>adds\<close>).
\<close>

section \<open>The pending events\<close>

definition ev_mset :: "('k, 'c) sim \<Rightarrow> event multiset" where
  "ev_mset st = image_mset ee_event (mset (si_events st))"

fun is_step_event :: "event \<Rightarrow> bool" where
  "is_step_event (StepEvent _) = True"
| "is_step_event _ = False"

fun loads_adapter :: "event \<Rightarrow> string option" where
  "loads_adapter (AdapterLoadCompletionEvent _ a) = Some a"
| "loads_adapter _ = None"

definition quiet :: "event \<Rightarrow> bool" where
  "quiet ev \<longleftrightarrow> \<not> is_step_event ev \<and> loads_adapter ev = None"

abbreviation ev_ok :: "('k, 'c) sim \<Rightarrow> bool" where
  "ev_ok st \<equiv> eq_inv (si_ctr st, si_events st)"

lemma si_schedule_eq:
  obtains c q where "eq_schedule ev (si_ctr st, si_events st) = (c, q)" "si_schedule ev st = st\<lparr>si_ctr := c, si_events := q\<rparr>"
  by (cases "eq_schedule ev (si_ctr st, si_events st)") (simp add: si_schedule_def)

lemma si_schedule_fields [simp]:
  "si_clock (si_schedule ev st) = si_clock st" "si_waitq (si_schedule ev st) = si_waitq st"
  "si_kv (si_schedule ev st) = si_kv st" "si_running (si_schedule ev st) = si_running st"
  "si_metrics (si_schedule ev st) = si_metrics st" "si_step_event (si_schedule ev st) = si_step_event st"
  "si_step_count (si_schedule ev st) = si_step_count st" "si_computed (si_schedule ev st) = si_computed st"
  "si_reqs (si_schedule ev st) = si_reqs st" "si_resident (si_schedule ev st) = si_resident st"
  "si_loading (si_schedule ev st) = si_loading st" "si_session (si_schedule ev st) = si_session st"
  by (rule si_schedule_eq [of ev st]; simp)+

lemma si_set_req_fields [simp]:
  "si_clock (si_set_req r f st) = si_clock st" "si_ctr (si_set_req r f st) = si_ctr st"
  "si_events (si_set_req r f st) = si_events st" "si_waitq (si_set_req r f st) = si_waitq st"
  "si_kv (si_set_req r f st) = si_kv st" "si_running (si_set_req r f st) = si_running st"
  "si_metrics (si_set_req r f st) = si_metrics st" "si_step_event (si_set_req r f st) = si_step_event st"
  "si_step_count (si_set_req r f st) = si_step_count st" "si_computed (si_set_req r f st) = si_computed st"
  "si_resident (si_set_req r f st) = si_resident st" "si_loading (si_set_req r f st) = si_loading st"
  "si_session (si_set_req r f st) = si_session st" "si_reqs (si_set_req r f st) = (si_reqs st)(r := f (si_reqs st r))"
  by (simp_all add: si_set_req_def)

lemma si_count_fields [simp]:
  "si_clock (si_count f st) = si_clock st" "si_ctr (si_count f st) = si_ctr st"
  "si_events (si_count f st) = si_events st" "si_waitq (si_count f st) = si_waitq st"
  "si_kv (si_count f st) = si_kv st" "si_running (si_count f st) = si_running st"
  "si_metrics (si_count f st) = f (si_metrics st)" "si_step_event (si_count f st) = si_step_event st"
  "si_step_count (si_count f st) = si_step_count st" "si_computed (si_count f st) = si_computed st"
  "si_reqs (si_count f st) = si_reqs st" "si_resident (si_count f st) = si_resident st"
  "si_loading (si_count f st) = si_loading st" "si_session (si_count f st) = si_session st"
  by (simp_all add: si_count_def)

lemma ev_mset_schedule [simp]: "ev_mset (si_schedule ev st) = add_mset ev (ev_mset st)"
  by (rule si_schedule_eq [of ev st]) (use mset_eq_schedule in \<open>fastforce simp: ev_mset_def\<close>)

lemma ev_ok_schedule [simp]: "ev_ok st \<Longrightarrow> ev_ok (si_schedule ev st)"
  by (rule si_schedule_eq [of ev st]) (use eq_schedule_inv [of "si_ctr st" "si_events st" ev] in simp)

lemma ev_mset_same: "si_events st' = si_events st \<Longrightarrow> ev_mset st' = ev_mset st"
  by (simp add: ev_mset_def)

lemma ev_mset_fields [simp]:
  "ev_mset (st\<lparr>si_step_event := e\<rparr>) = ev_mset st" "ev_mset (st\<lparr>si_waitq := q\<rparr>) = ev_mset st"
  "ev_mset (st\<lparr>si_running := rs\<rparr>) = ev_mset st" "ev_mset (st\<lparr>si_kv := kv\<rparr>) = ev_mset st"
  "ev_mset (st\<lparr>si_resident := res\<rparr>) = ev_mset st" "ev_mset (st\<lparr>si_loading := l\<rparr>) = ev_mset st"
  "ev_mset (st\<lparr>si_clock := t\<rparr>) = ev_mset st" "ev_mset (st\<lparr>si_reqs := m\<rparr>) = ev_mset st"
  "ev_mset (st\<lparr>si_computed := cm\<rparr>) = ev_mset st" "ev_mset (st\<lparr>si_step_count := k\<rparr>) = ev_mset st"
  "ev_mset (si_set_req r f st) = ev_mset st" "ev_mset (si_count g st) = ev_mset st"
  by (simp_all add: ev_mset_def)

section \<open>Operations that only add quiet events\<close>

definition adds :: "tick \<Rightarrow> ('k, 'c) sim \<Rightarrow> ('k, 'c) sim \<Rightarrow> bool" where
  "adds t st st' \<longleftrightarrow> (\<exists>M. ev_mset st' = ev_mset st + M \<and> (\<forall>ev \<in># M. t \<le> ev_timestamp ev \<and> quiet ev)) \<and>
     (ev_ok st \<longrightarrow> ev_ok st') \<and> si_clock st' = si_clock st \<and> si_step_event st' = si_step_event st \<and>
     si_loading st' = si_loading st \<and> (si_resident st' = None \<longleftrightarrow> si_resident st = None)"

lemma adds_same:
  assumes "si_events st' = si_events st" "si_ctr st' = si_ctr st" "si_clock st' = si_clock st"
    "si_step_event st' = si_step_event st" "si_loading st' = si_loading st" "si_resident st' = None \<longleftrightarrow> si_resident st = None"
  shows "adds t st st'"
  using assms ev_mset_same [OF assms(1)] by (auto simp: adds_def)

lemma adds_refl: "adds t st st"
  by (rule adds_same) simp_all

lemma adds_trans:
  assumes "adds t st st'" "adds t st' st''"
  shows "adds t st st''"
proof -
  obtain M N where "ev_mset st' = ev_mset st + M" "\<forall>ev \<in># M. t \<le> ev_timestamp ev \<and> quiet ev"
      "ev_mset st'' = ev_mset st' + N" "\<forall>ev \<in># N. t \<le> ev_timestamp ev \<and> quiet ev"
    using assms unfolding adds_def by blast
  then have "ev_mset st'' = ev_mset st + (M + N) \<and> (\<forall>ev \<in># M + N. t \<le> ev_timestamp ev \<and> quiet ev)"
    by (auto simp: add.assoc)
  then show ?thesis using assms unfolding adds_def by (intro conjI exI) auto
qed

lemma adds_mono: "adds u st st' \<Longrightarrow> t \<le> u \<Longrightarrow> adds t st st'"
  unfolding adds_def by fastforce

lemma adds_schedule: "quiet ev \<Longrightarrow> t \<le> ev_timestamp ev \<Longrightarrow> adds t st (si_schedule ev st)"
  by (auto simp: adds_def intro!: exI [of _ "{#ev#}"])

lemma adds_set_req [simp]: "adds t st (si_set_req r f st)"
  by (rule adds_same) simp_all

lemma adds_count [simp]: "adds t st (si_count f st)"
  by (rule adds_same) simp_all

lemma adds_fold:
  assumes "\<And>x s. x \<in> set xs \<Longrightarrow> adds t s (f x s)"
  shows "adds t st (fold f xs st)"
  using assms
proof (induction xs arbitrary: st)
  case Nil
  then show ?case by (simp add: adds_refl)
next
  case (Cons x xs)
  then show ?case using adds_trans [of t st "f x st"] by simp
qed

text \<open>The session layer's follow-ups arrive no earlier than the completion that caused them.\<close>

definition session_ok :: "('k, 'c) sim_env \<Rightarrow> bool" where
  "session_ok env \<longleftrightarrow> (\<forall>f q t c x. se_on_done env = Some f \<and> x \<in> set (fst (f q t c)) \<longrightarrow> t \<le> rq_arrival x)"

lemma adds_inject: "t \<le> u \<Longrightarrow> adds t st (inject_arrival_at q u st)"
  unfolding inject_arrival_at_def
  by (intro adds_trans [OF _ adds_count] adds_trans [OF _ adds_schedule] adds_same) (simp_all add: quiet_def)

lemma inject_fields [simp]:
  "si_waitq (inject_arrival_at q t st) = si_waitq st" "si_running (inject_arrival_at q t st) = si_running st"
  "si_kv (inject_arrival_at q t st) = si_kv st" "si_computed (inject_arrival_at q t st) = si_computed st"
  "si_step_count (inject_arrival_at q t st) = si_step_count st" "si_resident (inject_arrival_at q t st) = si_resident st"
  "si_clock (inject_arrival_at q t st) = si_clock st" "si_session (inject_arrival_at q t st) = si_session st"
  "si_reqs (inject_arrival_at q t st) = (si_reqs st)(rq_id q := q)"
  "si_metrics (inject_arrival_at q t st) = register_request q (si_metrics st)"
  by (simp_all add: inject_arrival_at_def)

lemma fold_inject_fields [simp]:
  "si_waitq (fold inject_arrival qs st) = si_waitq st" "si_running (fold inject_arrival qs st) = si_running st"
  "si_kv (fold inject_arrival qs st) = si_kv st" "si_computed (fold inject_arrival qs st) = si_computed st"
  "si_step_count (fold inject_arrival qs st) = si_step_count st" "si_resident (fold inject_arrival qs st) = si_resident st"
  "si_clock (fold inject_arrival qs st) = si_clock st" "si_session (fold inject_arrival qs st) = si_session st"
  by (induction qs arbitrary: st) (simp_all add: inject_arrival_def)

lemma request_done_fields [simp]:
  "si_waitq (request_done env r t st) = si_waitq st" "si_running (request_done env r t st) = si_running st"
  "si_kv (request_done env r t st) = si_kv st" "si_computed (request_done env r t st) = si_computed st"
  "si_step_count (request_done env r t st) = si_step_count st" "si_resident (request_done env r t st) = si_resident st"
  "si_clock (request_done env r t st) = si_clock st"
  by (auto simp: request_done_def Let_def split: option.split prod.split)

lemma adds_request_done:
  assumes "session_ok env" "t \<le> u"
  shows "adds t st (request_done env r u st)"
proof (cases "se_on_done env")
  case None
  then show ?thesis by (simp add: request_done_def adds_refl)
next
  case (Some f)
  obtain more c where f: "f (si_reqs st r) u (si_session st) = (more, c)" by fastforce
  have "t \<le> rq_arrival x" if "x \<in> set more" for x
    using assms Some f that unfolding session_ok_def by (metis fst_conv order_trans)
  then have "adds t (st\<lparr>si_session := c\<rparr>) (fold inject_arrival more (st\<lparr>si_session := c\<rparr>))"
    by (intro adds_fold) (simp add: inject_arrival_def adds_inject)
  moreover have "adds t st (st\<lparr>si_session := c\<rparr>)" by (rule adds_same) simp_all
  ultimately show ?thesis using Some f adds_trans by (fastforce simp: request_done_def)
qed

lemma running_list_fields [simp]:
  "running_list (si_set_req r f st) = running_list st" "running_list (si_count g st) = running_list st"
  "running_list (si_schedule ev st) = running_list st" "running_list (request_done env r t st) = running_list st"
  "running_list (st\<lparr>si_step_event := e\<rparr>) = running_list st" "running_list (st\<lparr>si_waitq := q\<rparr>) = running_list st"
  "running_list (st\<lparr>si_kv := kv\<rparr>) = running_list st" "running_list (st\<lparr>si_resident := res\<rparr>) = running_list st"
  "running_list (st\<lparr>si_loading := l\<rparr>) = running_list st" "running_list (st\<lparr>si_clock := t\<rparr>) = running_list st"
  "running_list (st\<lparr>si_reqs := m\<rparr>) = running_list st" "running_list (st\<lparr>si_computed := cm\<rparr>) = running_list st"
  "running_list (st\<lparr>si_step_count := k\<rparr>) = running_list st" "running_list (st\<lparr>si_events := evs\<rparr>) = running_list st"
  "running_list (st\<lparr>si_session := c\<rparr>) = running_list st"
  by (simp_all add: running_list_def)

section \<open>The invariant of the loop\<close>

abbreviation step_events :: "('k, 'c) sim \<Rightarrow> event multiset" where
  "step_events st \<equiv> filter_mset is_step_event (ev_mset st)"

abbreviation load_events :: "('k, 'c) sim \<Rightarrow> event multiset" where
  "load_events st \<equiv> filter_mset (\<lambda>ev. loads_adapter ev \<noteq> None) (ev_mset st)"

definition loads_ok :: "('k, 'c) sim \<Rightarrow> bool" where
  "loads_ok st \<longleftrightarrow> (if si_loading st = '''' then load_events st = {#}
     else si_resident st \<noteq> None \<and> (\<exists>t. load_events st = {#AdapterLoadCompletionEvent t (si_loading st)#}))"

text \<open>While an event at \<open>now\<close> executes, with \<open>n\<close> steps pending.\<close>

definition mid :: "tick \<Rightarrow> nat \<Rightarrow> ('k, 'c) sim \<Rightarrow> bool" where
  "mid now n st \<longleftrightarrow> ev_ok st \<and> si_clock st = now \<and> (\<forall>ev \<in># ev_mset st. now \<le> ev_timestamp ev) \<and>
     size (step_events st) = n \<and> loads_ok st"

definition work_pending :: "('k, 'c) sim \<Rightarrow> bool" where
  "work_pending st \<longleftrightarrow> (si_waitq st \<noteq> [] \<longrightarrow> si_step_event st \<noteq> None \<or> si_loading st \<noteq> '''') \<and>
     (running_list st \<noteq> [] \<longrightarrow> si_step_event st \<noteq> None)"

definition sched_inv :: "('k, 'c) sim \<Rightarrow> bool" where
  "sched_inv st \<longleftrightarrow> mid (si_clock st) (if si_step_event st = None then 0 else 1) st \<and> work_pending st"

lemma quiet_filters:
  assumes "\<forall>ev \<in># M. t \<le> ev_timestamp ev \<and> quiet ev"
  shows "filter_mset is_step_event M = {#}" "filter_mset (\<lambda>ev. loads_adapter ev \<noteq> None) M = {#}"
proof -
  have n: "filter_mset P M = {#}" if "\<forall>ev \<in># M. \<not> P ev" for P
    using that by (induction M) auto
  show "filter_mset is_step_event M = {#}" using assms by (intro n) (simp add: quiet_def)
  show "filter_mset (\<lambda>ev. loads_adapter ev \<noteq> None) M = {#}" using assms by (intro n) (simp add: quiet_def)
qed

lemma mid_adds:
  assumes "mid now n st" "adds now st st'"
  shows "mid now n st'"
proof -
  obtain M where M: "ev_mset st' = ev_mset st + M" "\<forall>ev \<in># M. now \<le> ev_timestamp ev \<and> quiet ev"
    using assms(2) unfolding adds_def by blast
  have "step_events st' = step_events st" "load_events st' = load_events st"
    unfolding M(1) filter_union_mset quiet_filters [OF M(2)] by simp_all
  then show ?thesis using assms M by (auto simp: mid_def adds_def loads_ok_def)
qed

lemma si_schedule_step_fields [simp]:
  "si_clock (si_schedule_step t st) = si_clock st" "si_waitq (si_schedule_step t st) = si_waitq st"
  "si_kv (si_schedule_step t st) = si_kv st" "si_running (si_schedule_step t st) = si_running st"
  "si_metrics (si_schedule_step t st) = si_metrics st" "si_step_event (si_schedule_step t st) = Some t"
  "si_computed (si_schedule_step t st) = si_computed st" "si_reqs (si_schedule_step t st) = si_reqs st"
  "si_resident (si_schedule_step t st) = si_resident st" "si_loading (si_schedule_step t st) = si_loading st"
  "si_session (si_schedule_step t st) = si_session st" "running_list (si_schedule_step t st) = running_list st"
  "ev_mset (si_schedule_step t st) = add_mset (StepEvent t) (ev_mset st)"
  by (simp_all add: si_schedule_step_def running_list_def)

lemma mid_step: "mid now n st \<Longrightarrow> now \<le> t \<Longrightarrow> mid now (Suc n) (si_schedule_step t st)"
  using ev_ok_schedule [of st "StepEvent t"] by (auto simp: mid_def loads_ok_def si_schedule_step_def)

lemma mid_step_if_idle:
  "mid now n st \<Longrightarrow> mid now (if si_step_event st = None \<and> si_waitq st \<noteq> [] then Suc n else n) (schedule_step_if_idle now st)"
  using mid_step [of now n st now] by (auto simp: schedule_step_if_idle_def wq_len_def)

text \<open>Starting a load when none is in flight.\<close>

lemma mid_load:
  assumes "mid now n st" "si_loading st = ''''" "a \<noteq> ''''" "si_resident st \<noteq> None"
  shows "mid now n (begin_load a now l st)"
proof -
  have "load_events st = {#}" using assms(1,2) by (simp add: mid_def loads_ok_def)
  moreover have "ev_ok (st\<lparr>si_loading := a\<rparr>)" using assms(1) by (simp add: mid_def)
  from ev_ok_schedule [OF this] have "ev_ok (begin_load a now l st)" unfolding begin_load_def .
  ultimately show ?thesis using assms by (simp add: mid_def begin_load_def loads_ok_def load_ticks_def)
qed

section \<open>The operations\<close>

lemma adds_enter_queue:
  assumes "rq_deadline (si_reqs st r) > 0 \<longrightarrow> t \<le> rq_deadline (si_reqs st r)"
  shows "adds t st (enter_queue env r st)" "si_running (enter_queue env r st) = si_running st"
proof -
  let ?st1 = "si_set_req r (\<lambda>q. q\<lparr>rq_priority := invert_for_vllm (se_slo_map env) (rq_slo_class q)\<rparr>) st"
  let ?st2 = "?st1\<lparr>si_waitq := wq_enqueue r (si_waitq ?st1)\<rparr>"
  have "adds t ?st1 ?st2" by (rule adds_same) simp_all
  then have "adds t st ?st2" using adds_trans adds_set_req by blast
  moreover have "0 < rq_deadline (si_reqs st r) \<Longrightarrow> adds t ?st2 (si_schedule (TimeoutEvent (rq_deadline (si_reqs st r)) r) ?st2)"
    using assms by (intro adds_schedule) (simp_all add: quiet_def)
  ultimately show "adds t st (enter_queue env r st)"
    using adds_trans [of t st ?st2] unfolding enter_queue_def Let_def by (auto split: if_splits)
  show "si_running (enter_queue env r st) = si_running st" by (simp add: enter_queue_def Let_def)
qed

lemma auto_fill_fields [simp]:
  "rq_deadline (auto_fill env q) = rq_deadline q" "rq_state (auto_fill env q) = rq_state q"
  "rq_id (auto_fill env q) = rq_id q" "rq_input (auto_fill env q) = rq_input q" "rq_output (auto_fill env q) = rq_output q"
  "rq_progress (auto_fill env q) = rq_progress q" "rq_decode_sub (auto_fill env q) = rq_decode_sub q"
  "rq_adapter (auto_fill env q) = rq_adapter q" "rq_adapter_pinned (auto_fill env q) = rq_adapter_pinned q"
  "rq_carry (auto_fill env q) = rq_carry q"
  by (simp_all add: auto_fill_def)

lemma adds_drop:
  "session_ok env \<Longrightarrow> t \<le> si_clock st \<Longrightarrow> adds t st (drop_request env r st)"
  unfolding drop_request_def by (intro adds_trans [OF adds_count adds_request_done])

text \<open>The outcomes of \<open>EnqueueRequest\<close>: ignored, dropped, past due, queued.\<close>

definition count_input :: "int \<Rightarrow> ('k, 'c) sim \<Rightarrow> ('k, 'c) sim" where
  "count_input n st = si_count (\<lambda>m. m\<lparr>me_input_tokens := me_input_tokens m + n\<rparr>) st"

definition expire_request :: "('k, 'c) sim_env \<Rightarrow> rid \<Rightarrow> ('k, 'c) sim \<Rightarrow> ('k, 'c) sim" where
  "expire_request env r st = request_done env r (si_clock st) (si_count (\<lambda>m. m\<lparr>me_timed_out := me_timed_out m + 1\<rparr>)
     (si_set_req r (\<lambda>q. q\<lparr>rq_state := StateTimedOut\<rparr>) st))"

lemma enqueue_request_cases:
  assumes "enqueue_request env r st = Inr st'"
  defines "q \<equiv> auto_fill env (si_reqs st r)" and "st1 \<equiv> si_set_req r (auto_fill env) st"
  obtains (ignored) "rq_state (si_reqs st r) = StateTimedOut" "st' = st"
    | (dropped) "rq_state (si_reqs st r) \<noteq> StateTimedOut" "unservable env (si_kv st) q = Inr True" "st' = drop_request env r st1"
    | (past_due) "rq_state (si_reqs st r) \<noteq> StateTimedOut" "unservable env (si_kv st) q = Inr False"
        "0 < rq_deadline q" "rq_deadline q \<le> si_clock st" "st' = expire_request env r (count_input (input_len q) st1)"
    | (queued) "rq_state (si_reqs st r) \<noteq> StateTimedOut" "unservable env (si_kv st) q = Inr False"
        "\<not> (0 < rq_deadline q \<and> rq_deadline q \<le> si_clock st)" "st' = enter_queue env r (count_input (input_len q) st1)"
proof (cases "rq_state (si_reqs st r) = StateTimedOut")
  case True
  then have "st' = st" using assms(1) unfolding enqueue_request_def by (simp only: simp_thms if_True sum.inject)
  with True show ?thesis by (rule ignored)
next
  case live: False
  have e: "obind (unservable env (si_kv st) q) (\<lambda>bad.
      if bad then Inr (drop_request env r st1)
      else if rq_deadline q > 0 \<and> rq_deadline q \<le> si_clock st
      then Inr (expire_request env r (count_input (input_len q) st1))
      else Inr (enter_queue env r (count_input (input_len q) st1))) = Inr st'"
    using assms(1) live unfolding enqueue_request_def Let_def q_def st1_def expire_request_def count_input_def
    by (simp only: if_False si_set_req_fields si_count_fields fun_upd_same)
  then obtain bad where bad: "unservable env (si_kv st) q = Inr bad" by (auto simp: obind_Inr_iff)
  show ?thesis
  proof (cases bad)
    case True
    then show ?thesis using e bad live dropped by simp
  next
    case False
    then show ?thesis using e bad live past_due queued by (cases "rq_deadline q > 0 \<and> rq_deadline q \<le> si_clock st") simp_all
  qed
qed

lemma adds_count_input [simp]: "adds t st (count_input n st)"
  by (simp add: count_input_def)

lemma count_input_fields [simp]:
  "si_clock (count_input n st) = si_clock st" "si_reqs (count_input n st) = si_reqs st" "si_events (count_input n st) = si_events st"
  "si_running (count_input n st) = si_running st" "si_waitq (count_input n st) = si_waitq st" "si_kv (count_input n st) = si_kv st"
  "si_computed (count_input n st) = si_computed st" "si_resident (count_input n st) = si_resident st"
  "si_ctr (count_input n st) = si_ctr st" "si_session (count_input n st) = si_session st" "si_loading (count_input n st) = si_loading st"
  "si_step_event (count_input n st) = si_step_event st"
  by (simp_all add: count_input_def)

lemma adds_expire: "session_ok env \<Longrightarrow> adds (si_clock st) st (expire_request env r st)"
  unfolding expire_request_def
  by (intro adds_trans [OF _ adds_request_done] adds_trans [OF adds_set_req adds_count]) simp_all

lemma enqueue_request_adds:
  assumes "enqueue_request env r st = Inr st'" "session_ok env"
  shows "adds (si_clock st) st st'" "si_running st' = si_running st"
proof -
  let ?f = "si_set_req r (auto_fill env) st"
  let ?c = "count_input (input_len (auto_fill env (si_reqs st r))) ?f"
  have c: "adds (si_clock st) st ?c" by (rule adds_trans [OF adds_set_req adds_count_input])
  from assms(1) have "adds (si_clock st) st st' \<and> si_running st' = si_running st"
  proof (cases rule: enqueue_request_cases)
    case ignored
    then show ?thesis by (simp add: adds_refl)
  next
    case dropped
    have "adds (si_clock st) ?f (drop_request env r ?f)" using adds_drop [OF assms(2), of "si_clock st" ?f] by simp
    then show ?thesis using adds_trans [OF adds_set_req] dropped(3) by (fastforce simp: drop_request_def)
  next
    case past_due
    have "adds (si_clock st) ?c (expire_request env r ?c)" using adds_expire [OF assms(2), of ?c] by simp
    then show ?thesis using adds_trans [OF c] past_due(5) by (simp add: expire_request_def)
  next
    case queued
    have "rq_deadline (si_reqs ?c r) > 0 \<longrightarrow> si_clock st \<le> rq_deadline (si_reqs ?c r)" using queued(3) by auto
    then have "adds (si_clock st) ?c (enter_queue env r ?c)" "si_running (enter_queue env r ?c) = si_running st"
      using adds_enter_queue [of ?c r "si_clock st" env] by simp_all
    then show ?thesis using adds_trans [OF c] queued(4) by simp
  qed
  then show "adds (si_clock st) st st'" "si_running st' = si_running st" by simp_all
qed

lemma adds_residency: "adds t st (record_adapter_residency r st)"
proof (cases "si_resident st")
  case (Some rs)
  then show ?thesis
    by (auto simp: record_adapter_residency_def Let_def adds_refl intro!: adds_same)
qed (simp add: record_adapter_residency_def adds_refl)

lemma adds_release_pin: "adds t st (release_adapter_pin r st)"
proof (cases "si_resident st")
  case (Some rs)
  then show ?thesis
    by (auto simp: release_adapter_pin_def Let_def adds_refl intro!: adds_same)
qed (simp add: release_adapter_pin_def adds_refl)

lemma adds_note_scheduled: "adds now st (note_scheduled now r st)"
  unfolding note_scheduled_def
  by (intro adds_trans [OF _ adds_residency] adds_trans [OF _ adds_count] adds_schedule) (simp_all add: quiet_def)

lemma adds_exec: "adds t st (exec_request env now adv r st)"
  unfolding exec_request_def Let_def
  by (auto intro: adds_trans [OF adds_set_req adds_trans [OF adds_set_req adds_count]] adds_set_req)

lemma adds_execute_batch_step:
  assumes "execute_batch_step env now st = (adv, st')"
  shows "adds t st st'" "1 \<le> adv"
proof -
  obtain lat kv where c: "se_consume_latency env (si_kv st) = (lat, kv)" by fastforce
  have "adds t st (st\<lparr>si_kv := kv\<rparr>)" by (rule adds_same) simp_all
  moreover have "adds t (st\<lparr>si_kv := kv\<rparr>) (fold (exec_request env now adv) (running_list st) (st\<lparr>si_kv := kv\<rparr>))"
    by (intro adds_fold adds_exec)
  ultimately have f: "adds t st (fold (exec_request env now adv) (running_list st) (st\<lparr>si_kv := kv\<rparr>))" by (rule adds_trans)
  have "st' = record_kv_usage env adv (fold (exec_request env now adv) (running_list st) (st\<lparr>si_kv := kv\<rparr>))"
    using assms c by (auto simp: execute_batch_step_def Let_def)
  then show "adds t st st'" using adds_trans [OF f adds_count] by (simp add: record_kv_usage_def Let_def)
  show "1 \<le> adv" using assms c by (auto simp: execute_batch_step_def Let_def)
qed

lemma adds_final_token: "final_token env r st = Inr st' \<Longrightarrow> adds t st st'"
  by (auto simp: final_token_def Let_def obind_Inr_iff adds_refl split: if_splits intro: adds_same)

lemma adds_finish:
  assumes "finish_request env now adv r st = Inr st'" "session_ok env" "0 \<le> adv"
  shows "adds now st st'"
proof -
  obtain kv where st': "st' = request_done env r (now + adv) (record_request_completion env r
      (si_schedule (RequestLeftEvent (now + adv) r)
        (si_set_req r (\<lambda>q. q\<lparr>rq_fin_step := si_step_count st, rq_departure := now + adv\<rparr>) (st\<lparr>si_kv := kv\<rparr>))))"
    using assms(1) by (auto simp: finish_request_def Let_def obind_Inr_iff)
  have dn: "adds now s (request_done env r (now + adv) s)" for s
    using adds_request_done [OF assms(2)] assms(3) by simp
  have rec: "adds now s (record_request_completion env r s)" for s
    unfolding record_request_completion_def Let_def
    by (intro adds_trans [OF _ adds_set_req] adds_trans [OF _ adds_count] adds_release_pin)
  have left: "adds now s (si_schedule (RequestLeftEvent (now + adv) r) s)" for s
    using assms(3) by (intro adds_schedule) (simp_all add: quiet_def)
  have "adds now st (st\<lparr>si_kv := kv\<rparr>)" by (rule adds_same) simp_all
  then show ?thesis
    unfolding st' by (intro adds_trans [OF _ dn] adds_trans [OF _ rec] adds_trans [OF _ left] adds_trans [OF _ adds_set_req])
qed

text \<open>The outcomes of \<open>processCompletions\<close> for one request.\<close>

lemma process_completion_cases:
  assumes "process_completion env now adv r st = Inr (stays, st')"
  obtains (completed) st1 where "rq_progress (si_reqs st r) \<ge> completion_progress_index (si_reqs st r)" "\<not> stays"
      "final_token env r (si_set_req r (\<lambda>q. q\<lparr>rq_state := StateCompleted\<rparr>) st) = Inr st1" "finish_request env now adv r st1 = Inr st'"
    | (capped) "rq_progress (si_reqs st r) < completion_progress_index (si_reqs st r)" "\<not> stays" "0 < se_max_model_len env"
        "se_max_model_len env - 1 \<le> rq_progress (si_reqs st r)" "finish_request env now adv r (mark_capped r st) = Inr st'"
    | (stays) "rq_progress (si_reqs st r) < completion_progress_index (si_reqs st r)" stays "st' = st"
        "\<not> (0 < se_max_model_len env \<and> se_max_model_len env - 1 \<le> rq_progress (si_reqs st r))"
proof (cases "rq_progress (si_reqs st r) \<ge> completion_progress_index (si_reqs st r)")
  case True
  then show ?thesis using assms completed unfolding process_completion_def Let_def by (auto simp: obind_Inr_iff)
next
  case less: False
  show ?thesis
  proof (cases "0 < se_max_model_len env \<and> se_max_model_len env - 1 \<le> rq_progress (si_reqs st r)")
    case True
    then show ?thesis using assms less capped unfolding process_completion_def Let_def by (auto simp: obind_Inr_iff)
  next
    case False
    then have "process_completion env now adv r st = Inr (True, st)" using less by (auto simp: process_completion_def Let_def)
    then show ?thesis using assms less False stays by simp
  qed
qed

lemma adds_process_completions:
  assumes "process_completions env now adv rs st = Inr (left, st')" "session_ok env" "0 \<le> adv"
  shows "adds now st st'"
  using assms(1)
proof (induction rs arbitrary: st left st')
  case Nil
  then show ?case by (simp add: adds_refl)
next
  case (Cons r rs)
  obtain stays st1 left1 where one: "process_completion env now adv r st = Inr (stays, st1)"
      and rest: "process_completions env now adv rs st1 = Inr (left1, st')"
    using Cons.prems by (auto simp: obind_Inr_iff split: prod.splits)
  have capped_adds: "adds now st (mark_capped r st)" unfolding mark_capped_def by (intro adds_trans [OF adds_set_req adds_count])
  from one have "adds now st st1"
  proof (cases rule: process_completion_cases)
    case (completed st2)
    then show ?thesis
      using adds_trans [OF adds_set_req adds_trans [OF adds_final_token adds_finish [OF _ assms(2,3)]]] by blast
  next
    case capped
    then show ?thesis using adds_trans [OF capped_adds adds_finish [OF _ assms(2,3)]] by blast
  qed (simp add: adds_refl)
  then show ?case using Cons.IH [OF rest] adds_trans by blast
qed

section \<open>A step\<close>

lemma maybe_start_cases:
  assumes "maybe_start_adapter_load env now st = Inr st'"
  obtains (nothing) rs where "st' = st\<lparr>si_resident := rs\<rparr>" "rs = None \<longleftrightarrow> si_resident st = None"
    | (load) a l st1 where "si_loading st = ''''" "a \<noteq> ''''" "si_resident st \<noteq> None" "st' = begin_load a now l st1"
        "\<And>t. adds t st st1" "si_waitq st1 = si_waitq st" "si_running st1 = si_running st" "si_reqs st1 = si_reqs st"
        "si_kv st1 = si_kv st" "si_computed st1 = si_computed st"
proof (cases "(si_resident st, se_load_latency env, wq_peek (si_waitq st))")
  case (fields res lat hd)
  show ?thesis
  proof (cases "res = None \<or> lat = None \<or> hd = None")
    case True
    then have "st' = st\<lparr>si_resident := si_resident st\<rparr>"
      using assms fields by (auto simp: maybe_start_adapter_load_def split: option.splits)
    then show ?thesis by (rule nothing) simp
  next
    case False
    then obtain rs f h where some: "si_resident st = Some rs" "se_load_latency env = Some f" "wq_peek (si_waitq st) = Some h"
      using fields by auto
    let ?q = "si_reqs st h" and ?a = "rq_adapter (si_reqs st h)"
    show ?thesis
    proof (cases "si_loading st \<noteq> '''' \<or> rq_decode_sub ?q \<or> ?a = '''' \<or> rs_is_resident ?a rs")
      case True
      then have "st' = st\<lparr>si_resident := si_resident st\<rparr>" using assms some by (simp add: maybe_start_adapter_load_def Let_def)
      then show ?thesis by (rule nothing) simp
    next
      case cold: False
      show ?thesis
      proof (cases "rs_at_capacity rs")
        case False
        then have "st' = begin_load ?a now (f ?a) st" using assms some cold by (simp add: maybe_start_adapter_load_def Let_def)
        then show ?thesis using cold some by (intro load [of ?a "f ?a" st]) (simp_all add: adds_refl)
      next
        case full: True
        obtain v ok rs1 where e: "rs_evict rs = Some ((v, ok), rs1)"
          using assms some cold full by (auto simp: maybe_start_adapter_load_def Let_def split: option.splits)
        show ?thesis
        proof (cases ok)
          case False
          then have "st' = st\<lparr>si_resident := Some rs1\<rparr>" using assms some cold full e by (simp add: maybe_start_adapter_load_def Let_def)
          then show ?thesis by (rule nothing) (simp add: some)
        next
          case True
          let ?st1 = "si_count (\<lambda>m. m\<lparr>me_adapter_evictions := (me_adapter_evictions m)(v := me_adapter_evictions m v + 1)\<rparr>)
              (st\<lparr>si_resident := Some rs1\<rparr>)"
          have "st' = begin_load ?a now (f ?a) ?st1"
            using assms some cold full e True by (simp add: maybe_start_adapter_load_def Let_def)
          moreover have "adds t st ?st1" for t by (rule adds_same) (simp_all add: some)
          ultimately show ?thesis using cold some by (intro load [of ?a "f ?a" ?st1]) simp_all
        qed
      qed
    qed
  qed
qed

lemma begin_load_fields [simp]:
  "si_waitq (begin_load a now l st) = si_waitq st" "si_running (begin_load a now l st) = si_running st"
  "si_reqs (begin_load a now l st) = si_reqs st" "si_kv (begin_load a now l st) = si_kv st"
  "si_computed (begin_load a now l st) = si_computed st" "si_step_event (begin_load a now l st) = si_step_event st"
  "si_metrics (begin_load a now l st) = si_metrics st" "si_resident (begin_load a now l st) = si_resident st"
  "si_clock (begin_load a now l st) = si_clock st" "si_session (begin_load a now l st) = si_session st"
  by (simp_all add: begin_load_def)

lemma maybe_start_mid:
  assumes "maybe_start_adapter_load env now st = Inr st'" "mid now n st"
  shows "mid now n st'"
  using assms(1)
proof (cases rule: maybe_start_cases)
  case (nothing rs)
  then have "adds now st st'" by (intro adds_same) auto
  then show ?thesis by (rule mid_adds [OF assms(2)])
next
  case (load a l st1)
  have "mid now n st1" by (rule mid_adds [OF assms(2) load(5)])
  moreover have "si_loading st1 = ''''" "si_resident st1 \<noteq> None" using load(1,3) load(5) [of now] by (auto simp: adds_def)
  ultimately show ?thesis using mid_load load(2,4) by blast
qed

lemma schedule_batch_parts:
  assumes "schedule_batch env now st = Inr st'"
  obtains q st2 x s2 b where "q = order_queue (se_scheduler env) (si_reqs st) (si_waitq st)"
    "maybe_start_adapter_load env now (st\<lparr>si_step_count := si_step_count st + 1, si_kv := se_set_clock env now (si_kv st), si_waitq := q\<rparr>) = Inr st2"
    "form_batch (se_ops env) (se_policy env) (batch_context env now st2) (batch_view st2) = Inr (x, s2, b)"
    "st' = record_queue_snapshots (fold (note_scheduled now) (bf_scheduled b) (batch_adopt b st2))"
  using assms unfolding schedule_batch_def Let_def by (auto simp: obind_Inr_iff wq_reorder_def)

lemma schedule_batch_mid:
  assumes "schedule_batch env now st = Inr st'" "mid now n st"
  shows "mid now n st'"
  using assms(1)
proof (rule schedule_batch_parts)
  fix q st2 x s2 b
  let ?st1 = "st\<lparr>si_step_count := si_step_count st + 1, si_kv := se_set_clock env now (si_kv st), si_waitq := q\<rparr>"
  assume st2: "maybe_start_adapter_load env now ?st1 = Inr st2"
    and st': "st' = record_queue_snapshots (fold (note_scheduled now) (bf_scheduled b) (batch_adopt b st2))"
  have "adds now st ?st1" by (rule adds_same) simp_all
  then have m2: "mid now n st2" using maybe_start_mid [OF st2] mid_adds [OF assms(2)] by blast
  have "adds now st2 (batch_adopt b st2)"
    unfolding batch_adopt_def by (rule adds_trans [OF _ adds_count], rule adds_same) simp_all
  moreover have "adds now (batch_adopt b st2) (fold (note_scheduled now) (bf_scheduled b) (batch_adopt b st2))"
    by (intro adds_fold adds_note_scheduled)
  ultimately have "adds now st2 st'" unfolding st' record_queue_snapshots_def using adds_trans adds_count by blast
  then show ?thesis by (rule mid_adds [OF m2])
qed

lemma loads_ok_fields [simp]:
  "loads_ok (st\<lparr>si_running := rs\<rparr>) = loads_ok st" "loads_ok (st\<lparr>si_step_event := e\<rparr>) = loads_ok st"
  "loads_ok (st\<lparr>si_waitq := q\<rparr>) = loads_ok st" "loads_ok (st\<lparr>si_clock := t\<rparr>) = loads_ok st"
  by (simp_all add: loads_ok_def cong: if_cong)

lemma mid_clear:
  "mid now n st \<Longrightarrow> mid now n (st\<lparr>si_running := rs, si_step_event := e\<rparr>)" "mid now n st \<Longrightarrow> mid now n (st\<lparr>si_running := rs\<rparr>)"
  "mid now n st \<Longrightarrow> mid now n (st\<lparr>si_step_event := e\<rparr>)"
  by (simp_all add: mid_def)

lemma schedule_next_step_inv:
  assumes "mid now 0 st" "0 \<le> adv"
  shows "sched_inv (schedule_next_step now adv left st)"
proof (cases "left = []")
  case False
  have "mid now 1 (si_schedule_step (now + adv) (st\<lparr>si_running := Some left\<rparr>))"
    using mid_step [OF mid_clear(2) [OF assms(1)], of "now + adv"] assms(2) by simp
  then show ?thesis using False by (simp add: schedule_next_step_def sched_inv_def work_pending_def mid_def)
next
  case True
  let ?st1 = "st\<lparr>si_running := None, si_step_event := None\<rparr>"
  have m: "mid now 0 ?st1" by (rule mid_clear(1) [OF assms(1)])
  show ?thesis
  proof (cases "wq_len (si_waitq st) > 0 \<and> si_loading st = ''''")
    case wait: True
    have "mid now 1 (si_schedule_step (now + adv) ?st1)" using mid_step [OF m, of "now + adv"] assms(2) by simp
    then show ?thesis using True wait by (simp add: schedule_next_step_def sched_inv_def work_pending_def mid_def running_list_def)
  next
    case False
    then show ?thesis
      using m True by (auto simp: schedule_next_step_def sched_inv_def work_pending_def mid_def running_list_def wq_len_def)
  qed
qed

lemma schedule_next_step_clock [simp]: "si_clock (schedule_next_step now adv left st) = si_clock st"
  by (simp add: schedule_next_step_def Let_def)

text \<open>The parts of a step that has work.\<close>

lemma sim_step_cases:
  assumes "sim_step env now st = Inr st'"
  obtains (nothing) "si_running st = None" "si_waitq st = []" "st' = st\<lparr>si_step_event := None\<rparr>"
    | (work) st1 adv st2 st3 left st4 where "schedule_batch env now st = Inr st1" "execute_batch_step env now st1 = (adv, st2)"
        "st3 = st2\<lparr>si_kv := se_mirror env (map (si_reqs st2) (running_list st2)) (si_kv st2)\<rparr>"
        "process_completions env now adv (running_list st3) st3 = Inr (left, st4)" "st' = schedule_next_step now adv left st4"
proof (cases "si_running st = None \<and> wq_len (si_waitq st) = 0")
  case True
  then have "si_running st = None" "si_waitq st = []" "st' = st\<lparr>si_step_event := None\<rparr>"
    using assms by (simp_all add: sim_step_def wq_len_def)
  then show ?thesis by (rule nothing)
next
  case False
  then have "obind (schedule_batch env now st) (\<lambda>st1. let (adv, st2) = execute_batch_step env now st1;
               st3 = st2\<lparr>si_kv := se_mirror env (map (si_reqs st2) (running_list st2)) (si_kv st2)\<rparr>
           in obind (process_completions env now adv (running_list st3) st3) (\<lambda>(left, st4).
                Inr (schedule_next_step now adv left st4))) = Inr st'"
    using assms by (simp only: sim_step_def if_False)
  then obtain st1 where st1: "schedule_batch env now st = Inr st1" and rest: "(let (adv, st2) = execute_batch_step env now st1;
               st3 = st2\<lparr>si_kv := se_mirror env (map (si_reqs st2) (running_list st2)) (si_kv st2)\<rparr>
           in obind (process_completions env now adv (running_list st3) st3) (\<lambda>(left, st4).
                Inr (schedule_next_step now adv left st4))) = Inr st'"
    by (auto simp only: obind_Inr_iff)
  obtain adv st2 where "execute_batch_step env now st1 = (adv, st2)" by fastforce
  then show ?thesis using rest work [OF st1] unfolding Let_def by (auto simp: obind_Inr_iff)
qed

lemma sim_step_inv:
  assumes "sim_step env now st = Inr st'" "session_ok env" "mid now 0 st"
  shows "sched_inv st'" "si_clock st' = now"
proof -
  have "sched_inv st' \<and> si_clock st' = now"
    using assms(1)
  proof (cases rule: sim_step_cases)
    case nothing
    then show ?thesis using mid_clear(3) [OF assms(3), of None]
      by (simp add: sched_inv_def work_pending_def mid_def running_list_def wq_len_def)
  next
    case (work st1 adv st2 st3 left st4)
    have adv: "0 \<le> adv" using adds_execute_batch_step(2) [OF work(2)] by simp
    have "adds now st2 st3" by (rule adds_same) (simp_all add: work(3))
    then have "adds now st1 st4"
      using adds_trans adds_execute_batch_step(1) [OF work(2)] adds_process_completions [OF work(4) assms(2) adv] by blast
    then have "mid now 0 st4" using mid_adds schedule_batch_mid [OF work(1) assms(3)] by blast
    then have "sched_inv st'" "si_clock st4 = now" unfolding work(5) by (rule schedule_next_step_inv [OF _ adv], simp add: mid_def)
    then show ?thesis by (simp add: work(5))
  qed
  then show "sched_inv st'" "si_clock st' = now" by simp_all
qed

section \<open>Timeouts and load completions\<close>

lemma sched_invI:
  assumes "mid now n st" "n = (if si_step_event st = None then 0 else 1)" "work_pending st"
  shows "sched_inv st"
  using assms by (auto simp: sched_inv_def mid_def)

lemma adds_clear_deferred: "adds t st (clear_deferred_kv env r st)"
  by (auto simp: clear_deferred_kv_def adds_refl split: option.split intro: adds_same)

lemma adds_timeout_remove: "adds t st (timeout_remove env r was st)"
proof (cases was)
  case True
  then show ?thesis by (auto simp: timeout_remove_def Let_def intro: adds_same)
next
  case False
  have "adds t st (st\<lparr>si_waitq := snd (wq_remove r (si_waitq st))\<rparr>)" by (rule adds_same) simp_all
  then show ?thesis using False adds_trans adds_clear_deferred by (fastforce simp: timeout_remove_def)
qed

lemma clear_deferred_fields [simp]:
  "si_waitq (clear_deferred_kv env r st) = si_waitq st" "si_running (clear_deferred_kv env r st) = si_running st"
  "si_step_event (clear_deferred_kv env r st) = si_step_event st" "si_loading (clear_deferred_kv env r st) = si_loading st"
  "si_reqs (clear_deferred_kv env r st) = si_reqs st" "si_computed (clear_deferred_kv env r st) = si_computed st"
  "si_metrics (clear_deferred_kv env r st) = si_metrics st" "si_events (clear_deferred_kv env r st) = si_events st"
  "si_resident (clear_deferred_kv env r st) = si_resident st" "si_session (clear_deferred_kv env r st) = si_session st"
  "si_clock (clear_deferred_kv env r st) = si_clock st" "running_list (clear_deferred_kv env r st) = running_list st"
  by (auto simp: clear_deferred_kv_def running_list_def split: option.split)

lemma timeout_remove_queues:
  "si_waitq (timeout_remove env r was st) = (if was then si_waitq st else remove1 r (si_waitq st))"
  "running_list (timeout_remove env r was st) = (if was then filter (\<lambda>x. x \<noteq> r) (running_list st) else running_list st)"
  by (auto simp: timeout_remove_def Let_def running_list_def)

lemma adds_work_pending:
  assumes "work_pending st" "adds t st st'" "si_waitq st = [] \<longrightarrow> si_waitq st' = []" "running_list st = [] \<longrightarrow> running_list st' = []"
  shows "work_pending st'"
  using assms by (auto simp: work_pending_def adds_def)

lemma release_pin_fields [simp]:
  "si_waitq (release_adapter_pin r st) = si_waitq st" "si_running (release_adapter_pin r st) = si_running st"
  "si_kv (release_adapter_pin r st) = si_kv st" "si_computed (release_adapter_pin r st) = si_computed st"
  "si_metrics (release_adapter_pin r st) = si_metrics st" "si_events (release_adapter_pin r st) = si_events st"
  "si_session (release_adapter_pin r st) = si_session st" "si_clock (release_adapter_pin r st) = si_clock st"
  "running_list (release_adapter_pin r st) = running_list st" "si_step_count (release_adapter_pin r st) = si_step_count st"
  "si_loading (release_adapter_pin r st) = si_loading st" "si_step_event (release_adapter_pin r st) = si_step_event st"
  "si_ctr (release_adapter_pin r st) = si_ctr st"
  by (auto simp: release_adapter_pin_def running_list_def Let_def split: option.split)

text \<open>The parts of a timeout that is not ignored.\<close>

definition timeout_mark :: "rid \<Rightarrow> ('k, 'c) sim \<Rightarrow> ('k, 'c) sim" where
  "timeout_mark r st = release_adapter_pin r (si_count (\<lambda>m. m\<lparr>me_timed_out := me_timed_out m + 1\<rparr>)
     (si_set_req r (\<lambda>q. q\<lparr>rq_state := StateTimedOut\<rparr>) st))"

definition timeout_leave :: "('k, 'c) sim_env \<Rightarrow> rid \<Rightarrow> bool \<Rightarrow> 'k \<Rightarrow> ('k, 'c) sim \<Rightarrow> ('k, 'c) sim" where
  "timeout_leave env r was kv st = timeout_remove env r was (st\<lparr>si_kv := kv, si_computed := (si_computed st)(r := None)\<rparr>)"

definition timeout_wake :: "tick \<Rightarrow> ('k, 'c) sim \<Rightarrow> ('k, 'c) sim" where
  "timeout_wake now st = (if running_list st = [] \<and> si_step_event st = None \<and> wq_len (si_waitq st) > 0
     then si_schedule_step now st else st)"

lemma timeout_request_cases:
  assumes "timeout_request env r now st = Inr st'"
  obtains (ignored) "rq_state (si_reqs st r) = StateCompleted \<or> rq_state (si_reqs st r) = StateTimedOut" "st' = st"
    | (fired) kv where "rq_state (si_reqs st r) \<noteq> StateCompleted" "rq_state (si_reqs st r) \<noteq> StateTimedOut"
        "ko_release (se_ops env) r (si_kv st) = Inr kv"
        "st' = request_done env r now (timeout_wake now (timeout_leave env r (rq_state (si_reqs st r) = StateRunning) kv (timeout_mark r st)))"
proof (cases "rq_state (si_reqs st r) = StateCompleted \<or> rq_state (si_reqs st r) = StateTimedOut")
  case True
  then have "st' = st" using assms by (simp add: timeout_request_def)
  with True show ?thesis by (rule ignored)
next
  case False
  then have "obind (ko_release (se_ops env) r (si_kv (timeout_mark r st))) (\<lambda>kv. Inr (request_done env r now
      (timeout_wake now (timeout_leave env r (rq_state (si_reqs st r) = StateRunning) kv (timeout_mark r st))))) = Inr st'"
    using assms unfolding timeout_request_def Let_def timeout_mark_def timeout_leave_def timeout_wake_def by simp
  moreover have "si_kv (timeout_mark r st) = si_kv st" by (simp add: timeout_mark_def)
  ultimately show ?thesis using False fired by (auto simp: obind_Inr_iff)
qed

lemma timeout_mark_adds: "adds t st (timeout_mark r st)"
  unfolding timeout_mark_def by (rule adds_trans [OF adds_trans [OF adds_set_req adds_count] adds_release_pin])

lemma timeout_mark_fields [simp]:
  "si_waitq (timeout_mark r st) = si_waitq st" "running_list (timeout_mark r st) = running_list st"
  "si_kv (timeout_mark r st) = si_kv st" "si_computed (timeout_mark r st) = si_computed st"
  by (simp_all add: timeout_mark_def)

lemma timeout_leave_adds: "adds t st (timeout_leave env r was kv st)"
proof -
  have "adds t st (st\<lparr>si_kv := kv, si_computed := (si_computed st)(r := None)\<rparr>)" by (rule adds_same) simp_all
  then show ?thesis unfolding timeout_leave_def using adds_trans adds_timeout_remove by blast
qed

lemma timeout_leave_queues [simp]:
  "si_waitq (timeout_leave env r was kv st) = (if was then si_waitq st else remove1 r (si_waitq st))"
  "running_list (timeout_leave env r was kv st) = (if was then filter (\<lambda>x. x \<noteq> r) (running_list st) else running_list st)"
  by (simp_all add: timeout_leave_def timeout_remove_queues)

lemma timeout_wake_inv:
  assumes "mid now n st" "n = (if si_step_event st = None then 0 else 1)" "work_pending st"
  shows "sched_inv (timeout_wake now st)"
proof (cases "running_list st = [] \<and> si_step_event st = None \<and> wq_len (si_waitq st) > 0")
  case True
  then have "mid now (Suc n) (si_schedule_step now st)" using mid_step [OF assms(1)] by simp
  then show ?thesis using True assms(2) by (intro sched_invI [of now "Suc n"]) (auto simp: timeout_wake_def work_pending_def)
next
  case False
  then show ?thesis using assms by (auto simp: timeout_wake_def intro: sched_invI)
qed

lemma adds_sched_inv:
  assumes "sched_inv st" "adds (si_clock st) st st'" "si_waitq st = [] \<longrightarrow> si_waitq st' = []" "running_list st = [] \<longrightarrow> running_list st' = []"
  shows "sched_inv st'"
  using assms mid_adds [of "si_clock st" _ st st'] adds_work_pending [of st "si_clock st" st'] by (auto simp: sched_inv_def adds_def)

lemma timeout_request_inv:
  assumes "timeout_request env r now st = Inr st'" "session_ok env"
    and "mid now n st" "n = (if si_step_event st = None then 0 else 1)" "work_pending st"
  shows "sched_inv st'"
  using assms(1)
proof (cases rule: timeout_request_cases)
  case ignored
  then show ?thesis using sched_invI [OF assms(3-5)] by simp
next
  case (fired kv)
  let ?st2 = "timeout_leave env r (rq_state (si_reqs st r) = StateRunning) kv (timeout_mark r st)"
  have a: "adds now st ?st2" by (rule adds_trans [OF timeout_mark_adds timeout_leave_adds])
  have "work_pending ?st2"
    by (rule adds_work_pending [OF assms(5) a]) (use set_remove1_subset [of r "[] :: rid list"] in auto)
  moreover have "n = (if si_step_event ?st2 = None then 0 else 1)" using a assms(4) by (simp add: adds_def)
  ultimately have inv: "sched_inv (timeout_wake now ?st2)" using timeout_wake_inv [OF mid_adds [OF assms(3) a]] by blast
  have "si_clock (timeout_wake now ?st2) = now"
    using mid_adds [OF assms(3) a] by (auto simp: mid_def timeout_wake_def)
  then have "adds (si_clock (timeout_wake now ?st2)) (timeout_wake now ?st2) st'"
    unfolding fired(4) using adds_request_done [OF assms(2)] by simp
  then show ?thesis by (rule adds_sched_inv [OF inv]) (simp_all add: fired(4))
qed

lemma timeout_clock: "timeout_request env r now st = Inr st' \<Longrightarrow> si_clock st' = si_clock st"
proof (erule timeout_request_cases)
  fix kv
  assume st': "st' = request_done env r now (timeout_wake now (timeout_leave env r (rq_state (si_reqs st r) = StateRunning) kv (timeout_mark r st)))"
  have "adds now st (timeout_leave env r (rq_state (si_reqs st r) = StateRunning) kv (timeout_mark r st))"
    by (rule adds_trans [OF timeout_mark_adds timeout_leave_adds])
  then show "si_clock st' = si_clock st" by (auto simp: st' timeout_wake_def adds_def)
qed simp

section \<open>One iteration of the loop\<close>

lemma complete_adapter_load_mid:
  assumes "complete_adapter_load now a st = Inr st'" "mid now n (st\<lparr>si_loading := ''''\<rparr>)" "si_resident st \<noteq> None"
    and "n = (if si_step_event st = None then 0 else 1)" "running_list st \<noteq> [] \<longrightarrow> si_step_event st \<noteq> None"
  shows "sched_inv st'"
proof -
  obtain rs where rs: "si_resident st = Some rs" using assms(3) by auto
  then obtain e adm rs1 where "rs_store a rs = Some ((e, adm), rs1)"
    using assms(1) by (auto simp: complete_adapter_load_def split: option.splits)
  then obtain st2 where st2: "st' = schedule_step_if_idle now st2" "adds now (st\<lparr>si_loading := ''''\<rparr>) st2"
      "si_waitq st2 = si_waitq st" "running_list st2 = running_list st"
    using assms(1) rs by (auto simp: complete_adapter_load_def Let_def running_list_def intro!: that adds_same split: if_splits)
  have m: "mid now n st2" by (rule mid_adds [OF assms(2) st2(2)])
  have e: "si_step_event st2 = si_step_event st" using st2(2) by (simp add: adds_def)
  show ?thesis
  proof (cases "si_step_event st = None \<and> si_waitq st \<noteq> []")
    case True
    then have "mid now 1 (si_schedule_step now st2)" using mid_step [OF m, of now] assms(4) by simp
    then show ?thesis using True e st2 by (intro sched_invI [of now 1]) (auto simp: schedule_step_if_idle_def wq_len_def work_pending_def)
  next
    case False
    then have "st' = st2" using st2 e by (auto simp: schedule_step_if_idle_def wq_len_def)
    then show ?thesis using False e m st2 assms(4,5) by (intro sched_invI [of now n]) (auto simp: work_pending_def)
  qed
qed

lemma complete_load_clock: "complete_adapter_load now a st = Inr st' \<Longrightarrow> si_clock st' = si_clock st"
  unfolding complete_adapter_load_def Let_def schedule_step_if_idle_def
  by (auto split: option.splits if_splits prod.splits)

definition env_ok :: "('k, 'c) sim_env \<Rightarrow> bool" where
  "env_ok env \<longleftrightarrow> session_ok env \<and> (\<forall>q. 0 \<le> se_queueing_time env q)"

text \<open>Popping an event: it is the earliest, and what is left is what was pending without it.\<close>

lemma pop_mid:
  assumes "sched_inv st" "eq_pop (si_events st) = Some (e, q)"
  defines "ev \<equiv> ee_event e" and "st1 \<equiv> st\<lparr>si_events := q\<rparr>"
  shows "ev_mset st = add_mset ev (ev_mset st1)" "si_clock st \<le> ev_timestamp ev" "ev_ok st1"
    "\<forall>x \<in># ev_mset st1. ev_timestamp ev \<le> ev_timestamp x"
proof -
  have inv: "ev_ok st" using assms(1) by (simp add: sched_inv_def mid_def)
  note pop = eq_pop_inv [OF inv assms(2)]
  show m: "ev_mset st = add_mset ev (ev_mset st1)" using pop(2) by (simp add: ev_mset_def ev_def st1_def)
  show "ev_ok st1" using pop(1) by (simp add: st1_def)
  have "ev \<in># ev_mset st" using m by simp
  then show "si_clock st \<le> ev_timestamp ev" using assms(1) by (simp add: sched_inv_def mid_def)
  show "\<forall>x \<in># ev_mset st1. ev_timestamp ev \<le> ev_timestamp x"
  proof
    fix x assume "x \<in># ev_mset st1"
    then obtain f where "f \<in> set q" "x = ee_event f" by (auto simp: ev_mset_def st1_def)
    moreover from this have "f \<in> set (si_events st)" using pop(2) by (metis set_mset_add_mset_insert insertI2 set_mset_mset)
    ultimately show "ev_timestamp ev \<le> ev_timestamp x" using eq_pop_time [OF inv assms(2)] by (simp add: ev_def)
  qed
qed

lemma process_next_cases:
  assumes "process_next env st = Inr (ev, st')"
  obtains e q where "eq_pop (si_events st) = Some (e, q)" "ev = ee_event e"
    "(\<exists>t r. ev = TimeoutEvent t r \<and> rq_state (si_reqs st r) = StateCompleted) \<and> st' = st\<lparr>si_events := q\<rparr> \<or>
     exec_event env ev (st\<lparr>si_events := q, si_clock := ev_timestamp ev\<rparr>) = Inr st'"
proof -
  obtain e q where pop: "eq_pop (si_events st) = Some (e, q)"
    using assms by (cases "eq_pop (si_events st)") (auto simp: process_next_def)
  let ?lazy = "case ee_event e of TimeoutEvent _ r \<Rightarrow> rq_state (si_reqs (st\<lparr>si_events := q\<rparr>) r) = StateCompleted | _ \<Rightarrow> False"
  have r: "(if ?lazy then Inr (ee_event e, st\<lparr>si_events := q\<rparr>)
      else obind (exec_event env (ee_event e) (st\<lparr>si_events := q, si_clock := ev_timestamp (ee_event e)\<rparr>)) (\<lambda>st2. Inr (ee_event e, st2))) =
      Inr (ev, st')"
    using assms unfolding process_next_def Let_def pop option.case prod.case .
  show ?thesis
  proof (cases ?lazy)
    case True
    then show ?thesis using r that [OF pop] by (auto split: event.splits)
  next
    case False
    then show ?thesis using r that [OF pop] by (auto simp: obind_Inr_iff)
  qed
qed

theorem process_next_inv:
  assumes "process_next env st = Inr (ev, st')" "env_ok env" "sched_inv st"
  shows "sched_inv st'" "si_clock st \<le> si_clock st'" "si_clock st' \<le> ev_timestamp ev"
    "\<forall>x \<in># ev_mset st'. ev_timestamp ev \<le> ev_timestamp x"
proof -
  obtain e q where pop: "eq_pop (si_events st) = Some (e, q)" and ev: "ev = ee_event e"
      and or: "(\<exists>t r. ev = TimeoutEvent t r \<and> rq_state (si_reqs st r) = StateCompleted) \<and> st' = st\<lparr>si_events := q\<rparr> \<or>
     exec_event env ev (st\<lparr>si_events := q, si_clock := ev_timestamp ev\<rparr>) = Inr st'"
    using assms(1) by (rule process_next_cases)
  note p = pop_mid [OF assms(3) pop, folded ev]
  let ?n = "if si_step_event st = None then 0 else (1 :: nat)"
  let ?st1 = "st\<lparr>si_events := q, si_clock := ev_timestamp ev\<rparr>"
  have ses: "session_ok env" using assms(2) by (simp add: env_ok_def)
  have evs: "ev_mset ?st1 = ev_mset (st\<lparr>si_events := q\<rparr>)" by (simp add: ev_mset_def)
  have wp: "work_pending ?st1" using assms(3) by (simp add: sched_inv_def work_pending_def running_list_def)
  have n: "size (step_events st) = ?n" and loads: "loads_ok st" using assms(3) by (simp_all add: sched_inv_def mid_def)
  have wp0: "work_pending st" using assms(3) by (simp add: sched_inv_def)
  have mid1: "mid (ev_timestamp ev) ?n ?st1" if "quiet ev"
    using p that n loads unfolding mid_def loads_ok_def evs by (simp add: quiet_def cong: if_cong)
  have "sched_inv st' \<and> si_clock st \<le> si_clock st' \<and> (si_clock st' = ev_timestamp ev \<or>
      si_clock st' = si_clock st \<and> ev_mset st' = ev_mset (st\<lparr>si_events := q\<rparr>))"
  proof (cases "(\<exists>t r. ev = TimeoutEvent t r \<and> rq_state (si_reqs st r) = StateCompleted) \<and> st' = st\<lparr>si_events := q\<rparr>")
    case True
    then have "quiet ev" by (auto simp: quiet_def)
    then have "mid (si_clock st) ?n st'"
      using True p n loads unfolding mid_def loads_ok_def
      by (auto simp: quiet_def cong: if_cong intro: order_trans)
    then show ?thesis using True wp0 by (auto simp: sched_inv_def work_pending_def running_list_def mid_def)
  next
    case False
    then have ex: "exec_event env ev ?st1 = Inr st'" using or by blast
    have clock: "si_clock st' = ev_timestamp ev" if "mid (ev_timestamp ev) k st'" for k using that by (simp add: mid_def)
    show ?thesis
    proof (cases ev)
      case (ArrivalEvent t r)
      then have st': "st' = si_schedule (QueuedEvent (t + se_queueing_time env (si_reqs st r)) r) ?st1" using ex by simp
      have "quiet (QueuedEvent (t + se_queueing_time env (si_reqs st r)) r)" by (simp add: quiet_def)
      then have "adds t ?st1 st'" unfolding st' using assms(2) by (intro adds_schedule) (simp_all add: env_ok_def)
      moreover have "sched_inv ?st1" by (rule sched_invI [OF mid1]) (use wp ArrivalEvent in \<open>simp_all add: quiet_def\<close>)
      ultimately have "sched_inv st'" using adds_sched_inv [of ?st1 st'] ArrivalEvent by (simp add: st' running_list_def)
      then show ?thesis using p(2) st' by simp
    next
      case (QueuedEvent t r)
      then obtain st2 where st2: "enqueue_request env r ?st1 = Inr st2" and st': "st' = schedule_step_if_idle t st2"
        using ex by (auto simp: obind_Inr_iff)
      note a = enqueue_request_adds [OF st2 ses]
      have m: "mid t ?n st2" using mid_adds [OF mid1] a(1) QueuedEvent by (simp add: quiet_def)
      have s: "si_step_event st2 = si_step_event st" using a(1) by (simp add: adds_def)
      have r: "running_list st2 = running_list st" using a(2) by (simp add: running_list_def)
      have "sched_inv st'"
      proof (cases "si_step_event st = None \<and> si_waitq st2 \<noteq> []")
        case True
        then have "mid t 1 (si_schedule_step t st2)" using mid_step [OF m, of t] by simp
        then show ?thesis using True s st' by (intro sched_invI [of t 1]) (auto simp: schedule_step_if_idle_def wq_len_def work_pending_def)
      next
        case False
        then have "st' = st2" using st' s by (auto simp: schedule_step_if_idle_def wq_len_def)
        then show ?thesis using False s m r wp0 by (intro sched_invI [of t ?n]) (auto simp: work_pending_def)
      qed
      moreover have "si_clock st' = t" using m st' by (auto simp: mid_def schedule_step_if_idle_def)
      ultimately show ?thesis using p(2) QueuedEvent by simp
    next
      case (AdapterLoadCompletionEvent t a)
      then have load: "complete_adapter_load t a ?st1 = Inr st'" using ex by simp
      have le: "si_loading st \<noteq> '''' \<and> si_resident st \<noteq> None"
        using loads p(1) AdapterLoadCompletionEvent by (auto simp: loads_ok_def split: if_splits)
      then obtain u where "load_events st = {#AdapterLoadCompletionEvent u (si_loading st)#}" using loads by (auto simp: loads_ok_def)
      then have "load_events (st\<lparr>si_events := q\<rparr>) = {#}" using p(1) AdapterLoadCompletionEvent by simp
      then have "mid t ?n (?st1\<lparr>si_loading := ''''\<rparr>)"
        using p n AdapterLoadCompletionEvent by (simp add: mid_def loads_ok_def evs)
      then have "sched_inv st'"
        by (rule complete_adapter_load_mid [OF load]) (use le wp0 in \<open>simp_all add: work_pending_def\<close>)
      moreover have "si_clock st' = t" using complete_load_clock [OF load] AdapterLoadCompletionEvent by simp
      ultimately show ?thesis using p(2) AdapterLoadCompletionEvent by simp
    next
      case (StepEvent t)
      then have "si_step_event st \<noteq> None" using n p(1) by (auto split: if_splits)
      then have "size (step_events (st\<lparr>si_events := q\<rparr>)) = 0" using n p(1) StepEvent by (cases "si_step_event st") simp_all
      then have m: "mid t 0 ?st1"
        using p loads StepEvent unfolding mid_def loads_ok_def evs by (simp cong: if_cong)
      have step: "sim_step env t ?st1 = Inr st'" using ex StepEvent by simp
      have "sched_inv st'" by (rule sim_step_inv(1) [OF step ses m])
      moreover have "si_clock st' = t" using sim_step_inv(2) [OF step ses m] .
      ultimately show ?thesis using p(2) StepEvent by simp
    next
      case (ScheduledEvent t r)
      then show ?thesis using ex sched_invI [OF mid1] wp p(2) by (auto simp: quiet_def)
    next
      case (RequestLeftEvent t r)
      then show ?thesis using ex sched_invI [OF mid1] wp p(2) by (auto simp: quiet_def)
    next
      case (TimeoutEvent t r)
      then have to: "timeout_request env r t ?st1 = Inr st'" using ex by simp
      have m: "mid t ?n ?st1" using mid1 TimeoutEvent by (simp add: quiet_def)
      have "sched_inv st'" by (rule timeout_request_inv [OF to ses m]) (use wp in simp_all)
      moreover have "si_clock st' = t" using timeout_clock [OF to] TimeoutEvent by simp
      ultimately show ?thesis using p(2) TimeoutEvent by simp
    qed
  qed
  then show "sched_inv st'" "si_clock st \<le> si_clock st'" "si_clock st' \<le> ev_timestamp ev"
      "\<forall>x \<in># ev_mset st'. ev_timestamp ev \<le> ev_timestamp x"
    using p(2,4) by (auto simp: sched_inv_def mid_def)
qed

end
