(* ===== verification/Sim_Conserve.thy ===== *)
theory Sim_Conserve
  imports Sim_Sched
begin

text \<open>
  Request conservation and lifecycle in the instance simulator (INV-1, INV-2). A registered
  request is in exactly one place (pending as an arrival or queueing event, waiting, in the
  batch) or has reached a terminal state, and the counters of completed and timed-out requests
  count the terminal ones. Operations that touch none of this, or only retire requests, are
  handled by one relation (\<open>retires\<close>).
\<close>

section \<open>Where a request is\<close>

fun pending_of :: "event \<Rightarrow> rid option" where
  "pending_of (ArrivalEvent _ r) = Some r"
| "pending_of (QueuedEvent _ r) = Some r"
| "pending_of _ = None"

fun timeout_of :: "event \<Rightarrow> rid option" where
  "timeout_of (TimeoutEvent _ r) = Some r"
| "timeout_of _ = None"

definition pending :: "('k, 'c) sim \<Rightarrow> rid multiset" where
  "pending st = image_mset (\<lambda>ev. the (pending_of ev)) (filter_mset (\<lambda>ev. pending_of ev \<noteq> None) (ev_mset st))"

definition timeouts :: "('k, 'c) sim \<Rightarrow> rid set" where
  "timeouts st = {r. \<exists>ev \<in># ev_mset st. timeout_of ev = Some r}"

definition terminal :: "req_state \<Rightarrow> bool" where
  "terminal s \<longleftrightarrow> s = StateCompleted \<or> s = StateTimedOut"

definition registered :: "('k, 'c) sim \<Rightarrow> rid list" where
  "registered st = gm_keys (me_requests (si_metrics st))"

definition terminal_count :: "('k, 'c) sim \<Rightarrow> int" where
  "terminal_count st = me_completed (si_metrics st) + me_timed_out (si_metrics st)"

lemma pending_schedule [simp]:
  "pending (si_schedule ev st) = (case pending_of ev of None \<Rightarrow> pending st | Some r \<Rightarrow> add_mset r (pending st))"
  by (cases "pending_of ev") (simp_all add: pending_def)

lemma timeouts_schedule [simp]:
  "timeouts (si_schedule ev st) = (case timeout_of ev of None \<Rightarrow> timeouts st | Some r \<Rightarrow> insert r (timeouts st))"
  by (cases "timeout_of ev") (auto simp: timeouts_def)

lemma pending_same: "ev_mset st' = ev_mset st \<Longrightarrow> pending st' = pending st \<and> timeouts st' = timeouts st"
  by (simp add: pending_def timeouts_def)

section \<open>Operations that retire requests, or do nothing to them\<close>

definition retires :: "rid set \<Rightarrow> int \<Rightarrow> ('k, 'c) sim \<Rightarrow> ('k, 'c) sim \<Rightarrow> bool" where
  "retires S n st st' \<longleftrightarrow> pending st' = pending st \<and> timeouts st' = timeouts st \<and> registered st' = registered st \<and>
     si_session st' = si_session st \<and> terminal_count st' = terminal_count st + n \<and>
     me_dropped (si_metrics st') = me_dropped (si_metrics st) \<and> me_still_running (si_metrics st') = me_still_running (si_metrics st) \<and>
     (\<forall>r. rq_id (si_reqs st' r) = rq_id (si_reqs st r)) \<and>
     (\<forall>r. r \<notin> S \<longrightarrow> rq_state (si_reqs st' r) = rq_state (si_reqs st r)) \<and>
     (\<forall>r \<in> S. terminal (rq_state (si_reqs st' r)))"

lemma retires_trans: "retires S n st st' \<Longrightarrow> retires T m st' st'' \<Longrightarrow> retires (S \<union> T) (n + m) st st''"
  by (auto simp: retires_def)

lemma neutral_trans: "retires {} 0 st st' \<Longrightarrow> retires {} 0 st' st'' \<Longrightarrow> retires {} 0 st st''"
  using retires_trans [of "{}" 0 st st' "{}" 0 st''] by simp

lemma retires_then_neutral: "retires S n st st' \<Longrightarrow> retires {} 0 st' st'' \<Longrightarrow> retires S n st st''"
  using retires_trans [of S n st st' "{}" 0 st''] by simp

lemma neutral_then_retires: "retires {} 0 st st' \<Longrightarrow> retires S n st' st'' \<Longrightarrow> retires S n st st''"
  using retires_trans [of "{}" 0 st st' S n st''] by simp

lemma neutral_same:
  assumes "ev_mset st' = ev_mset st" "si_metrics st' = si_metrics st" "si_session st' = si_session st" "si_reqs st' = si_reqs st"
  shows "retires {} 0 st st'"
  using assms pending_same [OF assms(1)] by (simp add: retires_def terminal_count_def registered_def)

lemma neutral_refl [simp]: "retires {} 0 st st"
  by (rule neutral_same) simp_all

lemma neutral_count:
  assumes "\<And>m. gm_keys (me_requests (f m)) = gm_keys (me_requests m)" "\<And>m. me_completed (f m) = me_completed m"
    "\<And>m. me_timed_out (f m) = me_timed_out m" "\<And>m. me_dropped (f m) = me_dropped m" "\<And>m. me_still_running (f m) = me_still_running m"
  shows "retires {} 0 st (si_count f st)"
  using assms pending_same [of "si_count f st" st] by (simp add: retires_def terminal_count_def registered_def)

lemma neutral_set_req:
  assumes "\<And>q. rq_state (f q) = rq_state q" "\<And>q. rq_id (f q) = rq_id q"
  shows "retires {} 0 st (si_set_req r f st)"
  using assms pending_same [of "si_set_req r f st" st] by (auto simp: retires_def terminal_count_def registered_def)

lemma neutral_schedule:
  assumes "pending_of ev = None" "timeout_of ev = None"
  shows "retires {} 0 st (si_schedule ev st)"
  using assms by (simp add: retires_def terminal_count_def registered_def)

lemma retires_set_terminal:
  assumes "\<And>q. terminal (rq_state (f q))" "\<And>q. rq_id (f q) = rq_id q"
  shows "retires {r} 0 st (si_set_req r f st)"
  using assms pending_same [of "si_set_req r f st" st] by (auto simp: retires_def terminal_count_def registered_def)

lemma neutral_fold: "(\<And>x s. retires {} 0 s (f x s)) \<Longrightarrow> retires {} 0 st (fold f xs st)"
  by (induction xs arbitrary: st) (auto intro: neutral_trans)

lemma neutral_residency: "retires {} 0 st (record_adapter_residency r st)"
proof (cases "si_resident st")
  case (Some rs)
  have s: "retires {} 0 st (st\<lparr>si_resident := x\<rparr>)" for x by (rule neutral_same) simp_all
  have "retires {} 0 s (si_set_req r (\<lambda>q. q\<lparr>rq_adapter_pinned := True\<rparr>) s)" for s :: "('a, 'b) sim"
    by (rule neutral_set_req) simp_all
  then show ?thesis using Some s neutral_trans [OF s] by (auto simp: record_adapter_residency_def Let_def)
qed (simp add: record_adapter_residency_def)

lemma neutral_release_pin: "retires {} 0 st (release_adapter_pin r st)"
proof (cases "si_resident st")
  case (Some rs)
  have s: "retires {} 0 st (st\<lparr>si_resident := x\<rparr>)" for x by (rule neutral_same) simp_all
  have "retires {} 0 s (si_set_req r (\<lambda>q. q\<lparr>rq_adapter_pinned := False\<rparr>) s)" for s :: "('a, 'b) sim"
    by (rule neutral_set_req) simp_all
  then show ?thesis using neutral_trans [OF s] Some by (auto simp: release_adapter_pin_def Let_def)
qed (simp add: release_adapter_pin_def)

lemma neutral_note_scheduled: "retires {} 0 st (note_scheduled now r st)"
  unfolding note_scheduled_def
  by (intro neutral_trans [OF _ neutral_residency] neutral_trans [OF neutral_schedule neutral_count]) simp_all

lemma advance_request_keeps [simp]:
  "rq_state (advance_request env c adv q) = rq_state q" "rq_id (advance_request env c adv q) = rq_id q"
  "rq_input (advance_request env c adv q) = rq_input q" "rq_output (advance_request env c adv q) = rq_output q"
  "rq_decode_sub (advance_request env c adv q) = rq_decode_sub q" "rq_ttft_set (advance_request env c adv q) = rq_ttft_set q"
  "rq_adapter (advance_request env c adv q) = rq_adapter q" "rq_arrival (advance_request env c adv q) = rq_arrival q"
  by (simp_all add: advance_request_def commit_decode_tokens_def Let_def)

lemma neutral_exec: "retires {} 0 st (exec_request env now adv r st)"
proof -
  have a: "retires {} 0 st (si_set_req r (advance_request env (si_computed st r) adv) st)"
    by (rule neutral_set_req) simp_all
  have b: "retires {} 0 s (si_set_req r (\<lambda>q. q\<lparr>rq_ttft_set := True, rq_first_token := t\<rparr>) s)" for s :: "('a, 'b) sim" and t
    by (rule neutral_set_req) simp_all
  have c: "retires {} 0 s (si_count (\<lambda>m. m\<lparr>me_ttfts := (me_ttfts m)(r \<mapsto> t)\<rparr>) s)" for s :: "('a, 'b) sim" and t
    by (rule neutral_count) simp_all
  show ?thesis unfolding exec_request_def Let_def using a neutral_trans [OF neutral_trans [OF a b] c] by auto
qed

lemma neutral_execute_batch_step:
  assumes "execute_batch_step env now st = (adv, st')"
  shows "retires {} 0 st st'"
proof -
  obtain lat kv where c: "se_consume_latency env (si_kv st) = (lat, kv)" by fastforce
  have "retires {} 0 st (st\<lparr>si_kv := kv\<rparr>)" by (rule neutral_same) simp_all
  moreover have "retires {} 0 (st\<lparr>si_kv := kv\<rparr>) (fold (exec_request env now adv) (running_list st) (st\<lparr>si_kv := kv\<rparr>))"
    by (intro neutral_fold neutral_exec)
  moreover have "retires {} 0 s (record_kv_usage env adv s)" for s :: "('a, 'b) sim"
    unfolding record_kv_usage_def Let_def by (rule neutral_count) simp_all
  moreover have "st' = record_kv_usage env adv (fold (exec_request env now adv) (running_list st) (st\<lparr>si_kv := kv\<rparr>))"
    using assms c by (auto simp: execute_batch_step_def Let_def)
  ultimately show ?thesis using neutral_trans by blast
qed

lemma neutral_final_token: "final_token env r st = Inr st' \<Longrightarrow> retires {} 0 st st'"
proof -
  assume a: "final_token env r st = Inr st'"
  have s: "retires {} 0 st (st\<lparr>si_kv := kv\<rparr>)" for kv by (rule neutral_same) simp_all
  have c: "retires {} 0 s (si_count (\<lambda>m. m\<lparr>me_kv_failures := me_kv_failures m + 1\<rparr>) s)" for s :: "('a, 'b) sim"
    by (rule neutral_count) simp_all
  show ?thesis using a s neutral_trans [OF s c] by (auto simp: final_token_def Let_def obind_Inr_iff split: if_splits)
qed

lemma completion_order_keeps [simp]:
  "gm_keys (me_requests (record_completion_order r t m)) = gm_keys (me_requests m)"
  "me_completed (record_completion_order r t m) = me_completed m" "me_timed_out (record_completion_order r t m) = me_timed_out m"
  "me_dropped (record_completion_order r t m) = me_dropped m" "me_still_running (record_completion_order r t m) = me_still_running m"
proof -
  show "gm_keys (me_requests (record_completion_order r t m)) = gm_keys (me_requests m)"
    by (simp add: record_completion_order_def Let_def gm_update_present split: option.split)
qed (simp_all add: record_completion_order_def Let_def split: option.split)

lemma retires_record_completion: "retires {} 1 st (record_request_completion env r st)"
proof -
  define g where "g q lat t m = (record_completion_order r t (m\<lparr>me_completed := me_completed m + 1,
              me_ttft_sum := me_ttft_sum m + rq_first_token q,
              me_output_tokens := (if output_tokens_of q > 0 then me_output_tokens m + output_tokens_of q else me_output_tokens m),
              me_e2es := (me_e2es m)(r \<mapsto> lat), me_itls := (me_itls m)(r \<mapsto> mean_itl q),
              me_step_counters := me_step_counters m @ [rq_fin_step q - rq_sched_step q],
              me_completion_times := (me_completion_times m)(r \<mapsto> lat + rq_arrival q)\<rparr>))
            \<lparr>me_all_itls := me_all_itls m @ rq_itl q\<rparr>" for q lat t m
  have "retires {} 1 s (si_count (g q lat t) s)" for s :: "('a, 'b) sim" and q lat t
    using pending_same [of "si_count (g q lat t) s" s] by (simp add: retires_def terminal_count_def g_def registered_def)
  moreover have "retires {} 0 s (si_set_req r (\<lambda>q. q\<lparr>rq_carry := 0\<rparr>) s)" for s :: "('a, 'b) sim"
    by (rule neutral_set_req) simp_all
  ultimately show ?thesis
    unfolding record_request_completion_def Let_def g_def
    by (rule retires_then_neutral [OF neutral_then_retires [OF neutral_release_pin]])
qed

lemma mark_capped_retires: "retires {r} 0 st (mark_capped r st)"
proof -
  have "retires {r} 0 st (si_set_req r (\<lambda>q. q\<lparr>rq_length_capped := True, rq_state := StateCompleted\<rparr>) st)"
    by (rule retires_set_terminal) (simp_all add: terminal_def)
  moreover have "retires {} 0 s (si_count (\<lambda>m. m\<lparr>me_length_capped := me_length_capped m + 1,
          me_requests := (case map_of (me_requests m) r of
             None \<Rightarrow> me_requests m
           | Some rm \<Rightarrow> AList.update r (rm\<lparr>rm_length_capped := True\<rparr>) (me_requests m))\<rparr>) s)" for s :: "('a, 'b) sim"
    by (rule neutral_count) (simp_all add: gm_update_present split: option.split)
  ultimately show ?thesis unfolding mark_capped_def by (rule retires_then_neutral)
qed

section \<open>The invariant\<close>

text \<open>
  \<open>Q\<close> and \<open>R\<close> hold the waiting and the running requests, \<open>F c r\<close> tells that the session in state
  \<open>c\<close> may still issue the identifier \<open>r\<close>, \<open>G c\<close> how many requests it has issued, \<open>k\<close> counts the other
  requests injected, \<open>v\<close> those taken out by the cluster, and \<open>T\<close> lists requests whose terminal
  state is to stay.
\<close>

definition live :: "rid multiset \<Rightarrow> rid multiset \<Rightarrow> ('k, 'c) sim \<Rightarrow> rid multiset" where
  "live Q R st = pending st + Q + R"

definition cons ::
  "int \<Rightarrow> ('c \<Rightarrow> rid \<Rightarrow> bool) \<Rightarrow> ('c \<Rightarrow> int) \<Rightarrow> int \<Rightarrow> (rid \<times> req_state) set \<Rightarrow> rid multiset \<Rightarrow> rid multiset \<Rightarrow> ('k, 'c) sim \<Rightarrow> bool" where
  "cons v F G k T Q R st \<longleftrightarrow> distinct (registered st) \<and>
     int (length (registered st)) + me_dropped (si_metrics st) = k + G (si_session st) \<and> (\<forall>r. count (live Q R st) r \<le> 1) \<and>
     (\<forall>r \<in># live Q R st. r \<in> set (registered st)) \<and>
     (\<forall>r \<in># pending st + Q. rq_state (si_reqs st r) = StateQueued) \<and>
     (\<forall>r \<in># R. rq_state (si_reqs st r) = StateRunning) \<and>
     (\<forall>r \<in> set (registered st). r \<notin># live Q R st \<longrightarrow> terminal (rq_state (si_reqs st r))) \<and>
     int (length (registered st)) = terminal_count st + v + int (size (live Q R st)) \<and>
     (\<forall>r \<in> timeouts st. r \<in> set (registered st) \<and> r \<notin># pending st) \<and>
     (\<forall>r \<in> set (registered st). \<not> F (si_session st) r) \<and> me_still_running (si_metrics st) = 0 \<and>
     (\<forall>(r, s) \<in> T. r \<in> set (registered st) \<and> terminal s \<and> rq_state (si_reqs st r) = s)"

lemma not_terminal [simp]: "\<not> terminal StateQueued" "\<not> terminal StateRunning"
  by (simp_all add: terminal_def)

text \<open>A live request is not in a terminal state, and what is in \<open>T\<close> is not live.\<close>

lemma cons_live: "cons v F G k T Q R st \<Longrightarrow> r \<in># live Q R st \<Longrightarrow> \<not> terminal (rq_state (si_reqs st r))"
  by (auto simp: cons_def live_def)

lemma cons_frozen: "cons v F G k T Q R st \<Longrightarrow> (r, s) \<in> T \<Longrightarrow> r \<notin># live Q R st"
  using cons_live [of v F G k T Q R st r] by (auto simp: cons_def)

lemma cons_neutral: "retires {} 0 st st' \<Longrightarrow> cons v F G k T Q R st \<Longrightarrow> cons v F G k T Q R st'"
  by (simp add: retires_def cons_def live_def)

lemma count_le_1_not_in: "\<forall>x. count (add_mset r M) x \<le> 1 \<Longrightarrow> r \<notin># M"
  by (metis Suc_le_mono count_add_mset le_zero_eq not_in_iff One_nat_def)

lemma count_le_1_mono: "\<forall>x. count (add_mset r M) x \<le> 1 \<Longrightarrow> \<forall>x. count M x \<le> 1"
  by (metis count_add_mset le_SucI le_trans nat_le_linear not_less_eq_eq)

text \<open>Retiring a live request.\<close>

lemma cons_retire:
  assumes "cons v F G k T Q R st" "retires {r} 1 st st'" "live Q R st = add_mset r (live Q' R' st)" "Q' \<subseteq># Q" "R' \<subseteq># R"
  shows "cons v F G k T Q' R' st'"
proof -
  have l: "live Q' R' st' = live Q' R' st" and p: "pending st' = pending st" and reg: "registered st' = registered st"
    and to: "timeouts st' = timeouts st" and ses: "si_session st' = si_session st"
    and st: "\<And>x. x \<noteq> r \<Longrightarrow> rq_state (si_reqs st' x) = rq_state (si_reqs st x)" and r: "terminal (rq_state (si_reqs st' r))"
    and n: "terminal_count st' = terminal_count st + 1" and run: "me_still_running (si_metrics st') = me_still_running (si_metrics st)"
    and dr: "me_dropped (si_metrics st') = me_dropped (si_metrics st)"
    using assms(2) by (simp_all add: retires_def live_def)
  have one: "\<forall>x. count (add_mset r (live Q' R' st)) x \<le> 1" using assms(1,3) by (simp add: cons_def)
  note out = count_le_1_not_in [OF one]
  have Q: "x \<noteq> r \<and> rq_state (si_reqs st x) = StateQueued" if "x \<in># pending st + Q'" for x
    using that out assms(1) mset_subset_eqD [OF assms(4)] by (auto simp: cons_def live_def)
  have R: "x \<noteq> r \<and> rq_state (si_reqs st x) = StateRunning" if "x \<in># R'" for x
    using that out assms(1) mset_subset_eqD [OF assms(5)] by (auto simp: cons_def live_def)
  have T: "x \<noteq> r" if "(x, s) \<in> T" for x s using cons_frozen [OF assms(1) that] assms(3) by auto
  have tm: "terminal (rq_state (si_reqs st' x))" if "x \<in> set (registered st)" "x \<notin># live Q' R' st" for x
    using that assms(1,3) r st by (cases "x = r") (auto simp: cons_def)
  show ?thesis
    unfolding cons_def l p reg to ses n run dr
  proof (intro conjI)
    show "int (length (registered st)) + me_dropped (si_metrics st) = k + G (si_session st)" using assms(1) by (simp add: cons_def)
    show "\<forall>r. count (live Q' R' st) r \<le> 1" by (rule count_le_1_mono [OF one])
    show "\<forall>(x, s) \<in> T. x \<in> set (registered st) \<and> terminal s \<and> rq_state (si_reqs st' x) = s"
      using assms(1) T st by (fastforce simp: cons_def)
  qed (use assms(1,3) Q R st tm in \<open>auto simp: cons_def\<close>)
qed

section \<open>Injection and the session's follow-ups\<close>

definition session_fresh :: "('c \<Rightarrow> rid \<Rightarrow> bool) \<Rightarrow> ('c \<Rightarrow> int) \<Rightarrow> ('k, 'c) sim_env \<Rightarrow> bool" where
  "session_fresh F G env \<longleftrightarrow> (\<forall>f q t c. se_on_done env = Some f \<longrightarrow>
     (let (more, c') = f q t c
      in distinct (map rq_id more) \<and> (\<forall>x \<in> set more. F c (rq_id x) \<and> \<not> F c' (rq_id x) \<and> rq_state x = StateQueued) \<and>
         (\<forall>r. F c' r \<longrightarrow> F c r) \<and> G c' = G c + int (length more)))"

lemma registered_inject [simp]:
  "registered (inject_arrival_at q t st) = (if rq_id q \<in> set (registered st) then registered st else registered st @ [rq_id q])"
  by (simp add: registered_def register_request_def gm_update_keys)

lemma inject_counts [simp]:
  "terminal_count (inject_arrival_at q t st) = terminal_count st"
  "me_dropped (si_metrics (inject_arrival_at q t st)) = me_dropped (si_metrics st)"
  "me_still_running (si_metrics (inject_arrival_at q t st)) = me_still_running (si_metrics st)"
  by (simp_all add: terminal_count_def register_request_def)

lemma ev_mset_inject [simp]: "ev_mset (inject_arrival_at q t st) = add_mset (ArrivalEvent t (rq_id q)) (ev_mset st)"
proof -
  have "ev_mset (st\<lparr>si_reqs := m\<rparr>) = ev_mset st" for m by simp
  then show ?thesis by (simp add: inject_arrival_at_def)
qed

lemma pending_inject [simp]:
  "pending (inject_arrival_at q t st) = add_mset (rq_id q) (pending st)" "timeouts (inject_arrival_at q t st) = timeouts st"
  by (simp_all add: pending_def timeouts_def)

lemma cons_inject:
  assumes "cons v F G k T Q R st" "rq_id q \<notin> set (registered st)" "rq_state q = StateQueued" "\<not> F (si_session st) (rq_id q)"
  shows "cons v F G (k + 1) T Q R (inject_arrival_at q t st)"
proof -
  let ?st = "inject_arrival_at q t st"
  have l: "live Q R ?st = add_mset (rq_id q) (live Q R st)" by (simp add: live_def)
  have new: "rq_id q \<notin># live Q R st" using assms(1,2) by (auto simp: cons_def)
  have T: "x \<noteq> rq_id q" if "(x, s) \<in> T" for x s using assms(1,2) that by (auto simp: cons_def)
  have to: "x \<noteq> rq_id q" if "x \<in> timeouts st" for x using assms(1,2) that by (auto simp: cons_def)
  have "\<forall>r. count (add_mset (rq_id q) (live Q R st)) r \<le> 1" using assms(1) new by (simp add: cons_def not_in_iff)
  moreover have "rq_id q \<notin># R" using new by (simp add: live_def)
  ultimately show ?thesis
    unfolding cons_def l using assms T to by (auto simp: cons_def register_request_def)
qed

lemma cons_inject_all:
  assumes "cons v F G k T Q R st" "distinct (map rq_id qs)"
    and "\<forall>q \<in> set qs. rq_id q \<notin> set (registered st) \<and> rq_state q = StateQueued \<and> \<not> F (si_session st) (rq_id q)"
  shows "cons v F G (k + int (length qs)) T Q R (fold inject_arrival qs st)"
  using assms
proof (induction qs arbitrary: st k)
  case (Cons q qs)
  have "cons v F G (k + 1) T Q R (inject_arrival q st)" using Cons.prems cons_inject by (fastforce simp: inject_arrival_def)
  moreover have "rq_id x \<noteq> rq_id q" if "x \<in> set qs" for x using Cons.prems(2) that by (metis distinct.simps(2) image_eqI list.simps(9) list.set_map)
  then have "\<forall>x \<in> set qs. rq_id x \<notin> set (registered (inject_arrival q st)) \<and> rq_state x = StateQueued \<and>
      \<not> F (si_session (inject_arrival q st)) (rq_id x)"
    using Cons.prems(3) by (auto simp: inject_arrival_def)
  ultimately have "cons v F G (k + 1 + int (length qs)) T Q R (fold inject_arrival qs (inject_arrival q st))"
    using Cons.IH Cons.prems(2) by simp
  then show ?case by (simp add: ac_simps)
qed simp

lemma cons_request_done:
  assumes "cons v F G k T Q R st" "session_fresh F G env"
  shows "cons v F G k T Q R (request_done env r t st)"
proof (cases "se_on_done env")
  case None
  then show ?thesis using assms(1) by (simp add: request_done_def)
next
  case (Some f)
  obtain more c where f: "f (si_reqs st r) t (si_session st) = (more, c)" by fastforce
  have s: "distinct (map rq_id more)" "\<forall>x \<in> set more. F (si_session st) (rq_id x) \<and> \<not> F c (rq_id x) \<and> rq_state x = StateQueued"
      "\<forall>x. F c x \<longrightarrow> F (si_session st) x" "G c = G (si_session st) + int (length more)"
    using assms(2) [unfolded session_fresh_def, rule_format, OF Some, of "si_reqs st r" t "si_session st"] f by simp_all
  let ?st = "st\<lparr>si_session := c\<rparr>"
  have e: "ev_mset ?st = ev_mset st" "registered ?st = registered st" "terminal_count ?st = terminal_count st"
    by (simp_all add: ev_mset_def registered_def terminal_count_def)
  have "cons v F G (k - int (length more)) T Q R ?st"
    using assms(1) s(3,4) pending_same [OF e(1)] by (auto simp: cons_def live_def e)
  moreover have "\<forall>x \<in> set more. rq_id x \<notin> set (registered ?st) \<and> rq_state x = StateQueued \<and> \<not> F (si_session ?st) (rq_id x)"
    using s(2) assms(1) by (auto simp: e(2) cons_def)
  ultimately have "cons v F G k T Q R (fold inject_arrival more ?st)" using cons_inject_all [OF _ s(1)] by fastforce
  then show ?thesis using Some f by (simp add: request_done_def)
qed

section \<open>Enqueueing\<close>

lemma cons_drop:
  assumes "cons v F G k T (add_mset r Q) R st" "r \<notin> timeouts st" "session_fresh F G env"
  shows "cons v F G k T Q R (drop_request env r st)"
proof -
  let ?st = "si_count (\<lambda>m. m\<lparr>me_dropped := me_dropped m + 1, me_requests := AList.delete r (me_requests m)\<rparr>) st"
  have d: "distinct (registered st)" using assms(1) by (simp add: cons_def)
  then have reg: "registered ?st = remove1 r (registered st)"
    unfolding registered_def by (simp add: gm_delete_remove1)
  have r: "r \<in> set (registered st)" using assms(1) by (simp add: cons_def live_def)
  have one: "\<forall>x. count (add_mset r (live Q R st)) x \<le> 1" using assms(1) by (simp add: cons_def live_def)
  note out = count_le_1_not_in [OF one]
  have same: "pending ?st = pending st" "timeouts ?st = timeouts st" "terminal_count ?st = terminal_count st"
    using pending_same [of ?st st] by (simp_all add: terminal_count_def)
  have T: "x \<noteq> r" if "(x, s) \<in> T" for x s using cons_frozen [OF assms(1) that] by (auto simp: live_def)
  have n: "int (length (registered ?st)) = int (length (registered st)) - 1"
    unfolding reg using r by (rule int_length_remove1)
  have "cons v F G k T Q R ?st"
    unfolding cons_def same n live_def
    using assms(1,2) d out T count_le_1_mono [OF one] by (auto simp: cons_def live_def reg)
  then show ?thesis unfolding drop_request_def using cons_request_done assms(3) by fastforce
qed

lemma cons_expire:
  assumes "cons v F G k T (add_mset r Q) R st" "session_fresh F G env"
  shows "cons v F G k T Q R (expire_request env r st)"
proof -
  let ?m = "si_set_req r (\<lambda>q. q\<lparr>rq_state := StateTimedOut\<rparr>) st"
  let ?st = "si_count (\<lambda>m. m\<lparr>me_timed_out := me_timed_out m + 1\<rparr>) ?m"
  have "retires {r} 0 st ?m" by (rule retires_set_terminal) (simp_all add: terminal_def)
  moreover have "retires {} 1 ?m ?st"
    using pending_same [of ?st ?m] by (simp add: retires_def terminal_count_def registered_def)
  ultimately have "retires {r} 1 st ?st" using retires_trans [of "{r}" 0 st ?m "{}" 1 ?st] by simp
  then have "cons v F G k T Q R ?st" by (rule cons_retire [OF assms(1)]) (simp_all add: live_def)
  then show ?thesis unfolding expire_request_def using cons_request_done assms(2) by blast
qed

lemma neutral_count_input: "retires {} 0 st (count_input n st)"
  unfolding count_input_def by (rule neutral_count) simp_all

lemma neutral_auto_fill: "retires {} 0 st (si_set_req r (auto_fill env) st)"
  by (rule neutral_set_req) simp_all

lemma enter_queue_queues:
  "si_waitq (enter_queue env r st) = si_waitq st @ [r]" "running_list (enter_queue env r st) = running_list st"
  by (simp_all add: enter_queue_def Let_def wq_enqueue_def)

lemma cons_timeout_event:
  "cons v F G k T Q R st \<Longrightarrow> r \<in> set (registered st) \<Longrightarrow> r \<notin># pending st \<Longrightarrow> cons v F G k T Q R (si_schedule (TimeoutEvent d r) st)"
  by (auto simp: cons_def live_def registered_def terminal_count_def)

lemma cons_enter_queue:
  assumes "cons v F G k T (add_mset r Q) R st"
  shows "cons v F G k T (add_mset r Q) R (enter_queue env r st)"
proof -
  let ?st1 = "si_set_req r (\<lambda>q. q\<lparr>rq_priority := invert_for_vllm (se_slo_map env) (rq_slo_class q)\<rparr>) st"
  let ?st2 = "?st1\<lparr>si_waitq := wq_enqueue r (si_waitq ?st1)\<rparr>"
  have "retires {} 0 st ?st1" by (rule neutral_set_req) simp_all
  moreover have "retires {} 0 ?st1 ?st2" by (rule neutral_same) simp_all
  ultimately have c: "cons v F G k T (add_mset r Q) R ?st2" using cons_neutral assms by blast
  moreover from this have "r \<in> set (registered ?st2)" by (simp add: cons_def live_def)
  moreover have "r \<notin># pending ?st2"
  proof -
    have "\<forall>x. count (add_mset r (live Q R ?st2)) x \<le> 1" using c by (simp add: cons_def live_def)
    from count_le_1_not_in [OF this] show ?thesis by (simp add: live_def)
  qed
  ultimately have "cons v F G k T (add_mset r Q) R (si_schedule (TimeoutEvent d r) ?st2)" for d by (rule cons_timeout_event)
  then show ?thesis unfolding enter_queue_def Let_def using c by simp
qed

section \<open>Batch formation and completions\<close>

definition sim_cons ::
  "int \<Rightarrow> ('c \<Rightarrow> rid \<Rightarrow> bool) \<Rightarrow> ('c \<Rightarrow> int) \<Rightarrow> int \<Rightarrow> (rid \<times> req_state) set \<Rightarrow> ('k, 'c) sim \<Rightarrow> bool" where
  "sim_cons v F G k T st \<longleftrightarrow> cons v F G k T (mset (si_waitq st)) (mset (running_list st)) st"

lemma cons_queues_distinct: "cons v F G k T (mset W) (mset R) st \<Longrightarrow> distinct (R @ W)"
proof -
  assume c: "cons v F G k T (mset W) (mset R) st"
  have "count (mset (R @ W)) r \<le> 1" for r
  proof -
    have "count (live (mset W) (mset R) st) r \<le> 1" using c by (simp add: cons_def)
    then show ?thesis by (simp add: live_def)
  qed
  then have "count (mset (R @ W)) r = (if r \<in> set (R @ W) then 1 else 0)" for r
    by (metis One_nat_def count_mset_0_iff le_Suc_eq le_zero_eq)
  then show ?thesis unfolding distinct_count_atmost_1 by blast
qed

text \<open>What a pass leaves in the batch runs, what it leaves in the queue is queued.\<close>

lemma form_batch_states:
  assumes "form_batch ops pol ctx st0 = Inr (exit, st2, st4)" "kv_store ops" "queues_ok st0" "0 \<le> bc_max_tokens ctx" "peek_stable ctx"
    and "\<forall>r \<in> set (bf_running st0). rq_state (bf_reqs st0 r) = StateRunning"
    and "\<forall>r \<in> set (bf_waitq st0). rq_state (bf_reqs st0 r) = StateQueued"
  shows "mset (bf_waitq st4) + mset (bf_running st4) = mset (bf_waitq st0) + mset (bf_running st0)"
    and "\<And>r. r \<in> set (bf_running st4) \<Longrightarrow> rq_state (bf_reqs st4 r) = StateRunning"
    and "\<And>r. r \<in> set (bf_waitq st4) \<Longrightarrow> rq_state (bf_reqs st4 r) = StateQueued"
    and "\<And>r. r \<notin> set (bf_running st0 @ bf_waitq st0) \<Longrightarrow> rq_state (bf_reqs st4 r) = rq_state (bf_reqs st0 r)"
proof -
  obtain adm where one: "phase1_rel (pass_start ctx st0) st2" and two: "phase2_rel ctx adm st2 st4"
    by (rule kv_store.form_batch_phases [OF assms(2,1,3-5)]) blast
  have z: "rq_state (bf_reqs (pass_start ctx st0) r) = rq_state (bf_reqs st0 r)" for r
    by (simp add: pass_start_def zero_new_tokens_def)
  obtain evs where evs: "distinct evs" "set evs \<subseteq> set (bf_running st0)"
      "bf_running st2 = filter (\<lambda>x. x \<notin> set evs) (bf_running st0)" "bf_waitq st2 = rev evs @ bf_waitq st0"
      "\<forall>x \<in> set evs. bf_reqs st2 x = evicted (bf_reqs (pass_start ctx st0) x)"
      "\<forall>x. x \<notin> set evs \<longrightarrow> (\<exists>n. bf_reqs st2 x = (bf_reqs (pass_start ctx st0) x)\<lparr>rq_new_tokens := n\<rparr>)"
    using one unfolding phase1_rel_def pass_start_fields by blast
  have e: "rq_state (bf_reqs st2 x) = StateQueued" if "x \<in> set evs" for x
    using evs(5) that by (simp add: evicted_def reset_preempted_def)
  have s: "rq_state (bf_reqs st2 x) = rq_state (bf_reqs st0 x)" if "x \<notin> set evs" for x
    using evs(6) [rule_format, OF that] z [of x] by auto
  have adm: "distinct adm" "set adm \<subseteq> set (bf_waitq st2)" "bf_running st4 = bf_running st2 @ adm"
      "bf_waitq st4 = filter (\<lambda>x. x \<notin> set adm) (bf_waitq st2)"
      "\<forall>x. x \<notin> set adm \<longrightarrow> bf_reqs st4 x = bf_reqs st2 x"
    using two unfolding phase2_rel_def by blast+
  have a: "rq_state (bf_reqs st4 x) = StateRunning" if "x \<in> set adm" for x
    using two that unfolding phase2_rel_def admitted_from_def by fastforce
  have d: "distinct (bf_running st0 @ bf_waitq st0)" using assms(3) by (simp add: queues_ok_def)
  have "distinct (bf_waitq st4 @ bf_running st4)" using d evs(1-4) adm(1-4) by auto
  moreover have "set (bf_waitq st4 @ bf_running st4) = set (bf_waitq st0 @ bf_running st0)" using evs(2-4) adm(2-4) by auto
  moreover have "distinct (bf_waitq st0 @ bf_running st0)" using d by auto
  ultimately show "mset (bf_waitq st4) + mset (bf_running st4) = mset (bf_waitq st0) + mset (bf_running st0)"
    by (metis mset_append set_eq_iff_mset_eq_distinct)
  show "rq_state (bf_reqs st4 r) = StateRunning" if "r \<in> set (bf_running st4)" for r
  proof (cases "r \<in> set adm")
    case False
    then show ?thesis using that evs(3) adm(3,5) s [of r] assms(6) by auto
  qed (rule a)
  show "rq_state (bf_reqs st4 r) = StateQueued" if "r \<in> set (bf_waitq st4)" for r
    using that evs(4) adm(4,5) e [of r] s [of r] assms(7) by (cases "r \<in> set evs") auto
  show "rq_state (bf_reqs st4 r) = rq_state (bf_reqs st0 r)" if "r \<notin> set (bf_running st0 @ bf_waitq st0)" for r
  proof -
    have "r \<notin> set evs" "r \<notin> set adm" using that evs(2,4) adm(2) by auto
    then show ?thesis using s [of r] adm(5) by simp
  qed
qed

definition env_wf :: "('k, 'c) sim_env \<Rightarrow> bool" where
  "env_wf env \<longleftrightarrow> kv_store (se_ops env) \<and> 0 \<le> se_max_tokens env"

lemma batch_context_peek: "peek_stable (batch_context env now st)" "bc_max_tokens (batch_context env now st) = se_max_tokens env"
  by (simp_all add: peek_stable_def batch_context_def)

lemma cons_batch:
  assumes "form_batch (se_ops env) pol (batch_context env now st) (batch_view st) = Inr (x, st2, b)" "env_wf env" "sim_cons v F G k T st"
  shows "sim_cons v F G k T (batch_adopt b st)"
proof -
  let ?W = "mset (si_waitq st)" and ?R = "mset (running_list st)" and ?st = "batch_adopt b st"
  have c: "cons v F G k T ?W ?R st" using assms(3) by (simp add: sim_cons_def)
  have v: "bf_running (batch_view st) = running_list st" "bf_waitq (batch_view st) = si_waitq st" "bf_reqs (batch_view st) = si_reqs st"
    by (simp_all add: batch_view_def)
  have q: "queues_ok (batch_view st)" using cons_queues_distinct [OF c] by (simp add: queues_ok_def v)
  have run: "\<forall>r \<in> set (bf_running (batch_view st)). rq_state (bf_reqs (batch_view st) r) = StateRunning"
    and wait: "\<forall>r \<in> set (bf_waitq (batch_view st)). rq_state (bf_reqs (batch_view st) r) = StateQueued"
    using c by (auto simp: cons_def v)
  have env: "kv_store (se_ops env)" "0 \<le> bc_max_tokens (batch_context env now st)"
    using assms(2) by (simp_all add: env_wf_def batch_context_peek)
  note fb = form_batch_states [OF assms(1) env(1) q env(2) batch_context_peek(1) run wait, unfolded v]
  have f: "si_waitq ?st = bf_waitq b" "running_list ?st = bf_running b" "si_reqs ?st = bf_reqs b" "si_session ?st = si_session st"
    by (simp_all add: batch_adopt_def running_list_def)
  have ev: "ev_mset ?st = ev_mset st" by (simp add: batch_adopt_def ev_mset_def)
  have same: "pending ?st = pending st" "timeouts ?st = timeouts st" "registered ?st = registered st" "terminal_count ?st = terminal_count st"
      "me_still_running (si_metrics ?st) = me_still_running (si_metrics st)" "me_dropped (si_metrics ?st) = me_dropped (si_metrics st)"
    using pending_same [OF ev] by (simp_all add: batch_adopt_def registered_def terminal_count_def)
  have l: "live (mset (bf_waitq b)) (mset (bf_running b)) ?st = live ?W ?R st" using fb(1) by (simp add: live_def same add.assoc)
  have other: "rq_state (bf_reqs b r) = rq_state (si_reqs st r)" if "r \<notin># ?W + ?R" for r using fb(4) [of r] that by simp
  have p: "r \<notin># ?W + ?R" if "r \<in># pending st" for r
  proof -
    have "0 < count (pending st) r" using that by simp
    moreover have "count (live ?W ?R st) r \<le> 1" using c by (simp add: cons_def)
    ultimately have "count (?W + ?R) r = 0" unfolding live_def count_union by linarith
    then show ?thesis by (simp add: not_in_iff)
  qed
  have T: "r \<notin># ?W + ?R" if "(r, s) \<in> T" for r s using cons_frozen [OF c that] by (auto simp: live_def)
  have t: "terminal (rq_state (bf_reqs b r))" if "r \<in> set (registered st)" "r \<notin># live ?W ?R st" for r
    using that other [of r] c by (auto simp: cons_def live_def)
  have qd: "rq_state (bf_reqs b r) = StateQueued" if "r \<in># pending st + mset (bf_waitq b)" for r
    using that fb(3) [of r] other [of r] p [of r] c by (auto simp: cons_def)
  show ?thesis
    unfolding sim_cons_def f cons_def l unfolding same f
  proof (intro conjI)
    show "\<forall>(r, s) \<in> T. r \<in> set (registered st) \<and> terminal s \<and> rq_state (bf_reqs b r) = s"
      using c other T by (fastforce simp: cons_def)
  qed (use c t qd fb(2) in \<open>auto simp: cons_def\<close>)
qed

lemma finish_request_retires:
  assumes "finish_request env now adv r st = Inr st'"
  obtains s where "retires {} 1 st s" "si_waitq s = si_waitq st" "st' = request_done env r (now + adv) s"
proof -
  obtain kv where st': "st' = request_done env r (now + adv) (record_request_completion env r
      (si_schedule (RequestLeftEvent (now + adv) r)
        (si_set_req r (\<lambda>q. q\<lparr>rq_fin_step := si_step_count st, rq_departure := now + adv\<rparr>) (st\<lparr>si_kv := kv\<rparr>))))"
    using assms by (auto simp: finish_request_def Let_def obind_Inr_iff)
  let ?a = "st\<lparr>si_kv := kv\<rparr>"
  let ?b = "si_set_req r (\<lambda>q. q\<lparr>rq_fin_step := si_step_count st, rq_departure := now + adv\<rparr>) ?a"
  let ?c = "si_schedule (RequestLeftEvent (now + adv) r) ?b"
  have "retires {} 0 st ?a" by (rule neutral_same) simp_all
  moreover have "retires {} 0 ?a ?b" by (rule neutral_set_req) simp_all
  moreover have "retires {} 0 ?b ?c" by (rule neutral_schedule) simp_all
  ultimately have "retires {} 1 st (record_request_completion env r ?c)"
    using neutral_trans neutral_then_retires retires_record_completion by metis
  then show thesis by (rule that) (simp_all add: st' record_request_completion_def Let_def)
qed

lemma cons_completion:
  assumes "process_completion env now adv r st = Inr (stays, st')" "cons v F G k T Q (add_mset r R) st" "session_fresh F G env"
  shows "cons v F G k T Q (if stays then add_mset r R else R) st'" "si_waitq st' = si_waitq st"
proof -
  have leave: "cons v F G k T Q R st' \<and> si_waitq st' = si_waitq st"
    if "retires {r} 0 st s" "finish_request env now adv r s = Inr st'" "si_waitq s = si_waitq st" for s
    using that(2)
  proof (rule finish_request_retires)
    fix u assume u: "retires {} 1 s u" "si_waitq u = si_waitq s" "st' = request_done env r (now + adv) u"
    have "retires {r} 1 st u" using retires_trans [OF that(1) u(1)] by simp
    then have "cons v F G k T Q R u" by (rule cons_retire [OF assms(2)]) (simp_all add: live_def)
    then show ?thesis using u cons_request_done assms(3) that(3) by simp
  qed
  from assms(1) have "cons v F G k T Q (if stays then add_mset r R else R) st' \<and> si_waitq st' = si_waitq st"
  proof (cases rule: process_completion_cases)
    case (completed st1)
    let ?s = "si_set_req r (\<lambda>q. q\<lparr>rq_state := StateCompleted\<rparr>) st"
    have "retires {r} 0 st ?s" by (rule retires_set_terminal) (simp_all add: terminal_def)
    then have "retires {r} 0 st st1" using neutral_final_token [OF completed(3)] by (rule retires_then_neutral)
    moreover have "si_waitq st1 = si_waitq st" using completed(3) by (auto simp: final_token_def Let_def obind_Inr_iff split: if_splits)
    ultimately show ?thesis using leave completed(2,4) by simp
  next
    case capped
    have "si_waitq (mark_capped r st) = si_waitq st" by (simp add: mark_capped_def)
    then show ?thesis using leave [OF mark_capped_retires capped(5)] capped(2) by simp
  qed (use assms(2) in simp)
  then show "cons v F G k T Q (if stays then add_mset r R else R) st'" "si_waitq st' = si_waitq st" by simp_all
qed

lemma cons_completions:
  assumes "process_completions env now adv rs st = Inr (left, st')" "cons v F G k T Q (mset rs + R) st" "session_fresh F G env"
  shows "cons v F G k T Q (mset left + R) st' \<and> si_waitq st' = si_waitq st"
  using assms(1,2)
proof (induction rs arbitrary: st left R)
  case Nil
  then show ?case by simp
next
  case (Cons r rs)
  obtain stays st1 left1 where one: "process_completion env now adv r st = Inr (stays, st1)"
      and rest: "process_completions env now adv rs st1 = Inr (left1, st')" and left: "left = (if stays then r # left1 else left1)"
    using Cons.prems(1) by (auto simp: obind_Inr_iff split: prod.splits)
  have "cons v F G k T Q (add_mset r (mset rs + R)) st" using Cons.prems(2) by simp
  note c = cons_completion [OF one this assms(3)]
  show ?case
  proof (cases stays)
    case True
    then have "cons v F G k T Q (mset rs + add_mset r R) st1" using c(1) by simp
    from Cons.IH [OF rest this] show ?thesis using c(2) left True by simp
  next
    case False
    then have "cons v F G k T Q (mset rs + R) st1" using c(1) by simp
    then show ?thesis using Cons.IH [OF rest] c(2) left False by simp
  qed
qed

lemma sim_cons_neutral:
  "retires {} 0 st st' \<Longrightarrow> mset (si_waitq st') = mset (si_waitq st) \<Longrightarrow> running_list st' = running_list st \<Longrightarrow> sim_cons v F G k T st \<Longrightarrow> sim_cons v F G k T st'"
  unfolding sim_cons_def using cons_neutral by metis

lemma schedule_step_neutral: "retires {} 0 st (si_schedule_step t st)"
proof -
  have "retires {} 0 st (si_schedule (StepEvent t) st)" by (rule neutral_schedule) simp_all
  moreover have "retires {} 0 s (s\<lparr>si_step_event := e\<rparr>)" for s :: "('a, 'b) sim" and e by (rule neutral_same) simp_all
  ultimately show ?thesis unfolding si_schedule_step_def by (rule neutral_trans)
qed

lemma cons_next_step:
  assumes "cons v F G k T (mset (si_waitq st)) (mset left) st"
  shows "sim_cons v F G k T (schedule_next_step now adv left st)"
proof -
  have s: "retires {} 0 st (st\<lparr>si_running := rs, si_step_event := e\<rparr>)" "retires {} 0 st (st\<lparr>si_running := rs\<rparr>)" for rs e
    by (rule neutral_same; simp add: ev_mset_def)+
  show ?thesis
  proof (cases "left = []")
    case False
    have "retires {} 0 st (si_schedule_step (now + adv) (st\<lparr>si_running := Some left\<rparr>))"
      by (rule neutral_trans [OF s(2) schedule_step_neutral])
    from cons_neutral [OF this assms] show ?thesis using False
      by (simp add: schedule_next_step_def sim_cons_def running_list_def)
  next
    case True
    let ?st1 = "st\<lparr>si_running := None, si_step_event := None\<rparr>"
    have "retires {} 0 st ?st1" "retires {} 0 st (si_schedule_step (now + adv) ?st1)"
      using s(1) neutral_trans [OF s(1) schedule_step_neutral] by blast+
    from this [THEN cons_neutral, OF assms] show ?thesis using True
      by (simp add: schedule_next_step_def sim_cons_def running_list_def Let_def)
  qed
qed

section \<open>One iteration of the loop\<close>

lemma note_scheduled_queues [simp]:
  "si_waitq (note_scheduled now r st) = si_waitq st" "running_list (note_scheduled now r st) = running_list st"
proof -
  have "si_waitq (record_adapter_residency r s) = si_waitq s \<and> running_list (record_adapter_residency r s) = running_list s"
    for s :: "('a, 'b) sim"
    by (auto simp: record_adapter_residency_def Let_def running_list_def split: option.split)
  then show "si_waitq (note_scheduled now r st) = si_waitq st" "running_list (note_scheduled now r st) = running_list st"
    by (simp_all add: note_scheduled_def)
qed

lemma fold_note_scheduled_queues [simp]:
  "si_waitq (fold (note_scheduled now) rs st) = si_waitq st" "running_list (fold (note_scheduled now) rs st) = running_list st"
  by (induction rs arbitrary: st) simp_all

lemma maybe_start_neutral:
  assumes "maybe_start_adapter_load env now st = Inr st'"
  shows "retires {} 0 st st'" "si_waitq st' = si_waitq st" "running_list st' = running_list st"
proof -
  have same: "retires {} 0 st (st\<lparr>si_resident := x\<rparr>)" for x by (rule neutral_same) simp_all
  have load: "retires {} 0 s (begin_load a now l s)" for a l and s :: "('a, 'b) sim"
  proof -
    have "retires {} 0 s (s\<lparr>si_loading := a\<rparr>)" by (rule neutral_same) simp_all
    moreover have "retires {} 0 (s\<lparr>si_loading := a\<rparr>) (begin_load a now l s)"
      unfolding begin_load_def by (rule neutral_schedule) simp_all
    ultimately show ?thesis by (rule neutral_trans)
  qed
  have ev: "retires {} 0 s (si_count (\<lambda>m. m\<lparr>me_adapter_evictions := (me_adapter_evictions m)(v := me_adapter_evictions m v + 1)\<rparr>) s)"
    for v and s :: "('a, 'b) sim" by (rule neutral_count) simp_all
  have "retires {} 0 st st' \<and> si_waitq st' = si_waitq st \<and> si_running st' = si_running st"
    using assms same load neutral_trans [OF neutral_trans [OF same ev] load]
    unfolding maybe_start_adapter_load_def Let_def by (auto split: option.splits if_splits prod.splits)
  then show "retires {} 0 st st'" "si_waitq st' = si_waitq st" "running_list st' = running_list st"
    by (simp_all add: running_list_def)
qed

lemma schedule_batch_cons:
  assumes "schedule_batch env now st = Inr st'" "env_wf env" "sim_cons v F G k T st"
  shows "sim_cons v F G k T st'"
  using assms(1)
proof (rule schedule_batch_parts)
  fix q st2 x s2 b
  let ?st1 = "st\<lparr>si_step_count := si_step_count st + 1, si_kv := se_set_clock env now (si_kv st), si_waitq := q\<rparr>"
  assume q: "q = order_queue (se_scheduler env) (si_reqs st) (si_waitq st)"
    and st2: "maybe_start_adapter_load env now ?st1 = Inr st2"
    and b: "form_batch (se_ops env) (se_policy env) (batch_context env now st2) (batch_view st2) = Inr (x, s2, b)"
    and st': "st' = record_queue_snapshots (fold (note_scheduled now) (bf_scheduled b) (batch_adopt b st2))"
  have "retires {} 0 st ?st1" by (rule neutral_same) (simp_all add: ev_mset_def)
  then have "sim_cons v F G k T ?st1" by (rule sim_cons_neutral) (use assms(3) q in \<open>simp_all add: running_list_def\<close>)
  then have "sim_cons v F G k T st2"
    by (rule sim_cons_neutral [OF maybe_start_neutral(1) [OF st2], rotated -1]) (simp_all add: maybe_start_neutral [OF st2])
  then have "sim_cons v F G k T (batch_adopt b st2)" by (rule cons_batch [OF b assms(2)])
  moreover have "retires {} 0 (batch_adopt b st2) (fold (note_scheduled now) (bf_scheduled b) (batch_adopt b st2))"
    by (intro neutral_fold neutral_note_scheduled)
  moreover have "retires {} 0 s (record_queue_snapshots s)" for s :: "('a, 'b) sim"
    unfolding record_queue_snapshots_def by (rule neutral_count) simp_all
  moreover have "si_waitq st' = si_waitq (batch_adopt b st2)" "running_list st' = running_list (batch_adopt b st2)"
    by (simp_all add: st' record_queue_snapshots_def)
  ultimately show ?thesis unfolding st' by (metis neutral_trans sim_cons_neutral)
qed

lemma exec_queues [simp]:
  "si_waitq (exec_request env now adv r st) = si_waitq st" "running_list (exec_request env now adv r st) = running_list st"
  by (simp_all add: exec_request_def Let_def)

lemma fold_exec_queues [simp]:
  "si_waitq (fold (exec_request env now adv) rs st) = si_waitq st" "running_list (fold (exec_request env now adv) rs st) = running_list st"
  by (induction rs arbitrary: st) simp_all

lemma execute_queues:
  "execute_batch_step env now st = (adv, st') \<Longrightarrow> si_waitq st' = si_waitq st \<and> running_list st' = running_list st"
  by (auto simp: execute_batch_step_def Let_def record_kv_usage_def split: prod.splits)

lemma sim_step_cons:
  assumes "sim_step env now st = Inr st'" "env_wf env" "session_fresh F G env" "sim_cons v F G k T st"
  shows "sim_cons v F G k T st'"
  using assms(1)
proof (cases rule: sim_step_cases)
  case nothing
  then have st': "st' = st\<lparr>si_step_event := None\<rparr>" by simp
  have "retires {} 0 st st'" unfolding st' by (rule neutral_same) simp_all
  then show ?thesis by (rule sim_cons_neutral) (use st' assms(4) in simp_all)
next
  case (work st1 adv st2 st3 left st4)
  have "sim_cons v F G k T st1" by (rule schedule_batch_cons [OF work(1) assms(2,4)])
  then have "sim_cons v F G k T st2"
    by (rule sim_cons_neutral [OF neutral_execute_batch_step [OF work(2)], rotated -1]) (use execute_queues [OF work(2)] in simp_all)
  moreover have "retires {} 0 st2 st3" unfolding work(3) by (rule neutral_same) simp_all
  ultimately have "sim_cons v F G k T st3" by (rule sim_cons_neutral [rotated -1]) (simp_all add: work(3))
  then have "cons v F G k T (mset (si_waitq st3)) (mset (running_list st3) + {#}) st3" by (simp add: sim_cons_def)
  from cons_completions [OF work(4) this assms(3)] have "cons v F G k T (mset (si_waitq st4)) (mset left) st4" by simp
  then show ?thesis unfolding work(5) by (rule cons_next_step)
qed

lemma timeout_mark_retires: "retires {r} 1 st (timeout_mark r st)"
proof -
  let ?m = "si_set_req r (\<lambda>q. q\<lparr>rq_state := StateTimedOut\<rparr>) st"
  let ?st = "si_count (\<lambda>m. m\<lparr>me_timed_out := me_timed_out m + 1\<rparr>) ?m"
  have "retires {r} 0 st ?m" by (rule retires_set_terminal) (simp_all add: terminal_def)
  moreover have "retires {} 1 ?m ?st"
    using pending_same [of ?st ?m] by (simp add: retires_def terminal_count_def registered_def)
  ultimately have "retires {r} 1 st ?st" using retires_trans [of "{r}" 0 st ?m "{}" 1 ?st] by simp
  then show ?thesis unfolding timeout_mark_def by (rule retires_then_neutral [OF _ neutral_release_pin])
qed

lemma timeout_leave_neutral: "retires {} 0 st (timeout_leave env r was kv st)"
  by (rule neutral_same) (auto simp: timeout_leave_def timeout_remove_def Let_def ev_mset_def)

lemma timeout_wake_neutral: "retires {} 0 st (timeout_wake now st)"
  by (simp add: timeout_wake_def schedule_step_neutral)

lemma mset_filter_neq: "distinct xs \<Longrightarrow> r \<in> set xs \<Longrightarrow> mset xs = add_mset r (mset (filter (\<lambda>x. x \<noteq> r) xs))"
proof (induction xs)
  case (Cons x xs)
  have "mset (filter (\<lambda>y. y \<noteq> x) xs) = mset xs" if "x \<notin> set xs" using that by (induction xs) auto
  then show ?case using Cons by auto
qed simp

lemma timeout_request_cons:
  assumes "timeout_request env r now st = Inr st'" "session_fresh F G env" "sim_cons v F G k T st" "r \<in> set (registered st)" "r \<notin># pending st"
  shows "sim_cons v F G k T st'"
  using assms(1)
proof (cases rule: timeout_request_cases)
  case ignored
  then show ?thesis using assms(3) by simp
next
  case (fired kv)
  let ?was = "rq_state (si_reqs st r) = StateRunning"
  let ?W = "mset (si_waitq st)" and ?R = "mset (running_list st)"
  let ?st2 = "timeout_leave env r ?was kv (timeout_mark r st)"
  let ?st3 = "timeout_wake now ?st2"
  have c: "cons v F G k T ?W ?R st" using assms(3) by (simp add: sim_cons_def)
  have d: "distinct (running_list st)" using cons_queues_distinct [OF c] by simp
  have "r \<in># live ?W ?R st" using c fired(1,2) assms(4) by (auto simp: cons_def terminal_def)
  then have "r \<in># ?W + ?R" using assms(5) by (simp add: live_def)
  moreover have "rq_state (si_reqs st r) = StateQueued" if "r \<in># ?W" using c that by (auto simp: cons_def)
  moreover have "?was" if "r \<in># ?R" using c that by (auto simp: cons_def)
  ultimately have w: "if ?was then r \<in># ?R else r \<in># ?W" by auto
  have q2: "si_waitq ?st2 = (if ?was then si_waitq st else remove1 r (si_waitq st))"
      "running_list ?st2 = (if ?was then filter (\<lambda>x. x \<noteq> r) (running_list st) else running_list st)" by simp_all
  have l: "live ?W ?R st = add_mset r (live (mset (si_waitq ?st2)) (mset (running_list ?st2)) st)"
  proof (cases ?was)
    case True
    then have "?R = add_mset r (mset (running_list ?st2))" using w d mset_filter_neq by simp
    then show ?thesis using True by (simp add: live_def)
  next
    case False
    then have "?W = add_mset r (mset (si_waitq ?st2))" using w by simp
    then show ?thesis using False by (simp add: live_def)
  qed
  have "retires {r} 1 st ?st3"
    by (rule retires_then_neutral [OF timeout_mark_retires neutral_trans [OF timeout_leave_neutral timeout_wake_neutral]])
  then have "cons v F G k T (mset (si_waitq ?st2)) (mset (running_list ?st2)) ?st3"
  proof (rule cons_retire [OF c _ l])
    show "mset (si_waitq ?st2) \<subseteq># ?W" unfolding q2 by (simp add: diff_subset_eq_self)
    show "mset (running_list ?st2) \<subseteq># ?R" unfolding q2 by (simp add: mset_filter)
  qed
  moreover have "si_waitq ?st3 = si_waitq ?st2" "running_list ?st3 = running_list ?st2" by (simp_all add: timeout_wake_def)
  ultimately have "sim_cons v F G k T ?st3" by (simp add: sim_cons_def)
  then show ?thesis unfolding fired(4) using cons_request_done [OF _ assms(2)] by (simp add: sim_cons_def)
qed

lemma complete_load_neutral:
  assumes "complete_adapter_load now a st = Inr st'"
  shows "retires {} 0 st st'" "si_waitq st' = si_waitq st" "running_list st' = running_list st"
proof -
  have same: "retires {} 0 s (s\<lparr>si_resident := x\<rparr>)" "retires {} 0 s (s\<lparr>si_loading := l\<rparr>)" for x l and s :: "('a, 'b) sim"
    by (rule neutral_same; simp)+
  have ld: "retires {} 0 s (si_count (\<lambda>m. m\<lparr>me_adapter_loads := (me_adapter_loads m)(a := me_adapter_loads m a + 1)\<rparr>) s)"
    for s :: "('a, 'b) sim" by (rule neutral_count) simp_all
  have idle: "retires {} 0 s (schedule_step_if_idle now s)" for s :: "('a, 'b) sim"
    by (simp add: schedule_step_if_idle_def schedule_step_neutral)
  have "\<exists>s. retires {} 0 st s \<and> si_waitq s = si_waitq st \<and> si_running s = si_running st \<and> (st' = s \<or> st' = schedule_step_if_idle now s)"
  proof (cases "si_resident st")
    case None
    then show ?thesis using assms by (auto simp: complete_adapter_load_def intro!: exI [of _ st])
  next
    case (Some rs)
    then obtain e adm rs1 where r: "rs_store a rs = Some ((e, adm), rs1)"
      using assms by (auto simp: complete_adapter_load_def split: option.splits)
    let ?a = "st\<lparr>si_resident := Some rs1\<rparr>"
    let ?b = "if adm then si_count (\<lambda>m. m\<lparr>me_adapter_loads := (me_adapter_loads m)(a := me_adapter_loads m a + 1)\<rparr>) ?a else ?a"
    have st': "st' = schedule_step_if_idle now (?b\<lparr>si_loading := ''''\<rparr>)"
      using assms Some r by (simp add: complete_adapter_load_def Let_def split: if_splits)
    have "retires {} 0 st ?b" using neutral_trans [OF same(1) ld] same(1) by auto
    then have "retires {} 0 st (?b\<lparr>si_loading := ''''\<rparr>)" by (rule neutral_trans [OF _ same(2)])
    then show ?thesis using st' by (intro exI [of _ "?b\<lparr>si_loading := ''''\<rparr>"]) simp
  qed
  then obtain s where "retires {} 0 st s" "si_waitq s = si_waitq st" "si_running s = si_running st" "st' = s \<or> st' = schedule_step_if_idle now s"
    by blast
  moreover from this have "retires {} 0 st (schedule_step_if_idle now s)" using neutral_trans [OF _ idle] by blast
  ultimately have "retires {} 0 st st' \<and> si_waitq st' = si_waitq st \<and> si_running st' = si_running st"
    by (elim disjE) (simp_all add: schedule_step_if_idle_def)
  then show "retires {} 0 st st'" "si_waitq st' = si_waitq st" "running_list st' = running_list st"
    by (simp_all add: running_list_def)
qed

lemma step_if_idle_cons: "sim_cons v F G k T st \<Longrightarrow> sim_cons v F G k T (schedule_step_if_idle t st)"
proof -
  have "retires {} 0 st (schedule_step_if_idle t st)" by (simp add: schedule_step_if_idle_def schedule_step_neutral)
  then show "sim_cons v F G k T st \<Longrightarrow> sim_cons v F G k T (schedule_step_if_idle t st)"
    by (rule sim_cons_neutral) (simp_all add: schedule_step_if_idle_def)
qed

text \<open>The event popped: what was pending is what still is, and the event's own request.\<close>

lemma popped:
  assumes "ev_mset st = add_mset ev (ev_mset st1)"
  shows "pending st = (case pending_of ev of None \<Rightarrow> pending st1 | Some r \<Rightarrow> add_mset r (pending st1))"
    and "timeouts st = (case timeout_of ev of None \<Rightarrow> timeouts st1 | Some r \<Rightarrow> insert r (timeouts st1))"
  using assms by (auto simp: pending_def timeouts_def split: option.split)

lemma popped_cons:
  assumes "cons v F G k T Q R st" "ev_mset st = add_mset ev (ev_mset st1)" "si_metrics st1 = si_metrics st" "si_reqs st1 = si_reqs st"
    "si_session st1 = si_session st"
  shows "cons v F G k T (case pending_of ev of None \<Rightarrow> Q | Some r \<Rightarrow> add_mset r Q) R st1"
proof -
  let ?Q = "case pending_of ev of None \<Rightarrow> Q | Some r \<Rightarrow> add_mset r Q"
  have s: "registered st1 = registered st" "terminal_count st1 = terminal_count st"
    using assms(3) by (simp_all add: registered_def terminal_count_def)
  have p: "pending st1 + ?Q = pending st + Q" unfolding popped(1) [OF assms(2)] by (simp split: option.split)
  then have l: "live ?Q R st1 = live Q R st" by (simp add: live_def add.assoc [symmetric])
  have "timeouts st1 \<subseteq> timeouts st" "set_mset (pending st1) \<subseteq> set_mset (pending st)"
    unfolding popped [OF assms(2)] by (auto split: option.split)
  then show ?thesis using assms(1,3-5) unfolding cons_def l s p by auto
qed

lemma arrival_cons:
  assumes "cons v F G k T Q R st" "ev_mset st = add_mset (ArrivalEvent t r) (ev_mset st1)"
    and "si_metrics st1 = si_metrics st" "si_reqs st1 = si_reqs st" "si_session st1 = si_session st"
  shows "cons v F G k T Q R (si_schedule (QueuedEvent u r) st1)"
proof -
  let ?st = "si_schedule (QueuedEvent u r) st1"
  have e: "pending ?st = pending st" "timeouts ?st = timeouts st" using popped [OF assms(2)] by simp_all
  have "registered ?st = registered st" "terminal_count ?st = terminal_count st"
    using assms(3) by (simp_all add: registered_def terminal_count_def)
  then show ?thesis using assms unfolding cons_def live_def e by simp
qed

lemma process_next_cons:
  assumes "process_next env st = Inr (ev, st')" "sched_inv st" "env_wf env" "session_fresh F G env" "sim_cons v F G k T st"
  shows "sim_cons v F G k T st'"
  using assms(1)
proof (rule process_next_cases)
  fix e q
  assume pop: "eq_pop (si_events st) = Some (e, q)" and ev: "ev = ee_event e"
    and or: "(\<exists>t r. ev = TimeoutEvent t r \<and> rq_state (si_reqs st r) = StateCompleted) \<and> st' = st\<lparr>si_events := q\<rparr> \<or>
     exec_event env ev (st\<lparr>si_events := q, si_clock := ev_timestamp ev\<rparr>) = Inr st'"
  let ?W = "mset (si_waitq st)" and ?R = "mset (running_list st)"
  let ?st1 = "st\<lparr>si_events := q, si_clock := ev_timestamp ev\<rparr>"
  have m0: "ev_mset st = add_mset ev (ev_mset (st\<lparr>si_events := q\<rparr>))" using pop_mid(1) [OF assms(2) pop] ev by simp
  then have m: "ev_mset st = add_mset ev (ev_mset ?st1)" by (simp add: ev_mset_def)
  have c: "cons v F G k T ?W ?R st" using assms(5) by (simp add: sim_cons_def)
  have c1: "cons v F G k T (case pending_of ev of None \<Rightarrow> ?W | Some r \<Rightarrow> add_mset r ?W) ?R ?st1"
    by (rule popped_cons [OF c m]) simp_all
  have s1: "sim_cons v F G k T ?st1" if "pending_of ev = None" using c1 that by (simp add: sim_cons_def running_list_def)
  show "sim_cons v F G k T st'"
  proof (cases "(\<exists>t r. ev = TimeoutEvent t r \<and> rq_state (si_reqs st r) = StateCompleted) \<and> st' = st\<lparr>si_events := q\<rparr>")
    case True
    then have "pending_of ev = None" by auto
    then have "cons v F G k T ?W ?R (st\<lparr>si_events := q\<rparr>)" using popped_cons [OF c m0] by simp
    then show ?thesis using True by (simp add: sim_cons_def running_list_def)
  next
    case False
    then have ex: "exec_event env ev ?st1 = Inr st'" using or by blast
    show ?thesis
    proof (cases ev)
      case (ArrivalEvent t r)
      then have st': "st' = si_schedule (QueuedEvent (t + se_queueing_time env (si_reqs st r)) r) ?st1" using ex by simp
      have "ev_mset st = add_mset (ArrivalEvent t r) (ev_mset ?st1)" using m ArrivalEvent by simp
      then have "cons v F G k T ?W ?R st'" unfolding st' by (rule arrival_cons [OF c]) simp_all
      then show ?thesis by (simp add: sim_cons_def st' running_list_def)
    next
      case (QueuedEvent t r)
      then obtain st2 where st2: "enqueue_request env r ?st1 = Inr st2" and st': "st' = schedule_step_if_idle t st2"
        using ex by (auto simp: obind_Inr_iff)
      have cq: "cons v F G k T (add_mset r ?W) ?R ?st1" using c1 QueuedEvent by simp
      have "r \<in># pending st" using popped(1) [OF m] QueuedEvent by simp
      then have nt: "r \<notin> timeouts ?st1" using c popped(2) [OF m] QueuedEvent by (auto simp: cons_def)
      have q: "rq_state (si_reqs st r) = StateQueued" using cq by (simp add: cons_def)
      let ?f = "si_set_req r (auto_fill env) ?st1"
      let ?c = "count_input (input_len (auto_fill env (si_reqs ?st1 r))) ?f"
      have cf: "cons v F G k T (add_mset r ?W) ?R ?f" by (rule cons_neutral [OF neutral_auto_fill cq])
      have cc: "cons v F G k T (add_mset r ?W) ?R ?c" by (rule cons_neutral [OF neutral_count_input cf])
      from st2 have "sim_cons v F G k T st2"
      proof (cases rule: enqueue_request_cases)
        case ignored
        then show ?thesis using q by simp
      next
        case dropped
        have "r \<notin> timeouts ?f" using nt pending_same [of ?f ?st1] by simp
        then have "cons v F G k T ?W ?R st2" unfolding dropped(3) by (rule cons_drop [OF cf _ assms(4)])
        then show ?thesis using dropped(3) by (simp add: sim_cons_def drop_request_def running_list_def)
      next
        case past_due
        have "cons v F G k T ?W ?R st2" unfolding past_due(5) by (rule cons_expire [OF cc assms(4)])
        then show ?thesis using past_due(5) by (simp add: sim_cons_def expire_request_def running_list_def)
      next
        case queued
        have "cons v F G k T (add_mset r ?W) ?R st2" unfolding queued(4) by (rule cons_enter_queue [OF cc])
        then show ?thesis using queued(4) by (simp add: sim_cons_def enter_queue_queues count_input_def)
      qed
      then show ?thesis unfolding st' by (rule step_if_idle_cons)
    next
      case (AdapterLoadCompletionEvent t a)
      then have load: "complete_adapter_load t a ?st1 = Inr st'" using ex by simp
      show ?thesis
        by (rule sim_cons_neutral [OF complete_load_neutral(1) [OF load]])
          (use complete_load_neutral [OF load] s1 AdapterLoadCompletionEvent in simp_all)
    next
      case (StepEvent t)
      then have "sim_step env t ?st1 = Inr st'" using ex by simp
      then show ?thesis using sim_step_cons assms(3,4) s1 StepEvent by fastforce
    next
      case (ScheduledEvent t r)
      then show ?thesis using ex s1 by simp
    next
      case (RequestLeftEvent t r)
      then show ?thesis using ex s1 by simp
    next
      case (TimeoutEvent t r)
      then have to: "timeout_request env r t ?st1 = Inr st'" using ex by simp
      have "r \<in> timeouts st" using popped(2) [OF m] TimeoutEvent by simp
      then have "r \<in> set (registered st)" "r \<notin># pending st" using c by (auto simp: cons_def)
      moreover have "registered ?st1 = registered st" by (simp add: registered_def)
      moreover have "pending ?st1 = pending st" using popped(1) [OF m] TimeoutEvent by simp
      ultimately show ?thesis using timeout_request_cons [OF to assms(4)] s1 TimeoutEvent by simp
    qed
  qed
qed

end
