(* ===== verification/Sim_Reach.thy ===== *)
theory Sim_Reach
  imports Sim_Conserve
begin

text \<open>
  The states a simulator reaches by injecting requests and processing events, in any order, and
  the invariant all of them satisfy.
\<close>

section \<open>Reachable states\<close>

text \<open>
  A request may be injected at or after the clock, queued, under an identifier that is neither
  registered nor still to be issued by the session layer. The number counts these injections;
  \<open>c\<close> is the session layer's first state.
\<close>

inductive sim_reach ::
  "('k, 'c) sim_env \<Rightarrow> ('c \<Rightarrow> rid \<Rightarrow> bool) \<Rightarrow> 'c \<Rightarrow> nat \<Rightarrow> ('k, 'c) sim \<Rightarrow> bool" for env F c where
  start: "new_simulator env blocks bs cap reqs kv c = Inr st \<Longrightarrow> sim_reach env F c 0 st"
| inject: "sim_reach env F c n st \<Longrightarrow> si_clock st \<le> t \<Longrightarrow> rq_id q \<notin> set (registered st) \<Longrightarrow> rq_state q = StateQueued \<Longrightarrow>
    \<not> F (si_session st) (rq_id q) \<Longrightarrow> sim_reach env F c (Suc n) (inject_arrival_at q t st)"
| process: "sim_reach env F c n st \<Longrightarrow> process_next env st = Inr (ev, st') \<Longrightarrow> sim_reach env F c n st'"

lemma new_simulator_fields:
  assumes "new_simulator env blocks bs cap reqs kv c = Inr st"
  shows "0 < se_max_tokens env" "si_events st = []" "si_clock st = 0" "si_waitq st = []" "running_list st = []"
    "si_step_event st = None" "si_loading st = ''''" "si_metrics st = new_metrics" "si_session st = c" "si_kv st = kv"
    "si_computed st = Map.empty"
  using assms by (auto simp: new_simulator_def config_error_def running_list_def split: option.splits if_splits)

lemma new_simulator_inv:
  assumes "new_simulator env blocks bs cap reqs kv c = Inr st"
  shows "sched_inv st" "sim_cons 0 F G (- G c) {} st"
proof -
  note f = new_simulator_fields [OF assms]
  have e: "ev_mset st = {#}" using f(2) by (simp add: ev_mset_def)
  have p: "pending st = {#}" "timeouts st = {}" by (simp_all add: pending_def timeouts_def e)
  show "sched_inv st"
    using f e by (simp add: sched_inv_def mid_def loads_ok_def work_pending_def eq_inv_def)
  show "sim_cons 0 F G (- G c) {} st"
    using f p by (simp add: sim_cons_def cons_def live_def registered_def terminal_count_def new_metrics_def)
qed

lemma inject_sched_inv:
  assumes "sched_inv st" "si_clock st \<le> t"
  shows "sched_inv (inject_arrival_at q t st)"
  by (rule adds_sched_inv [OF assms(1) adds_inject [OF assms(2)]]) (simp_all add: running_list_def)

lemma inject_running [simp]: "running_list (inject_arrival_at q t st) = running_list st"
  by (simp add: running_list_def)

lemma sim_reach_inv:
  assumes "sim_reach env F c n st" "env_ok env" "kv_store (se_ops env)" "session_fresh F G env"
  shows "sched_inv st \<and> sim_cons 0 F G (int n - G c) {} st \<and> env_wf env"
  using assms(1)
proof induction
  case (start blocks bs cap reqs kv st)
  then show ?case using new_simulator_inv new_simulator_fields(1) assms(3)
    by (fastforce simp: env_wf_def)
next
  case (inject n st t q)
  have "cons 0 F G (int n - G c + 1) {} (mset (si_waitq st)) (mset (running_list st)) (inject_arrival_at q t st)"
    by (rule cons_inject) (use inject in \<open>simp_all add: sim_cons_def\<close>)
  then show ?case using inject inject_sched_inv [of st t q] by (simp add: sim_cons_def algebra_simps)
next
  case (process n st ev st')
  then show ?case
    using process_next_inv(1) [OF process(2) assms(2)] process_next_cons [OF process(2) _ _ assms(4)] by blast
qed

section \<open>Runs with decode sub-requests\<close>

text \<open>
  Runs in time: requests are injected at or after the clock, under any identifier; blocks are
  reserved for a transferred cache (\<open>ReserveTransferredKV\<close>) or given back; a decode sub-request is
  registered and enqueued (\<open>InjectDecodeOnline\<close>) unless its deadline has passed; events are
  processed.
\<close>

definition inject_decode :: "('k, 'c) sim_env \<Rightarrow> request \<Rightarrow> tick \<Rightarrow> ('k, 'c) sim \<Rightarrow> ('k, 'c) sim" where
  "inject_decode env q t st =
     enqueue_decode_sub env (rq_id q) t (si_count (register_request q) (st\<lparr>si_reqs := (si_reqs st)(rq_id q := q)\<rparr>))"

definition past_due :: "('k, 'c) sim_env \<Rightarrow> request \<Rightarrow> ('k, 'c) sim \<Rightarrow> bool" where
  "past_due env q st \<longleftrightarrow> 0 < rq_deadline q \<and> rq_deadline q \<le> se_horizon env \<and> rq_deadline q < si_clock st"

inductive timed_reach :: "('k, 'c) sim_env \<Rightarrow> ('k, 'c) sim \<Rightarrow> bool" for env where
  timed_start: "new_simulator env blocks bs cap reqs kv c = Inr st \<Longrightarrow> timed_reach env st"
| timed_inject: "timed_reach env st \<Longrightarrow> si_clock st \<le> t \<Longrightarrow> timed_reach env (inject_arrival_at q t st)"
| timed_reserve: "timed_reach env st \<Longrightarrow> ko_allocate (se_ops env) q 0 (input_len q) [] (si_kv st) = Inr (ok, kv) \<Longrightarrow>
    timed_reach env (st\<lparr>si_kv := kv\<rparr>)"
| timed_give_back: "timed_reach env st \<Longrightarrow> ko_release (se_ops env) r (si_kv st) = Inr kv \<Longrightarrow> timed_reach env (st\<lparr>si_kv := kv\<rparr>)"
| timed_decode: "timed_reach env st \<Longrightarrow> \<not> past_due env q st \<Longrightarrow> timed_reach env (inject_decode env q t st)"
| timed_process: "timed_reach env st \<Longrightarrow> process_next env st = Inr (ev, st') \<Longrightarrow> timed_reach env st'"

lemma sched_inv_kv: "sched_inv (st\<lparr>si_kv := kv\<rparr>) = sched_inv st"
proof -
  have "ev_mset (st\<lparr>si_kv := kv\<rparr>) = ev_mset st" by (simp add: ev_mset_def)
  then show ?thesis by (simp add: sched_inv_def mid_def loads_ok_def work_pending_def running_list_def cong: if_cong)
qed

lemma adds_enter_queue_due:
  assumes "\<not> (0 < d \<and> d \<le> se_horizon env \<and> d < t)" "d = rq_deadline (si_reqs st r)"
  shows "adds t st (enter_queue env r st)"
proof (cases "0 < d \<and> d \<le> se_horizon env")
  case True
  then show ?thesis using adds_enter_queue(1) [of st r t env] assms by simp
next
  case False
  let ?st1 = "si_set_req r (\<lambda>q. q\<lparr>rq_priority := invert_for_vllm (se_slo_map env) (rq_slo_class q)\<rparr>) st"
  let ?st2 = "?st1\<lparr>si_waitq := wq_enqueue r (si_waitq ?st1)\<rparr>"
  have "rq_deadline (si_reqs ?st2 r) = d" using assms(2) by simp
  then have "enter_queue env r st = ?st2" using False unfolding enter_queue_def Let_def by (simp only: if_False)
  moreover have "adds t ?st1 ?st2" by (rule adds_same) simp_all
  ultimately show ?thesis using adds_trans adds_set_req by metis
qed

lemma inject_decode_inv:
  assumes "sched_inv st" "\<not> past_due env q st"
  shows "sched_inv (inject_decode env q t st)"
proof -
  let ?s = "si_count (register_request q) (st\<lparr>si_reqs := (si_reqs st)(rq_id q := q)\<rparr>)"
  let ?e = "enter_queue env (rq_id q) ?s"
  let ?n = "if si_step_event st = None then 0 else (1 :: nat)"
  have "adds (si_clock st) st ?s" by (intro adds_trans [OF _ adds_count] adds_same) simp_all
  moreover have "adds (si_clock st) ?s ?e"
    by (rule adds_enter_queue_due [where d = "rq_deadline q"]) (use assms(2) in \<open>simp_all add: past_due_def\<close>)
  ultimately have a: "adds (si_clock st) st ?e" by (rule adds_trans)
  have m: "mid (si_clock st) ?n ?e" using mid_adds [OF _ a] assms(1) by (simp add: sched_inv_def)
  have f: "si_step_event ?e = si_step_event st" "si_clock ?e = si_clock st" "running_list ?e = running_list st"
    using a by (simp_all add: adds_def running_list_def enter_queue_def Let_def)
  have w: "running_list st \<noteq> [] \<longrightarrow> si_step_event st \<noteq> None" using assms(1) by (simp add: sched_inv_def work_pending_def)
  show ?thesis
  proof (cases "running_list ?e = [] \<and> si_step_event ?e = None")
    case True
    let ?t = "if t > si_clock ?e then t else si_clock ?e"
    have "inject_decode env q t st = si_schedule_step ?t ?e"
      using True by (simp add: inject_decode_def enqueue_decode_sub_def Let_def)
    moreover have "mid (si_clock st) 1 (si_schedule_step ?t ?e)" using mid_step [OF m, of ?t] True f by simp
    ultimately show ?thesis using True by (intro sched_invI [of "si_clock st" 1]) (auto simp: work_pending_def)
  next
    case False
    then have "inject_decode env q t st = ?e" "si_step_event st \<noteq> None" using w f by (auto simp: inject_decode_def enqueue_decode_sub_def Let_def)
    then show ?thesis using m f by (intro sched_invI [of "si_clock st" ?n]) (auto simp: work_pending_def)
  qed
qed

lemma timed_reach_inv:
  assumes "timed_reach env st" "env_ok env"
  shows "sched_inv st"
  using assms(1)
proof induction
  case (timed_start blocks bs cap reqs kv c st)
  then show ?case by (rule new_simulator_inv(1))
next
  case (timed_process st ev st')
  then show ?case using process_next_inv(1) [OF timed_process(2) assms(2)] by blast
qed (simp_all add: inject_sched_inv inject_decode_inv sched_inv_kv)

text \<open>The runs of the conservation properties are among them.\<close>

lemma sim_reach_timed: "sim_reach env F c n st \<Longrightarrow> timed_reach env st"
  by (induction rule: sim_reach.induct) (auto intro: timed_reach.intros)

end
