(* ===== verification/Sim_Demo.thy ===== *)
theory Sim_Demo
  imports Sim_Reach KV_Properties
begin

text \<open>A concrete run of the simulator over the single-tier cache, the instance of the run properties.\<close>

definition demo_env :: "(kv_cache, unit) sim_env" where
  "demo_env = \<lparr>se_ops = single_tier, se_used = kv_used_blocks, se_total = (\<lambda>s. int (kc_total s)), se_set_clock = (\<lambda>_ s. s),
     se_mirror = (\<lambda>_ s. s), se_consume_latency = (\<lambda>s. (0, s)), se_clear_deferred = None, se_queueing_time = (\<lambda>_. 0),
     se_step_time = (\<lambda>_. 10), se_otpt = 0, se_post_decode = 0, se_load_latency = None, se_on_done = None,
     se_policy = PreemptionFCFS, se_scheduler = FCFSScheduler, se_slo_map = default_slo_map, se_horizon = 1000,
     se_max_seqs = 4, se_max_tokens = 8, se_prefill_threshold = 0, se_no_prefix_cache = True, se_max_model_len = 0,
     se_spec_enabled = False, se_spec_rate = 1\<rparr>"

lemma demo_env_ok: "env_ok demo_env" "kv_store (se_ops demo_env)" "session_fresh F G demo_env"
  using single_tier.kv_store_axioms
  by (simp_all add: env_ok_def session_ok_def session_fresh_def demo_env_def)

abbreviation never_issued :: "unit \<Rightarrow> rid \<Rightarrow> bool" where
  "never_issued \<equiv> \<lambda>_ _. False"

abbreviation late_request :: request where
  "late_request \<equiv> (demo_request ''a'' [7, 8, 9] [1])\<lparr>rq_deadline := 1\<rparr>"

abbreviation plain_request :: request where
  "plain_request \<equiv> demo_request ''b'' [7, 8, 9] [1]"

text \<open>Request a arrives at 5, past its deadline; request b at 9.\<close>

definition demo_start :: "kv_cache \<Rightarrow> (kv_cache, unit) sim" where
  "demo_start s = \<lparr>si_clock = 0, si_ctr = 0, si_events = [], si_waitq = [], si_kv = s, si_running = Some [],
         si_metrics = new_metrics, si_step_event = None, si_step_count = 0, si_computed = Map.empty, si_reqs = (\<lambda>_. plain_request),
         si_resident = None, si_loading = '''', si_session = ()\<rparr>"

lemma demo_start: "new_simulator demo_env 3 2 None (\<lambda>_. plain_request) s () = Inr (demo_start s)"
  by (simp add: new_simulator_def config_error_def demo_env_def demo_start_def)

definition demo_injected :: "kv_cache \<Rightarrow> (kv_cache, unit) sim" where
  "demo_injected s = inject_arrival_at plain_request 9 (inject_arrival_at late_request 5 (demo_start s))"

lemma demo_injected_reach: "sim_reach demo_env never_issued () 2 (demo_injected s)"
proof -
  have f: "si_clock (demo_start s) = 0" "registered (demo_start s) = []"
    by (simp_all add: demo_start_def registered_def new_metrics_def)
  show ?thesis unfolding demo_injected_def numeral_2_eq_2
    by (intro sim_reach.inject sim_reach.start [OF demo_start]) (simp_all add: f demo_request_def)
qed

text \<open>Processing a number of events.\<close>

fun run_events :: "nat \<Rightarrow> ('k, 'c) sim_env \<Rightarrow> ('k, 'c) sim \<Rightarrow> ('k, 'c) sim outcome" where
  "run_events 0 env st = Inr st"
| "run_events (Suc n) env st = obind (process_next env st) (\<lambda>(_, st1). run_events n env st1)"

lemma run_events_reach: "sim_reach env F c n0 st \<Longrightarrow> run_events n env st = Inr st' \<Longrightarrow> sim_reach env F c n0 st'"
  by (induction n arbitrary: st) (auto simp: obind_Inr_iff intro: sim_reach.process)

definition demo_cache :: kv_cache where
  "demo_cache = (case new_kv_cache 3 2 of Inr s \<Rightarrow> s | Inl _ \<Rightarrow> undefined)"

text \<open>After two events request a has timed out; the third is the arrival of b.\<close>

definition demo_check :: "(kv_cache, unit) sim \<Rightarrow> bool" where
  "demo_check st \<longleftrightarrow> rq_state (si_reqs st ''a'') = StateTimedOut \<and> map_of (me_requests (si_metrics st)) ''a'' \<noteq> None \<and>
     si_clock st = 5 \<and> me_timed_out (si_metrics st) = 1 \<and>
     (case process_next demo_env st of Inr (ev, st') \<Rightarrow> ev = ArrivalEvent 9 ''b'' \<and> si_clock st' = 9 | Inl _ \<Rightarrow> False)"

lemma demo_timed_out:
  obtains st st' where "sim_reach demo_env never_issued () 2 st" "demo_check st" "process_next demo_env st = Inr (ArrivalEvent 9 ''b'', st')"
proof -
  have "case run_events 2 demo_env (demo_injected demo_cache) of Inr st \<Rightarrow> demo_check st | Inl _ \<Rightarrow> False" by code_simp
  then obtain st where st: "run_events 2 demo_env (demo_injected demo_cache) = Inr st" "demo_check st"
    by (auto split: sum.splits)
  then obtain st' where "process_next demo_env st = Inr (ArrivalEvent 9 ''b'', st')"
    by (auto simp: demo_check_def split: sum.splits)
  then show thesis using that run_events_reach [OF demo_injected_reach st(1)] st(2) by blast
qed

end
