(* ===== verification/Sim_Properties.thy ===== *)
theory Sim_Properties
  imports Sim_Demo
begin

text \<open>
  Properties of whole runs of the instance simulator, stated over every reachable state, each
  with its instance in the concrete run.
\<close>

section \<open>Conservation and lifecycle\<close>

text \<open>C11 INV-1: in every reachable state the five terms of \<open>InjectedRequests\<close> (completed, still
  queued, still running, dropped, timed out), together with the arrivals still in flight, count
  every request injected so far exactly once: the \<open>n\<close> injected from outside and those the
  session layer issued.\<close>

theorem request_conservation:
  assumes "sim_reach env F c n st" "env_ok env" "kv_store (se_ops env)" "session_fresh F G env"
  shows "injected_requests (si_metrics (finalize env st)) + int (size (pending st)) =
    int n + (G (si_session st) - G c)"
proof -
  have c: "cons 0 F G (int n - G c) {} (mset (si_waitq st)) (mset (running_list st)) st"
    using sim_reach_inv [OF assms] by (simp add: sim_cons_def)
  then have "int (length (registered st)) = terminal_count st + int (size (pending st) + length (si_waitq st) + length (running_list st))"
    and z: "me_still_running (si_metrics st) = 0"
    and "int (length (registered st)) + me_dropped (si_metrics st) = int n + (G (si_session st) - G c)"
    by (simp_all add: cons_def live_def)
  then show ?thesis
    by (cases "si_running st")
      (simp_all add: finalize_def injected_requests_def terminal_count_def wq_len_def running_list_def)
qed

theorem request_conservation_witness:
  "\<exists>st. sim_reach demo_env never_issued () 2 st \<and> me_timed_out (si_metrics st) = 1 \<and>
     injected_requests (si_metrics (finalize demo_env st)) + int (size (pending st)) = 2"
proof -
  obtain st st' where r: "sim_reach demo_env never_issued () 2 st" "demo_check st"
      and n: "process_next demo_env st = Inr (ArrivalEvent 9 ''b'', st')"
    by (rule demo_timed_out)
  show ?thesis using request_conservation [OF r(1) demo_env_ok(1,2) demo_env_ok(3) [of never_issued "\<lambda>_. 0"]] r by (auto simp: demo_check_def)
qed

text \<open>C12 A request is in one place: a registered request is pending, waiting, running or finished,
  and only one of these; what waits is queued, what is in the batch runs.\<close>

theorem request_in_one_place:
  assumes "sim_reach env F c n st" "env_ok env" "kv_store (se_ops env)" "session_fresh F G env"
  shows "distinct (running_list st @ si_waitq st) \<and> (\<forall>r \<in># pending st. r \<notin> set (running_list st @ si_waitq st)) \<and>
    (\<forall>r. map_of (me_requests (si_metrics st)) r \<noteq> None \<longrightarrow>
       (case rq_state (si_reqs st r) of
          StateQueued \<Rightarrow> r \<in># pending st \<or> r \<in> set (si_waitq st)
        | StateRunning \<Rightarrow> r \<in> set (running_list st)
        | StateCompleted \<Rightarrow> r \<notin># pending st \<and> r \<notin> set (running_list st @ si_waitq st)
        | StateTimedOut \<Rightarrow> r \<notin># pending st \<and> r \<notin> set (running_list st @ si_waitq st)
        | _ \<Rightarrow> False))"
proof -
  have c: "cons 0 F G (int n - G c) {} (mset (si_waitq st)) (mset (running_list st)) st"
    using sim_reach_inv [OF assms] by (simp add: sim_cons_def)
  have "r \<notin> set (running_list st @ si_waitq st)" if "r \<in># pending st" for r
  proof -
    have "0 < count (pending st) r" using that by simp
    moreover have "count (live (mset (si_waitq st)) (mset (running_list st)) st) r \<le> 1" using c by (simp add: cons_def)
    ultimately have "count (mset (running_list st @ si_waitq st)) r = 0" unfolding live_def mset_append count_union by linarith
    then show ?thesis by (simp only: count_mset_0_iff) simp
  qed
  moreover have "case rq_state (si_reqs st r) of
          StateQueued \<Rightarrow> r \<in># pending st \<or> r \<in> set (si_waitq st)
        | StateRunning \<Rightarrow> r \<in> set (running_list st)
        | StateCompleted \<Rightarrow> r \<notin># pending st \<and> r \<notin> set (running_list st @ si_waitq st)
        | StateTimedOut \<Rightarrow> r \<notin># pending st \<and> r \<notin> set (running_list st @ si_waitq st)
        | _ \<Rightarrow> False" if "map_of (me_requests (si_metrics st)) r \<noteq> None" for r
  proof -
    have reg: "r \<in> set (registered st)" using that unfolding registered_def gm_keys_set by auto
    have q: "r \<in># pending st \<or> r \<in> set (si_waitq st) \<longrightarrow> rq_state (si_reqs st r) = StateQueued" using c by (auto simp: cons_def)
    have run: "r \<in> set (running_list st) \<longrightarrow> rq_state (si_reqs st r) = StateRunning" using c by (simp add: cons_def)
    have "terminal (rq_state (si_reqs st r)) \<or> r \<in># pending st \<or> r \<in> set (si_waitq st) \<or> r \<in> set (running_list st)"
      using c reg by (auto simp: cons_def live_def)
    then show ?thesis using q run by (cases "rq_state (si_reqs st r)") (auto simp: terminal_def)
  qed
  ultimately show ?thesis using cons_queues_distinct [OF c] by blast
qed

theorem request_in_one_place_witness:
  "\<exists>st. sim_reach demo_env never_issued () 2 st \<and> ''a'' \<notin># pending st \<and> ''a'' \<notin> set (running_list st @ si_waitq st)"
proof -
  obtain st st' where r: "sim_reach demo_env never_issued () 2 st" "demo_check st"
      and n: "process_next demo_env st = Inr (ArrivalEvent 9 ''b'', st')"
    by (rule demo_timed_out)
  have "case rq_state (si_reqs st ''a'') of
          StateQueued \<Rightarrow> ''a'' \<in># pending st \<or> ''a'' \<in> set (si_waitq st)
        | StateRunning \<Rightarrow> ''a'' \<in> set (running_list st)
        | StateCompleted \<Rightarrow> ''a'' \<notin># pending st \<and> ''a'' \<notin> set (running_list st @ si_waitq st)
        | StateTimedOut \<Rightarrow> ''a'' \<notin># pending st \<and> ''a'' \<notin> set (running_list st @ si_waitq st)
        | _ \<Rightarrow> False"
    using request_in_one_place [OF r(1) demo_env_ok(1,2) demo_env_ok(3) [of never_issued "\<lambda>_. 0"]] r(2) unfolding demo_check_def by blast
  then show ?thesis using r by (auto simp: demo_check_def)
qed

text \<open>C13 INV-2: terminal states are final: no event moves a completed or timed-out request.\<close>

theorem terminal_states_final:
  assumes "sim_reach env F c n st" "env_ok env" "kv_store (se_ops env)" "session_fresh F G env"
    and "process_next env st = Inr (ev, st')" "map_of (me_requests (si_metrics st)) r \<noteq> None"
    and "rq_state (si_reqs st r) = StateCompleted \<or> rq_state (si_reqs st r) = StateTimedOut"
  shows "rq_state (si_reqs st' r) = rq_state (si_reqs st r) \<and> map_of (me_requests (si_metrics st')) r \<noteq> None"
proof -
  let ?T = "{(r, rq_state (si_reqs st r))}"
  note inv = sim_reach_inv [OF assms(1-4)]
  have "r \<in> set (registered st)" using assms(6) unfolding registered_def gm_keys_set by auto
  then have "sim_cons 0 F G (int n - G c) ?T st" using inv assms(7) by (auto simp: sim_cons_def cons_def terminal_def)
  from process_next_cons [OF assms(5) _ _ assms(4) this] inv have "sim_cons 0 F G (int n - G c) ?T st'" by blast
  then have "r \<in> set (registered st') \<and> rq_state (si_reqs st' r) = rq_state (si_reqs st r)" by (simp add: sim_cons_def cons_def)
  then show ?thesis unfolding registered_def gm_keys_set by auto
qed

theorem terminal_states_final_witness:
  "\<exists>st st' ev. process_next demo_env st = Inr (ev, st') \<and> rq_state (si_reqs st' ''a'') = StateTimedOut"
proof -
  obtain st st' where r: "sim_reach demo_env never_issued () 2 st" "demo_check st"
      and n: "process_next demo_env st = Inr (ArrivalEvent 9 ''b'', st')"
    by (rule demo_timed_out)
  have "rq_state (si_reqs st' ''a'') = rq_state (si_reqs st ''a'') \<and> map_of (me_requests (si_metrics st')) ''a'' \<noteq> None"
    by (rule terminal_states_final [OF r(1) demo_env_ok(1,2) demo_env_ok(3) [of never_issued "\<lambda>_. 0"] n]) (use r(2) in \<open>auto simp: demo_check_def\<close>)
  then show ?thesis using n r(2) by (auto simp: demo_check_def)
qed

section \<open>Time and work\<close>

text \<open>C14 INV-3, in runs with injections, transferred caches and decode sub-requests, as long as no decode
  sub-request is enqueued past its deadline: processing an event never moves the clock back, and
  nothing pending lies in the past. The excluded case is the defect of
  \<open>past_due_decode_sub_rewinds_clock\<close>.\<close>

theorem clock_monotone:
  assumes "timed_reach env st" "env_ok env" "process_next env st = Inr (ev, st')"
  shows "si_clock st \<le> si_clock st' \<and> (\<forall>e \<in> set (si_events st'). si_clock st' \<le> ev_timestamp (ee_event e))"
proof -
  note n = process_next_inv [OF assms(3,2) timed_reach_inv [OF assms(1,2)]]
  have "sched_inv st'" "si_clock st \<le> si_clock st'" using n by blast+
  then show ?thesis by (auto simp: sched_inv_def mid_def ev_mset_def)
qed

text \<open>A decode sub-request enqueued at time 9, in time.\<close>

definition timely_sub :: request where
  "timely_sub = (demo_request ''sub'' [7, 8, 9] [1])\<lparr>rq_deadline := 20, rq_decode_sub := True\<rparr>"

theorem clock_monotone_witness:
  "\<exists>st st' ev. timed_reach demo_env (inject_decode demo_env timely_sub 12 st) \<and> si_clock (inject_decode demo_env timely_sub 12 st) = 9 \<and>
     process_next demo_env (inject_decode demo_env timely_sub 12 st) = Inr (ev, st') \<and> 9 \<le> si_clock st'"
proof -
  have "case run_events 3 demo_env (demo_injected demo_cache) of Inl _ \<Rightarrow> False | Inr st \<Rightarrow>
      si_clock (inject_decode demo_env timely_sub 12 st) = 9 \<and> si_clock st = 9 \<and>
      (case process_next demo_env (inject_decode demo_env timely_sub 12 st) of Inl _ \<Rightarrow> False | Inr _ \<Rightarrow> True)"
    by code_simp
  then obtain st ev st' where st: "run_events 3 demo_env (demo_injected demo_cache) = Inr st" "si_clock st = 9"
      "si_clock (inject_decode demo_env timely_sub 12 st) = 9"
      "process_next demo_env (inject_decode demo_env timely_sub 12 st) = Inr (ev, st')"
    by (auto split: sum.splits)
  have "timed_reach demo_env st" by (rule sim_reach_timed [OF run_events_reach [OF demo_injected_reach st(1)]])
  moreover have "\<not> past_due demo_env timely_sub st" using st(2) by (simp add: past_due_def timely_sub_def)
  ultimately have r: "timed_reach demo_env (inject_decode demo_env timely_sub 12 st)" by (rule timed_reach.timed_decode)
  show ?thesis using clock_monotone [OF r demo_env_ok(1) st(4)] st(3,4) r by auto
qed

text \<open>C15 INV-8: whenever requests wait or run, the engine is coming back for them: a batch step is
  in the event queue, or (waiting requests only) an adapter load that will wake it. There is at most
  one step and at most one load at a time.\<close>

theorem work_conserving:
  assumes "sim_reach env F c n st" "env_ok env" "kv_store (se_ops env)" "session_fresh F G env"
  shows "(si_waitq st \<noteq> [] \<longrightarrow> (\<exists>e \<in> set (si_events st). is_step_event (ee_event e) \<or> loads_adapter (ee_event e) \<noteq> None)) \<and>
    (running_list st \<noteq> [] \<longrightarrow> (\<exists>e \<in> set (si_events st). is_step_event (ee_event e))) \<and>
    length (filter (\<lambda>e. is_step_event (ee_event e)) (si_events st)) \<le> 1 \<and>
    length (filter (\<lambda>e. loads_adapter (ee_event e) \<noteq> None) (si_events st)) \<le> 1"
proof -
  have inv: "mid (si_clock st) (if si_step_event st = None then 0 else 1) st" and w: "work_pending st"
    using sim_reach_inv [OF assms] by (simp_all add: sched_inv_def)
  have sz: "size (filter_mset P (ev_mset st)) = length (filter (\<lambda>e. P (ee_event e)) (si_events st))" for P
    by (simp add: ev_mset_def filter_mset_image_mset size_mset flip: mset_filter)
  have ex: "\<exists>e \<in> set (si_events st). P (ee_event e)" if "0 < length (filter (\<lambda>e. P (ee_event e)) (si_events st))" for P
    using that by (auto simp: filter_empty_conv)
  have n: "length (filter (\<lambda>e. is_step_event (ee_event e)) (si_events st)) = (if si_step_event st = None then 0 else 1)"
    using inv sz [of is_step_event] by (simp add: mid_def)
  have l: "length (filter (\<lambda>e. loads_adapter (ee_event e) \<noteq> None) (si_events st)) = (if si_loading st = '''' then 0 else 1)"
  proof -
    have "loads_ok st" using inv by (simp add: mid_def)
    then have "size (load_events st) = (if si_loading st = '''' then 0 else 1)"
      by (auto simp: loads_ok_def simp del: not_None_eq split: if_splits)
    then show ?thesis unfolding sz .
  qed
  have s: "\<exists>e \<in> set (si_events st). is_step_event (ee_event e)" if "si_step_event st \<noteq> None" using ex [of is_step_event] n that by simp
  have ld: "\<exists>e \<in> set (si_events st). loads_adapter (ee_event e) \<noteq> None" if "si_loading st \<noteq> ''''"
    using ex [of "\<lambda>ev. loads_adapter ev \<noteq> None"] l that by (simp del: not_None_eq)
  show ?thesis
  proof (intro conjI)
    show "si_waitq st \<noteq> [] \<longrightarrow> (\<exists>e \<in> set (si_events st). is_step_event (ee_event e) \<or> loads_adapter (ee_event e) \<noteq> None)"
      using w s ld unfolding work_pending_def by blast
    show "running_list st \<noteq> [] \<longrightarrow> (\<exists>e \<in> set (si_events st). is_step_event (ee_event e))"
      using w s unfolding work_pending_def by blast
  qed (use n l in \<open>simp_all del: not_None_eq\<close>)
qed

theorem work_conserving_witness:
  "\<exists>st. sim_reach demo_env never_issued () 2 st \<and> length (filter (\<lambda>e. is_step_event (ee_event e)) (si_events st)) \<le> 1"
proof -
  obtain st st' where r: "sim_reach demo_env never_issued () 2 st" "demo_check st"
      and n: "process_next demo_env st = Inr (ArrivalEvent 9 ''b'', st')"
    by (rule demo_timed_out)
  show ?thesis using work_conserving [OF r(1) demo_env_ok(1,2) demo_env_ok(3) [of never_issued "\<lambda>_. 0"]] r(1) by blast
qed

end
