(* ===== verification/Prefix_Index.thy ===== *)
theory Prefix_Index
  imports Linked_List Go_Map Block_Hash
begin

text \<open>
  The router's approximate prefix cache (\<open>sim/prefix_cache_index.go\<close>): per instance an LRU of
  the block hashes recorded for it. A list node is addressed by its hash. The specification
  of an instance's cache is the list of its hashes from most to least recently used; recording
  a hash puts it in front and cuts the list at the capacity.
\<close>

section \<open>The code\<close>

record lru_cache =
  lc_lookup :: "(string, unit) go_map"
  lc_links :: "string dll"
  lc_capacity :: int

record prefix_index =
  px_block_size :: int
  px_lru_capacity :: int
  px_instances :: "string \<rightharpoonup> lru_cache"

definition new_prefix_index :: "int \<Rightarrow> int \<Rightarrow> prefix_index outcome" where
  "new_prefix_index bs cap =
     (if bs \<le> 0 then Inl (Panic ''NewPrefixCacheIndex: blockSize must be > 0'')
      else if cap \<le> 0 then Inl (Panic ''NewPrefixCacheIndex: lruCapacity must be > 0'')
      else Inr \<lparr>px_block_size = bs, px_lru_capacity = cap, px_instances = Map.empty\<rparr>)"

definition px_compute_hashes :: "prefix_index \<Rightarrow> token list \<Rightarrow> string list outcome" where
  "px_compute_hashes idx ts = compute_block_hashes (px_block_size idx) ts"

fun match_loop :: "lru_cache \<Rightarrow> string list \<Rightarrow> int \<Rightarrow> int" where
  "match_loop c [] n = n"
| "match_loop c (h # hs) n = (if map_of (lc_lookup c) h \<noteq> None then match_loop c hs (n + 1) else n)"

definition match_length :: "string list \<Rightarrow> string \<Rightarrow> prefix_index \<Rightarrow> int" where
  "match_length hs inst idx = (case px_instances idx inst of None \<Rightarrow> 0 | Some c \<Rightarrow> match_loop c hs 0)"

definition lc_evict_oldest :: "lru_cache \<Rightarrow> lru_cache outcome" where
  "lc_evict_oldest c = (case dl_tail (lc_links c) of
       None \<Rightarrow> Inl (Panic ''lruBlockCache.evictOldest: tail is nil: INV-18 violation'')
     | Some t \<Rightarrow> (let c1 = c\<lparr>lc_lookup := AList.delete t (lc_lookup c)\<rparr>
                in Inr (c1\<lparr>lc_links := dll_unlink t (lc_links c1)\<rparr>)))"

definition lc_touch :: "string \<Rightarrow> lru_cache \<Rightarrow> lru_cache outcome" where
  "lc_touch h c =
     (if map_of (lc_lookup c) h \<noteq> None
      then (let c1 = c\<lparr>lc_links := dll_unlink h (lc_links c)\<rparr>
            in Inr (c1\<lparr>lc_links := dll_push_head h (lc_links c1)\<rparr>))
      else obind (if gm_len (lc_lookup c) \<ge> lc_capacity c then lc_evict_oldest c else Inr c) (\<lambda>c1.
             let c2 = c1\<lparr>lc_lookup := AList.update h () (lc_lookup c1)\<rparr>
             in Inr (c2\<lparr>lc_links := dll_push_head h (lc_links c2)\<rparr>)))"

fun lc_touch_all :: "string list \<Rightarrow> lru_cache \<Rightarrow> lru_cache outcome" where
  "lc_touch_all [] c = Inr c"
| "lc_touch_all (h # hs) c = obind (lc_touch h c) (lc_touch_all hs)"

definition record_blocks :: "string list \<Rightarrow> string \<Rightarrow> prefix_index \<Rightarrow> prefix_index outcome" where
  "record_blocks hs inst idx =
     (let c = (case px_instances idx inst of
                 None \<Rightarrow> \<lparr>lc_lookup = [], lc_links = dll_empty, lc_capacity = px_lru_capacity idx\<rparr>
               | Some c \<Rightarrow> c)
      in obind (lc_touch_all hs c) (\<lambda>c'. Inr (idx\<lparr>px_instances := (px_instances idx)(inst \<mapsto> c')\<rparr>)))"

definition instance_block_count :: "string \<Rightarrow> prefix_index \<Rightarrow> int" where
  "instance_block_count inst idx = (case px_instances idx inst of None \<Rightarrow> 0 | Some c \<Rightarrow> gm_len (lc_lookup c))"

section \<open>The specification and the refinement\<close>

definition mru_touch :: "nat \<Rightarrow> string \<Rightarrow> string list \<Rightarrow> string list" where
  "mru_touch cap h xs = take cap (h # remove1 h xs)"

definition lc_rel :: "lru_cache \<Rightarrow> string list \<Rightarrow> bool" where
  "lc_rel c xs \<longleftrightarrow> dll_list (lc_links c) xs \<and> distinct (gm_keys (lc_lookup c)) \<and>
     dom (map_of (lc_lookup c)) = set xs \<and> int (length xs) \<le> lc_capacity c \<and> 0 < lc_capacity c"

lemma lc_rel_distinct: "lc_rel c xs \<Longrightarrow> distinct xs"
  by (auto simp: lc_rel_def dll_list_def)

lemma lc_rel_len: "lc_rel c xs \<Longrightarrow> gm_len (lc_lookup c) = int (length xs)"
  using gm_len_eq lc_rel_distinct by (metis lc_rel_def)

lemma lc_rel_mem: "lc_rel c xs \<Longrightarrow> map_of (lc_lookup c) h \<noteq> None \<longleftrightarrow> h \<in> set xs"
  by (auto simp: lc_rel_def)

lemma lc_rel_tail: "lc_rel c xs \<Longrightarrow> dl_tail (lc_links c) = hd_opt (rev xs)"
  by (auto simp: lc_rel_def dll_list_def)

lemma lc_evict_ok:
  assumes "lc_rel c (xs @ [t])"
  shows "\<exists>c'. lc_evict_oldest c = Inr c' \<and> lc_rel c' xs \<and> lc_capacity c' = lc_capacity c"
proof -
  have t: "t \<notin> set xs" using lc_rel_distinct [OF assms] by simp
  have "dll_list (dll_unlink t (lc_links c)) xs"
    using dll_unlink_split [of "lc_links c" xs t "[]"] assms by (simp add: lc_rel_def)
  then show ?thesis
    using assms t lc_rel_tail [OF assms] by (auto simp: lc_evict_oldest_def Let_def lc_rel_def gm_delete_distinct)
qed

lemma lc_insert_rel:
  assumes "lc_rel c xs" "h \<notin> set xs" "int (length xs) < lc_capacity c"
  shows "lc_rel (c\<lparr>lc_lookup := AList.update h () (lc_lookup c), lc_links := dll_push_head h (lc_links c)\<rparr>) (h # xs)"
  using assms dll_push_head_list [of "lc_links c" xs h] by (simp add: lc_rel_def gm_update_distinct)

lemma lc_touch_ok:
  assumes "lc_rel c xs"
  shows "\<exists>c'. lc_touch h c = Inr c' \<and> lc_rel c' (mru_touch (nat (lc_capacity c)) h xs) \<and> lc_capacity c' = lc_capacity c"
proof (cases "h \<in> set xs")
  case True
  then have "Suc (length (remove1 h xs)) = length xs" using length_pos_if_in_set by (fastforce simp: length_remove1)
  then have "mru_touch (nat (lc_capacity c)) h xs = h # remove1 h xs"
    using assms by (auto simp: mru_touch_def lc_rel_def)
  then show ?thesis
    using assms True dll_front_list [of "lc_links c" xs h] lc_rel_mem [OF assms, of h] \<open>Suc _ = _\<close> lc_rel_distinct [OF assms]
    by (auto simp: lc_touch_def Let_def lc_rel_def)
next
  case out: False
  then have e: "map_of (lc_lookup c) h = None" using lc_rel_mem [OF assms] by blast
  show ?thesis
  proof (cases "int (length xs) < lc_capacity c")
    case True
    then show ?thesis
      using e out lc_rel_len [OF assms] lc_insert_rel [OF assms out True]
      by (auto simp: lc_touch_def Let_def mru_touch_def remove1_idem)
  next
    case full: False
    then have "length xs = nat (lc_capacity c)" and "xs \<noteq> []" using assms by (auto simp: lc_rel_def)
    then obtain ys t where xs: "xs = ys @ [t]" using append_butlast_last_id by metis
    obtain c1 where c1: "lc_evict_oldest c = Inr c1" "lc_rel c1 ys" "lc_capacity c1 = lc_capacity c"
      using lc_evict_ok [of c ys t] assms xs by auto
    have "mru_touch (nat (lc_capacity c)) h xs = h # ys"
      using out \<open>length xs = _\<close> xs by (auto simp: mru_touch_def remove1_idem simp flip: \<open>length xs = _\<close>)
    then show ?thesis
      using e out c1 full xs lc_rel_len [OF assms] lc_insert_rel [OF c1(2), of h] \<open>length xs = _\<close>
      by (auto simp: lc_touch_def Let_def)
  qed
qed

lemma lc_touch_all_ok:
  assumes "lc_rel c xs"
  shows "\<exists>c'. lc_touch_all hs c = Inr c' \<and> lc_rel c' (fold (mru_touch (nat (lc_capacity c))) hs xs) \<and> lc_capacity c' = lc_capacity c"
  using assms
proof (induction hs arbitrary: c xs)
  case (Cons h hs)
  obtain c1 where "lc_touch h c = Inr c1" "lc_rel c1 (mru_touch (nat (lc_capacity c)) h xs)" "lc_capacity c1 = lc_capacity c"
    using lc_touch_ok [OF Cons.prems] by blast
  then show ?case using Cons.IH by fastforce
qed simp

lemma match_loop_eq: "match_loop c hs n = n + int (length (takeWhile (\<lambda>h. map_of (lc_lookup c) h \<noteq> None) hs))"
  by (induction hs arbitrary: n) auto

text \<open>An index and, per instance, the list it stands for.\<close>

definition px_entry :: "int \<Rightarrow> lru_cache option \<Rightarrow> string list \<Rightarrow> bool" where
  "px_entry cap co xs = (case co of None \<Rightarrow> xs = [] | Some c \<Rightarrow> lc_rel c xs \<and> lc_capacity c = cap)"

lemma px_entry_simps [simp]:
  "px_entry cap None xs \<longleftrightarrow> xs = []" "px_entry cap (Some c) xs \<longleftrightarrow> lc_rel c xs \<and> lc_capacity c = cap"
  by (simp_all add: px_entry_def)

definition px_rel :: "prefix_index \<Rightarrow> (string \<Rightarrow> string list) \<Rightarrow> bool" where
  "px_rel idx v \<longleftrightarrow> 0 < px_lru_capacity idx \<and> (\<forall>i. px_entry (px_lru_capacity idx) (px_instances idx i) (v i))"

lemma px_rel_new: "new_prefix_index bs cap = Inr idx \<Longrightarrow> px_rel idx (\<lambda>_. []) \<and> px_lru_capacity idx = cap \<and> px_block_size idx = bs"
  by (auto simp: new_prefix_index_def px_rel_def split: if_splits)

lemma record_blocks_ok:
  assumes "px_rel idx v"
  shows "\<exists>idx'. record_blocks hs inst idx = Inr idx' \<and> px_lru_capacity idx' = px_lru_capacity idx \<and>
     px_block_size idx' = px_block_size idx \<and>
     px_rel idx' (v(inst := fold (mru_touch (nat (px_lru_capacity idx))) hs (v inst)))"
proof -
  define c where "c = (case px_instances idx inst of
       None \<Rightarrow> \<lparr>lc_lookup = [], lc_links = dll_empty, lc_capacity = px_lru_capacity idx\<rparr> | Some c \<Rightarrow> c)"
  have v: "px_entry (px_lru_capacity idx) (px_instances idx inst) (v inst)" and pos: "0 < px_lru_capacity idx"
    using assms unfolding px_rel_def by blast+
  have "lc_rel c (v inst)" "lc_capacity c = px_lru_capacity idx"
    using v pos by (cases "px_instances idx inst"; simp add: c_def lc_rel_def dll_list_empty)+
  with lc_touch_all_ok [of c "v inst" hs] obtain c' where c': "lc_touch_all hs c = Inr c'"
      "lc_rel c' (fold (mru_touch (nat (px_lru_capacity idx))) hs (v inst))" "lc_capacity c' = px_lru_capacity idx"
    by auto
  have "px_rel (idx\<lparr>px_instances := (px_instances idx)(inst \<mapsto> c')\<rparr>)
      (v(inst := fold (mru_touch (nat (px_lru_capacity idx))) hs (v inst)))"
    using assms c'(2,3) by (simp add: px_rel_def)
  then show ?thesis using c'(1) by (simp add: record_blocks_def Let_def c_def [symmetric])
qed

inductive px_run :: "int \<Rightarrow> int \<Rightarrow> prefix_index \<Rightarrow> bool" for bs cap where
  start: "new_prefix_index bs cap = Inr idx \<Longrightarrow> px_run bs cap idx"
| step: "px_run bs cap idx \<Longrightarrow> record_blocks hs inst idx = Inr idx' \<Longrightarrow> px_run bs cap idx'"

lemma px_run_rel: "px_run bs cap idx \<Longrightarrow> px_lru_capacity idx = cap \<and> px_block_size idx = bs \<and> (\<exists>v. px_rel idx v)"
proof (induction rule: px_run.induct)
  case (start idx)
  then show ?case using px_rel_new by blast
next
  case (step idx hs inst idx')
  then obtain v where v: "px_rel idx v" "px_lru_capacity idx = cap" "px_block_size idx = bs" by blast
  show ?case using record_blocks_ok [OF v(1), of hs inst] step(2) v(2,3) by auto
qed

section \<open>What recording leaves behind\<close>

lemma take_remove1_take: "take n (remove1 h (take (Suc n) xs)) = take n (remove1 h xs)"
proof (induction xs arbitrary: n)
  case (Cons x xs)
  then show ?case by (cases n) auto
qed simp

lemma fold_mru_touch:
  assumes "distinct hs" "distinct xs" "0 < cap" "length xs \<le> cap"
  shows "fold (mru_touch cap) hs xs = take cap (rev hs @ filter (\<lambda>x. x \<notin> set hs) xs)"
  using assms(1)
proof (induction hs rule: rev_induct)
  case Nil
  then show ?case using assms(4) by simp
next
  case (snoc h hs)
  let ?F = "filter (\<lambda>x. x \<notin> set hs) xs"
  obtain n where n: "cap = Suc n" using assms(3) by (cases cap) auto
  have r: "remove1 h ?F = filter (\<lambda>x. x \<notin> set (hs @ [h])) xs"
    using assms(2) by (auto simp: distinct_remove1_removeAll removeAll_filter_not_eq intro: filter_cong)
  have "fold (mru_touch cap) (hs @ [h]) xs = take cap (h # remove1 h (take cap (rev hs @ ?F)))"
    using snoc.IH snoc.prems by (simp add: mru_touch_def [of cap h] del: take_append)
  also have "\<dots> = take cap (h # remove1 h (rev hs @ ?F))"
    by (simp add: n take_remove1_take del: take_append)
  also have "\<dots> = take cap (rev (hs @ [h]) @ filter (\<lambda>x. x \<notin> set (hs @ [h])) xs)"
    using snoc.prems r by (simp add: remove1_append)
  finally show ?case .
qed

text \<open>The hashes of an instance's cache, most recently used first.\<close>

definition px_view :: "string \<Rightarrow> prefix_index \<Rightarrow> string list option" where
  "px_view inst idx = (case px_instances idx inst of
       None \<Rightarrow> Some [] | Some c \<Rightarrow> dll_walk (dl_next (lc_links c)) (dl_head (lc_links c)))"

lemma px_view_eq:
  assumes "px_rel idx v"
  shows "px_view inst idx = Some (v inst)"
proof -
  have "px_entry (px_lru_capacity idx) (px_instances idx inst) (v inst)" using assms by (simp add: px_rel_def)
  then show ?thesis by (cases "px_instances idx inst") (auto simp: px_view_def lc_rel_def dll_walk_list)
qed

lemma px_rel_inst:
  assumes "px_rel idx v"
  shows "distinct (v inst)" "int (length (v inst)) \<le> px_lru_capacity idx" "0 < px_lru_capacity idx"
    "instance_block_count inst idx = int (length (v inst))"
    "match_length hs inst idx = int (length (takeWhile (\<lambda>h. h \<in> set (v inst)) hs))"
proof -
  have v: "px_entry (px_lru_capacity idx) (px_instances idx inst) (v inst)"
    and pos: "0 < px_lru_capacity idx"
    using assms unfolding px_rel_def by blast+
  show "0 < px_lru_capacity idx" by (rule pos)
  show "distinct (v inst)" using v lc_rel_distinct by (cases "px_instances idx inst") auto
  show "int (length (v inst)) \<le> px_lru_capacity idx" using v pos by (cases "px_instances idx inst") (auto simp: lc_rel_def)
  show "instance_block_count inst idx = int (length (v inst))"
    using v lc_rel_len by (cases "px_instances idx inst") (auto simp: instance_block_count_def)
  have none: "takeWhile (\<lambda>h. False) hs = []" by (cases hs) auto
  show "match_length hs inst idx = int (length (takeWhile (\<lambda>h. h \<in> set (v inst)) hs))"
  proof (cases "px_instances idx inst")
    case None
    then show ?thesis using v none by (simp add: match_length_def)
  next
    case (Some c)
    then have "lc_rel c (v inst)" using v by simp
    from lc_rel_mem [OF this] show ?thesis using Some by (simp add: match_length_def match_loop_eq)
  qed
qed

section \<open>Properties\<close>

text \<open>C17 The router's prefix cache is a bounded LRU (INV-18): recording never panics; each
  instance keeps at most the capacity of distinct hashes, and after recording a chain of
  distinct hashes it holds the most recent ones, latest first, other instances unchanged; a
  lookup counts the leading hashes of the request that are among those kept.\<close>

theorem prefix_index_lru:
  assumes "px_run bs cap idx" "distinct hs"
  shows "\<exists>xs idx'. px_view inst idx = Some xs \<and> distinct xs \<and> int (length xs) \<le> cap \<and>
     instance_block_count inst idx = int (length xs) \<and>
     (\<forall>qs. match_length qs inst idx = int (length (takeWhile (\<lambda>h. h \<in> set xs) qs))) \<and>
     record_blocks hs inst idx = Inr idx' \<and>
     px_view inst idx' = Some (take (nat cap) (rev hs @ filter (\<lambda>x. x \<notin> set hs) xs)) \<and>
     (int (length hs) \<le> cap \<longrightarrow> match_length hs inst idx' = int (length hs)) \<and>
     (\<forall>j. j \<noteq> inst \<longrightarrow> px_view j idx' = px_view j idx)"
proof -
  obtain v where v: "px_rel idx v" and cap: "px_lru_capacity idx = cap" using px_run_rel [OF assms(1)] by blast
  note vi = px_rel_inst(1,2) [OF v, of inst] px_rel_inst(3) [OF v] px_rel_inst(4) [OF v, of inst]
  obtain idx' where r: "record_blocks hs inst idx = Inr idx'" and
      v': "px_rel idx' (v(inst := fold (mru_touch (nat cap)) hs (v inst)))" (is "px_rel idx' ?w")
    using record_blocks_ok [OF v, of hs inst] unfolding cap by blast
  have w: "?w inst = take (nat cap) (rev hs @ filter (\<lambda>x. x \<notin> set hs) (v inst))"
    using fold_mru_touch [OF assms(2) vi(1), of "nat cap"] vi(2,3) cap by auto
  have full: "match_length hs inst idx' = int (length hs)" if "int (length hs) \<le> cap"
  proof -
    have "set hs \<subseteq> set (?w inst)" using that unfolding w by auto
    then have "takeWhile (\<lambda>h. h \<in> set (?w inst)) hs = hs" by (auto simp: takeWhile_eq_all_conv)
    then show ?thesis using px_rel_inst(5) [OF v', of hs inst] by presburger
  qed
  show ?thesis
    using px_view_eq [OF v] px_view_eq [OF v'] vi(1,2,4) px_rel_inst(5) [OF v, of _ inst] r full w unfolding cap
    by (intro exI [of _ "v inst"] exI [of _ idx']) auto
qed

theorem prefix_index_lru_witness:
  "\<exists>idx idx'. new_prefix_index 16 2 = Inr idx \<and> record_blocks [''a'', ''b'', ''c''] ''i'' idx = Inr idx' \<and>
     px_view ''i'' idx' = Some [''c'', ''b'']"
proof -
  obtain idx where idx: "new_prefix_index 16 2 = Inr idx" by (simp add: new_prefix_index_def)
  have e: "px_view ''i'' idx = Some []" using idx by (auto simp: new_prefix_index_def px_view_def)
  have d: "distinct [''a'', ''b'', ''c'']" by simp
  show ?thesis
    using prefix_index_lru [OF px_run.start [OF idx] d, of "''i''"] e idx by (auto simp: numeral_2_eq_2)
qed

end
