(* ===== verification/CPU_Tier.thy ===== *)
theory CPU_Tier
  imports Linked_List Go_Map
begin

text \<open>
  The CPU staging tier of the KV offload chain (\<open>sim/kv/offload_cputier.go\<close>): a bounded,
  content-addressed store of blocks with vLLM's reference-count states (-1 a write in flight,
  0 idle, n pinned), an LRU list of the idle blocks and O(1) counters. A block carries no
  payload, so the map holds its reference count; a list node is addressed by its key.
\<close>

section \<open>The code\<close>

datatype cpu_lookup = CpuMiss | CpuHit | CpuHitPending

type_synonym block_key = string

record cpu_tier =
  ct_blocks :: "(block_key, int) go_map"
  ct_links :: "block_key dll"
  ct_capacity :: int
  ct_used :: int
  ct_evictable :: int
  ct_evictions :: int

definition new_cpu_tier :: "int \<Rightarrow> cpu_tier outcome" where
  "new_cpu_tier cap =
     (if cap \<le> 0 then Inl (Panic ''newOffloadCPUTier: capacity must be > 0'')
      else Inr \<lparr>ct_blocks = [], ct_links = dll_empty, ct_capacity = cap, ct_used = 0, ct_evictable = 0, ct_evictions = 0\<rparr>)"

definition ct_lookup :: "block_key \<Rightarrow> cpu_tier \<Rightarrow> cpu_lookup" where
  "ct_lookup k t = (case map_of (ct_blocks t) k of
       None \<Rightarrow> CpuMiss | Some rc \<Rightarrow> if rc = -1 then CpuHitPending else CpuHit)"

definition ct_append :: "block_key \<Rightarrow> cpu_tier \<Rightarrow> cpu_tier" where
  "ct_append k t = t\<lparr>ct_links := dll_append k (ct_links t)\<rparr>"

text \<open>This copy of \<open>unlink\<close> moves the head and the tail only when they are the node itself.\<close>

definition ct_unlink :: "block_key \<Rightarrow> cpu_tier \<Rightarrow> cpu_tier" where
  "ct_unlink k t =
     (let d = ct_links t;
          d1 = (case dl_prev d k of
                  Some p \<Rightarrow> d\<lparr>dl_next := (dl_next d)(p := dl_next d k)\<rparr>
                | None \<Rightarrow> if dl_head d = Some k then d\<lparr>dl_head := dl_next d k\<rparr> else d);
          d2 = (case dl_next d1 k of
                  Some n \<Rightarrow> d1\<lparr>dl_prev := (dl_prev d1)(n := dl_prev d1 k)\<rparr>
                | None \<Rightarrow> if dl_tail d1 = Some k then d1\<lparr>dl_tail := dl_prev d1 k\<rparr> else d1)
      in t\<lparr>ct_links := d2\<lparr>dl_prev := (dl_prev d2)(k := None), dl_next := (dl_next d2)(k := None)\<rparr>\<rparr>)"

definition ct_touch :: "block_key \<Rightarrow> cpu_tier \<Rightarrow> cpu_tier" where
  "ct_touch k t = ct_append k (ct_unlink k t)"

definition ct_touch_key :: "block_key \<Rightarrow> cpu_tier \<Rightarrow> cpu_tier" where
  "ct_touch_key k t = (case map_of (ct_blocks t) k of
       None \<Rightarrow> t | Some rc \<Rightarrow> if rc = 0 then ct_touch k t else t)"

text \<open>\<open>evict(n)\<close>: the loop pops the head at most \<open>n\<close> times, counting.\<close>

definition ct_evict_head :: "block_key \<Rightarrow> cpu_tier \<Rightarrow> cpu_tier" where
  "ct_evict_head k t =
     (let t1 = ct_unlink k t
      in t1\<lparr>ct_blocks := AList.delete k (ct_blocks t1), ct_used := ct_used t1 - 1,
            ct_evictable := ct_evictable t1 - 1, ct_evictions := ct_evictions t1 + 1\<rparr>)"

fun ct_evict_loop :: "nat \<Rightarrow> int \<Rightarrow> cpu_tier \<Rightarrow> int \<times> cpu_tier" where
  "ct_evict_loop 0 cnt t = (cnt, t)"
| "ct_evict_loop (Suc n) cnt t = (case dl_head (ct_links t) of
       None \<Rightarrow> (cnt, t)
     | Some k \<Rightarrow> ct_evict_loop n (cnt + 1) (ct_evict_head k t))"

definition ct_evict :: "int \<Rightarrow> cpu_tier \<Rightarrow> int \<times> cpu_tier" where
  "ct_evict n t = ct_evict_loop (nat n) 0 t"

definition ct_store :: "block_key \<Rightarrow> cpu_tier \<Rightarrow> bool \<times> cpu_tier" where
  "ct_store k t = (case map_of (ct_blocks t) k of
       Some rc \<Rightarrow> (True, if rc = 0 then ct_touch k t else t)
     | None \<Rightarrow>
         (let (cnt, t1) = (if ct_used t \<ge> ct_capacity t then ct_evict 1 t else (1, t))
          in if cnt = 0 then (False, t1)
             else (let t2 = ct_append k (t1\<lparr>ct_blocks := AList.update k 0 (ct_blocks t1)\<rparr>)
                   in (True, t2\<lparr>ct_used := ct_used t2 + 1, ct_evictable := ct_evictable t2 + 1\<rparr>))))"

fun ct_reserve :: "block_key list \<Rightarrow> cpu_tier \<Rightarrow> cpu_tier" where
  "ct_reserve [] t = t"
| "ct_reserve (k # ks) t =
     ct_reserve ks (t\<lparr>ct_blocks := AList.update k (-1) (ct_blocks t), ct_used := ct_used t + 1\<rparr>)"

definition ct_prepare_store :: "block_key list \<Rightarrow> cpu_tier \<Rightarrow> int \<times> cpu_tier" where
  "ct_prepare_store ks t =
     (let fresh = filter (\<lambda>k. map_of (ct_blocks t) k = None) ks;
          k = int (length fresh)
      in if k = 0 then (0, t)
         else (let free = ct_capacity t - ct_used t
               in if k > free + ct_evictable t then (0, t)
                  else (let t1 = (if k - free > 0 then snd (ct_evict (k - free) t) else t)
                        in (int (length fresh), ct_reserve fresh t1))))"

definition ct_complete_store :: "block_key \<Rightarrow> bool \<Rightarrow> cpu_tier \<Rightarrow> cpu_tier" where
  "ct_complete_store k ok t = (case map_of (ct_blocks t) k of
       None \<Rightarrow> t
     | Some rc \<Rightarrow>
         if rc \<noteq> -1 then t
         else if ok
         then (let t1 = ct_append k (t\<lparr>ct_blocks := AList.update k 0 (ct_blocks t)\<rparr>)
               in t1\<lparr>ct_evictable := ct_evictable t1 + 1\<rparr>)
         else t\<lparr>ct_blocks := AList.delete k (ct_blocks t), ct_used := ct_used t - 1\<rparr>)"

definition ct_pin :: "block_key \<Rightarrow> cpu_tier \<Rightarrow> cpu_tier" where
  "ct_pin k t = (case map_of (ct_blocks t) k of
       None \<Rightarrow> t
     | Some rc \<Rightarrow>
         if rc < 0 then t
         else (let t1 = (if rc = 0 then (ct_unlink k t)\<lparr>ct_evictable := ct_evictable t - 1\<rparr> else t)
               in t1\<lparr>ct_blocks := AList.update k (rc + 1) (ct_blocks t1)\<rparr>))"

definition ct_unpin :: "block_key \<Rightarrow> cpu_tier \<Rightarrow> cpu_tier" where
  "ct_unpin k t = (case map_of (ct_blocks t) k of
       None \<Rightarrow> t
     | Some rc \<Rightarrow>
         if rc \<le> 0 then t
         else (let t1 = t\<lparr>ct_blocks := AList.update k (rc - 1) (ct_blocks t)\<rparr>
               in if rc - 1 = 0 then (ct_append k t1)\<lparr>ct_evictable := ct_evictable t1 + 1\<rparr> else t1))"

definition ct_free_count :: "cpu_tier \<Rightarrow> int" where
  "ct_free_count t = ct_capacity t - ct_used t"

definition ct_scan_evictable :: "cpu_tier \<Rightarrow> int" where
  "ct_scan_evictable t = int (length (filter (\<lambda>(_, rc). rc = 0) (ct_blocks t)))"

section \<open>The invariant\<close>

text \<open>\<open>xs\<close> is the LRU list: exactly the idle blocks.\<close>

definition ct_inv :: "cpu_tier \<Rightarrow> block_key list \<Rightarrow> bool" where
  "ct_inv t xs \<longleftrightarrow> dll_list (ct_links t) xs \<and> distinct (gm_keys (ct_blocks t)) \<and>
     (\<forall>k. k \<in> set xs \<longleftrightarrow> map_of (ct_blocks t) k = Some 0) \<and>
     ct_used t = gm_len (ct_blocks t) \<and> ct_used t \<le> ct_capacity t \<and> ct_evictable t = int (length xs) \<and>
     (\<forall>k rc. map_of (ct_blocks t) k = Some rc \<longrightarrow> -1 \<le> rc) \<and> 0 < ct_capacity t"

lemma ct_inv_new: "new_cpu_tier cap = Inr t \<Longrightarrow> ct_inv t [] \<and> ct_capacity t = cap"
  by (auto simp: new_cpu_tier_def ct_inv_def dll_list_empty gm_len_def split: if_splits)

lemma ct_invD:
  assumes "ct_inv t xs"
  shows "dll_list (ct_links t) xs" "distinct xs" "distinct (gm_keys (ct_blocks t))"
    "k \<in> set xs \<longleftrightarrow> map_of (ct_blocks t) k = Some 0"
    "ct_used t = gm_len (ct_blocks t)" "ct_used t \<le> ct_capacity t" "ct_evictable t = int (length xs)"
    "map_of (ct_blocks t) k = Some rc \<Longrightarrow> -1 \<le> rc" "0 < ct_capacity t"
  using assms by (auto simp: ct_inv_def dll_list_def)

lemma ct_unlink_eq:
  assumes "dll_list (ct_links t) xs" "k \<in> set xs"
  shows "ct_unlink k t = t\<lparr>ct_links := dll_unlink k (ct_links t)\<rparr>"
proof -
  obtain ys zs where xs: "xs = ys @ k # zs" using assms(2) by (meson split_list)
  have d: "distinct (ys @ k # zs)" "distinct (rev zs @ k # rev ys)" using assms(1) xs by (auto simp: dll_list_def)
  have nx: "dl_next (ct_links t) k = hd_opt zs" and pv: "dl_prev (ct_links t) k = hd_opt (rev ys)"
    using assms(1) xs succ_of_mid [OF d(1)] succ_of_mid [OF d(2)] by (simp_all add: dll_list_def)
  have hd: "ys = [] \<Longrightarrow> dl_head (ct_links t) = Some k" and tl: "zs = [] \<Longrightarrow> dl_tail (ct_links t) = Some k"
    using assms(1) xs by (auto simp: dll_list_def)
  have p: "hd_opt (rev ys) \<noteq> Some k" using d(1) by (auto simp: hd_opt_def split: list.splits dest: arg_cong [where f = set])
  show ?thesis
    using nx pv hd tl p by (auto simp: ct_unlink_def dll_unlink_def Let_def split: option.splits)
qed

lemma ct_touch_inv:
  assumes "ct_inv t xs" "k \<in> set xs"
  shows "ct_inv (ct_touch k t) (remove1 k xs @ [k])" "ct_blocks (ct_touch k t) = ct_blocks t" "ct_capacity (ct_touch k t) = ct_capacity t"
proof -
  note i = ct_invD [OF assms(1)]
  have "Suc (length (remove1 k xs)) = length xs"
    using assms(2) length_pos_if_in_set by (fastforce simp: length_remove1)
  then show "ct_inv (ct_touch k t) (remove1 k xs @ [k])"
    using assms dll_touch_list [OF i(1) assms(2)] i(2)
    by (auto simp: ct_inv_def ct_touch_def ct_append_def ct_unlink_eq [OF i(1) assms(2)])
qed (simp_all add: ct_touch_def ct_append_def ct_unlink_eq [OF ct_invD(1) [OF assms(1)] assms(2)])

lemma ct_evict_head_inv:
  assumes "ct_inv t (k # xs)"
  shows "ct_inv (ct_evict_head k t) xs" "map_of (ct_blocks (ct_evict_head k t)) = (map_of (ct_blocks t))(k := None)"
    "ct_capacity (ct_evict_head k t) = ct_capacity t" "ct_used (ct_evict_head k t) = ct_used t - 1"
proof -
  note i = ct_invD [OF assms]
  have u: "ct_unlink k t = t\<lparr>ct_links := dll_unlink k (ct_links t)\<rparr>" by (rule ct_unlink_eq [OF i(1)]) simp
  have "dll_list (dll_unlink k (ct_links t)) xs" using dll_unlink_list [OF i(1), of k] by simp
  moreover have "gm_len (AList.delete k (ct_blocks t)) = gm_len (ct_blocks t) - 1"
    using i(4) [of k] by (simp add: gm_len_delete [OF i(3)])
  ultimately show "ct_inv (ct_evict_head k t) xs"
    using assms i(2) by (auto simp: ct_inv_def ct_evict_head_def Let_def u gm_delete_distinct)
  show "map_of (ct_blocks (ct_evict_head k t)) = (map_of (ct_blocks t))(k := None)"
    "ct_capacity (ct_evict_head k t) = ct_capacity t" "ct_used (ct_evict_head k t) = ct_used t - 1"
    by (simp_all add: ct_evict_head_def Let_def u)
qed

lemma ct_evict_loop_ok:
  assumes "ct_inv t xs"
  shows "\<exists>t'. ct_evict_loop n cnt t = (cnt + int (min n (length xs)), t') \<and> ct_inv t' (drop n xs) \<and>
     map_of (ct_blocks t') = (map_of (ct_blocks t)) |` (- set (take n xs)) \<and>
     ct_capacity t' = ct_capacity t \<and> ct_used t' = ct_used t - int (min n (length xs))"
  using assms
proof (induction n arbitrary: cnt t xs)
  case 0
  then show ?case by (simp add: restrict_map_def)
next
  case (Suc n)
  show ?case
  proof (cases xs)
    case Nil
    then have "dl_head (ct_links t) = None" using Suc.prems by (simp add: ct_inv_def dll_list_def)
    then show ?thesis using Suc.prems Nil by (simp add: restrict_map_def)
  next
    case (Cons k ys)
    then have h: "dl_head (ct_links t) = Some k" using Suc.prems by (simp add: ct_inv_def dll_list_def)
    note e = ct_evict_head_inv [OF Suc.prems [unfolded Cons]]
    from Suc.IH [OF e(1), of "cnt + 1"] e(2-4) h Cons show ?thesis
      by (auto simp: restrict_map_def fun_eq_iff)
  qed
qed

lemma ct_evict_ok:
  assumes "ct_inv t xs" "0 \<le> n"
  obtains t' where "ct_evict n t = (min n (int (length xs)), t')" "ct_inv t' (drop (nat n) xs)"
    "map_of (ct_blocks t') = (map_of (ct_blocks t)) |` (- set (take (nat n) xs))"
    "ct_capacity t' = ct_capacity t" "ct_used t' = ct_used t - min n (int (length xs))"
proof -
  obtain t' where t': "ct_evict_loop (nat n) 0 t = (0 + int (min (nat n) (length xs)), t')" "ct_inv t' (drop (nat n) xs)"
      "map_of (ct_blocks t') = (map_of (ct_blocks t)) |` (- set (take (nat n) xs))"
      "ct_capacity t' = ct_capacity t" "ct_used t' = ct_used t - int (min (nat n) (length xs))"
    using ct_evict_loop_ok [OF assms(1)] by blast
  have "int (min (nat n) (length xs)) = min n (int (length xs))" using assms(2) by auto
  then show ?thesis using t' that by (simp add: ct_evict_def)
qed

section \<open>Every operation keeps it\<close>

lemma ct_touch_key_inv:
  assumes "ct_inv t xs"
  shows "\<exists>xs'. ct_inv (ct_touch_key k t) xs' \<and> set xs' = set xs \<and> ct_blocks (ct_touch_key k t) = ct_blocks t \<and>
    ct_capacity (ct_touch_key k t) = ct_capacity t"
proof (cases "map_of (ct_blocks t) k = Some 0")
  case True
  then have k: "k \<in> set xs" using ct_invD(4) [OF assms] by blast
  then have "set (remove1 k xs @ [k]) = set xs" using ct_invD(2) [OF assms] by auto
  then show ?thesis using ct_touch_inv [OF assms k] True
    by (intro exI [of _ "remove1 k xs @ [k]"]) (simp add: ct_touch_key_def)
next
  case False
  then have "ct_touch_key k t = t" by (auto simp: ct_touch_key_def split: option.splits)
  then show ?thesis using assms by auto
qed

lemma ct_insert_idle:
  assumes "ct_inv t xs" "map_of (ct_blocks t) k = None" "ct_used t < ct_capacity t"
  shows "ct_inv (t\<lparr>ct_blocks := AList.update k 0 (ct_blocks t), ct_links := dll_append k (ct_links t),
    ct_used := ct_used t + 1, ct_evictable := ct_evictable t + 1\<rparr>) (xs @ [k])"
proof -
  note i = ct_invD [OF assms(1)]
  have "k \<notin> set xs" using i(4) [of k] assms(2) by simp
  then have "dll_list (dll_append k (ct_links t)) (xs @ [k])" by (rule dll_append_list [OF i(1)])
  then show ?thesis
    using assms i(4) i(8) by (auto simp: ct_inv_def gm_update_distinct gm_len_update)
qed

lemma ct_store_ok:
  assumes "ct_inv t xs" "ct_store k t = (ok, t')"
  shows "\<exists>xs'. ct_inv t' xs' \<and> ct_capacity t' = ct_capacity t \<and>
    (ok \<longleftrightarrow> map_of (ct_blocks t) k \<noteq> None \<or> ct_used t < ct_capacity t \<or> xs \<noteq> []) \<and>
    (ok \<longrightarrow> map_of (ct_blocks t') k \<noteq> None) \<and>
    (\<forall>j rc. map_of (ct_blocks t) j = Some rc \<and> rc \<noteq> 0 \<longrightarrow> map_of (ct_blocks t') j = Some rc)"
proof (cases "map_of (ct_blocks t) k")
  case (Some rc)
  then have t': "ok" "t' = (if rc = 0 then ct_touch k t else t)" using assms(2) by (auto simp: ct_store_def)
  show ?thesis
  proof (cases "rc = 0")
    case True
    then have "k \<in> set xs" using Some ct_invD(4) [OF assms(1)] by blast
    then show ?thesis using ct_touch_inv [OF assms(1)] t' True Some by auto
  qed (use t' assms(1) Some in auto)
next
  case None
  note i = ct_invD [OF assms(1)]
  show ?thesis
  proof (cases "ct_used t < ct_capacity t")
    case True
    then have "ok" "t' = t\<lparr>ct_blocks := AList.update k 0 (ct_blocks t), ct_links := dll_append k (ct_links t),
        ct_used := ct_used t + 1, ct_evictable := ct_evictable t + 1\<rparr>"
      using assms(2) None by (auto simp: ct_store_def ct_append_def Let_def)
    then show ?thesis using ct_insert_idle [OF assms(1) None True] True None by auto
  next
    case full: False
    obtain t1 where t1: "ct_evict 1 t = (min 1 (int (length xs)), t1)" "ct_inv t1 (drop (nat 1) xs)"
        "map_of (ct_blocks t1) = (map_of (ct_blocks t)) |` (- set (take (nat 1) xs))"
        "ct_capacity t1 = ct_capacity t" "ct_used t1 = ct_used t - min 1 (int (length xs))"
      by (rule ct_evict_ok [OF assms(1), of 1]) auto
    show ?thesis
    proof (cases "xs = []")
      case True
      then show ?thesis using t1 full None assms(2) by (auto simp: ct_store_def restrict_map_def)
    next
      case False
      then have one: "min 1 (int (length xs)) = 1" by (cases xs) auto
      let ?t = "t1\<lparr>ct_blocks := AList.update k 0 (ct_blocks t1), ct_links := dll_append k (ct_links t1),
        ct_used := ct_used t1 + 1, ct_evictable := ct_evictable t1 + 1\<rparr>"
      have res: "ok" "t' = ?t" using assms(2) None full t1(1) one by (auto simp: ct_store_def ct_append_def Let_def)
      have n1: "map_of (ct_blocks t1) k = None" using t1(3) None by (simp add: restrict_map_def)
      have "ct_used t1 < ct_capacity t1" using t1(4,5) one i(6) by simp
      from ct_insert_idle [OF t1(2) n1 this] have inv: "ct_inv t' (drop (nat 1) xs @ [k])" using res(2) by simp
      have "map_of (ct_blocks t') j = Some rc" if "map_of (ct_blocks t) j = Some rc" "rc \<noteq> 0" for j rc
      proof -
        have "j \<notin> set xs" using that i(4) [of j] by auto
        then have "j \<notin> set (take (nat 1) xs)" by (meson in_set_takeD)
        then show ?thesis using that(1) None res(2) t1(3) by (auto simp: restrict_map_def)
      qed
      then show ?thesis using inv res t1(4) False None by auto
    qed
  qed
qed

lemma ct_reserve_ok:
  assumes "ct_inv t xs" "distinct ks" "\<forall>k \<in> set ks. map_of (ct_blocks t) k = None"
    "ct_used t + int (length ks) \<le> ct_capacity t"
  shows "ct_inv (ct_reserve ks t) xs \<and> ct_capacity (ct_reserve ks t) = ct_capacity t \<and>
    map_of (ct_blocks (ct_reserve ks t)) = (\<lambda>k. if k \<in> set ks then Some (-1) else map_of (ct_blocks t) k)"
  using assms
proof (induction ks arbitrary: t)
  case (Cons k ks)
  let ?t = "t\<lparr>ct_blocks := AList.update k (-1) (ct_blocks t), ct_used := ct_used t + 1\<rparr>"
  note i = ct_invD [OF Cons.prems(1)]
  have n: "map_of (ct_blocks t) k = None" using Cons.prems(3) by simp
  then have "k \<notin> set xs" using i(4) [of k] by simp
  then have "ct_inv ?t xs"
    using Cons.prems n i(8) by (auto simp: ct_inv_def gm_update_distinct gm_len_update)
  moreover have "\<forall>j \<in> set ks. map_of (ct_blocks ?t) j = None" using Cons.prems(2,3) by auto
  ultimately show ?case using Cons.IH [of ?t] Cons.prems(2,4) by (auto simp: fun_eq_iff)
qed (simp add: fun_eq_iff)

lemma ct_prepare_ok:
  assumes "ct_inv t xs" "distinct ks" "ct_prepare_store ks t = (n, t')"
  defines "fresh \<equiv> filter (\<lambda>k. map_of (ct_blocks t) k = None) ks"
  shows "\<exists>xs'. ct_inv t' xs' \<and> ct_capacity t' = ct_capacity t \<and>
    (if int (length fresh) \<le> ct_free_count t + int (length xs)
     then n = int (length fresh) \<and> (\<forall>k \<in> set fresh. map_of (ct_blocks t') k = Some (-1))
     else n = 0 \<and> t' = t) \<and>
    (\<forall>j rc. map_of (ct_blocks t) j = Some rc \<and> rc \<noteq> 0 \<longrightarrow> map_of (ct_blocks t') j = Some rc)"
proof -
  note i = ct_invD [OF assms(1)]
  let ?n = "int (length fresh)" and ?free = "ct_capacity t - ct_used t"
  note d = assms(3) [unfolded ct_prepare_store_def fresh_def [symmetric] Let_def]
  consider "fresh = []" | "fresh \<noteq> []" "?n > ?free + ct_evictable t" | "fresh \<noteq> []" "?n \<le> ?free + ct_evictable t" by linarith
  then show ?thesis
  proof cases
    case 1
    then show ?thesis using d assms(1) i(6) by (auto simp: ct_free_count_def)
  next
    case 2
    then show ?thesis using d assms(1) i(7) by (auto simp: ct_free_count_def)
  next
    case 3
    define t1 where "t1 = (if ?n - ?free > 0 then snd (ct_evict (?n - ?free) t) else t)"
    have t': "n = ?n" "t' = ct_reserve fresh t1" using d 3 by (auto simp: t1_def)
    obtain ys where t1: "ct_inv t1 (drop (length ys) xs)" "ys = take (length ys) xs" "ct_capacity t1 = ct_capacity t"
        "map_of (ct_blocks t1) = (map_of (ct_blocks t)) |` (- set ys)" "ct_used t1 + ?n \<le> ct_capacity t"
    proof (cases "?n - ?free > 0")
      case True
      then have "0 \<le> ?n - ?free" by simp
      from ct_evict_ok [OF assms(1) this] obtain u where u: "ct_evict (?n - ?free) t = (min (?n - ?free) (int (length xs)), u)"
          "ct_inv u (drop (nat (?n - ?free)) xs)"
          "map_of (ct_blocks u) = (map_of (ct_blocks t)) |` (- set (take (nat (?n - ?free)) xs))"
          "ct_capacity u = ct_capacity t" "ct_used u = ct_used t - min (?n - ?free) (int (length xs))" by blast
      have le: "nat (?n - ?free) \<le> length xs" using 3(2) i(7) by simp
      then have len: "length (take (nat (?n - ?free)) xs) = nat (?n - ?free)" by simp
      have "ct_used u + ?n \<le> ct_capacity t" using u(5) le True by (simp add: min_def)
      then show ?thesis using u True len
        by (intro that [of "take (nat (?n - ?free)) xs"]) (simp_all only: t1_def if_True snd_conv len)
    next
      case False
      then show ?thesis using assms(1) by (intro that [of "[]"]) (simp_all add: t1_def restrict_map_def)
    qed
    have none: "\<forall>k \<in> set fresh. map_of (ct_blocks t1) k = None"
      by (auto simp: fresh_def t1(4) restrict_map_def)
    have fd: "distinct fresh" using assms(2) by (simp add: fresh_def)
    have "ct_used t1 + int (length fresh) \<le> ct_capacity t1" using t1(3,5) by simp
    note r = ct_reserve_ok [OF t1(1) fd none this]
    have "map_of (ct_blocks t') j = Some rc" if "map_of (ct_blocks t) j = Some rc" "rc \<noteq> 0" for j rc
    proof -
      have "j \<notin> set xs" using that i(4) [of j] by auto
      then have "j \<notin> set ys" using t1(2) by (metis in_set_takeD)
      moreover have "j \<notin> set fresh" using that(1) by (simp add: fresh_def)
      ultimately show ?thesis using that(1) r t1(4) t'(2) by (simp add: restrict_map_def)
    qed
    then show ?thesis using r t' t1(3) 3 i(7) by (auto simp: ct_free_count_def)
  qed
qed

lemma ct_complete_inv:
  assumes "ct_inv t xs"
  shows "\<exists>xs'. ct_inv (ct_complete_store k ok t) xs' \<and> ct_capacity (ct_complete_store k ok t) = ct_capacity t"
proof (cases "map_of (ct_blocks t) k = Some (-1)")
  case False
  then have "ct_complete_store k ok t = t" by (auto simp: ct_complete_store_def split: option.splits)
  then show ?thesis using assms by auto
next
  case True
  note i = ct_invD [OF assms]
  have k: "k \<notin> set xs" using True i(4) [of k] by simp
  show ?thesis
  proof (cases ok)
    case True
    have "dll_list (dll_append k (ct_links t)) (xs @ [k])" by (rule dll_append_list [OF i(1) k])
    then have "ct_inv (ct_complete_store k ok t) (xs @ [k])"
      using \<open>map_of _ k = _\<close> True assms i(4,8)
      by (auto simp: ct_inv_def ct_complete_store_def Let_def ct_append_def gm_update_distinct gm_len_update)
    then show ?thesis using \<open>map_of _ k = _\<close> True by (auto simp: ct_complete_store_def Let_def ct_append_def)
  next
    case False
    have "ct_inv (ct_complete_store k ok t) xs"
      using \<open>map_of _ k = _\<close> False assms i(4,8) k
      by (auto simp: ct_inv_def ct_complete_store_def gm_delete_distinct gm_len_delete)
    then show ?thesis using \<open>map_of _ k = _\<close> False by (auto simp: ct_complete_store_def)
  qed
qed

lemma ct_set_locked:
  assumes "ct_inv t xs" "map_of (ct_blocks t) k \<noteq> None" "k \<notin> set xs" "rc \<noteq> 0" "-1 \<le> rc"
  shows "ct_inv (t\<lparr>ct_blocks := AList.update k rc (ct_blocks t)\<rparr>) xs"
  using assms ct_invD(4,8) [OF assms(1)] by (auto simp: ct_inv_def gm_update_distinct gm_len_update)

lemma ct_pin_inv:
  assumes "ct_inv t xs"
  shows "\<exists>xs'. ct_inv (ct_pin k t) xs' \<and> ct_capacity (ct_pin k t) = ct_capacity t"
proof (cases "map_of (ct_blocks t) k")
  case None
  then show ?thesis using assms by (auto simp: ct_pin_def)
next
  case (Some rc)
  note i = ct_invD [OF assms]
  consider "rc < 0" | "rc = 0" | "rc > 0" by linarith
  then show ?thesis
  proof cases
    case 1
    then show ?thesis using assms Some by (auto simp: ct_pin_def)
  next
    case 3
    then have "k \<notin> set xs" using Some i(4) [of k] by simp
    then show ?thesis using 3 Some ct_set_locked [OF assms, of k "rc + 1"] by (auto simp: ct_pin_def)
  next
    case 2
    then have k: "k \<in> set xs" using Some i(4) by blast
    then have "int (length (remove1 k xs)) = int (length xs) - 1"
      by (rule int_length_remove1)
    then have "ct_inv (ct_pin k t) (remove1 k xs)"
      using 2 Some assms i(2,4,8) dll_unlink_list [OF i(1) k]
      by (auto simp: ct_inv_def ct_pin_def ct_unlink_eq [OF i(1) k] gm_update_distinct gm_len_update)
    then show ?thesis using 2 Some by (auto simp: ct_pin_def ct_unlink_eq [OF i(1) k])
  qed
qed

lemma ct_unpin_inv:
  assumes "ct_inv t xs"
  shows "\<exists>xs'. ct_inv (ct_unpin k t) xs' \<and> ct_capacity (ct_unpin k t) = ct_capacity t"
proof (cases "map_of (ct_blocks t) k")
  case None
  then show ?thesis using assms by (auto simp: ct_unpin_def)
next
  case (Some rc)
  note i = ct_invD [OF assms]
  consider "rc \<le> 0" | "rc = 1" | "rc > 1" by linarith
  then show ?thesis
  proof cases
    case 1
    then show ?thesis using assms Some by (auto simp: ct_unpin_def)
  next
    case 2
    then have k: "k \<notin> set xs" using Some i(4) [of k] by simp
    then have "dll_list (dll_append k (ct_links t)) (xs @ [k])" by (rule dll_append_list [OF i(1)])
    then have "ct_inv (ct_unpin k t) (xs @ [k])"
      using 2 Some assms i(4,8)
      by (auto simp: ct_inv_def ct_unpin_def Let_def ct_append_def gm_update_distinct gm_len_update)
    then show ?thesis using 2 Some by (auto simp: ct_unpin_def Let_def ct_append_def)
  next
    case 3
    then have "k \<notin> set xs" using Some i(4) [of k] by simp
    then show ?thesis using 3 Some ct_set_locked [OF assms, of k "rc - 1"] by (auto simp: ct_unpin_def)
  qed
qed

lemma ct_scan_eq:
  assumes "ct_inv t xs"
  shows "ct_scan_evictable t = ct_evictable t"
proof -
  note i = ct_invD [OF assms]
  let ?f = "filter (\<lambda>(_, rc). rc = 0) (ct_blocks t)"
  have "distinct (map fst ?f)" using i(3) by (rule distinct_map_filter)
  moreover have "set (map fst ?f) = set xs"
  proof (rule set_eqI)
    fix k
    show "k \<in> set (map fst ?f) \<longleftrightarrow> k \<in> set xs"
      using i(4) [of k] map_of_eq_Some_iff [OF i(3), of k 0] by force
  qed
  ultimately have "length (map fst ?f) = length xs" using i(2) by (metis distinct_card)
  then show ?thesis using i(7) by (simp add: ct_scan_evictable_def)
qed

section \<open>Reachable tiers\<close>

text \<open>The keys of one promotion are the distinct keys of a chain.\<close>

inductive ct_run :: "int \<Rightarrow> cpu_tier \<Rightarrow> bool" for cap where
  start: "new_cpu_tier cap = Inr t \<Longrightarrow> ct_run cap t"
| touch: "ct_run cap t \<Longrightarrow> ct_run cap (ct_touch_key k t)"
| store: "ct_run cap t \<Longrightarrow> ct_store k t = (ok, t') \<Longrightarrow> ct_run cap t'"
| prepare: "ct_run cap t \<Longrightarrow> distinct ks \<Longrightarrow> ct_prepare_store ks t = (n, t') \<Longrightarrow> ct_run cap t'"
| complete: "ct_run cap t \<Longrightarrow> ct_run cap (ct_complete_store k ok t)"
| pin: "ct_run cap t \<Longrightarrow> ct_run cap (ct_pin k t)"
| unpin: "ct_run cap t \<Longrightarrow> ct_run cap (ct_unpin k t)"

lemma ct_run_inv: "ct_run cap t \<Longrightarrow> ct_capacity t = cap \<and> (\<exists>xs. ct_inv t xs)"
proof (induction rule: ct_run.induct)
  case (start t) then show ?case using ct_inv_new by blast
next
  case (touch t k) then show ?case using ct_touch_key_inv by metis
next
  case (store t k ok t') then show ?case using ct_store_ok by metis
next
  case (prepare t ks n t')
  then obtain xs where "ct_inv t xs" "ct_capacity t = cap" by blast
  then show ?case using ct_prepare_ok [OF _ prepare(2,3)] by fastforce
next
  case (complete t k ok) then show ?case using ct_complete_inv by metis
next
  case (pin t k) then show ?case using ct_pin_inv by metis
next
  case (unpin t k) then show ?case using ct_unpin_inv by metis
qed

section \<open>Properties\<close>

text \<open>C18 The staging tier's accounting: in every reachable state the counters are exact (used is
  the number of blocks, at most the capacity; evictable is the number of idle blocks, the
  scan's answer), and landing a block succeeds exactly when it is present, a slot is free or
  a block is idle, and no block in flight or pinned is evicted or changed.\<close>

theorem cpu_tier_accounting:
  assumes "ct_run cap t"
  shows "ct_used t = gm_len (ct_blocks t) \<and> ct_used t \<le> cap \<and> ct_evictable t = ct_scan_evictable t \<and>
    0 \<le> ct_free_count t \<and>
    (case ct_store k t of (ok, t') \<Rightarrow>
       (ok \<longleftrightarrow> ct_lookup k t \<noteq> CpuMiss \<or> 0 < ct_free_count t \<or> 0 < ct_evictable t) \<and>
       (ok \<longrightarrow> ct_lookup k t' \<noteq> CpuMiss) \<and>
       (\<forall>j rc. map_of (ct_blocks t) j = Some rc \<and> rc \<noteq> 0 \<longrightarrow> map_of (ct_blocks t') j = Some rc))"
proof -
  obtain xs where inv: "ct_inv t xs" and cap: "ct_capacity t = cap" using ct_run_inv [OF assms] by blast
  note i = ct_invD [OF inv]
  obtain ok t' where st: "ct_store k t = (ok, t')" by fastforce
  have look: "ct_lookup k s = CpuMiss \<longleftrightarrow> map_of (ct_blocks s) k = None" for s
    by (auto simp: ct_lookup_def split: option.splits)
  have "(0 < ct_free_count t) = (ct_used t < ct_capacity t)" "(0 < ct_evictable t) = (xs \<noteq> [])"
    using i(7) by (auto simp: ct_free_count_def)
  then show ?thesis
    using i(5,6) cap ct_scan_eq [OF inv] ct_store_ok [OF inv st] unfolding st look by (auto simp: ct_free_count_def)
qed

theorem cpu_tier_accounting_witness:
  "\<exists>t. new_cpu_tier 1 = Inr t \<and> (case ct_store ''k'' t of (ok, t') \<Rightarrow> ok \<and> ct_lookup ''k'' t' \<noteq> CpuMiss)"
proof -
  obtain t where t: "new_cpu_tier 1 = Inr t" "0 < ct_free_count t" by (simp add: new_cpu_tier_def ct_free_count_def)
  then show ?thesis using cpu_tier_accounting [OF ct_run.start [OF t(1)], of "''k''"] by (auto split: prod.splits)
qed

text \<open>Promotion is all or nothing under the evictable gate (BC-C5): it is granted exactly when
  the absent keys fit into the free plus the evictable slots; then every absent key has a slot
  not yet readable, otherwise nothing changed; locked blocks are never touched.\<close>

theorem prepare_store_gate:
  assumes "ct_run cap t" "distinct ks" "ct_prepare_store ks t = (n, t')"
  shows "(if int (length (filter (\<lambda>k. ct_lookup k t = CpuMiss) ks)) \<le> ct_free_count t + ct_evictable t
     then n = int (length (filter (\<lambda>k. ct_lookup k t = CpuMiss) ks)) \<and>
       (\<forall>k \<in> set ks. ct_lookup k t = CpuMiss \<longrightarrow> ct_lookup k t' = CpuHitPending)
     else n = 0 \<and> t' = t) \<and>
    (\<forall>j rc. map_of (ct_blocks t) j = Some rc \<and> rc \<noteq> 0 \<longrightarrow> map_of (ct_blocks t') j = Some rc)"
proof -
  obtain xs where inv: "ct_inv t xs" using ct_run_inv [OF assms(1)] by blast
  have look: "ct_lookup k t = CpuMiss \<longleftrightarrow> map_of (ct_blocks t) k = None" for k
    by (auto simp: ct_lookup_def split: option.splits)
  have pend: "map_of (ct_blocks t') k = Some (-1) \<Longrightarrow> ct_lookup k t' = CpuHitPending" for k
    by (simp add: ct_lookup_def)
  show ?thesis
    using ct_prepare_ok [OF inv assms(2,3)] pend unfolding look ct_invD(7) [OF inv] by (auto split: if_splits)
qed

theorem prepare_store_gate_witness:
  "\<exists>t. new_cpu_tier 2 = Inr t \<and> fst (ct_prepare_store [''a'', ''b'', ''c''] t) = 0 \<and> fst (ct_prepare_store [''a'', ''b''] t) = 2"
proof -
  obtain t where t: "new_cpu_tier 2 = Inr t" by (simp add: new_cpu_tier_def)
  then have s: "ct_free_count t = 2" "ct_evictable t = 0" "\<And>k. ct_lookup k t = CpuMiss"
    by (auto simp: new_cpu_tier_def ct_free_count_def ct_lookup_def)
  note run = ct_run.start [OF t]
  have "fst (ct_prepare_store [''a'', ''b'', ''c''] t) = 0"
    using prepare_store_gate [OF run, of "[''a'', ''b'', ''c'']"] s by (cases "ct_prepare_store [''a'', ''b'', ''c''] t") auto
  moreover have "fst (ct_prepare_store [''a'', ''b''] t) = 2"
    using prepare_store_gate [OF run, of "[''a'', ''b'']"] s by (cases "ct_prepare_store [''a'', ''b''] t") auto
  ultimately show ?thesis using t by blast
qed

end
