(* ===== verification/Go_Sort.thy ===== *)
theory Go_Sort
  imports Sim_Prelude
begin

text \<open>
  Two routines of Go's package \<open>sort\<close> the cluster components call: the binary search
  \<open>sort.Search\<close>, written out with its halving loop, and \<open>sort.Strings\<close>, which on keys without
  duplicates is the library's \<open>sort\<close> for the byte-wise order of strings.
\<close>

section \<open>sort.Search\<close>

function search_loop :: "(nat \<Rightarrow> bool) \<Rightarrow> nat \<Rightarrow> nat \<Rightarrow> nat" where
  "search_loop f i j =
     (if i < j then (let h = (i + j) div 2 in if \<not> f h then search_loop f (h + 1) j else search_loop f i h)
      else i)"
  by pat_completeness auto
termination by (relation "measure (\<lambda>(f, i, j). j - i)") (auto simp: Let_def)

declare search_loop.simps [simp del]

definition go_search :: "nat \<Rightarrow> (nat \<Rightarrow> bool) \<Rightarrow> nat" where
  "go_search n f = search_loop f 0 n"

text \<open>
  The invariant of the loop, \<open>\<not> f (i - 1)\<close> and \<open>f j\<close>: for a predicate that stays true once it is
  true the loop ends at the first index where it holds.
\<close>

definition first_hit :: "(nat \<Rightarrow> bool) \<Rightarrow> nat \<Rightarrow> nat \<Rightarrow> bool" where
  "first_hit f n r \<longleftrightarrow> r \<le> n \<and> (\<forall>k < r. \<not> f k) \<and> (\<forall>k. r \<le> k \<and> k < n \<longrightarrow> f k)"

lemma search_loop_spec:
  assumes mono: "\<And>k l. k \<le> l \<Longrightarrow> l < n \<Longrightarrow> f k \<Longrightarrow> f l"
  shows "i \<le> j \<Longrightarrow> j \<le> n \<Longrightarrow> \<forall>k < i. \<not> f k \<Longrightarrow> \<forall>k. j \<le> k \<and> k < n \<longrightarrow> f k \<Longrightarrow> first_hit f n (search_loop f i j)"
proof (induction "j - i" arbitrary: i j rule: less_induct)
  case less
  show ?case
  proof (cases "i < j")
    case False
    then have "search_loop f i j = i" by (subst search_loop.simps) simp
    then show ?thesis using less.prems False by (simp add: first_hit_def)
  next
    case True
    define h where "h = (i + j) div 2"
    have h: "i \<le> h" "h < j" using True by (auto simp: h_def)
    have e: "search_loop f i j = (if \<not> f h then search_loop f (h + 1) j else search_loop f i h)"
      using True by (subst search_loop.simps) (simp add: Let_def h_def)
    show ?thesis
    proof (cases "f h")
      case False
      have "\<not> f k" if "k < h + 1" for k
        using mono [of k h] False that h less.prems(2) by (metis Suc_eq_plus1 less_Suc_eq_le less_le_trans)
      moreover have "j - (h + 1) < j - i" using h by arith
      ultimately have "first_hit f n (search_loop f (h + 1) j)"
        using less.hyps [of j "h + 1"] less.prems h by simp
      then show ?thesis using e False by simp
    next
      case hit: True
      have "f k" if "h \<le> k" "k < n" for k using mono [of h k] hit that by blast
      moreover have "h - i < j - i" using h by arith
      ultimately have "first_hit f n (search_loop f i h)"
        using less.hyps [of h i] less.prems h by simp
      then show ?thesis using e hit by simp
    qed
  qed
qed

lemma go_search_spec:
  assumes "\<And>k l. k \<le> l \<Longrightarrow> l < n \<Longrightarrow> f k \<Longrightarrow> f l"
  shows "first_hit f n (go_search n f)"
  unfolding go_search_def by (rule search_loop_spec [OF assms]) auto

section \<open>sort.Strings\<close>

definition sort_strings :: "string list \<Rightarrow> string list" where
  "sort_strings xs = sort xs"

lemma sort_strings_simps [simp]:
  "set (sort_strings xs) = set xs" "distinct (sort_strings xs) = distinct xs" "length (sort_strings xs) = length xs"
  "sorted (sort_strings xs)"
  by (simp_all add: sort_strings_def)

section \<open>The running best\<close>

text \<open>
  The selection loop of many components: keep the first element, replace it by one that is
  strictly better. Over a weak order it ends with an element nothing in the list beats.
\<close>

fun keep_best :: "('a \<Rightarrow> 'a \<Rightarrow> bool) \<Rightarrow> 'a list \<Rightarrow> 'a option \<Rightarrow> 'a option" where
  "keep_best lt [] best = best"
| "keep_best lt (x # xs) best =
     keep_best lt xs (case best of None \<Rightarrow> Some x | Some y \<Rightarrow> (if lt x y then Some x else best))"

lemma keep_best_append: "keep_best lt (xs @ ys) best = keep_best lt ys (keep_best lt xs best)"
  by (induction xs arbitrary: best) auto

lemma keep_best_None: "keep_best lt xs best = None \<longleftrightarrow> xs = [] \<and> best = None"
  by (induction xs arbitrary: best) (auto split: option.split)

context weak_order begin

lemma keep_best_inv:
  "keep_best lt xs best = Some y \<Longrightarrow>
   (y \<in> set xs \<or> best = Some y) \<and> (\<forall>x \<in> set xs. \<not> lt x y) \<and> (\<forall>b. best = Some b \<longrightarrow> \<not> lt b y)"
proof (induction xs arbitrary: best)
  case (Cons x xs)
  let ?b = "case best of None \<Rightarrow> Some x | Some y \<Rightarrow> (if lt x y then Some x else best)"
  have ih: "(y \<in> set xs \<or> ?b = Some y) \<and> (\<forall>x \<in> set xs. \<not> lt x y) \<and> (\<forall>b. ?b = Some b \<longrightarrow> \<not> lt b y)"
    using Cons by simp
  show ?case
  proof (cases best)
    case None
    then show ?thesis using ih by auto
  next
    case (Some z)
    show ?thesis
    proof (cases "lt x z")
      case True
      then have "\<not> lt x y" "?b = Some x" using ih Some by auto
      moreover have "\<not> lt z y" using True \<open>\<not> lt x y\<close> lt_asym nlt_trans by blast
      ultimately show ?thesis using ih Some by auto
    next
      case False
      then have "\<not> lt z y" using ih Some by auto
      then have "\<not> lt x y" using False nlt_trans by blast
      then show ?thesis using ih Some False \<open>\<not> lt z y\<close> by auto
    qed
  qed
qed simp

lemma keep_best_least:
  assumes "keep_best lt xs None = Some y"
  shows "y \<in> set xs" "x \<in> set xs \<Longrightarrow> \<not> lt x y"
  using keep_best_inv [OF assms] by auto

end

end
