(* ===== verification/Gateway_Queue.thy ===== *)
theory Gateway_Queue
  imports Request_Model Slo_Priority Go_Map Go_Sort
begin

text \<open>
  The gateway queue of \<open>sim/cluster/gateway_queue.go\<close>: priority bands in descending order, each
  a map from tenants to FIFO flows, with capacity checks and shedding on enqueue, the three
  dequeue orders and the gated dequeue, both fairness policies, and removal by identifier.
  Band and flow pointers are addressed by the band's position in \<open>q.bands\<close> and the flow's
  tenant. Requests are values: nothing changes a request while the queue holds it. The
  \<open>float64\<close> saturation and threshold are exact rationals.
\<close>

section \<open>Data\<close>

record flow_key =
  fk_tenant :: string
  fk_priority :: int

record flow_entry =
  fe_request :: request
  fe_seq :: int

record flow_queue =
  fq_key :: flow_key
  fq_requests :: "flow_entry list"

record priority_band =
  pb_priority :: int
  pb_flows :: "(string, flow_queue) go_map"
  pb_total :: int

datatype enqueue_outcome = Enqueued | ShedVictim | Rejected

text \<open>
  The two fairness policies; the cursor map of the second is total, Go's zero value
  \<open>""\<close> standing for an absent cursor.
\<close>

datatype fairness = GlobalStrictPolicy | RoundRobinPolicy "int \<Rightarrow> string"

definition new_round_robin :: fairness where
  "new_round_robin = RoundRobinPolicy (\<lambda>_. '''')"

record gateway_queue =
  gq_bands :: "priority_band list"
  gq_total :: int
  gq_max_depth :: int
  gq_band_capacity :: int
  gq_shed :: int
  gq_rejected :: int
  gq_map :: slo_map
  gq_priority_mode :: bool
  gq_slo_mode :: bool
  gq_targets :: "(string \<rightharpoonup> int) option"
  gq_threshold :: rat
  gq_fairness :: fairness
  gq_index :: "rid \<rightharpoonup> int \<times> string"
  gq_shedding :: bool

definition new_gateway_queue :: "string \<Rightarrow> int \<Rightarrow> slo_map option \<Rightarrow> gateway_queue outcome" where
  "new_gateway_queue order max_depth m =
     (if order \<noteq> ''fifo'' \<and> order \<noteq> ''priority'' \<and> order \<noteq> ''slo-deadline''
      then Inl (Panic ''GatewayQueue: unknown dispatch order'')
      else if max_depth < 0 then Inl (Panic ''GatewayQueue: maxDepth must be >= 0'')
      else Inr \<lparr>gq_bands = [], gq_total = 0, gq_max_depth = max_depth, gq_band_capacity = 0, gq_shed = 0,
        gq_rejected = 0, gq_map = (case m of None \<Rightarrow> default_slo_map | Some x \<Rightarrow> x),
        gq_priority_mode = (order = ''priority'' \<or> order = ''slo-deadline''), gq_slo_mode = (order = ''slo-deadline''),
        gq_targets = None, gq_threshold = 1, gq_fairness = GlobalStrictPolicy, gq_index = (\<lambda>_. None),
        gq_shedding = False\<rparr>)"

definition set_slo_targets :: "(string \<rightharpoonup> int) option \<Rightarrow> gateway_queue \<Rightarrow> gateway_queue" where
  "set_slo_targets ts q = q\<lparr>gq_targets := ts\<rparr>"

definition set_fairness :: "fairness option \<Rightarrow> gateway_queue \<Rightarrow> gateway_queue outcome" where
  "set_fairness fp q = (case fp of None \<Rightarrow> Inl (Panic ''GatewayQueue: fairnessPolicy must not be nil'')
     | Some f \<Rightarrow> Inr (q\<lparr>gq_fairness := f\<rparr>))"

definition set_band_capacity :: "int \<Rightarrow> gateway_queue \<Rightarrow> gateway_queue outcome" where
  "set_band_capacity n q = (if n < 0 then Inl (Panic ''GatewayQueue: maxBandCapacity must be >= 0'')
     else Inr (q\<lparr>gq_band_capacity := n\<rparr>))"

definition set_shedding :: "bool \<Rightarrow> gateway_queue \<Rightarrow> gateway_queue" where
  "set_shedding b q = q\<lparr>gq_shedding := b\<rparr>"

definition set_threshold :: "rat \<Rightarrow> gateway_queue \<Rightarrow> gateway_queue outcome" where
  "set_threshold t q = (if t \<le> 0 \<or> t > 1 then Inl (Panic ''GatewayQueue: usageLimitThreshold must be in (0, 1.0]'')
     else Inr (q\<lparr>gq_threshold := t\<rparr>))"

section \<open>Bands and flows\<close>

text \<open>\<open>append\<close> and \<open>copy\<close> shift the bands behind the insertion point.\<close>

definition find_or_create_band :: "int \<Rightarrow> gateway_queue \<Rightarrow> nat \<times> gateway_queue" where
  "find_or_create_band p q =
     (let bs = gq_bands q; i = go_search (length bs) (\<lambda>i. pb_priority (bs ! i) \<le> p) in
      if i < length bs \<and> pb_priority (bs ! i) = p then (i, q)
      else (i, q\<lparr>gq_bands := take i bs @ \<lparr>pb_priority = p, pb_flows = [], pb_total = 0\<rparr> # drop i bs\<rparr>))"

definition sorted_flow_keys :: "(string, flow_queue) go_map \<Rightarrow> string list" where
  "sorted_flow_keys flows = sort_strings (gm_keys flows)"

text \<open>The requests of a flow the band has (the loops look up only keys of the map).\<close>

definition flow_requests :: "priority_band \<Rightarrow> string \<Rightarrow> flow_entry list" where
  "flow_requests b tid = (case map_of (pb_flows b) tid of None \<Rightarrow> [] | Some f \<Rightarrow> fq_requests f)"

text \<open>
  What every removal does once it has chosen the entry: forget the request, store the
  shortened flow, decrement both counters and delete the flow when it is empty.
\<close>

definition put_flow :: "string \<Rightarrow> flow_queue \<Rightarrow> flow_entry list \<Rightarrow> (string, flow_queue) go_map \<Rightarrow> (string, flow_queue) go_map" where
  "put_flow tid f es flows =
     (let flows1 = AList.update tid (f\<lparr>fq_requests := es\<rparr>) flows in
      if es = [] then AList.delete (fk_tenant (fq_key f)) flows1 else flows1)"

definition gq_shrink :: "nat \<Rightarrow> string \<Rightarrow> request \<Rightarrow> flow_entry list \<Rightarrow> gateway_queue \<Rightarrow> gateway_queue" where
  "gq_shrink bi tid r es q =
     (let b = gq_bands q ! bi;
          flows = (case map_of (pb_flows b) tid of None \<Rightarrow> pb_flows b | Some f \<Rightarrow> put_flow tid f es (pb_flows b))
      in q\<lparr>gq_index := (gq_index q)(rq_id r := None),
           gq_bands := (gq_bands q)[bi := b\<lparr>pb_flows := flows, pb_total := pb_total b - 1\<rparr>],
           gq_total := gq_total q - 1\<rparr>)"

definition remove_at :: "nat \<Rightarrow> 'a list \<Rightarrow> 'a list" where
  "remove_at i xs = take i xs @ drop (i + 1) xs"

section \<open>Enqueue\<close>

text \<open>
  The scan for a victim: bands in order, tenants sorted, entries from the front. The best so
  far is the entry with its band, tenant and position.
\<close>

type_synonym victim = "flow_entry \<times> nat \<times> string \<times> nat"

definition shed_better :: "slo_map \<Rightarrow> flow_entry \<Rightarrow> flow_entry \<Rightarrow> bool" where
  "shed_better m e b \<longleftrightarrow>
     (let pe = slo_priority m (rq_slo_class (fe_request e)); pb = slo_priority m (rq_slo_class (fe_request b))
      in pe < pb \<or> (pe = pb \<and> fe_seq e > fe_seq b))"

fun shed_scan_flow :: "slo_map \<Rightarrow> nat \<Rightarrow> string \<Rightarrow> nat \<Rightarrow> flow_entry list \<Rightarrow> victim option \<Rightarrow> victim option" where
  "shed_scan_flow m bi tid i [] best = best"
| "shed_scan_flow m bi tid i (e # es) best =
     shed_scan_flow m bi tid (i + 1) es
       (if \<not> is_sheddable m (rq_slo_class (fe_request e)) then best
        else case best of
            None \<Rightarrow> Some (e, bi, tid, i)
          | Some (b, _) \<Rightarrow> (if shed_better m e b then Some (e, bi, tid, i) else best))"

fun shed_scan_flows :: "slo_map \<Rightarrow> nat \<Rightarrow> priority_band \<Rightarrow> string list \<Rightarrow> victim option \<Rightarrow> victim option" where
  "shed_scan_flows m bi b [] best = best"
| "shed_scan_flows m bi b (tid # tids) best =
     shed_scan_flows m bi b tids (shed_scan_flow m bi tid 0 (flow_requests b tid) best)"

fun shed_scan_bands :: "slo_map \<Rightarrow> nat \<Rightarrow> priority_band list \<Rightarrow> victim option \<Rightarrow> victim option" where
  "shed_scan_bands m bi [] best = best"
| "shed_scan_bands m bi (b # bs) best =
     shed_scan_bands m (bi + 1) bs (shed_scan_flows m bi b (sorted_flow_keys (pb_flows b)) best)"

definition find_shed_victim :: "int \<Rightarrow> int \<Rightarrow> gateway_queue \<Rightarrow> victim option" where
  "find_shed_victim p seq q =
     (case shed_scan_bands (gq_map q) 0 (gq_bands q) None of
        None \<Rightarrow> None
      | Some v \<Rightarrow> (let bp = slo_priority (gq_map q) (rq_slo_class (fe_request (fst v))) in
          if p > bp \<or> (p = bp \<and> seq < fe_seq (fst v)) then Some v else None))"

definition remove_entry_by_index :: "nat \<Rightarrow> string \<Rightarrow> nat \<Rightarrow> gateway_queue \<Rightarrow> gateway_queue outcome" where
  "remove_entry_by_index bi tid i q =
     (let es = flow_requests (gq_bands q ! bi) tid; last = int (length es) - 1 in
      if int i \<noteq> last then Inl (Panic ''removeEntryByIndex: INV-17 violation'')
      else Inr (gq_shrink bi tid (fe_request (es ! i)) (take (length es - 1) es) q))"

definition tenant_name :: "request \<Rightarrow> string" where
  "tenant_name r = (if rq_tenant r = '''' then ''default'' else rq_tenant r)"

definition append_to_flow :: "nat \<Rightarrow> string \<Rightarrow> int \<Rightarrow> flow_entry \<Rightarrow> gateway_queue \<Rightarrow> gateway_queue" where
  "append_to_flow bi tid p e q =
     (let b = gq_bands q ! bi;
          f = (case map_of (pb_flows b) tid of
                 Some f \<Rightarrow> f | None \<Rightarrow> \<lparr>fq_key = \<lparr>fk_tenant = tid, fk_priority = p\<rparr>, fq_requests = []\<rparr>)
      in q\<lparr>gq_bands := (gq_bands q)[bi := b\<lparr>pb_flows := AList.update tid (f\<lparr>fq_requests := fq_requests f @ [e]\<rparr>) (pb_flows b),
                                            pb_total := pb_total b + 1\<rparr>],
           gq_total := gq_total q + 1,
           gq_index := (gq_index q)(rq_id (fe_request e) \<mapsto> (p, tid))\<rparr>)"

definition gq_enqueue :: "request \<Rightarrow> int \<Rightarrow> gateway_queue \<Rightarrow> ((enqueue_outcome \<times> request option) \<times> gateway_queue) outcome" where
  "gq_enqueue r seq q =
     (let p = slo_priority (gq_map q) (rq_slo_class r); tid = tenant_name r;
          (bi, q1) = find_or_create_band p q;
          reject = q1\<lparr>gq_rejected := gq_rejected q1 + 1\<rparr>;
          e = \<lparr>fe_request = r, fe_seq = seq\<rparr>
      in if gq_band_capacity q1 > 0 \<and> pb_total (gq_bands q1 ! bi) \<ge> gq_band_capacity q1
         then Inr ((Rejected, None), reject)
         else if gq_max_depth q1 > 0 \<and> gq_total q1 \<ge> gq_max_depth q1
         then (if \<not> gq_shedding q1 then Inr ((Rejected, None), reject)
               else case find_shed_victim p seq q1 of
                   None \<Rightarrow> Inr ((Rejected, None), reject)
                 | Some (v, vbi, vtid, vi) \<Rightarrow>
                     obind (remove_entry_by_index vbi vtid vi q1) (\<lambda>q2.
                       Inr ((ShedVictim, Some (fe_request v)),
                            append_to_flow bi tid p e (q2\<lparr>gq_shed := gq_shed q2 + 1\<rparr>))))
         else Inr ((Enqueued, None), append_to_flow bi tid p e q1))"

section \<open>Fairness\<close>

text \<open>The head with the earliest sequence number, the first on ties.\<close>

fun strict_pick :: "priority_band \<Rightarrow> string list \<Rightarrow> (string \<times> int) option \<Rightarrow> (string \<times> int) option" where
  "strict_pick b [] best = best"
| "strict_pick b (tid # tids) best =
     strict_pick b tids
       (case flow_requests b tid of
          [] \<Rightarrow> best
        | e # _ \<Rightarrow> (case best of
              None \<Rightarrow> Some (tid, fe_seq e)
            | Some (_, s) \<Rightarrow> (if fe_seq e < s then Some (tid, fe_seq e) else best)))"

text \<open>Where the round robin starts: behind the tenant served last, else at the front.\<close>

fun rr_start :: "string list \<Rightarrow> nat \<Rightarrow> string \<Rightarrow> nat \<Rightarrow> nat" where
  "rr_start [] i cur n = 0"
| "rr_start (k # ks) i cur n = (if k = cur then (i + 1) mod n else rr_start ks (i + 1) cur n)"

fun rr_scan :: "priority_band \<Rightarrow> string list \<Rightarrow> nat list \<Rightarrow> string option" where
  "rr_scan b keys [] = None"
| "rr_scan b keys (i # is) = (if flow_requests b (keys ! i) \<noteq> [] then Some (keys ! i) else rr_scan b keys is)"

fun fair_pick :: "fairness \<Rightarrow> priority_band \<Rightarrow> string option \<times> fairness" where
  "fair_pick GlobalStrictPolicy b = (map_option fst (strict_pick b (sorted_flow_keys (pb_flows b)) None), GlobalStrictPolicy)"
| "fair_pick (RoundRobinPolicy cur) b =
     (let keys = sorted_flow_keys (pb_flows b); n = length keys; last = cur (pb_priority b) in
      if n = 0 then (None, RoundRobinPolicy cur)
      else let start = (if last \<noteq> '''' then rr_start keys 0 last n else 0) in
        case rr_scan b keys (map (\<lambda>i. (start + i) mod n) [0..<n]) of
          Some tid \<Rightarrow> (Some tid, RoundRobinPolicy (cur(pb_priority b := tid)))
        | None \<Rightarrow> (None, RoundRobinPolicy (cur(pb_priority b := ''''))))"

section \<open>Dequeue\<close>

definition dequeue_from_band :: "nat \<Rightarrow> gateway_queue \<Rightarrow> request option \<times> gateway_queue" where
  "dequeue_from_band bi q =
     (let b = gq_bands q ! bi; (pick, fp) = fair_pick (gq_fairness q) b; q1 = q\<lparr>gq_fairness := fp\<rparr> in
      case pick of
        None \<Rightarrow> (None, q1)
      | Some tid \<Rightarrow> (let es = flow_requests b tid; r = fe_request (es ! 0) in (Some r, gq_shrink bi tid r (drop 1 es) q1)))"

definition slo_deadline :: "gateway_queue \<Rightarrow> request \<Rightarrow> int" where
  "slo_deadline q r =
     (if rq_slo_target r > 0 then rq_gw_enqueue r + rq_slo_target r
      else case gq_targets q of
          Some ts \<Rightarrow> (case ts (rq_slo_class r) of Some t \<Rightarrow> rq_gw_enqueue r + t | None \<Rightarrow> max_int64)
        | None \<Rightarrow> max_int64)"

text \<open>The entry with the earliest deadline, the earliest arrival on ties: best is a position.\<close>

fun deadline_scan :: "gateway_queue \<Rightarrow> nat \<Rightarrow> flow_entry list \<Rightarrow> nat \<times> int \<times> int \<Rightarrow> nat \<times> int \<times> int" where
  "deadline_scan q i [] best = best"
| "deadline_scan q i (e # es) (bi, bd, bs) =
     (let d = slo_deadline q (fe_request e) in
      deadline_scan q (i + 1) es (if d < bd \<or> (d = bd \<and> fe_seq e < bs) then (i, d, fe_seq e) else (bi, bd, bs)))"

definition deadline_index :: "gateway_queue \<Rightarrow> flow_entry list \<Rightarrow> nat" where
  "deadline_index q es =
     fst (deadline_scan q 1 (drop 1 es) (0, slo_deadline q (fe_request (es ! 0)), fe_seq (es ! 0)))"

definition dequeue_from_band_slo :: "nat \<Rightarrow> gateway_queue \<Rightarrow> request option \<times> gateway_queue" where
  "dequeue_from_band_slo bi q =
     (let b = gq_bands q ! bi; (pick, fp) = fair_pick (gq_fairness q) b; q1 = q\<lparr>gq_fairness := fp\<rparr> in
      case pick of
        None \<Rightarrow> (None, q1)
      | Some tid \<Rightarrow> (let es = flow_requests b tid; i = deadline_index q es; r = fe_request (es ! i) in
          (Some r, gq_shrink bi tid r (remove_at i es) q1)))"

text \<open>The position of the first band that is not empty.\<close>

fun first_band :: "nat \<Rightarrow> priority_band list \<Rightarrow> nat option" where
  "first_band i [] = None"
| "first_band i (b # bs) = (if pb_total b = 0 then first_band (i + 1) bs else Some i)"

definition dequeue_priority :: "gateway_queue \<Rightarrow> request option \<times> gateway_queue" where
  "dequeue_priority q = (case first_band 0 (gq_bands q) of None \<Rightarrow> (None, q) | Some i \<Rightarrow> dequeue_from_band i q)"

definition dequeue_slo_deadline :: "gateway_queue \<Rightarrow> request option \<times> gateway_queue" where
  "dequeue_slo_deadline q = (case first_band 0 (gq_bands q) of None \<Rightarrow> (None, q) | Some i \<Rightarrow> dequeue_from_band_slo i q)"

text \<open>The globally earliest head, over all bands and sorted tenants.\<close>

fun fifo_scan_flows :: "nat \<Rightarrow> priority_band \<Rightarrow> string list \<Rightarrow> (flow_entry \<times> nat \<times> string) option \<Rightarrow> (flow_entry \<times> nat \<times> string) option" where
  "fifo_scan_flows bi b [] best = best"
| "fifo_scan_flows bi b (tid # tids) best =
     fifo_scan_flows bi b tids
       (case flow_requests b tid of
          [] \<Rightarrow> best
        | h # _ \<Rightarrow> (case best of
              None \<Rightarrow> Some (h, bi, tid)
            | Some (x, _) \<Rightarrow> (if fe_seq h < fe_seq x then Some (h, bi, tid) else best)))"

fun fifo_scan_bands :: "nat \<Rightarrow> priority_band list \<Rightarrow> (flow_entry \<times> nat \<times> string) option \<Rightarrow> (flow_entry \<times> nat \<times> string) option" where
  "fifo_scan_bands bi [] best = best"
| "fifo_scan_bands bi (b # bs) best =
     fifo_scan_bands (bi + 1) bs
       (if pb_total b = 0 then best else fifo_scan_flows bi b (sorted_flow_keys (pb_flows b)) best)"

definition dequeue_fifo :: "gateway_queue \<Rightarrow> request option \<times> gateway_queue" where
  "dequeue_fifo q =
     (case fifo_scan_bands 0 (gq_bands q) None of
        None \<Rightarrow> (None, q)
      | Some (h, bi, tid) \<Rightarrow>
          (Some (fe_request h), gq_shrink bi tid (fe_request h) (drop 1 (flow_requests (gq_bands q ! bi) tid)) q))"

definition gq_dequeue :: "gateway_queue \<Rightarrow> (request option \<times> gateway_queue) outcome" where
  "gq_dequeue q =
     (if gq_total q = 0 then Inr (None, q)
      else let (r, q1) = (if gq_slo_mode q then dequeue_slo_deadline q
                          else if gq_priority_mode q then dequeue_priority q else dequeue_fifo q)
        in if r = None then Inl (Panic ''GatewayQueue.Dequeue: INV-16 violation'') else Inr (r, q1))"

section \<open>The gated dequeue\<close>

text \<open>The ceiling of the band at position \<open>i\<close> of \<open>n\<close>.\<close>

definition band_ceiling :: "rat \<Rightarrow> nat \<Rightarrow> nat \<Rightarrow> rat" where
  "band_ceiling threshold n i = (if n > 1 then 1 - of_nat i * (1 - threshold) / of_nat (n - 1) else 1)"

fun gated_band :: "rat \<Rightarrow> rat \<Rightarrow> nat \<Rightarrow> nat \<Rightarrow> priority_band list \<Rightarrow> nat option" where
  "gated_band sat threshold n i [] = None"
| "gated_band sat threshold n i (b # bs) =
     (if sat \<ge> band_ceiling threshold n i then None
      else if pb_total b = 0 then gated_band sat threshold n (i + 1) bs
      else Some i)"

definition dequeue_gated :: "rat \<Rightarrow> gateway_queue \<Rightarrow> (request option \<times> gateway_queue) outcome" where
  "dequeue_gated sat q =
     (if gq_total q = 0 then Inr (None, q)
      else if length (gq_bands q) = 0 then Inl (Panic ''GatewayQueue.DequeueGated: INV-16 violation'')
      else case gated_band sat (gq_threshold q) (length (gq_bands q)) 0 (gq_bands q) of
          None \<Rightarrow> Inr (None, q)
        | Some i \<Rightarrow>
            (let (r, q1) = (if gq_slo_mode q then dequeue_from_band_slo i q else dequeue_from_band i q)
             in if r = None then Inl (Panic ''GatewayQueue.DequeueGated: INV-16 violation'') else Inr (r, q1)))"

section \<open>Queries and removal by identifier\<close>

definition gq_len :: "gateway_queue \<Rightarrow> int" where
  "gq_len q = gq_total q"

fun len_by_band :: "int \<Rightarrow> priority_band list \<Rightarrow> int" where
  "len_by_band p [] = 0"
| "len_by_band p (b # bs) = (if pb_priority b = p then pb_total b else len_by_band p bs)"

definition has_non_sheddable_waiting :: "gateway_queue \<Rightarrow> bool" where
  "has_non_sheddable_waiting q \<longleftrightarrow> (\<exists>b \<in> set (gq_bands q). pb_priority b \<ge> 0 \<and> pb_total b > 0)"

fun find_band :: "int \<Rightarrow> nat \<Rightarrow> priority_band list \<Rightarrow> nat option" where
  "find_band p i [] = None"
| "find_band p i (b # bs) = (if pb_priority b = p then Some i else find_band p (i + 1) bs)"

fun find_entry :: "rid \<Rightarrow> nat \<Rightarrow> flow_entry list \<Rightarrow> nat option" where
  "find_entry r i [] = None"
| "find_entry r i (e # es) = (if rq_id (fe_request e) = r then Some i else find_entry r (i + 1) es)"

definition remove_by_request_id :: "rid \<Rightarrow> gateway_queue \<Rightarrow> (request option \<times> gateway_queue) outcome" where
  "remove_by_request_id r q =
     (case gq_index q r of
        None \<Rightarrow> Inr (None, q)
      | Some (p, tid) \<Rightarrow>
          (case find_band p 0 (gq_bands q) of
             None \<Rightarrow> Inl (Panic ''RemoveByRequestID: band not found'')
           | Some bi \<Rightarrow>
               (let b = gq_bands q ! bi in
                if map_of (pb_flows b) tid = None then Inl (Panic ''RemoveByRequestID: flow not found'')
                else let es = flow_requests b tid in
                  case find_entry r 0 es of
                    None \<Rightarrow> Inl (Panic ''RemoveByRequestID: request not found in flow'')
                  | Some i \<Rightarrow> Inr (Some (fe_request (es ! i)), gq_shrink bi tid (fe_request (es ! i)) (remove_at i es) q))))"

end
