(* ===== verification/Gateway_Safe.thy ===== *)
theory Gateway_Safe
  imports Gateway_Queue
begin

text \<open>
  Well-formedness of the gateway queue (INV-16, INV-17) and its preservation. The abstract view
  of a queue is the multiset of entries it holds; every operation is specified on it.
\<close>

section \<open>The invariant\<close>

abbreviation eid :: "flow_entry \<Rightarrow> rid" where
  "eid e \<equiv> rq_id (fe_request e)"

abbreviation class_pri :: "slo_map \<Rightarrow> flow_entry \<Rightarrow> int" where
  "class_pri m e \<equiv> slo_priority m (rq_slo_class (fe_request e))"

abbreviation entry_tenant :: "flow_entry \<Rightarrow> string" where
  "entry_tenant e \<equiv> tenant_name (fe_request e)"

definition flow_ok :: "slo_map \<Rightarrow> int \<Rightarrow> string \<Rightarrow> flow_queue \<Rightarrow> bool" where
  "flow_ok m p tid f \<longleftrightarrow> fk_tenant (fq_key f) = tid \<and> fq_requests f \<noteq> [] \<and>
     sorted_wrt (\<lambda>a b. fe_seq a < fe_seq b) (fq_requests f) \<and>
     (\<forall>e \<in> set (fq_requests f). class_pri m e = p \<and> entry_tenant e = tid)"

definition band_contents :: "priority_band \<Rightarrow> flow_entry multiset" where
  "band_contents b = gm_sum (\<lambda>f. mset (fq_requests f)) (pb_flows b)"

definition band_ok :: "slo_map \<Rightarrow> priority_band \<Rightarrow> bool" where
  "band_ok m b \<longleftrightarrow> distinct (gm_keys (pb_flows b)) \<and>
     (\<forall>tid f. map_of (pb_flows b) tid = Some f \<longrightarrow> flow_ok m (pb_priority b) tid f) \<and>
     pb_total b = int (size (band_contents b))"

definition gq_contents :: "gateway_queue \<Rightarrow> flow_entry multiset" where
  "gq_contents q = (\<Sum>b\<leftarrow>gq_bands q. band_contents b)"

text \<open>No two entries carry the same identifier.\<close>

definition unique_ids :: "flow_entry multiset \<Rightarrow> bool" where
  "unique_ids M \<longleftrightarrow> (\<forall>r. size (filter_mset (\<lambda>e. eid e = r) M) \<le> 1)"

definition index_ok :: "gateway_queue \<Rightarrow> bool" where
  "index_ok q \<longleftrightarrow>
     (\<forall>e \<in># gq_contents q. gq_index q (eid e) = Some (class_pri (gq_map q) e, entry_tenant e)) \<and>
     (\<forall>r. gq_index q r \<noteq> None \<longrightarrow> (\<exists>e \<in># gq_contents q. eid e = r)) \<and>
     unique_ids (gq_contents q)"

definition gq_ok :: "gateway_queue \<Rightarrow> bool" where
  "gq_ok q \<longleftrightarrow> sorted_wrt (\<lambda>a b. pb_priority a > pb_priority b) (gq_bands q) \<and>
     (\<forall>b \<in> set (gq_bands q). band_ok (gq_map q) b) \<and>
     gq_total q = int (size (gq_contents q)) \<and> index_ok q"

section \<open>Where an entry is\<close>

lemma gm_sum_mset_in:
  "distinct (gm_keys m) \<Longrightarrow> x \<in># gm_sum (\<lambda>v. mset (g v)) m \<longleftrightarrow> (\<exists>k v. map_of m k = Some v \<and> x \<in> set (g v))"
proof (induction m)
  case (Cons e m)
  obtain k v where e: "e = (k, v)" by (cases e)
  have k: "map_of m k = None" using Cons.prems e by (simp add: gm_get_None)
  have "x \<in># gm_sum (\<lambda>v. mset (g v)) (e # m) \<longleftrightarrow> x \<in> set (g v) \<or> (\<exists>j w. map_of m j = Some w \<and> x \<in> set (g w))"
    using Cons e by simp
  also have "\<dots> \<longleftrightarrow> (\<exists>j w. map_of (e # m) j = Some w \<and> x \<in> set (g w))"
    using k e by (auto split: if_splits) (metis option.distinct(1))+
  finally show ?case .
qed simp

lemma in_band_contents:
  "band_ok m b \<Longrightarrow> e \<in># band_contents b \<longleftrightarrow> (\<exists>tid f. map_of (pb_flows b) tid = Some f \<and> e \<in> set (fq_requests f))"
  unfolding band_contents_def by (rule gm_sum_mset_in) (simp add: band_ok_def)

lemma in_sum_list_mset: "x \<in># (\<Sum>b\<leftarrow>bs. F b) \<longleftrightarrow> (\<exists>b \<in> set bs. x \<in># F b)"
  by (induction bs) auto

lemma in_gq_contents: "e \<in># gq_contents q \<longleftrightarrow> (\<exists>b \<in> set (gq_bands q). e \<in># band_contents b)"
  by (simp add: gq_contents_def in_sum_list_mset)

lemma band_entry:
  assumes "band_ok m b" "e \<in># band_contents b"
  obtains f where "map_of (pb_flows b) (entry_tenant e) = Some f" "e \<in> set (fq_requests f)" "class_pri m e = pb_priority b"
proof -
  obtain tid f where f: "map_of (pb_flows b) tid = Some f" "e \<in> set (fq_requests f)"
    using assms in_band_contents by blast
  then have "flow_ok m (pb_priority b) tid f" using assms(1) by (simp add: band_ok_def)
  then have "class_pri m e = pb_priority b" "entry_tenant e = tid" using f by (auto simp: flow_ok_def)
  then show ?thesis using that f by simp
qed

lemma flow_requests_Some [simp]: "map_of (pb_flows b) tid = Some f \<Longrightarrow> flow_requests b tid = fq_requests f"
  by (simp add: flow_requests_def)

lemma band_flow:
  assumes "band_ok m b" "map_of (pb_flows b) tid = Some f"
  shows "flow_ok m (pb_priority b) tid f"
  using assms by (simp add: band_ok_def)

lemma band_flow_mem:
  assumes "band_ok m b" "map_of (pb_flows b) tid = Some f" "e \<in> set (fq_requests f)"
  shows "e \<in># band_contents b" "class_pri m e = pb_priority b" "entry_tenant e = tid"
  using assms band_flow [OF assms(1,2)] in_band_contents by (auto simp: flow_ok_def)

lemma gq_band: "gq_ok q \<Longrightarrow> b \<in> set (gq_bands q) \<Longrightarrow> band_ok (gq_map q) b"
  by (simp add: gq_ok_def)

lemma gq_band_nth: "gq_ok q \<Longrightarrow> i < length (gq_bands q) \<Longrightarrow> band_ok (gq_map q) (gq_bands q ! i)"
  by (simp add: gq_ok_def)

lemma gq_total_nonneg: "gq_ok q \<Longrightarrow> 0 \<le> gq_total q"
  by (simp add: gq_ok_def)

lemma unique_ids_empty [simp]: "unique_ids {#}"
  by (simp add: unique_ids_def)

lemma unique_ids_add: "unique_ids (add_mset e M) \<longleftrightarrow> unique_ids M \<and> (\<forall>e' \<in># M. eid e' \<noteq> eid e)"
proof -
  have z: "Suc n \<le> 1 \<longleftrightarrow> n \<le> 1 \<and> n = 0" for n by auto
  have "size (filter_mset (\<lambda>x. eid x = r) (add_mset e M)) \<le> 1 \<longleftrightarrow>
        size (filter_mset (\<lambda>x. eid x = r) M) \<le> 1 \<and> (r = eid e \<longrightarrow> filter_mset (\<lambda>x. eid x = r) M = {#})" for r
    unfolding size_eq_0_iff_empty [symmetric] using z [of "size (filter_mset (\<lambda>x. eid x = r) M)"]
    by (cases "eid e = r") (simp_all only: filter_mset_add_mset if_True if_False size_add_mset, auto)
  moreover have "filter_mset (\<lambda>x. eid x = eid e) M = {#} \<longleftrightarrow> (\<forall>e' \<in># M. eid e' \<noteq> eid e)"
    by auto
  ultimately show ?thesis unfolding unique_ids_def by blast
qed

lemma gq_entry_unique:
  assumes "gq_ok q" "e \<in># gq_contents q" "e' \<in># gq_contents q" "eid e = eid e'"
  shows "e = e'"
proof -
  obtain N where N: "gq_contents q = add_mset e N" using assms(2) by (meson multi_member_split)
  have "unique_ids (add_mset e N)" using assms(1) N by (simp add: gq_ok_def index_ok_def)
  then show ?thesis using assms(3,4) N by (auto simp: unique_ids_add)
qed

section \<open>Taking an entry out\<close>

lemma put_flow_contents:
  assumes "distinct (gm_keys m)" "map_of m tid = Some f" "fk_tenant (fq_key f) = tid"
  shows "gm_sum (\<lambda>f. mset (fq_requests f)) (put_flow tid f es m) + mset (fq_requests f) =
         gm_sum (\<lambda>f. mset (fq_requests f)) m + mset es"
    and "distinct (gm_keys (put_flow tid f es m))"
    and "map_of (put_flow tid f es m) k =
         (if k = tid then (if es = [] then None else Some (f\<lparr>fq_requests := es\<rparr>)) else map_of m k)"
proof -
  let ?S = "gm_sum (\<lambda>f. mset (fq_requests f))" and ?u = "AList.update tid (f\<lparr>fq_requests := es\<rparr>) m"
  have u: "?S ?u + mset (fq_requests f) = ?S m + mset es"
    using gm_sum_update [OF assms(1,2), of "\<lambda>f. mset (fq_requests f)" "f\<lparr>fq_requests := es\<rparr>"] by simp
  have d: "distinct (gm_keys ?u)" using assms(1) by (rule gm_update_distinct)
  have "?S ?u = ?S (AList.delete tid ?u) + mset es"
    using gm_sum_delete [OF d, of tid "f\<lparr>fq_requests := es\<rparr>" "\<lambda>f. mset (fq_requests f)"] by simp
  then have "?S (put_flow tid f es m) = ?S ?u" using assms(3) by (simp add: put_flow_def Let_def)
  then show "?S (put_flow tid f es m) + mset (fq_requests f) = ?S m + mset es" using u by simp
  show "distinct (gm_keys (put_flow tid f es m))"
    using d gm_delete_distinct [OF d] by (cases "es = []") (simp_all add: put_flow_def Let_def)
  show "map_of (put_flow tid f es m) k =
         (if k = tid then (if es = [] then None else Some (f\<lparr>fq_requests := es\<rparr>)) else map_of m k)"
    using assms(3) by (simp add: put_flow_def Let_def)
qed

lemma band_shrink:
  assumes b: "band_ok m b" and f: "map_of (pb_flows b) tid = Some f" and es: "fq_requests f = xs @ e # ys"
  defines "b' \<equiv> b\<lparr>pb_flows := put_flow tid f (xs @ ys) (pb_flows b), pb_total := pb_total b - 1\<rparr>"
  shows "band_ok m b'" "band_contents b = band_contents b' + {#e#}"
proof -
  have d: "distinct (gm_keys (pb_flows b))" using b by (simp add: band_ok_def)
  have ok: "flow_ok m (pb_priority b) tid f" by (rule band_flow [OF b f])
  have k: "fk_tenant (fq_key f) = tid" using ok by (simp add: flow_ok_def)
  note P = put_flow_contents [OF d f k, of "xs @ ys"]
  have "band_contents b' + mset (fq_requests f) = band_contents b + mset (xs @ ys)"
    using P(1) by (simp add: band_contents_def b'_def)
  then have "(band_contents b' + {#e#}) + mset (xs @ ys) = band_contents b + mset (xs @ ys)"
    using es by (simp add: ac_simps)
  then show c: "band_contents b = band_contents b' + {#e#}" by (simp only: add_right_cancel)
  have "flow_ok m (pb_priority b) tid (f\<lparr>fq_requests := xs @ ys\<rparr>)" if "xs @ ys \<noteq> []"
    using ok that es by (auto simp: flow_ok_def sorted_wrt_append)
  moreover have "int (size (band_contents b')) = pb_total b - 1" using b c by (simp add: band_ok_def)
  ultimately show "band_ok m b'"
    using P(2,3) b by (auto simp: b'_def band_ok_def)
qed

lemma sorted_wrt_list_update:
  assumes "sorted_wrt R xs" "\<And>y. R (xs ! i) y \<Longrightarrow> R x y" "\<And>y. R y (xs ! i) \<Longrightarrow> R y x" "i < length xs"
  shows "sorted_wrt R (xs[i := x])"
  using assms by (auto simp: sorted_wrt_iff_nth_less nth_list_update)

lemma gq_shrink_ok:
  assumes q: "gq_ok q" and i: "bi < length (gq_bands q)" and f: "map_of (pb_flows (gq_bands q ! bi)) tid = Some f"
    and es: "fq_requests f = xs @ e # ys"
  shows "gq_ok (gq_shrink bi tid (fe_request e) (xs @ ys) q)"
    and "gq_contents q = gq_contents (gq_shrink bi tid (fe_request e) (xs @ ys) q) + {#e#}"
proof -
  define b where "b = gq_bands q ! bi"
  define b' where "b' = b\<lparr>pb_flows := put_flow tid f (xs @ ys) (pb_flows b), pb_total := pb_total b - 1\<rparr>"
  define q' where "q' = gq_shrink bi tid (fe_request e) (xs @ ys) q"
  have q': "q' = q\<lparr>gq_index := (gq_index q)(eid e := None), gq_bands := (gq_bands q)[bi := b'], gq_total := gq_total q - 1\<rparr>"
    using f by (simp add: q'_def gq_shrink_def b'_def b_def Let_def)
  have ok: "band_ok (gq_map q) b" using q i by (simp add: b_def gq_band_nth)
  have B: "band_ok (gq_map q) b'" "band_contents b = band_contents b' + {#e#}"
    using band_shrink [OF ok _ es] f by (auto simp: b'_def b_def)
  have "gq_contents q' + band_contents b = gq_contents q + band_contents b'"
    using sum_list_upd [OF i, of band_contents b'] by (simp add: gq_contents_def q' b_def)
  then have "(gq_contents q' + {#e#}) + band_contents b' = gq_contents q + band_contents b'"
    using B(2) by (simp add: ac_simps)
  then have c: "gq_contents q = gq_contents q' + {#e#}" by (simp only: add_right_cancel)
  then show "gq_contents q = gq_contents (gq_shrink bi tid (fe_request e) (xs @ ys) q) + {#e#}" by (simp add: q'_def)
  have I: "index_ok q" using q by (simp add: gq_ok_def)
  have U: "unique_ids (gq_contents q')" "\<forall>e' \<in># gq_contents q'. eid e' \<noteq> eid e"
    using I c by (auto simp: index_ok_def unique_ids_add)
  have M: "gq_map q' = gq_map q" by (simp add: q')
  have "index_ok q'"
    unfolding index_ok_def M
  proof (intro conjI ballI allI impI)
    fix e' assume e': "e' \<in># gq_contents q'"
    then show "gq_index q' (eid e') = Some (class_pri (gq_map q) e', entry_tenant e')"
      using U(2) I c by (auto simp: q' index_ok_def)
  next
    fix r assume r: "gq_index q' r \<noteq> None"
    then have "r \<noteq> eid e" "gq_index q r \<noteq> None" by (auto simp: q' split: if_splits)
    then obtain e' where "e' \<in># gq_contents q" "eid e' = r" using I unfolding index_ok_def by blast
    then show "\<exists>e' \<in># gq_contents q'. eid e' = r" using \<open>r \<noteq> eid e\<close> c by auto
  qed (use U in blast)
  moreover have "sorted_wrt (\<lambda>a b. pb_priority a > pb_priority b) (gq_bands q')"
    using q i by (auto simp: gq_ok_def q' b'_def b_def intro!: sorted_wrt_list_update)
  moreover have "\<forall>b \<in> set (gq_bands q'). band_ok (gq_map q) b"
    using q B(1) set_update_subset_insert [of "gq_bands q" bi b'] by (auto simp: gq_ok_def q')
  moreover have "gq_total q' = int (size (gq_contents q'))"
    using q c by (simp add: gq_ok_def q')
  ultimately show "gq_ok (gq_shrink bi tid (fe_request e) (xs @ ys) q)"
    unfolding q'_def [symmetric] gq_ok_def M by blast
qed


section \<open>Putting an entry in\<close>

lemma band_append:
  assumes b: "band_ok m b" and e: "class_pri m e = pb_priority b" "entry_tenant e = tid"
    and late: "\<forall>e' \<in># band_contents b. fe_seq e' < fe_seq e"
  defines "f \<equiv> (case map_of (pb_flows b) tid of Some f \<Rightarrow> f | None \<Rightarrow> \<lparr>fq_key = \<lparr>fk_tenant = tid, fk_priority = pb_priority b\<rparr>, fq_requests = []\<rparr>)"
  defines "b' \<equiv> b\<lparr>pb_flows := AList.update tid (f\<lparr>fq_requests := fq_requests f @ [e]\<rparr>) (pb_flows b), pb_total := pb_total b + 1\<rparr>"
  shows "band_ok m b'" "band_contents b' = band_contents b + {#e#}"
proof -
  have d: "distinct (gm_keys (pb_flows b))" using b by (simp add: band_ok_def)
  show c: "band_contents b' = band_contents b + {#e#}"
  proof (cases "map_of (pb_flows b) tid")
    case None
    then show ?thesis
      using gm_sum_update_fresh [of "pb_flows b" tid "\<lambda>f. mset (fq_requests f)"]
      by (simp add: band_contents_def b'_def f_def)
  next
    case (Some g)
    have "band_contents b' + mset (fq_requests g) = (band_contents b + {#e#}) + mset (fq_requests g)"
      using gm_sum_update [OF d Some, of "\<lambda>f. mset (fq_requests f)" "g\<lparr>fq_requests := fq_requests g @ [e]\<rparr>"] Some
      by (simp add: band_contents_def b'_def f_def)
    then show ?thesis by (simp only: add_right_cancel)
  qed
  have "flow_ok m (pb_priority b) tid (f\<lparr>fq_requests := fq_requests f @ [e]\<rparr>)"
  proof (cases "map_of (pb_flows b) tid")
    case None
    then show ?thesis using e by (simp add: flow_ok_def f_def)
  next
    case (Some g)
    then show ?thesis using e late band_flow [OF b Some] band_flow_mem(1) [OF b Some]
      by (auto simp: flow_ok_def f_def sorted_wrt_append)
  qed
  then show "band_ok m b'"
    using b c d gm_update_distinct [OF d] by (auto simp: band_ok_def b'_def)
qed

lemma append_to_flow_ok:
  assumes q: "gq_ok q" and i: "bi < length (gq_bands q)" and p: "pb_priority (gq_bands q ! bi) = p"
    and e: "class_pri (gq_map q) e = p" "entry_tenant e = tid"
    and late: "\<forall>e' \<in># gq_contents q. fe_seq e' < fe_seq e" and new: "\<forall>e' \<in># gq_contents q. eid e' \<noteq> eid e"
  shows "gq_ok (append_to_flow bi tid p e q)" "gq_contents (append_to_flow bi tid p e q) = gq_contents q + {#e#}"
proof -
  define b where "b = gq_bands q ! bi"
  define f where "f = (case map_of (pb_flows b) tid of Some f \<Rightarrow> f | None \<Rightarrow> \<lparr>fq_key = \<lparr>fk_tenant = tid, fk_priority = p\<rparr>, fq_requests = []\<rparr>)"
  define b' where "b' = b\<lparr>pb_flows := AList.update tid (f\<lparr>fq_requests := fq_requests f @ [e]\<rparr>) (pb_flows b), pb_total := pb_total b + 1\<rparr>"
  define q' where "q' = append_to_flow bi tid p e q"
  have q': "q' = q\<lparr>gq_bands := (gq_bands q)[bi := b'], gq_total := gq_total q + 1, gq_index := (gq_index q)(eid e \<mapsto> (p, tid))\<rparr>"
    by (simp add: q'_def append_to_flow_def b'_def b_def f_def Let_def)
  have mem: "b \<in> set (gq_bands q)" using i by (simp add: b_def)
  have ok: "band_ok (gq_map q) b" using q mem by (rule gq_band)
  have l: "\<forall>e' \<in># band_contents b. fe_seq e' < fe_seq e" using late mem in_gq_contents by blast
  have fp: "p = pb_priority b" using p by (simp add: b_def)
  have B: "band_ok (gq_map q) b'" "band_contents b' = band_contents b + {#e#}"
    unfolding b'_def f_def fp by (rule band_append [OF ok e(1) [unfolded fp] e(2) l])+
  have "gq_contents q' + band_contents b = (gq_contents q + {#e#}) + band_contents b"
    using sum_list_upd [OF i, of band_contents b'] B(2) by (simp add: gq_contents_def q' b_def)
  then have c: "gq_contents q' = gq_contents q + {#e#}" by (simp only: add_right_cancel)
  then show "gq_contents (append_to_flow bi tid p e q) = gq_contents q + {#e#}" by (simp add: q'_def)
  have M: "gq_map q' = gq_map q" by (simp add: q')
  have I: "index_ok q" using q by (simp add: gq_ok_def)
  have "index_ok q'"
    unfolding index_ok_def M
  proof (intro conjI ballI allI impI)
    fix e' assume e': "e' \<in># gq_contents q'"
    then show "gq_index q' (eid e') = Some (class_pri (gq_map q) e', entry_tenant e')"
      using I c new e by (auto simp: q' index_ok_def)
  next
    fix r assume r: "gq_index q' r \<noteq> None"
    show "\<exists>e' \<in># gq_contents q'. eid e' = r"
    proof (cases "r = eid e")
      case False
      then have "gq_index q r \<noteq> None" using r by (simp add: q')
      then show ?thesis using I c by (auto simp: index_ok_def)
    qed (simp add: c)
  next
    show "unique_ids (gq_contents q')" using I new c by (simp add: index_ok_def unique_ids_add)
  qed
  moreover have "sorted_wrt (\<lambda>a b. pb_priority a > pb_priority b) (gq_bands q')"
    using q i by (auto simp: gq_ok_def q' b'_def b_def intro!: sorted_wrt_list_update)
  moreover have "\<forall>b \<in> set (gq_bands q'). band_ok (gq_map q) b"
    using q B(1) set_update_subset_insert [of "gq_bands q" bi b'] by (auto simp: gq_ok_def q')
  moreover have "gq_total q' = int (size (gq_contents q'))"
    using q c by (simp add: gq_ok_def q')
  ultimately show "gq_ok (append_to_flow bi tid p e q)"
    unfolding q'_def [symmetric] gq_ok_def M by blast
qed

text \<open>The binary search meets the band or the place where it belongs.\<close>

lemma find_or_create_band_ok:
  assumes q: "gq_ok q" and f: "find_or_create_band p q = (bi, q1)"
  obtains bs where "q1 = q\<lparr>gq_bands := bs\<rparr>" "gq_ok q1" "gq_contents q1 = gq_contents q"
    "bi < length bs" "pb_priority (bs ! bi) = p"
    "bs = gq_bands q \<or> bs ! bi = \<lparr>pb_priority = p, pb_flows = [], pb_total = 0\<rparr>"
    "set (gq_bands q) \<subseteq> set bs" "\<forall>b \<in> set bs. b \<in> set (gq_bands q) \<or> b = bs ! bi"
proof -
  let ?bs = "gq_bands q" and ?P = "\<lambda>i. pb_priority (gq_bands q ! i) \<le> p"
  define i where "i = go_search (length ?bs) ?P"
  have desc: "sorted_wrt (\<lambda>a b. pb_priority a > pb_priority b) ?bs" using q by (simp add: gq_ok_def)
  have "first_hit ?P (length ?bs) i"
    unfolding i_def
  proof (rule go_search_spec)
    fix k l assume "k \<le> l" "l < length ?bs" "?P k"
    then have "k = l \<or> pb_priority (?bs ! l) < pb_priority (?bs ! k)"
      using desc \<open>k \<le> l\<close> \<open>l < length ?bs\<close> unfolding sorted_wrt_iff_nth_less by (metis le_neq_implies_less)
    then show "?P l" using \<open>?P k\<close> by auto
  qed
  then have hit: "i \<le> length ?bs" "\<forall>k < i. \<not> ?P k" "\<forall>k. i \<le> k \<and> k < length ?bs \<longrightarrow> ?P k"
    by (auto simp: first_hit_def)
  show ?thesis
  proof (cases "i < length ?bs \<and> pb_priority (?bs ! i) = p")
    case True
    then have "find_or_create_band p q = (i, q)" by (simp add: find_or_create_band_def Let_def i_def)
    then have "bi = i" "q1 = q" using f by simp_all
    then show ?thesis using that [of ?bs] q True by simp
  next
    case False
    let ?n = "\<lparr>pb_priority = p, pb_flows = [], pb_total = 0\<rparr>"
    let ?bs' = "take i ?bs @ ?n # drop i ?bs"
    have "find_or_create_band p q = (i, q\<lparr>gq_bands := ?bs'\<rparr>)"
      using False by (auto simp: find_or_create_band_def Let_def i_def)
    then have r: "bi = i" "q1 = q\<lparr>gq_bands := ?bs'\<rparr>" using f by simp_all
    have c0: "band_contents ?n = {#}" by (simp add: band_contents_def)
    have "(\<Sum>b\<leftarrow>?bs'. band_contents b) = (\<Sum>b\<leftarrow>take i ?bs @ drop i ?bs. band_contents b)"
      using c0 by (simp only: map_append sum_list_append list.map sum_list.Cons) simp
    then have c: "gq_contents q1 = gq_contents q" by (simp add: gq_contents_def r)
    have lo: "\<forall>b \<in> set (drop i ?bs). p > pb_priority b"
    proof
      fix b assume "b \<in> set (drop i ?bs)"
      then obtain k where k: "i \<le> k" "k < length ?bs" "b = ?bs ! k"
        by (auto simp: in_set_conv_nth) (metis le_add1 less_diff_conv add.commute)
      then have "pb_priority b \<le> p" "k \<noteq> i \<longrightarrow> pb_priority (?bs ! i) > pb_priority b" "pb_priority (?bs ! i) \<le> p"
        using hit desc by (auto simp: sorted_wrt_iff_nth_less)
      then show "p > pb_priority b" using False k by (cases "k = i") auto
    qed
    have hi: "\<forall>b \<in> set (take i ?bs). pb_priority b > p"
      using hit(1,2) by (fastforce simp: in_set_conv_nth not_le)
    have "sorted_wrt (\<lambda>a b. pb_priority a > pb_priority b) (take i ?bs @ drop i ?bs)" using desc by simp
    then have s: "sorted_wrt (\<lambda>a b. pb_priority a > pb_priority b) ?bs'"
      unfolding sorted_wrt_append using lo hi by auto
    have m: "set ?bs' = insert ?n (set ?bs)" by (metis append_take_drop_id list.simps(15) set_append Un_insert_right)
    have "band_ok (gq_map q) ?n" by (simp add: band_ok_def band_contents_def)
    then have ok: "gq_ok q1"
      using q c m s unfolding gq_ok_def index_ok_def by (simp add: r)
    have n: "?bs' ! i = ?n" using hit(1) by (simp add: nth_append)
    show ?thesis
      by (rule that [of ?bs']) (use r ok c n hit(1) m in auto)
  qed
qed

end
