(* ===== verification/Gateway_Choice.thy ===== *)
theory Gateway_Choice
  imports Gateway_Safe
begin

text \<open>
  What the selection loops of the gateway queue choose: the shedding victim, the head a
  fairness policy picks, the earliest deadline of a flow, the globally earliest head. Each
  loop is an instance of \<open>keep_best\<close>, so its specification is one lemma.
\<close>

section \<open>The shedding victim\<close>

lemma shed_weak: "weak_order (\<lambda>x y. shed_better m (fst x) (fst y))"
  by unfold_locales (auto simp: shed_better_def Let_def)

interpretation shed: weak_order "\<lambda>x y. shed_better m (fst x) (fst y)" for m
  by (rule shed_weak)

lemma seq_weak: "weak_order (\<lambda>x y. f x < (f y :: int))"
  by unfold_locales auto

interpretation by_seq: weak_order "\<lambda>x y. fe_seq (fst x) < fe_seq (fst y)"
  by (rule seq_weak)

interpretation by_head: weak_order "\<lambda>x y. snd x < (snd y :: int)"
  by (rule seq_weak)

definition flow_positions :: "nat \<Rightarrow> string \<Rightarrow> nat \<Rightarrow> flow_entry list \<Rightarrow> victim list" where
  "flow_positions bi tid i es = map (\<lambda>(j, e). (e, bi, tid, j)) (enumerate i es)"

definition band_positions :: "nat \<Rightarrow> priority_band \<Rightarrow> victim list" where
  "band_positions bi b = concat (map (\<lambda>tid. flow_positions bi tid 0 (flow_requests b tid)) (sorted_flow_keys (pb_flows b)))"

fun all_positions :: "nat \<Rightarrow> priority_band list \<Rightarrow> victim list" where
  "all_positions bi [] = []"
| "all_positions bi (b # bs) = band_positions bi b @ all_positions (bi + 1) bs"

abbreviation can_shed :: "slo_map \<Rightarrow> victim \<Rightarrow> bool" where
  "can_shed m v \<equiv> is_sheddable m (rq_slo_class (fe_request (fst v)))"

abbreviation shed_lt :: "slo_map \<Rightarrow> victim \<Rightarrow> victim \<Rightarrow> bool" where
  "shed_lt m \<equiv> (\<lambda>x y. shed_better m (fst x) (fst y))"

lemma shed_scan_flow_eq:
  "shed_scan_flow m bi tid i es best = keep_best (shed_lt m) (filter (can_shed m) (flow_positions bi tid i es)) best"
proof (induction es arbitrary: i best)
  case (Cons e es)
  show ?case
    by (cases best) (auto simp: Cons.IH flow_positions_def split: prod.split)
qed (simp add: flow_positions_def)

lemma shed_scan_flows_eq:
  "shed_scan_flows m bi b tids best =
   keep_best (shed_lt m) (filter (can_shed m) (concat (map (\<lambda>tid. flow_positions bi tid 0 (flow_requests b tid)) tids))) best"
  by (induction tids arbitrary: best) (auto simp: shed_scan_flow_eq keep_best_append)

lemma shed_scan_bands_eq:
  "shed_scan_bands m bi bs best = keep_best (shed_lt m) (filter (can_shed m) (all_positions bi bs)) best"
  by (induction bs arbitrary: bi best) (auto simp: shed_scan_flows_eq keep_best_append band_positions_def)

lemma flow_positions_mem:
  "(e, bi', tid', j) \<in> set (flow_positions bi tid i es) \<longleftrightarrow> bi' = bi \<and> tid' = tid \<and> i \<le> j \<and> j < i + length es \<and> e = es ! (j - i)"
  by (auto simp: flow_positions_def in_set_enumerate_eq image_iff intro!: bexI [of _ "(j, es ! (j - i))"])

lemma sorted_flow_keys_set [simp]: "set (sorted_flow_keys fs) = dom (map_of fs)"
  unfolding sorted_flow_keys_def sort_strings_simps(1) by (rule gm_keys_set)

lemma band_positions_mem:
  "(e, bi', tid, j) \<in> set (band_positions bi b) \<longleftrightarrow>
     bi' = bi \<and> (\<exists>f. map_of (pb_flows b) tid = Some f \<and> j < length (fq_requests f) \<and> e = fq_requests f ! j)"
  by (auto simp: band_positions_def flow_positions_mem)

lemma all_positions_mem:
  "(e, bi', tid, j) \<in> set (all_positions bi bs) \<longleftrightarrow>
     bi \<le> bi' \<and> bi' < bi + length bs \<and>
     (\<exists>f. map_of (pb_flows (bs ! (bi' - bi))) tid = Some f \<and> j < length (fq_requests f) \<and> e = fq_requests f ! j)"
proof (induction bs arbitrary: bi bi')
  case (Cons b bs)
  show ?case
    by (cases "bi' = bi") (auto simp: Cons.IH band_positions_mem nth_Cons' Suc_le_eq)
qed simp

lemma all_positions_entry:
  assumes "gq_ok q" "e \<in># gq_contents q"
  obtains bi tid j where "(e, bi, tid, j) \<in> set (all_positions 0 (gq_bands q))"
proof -
  obtain b where b: "b \<in> set (gq_bands q)" "e \<in># band_contents b" using assms(2) in_gq_contents by blast
  then obtain f where f: "map_of (pb_flows b) (entry_tenant e) = Some f" "e \<in> set (fq_requests f)"
    using band_entry gq_band assms(1) by metis
  obtain bi j where "bi < length (gq_bands q)" "b = gq_bands q ! bi" "j < length (fq_requests f)" "e = fq_requests f ! j"
    using b(1) f(2) by (metis in_set_conv_nth)
  then show ?thesis using that [of bi "entry_tenant e" j] f(1) by (simp add: all_positions_mem)
qed

text \<open>
  INV-17: the victim is sheddable, of the lowest priority, the latest among those, and the
  tail of its flow; the newcomer outranks it. There is none exactly when the newcomer
  outranks no sheddable entry.
\<close>

lemma find_shed_victim_Some:
  assumes q: "gq_ok q" and v: "find_shed_victim p seq q = Some (e, bi, tid, i)"
  obtains f where "bi < length (gq_bands q)" "map_of (pb_flows (gq_bands q ! bi)) tid = Some f"
    "i = length (fq_requests f) - 1" "e = last (fq_requests f)" "fq_requests f \<noteq> []"
    "e \<in># gq_contents q" "class_pri (gq_map q) e < 0"
    "\<And>e'. e' \<in># gq_contents q \<Longrightarrow> class_pri (gq_map q) e' < 0 \<Longrightarrow> \<not> shed_better (gq_map q) e' e"
    "class_pri (gq_map q) e < p \<or> (class_pri (gq_map q) e = p \<and> seq < fe_seq e)"
proof -
  let ?m = "gq_map q" and ?xs = "filter (can_shed (gq_map q)) (all_positions 0 (gq_bands q))"
  have k: "keep_best (shed_lt ?m) ?xs None = Some (e, bi, tid, i)" and
    r: "class_pri ?m e < p \<or> (class_pri ?m e = p \<and> seq < fe_seq e)"
    using v by (auto simp: find_shed_victim_def shed_scan_bands_eq Let_def split: option.splits if_splits)
  note K = shed.keep_best_least [OF k]
  obtain f where f: "bi < length (gq_bands q)" "map_of (pb_flows (gq_bands q ! bi)) tid = Some f"
      "i < length (fq_requests f)" "e = fq_requests f ! i" and neg: "class_pri ?m e < 0"
    using K(1) by (auto simp: all_positions_mem is_sheddable_def)
  have b: "band_ok ?m (gq_bands q ! bi)" using q f(1) by (rule gq_band_nth)
  have best: "\<not> shed_better ?m e' e" if "e' \<in># gq_contents q" "class_pri ?m e' < 0" for e'
  proof -
    note e' = that
    obtain bi' tid' j where "(e', bi', tid', j) \<in> set (all_positions 0 (gq_bands q))"
      using all_positions_entry [OF q e'(1)] .
    then have "(e', bi', tid', j) \<in> set ?xs" using e'(2) by (simp add: is_sheddable_def)
    then show ?thesis using K(2) by fastforce
  qed
  have ok: "flow_ok ?m (pb_priority (gq_bands q ! bi)) tid f" by (rule band_flow [OF b f(2)])
  have mem: "x \<in># gq_contents q" if "x \<in> set (fq_requests f)" for x
    using band_flow_mem(1) [OF b f(2) that] f(1) in_gq_contents nth_mem by metis
  have "i = length (fq_requests f) - 1"
  proof (rule ccontr)
    assume "i \<noteq> length (fq_requests f) - 1"
    then have lt: "i < length (fq_requests f) - 1" using f(3) by simp
    let ?l = "fq_requests f ! (length (fq_requests f) - 1)"
    have in_f: "?l \<in> set (fq_requests f)" "e \<in> set (fq_requests f)" using f(3,4) by auto
    have "fe_seq e < fe_seq ?l" using ok lt f(3,4) by (simp add: flow_ok_def sorted_wrt_iff_nth_less)
    moreover have "class_pri ?m ?l = class_pri ?m e" using ok in_f unfolding flow_ok_def by metis
    ultimately have "shed_better ?m ?l e" "class_pri ?m ?l < 0" using neg by (simp_all add: shed_better_def)
    then show False using best mem in_f(1) by blast
  qed
  moreover have "fq_requests f \<noteq> []" using f(3) by auto
  moreover have "e = last (fq_requests f)" using calculation f(4) by (simp add: last_conv_nth)
  moreover have "e \<in># gq_contents q" using mem f(3,4) by simp
  ultimately show ?thesis using that f neg best r by blast
qed

lemma find_shed_victim_None:
  assumes q: "gq_ok q" and v: "find_shed_victim p seq q = None" and e: "e \<in># gq_contents q" "class_pri (gq_map q) e < 0"
  shows "p \<le> class_pri (gq_map q) e" "p = class_pri (gq_map q) e \<Longrightarrow> \<exists>e' \<in># gq_contents q. class_pri (gq_map q) e' = p \<and> fe_seq e \<le> fe_seq e' \<and> fe_seq e' \<le> seq"
proof -
  let ?m = "gq_map q" and ?xs = "filter (can_shed (gq_map q)) (all_positions 0 (gq_bands q))"
  obtain bi tid j where "(e, bi, tid, j) \<in> set (all_positions 0 (gq_bands q))" using all_positions_entry [OF q e(1)] .
  then have mem: "(e, bi, tid, j) \<in> set ?xs" using e(2) by (simp add: is_sheddable_def)
  then have "?xs \<noteq> []" by (metis length_pos_if_in_set less_numeral_extra(3) list.size(3))
  then obtain x bi' tid' j' where k: "keep_best (shed_lt ?m) ?xs None = Some (x, bi', tid', j')"
    using keep_best_None [of "shed_lt ?m" ?xs None] by (metis option.exhaust prod_cases4)
  note K = shed.keep_best_least [OF k]
  have "\<not> (p > class_pri ?m x \<or> (p = class_pri ?m x \<and> seq < fe_seq x))"
    using v k by (simp add: find_shed_victim_def shed_scan_bands_eq Let_def split: if_splits)
  moreover have nb: "\<not> shed_better ?m e x" using K(2) [OF mem] by simp
  ultimately show "p \<le> class_pri ?m e" by (auto simp: shed_better_def Let_def)
  have x: "x \<in># gq_contents q"
  proof -
    obtain f where "bi' < length (gq_bands q)" "map_of (pb_flows (gq_bands q ! bi')) tid' = Some f" "x \<in> set (fq_requests f)"
      using K(1) by (auto simp: all_positions_mem)
    then show ?thesis using band_flow_mem(1) gq_band_nth [OF q] in_gq_contents nth_mem by metis
  qed
  show "\<exists>e' \<in># gq_contents q. class_pri ?m e' = p \<and> fe_seq e \<le> fe_seq e' \<and> fe_seq e' \<le> seq" if "p = class_pri ?m e"
  proof
    show "class_pri ?m x = p \<and> fe_seq e \<le> fe_seq x \<and> fe_seq x \<le> seq"
      using that nb \<open>\<not> (p > class_pri ?m x \<or> _)\<close> by (auto simp: shed_better_def Let_def)
  qed (rule x)
qed

end
