(* ===== verification/Gateway_Ops.thy ===== *)
theory Gateway_Ops
  imports Gateway_Choice
begin

text \<open>
  The operations of the gateway queue on its abstract view: what an enqueue adds and sheds,
  which entry each dequeue takes, and that none of them panics on a well-formed queue.
\<close>

section \<open>Fairness policies\<close>

lemma keep_best_Some:
  assumes "x \<in> set xs"
  obtains y where "keep_best lt xs None = Some y"
proof -
  have "keep_best lt xs None \<noteq> None" unfolding keep_best_None using assms by auto
  then show ?thesis using that by blast
qed

lemma strict_pick_eq:
  "strict_pick b tids best =
   keep_best (\<lambda>x y. snd x < snd y)
     (map (\<lambda>tid. (tid, fe_seq (hd (flow_requests b tid)))) (filter (\<lambda>tid. flow_requests b tid \<noteq> []) tids)) best"
proof (induction tids arbitrary: best)
  case (Cons tid tids)
  show ?case
    by (cases "flow_requests b tid"; cases best) (auto simp: Cons.IH)
qed simp

lemma band_flow_nonempty:
  assumes "band_ok m b" "map_of (pb_flows b) tid = Some f"
  shows "flow_requests b tid = fq_requests f" "fq_requests f \<noteq> []"
  using band_flow [OF assms] assms(2) by (simp_all add: flow_ok_def)

lemma flow_head_least:
  assumes "flow_ok m p tid f" "e \<in> set (fq_requests f)"
  shows "fe_seq (hd (fq_requests f)) \<le> fe_seq e"
  using assms by (cases "fq_requests f") (auto simp: flow_ok_def)

lemma band_has_flow:
  assumes "band_ok m b" "pb_total b \<noteq> 0"
  obtains tid f where "map_of (pb_flows b) tid = Some f"
proof -
  have "band_contents b \<noteq> {#}" using assms by (auto simp: band_ok_def)
  then obtain e where "e \<in># band_contents b" by blast
  then show ?thesis using in_band_contents [OF assms(1)] that by blast
qed

lemma fair_pick_strict:
  assumes b: "band_ok m b" and n: "pb_total b \<noteq> 0"
  obtains tid f where "fair_pick GlobalStrictPolicy b = (Some tid, GlobalStrictPolicy)"
    "map_of (pb_flows b) tid = Some f" "\<forall>e \<in># band_contents b. fe_seq (hd (fq_requests f)) \<le> fe_seq e"
proof -
  let ?xs = "map (\<lambda>tid. (tid, fe_seq (hd (flow_requests b tid)))) (filter (\<lambda>tid. flow_requests b tid \<noteq> []) (sorted_flow_keys (pb_flows b)))"
  have mem: "(tid, fe_seq (hd (fq_requests f))) \<in> set ?xs" if "map_of (pb_flows b) tid = Some f" for tid f
  proof -
    have "tid \<in> set (sorted_flow_keys (pb_flows b))" "flow_requests b tid = fq_requests f" "fq_requests f \<noteq> []"
      using that band_flow_nonempty [OF b that] by auto
    then show ?thesis by auto
  qed
  obtain tid0 f0 where "map_of (pb_flows b) tid0 = Some f0" using band_has_flow [OF b n] .
  then obtain z where k: "keep_best (\<lambda>x y. snd x < snd y) ?xs None = Some z"
    using keep_best_Some [OF mem] by blast
  obtain tid s where z: "z = (tid, s)" by (cases z)
  note k = k [unfolded z]
  note K = by_head.keep_best_least [OF k]
  obtain f where f: "map_of (pb_flows b) tid = Some f" "s = fe_seq (hd (fq_requests f))"
    using K(1) by (auto simp: image_iff)
  have "fe_seq (hd (fq_requests f)) \<le> fe_seq e" if e: "e \<in># band_contents b" for e
  proof -
    obtain g where g: "map_of (pb_flows b) (entry_tenant e) = Some g" "e \<in> set (fq_requests g)" using band_entry [OF b e] .
    have "\<not> fe_seq (hd (fq_requests g)) < s" using K(2) [OF mem [OF g(1)]] by simp
    moreover have "fe_seq (hd (fq_requests g)) \<le> fe_seq e" using flow_head_least [OF band_flow [OF b g(1)] g(2)] .
    ultimately show ?thesis using f by simp
  qed
  then show ?thesis using that f(1) k by (simp add: strict_pick_eq)
qed

text \<open>
  The round robin picks, from its start position on and around, the first tenant that has
  requests; in a well-formed band every listed tenant has, so it is the one at the start.
\<close>

definition rr_next :: "string list \<Rightarrow> string \<Rightarrow> string" where
  "rr_next keys cur = keys ! (if cur \<noteq> '''' then rr_start keys 0 cur (length keys) else 0)"

lemma rr_start_less: "0 < n \<Longrightarrow> rr_start ks i cur n < n"
  by (induction ks arbitrary: i) auto

lemma fair_pick_rr:
  fixes cur :: "int \<Rightarrow> string"
  assumes b: "band_ok m b" and n: "pb_total b \<noteq> 0"
  defines "tid \<equiv> rr_next (sorted_flow_keys (pb_flows b)) (cur (pb_priority b))"
  obtains f where "fair_pick (RoundRobinPolicy cur) b = (Some tid, RoundRobinPolicy (cur(pb_priority b := tid)))"
    "map_of (pb_flows b) tid = Some f"
proof -
  let ?keys = "sorted_flow_keys (pb_flows b)"
  define s where "s = (if cur (pb_priority b) \<noteq> '''' then rr_start ?keys 0 (cur (pb_priority b)) (length ?keys) else 0)"
  obtain tid0 f0 where "map_of (pb_flows b) tid0 = Some f0" using band_has_flow [OF b n] .
  then have "tid0 \<in> set ?keys" by auto
  then have l: "0 < length ?keys" by (rule length_pos_if_in_set)
  have s: "s < length ?keys" using rr_start_less [OF l] l by (simp add: s_def)
  have t: "tid = ?keys ! s" by (simp add: tid_def rr_next_def s_def)
  have "tid \<in> set ?keys" unfolding t by (rule nth_mem [OF s])
  then obtain f where f: "map_of (pb_flows b) tid = Some f" by auto
  have "[0..<length ?keys] = 0 # [1..<length ?keys]" using l by (simp add: upt_rec)
  then have "rr_scan b ?keys (map (\<lambda>i. (s + i) mod length ?keys) [0..<length ?keys]) = Some tid"
    using s t band_flow_nonempty [OF b f] by simp
  then have "fair_pick (RoundRobinPolicy cur) b = (Some tid, RoundRobinPolicy (cur(pb_priority b := tid)))"
    using l by (simp add: Let_def s_def [symmetric])
  then show ?thesis using that f by blast
qed

lemma fair_pick_ok:
  assumes "band_ok m b" "pb_total b \<noteq> 0"
  obtains tid f fp' where "fair_pick fp b = (Some tid, fp')" "map_of (pb_flows b) tid = Some f"
    "fp = GlobalStrictPolicy \<longrightarrow> (\<forall>e \<in># band_contents b. fe_seq (hd (fq_requests f)) \<le> fe_seq e)"
proof (cases fp)
  case GlobalStrictPolicy
  then show ?thesis using fair_pick_strict [OF assms] that by metis
next
  case (RoundRobinPolicy cur)
  then show ?thesis using fair_pick_rr [OF assms, of cur] that by (metis fairness.distinct(1))
qed

section \<open>Removals\<close>

text \<open>What no removal touches, and the contract of one: a well-formed queue without the entry.\<close>

definition same_config :: "gateway_queue \<Rightarrow> gateway_queue \<Rightarrow> bool" where
  "same_config q q' \<longleftrightarrow> gq_max_depth q' = gq_max_depth q \<and> gq_band_capacity q' = gq_band_capacity q \<and>
     gq_map q' = gq_map q \<and> gq_priority_mode q' = gq_priority_mode q \<and> gq_slo_mode q' = gq_slo_mode q \<and>
     gq_targets q' = gq_targets q \<and> gq_threshold q' = gq_threshold q \<and> gq_shedding q' = gq_shedding q"

definition takes :: "gateway_queue \<Rightarrow> flow_entry \<Rightarrow> gateway_queue \<Rightarrow> bool" where
  "takes q e q' \<longleftrightarrow> gq_ok q' \<and> gq_contents q = add_mset e (gq_contents q') \<and> same_config q q' \<and>
     gq_shed q' = gq_shed q \<and> gq_rejected q' = gq_rejected q"

lemma takes_in: "takes q e q' \<Longrightarrow> e \<in># gq_contents q"
  by (simp add: takes_def)

lemma gq_ok_fairness [simp]:
  "gq_ok (q\<lparr>gq_fairness := fp\<rparr>) = gq_ok q" "gq_contents (q\<lparr>gq_fairness := fp\<rparr>) = gq_contents q"
  by (simp_all add: gq_ok_def index_ok_def gq_contents_def)

lemma same_config_refl [simp]: "same_config q q"
  by (simp add: same_config_def)

lemma shrink_takes:
  assumes q: "gq_ok q" and i: "bi < length (gq_bands q)" and f: "map_of (pb_flows (gq_bands q ! bi)) tid = Some f"
    and k: "k < length (fq_requests f)" and es: "es = take k (fq_requests f) @ drop (k + 1) (fq_requests f)"
  shows "takes q (fq_requests f ! k) (gq_shrink bi tid (fe_request (fq_requests f ! k)) es (q\<lparr>gq_fairness := fp\<rparr>))"
proof -
  let ?q = "q\<lparr>gq_fairness := fp\<rparr>" and ?e = "fq_requests f ! k"
  have s: "fq_requests f = take k (fq_requests f) @ ?e # drop (k + 1) (fq_requests f)"
    using id_take_nth_drop [OF k] by simp
  note S = gq_shrink_ok [of ?q bi tid f, OF _ _ _ s]
  have "gq_ok (gq_shrink bi tid (fe_request ?e) es ?q)" "gq_contents q = add_mset ?e (gq_contents (gq_shrink bi tid (fe_request ?e) es ?q))"
    unfolding es using S q i f by simp_all
  then show ?thesis by (simp add: takes_def same_config_def gq_shrink_def Let_def)
qed

lemma shrink_takes_plain:
  assumes "gq_ok q" "bi < length (gq_bands q)" "map_of (pb_flows (gq_bands q ! bi)) tid = Some f"
    "k < length (fq_requests f)" "es = take k (fq_requests f) @ drop (k + 1) (fq_requests f)"
  shows "takes q (fq_requests f ! k) (gq_shrink bi tid (fe_request (fq_requests f ! k)) es q)"
proof -
  have "q\<lparr>gq_fairness := gq_fairness q\<rparr> = q" by simp
  then show ?thesis using shrink_takes [OF assms, of "gq_fairness q"] by simp
qed

section \<open>Dequeue from a band\<close>

text \<open>The entry is in the band; its own tenant has nothing earlier; under the strict policy nobody has.\<close>

lemma dequeue_from_band_ok:
  assumes q: "gq_ok q" and i: "bi < length (gq_bands q)" and n: "pb_total (gq_bands q ! bi) \<noteq> 0"
  obtains e q' where "dequeue_from_band bi q = (Some (fe_request e), q')" "takes q e q'"
    "e \<in># band_contents (gq_bands q ! bi)"
    "\<forall>e' \<in># band_contents (gq_bands q ! bi). gq_fairness q = GlobalStrictPolicy \<or> entry_tenant e' = entry_tenant e \<longrightarrow> fe_seq e \<le> fe_seq e'"
proof -
  let ?b = "gq_bands q ! bi"
  have b: "band_ok (gq_map q) ?b" using q i by (rule gq_band_nth)
  obtain tid f fp' where p: "fair_pick (gq_fairness q) ?b = (Some tid, fp')" "map_of (pb_flows ?b) tid = Some f"
      "gq_fairness q = GlobalStrictPolicy \<longrightarrow> (\<forall>e \<in># band_contents ?b. fe_seq (hd (fq_requests f)) \<le> fe_seq e)"
    by (rule fair_pick_ok [OF b n, where fp = "gq_fairness q"]) (rule that, assumption+)
  have ne: "fq_requests f \<noteq> []" using band_flow_nonempty [OF b p(2)] by simp
  then have h: "fq_requests f ! 0 = hd (fq_requests f)" by (simp add: hd_conv_nth)
  let ?q' = "gq_shrink bi tid (fe_request (fq_requests f ! 0)) (drop 1 (fq_requests f)) (q\<lparr>gq_fairness := fp'\<rparr>)"
  have "dequeue_from_band bi q = (Some (fe_request (fq_requests f ! 0)), ?q')"
    using p band_flow_nonempty [OF b p(2)] by (simp add: dequeue_from_band_def Let_def)
  moreover have "takes q (fq_requests f ! 0) ?q'"
    by (rule shrink_takes [OF q i p(2)]) (use ne in simp_all)
  moreover have mem: "fq_requests f ! 0 \<in> set (fq_requests f)" using ne by simp
  moreover have "fq_requests f ! 0 \<in># band_contents ?b" by (rule band_flow_mem(1) [OF b p(2) mem])
  moreover have "fe_seq (fq_requests f ! 0) \<le> fe_seq e'"
    if e': "e' \<in># band_contents ?b" and c: "gq_fairness q = GlobalStrictPolicy \<or> entry_tenant e' = entry_tenant (fq_requests f ! 0)" for e'
  proof (cases "gq_fairness q = GlobalStrictPolicy")
    case True
    then show ?thesis using p(3) e' h by simp
  next
    case False
    then have t: "entry_tenant e' = tid" using c band_flow_mem(3) [OF b p(2) mem] by simp
    obtain g where "map_of (pb_flows ?b) (entry_tenant e') = Some g" "e' \<in> set (fq_requests g)" using band_entry [OF b e'] .
    then have "e' \<in> set (fq_requests f)" using t p(2) by simp
    then show ?thesis using flow_head_least [OF band_flow [OF b p(2)]] h by simp
  qed
  ultimately show ?thesis using that by blast
qed

text \<open>The scan for the earliest deadline, again a running best, over positions.\<close>

type_synonym timed = "nat \<times> int \<times> int"

definition sooner :: "timed \<Rightarrow> timed \<Rightarrow> bool" where
  "sooner x y \<longleftrightarrow> fst (snd x) < fst (snd y) \<or> (fst (snd x) = fst (snd y) \<and> snd (snd x) < snd (snd y))"

interpretation sooner: weak_order sooner
  by unfold_locales (auto simp: sooner_def)

definition timed_entries :: "gateway_queue \<Rightarrow> nat \<Rightarrow> flow_entry list \<Rightarrow> timed list" where
  "timed_entries q i es = map (\<lambda>(j, e). (j, slo_deadline q (fe_request e), fe_seq e)) (enumerate i es)"

lemma deadline_scan_eq:
  "Some (deadline_scan q i es best) = keep_best sooner (timed_entries q i es) (Some best)"
proof (induction es arbitrary: i best)
  case (Cons e es)
  show ?case
    by (cases best) (auto simp: timed_entries_def sooner_def Let_def Cons.IH [unfolded timed_entries_def] simp del: deadline_scan.simps(1))
qed (simp add: timed_entries_def)

lemma deadline_index_ok:
  fixes q :: gateway_queue
  assumes "es \<noteq> []"
  defines "k \<equiv> deadline_index q es"
  shows "k < length es" "e \<in> set es \<Longrightarrow> slo_deadline q (fe_request (es ! k)) \<le> slo_deadline q (fe_request e)"
    "e \<in> set es \<Longrightarrow> slo_deadline q (fe_request e) = slo_deadline q (fe_request (es ! k)) \<Longrightarrow> fe_seq (es ! k) \<le> fe_seq e"
proof -
  obtain x xs where es: "es = x # xs" using assms(1) by (cases es) auto
  define r where "r = deadline_scan q 1 xs (0, slo_deadline q (fe_request x), fe_seq x)"
  have k: "k = fst r" by (simp add: k_def deadline_index_def es r_def)
  have "keep_best sooner (timed_entries q 0 es) None = Some r"
    using deadline_scan_eq [of q 1 xs "(0, slo_deadline q (fe_request x), fe_seq x)"]
    by (simp add: r_def timed_entries_def es)
  note K = sooner.keep_best_least [OF this]
  have r: "k < length es" "r = (k, slo_deadline q (fe_request (es ! k)), fe_seq (es ! k))"
    using K(1) k by (auto simp: timed_entries_def in_set_enumerate_eq)
  then show "k < length es" by simp
  have ns: "\<not> sooner (j, slo_deadline q (fe_request (es ! j)), fe_seq (es ! j)) r" if "j < length es" for j
    by (rule K(2)) (use that in \<open>auto simp: timed_entries_def in_set_enumerate_eq image_iff intro!: bexI [of _ "(j, es ! j)"]\<close>)
  show "slo_deadline q (fe_request (es ! k)) \<le> slo_deadline q (fe_request e)" if "e \<in> set es"
    using ns that r by (auto simp: in_set_conv_nth sooner_def not_less)
  show "fe_seq (es ! k) \<le> fe_seq e" if "e \<in> set es" "slo_deadline q (fe_request e) = slo_deadline q (fe_request (es ! k))"
    using ns that r by (auto simp: in_set_conv_nth sooner_def not_less)
qed

lemma dequeue_from_band_slo_ok:
  assumes q: "gq_ok q" and i: "bi < length (gq_bands q)" and n: "pb_total (gq_bands q ! bi) \<noteq> 0"
  obtains e q' where "dequeue_from_band_slo bi q = (Some (fe_request e), q')" "takes q e q'"
    "e \<in># band_contents (gq_bands q ! bi)"
    "\<forall>e' \<in># band_contents (gq_bands q ! bi). entry_tenant e' = entry_tenant e \<longrightarrow>
       slo_deadline q (fe_request e) < slo_deadline q (fe_request e') \<or>
       (slo_deadline q (fe_request e) = slo_deadline q (fe_request e') \<and> fe_seq e \<le> fe_seq e')"
proof -
  let ?b = "gq_bands q ! bi"
  have b: "band_ok (gq_map q) ?b" using q i by (rule gq_band_nth)
  obtain tid f fp' where p: "fair_pick (gq_fairness q) ?b = (Some tid, fp')" "map_of (pb_flows ?b) tid = Some f"
    using fair_pick_ok [OF b n] by metis
  have ne: "fq_requests f \<noteq> []" using band_flow_nonempty [OF b p(2)] by simp
  define k where "k = deadline_index q (fq_requests f)"
  note D = deadline_index_ok [OF ne, where q = q, folded k_def]
  let ?e = "fq_requests f ! k"
  let ?q' = "gq_shrink bi tid (fe_request ?e) (remove_at k (fq_requests f)) (q\<lparr>gq_fairness := fp'\<rparr>)"
  have "dequeue_from_band_slo bi q = (Some (fe_request ?e), ?q')"
    using p band_flow_nonempty [OF b p(2)] by (simp add: dequeue_from_band_slo_def Let_def k_def)
  moreover have "takes q ?e ?q'"
    by (rule shrink_takes [OF q i p(2) D(1)]) (simp add: remove_at_def)
  moreover have mem: "?e \<in> set (fq_requests f)" using D(1) by simp
  moreover have "?e \<in># band_contents ?b" by (rule band_flow_mem(1) [OF b p(2) mem])
  moreover have "slo_deadline q (fe_request ?e) < slo_deadline q (fe_request e') \<or>
       (slo_deadline q (fe_request ?e) = slo_deadline q (fe_request e') \<and> fe_seq ?e \<le> fe_seq e')"
    if e': "e' \<in># band_contents ?b" "entry_tenant e' = entry_tenant ?e" for e'
  proof -
    have t: "entry_tenant e' = tid" using e'(2) band_flow_mem(3) [OF b p(2) mem] by simp
    obtain g where "map_of (pb_flows ?b) (entry_tenant e') = Some g" "e' \<in> set (fq_requests g)" using band_entry [OF b e'(1)] .
    then have "e' \<in> set (fq_requests f)" using t p(2) by simp
    then show ?thesis using D(2,3) [of e'] by fastforce
  qed
  ultimately show ?thesis using that by blast
qed


section \<open>Choosing a band\<close>

lemma first_band_spec:
  "first_band k bs = Some i \<Longrightarrow> k \<le> i \<and> i < k + length bs \<and> pb_total (bs ! (i - k)) \<noteq> 0 \<and> (\<forall>j < i - k. pb_total (bs ! j) = 0)"
proof (induction bs arbitrary: k)
  case (Cons b bs)
  show ?case
  proof (cases "pb_total b = 0")
    case True
    then have ih: "k + 1 \<le> i \<and> i < k + 1 + length bs \<and> pb_total (bs ! (i - (k + 1))) \<noteq> 0 \<and> (\<forall>j < i - (k + 1). pb_total (bs ! j) = 0)"
      using Cons.IH [of "k + 1"] Cons.prems by simp
    then obtain d where "i = k + 1 + d" using le_Suc_ex by blast
    then show ?thesis using ih True by (auto simp: nth_Cons split: nat.split)
  next
    case False
    then show ?thesis using Cons.prems by auto
  qed
qed simp

lemma first_band_None: "first_band k bs = None \<longleftrightarrow> (\<forall>b \<in> set bs. pb_total b = 0)"
  by (induction bs arbitrary: k) auto

lemma gated_band_spec:
  "gated_band s t n k bs = Some i \<Longrightarrow> k \<le> i \<and> i < k + length bs \<and> pb_total (bs ! (i - k)) \<noteq> 0 \<and>
     (\<forall>j < i - k. pb_total (bs ! j) = 0) \<and> (\<forall>j. k \<le> j \<and> j \<le> i \<longrightarrow> s < band_ceiling t n j)"
proof (induction bs arbitrary: k)
  case (Cons b bs)
  show ?case
  proof (cases "pb_total b = 0")
    case True
    then have ih: "k + 1 \<le> i \<and> i < k + 1 + length bs \<and> pb_total (bs ! (i - (k + 1))) \<noteq> 0 \<and>
        (\<forall>j < i - (k + 1). pb_total (bs ! j) = 0) \<and> (\<forall>j. k + 1 \<le> j \<and> j \<le> i \<longrightarrow> s < band_ceiling t n j)"
      and c: "s < band_ceiling t n k"
      using Cons.IH [of "k + 1"] Cons.prems by (simp_all split: if_splits)
    have all: "s < band_ceiling t n j" if "k \<le> j" "j \<le> i" for j using ih c that by (cases "j = k") auto
    obtain d where "i = k + 1 + d" using ih le_Suc_ex by blast
    then show ?thesis using ih True all by (auto simp: nth_Cons split: nat.split)
  next
    case False
    then show ?thesis using Cons.prems by (auto split: if_splits)
  qed
qed simp

lemma gated_band_None:
  "gated_band s t n k bs = None \<Longrightarrow>
     (\<forall>b \<in> set bs. pb_total b = 0) \<or>
     (\<exists>i. k \<le> i \<and> i < k + length bs \<and> s \<ge> band_ceiling t n i \<and> (\<forall>j < i - k. pb_total (bs ! j) = 0))"
proof (induction bs arbitrary: k)
  case (Cons b bs)
  show ?case
  proof (cases "s \<ge> band_ceiling t n k")
    case True
    then show ?thesis by (intro disjI2 exI [of _ k]) simp
  next
    case False
    then have z: "pb_total b = 0" and g: "gated_band s t n (k + 1) bs = None" using Cons.prems by (auto split: if_splits)
    from Cons.IH [OF g] show ?thesis
    proof
      assume "\<forall>b \<in> set bs. pb_total b = 0"
      then show ?thesis using z by simp
    next
      assume "\<exists>i. k + 1 \<le> i \<and> i < k + 1 + length bs \<and> s \<ge> band_ceiling t n i \<and> (\<forall>j < i - (k + 1). pb_total (bs ! j) = 0)"
      then obtain d where d: "k + 1 + d < k + 1 + length bs" "s \<ge> band_ceiling t n (k + 1 + d)" "\<forall>j < d. pb_total (bs ! j) = 0"
        by (metis add_diff_cancel_left' le_Suc_ex)
      show ?thesis
        by (intro disjI2 exI [of _ "k + 1 + d"]) (use d z in \<open>auto simp: nth_Cons split: nat.split\<close>)
    qed
  qed
qed simp

lemma band_pri_desc:
  assumes "gq_ok q" "i < j" "j < length (gq_bands q)"
  shows "pb_priority (gq_bands q ! i) > pb_priority (gq_bands q ! j)"
  using assms by (auto simp: gq_ok_def sorted_wrt_iff_nth_less)

lemma empty_band:
  assumes "gq_ok q" "i < length (gq_bands q)" "pb_total (gq_bands q ! i) = 0"
  shows "band_contents (gq_bands q ! i) = {#}"
  using gq_band_nth [OF assms(1,2)] assms(3) by (simp add: band_ok_def)

text \<open>When the bands before position \<open>i\<close> are empty, what band \<open>i\<close> holds is what has the highest priority.\<close>

lemma first_band_top:
  assumes q: "gq_ok q" and i: "i < length (gq_bands q)" and z: "\<forall>j < i. pb_total (gq_bands q ! j) = 0"
    and e: "e \<in># band_contents (gq_bands q ! i)"
  shows "e \<in># gq_contents q" "\<forall>e' \<in># gq_contents q. class_pri (gq_map q) e' \<le> class_pri (gq_map q) e"
    "\<forall>e' \<in># gq_contents q. class_pri (gq_map q) e' = class_pri (gq_map q) e \<longrightarrow> e' \<in># band_contents (gq_bands q ! i)"
proof -
  show "e \<in># gq_contents q" using e i in_gq_contents nth_mem by blast
  have pe: "class_pri (gq_map q) e = pb_priority (gq_bands q ! i)"
    using band_entry [OF gq_band_nth [OF q i] e] by blast
  have loc: "class_pri (gq_map q) e' < class_pri (gq_map q) e \<or> e' \<in># band_contents (gq_bands q ! i)"
    if e': "e' \<in># gq_contents q" for e'
  proof -
    obtain j where j: "j < length (gq_bands q)" "e' \<in># band_contents (gq_bands q ! j)"
      using e' by (metis in_gq_contents in_set_conv_nth)
    have "class_pri (gq_map q) e' = pb_priority (gq_bands q ! j)"
      using band_entry [OF gq_band_nth [OF q j(1)] j(2)] by blast
    moreover have "\<not> j < i" using z j empty_band [OF q j(1)] by auto
    ultimately show ?thesis using band_pri_desc [OF q, of i j] j pe by (cases "j = i") auto
  qed
  show "\<forall>e' \<in># gq_contents q. class_pri (gq_map q) e' \<le> class_pri (gq_map q) e"
  proof
    fix e' assume e': "e' \<in># gq_contents q"
    have "class_pri (gq_map q) e' = class_pri (gq_map q) e" if "e' \<in># band_contents (gq_bands q ! i)"
      using band_entry [OF gq_band_nth [OF q i] that] pe by metis
    then show "class_pri (gq_map q) e' \<le> class_pri (gq_map q) e" using loc [OF e'] by linarith
  qed
  show "\<forall>e' \<in># gq_contents q. class_pri (gq_map q) e' = class_pri (gq_map q) e \<longrightarrow> e' \<in># band_contents (gq_bands q ! i)"
    using loc by (metis less_irrefl)
qed

lemma nonempty_band:
  assumes "gq_ok q" "gq_total q \<noteq> 0"
  obtains i where "i < length (gq_bands q)" "pb_total (gq_bands q ! i) \<noteq> 0"
proof -
  have "gq_contents q \<noteq> {#}" using assms by (auto simp: gq_ok_def)
  then obtain e where "e \<in># gq_contents q" by blast
  then obtain i where i: "i < length (gq_bands q)" "e \<in># band_contents (gq_bands q ! i)"
    by (metis in_gq_contents in_set_conv_nth)
  then have "pb_total (gq_bands q ! i) \<noteq> 0" using empty_band [OF assms(1) i(1)] by auto
  then show ?thesis using that i(1) by blast
qed

section \<open>The dequeue order\<close>

text \<open>
  The order a dequeue in band order follows: nothing of higher priority waits; within the
  priority the strict policy serves the earliest arrival, and under deadline ordering the
  earliest deadline of its tenant's flow goes first.
\<close>

definition band_order :: "gateway_queue \<Rightarrow> flow_entry \<Rightarrow> bool" where
  "band_order q e \<longleftrightarrow>
     (\<forall>e' \<in># gq_contents q. class_pri (gq_map q) e' \<le> class_pri (gq_map q) e) \<and>
     (\<forall>e' \<in># gq_contents q. class_pri (gq_map q) e' = class_pri (gq_map q) e \<longrightarrow>
        (if gq_slo_mode q
         then entry_tenant e' = entry_tenant e \<longrightarrow>
           slo_deadline q (fe_request e) < slo_deadline q (fe_request e') \<or>
           (slo_deadline q (fe_request e) = slo_deadline q (fe_request e') \<and> fe_seq e \<le> fe_seq e')
         else gq_fairness q = GlobalStrictPolicy \<or> entry_tenant e' = entry_tenant e \<longrightarrow> fe_seq e \<le> fe_seq e'))"

lemma dequeue_band_at_ok:
  assumes q: "gq_ok q" and i: "i < length (gq_bands q)" "pb_total (gq_bands q ! i) \<noteq> 0"
    and z: "\<forall>j < i. pb_total (gq_bands q ! j) = 0"
  obtains e q' where "(if gq_slo_mode q then dequeue_from_band_slo i q else dequeue_from_band i q) = (Some (fe_request e), q')"
    "takes q e q'" "band_order q e" "e \<in># band_contents (gq_bands q ! i)"
proof (cases "gq_slo_mode q")
  case True
  obtain e q' where d: "dequeue_from_band_slo i q = (Some (fe_request e), q')" "takes q e q'" "e \<in># band_contents (gq_bands q ! i)"
    "\<forall>e' \<in># band_contents (gq_bands q ! i). entry_tenant e' = entry_tenant e \<longrightarrow>
       slo_deadline q (fe_request e) < slo_deadline q (fe_request e') \<or>
       (slo_deadline q (fe_request e) = slo_deadline q (fe_request e') \<and> fe_seq e \<le> fe_seq e')"
    using dequeue_from_band_slo_ok [OF q i] .
  note F = first_band_top [OF q i(1) z d(3)]
  show ?thesis
    by (rule that [of e q']) (use d True F(2,3) in \<open>auto simp: band_order_def\<close>)
next
  case False
  obtain e q' where d: "dequeue_from_band i q = (Some (fe_request e), q')" "takes q e q'" "e \<in># band_contents (gq_bands q ! i)"
    "\<forall>e' \<in># band_contents (gq_bands q ! i). gq_fairness q = GlobalStrictPolicy \<or> entry_tenant e' = entry_tenant e \<longrightarrow> fe_seq e \<le> fe_seq e'"
    using dequeue_from_band_ok [OF q i] .
  note F = first_band_top [OF q i(1) z d(3)]
  show ?thesis
    by (rule that [of e q']) (use d False F(2,3) in \<open>auto simp: band_order_def\<close>)
qed

lemma dequeue_gated_ok:
  assumes q: "gq_ok q"
  shows "(\<exists>e q'. dequeue_gated s q = Inr (Some (fe_request e), q') \<and> takes q e q' \<and> band_order q e) \<or>
     (dequeue_gated s q = Inr (None, q) \<and>
      (gq_contents q = {#} \<or> (\<exists>i < length (gq_bands q). s \<ge> band_ceiling (gq_threshold q) (length (gq_bands q)) i \<and>
         (\<forall>j < i. pb_total (gq_bands q ! j) = 0))))"
proof (cases "gq_total q = 0")
  case True
  then show ?thesis using q by (auto simp: dequeue_gated_def gq_ok_def)
next
  case False
  obtain k where k: "k < length (gq_bands q)" "pb_total (gq_bands q ! k) \<noteq> 0" using nonempty_band [OF q False] .
  let ?g = "gated_band s (gq_threshold q) (length (gq_bands q)) 0 (gq_bands q)"
  show ?thesis
  proof (cases ?g)
    case None
    then have "dequeue_gated s q = Inr (None, q)" using False k(1) by (auto simp: dequeue_gated_def)
    moreover have "\<not> (\<forall>b \<in> set (gq_bands q). pb_total b = 0)" using k nth_mem by blast
    ultimately show ?thesis using gated_band_None [OF None, simplified] by blast
  next
    case (Some i)
    note G = gated_band_spec [OF Some, simplified]
    obtain e q' where d: "(if gq_slo_mode q then dequeue_from_band_slo i q else dequeue_from_band i q) = (Some (fe_request e), q')"
      "takes q e q'" "band_order q e" "e \<in># band_contents (gq_bands q ! i)"
      by (rule dequeue_band_at_ok [OF q, of i]) (use G in \<open>simp_all add: that\<close>)
    have "dequeue_gated s q = Inr (Some (fe_request e), q')"
      using False k(1) d(1) Some by (auto simp: dequeue_gated_def split: if_splits)
    then show ?thesis using d by blast
  qed
qed


text \<open>First-come-first-served over all bands.\<close>

definition heads :: "nat \<Rightarrow> priority_band \<Rightarrow> string list \<Rightarrow> (flow_entry \<times> nat \<times> string) list" where
  "heads bi b tids = map (\<lambda>tid. (hd (flow_requests b tid), bi, tid)) (filter (\<lambda>tid. flow_requests b tid \<noteq> []) tids)"

fun all_heads :: "nat \<Rightarrow> priority_band list \<Rightarrow> (flow_entry \<times> nat \<times> string) list" where
  "all_heads bi [] = []"
| "all_heads bi (b # bs) = (if pb_total b = 0 then [] else heads bi b (sorted_flow_keys (pb_flows b))) @ all_heads (bi + 1) bs"

lemma fifo_scan_flows_eq:
  "fifo_scan_flows bi b tids best = keep_best (\<lambda>x y. fe_seq (fst x) < fe_seq (fst y)) (heads bi b tids) best"
proof (induction tids arbitrary: best)
  case (Cons tid tids)
  show ?case
    by (cases "flow_requests b tid"; cases best) (auto simp: Cons.IH heads_def)
qed (simp add: heads_def)

lemma fifo_scan_bands_eq:
  "fifo_scan_bands bi bs best = keep_best (\<lambda>x y. fe_seq (fst x) < fe_seq (fst y)) (all_heads bi bs) best"
  by (induction bs arbitrary: bi best) (simp_all add: fifo_scan_flows_eq keep_best_append)

lemma all_heads_mem:
  "(h, bi', tid) \<in> set (all_heads bi bs) \<longleftrightarrow>
     bi \<le> bi' \<and> bi' < bi + length bs \<and> pb_total (bs ! (bi' - bi)) \<noteq> 0 \<and>
     (\<exists>f. map_of (pb_flows (bs ! (bi' - bi))) tid = Some f \<and> fq_requests f \<noteq> [] \<and> h = hd (fq_requests f))"
proof (induction bs arbitrary: bi bi')
  case (Cons b bs)
  have "(h, bi', tid) \<in> set (heads bi b (sorted_flow_keys (pb_flows b))) \<longleftrightarrow>
      bi' = bi \<and> (\<exists>f. map_of (pb_flows b) tid = Some f \<and> fq_requests f \<noteq> [] \<and> h = hd (fq_requests f))"
    by (auto simp: heads_def intro!: image_eqI [where x = tid])
  then show ?case
    by (cases "bi' = bi") (auto simp: Cons.IH nth_Cons' Suc_le_eq)
qed simp

lemma dequeue_fifo_ok:
  assumes q: "gq_ok q" and n: "gq_total q \<noteq> 0"
  obtains e q' where "dequeue_fifo q = (Some (fe_request e), q')" "takes q e q'" "\<forall>e' \<in># gq_contents q. fe_seq e \<le> fe_seq e'"
proof -
  let ?xs = "all_heads 0 (gq_bands q)"
  have mem: "\<exists>h bi tid. (h, bi, tid) \<in> set ?xs \<and> fe_seq h \<le> fe_seq e" if e: "e \<in># gq_contents q" for e
  proof -
    obtain i where i: "i < length (gq_bands q)" "e \<in># band_contents (gq_bands q ! i)"
      using e by (metis in_gq_contents in_set_conv_nth)
    have b: "band_ok (gq_map q) (gq_bands q ! i)" using q i(1) by (rule gq_band_nth)
    obtain f where f: "map_of (pb_flows (gq_bands q ! i)) (entry_tenant e) = Some f" "e \<in> set (fq_requests f)"
      using band_entry [OF b i(2)] .
    have "pb_total (gq_bands q ! i) \<noteq> 0" using empty_band [OF q i(1)] i(2) by auto
    then have "(hd (fq_requests f), i, entry_tenant e) \<in> set ?xs" using f i(1) by (auto simp: all_heads_mem)
    moreover have "fe_seq (hd (fq_requests f)) \<le> fe_seq e" by (rule flow_head_least [OF band_flow [OF b f(1)] f(2)])
    ultimately show ?thesis by metis
  qed
  have "gq_contents q \<noteq> {#}" using q n by (auto simp: gq_ok_def)
  then obtain e0 where "e0 \<in># gq_contents q" by blast
  then obtain x where x: "x \<in> set ?xs" using mem by blast
  obtain y where "keep_best (\<lambda>x y. fe_seq (fst x) < fe_seq (fst y)) ?xs None = Some y" using keep_best_Some [OF x] .
  moreover obtain h bi tid where y: "y = (h, bi, tid)" by (cases y)
  ultimately have k: "keep_best (\<lambda>x y. fe_seq (fst x) < fe_seq (fst y)) ?xs None = Some (h, bi, tid)" by simp
  note K = by_seq.keep_best_least [OF k]
  obtain f where f: "bi < length (gq_bands q)" "map_of (pb_flows (gq_bands q ! bi)) tid = Some f" "fq_requests f \<noteq> []"
      "h = fq_requests f ! 0"
    using K(1) by (auto simp: all_heads_mem hd_conv_nth)
  let ?q' = "gq_shrink bi tid (fe_request (fq_requests f ! 0)) (drop 1 (fq_requests f)) q"
  have "dequeue_fifo q = (Some (fe_request h), ?q')" using f k by (simp add: dequeue_fifo_def fifo_scan_bands_eq)
  moreover have "takes q h ?q'"
    unfolding f(4) by (rule shrink_takes_plain [OF q f(1,2)]) (use f(3) in simp_all)
  moreover have "fe_seq h \<le> fe_seq e'" if "e' \<in># gq_contents q" for e'
    using mem [OF that] K(2) by fastforce
  ultimately show ?thesis using that by blast
qed

text \<open>A dequeue always returns a request of a queue that has one, by the order of its mode.\<close>

lemma gq_dequeue_ok:
  assumes q: "gq_ok q" and n: "gq_total q \<noteq> 0"
  obtains e q' where "gq_dequeue q = Inr (Some (fe_request e), q')" "takes q e q'"
    "if gq_slo_mode q \<or> gq_priority_mode q then band_order q e else \<forall>e' \<in># gq_contents q. fe_seq e \<le> fe_seq e'"
proof (cases "gq_slo_mode q \<or> gq_priority_mode q")
  case True
  obtain k where k: "k < length (gq_bands q)" "pb_total (gq_bands q ! k) \<noteq> 0" using nonempty_band [OF q n] .
  then obtain i where f: "first_band 0 (gq_bands q) = Some i"
    using first_band_None [of 0 "gq_bands q"] nth_mem by blast
  note F = first_band_spec [OF f, simplified]
  obtain e q' where d: "(if gq_slo_mode q then dequeue_from_band_slo i q else dequeue_from_band i q) = (Some (fe_request e), q')"
    "takes q e q'" "band_order q e" "e \<in># band_contents (gq_bands q ! i)"
    by (rule dequeue_band_at_ok [OF q, of i]) (use F in \<open>simp_all add: that\<close>)
  have "gq_dequeue q = Inr (Some (fe_request e), q')"
    using n True d(1) f by (auto simp: gq_dequeue_def dequeue_slo_deadline_def dequeue_priority_def split: if_splits)
  then show ?thesis using that d True by simp
next
  case False
  obtain e q' where d: "dequeue_fifo q = (Some (fe_request e), q')" "takes q e q'" "\<forall>e' \<in># gq_contents q. fe_seq e \<le> fe_seq e'"
    using dequeue_fifo_ok [OF q n] .
  then show ?thesis using that [of e q'] n False by (simp add: gq_dequeue_def)
qed

section \<open>Removal by identifier\<close>

lemma find_band_spec:
  "find_band p k bs = Some i \<Longrightarrow> k \<le> i \<and> i < k + length bs \<and> pb_priority (bs ! (i - k)) = p"
proof (induction bs arbitrary: k)
  case (Cons b bs)
  show ?case
  proof (cases "pb_priority b = p")
    case False
    then have "k + 1 \<le> i \<and> i < k + 1 + length bs \<and> pb_priority (bs ! (i - (k + 1))) = p"
      using Cons.IH [of "k + 1"] Cons.prems by simp
    moreover then obtain d where "i = k + 1 + d" using le_Suc_ex by blast
    ultimately show ?thesis by simp
  qed (use Cons.prems in simp)
qed simp

lemma find_band_None: "find_band p k bs = None \<longleftrightarrow> (\<forall>b \<in> set bs. pb_priority b \<noteq> p)"
  by (induction bs arbitrary: k) auto

lemma find_entry_spec:
  "find_entry r k es = Some i \<Longrightarrow> k \<le> i \<and> i < k + length es \<and> eid (es ! (i - k)) = r"
proof (induction es arbitrary: k)
  case (Cons e es)
  show ?case
  proof (cases "eid e = r")
    case False
    then have "k + 1 \<le> i \<and> i < k + 1 + length es \<and> eid (es ! (i - (k + 1))) = r"
      using Cons.IH [of "k + 1"] Cons.prems by simp
    moreover then obtain d where "i = k + 1 + d" using le_Suc_ex by blast
    ultimately show ?thesis by simp
  qed (use Cons.prems in simp)
qed simp

lemma find_entry_None: "find_entry r k es = None \<longleftrightarrow> (\<forall>e \<in> set es. eid e \<noteq> r)"
  by (induction es arbitrary: k) auto

lemma remove_by_request_id_ok:
  assumes q: "gq_ok q"
  shows "(\<exists>e q'. e \<in># gq_contents q \<and> eid e = r \<and> remove_by_request_id r q = Inr (Some (fe_request e), q') \<and> takes q e q') \<or>
     ((\<forall>e \<in># gq_contents q. eid e \<noteq> r) \<and> remove_by_request_id r q = Inr (None, q))"
proof (cases "gq_index q r")
  case None
  then have "\<forall>e \<in># gq_contents q. eid e \<noteq> r" using q by (auto simp: gq_ok_def index_ok_def)
  then show ?thesis using None by (simp add: remove_by_request_id_def)
next
  case (Some loc)
  then obtain e where e: "e \<in># gq_contents q" "eid e = r" "loc = (class_pri (gq_map q) e, entry_tenant e)"
    using q unfolding gq_ok_def index_ok_def by (metis option.distinct(1) option.inject)
  obtain k where k: "k < length (gq_bands q)" "e \<in># band_contents (gq_bands q ! k)"
    using e(1) by (metis in_gq_contents in_set_conv_nth)
  have bk: "band_ok (gq_map q) (gq_bands q ! k)" using q k(1) by (rule gq_band_nth)
  obtain f where f: "map_of (pb_flows (gq_bands q ! k)) (entry_tenant e) = Some f" "e \<in> set (fq_requests f)"
      "class_pri (gq_map q) e = pb_priority (gq_bands q ! k)"
    using band_entry [OF bk k(2)] .
  obtain bi where bi: "find_band (class_pri (gq_map q) e) 0 (gq_bands q) = Some bi"
    using find_band_None [of "class_pri (gq_map q) e" 0 "gq_bands q"] f(3) k(1) nth_mem by (metis not_None_eq)
  have "bi = k"
    using find_band_spec [OF bi] f(3) k(1) band_pri_desc [OF q, of bi k] band_pri_desc [OF q, of k bi]
    by (metis add_0 diff_zero less_irrefl nat_neq_iff)
  obtain i where i: "find_entry r 0 (fq_requests f) = Some i"
    using find_entry_None [of r 0 "fq_requests f"] f(2) e(2) by (metis not_None_eq)
  note I = find_entry_spec [OF i, simplified]
  let ?e = "fq_requests f ! i"
  let ?q' = "gq_shrink k (entry_tenant e) (fe_request ?e) (remove_at i (fq_requests f)) q"
  have t: "takes q ?e ?q'"
    by (rule shrink_takes_plain [OF q k(1) f(1)]) (use I in \<open>simp_all add: remove_at_def\<close>)
  moreover have "remove_by_request_id r q = Inr (Some (fe_request ?e), ?q')"
    using Some e(3) bi \<open>bi = k\<close> f(1) i by (simp add: remove_by_request_id_def Let_def)
  ultimately show ?thesis using takes_in [OF t] I by blast
qed


section \<open>Enqueue\<close>

text \<open>How many entries a priority has, and that its band counts them.\<close>

definition class_count :: "gateway_queue \<Rightarrow> int \<Rightarrow> int" where
  "class_count q p = int (size (filter_mset (\<lambda>e. class_pri (gq_map q) e = p) (gq_contents q)))"

lemma band_filter:
  assumes "band_ok m b"
  shows "filter_mset (\<lambda>e. class_pri m e = p) (band_contents b) = (if pb_priority b = p then band_contents b else {#})"
proof -
  have "\<forall>e \<in># band_contents b. class_pri m e = pb_priority b" using band_entry [OF assms] by blast
  then have "filter_mset (\<lambda>e. class_pri m e = p) (band_contents b) = filter_mset (\<lambda>_. pb_priority b = p) (band_contents b)"
    by (intro filter_mset_cong) auto
  then show ?thesis by simp
qed

lemma bands_filter:
  assumes "sorted_wrt (\<lambda>a b. pb_priority a > pb_priority b) bs" "\<forall>b \<in> set bs. band_ok m b"
  shows "int (size (filter_mset (\<lambda>e. class_pri m e = p) (\<Sum>b\<leftarrow>bs. band_contents b))) = len_by_band p bs"
  using assms
proof (induction bs)
  case (Cons b bs)
  have "len_by_band p bs = 0" if "pb_priority b = p"
  proof -
    have "\<forall>c \<in> set bs. pb_priority c \<noteq> p" using Cons.prems(1) that by auto
    then show ?thesis by (induction bs) auto
  qed
  then show ?case using Cons band_filter [of m b p] by (auto simp: band_ok_def)
qed simp

lemma class_count_len_by_band: "gq_ok q \<Longrightarrow> len_by_band p (gq_bands q) = class_count q p"
  using bands_filter [of "gq_bands q" "gq_map q" p] by (simp add: gq_ok_def class_count_def gq_contents_def)

lemma len_by_band_nth:
  assumes "gq_ok q" "i < length (gq_bands q)"
  shows "pb_total (gq_bands q ! i) = class_count q (pb_priority (gq_bands q ! i))"
proof -
  have d: "sorted_wrt (\<lambda>a b. pb_priority a > pb_priority b) (gq_bands q)" using assms(1) by (simp add: gq_ok_def)
  have "len_by_band (pb_priority (bs ! i)) bs = pb_total (bs ! i)"
    if "sorted_wrt (\<lambda>a b. pb_priority a > pb_priority b) bs" "i < length bs" for bs
    using that
  proof (induction bs arbitrary: i)
    case (Cons b bs)
    show ?case
    proof (cases i)
      case (Suc j)
      then have "pb_priority (bs ! j) < pb_priority b" using Cons.prems by simp
      then have "pb_priority b \<noteq> pb_priority (bs ! j)" by simp
      then show ?thesis using Cons Suc by simp
    qed simp
  qed simp
  then show ?thesis using class_count_len_by_band [OF assms(1)] d assms(2) by metis
qed

text \<open>
  What an enqueue of a fresh, latest request does: it stores the request, below every capacity;
  or rejects it and keeps every entry; or, with shedding at the global limit, swaps it for the tail of a flow
  of the lowest sheddable priority.
\<close>

definition outranks :: "gateway_queue \<Rightarrow> request \<Rightarrow> int \<Rightarrow> flow_entry \<Rightarrow> bool" where
  "outranks q r seq v \<longleftrightarrow> class_pri (gq_map q) v < 0 \<and>
     (\<forall>e \<in># gq_contents q. class_pri (gq_map q) e < 0 \<longrightarrow> \<not> shed_better (gq_map q) e v) \<and>
     (class_pri (gq_map q) v < slo_priority (gq_map q) (rq_slo_class r) \<or>
      (class_pri (gq_map q) v = slo_priority (gq_map q) (rq_slo_class r) \<and> seq < fe_seq v))"

lemma remove_tail_ok:
  assumes q: "gq_ok q" and v: "find_shed_victim p seq q = Some (e, bi, tid, i)"
  obtains q' where "remove_entry_by_index bi tid i q = Inr q'" "takes q e q'"
    "length (gq_bands q') = length (gq_bands q)" "\<forall>k < length (gq_bands q). pb_priority (gq_bands q' ! k) = pb_priority (gq_bands q ! k)"
proof -
  obtain f where f: "bi < length (gq_bands q)" "map_of (pb_flows (gq_bands q ! bi)) tid = Some f"
    "i = length (fq_requests f) - 1" "e = last (fq_requests f)" "fq_requests f \<noteq> []"
    using find_shed_victim_Some [OF q v] by metis
  have e: "fq_requests f ! i = e" using f by (simp add: last_conv_nth)
  let ?q' = "gq_shrink bi tid (fe_request e) (take (length (fq_requests f) - 1) (fq_requests f)) q"
  have "remove_entry_by_index bi tid i q = Inr ?q'"
    using f e by (auto simp: remove_entry_by_index_def Let_def of_nat_diff Suc_leI)
  moreover have "takes q e ?q'"
    using shrink_takes_plain [OF q f(1,2), of i "take (length (fq_requests f) - 1) (fq_requests f)"] f(3,5) e by simp
  moreover have "length (gq_bands ?q') = length (gq_bands q)"
    "\<forall>k < length (gq_bands q). pb_priority (gq_bands ?q' ! k) = pb_priority (gq_bands q ! k)"
    using f(1) by (auto simp: gq_shrink_def Let_def nth_list_update)
  ultimately show ?thesis using that by blast
qed

definition enqueue_result :: "request \<Rightarrow> int \<Rightarrow> gateway_queue \<Rightarrow> (enqueue_outcome \<times> request option) \<Rightarrow> gateway_queue \<Rightarrow> bool" where
  "enqueue_result r seq q res q' \<longleftrightarrow> gq_ok q' \<and> same_config q q' \<and>
     (fst res \<noteq> Rejected \<longrightarrow> gq_band_capacity q > 0 \<longrightarrow>
        class_count q (slo_priority (gq_map q) (rq_slo_class r)) < gq_band_capacity q) \<and>
     (let e = \<lparr>fe_request = r, fe_seq = seq\<rparr> in
      (res = (Enqueued, None) \<and> gq_contents q' = add_mset e (gq_contents q) \<and>
         gq_shed q' = gq_shed q \<and> gq_rejected q' = gq_rejected q \<and>
         (gq_max_depth q > 0 \<longrightarrow> gq_total q < gq_max_depth q)) \<or>
      (res = (Rejected, None) \<and> gq_contents q' = gq_contents q \<and>
         gq_shed q' = gq_shed q \<and> gq_rejected q' = gq_rejected q + 1) \<or>
      (\<exists>v. res = (ShedVictim, Some (fe_request v)) \<and> gq_shedding q \<and> outranks q r seq v \<and>
         add_mset v (gq_contents q') = add_mset e (gq_contents q) \<and> v \<in># gq_contents q \<and>
         gq_shed q' = gq_shed q + 1 \<and> gq_rejected q' = gq_rejected q))"

lemma append_to_flow_fields [simp]:
  "same_config q (append_to_flow bi tid p e q)" "gq_shed (append_to_flow bi tid p e q) = gq_shed q"
  "gq_rejected (append_to_flow bi tid p e q) = gq_rejected q"
  by (simp_all add: append_to_flow_def same_config_def Let_def)

lemma same_config_trans: "same_config a b \<Longrightarrow> same_config b c \<Longrightarrow> same_config a c"
  by (simp add: same_config_def)

lemma gq_ok_counters [simp]:
  "gq_ok (q\<lparr>gq_shed := n\<rparr>) = gq_ok q" "gq_contents (q\<lparr>gq_shed := n\<rparr>) = gq_contents q"
  "gq_ok (q\<lparr>gq_rejected := n\<rparr>) = gq_ok q" "gq_contents (q\<lparr>gq_rejected := n\<rparr>) = gq_contents q"
  by (simp_all add: gq_ok_def index_ok_def gq_contents_def)

lemma gq_enqueue_ok:
  assumes q: "gq_ok q" and late: "\<forall>e \<in># gq_contents q. fe_seq e < seq" and new: "\<forall>e \<in># gq_contents q. eid e \<noteq> rq_id r"
  obtains res q' where "gq_enqueue r seq q = Inr (res, q')" "enqueue_result r seq q res q'"
proof -
  let ?p = "slo_priority (gq_map q) (rq_slo_class r)" and ?tid = "tenant_name r" and ?e = "\<lparr>fe_request = r, fe_seq = seq\<rparr>"
  obtain bi q1 where fc: "find_or_create_band ?p q = (bi, q1)" by fastforce
  obtain bs where B: "q1 = q\<lparr>gq_bands := bs\<rparr>" "gq_ok q1" "gq_contents q1 = gq_contents q" "bi < length bs" "pb_priority (bs ! bi) = ?p"
    using find_or_create_band_ok [OF q fc] by metis
  have c1: "same_config q q1" "gq_shed q1 = gq_shed q" "gq_rejected q1 = gq_rejected q" "gq_total q1 = gq_total q"
    using B(1) by (simp_all add: same_config_def)
  have cap: "pb_total (gq_bands q1 ! bi) = class_count q ?p"
    using len_by_band_nth [OF B(2), of bi] B by (simp add: class_count_def)
  have put: "gq_ok (append_to_flow bi ?tid ?p ?e q2) \<and> gq_contents (append_to_flow bi ?tid ?p ?e q2) = add_mset ?e (gq_contents q2)"
    if "gq_ok q2" "bi < length (gq_bands q2)" "pb_priority (gq_bands q2 ! bi) = ?p" "gq_map q2 = gq_map q"
      "\<forall>x \<in># gq_contents q2. x \<in># gq_contents q" for q2
    using append_to_flow_ok [OF that(1-3), of ?e ?tid] that late new by simp
  consider (band) "gq_band_capacity q1 > 0 \<and> pb_total (gq_bands q1 ! bi) \<ge> gq_band_capacity q1"
    | (free) "\<not> (gq_band_capacity q1 > 0 \<and> pb_total (gq_bands q1 ! bi) \<ge> gq_band_capacity q1)"
        "\<not> (gq_max_depth q1 > 0 \<and> gq_total q1 \<ge> gq_max_depth q1)"
    | (full) "\<not> (gq_band_capacity q1 > 0 \<and> pb_total (gq_bands q1 ! bi) \<ge> gq_band_capacity q1)"
        "gq_max_depth q1 > 0 \<and> gq_total q1 \<ge> gq_max_depth q1" by blast
  then show ?thesis
  proof cases
    case band
    show ?thesis
      by (rule that [of "(Rejected, None)" "q1\<lparr>gq_rejected := gq_rejected q1 + 1\<rparr>"])
        (use band fc B c1 in \<open>simp_all add: gq_enqueue_def enqueue_result_def same_config_def Let_def\<close>)
  next
    case free
    have "gq_ok (append_to_flow bi ?tid ?p ?e q1) \<and> gq_contents (append_to_flow bi ?tid ?p ?e q1) = add_mset ?e (gq_contents q1)"
      by (rule put) (use B in simp_all)
    moreover have "gq_enqueue r seq q = Inr ((Enqueued, None), append_to_flow bi ?tid ?p ?e q1)"
      using free fc by (auto simp: gq_enqueue_def Let_def)
    moreover have "same_config q (append_to_flow bi ?tid ?p ?e q1)" using c1(1) append_to_flow_fields(1) by (rule same_config_trans)
    ultimately show ?thesis using that [of "(Enqueued, None)"] c1 free B(1,3) cap by (simp add: enqueue_result_def Let_def not_le)
  next
    case full
    show ?thesis
    proof (cases "\<not> gq_shedding q1 \<or> find_shed_victim ?p seq q1 = None")
      case True
      then have "gq_enqueue r seq q = Inr ((Rejected, None), q1\<lparr>gq_rejected := gq_rejected q1 + 1\<rparr>)"
        using full fc by (auto simp: gq_enqueue_def Let_def)
      then show ?thesis using that B c1 by (simp add: enqueue_result_def same_config_def Let_def)
    next
      case False
      then obtain v vbi vtid vi where v: "find_shed_victim ?p seq q1 = Some (v, vbi, vtid, vi)" and sh: "gq_shedding q1"
        by (metis not_None_eq prod_cases4)
      obtain q2 where q2: "remove_entry_by_index vbi vtid vi q1 = Inr q2" "takes q1 v q2"
        "length (gq_bands q2) = length (gq_bands q1)" "\<forall>k < length (gq_bands q1). pb_priority (gq_bands q2 ! k) = pb_priority (gq_bands q1 ! k)"
        using remove_tail_ok [OF B(2) v] .
      let ?q2 = "q2\<lparr>gq_shed := gq_shed q2 + 1\<rparr>"
      let ?q3 = "append_to_flow bi ?tid ?p ?e ?q2"
      have m: "gq_map q2 = gq_map q" using q2(2) c1(1) by (simp add: takes_def same_config_def)
      have c2: "gq_contents q = add_mset v (gq_contents q2)" using q2(2) B(3) by (simp add: takes_def)
      have P: "gq_ok ?q3 \<and> gq_contents ?q3 = add_mset ?e (gq_contents ?q2)"
        by (rule put) (use B q2 m c2 in \<open>auto simp: takes_def\<close>)
      have r: "gq_enqueue r seq q = Inr ((ShedVictim, Some (fe_request v)), ?q3)"
        using full fc v sh q2(1) by (auto simp: gq_enqueue_def Let_def)
      have "outranks q r seq v"
        by (rule find_shed_victim_Some [OF B(2) v]) (use B(1,3) in \<open>auto simp: outranks_def\<close>)
      moreover have "same_config q ?q3"
      proof (rule same_config_trans [OF c1(1) same_config_trans])
        show "same_config q1 ?q2" using q2(2) by (simp add: takes_def same_config_def)
      qed (rule append_to_flow_fields(1))
      moreover have "gq_shed ?q3 = gq_shed q + 1" "gq_rejected ?q3 = gq_rejected q" "gq_shedding q"
        using q2(2) c1 sh by (simp_all add: takes_def same_config_def)
      ultimately have "enqueue_result r seq q (ShedVictim, Some (fe_request v)) ?q3"
        using P c2 full(1) cap B(1) unfolding enqueue_result_def Let_def by (auto simp: add_mset_commute)
      then show ?thesis using that r by blast
    qed
  qed
qed

end
