(* ===== verification/Flow_Control.thy ===== *)
theory Flow_Control
  imports Gateway_Ops
begin

text \<open>
  Flow-control admission (\<open>sim/cluster/flow_control_admission.go\<close>) over the gateway queue, every
  state it can reach by admissions, dispatches and expiries, and the promises the gateway
  documentation makes of it: INV-16, INV-17, the capacities, the dispatch order.
\<close>

section \<open>Admission\<close>

record flow_control =
  fc_queue :: gateway_queue
  fc_seq :: int
  fc_outcome :: enqueue_outcome
  fc_victim :: "request option"

definition new_flow_control :: "gateway_queue option \<Rightarrow> flow_control outcome" where
  "new_flow_control q = (case q of None \<Rightarrow> Inl (Panic ''FlowControlAdmission: queue must not be nil'')
     | Some q \<Rightarrow> Inr \<lparr>fc_queue = q, fc_seq = 0, fc_outcome = Enqueued, fc_victim = None\<rparr>)"

text \<open>
  \<open>Admit\<close> stamps the request, queues it under the next sequence number and records the
  outcome; it clears the stamp of a rejected request and of a shed victim. The result is the
  verdict, its reason and the request as the caller finds it.
\<close>

definition fc_admit :: "request \<Rightarrow> tick \<Rightarrow> flow_control \<Rightarrow> ((bool \<times> string \<times> request) \<times> flow_control) outcome" where
  "fc_admit r clock fc =
     (let r1 = r\<lparr>rq_gw_enqueue := clock\<rparr>; seq = fc_seq fc + 1 in
      obind (gq_enqueue r1 seq (fc_queue fc)) (\<lambda>((res, victim), q).
        let fc1 = \<lparr>fc_queue = q, fc_seq = seq, fc_outcome = res, fc_victim = None\<rparr> in
        case res of
          Rejected \<Rightarrow> Inr ((True, ''flow-control-queue-rejected'', r1\<lparr>rq_gw_enqueue := 0\<rparr>), fc1)
        | ShedVictim \<Rightarrow> (case victim of
              None \<Rightarrow> Inl (Panic ''FlowControlAdmission: ShedVictim outcome but Enqueue returned nil victim'')
            | Some v \<Rightarrow> Inr ((True, ''flow-control-enqueued'', r1), fc1\<lparr>fc_victim := Some (v\<lparr>rq_gw_enqueue := 0\<rparr>)\<rparr>))
        | Enqueued \<Rightarrow> Inr ((True, ''flow-control-enqueued'', r1), fc1)))"

section \<open>Reachable states\<close>

text \<open>A queue as the deployment configures it, before the first request.\<close>

inductive configured :: "gateway_queue \<Rightarrow> bool" where
  conf_new: "new_gateway_queue order d m = Inr q \<Longrightarrow> configured q"
| conf_targets: "configured q \<Longrightarrow> configured (set_slo_targets ts q)"
| conf_fairness: "configured q \<Longrightarrow> set_fairness fp q = Inr q' \<Longrightarrow> configured q'"
| conf_capacity: "configured q \<Longrightarrow> set_band_capacity n q = Inr q' \<Longrightarrow> configured q'"
| conf_shedding: "configured q \<Longrightarrow> configured (set_shedding b q)"
| conf_threshold: "configured q \<Longrightarrow> set_threshold t q = Inr q' \<Longrightarrow> configured q'"

text \<open>
  What the cluster does to it: admit a request whose identifier is not queued, dispatch
  through either dequeue, remove an expired request. The counters say how many requests were
  admitted, dispatched and expired.
\<close>

inductive fc_reach :: "gateway_queue \<Rightarrow> int \<Rightarrow> int \<Rightarrow> int \<Rightarrow> flow_control \<Rightarrow> bool" where
  fc_init: "configured q0 \<Longrightarrow> new_flow_control (Some q0) = Inr fc \<Longrightarrow> fc_reach q0 0 0 0 fc"
| fc_arrive: "fc_reach q0 a d x fc \<Longrightarrow> gq_index (fc_queue fc) (rq_id r) = None \<Longrightarrow>
    fc_admit r clock fc = Inr (res, fc') \<Longrightarrow> fc_reach q0 (a + 1) d x fc'"
| fc_dispatch: "fc_reach q0 a d x fc \<Longrightarrow> dequeue_gated s (fc_queue fc) = Inr (r, q') \<Longrightarrow>
    fc_reach q0 a (if r = None then d else d + 1) x (fc\<lparr>fc_queue := q'\<rparr>)"
| fc_dequeue: "fc_reach q0 a d x fc \<Longrightarrow> gq_dequeue (fc_queue fc) = Inr (r, q') \<Longrightarrow>
    fc_reach q0 a (if r = None then d else d + 1) x (fc\<lparr>fc_queue := q'\<rparr>)"
| fc_expire: "fc_reach q0 a d x fc \<Longrightarrow> remove_by_request_id i (fc_queue fc) = Inr (r, q') \<Longrightarrow>
    fc_reach q0 a d (if r = None then x else x + 1) (fc\<lparr>fc_queue := q'\<rparr>)"

lemma configured_empty:
  "configured q \<Longrightarrow> gq_bands q = [] \<and> gq_total q = 0 \<and> gq_index q = (\<lambda>_. None) \<and> gq_shed q = 0 \<and> gq_rejected q = 0 \<and>
     0 \<le> gq_max_depth q \<and> 0 \<le> gq_band_capacity q \<and> 0 < gq_threshold q \<and> gq_threshold q \<le> 1"
  by (induction rule: configured.induct)
     (auto simp: new_gateway_queue_def set_slo_targets_def set_fairness_def set_band_capacity_def set_shedding_def
       set_threshold_def Let_def split: if_splits option.splits)

lemma configured_ok: "configured q \<Longrightarrow> gq_ok q \<and> gq_contents q = {#}"
  using configured_empty by (simp add: gq_ok_def index_ok_def gq_contents_def)

text \<open>
  The invariant of a run: a well-formed queue, sequence numbers below the counter, every
  admitted request accounted for, the capacities kept.
\<close>

definition fc_inv :: "gateway_queue \<Rightarrow> int \<Rightarrow> int \<Rightarrow> int \<Rightarrow> flow_control \<Rightarrow> bool" where
  "fc_inv q0 a d x fc \<longleftrightarrow> gq_ok (fc_queue fc) \<and> same_config q0 (fc_queue fc) \<and>
     (\<forall>e \<in># gq_contents (fc_queue fc). fe_seq e \<le> fc_seq fc) \<and>
     a = gq_total (fc_queue fc) + d + x + gq_shed (fc_queue fc) + gq_rejected (fc_queue fc) \<and>
     (gq_max_depth q0 > 0 \<longrightarrow> gq_total (fc_queue fc) \<le> gq_max_depth q0) \<and>
     (gq_band_capacity q0 > 0 \<longrightarrow> (\<forall>p. class_count (fc_queue fc) p \<le> gq_band_capacity q0))"

lemma fc_new_entry:
  assumes "gq_ok q" "gq_index q r = None"
  shows "\<forall>e \<in># gq_contents q. eid e \<noteq> r"
  using assms by (auto simp: gq_ok_def index_ok_def)

text \<open>Admission never panics, and its effect is that of the enqueue.\<close>

lemma fc_admit_ok:
  assumes inv: "fc_inv q0 a d x fc" and new: "gq_index (fc_queue fc) (rq_id r) = None"
  obtains res q' out fc' where "fc_admit r clock fc = Inr (out, fc')" "fc_queue fc' = q'" "fc_seq fc' = fc_seq fc + 1"
    "enqueue_result (r\<lparr>rq_gw_enqueue := clock\<rparr>) (fc_seq fc + 1) (fc_queue fc) res q'" "fc_outcome fc' = fst res"
    "fst out"
proof -
  let ?r = "r\<lparr>rq_gw_enqueue := clock\<rparr>"
  have q: "gq_ok (fc_queue fc)" using inv by (simp add: fc_inv_def)
  have "\<forall>e \<in># gq_contents (fc_queue fc). fe_seq e < fc_seq fc + 1" using inv by (auto simp: fc_inv_def)
  moreover have "\<forall>e \<in># gq_contents (fc_queue fc). eid e \<noteq> rq_id ?r" using fc_new_entry [OF q new] by simp
  ultimately obtain res q' where e: "gq_enqueue ?r (fc_seq fc + 1) (fc_queue fc) = Inr (res, q')"
      "enqueue_result ?r (fc_seq fc + 1) (fc_queue fc) res q'"
    using gq_enqueue_ok [OF q] by blast
  obtain oc v where res: "res = (oc, v)" by (cases res)
  have "\<exists>out fc'. fc_admit r clock fc = Inr (out, fc') \<and> fc_queue fc' = q' \<and> fc_seq fc' = fc_seq fc + 1 \<and> fc_outcome fc' = oc \<and> fst out"
    using e by (auto simp: fc_admit_def res enqueue_result_def Let_def)
  then show ?thesis using that e(2) res by auto
qed

lemma class_count_add:
  assumes "gq_contents q' = add_mset e (gq_contents q)" "gq_map q' = gq_map q"
  shows "class_count q' p = class_count q p + (if class_pri (gq_map q) e = p then 1 else 0)"
  using assms by (simp add: class_count_def)

lemma takes_total: "gq_ok q \<Longrightarrow> takes q e q' \<Longrightarrow> gq_total q' = gq_total q - 1"
  by (simp add: takes_def gq_ok_def)

lemma takes_class_count:
  assumes "takes q e q'"
  shows "class_count q' p \<le> class_count q p"
proof -
  have "gq_contents q = add_mset e (gq_contents q')" "gq_map q = gq_map q'" using assms by (simp_all add: takes_def same_config_def)
  then show ?thesis by (simp add: class_count_def)
qed

lemma fc_inv_takes:
  assumes inv: "fc_inv q0 a d x fc" and t: "takes (fc_queue fc) e q'"
  shows "fc_inv q0 a (d + 1) x (fc\<lparr>fc_queue := q'\<rparr>)" "fc_inv q0 a d (x + 1) (fc\<lparr>fc_queue := q'\<rparr>)"
proof -
  have n: "gq_total q' = gq_total (fc_queue fc) - 1" using takes_total t inv by (simp add: fc_inv_def)
  have m: "\<forall>e' \<in># gq_contents q'. e' \<in># gq_contents (fc_queue fc)" using t by (simp add: takes_def)
  have c: "\<forall>p. class_count q' p \<le> class_count (fc_queue fc) p" using takes_class_count [OF t] by blast
  have s: "same_config q0 q'" using inv t same_config_trans by (auto simp: fc_inv_def takes_def)
  show "fc_inv q0 a (d + 1) x (fc\<lparr>fc_queue := q'\<rparr>)" "fc_inv q0 a d (x + 1) (fc\<lparr>fc_queue := q'\<rparr>)"
    using inv t n m s c order_trans unfolding fc_inv_def takes_def by fastforce+
qed

lemma fc_inv_enqueue:
  assumes inv: "fc_inv q0 a d x fc" and e: "enqueue_result r (fc_seq fc + 1) (fc_queue fc) res (fc_queue fc')" and s: "fc_seq fc' = fc_seq fc + 1"
  shows "fc_inv q0 (a + 1) d x fc'"
proof -
  let ?q = "fc_queue fc" and ?q' = "fc_queue fc'" and ?e = "\<lparr>fe_request = r, fe_seq = fc_seq fc + 1\<rparr>"
  have ok: "gq_ok ?q" "gq_ok ?q'" and sc: "same_config ?q ?q'" "same_config q0 ?q"
    using inv e by (simp_all add: fc_inv_def enqueue_result_def)
  have m: "gq_map ?q' = gq_map ?q" "gq_band_capacity ?q = gq_band_capacity q0" "gq_max_depth ?q = gq_max_depth q0"
    using sc by (simp_all add: same_config_def)
  have t: "gq_total ?q = int (size (gq_contents ?q))" "gq_total ?q' = int (size (gq_contents ?q'))" using ok by (simp_all add: gq_ok_def)
  have seqs: "\<forall>e' \<in># gq_contents ?q. fe_seq e' \<le> fc_seq fc + 1" using inv by (auto simp: fc_inv_def)
  have cap: "gq_band_capacity q0 > 0 \<longrightarrow> fst res \<noteq> Rejected \<longrightarrow> class_count ?q (class_pri (gq_map ?q) ?e) < gq_band_capacity q0"
    using e m by (auto simp: enqueue_result_def)
  have old: "gq_band_capacity q0 > 0 \<longrightarrow> (\<forall>p. class_count ?q p \<le> gq_band_capacity q0)" using inv by (simp add: fc_inv_def)
  have counts: "a = gq_total ?q + d + x + gq_shed ?q + gq_rejected ?q" "gq_max_depth q0 > 0 \<longrightarrow> gq_total ?q \<le> gq_max_depth q0"
    using inv by (simp_all add: fc_inv_def)
  consider (enq) "res = (Enqueued, None)" "gq_contents ?q' = add_mset ?e (gq_contents ?q)" "gq_shed ?q' = gq_shed ?q"
      "gq_rejected ?q' = gq_rejected ?q" "gq_max_depth ?q > 0 \<longrightarrow> gq_total ?q < gq_max_depth ?q"
    | (rej) "res = (Rejected, None)" "gq_contents ?q' = gq_contents ?q" "gq_shed ?q' = gq_shed ?q" "gq_rejected ?q' = gq_rejected ?q + 1"
    | (shed) v where "res = (ShedVictim, Some (fe_request v))" "add_mset v (gq_contents ?q') = add_mset ?e (gq_contents ?q)"
      "v \<in># gq_contents ?q" "gq_shed ?q' = gq_shed ?q + 1" "gq_rejected ?q' = gq_rejected ?q"
    using e unfolding enqueue_result_def Let_def by blast
  then have "(\<forall>e' \<in># gq_contents ?q'. fe_seq e' \<le> fc_seq fc + 1) \<and>
     a + 1 = gq_total ?q' + d + x + gq_shed ?q' + gq_rejected ?q' \<and> (gq_max_depth q0 > 0 \<longrightarrow> gq_total ?q' \<le> gq_max_depth q0) \<and>
     (gq_band_capacity q0 > 0 \<longrightarrow> (\<forall>p. class_count ?q' p \<le> gq_band_capacity q0))"
  proof cases
    case enq
    have "class_count ?q' p = class_count ?q p + (if class_pri (gq_map ?q) ?e = p then 1 else 0)" for p
      by (rule class_count_add [OF enq(2) m(1)])
    then show ?thesis using enq t m counts seqs cap old by auto
  next
    case rej
    then have "class_count ?q' p = class_count ?q p" for p using m by (simp add: class_count_def)
    then show ?thesis using rej t counts seqs old by auto
  next
    case (shed v)
    obtain M where M: "gq_contents ?q = add_mset v M" using shed(3) by (meson multi_member_split)
    then have M': "gq_contents ?q' = add_mset ?e M" using shed(2) by (simp add: add_mset_commute)
    have "class_count ?q' p \<le> class_count ?q p + (if class_pri (gq_map ?q) ?e = p then 1 else 0)" for p
      using M M' m by (simp add: class_count_def)
    note le = this
    have "class_count ?q' p \<le> gq_band_capacity q0" if "gq_band_capacity q0 > 0" for p
    proof -
      have "class_count ?q p \<le> gq_band_capacity q0" using old that by blast
      then show ?thesis using le [of p] cap shed(1) that by (auto split: if_splits)
    qed
    then have "gq_band_capacity q0 > 0 \<longrightarrow> (\<forall>p. class_count ?q' p \<le> gq_band_capacity q0)" by blast
    moreover have "gq_total ?q' = gq_total ?q" using M M' t by simp
    ultimately show ?thesis using shed M M' counts seqs by auto
  qed
  then show ?thesis using ok sc s same_config_trans [OF sc(2,1)] by (simp add: fc_inv_def)
qed

lemma fc_reach_inv: "fc_reach q0 a d x fc \<Longrightarrow> fc_inv q0 a d x fc"
proof (induction rule: fc_reach.induct)
  case (fc_init q0 fc)
  then have "fc_queue fc = q0" "gq_ok q0" "gq_contents q0 = {#}" "fc_seq fc = 0"
    using configured_ok by (auto simp: new_flow_control_def)
  then show ?case using configured_empty [OF fc_init(1)] by (simp add: fc_inv_def class_count_def)
next
  case (fc_arrive q0 a d x fc r clock res fc')
  then show ?case using fc_admit_ok [OF fc_arrive.IH fc_arrive(2), of clock] fc_inv_enqueue [OF fc_arrive.IH]
    by (metis Inr_inject prod.inject)
next
  case (fc_dispatch q0 a d x fc s r q')
  have q: "gq_ok (fc_queue fc)" using fc_dispatch.IH by (simp add: fc_inv_def)
  show ?case using dequeue_gated_ok [OF q, of s] fc_dispatch fc_inv_takes(1) [OF fc_dispatch.IH] by auto
next
  case (fc_dequeue q0 a d x fc r q')
  have q: "gq_ok (fc_queue fc)" using fc_dequeue.IH by (simp add: fc_inv_def)
  show ?case
  proof (cases "gq_total (fc_queue fc) = 0")
    case True
    then show ?thesis using fc_dequeue by (auto simp: gq_dequeue_def)
  next
    case False
    then obtain e q1 where "gq_dequeue (fc_queue fc) = Inr (Some (fe_request e), q1)" "takes (fc_queue fc) e q1"
      using gq_dequeue_ok [OF q] by metis
    then show ?thesis using fc_dequeue fc_inv_takes(1) [OF fc_dequeue.IH] by auto
  qed
next
  case (fc_expire q0 a d x fc i r q')
  have q: "gq_ok (fc_queue fc)" using fc_expire.IH by (simp add: fc_inv_def)
  show ?case using remove_by_request_id_ok [OF q, of i] fc_expire fc_inv_takes(2) [OF fc_expire.IH] by auto
qed


section \<open>The promises\<close>

text \<open>C21 INV-16: in every state the gateway reaches, both counters equal what the flows hold
  (the total, and each band's), the capacities are kept, and every admitted request is
  queued, dispatched, expired, shed or rejected, exactly one of these.\<close>

theorem gateway_accounting:
  assumes "fc_reach q0 a d x fc"
  shows "(gq_len (fc_queue fc) = int (size (gq_contents (fc_queue fc)))) \<and>
    (len_by_band p (gq_bands (fc_queue fc)) = class_count (fc_queue fc) p) \<and>
    (a = gq_len (fc_queue fc) + d + x + gq_shed (fc_queue fc) + gq_rejected (fc_queue fc)) \<and>
    (gq_max_depth q0 > 0 \<longrightarrow> gq_len (fc_queue fc) \<le> gq_max_depth q0) \<and>
    (gq_band_capacity q0 > 0 \<longrightarrow> len_by_band p (gq_bands (fc_queue fc)) \<le> gq_band_capacity q0)"
  using fc_reach_inv [OF assms] class_count_len_by_band
  by (intro conjI) (auto simp: fc_inv_def gq_len_def gq_ok_def)

text \<open>C22 Error behaviour: no admission, dequeue or removal of a reachable gateway takes any of
  the panics its code guards with (INV-16 counter desync, INV-17 victim not the tail, index
  without band, flow or entry).\<close>

theorem gateway_never_panics:
  assumes "fc_reach q0 a d x fc"
  shows "(gq_index (fc_queue fc) (rq_id r) = None \<longrightarrow> (\<exists>v. fc_admit r clock fc = Inr v)) \<and>
    (\<exists>v. dequeue_gated s (fc_queue fc) = Inr v) \<and>
    (\<exists>v. gq_dequeue (fc_queue fc) = Inr v) \<and>
    (\<exists>v. remove_by_request_id i (fc_queue fc) = Inr v)"
proof (intro conjI)
  have inv: "fc_inv q0 a d x fc" by (rule fc_reach_inv [OF assms])
  then have q: "gq_ok (fc_queue fc)" by (simp add: fc_inv_def)
  show "gq_index (fc_queue fc) (rq_id r) = None \<longrightarrow> (\<exists>v. fc_admit r clock fc = Inr v)"
    using fc_admit_ok [OF inv] by metis
  show "\<exists>v. dequeue_gated s (fc_queue fc) = Inr v" using dequeue_gated_ok [OF q] by blast
  show "\<exists>v. gq_dequeue (fc_queue fc) = Inr v"
  proof (cases "gq_total (fc_queue fc) = 0")
    case True
    then show ?thesis by (simp add: gq_dequeue_def)
  next
    case False
    then show ?thesis by (rule gq_dequeue_ok [OF q]) blast
  qed
  show "\<exists>v. remove_by_request_id i (fc_queue fc) = Inr v" using remove_by_request_id_ok [OF q] by blast
qed

text \<open>C23 An admission either queues the request below every capacity, or rejects it and keeps
  all entries, or, with shedding on, exchanges it for the latest entry of the lowest
  sheddable priority, which the newcomer outranks.\<close>

theorem admission_outcome:
  assumes "fc_reach q0 a d x fc" "gq_index (fc_queue fc) (rq_id r) = None"
  shows "\<exists>res out fc'. fc_admit r clock fc = Inr (out, fc') \<and> fc_outcome fc' = fst res \<and> fst out \<and>
    enqueue_result (r\<lparr>rq_gw_enqueue := clock\<rparr>) (fc_seq fc + 1) (fc_queue fc) res (fc_queue fc')"
proof -
  have inv: "fc_inv q0 a d x fc" by (rule fc_reach_inv [OF assms(1)])
  obtain res q' out fc' where "fc_admit r clock fc = Inr (out, fc')" "fc_queue fc' = q'"
    "enqueue_result (r\<lparr>rq_gw_enqueue := clock\<rparr>) (fc_seq fc + 1) (fc_queue fc) res q'" "fc_outcome fc' = fst res" "fst out"
    by (rule fc_admit_ok [OF inv assms(2), where clock = clock])
  then show ?thesis by blast
qed

text \<open>C24 A gated dispatch serves the highest waiting priority, in its band's order, and nothing
  else changes; it serves nobody only when nobody waits, or when the saturation has reached
  the ceiling of a band at or above the first that is not empty.\<close>

theorem gated_dispatch_order:
  assumes "fc_reach q0 a d x fc"
  shows "(\<exists>e q'. dequeue_gated s (fc_queue fc) = Inr (Some (fe_request e), q') \<and> takes (fc_queue fc) e q' \<and> band_order (fc_queue fc) e) \<or>
     (dequeue_gated s (fc_queue fc) = Inr (None, fc_queue fc) \<and>
      (gq_contents (fc_queue fc) = {#} \<or>
       (\<exists>i < length (gq_bands (fc_queue fc)).
          s \<ge> band_ceiling (gq_threshold (fc_queue fc)) (length (gq_bands (fc_queue fc))) i \<and>
          (\<forall>j < i. pb_total (gq_bands (fc_queue fc) ! j) = 0))))"
  using dequeue_gated_ok [of "fc_queue fc" s] fc_reach_inv [OF assms] unfolding fc_inv_def by blast

text \<open>Removing a request by identifier takes out that request wherever it is queued, and
  returns nothing exactly when it is not.\<close>

theorem removal_by_id:
  assumes "fc_reach q0 a d x fc"
  shows "(\<exists>e q'. e \<in># gq_contents (fc_queue fc) \<and> rq_id (fe_request e) = i \<and>
       remove_by_request_id i (fc_queue fc) = Inr (Some (fe_request e), q') \<and> takes (fc_queue fc) e q') \<or>
     ((\<forall>e \<in># gq_contents (fc_queue fc). rq_id (fe_request e) \<noteq> i) \<and> remove_by_request_id i (fc_queue fc) = Inr (None, fc_queue fc))"
  using remove_by_request_id_ok [of "fc_queue fc" i] fc_reach_inv [OF assms] unfolding fc_inv_def by blast

section \<open>A concrete gateway\<close>

definition gw_request :: "rid \<Rightarrow> string \<Rightarrow> string \<Rightarrow> request" where
  "gw_request r cls tenant =
     \<lparr>rq_id = r, rq_input = [1], rq_output = [2], rq_max_output = 0, rq_state = StateQueued, rq_progress = 0, rq_ttft_set = False,
      rq_first_token = 0, rq_arrival = 0, rq_sched_step = 0, rq_fin_step = 0, rq_departure = 0, rq_new_tokens = 0,
      rq_length_capped = False, rq_itl = [], rq_priority = 0, rq_tenant = tenant, rq_model = '''', rq_slo_class = cls, rq_adapter = '''',
      rq_adapter_pinned = False, rq_deadline = 0, rq_slo_target = 0, rq_redirected = False, rq_decode_sub = False,
      rq_gw_enqueue = 0, rq_gw_dispatch = 0, rq_carry = 0\<rparr>"

text \<open>Two places, shedding on; a batch request and then a critical one, then a second critical one.\<close>

definition gw_queue :: "string \<Rightarrow> int \<Rightarrow> gateway_queue" where
  "gw_queue order d = set_shedding True (case new_gateway_queue order d None of Inr q \<Rightarrow> q)"

definition fc_of :: "gateway_queue \<Rightarrow> flow_control" where
  "fc_of q = \<lparr>fc_queue = q, fc_seq = 0, fc_outcome = Enqueued, fc_victim = None\<rparr>"

definition admit_many :: "request list \<Rightarrow> flow_control \<Rightarrow> flow_control outcome" where
  "admit_many rs fc = foldl (\<lambda>acc r. obind acc (\<lambda>fc. if gq_index (fc_queue fc) (rq_id r) = None
      then obind (fc_admit r 7 fc) (\<lambda>(_, fc1). Inr fc1) else Inl OutOfFuel)) (Inr fc) rs"

lemma admit_many_reach:
  assumes "fc_reach q0 a d x fc" "admit_many rs fc = Inr fc'"
  shows "fc_reach q0 (a + int (length rs)) d x fc'"
  using assms
proof (induction rs arbitrary: fc a)
  case Nil
  then show ?case by (simp add: admit_many_def)
next
  case (Cons r rs)
  have bad: "foldl (\<lambda>acc r. obind acc (\<lambda>fc. if gq_index (fc_queue fc) (rq_id r) = None
      then obind (fc_admit r 7 fc) (\<lambda>(_, fc1). Inr fc1) else Inl OutOfFuel)) (Inl e) rs = Inl e" for e rs
    by (induction rs) auto
  obtain out fc1 where f: "gq_index (fc_queue fc) (rq_id r) = None" "fc_admit r 7 fc = Inr (out, fc1)" "admit_many rs fc1 = Inr fc'"
    using Cons.prems(2) bad by (cases "fc_admit r 7 fc") (auto simp: admit_many_def split: if_splits)
  show ?case using Cons.IH [OF fc_arrive [OF Cons.prems(1) f(1,2)] f(3)] by (simp add: ac_simps)
qed

lemma gw_start:
  assumes "order \<in> {''fifo'', ''priority''}"
  shows "fc_reach (gw_queue order 2) 0 0 0 (fc_of (gw_queue order 2))"
proof (rule fc_init)
  obtain q where "new_gateway_queue order 2 None = Inr q" using assms by (auto simp: new_gateway_queue_def)
  then show "configured (gw_queue order 2)" unfolding gw_queue_def using conf_shedding [OF conf_new] by simp
  show "new_flow_control (Some (gw_queue order 2)) = Inr (fc_of (gw_queue order 2))"
    by (simp add: fc_of_def new_flow_control_def)
qed

text \<open>
  A batch request a, a critical one b, another batch request c: the queue is full at c, which
  is rejected; a critical d then displaces a.
\<close>

definition gw_filled :: "string \<Rightarrow> flow_control outcome" where
  "gw_filled order = admit_many [gw_request ''a'' ''batch'' ''t1'', gw_request ''b'' ''critical'' ''t2''] (fc_of (gw_queue order 2))"

lemma gw_filled_state:
  "case gw_filled ''fifo'' of Inl _ \<Rightarrow> False | Inr fc \<Rightarrow>
     gq_total (fc_queue fc) = 2 \<and> map pb_priority (gq_bands (fc_queue fc)) = [4, -1] \<and>
     (case fc_admit (gw_request ''c'' ''batch'' '''') 8 fc of Inl _ \<Rightarrow> False | Inr (_, fc1) \<Rightarrow> fc_outcome fc1 = Rejected) \<and>
     (case fc_admit (gw_request ''d'' ''critical'' '''') 8 fc of Inl _ \<Rightarrow> False | Inr (_, fc1) \<Rightarrow>
        fc_outcome fc1 = ShedVictim \<and> map_option rq_id (fc_victim fc1) = Some ''a'') \<and>
     (case dequeue_gated 0 (fc_queue fc) of Inl _ \<Rightarrow> False | Inr (r, _) \<Rightarrow> map_option rq_id r = Some ''b'') \<and>
     (case gq_dequeue (fc_queue fc) of Inl _ \<Rightarrow> False | Inr (r, _) \<Rightarrow> map_option rq_id r = Some ''a'') \<and>
     gq_index (fc_queue fc) ''d'' = None"
  by code_simp

lemma gw_filled_reach:
  obtains fc where "gw_filled ''fifo'' = Inr fc" "fc_reach (gw_queue ''fifo'' 2) 2 0 0 fc"
proof -
  have g: "case gw_filled ''fifo'' of Inl _ \<Rightarrow> False | Inr fc \<Rightarrow> True" using gw_filled_state by (auto split: sum.splits)
  then obtain fc where fc: "gw_filled ''fifo'' = Inr fc" by (cases "gw_filled ''fifo''") auto
  have "fc_reach (gw_queue ''fifo'' 2) (0 + int (length [gw_request ''a'' ''batch'' ''t1'', gw_request ''b'' ''critical'' ''t2''])) 0 0 fc"
    by (rule admit_many_reach [OF gw_start]) (use fc in \<open>simp_all add: gw_filled_def\<close>)
  then show ?thesis using that fc by simp
qed

text \<open>The same state as a fact about what is reached, for the witnesses.\<close>

lemma gw_filled_facts:
  assumes "gw_filled ''fifo'' = Inr fc"
  shows "gq_total (fc_queue fc) = 2" "gq_index (fc_queue fc) ''d'' = None"
    "\<exists>out fc1. fc_admit (gw_request ''d'' ''critical'' '''') 8 fc = Inr (out, fc1) \<and> fc_outcome fc1 = ShedVictim"
    "\<exists>r q. dequeue_gated 0 (fc_queue fc) = Inr (Some r, q) \<and> rq_id r = ''b''"
  using gw_filled_state assms by (auto split: sum.splits)

theorem gateway_accounting_witness:
  "\<exists>fc. fc_reach (gw_queue ''fifo'' 2) 2 0 0 fc \<and> gq_len (fc_queue fc) = 2 \<and>
     2 = gq_len (fc_queue fc) + 0 + 0 + gq_shed (fc_queue fc) + gq_rejected (fc_queue fc)"
proof -
  obtain fc where fc: "gw_filled ''fifo'' = Inr fc" "fc_reach (gw_queue ''fifo'' 2) 2 0 0 fc" by (rule gw_filled_reach)
  have "gq_len (fc_queue fc) = 2" using gw_filled_facts(1) [OF fc(1)] by (simp add: gq_len_def)
  then show ?thesis using gateway_accounting [OF fc(2)] fc(2) by blast
qed

theorem gateway_never_panics_witness:
  "\<exists>fc. fc_reach (gw_queue ''fifo'' 2) 2 0 0 fc \<and> (\<exists>v. fc_admit (gw_request ''d'' ''critical'' '''') 8 fc = Inr v)"
proof -
  obtain fc where fc: "gw_filled ''fifo'' = Inr fc" "fc_reach (gw_queue ''fifo'' 2) 2 0 0 fc" by (rule gw_filled_reach)
  have "rq_id (gw_request ''d'' ''critical'' '''') = ''d''" by (simp add: gw_request_def)
  then show ?thesis
    using fc gateway_never_panics [OF fc(2), of "gw_request ''d'' ''critical'' ''''" 8] gw_filled_facts(2) [OF fc(1)] by auto
qed

theorem admission_outcome_witness:
  "\<exists>fc out fc1 v. fc_reach (gw_queue ''fifo'' 2) 2 0 0 fc \<and>
     fc_admit (gw_request ''d'' ''critical'' '''') 8 fc = Inr (out, fc1) \<and> fc_outcome fc1 = ShedVictim \<and>
     enqueue_result ((gw_request ''d'' ''critical'' '''')\<lparr>rq_gw_enqueue := 8\<rparr>) (fc_seq fc + 1) (fc_queue fc)
       (ShedVictim, v) (fc_queue fc1)"
proof -
  obtain fc where fc: "gw_filled ''fifo'' = Inr fc" "fc_reach (gw_queue ''fifo'' 2) 2 0 0 fc" by (rule gw_filled_reach)
  have i: "rq_id (gw_request ''d'' ''critical'' '''') = ''d''" by (simp add: gw_request_def)
  obtain res out fc1 where a: "fc_admit (gw_request ''d'' ''critical'' '''') 8 fc = Inr (out, fc1)" "fc_outcome fc1 = fst res"
    "enqueue_result ((gw_request ''d'' ''critical'' '''')\<lparr>rq_gw_enqueue := 8\<rparr>) (fc_seq fc + 1) (fc_queue fc) res (fc_queue fc1)"
    using admission_outcome [OF fc(2), of "gw_request ''d'' ''critical'' ''''" 8] gw_filled_facts(2) [OF fc(1)] i by auto
  moreover have "fst res = ShedVictim" using gw_filled_facts(3) [OF fc(1)] a(1,2) by auto
  ultimately show ?thesis using fc(2) by (metis prod.collapse)
qed

theorem gated_dispatch_order_witness:
  "\<exists>fc e q'. fc_reach (gw_queue ''fifo'' 2) 2 0 0 fc \<and> dequeue_gated 0 (fc_queue fc) = Inr (Some (fe_request e), q') \<and>
     rq_id (fe_request e) = ''b'' \<and> band_order (fc_queue fc) e"
proof -
  obtain fc where fc: "gw_filled ''fifo'' = Inr fc" "fc_reach (gw_queue ''fifo'' 2) 2 0 0 fc" by (rule gw_filled_reach)
  obtain e q' where "dequeue_gated 0 (fc_queue fc) = Inr (Some (fe_request e), q')" "rq_id (fe_request e) = ''b''"
    "band_order (fc_queue fc) e"
    using gated_dispatch_order [OF fc(2), of 0] gw_filled_facts(4) [OF fc(1)] by auto
  then show ?thesis using fc(2) by blast
qed

theorem removal_by_id_witness:
  "\<exists>fc. fc_reach (gw_queue ''fifo'' 2) 2 0 0 fc \<and> remove_by_request_id ''d'' (fc_queue fc) = Inr (None, fc_queue fc)"
proof -
  obtain fc where fc: "gw_filled ''fifo'' = Inr fc" "fc_reach (gw_queue ''fifo'' 2) 2 0 0 fc" by (rule gw_filled_reach)
  have "remove_by_request_id ''d'' (fc_queue fc) = Inr (None, fc_queue fc)"
    using gw_filled_facts(2) [OF fc(1)] by (simp add: remove_by_request_id_def)
  then show ?thesis using fc(2) removal_by_id [OF fc(2), of "''d''"] by blast
qed

text \<open>In \<open>fifo\<close> mode, the default order, the gated dispatch the cluster uses serves by priority
  all the same: with a batch request queued before a critical one it takes the critical one,
  while \<open>Dequeue\<close>, which the cluster never calls, takes the earliest arrival.\<close>

theorem fifo_gateway_serves_by_priority:
  "\<exists>fc q1 q2 b a. fc_reach (gw_queue ''fifo'' 2) 2 0 0 fc \<and> \<not> gq_priority_mode (fc_queue fc) \<and>
     dequeue_gated 0 (fc_queue fc) = Inr (Some b, q1) \<and> gq_dequeue (fc_queue fc) = Inr (Some a, q2) \<and>
     rq_id b = ''b'' \<and> rq_id a = ''a''"
proof -
  obtain fc where fc: "gw_filled ''fifo'' = Inr fc" "fc_reach (gw_queue ''fifo'' 2) 2 0 0 fc" by (rule gw_filled_reach)
  have "same_config (gw_queue ''fifo'' 2) (fc_queue fc)" using fc_reach_inv [OF fc(2)] by (simp add: fc_inv_def)
  then have "\<not> gq_priority_mode (fc_queue fc)"
    by (simp add: same_config_def gw_queue_def new_gateway_queue_def set_shedding_def)
  then show ?thesis using gw_filled_state fc by (auto split: sum.splits)
qed

end
