(* ===== verification/Placement.thy ===== *)
theory Placement
  imports Go_Map Go_Sort Block_Hash
begin

text \<open>
  Node and GPU inventory and instance placement (\<open>sim/cluster/infra_node.go\<close>,
  \<open>sim/cluster/infra_placement.go\<close>, \<open>NodePoolConfig\<close> of \<open>infra_config.go\<close>). Nodes and GPUs are
  shared by pointer between the node's list and the indexes; their identifiers are their
  addresses here, so \<open>gpusByID\<close> is the store of GPUs and a node lists GPU identifiers.
  Rates and delays are exact rationals, so the NaN and infinity checks have no case. A stored
  drain callback is the flag \<open>nd_drain\<close>; an operation returns the nodes whose callback it
  fired, in order. The random provisioning delay is an argument.
\<close>

section \<open>Nodes and GPUs\<close>

datatype node_state = NodeProvisioning | NodeReady | NodeDraining | NodeTerminated

definition valid_node_transitions :: "node_state \<Rightarrow> node_state list" where
  "valid_node_transitions s = (case s of
     NodeProvisioning \<Rightarrow> [NodeReady, NodeTerminated]
   | NodeReady \<Rightarrow> [NodeDraining, NodeTerminated]
   | NodeDraining \<Rightarrow> [NodeTerminated]
   | NodeTerminated \<Rightarrow> [])"

record gpu =
  gp_id :: string
  gp_node :: string
  gp_pool :: string
  gp_type :: string
  gp_memory :: rat
  gp_alloc :: string

record node =
  nd_id :: string
  nd_pool :: string
  nd_gpu_type :: string
  nd_total :: int
  nd_gpus :: "string list"
  nd_state :: node_state
  nd_cost_start :: tick
  nd_drain :: bool

definition transition_node :: "node \<Rightarrow> node_state \<Rightarrow> node outcome" where
  "transition_node n to =
     (if to \<notin> set (valid_node_transitions (nd_state n)) then Inl (Panic ''transitionNode: invalid transition'')
      else Inr (n\<lparr>nd_state := to\<rparr>))"

section \<open>Pools\<close>

record pool_config =
  pc_name :: string
  pc_gpu_type :: string
  pc_gpus_per_node :: int
  pc_memory :: rat
  pc_initial :: int
  pc_min :: int
  pc_max :: int
  pc_delay_mean :: rat
  pc_delay_stddev :: rat
  pc_cost :: rat

text \<open>\<open>IsValid\<close> returns the first violation.\<close>

definition pool_valid :: "pool_config \<Rightarrow> string option" where
  "pool_valid c =
     (if pc_name c = '''' then Some ''node pool name must not be empty''
      else if pc_gpu_type c = '''' then Some ''gpu_type must not be empty''
      else if pc_gpus_per_node c < 1 then Some ''gpus_per_node must be >= 1''
      else if pc_memory c \<le> 0 then Some ''gpu_memory_gib must be > 0''
      else if pc_initial c < 0 then Some ''initial_nodes must be >= 0''
      else if pc_min c < 0 then Some ''min_nodes must be >= 0''
      else if pc_max c < pc_initial c then Some ''max_nodes must be >= initial_nodes''
      else if pc_min c > pc_max c then Some ''min_nodes must be <= max_nodes''
      else if pc_delay_mean c < 0 then Some ''provisioning_delay.mean must be >= 0''
      else if pc_delay_stddev c < 0 then Some ''provisioning_delay.stddev must be >= 0''
      else if pc_cost c < 0 then Some ''cost_per_hour must be >= 0''
      else None)"

text \<open>The simulator configuration a pending instance carries is opaque to placement.\<close>

record 'c pending_instance =
  pi_id :: string
  pi_model :: string
  pi_gpu_type :: string
  pi_tp :: int
  pi_cfg :: 'c

record 'c placed_instance =
  pl_id :: string
  pl_node :: string
  pl_gpus :: "string list"
  pl_gpu_type :: string
  pl_tp :: int
  pl_cfg :: 'c

record 'c placement =
  pm_pools :: "pool_config list"
  pm_nodes :: "(string, node) go_map"
  pm_by_pool :: "string \<Rightarrow> string list"
  pm_gpus :: "string \<rightharpoonup> gpu"
  pm_pending :: "'c pending_instance list"
  pm_next :: "string \<Rightarrow> nat"
  pm_span_warned :: bool

text \<open>The node and the allocation behind a pointer the manager handed out.\<close>

definition node_at :: "'c placement \<Rightarrow> string \<Rightarrow> node" where
  "node_at pm i = the (map_of (pm_nodes pm) i)"

definition alloc_at :: "'c placement \<Rightarrow> string \<Rightarrow> string" where
  "alloc_at pm g = gp_alloc (the (pm_gpus pm g))"

definition free_count :: "'c placement \<Rightarrow> node \<Rightarrow> int" where
  "free_count pm n = int (length (filter (\<lambda>g. alloc_at pm g = '''') (nd_gpus n)))"

definition allocated_count :: "'c placement \<Rightarrow> node \<Rightarrow> int" where
  "allocated_count pm n = int (length (filter (\<lambda>g. alloc_at pm g \<noteq> '''') (nd_gpus n)))"

section \<open>Construction\<close>

definition node_name :: "string \<Rightarrow> nat \<Rightarrow> string" where
  "node_name pool i = pool @ ''-'' @ dec_int (int i)"

definition gpu_name :: "string \<Rightarrow> nat \<Rightarrow> string" where
  "gpu_name nid g = nid @ ''-gpu-'' @ dec_int (int g)"

definition new_node :: "pool_config \<Rightarrow> node_state \<Rightarrow> tick \<Rightarrow> 'c placement \<Rightarrow> node \<times> 'c placement" where
  "new_node c st clock pm =
     (let idx = pm_next pm (pc_name c); nid = node_name (pc_name c) idx;
          ids = map (gpu_name nid) [0..<nat (pc_gpus_per_node c)];
          store = foldl (\<lambda>m g. m(g \<mapsto> \<lparr>gp_id = g, gp_node = nid, gp_pool = pc_name c, gp_type = pc_gpu_type c,
                                  gp_memory = pc_memory c, gp_alloc = ''''\<rparr>)) (pm_gpus pm) ids
      in (\<lparr>nd_id = nid, nd_pool = pc_name c, nd_gpu_type = pc_gpu_type c, nd_total = pc_gpus_per_node c, nd_gpus = ids,
           nd_state = st, nd_cost_start = clock, nd_drain = False\<rparr>,
          pm\<lparr>pm_next := (pm_next pm)(pc_name c := idx + 1), pm_gpus := store\<rparr>))"

definition register_node :: "node \<Rightarrow> 'c placement \<Rightarrow> 'c placement" where
  "register_node n pm = pm\<lparr>pm_nodes := AList.update (nd_id n) n (pm_nodes pm),
     pm_by_pool := (pm_by_pool pm)(nd_pool n := pm_by_pool pm (nd_pool n) @ [nd_id n])\<rparr>"

definition add_node :: "pool_config \<Rightarrow> node_state \<Rightarrow> tick \<Rightarrow> 'c placement \<Rightarrow> 'c placement" where
  "add_node c st clock pm = (let (n, pm1) = new_node c st clock pm in register_node n pm1)"

fun add_nodes :: "nat \<Rightarrow> pool_config \<Rightarrow> tick \<Rightarrow> 'c placement \<Rightarrow> 'c placement" where
  "add_nodes 0 c clock pm = pm"
| "add_nodes (Suc k) c clock pm = add_nodes k c clock (add_node c NodeReady clock pm)"

fun check_pools :: "string list \<Rightarrow> string list \<Rightarrow> pool_config list \<Rightarrow> unit outcome" where
  "check_pools names types [] = Inr ()"
| "check_pools names types (c # cs) =
     (if pool_valid c \<noteq> None then Inl (Panic ''NewPlacementManager: invalid pool'')
      else if pc_name c \<in> set names then Inl (Panic ''NewPlacementManager: duplicate pool name'')
      else if pc_gpu_type c \<in> set types then Inl (Panic ''NewPlacementManager: pools share gpu_type'')
      else check_pools (pc_name c # names) (pc_gpu_type c # types) cs)"

definition new_placement :: "pool_config list \<Rightarrow> tick \<Rightarrow> 'c placement outcome" where
  "new_placement pools clock =
     obind (check_pools [] [] pools) (\<lambda>_.
       Inr (foldl (\<lambda>pm c. add_nodes (nat (pc_initial c)) c clock pm)
         \<lparr>pm_pools = pools, pm_nodes = [], pm_by_pool = (\<lambda>_. []), pm_gpus = (\<lambda>_. None), pm_pending = [],
          pm_next = (\<lambda>_. 0), pm_span_warned = False\<rparr> pools))"

section \<open>Queries\<close>

definition node_count :: "'c placement \<Rightarrow> int" where
  "node_count pm = int (length (filter (\<lambda>e. nd_state (snd e) \<noteq> NodeTerminated) (pm_nodes pm)))"

definition gpu_count :: "string \<Rightarrow> 'c placement \<Rightarrow> int" where
  "gpu_count pool pm =
     (\<Sum>i\<leftarrow>pm_by_pool pm pool. if nd_state (node_at pm i) \<noteq> NodeTerminated then nd_total (node_at pm i) else 0)"

definition free_gpu_count :: "string \<Rightarrow> 'c placement \<Rightarrow> int" where
  "free_gpu_count i pm = (case map_of (pm_nodes pm) i of None \<Rightarrow> 0 | Some n \<Rightarrow> free_count pm n)"

text \<open>\<open>VerifyConservation\<close>: the first node, in identifier order, that violates INV-A.\<close>

fun first_violation :: "'c placement \<Rightarrow> string list \<Rightarrow> string option" where
  "first_violation pm [] = None"
| "first_violation pm (i # is) =
     (let n = node_at pm i in
      if allocated_count pm n + free_count pm n \<noteq> nd_total n then Some i else first_violation pm is)"

definition verify_conservation :: "'c placement \<Rightarrow> string option" where
  "verify_conservation pm = first_violation pm (sort_strings (gm_keys (pm_nodes pm)))"

section \<open>Placing an instance\<close>

datatype place_error = BadDegree | Unsatisfiable | NoCapacity

definition pool_matches :: "string \<Rightarrow> pool_config \<Rightarrow> bool" where
  "pool_matches gpu_type c \<longleftrightarrow> gpu_type = '''' \<or> pc_gpu_type c = gpu_type"

text \<open>Pass 1: the first Ready node with room, and its first free GPUs.\<close>

definition free_gpus :: "'c placement \<Rightarrow> node \<Rightarrow> string list" where
  "free_gpus pm n = filter (\<lambda>g. alloc_at pm g = '''') (nd_gpus n)"

fun pass1_nodes :: "'c placement \<Rightarrow> int \<Rightarrow> string list \<Rightarrow> (string \<times> string list) option" where
  "pass1_nodes pm tp [] = None"
| "pass1_nodes pm tp (i # is) =
     (let n = node_at pm i; selected = take (nat tp) (free_gpus pm n) in
      if nd_state n \<noteq> NodeReady \<or> free_count pm n < tp \<or> int (length selected) < tp then pass1_nodes pm tp is
      else Some (nd_id n, selected))"

fun pass1 :: "'c placement \<Rightarrow> string \<Rightarrow> int \<Rightarrow> pool_config list \<Rightarrow> (string \<times> string list \<times> string) option" where
  "pass1 pm gt tp [] = None"
| "pass1 pm gt tp (c # cs) =
     (if \<not> pool_matches gt c then pass1 pm gt tp cs
      else case pass1_nodes pm tp (pm_by_pool pm (pc_name c)) of
          Some (i, gs) \<Rightarrow> Some (i, gs, pc_gpu_type c)
        | None \<Rightarrow> pass1 pm gt tp cs)"

text \<open>Pass 2: whole free Ready nodes of one pool, exactly as many as the degree needs.\<close>

definition whole_free :: "'c placement \<Rightarrow> string \<Rightarrow> bool" where
  "whole_free pm i \<longleftrightarrow> nd_state (node_at pm i) = NodeReady \<and> free_count pm (node_at pm i) = nd_total (node_at pm i)"

fun pass2 :: "'c placement \<Rightarrow> string \<Rightarrow> int \<Rightarrow> pool_config list \<Rightarrow> (string list \<times> string) option" where
  "pass2 pm gt tp [] = None"
| "pass2 pm gt tp (c # cs) =
     (let gpn = pc_gpus_per_node c in
      if \<not> pool_matches gt c \<or> gpn \<le> 0 \<or> tp \<le> gpn \<or> tp mod gpn \<noteq> 0 then pass2 pm gt tp cs
      else let needed = tp div gpn; selected = take (nat needed) (filter (whole_free pm) (pm_by_pool pm (pc_name c))) in
        if int (length selected) < needed then pass2 pm gt tp cs
        else Some (selected, pc_gpu_type c))"

definition allocate_gpus :: "string \<Rightarrow> string list \<Rightarrow> 'c placement \<Rightarrow> 'c placement" where
  "allocate_gpus inst gs pm =
     pm\<lparr>pm_gpus := (\<lambda>g. if g \<in> set gs then map_option (\<lambda>x. x\<lparr>gp_alloc := inst\<rparr>) (pm_gpus pm g) else pm_gpus pm g)\<rparr>"

fun satisfiable_by_shape :: "string \<Rightarrow> int \<Rightarrow> bool \<Rightarrow> pool_config list \<Rightarrow> bool" where
  "satisfiable_by_shape gt tp matched [] = (\<not> matched)"
| "satisfiable_by_shape gt tp matched (c # cs) =
     (if \<not> pool_matches gt c then satisfiable_by_shape gt tp matched cs
      else let gpn = pc_gpus_per_node c in
        if gpn > 0 \<and> (tp \<le> gpn \<or> tp mod gpn = 0) then True else satisfiable_by_shape gt tp True cs)"

definition place_instance :: "string \<Rightarrow> string \<Rightarrow> int \<Rightarrow> 'c placement \<Rightarrow> (place_error + (string \<times> string list \<times> string)) \<times> 'c placement" where
  "place_instance inst gt tp pm =
     (if tp < 1 then (Inl BadDegree, pm)
      else case pass1 pm gt tp (pm_pools pm) of
          Some (i, gs, t) \<Rightarrow> (Inr (i, gs, t), allocate_gpus inst gs pm)
        | None \<Rightarrow> (case pass2 pm gt tp (pm_pools pm) of
              Some (is, t) \<Rightarrow>
                (let gs = concat (map (\<lambda>i. nd_gpus (node_at pm i)) is) in
                 (Inr (nd_id (node_at pm (is ! 0)), gs, t), (allocate_gpus inst gs pm)\<lparr>pm_span_warned := True\<rparr>))
            | None \<Rightarrow> (if \<not> satisfiable_by_shape gt tp False (pm_pools pm) then (Inl Unsatisfiable, pm) else (Inl NoCapacity, pm))))"

section \<open>Cost\<close>

text \<open>Distinct nodes, sorted; a GPU the index does not know is skipped.\<close>

definition distinct_nodes :: "string list \<Rightarrow> 'c placement \<Rightarrow> string list" where
  "distinct_nodes gs pm = sort_strings (remdups (concat (map (\<lambda>g. case pm_gpus pm g of None \<Rightarrow> [] | Some x \<Rightarrow> [gp_node x]) gs)))"

definition instance_cost :: "string list \<Rightarrow> rat \<Rightarrow> 'c placement \<Rightarrow> rat" where
  "instance_cost gs cost pm = (let span = length (distinct_nodes gs pm) in if span < 1 then 0 else cost * of_nat span)"

section \<open>Release\<close>

definition held_by :: "string \<Rightarrow> 'c placement \<Rightarrow> node \<Rightarrow> bool" where
  "held_by inst pm n \<longleftrightarrow> (\<exists>g \<in> set (nd_gpus n). alloc_at pm g = inst)"

definition set_node :: "string \<Rightarrow> (node \<Rightarrow> node) \<Rightarrow> 'c placement \<Rightarrow> 'c placement" where
  "set_node i f pm = pm\<lparr>pm_nodes := AList.update i (f (node_at pm i)) (pm_nodes pm)\<rparr>"

text \<open>The drain checks: fire and clear the callback of each touched node that is now drained.\<close>

fun fire_drains :: "string list \<Rightarrow> 'c placement \<Rightarrow> string list \<times> 'c placement" where
  "fire_drains [] pm = ([], pm)"
| "fire_drains (i # is) pm =
     (let n = node_at pm i in
      if nd_state n = NodeDraining \<and> allocated_count pm n = 0 \<and> nd_drain n
      then let (fired, pm1) = fire_drains is (set_node i (\<lambda>n. n\<lparr>nd_drain := False\<rparr>) pm) in (i # fired, pm1)
      else fire_drains is pm)"

definition free_instance :: "string \<Rightarrow> 'c placement \<Rightarrow> 'c placement" where
  "free_instance inst pm =
     allocate_gpus '''' (filter (\<lambda>g. alloc_at pm g = inst) (concat (map (\<lambda>e. nd_gpus (snd e)) (pm_nodes pm)))) pm"

definition release_instance :: "string \<Rightarrow> 'c placement \<Rightarrow> (string + string list) \<times> 'c placement" where
  "release_instance inst pm =
     (let touched = map fst (filter (\<lambda>e. held_by inst pm (snd e)) (pm_nodes pm)); pm1 = free_instance inst pm in
      if touched = [] then (Inl ''ReleaseInstance: no GPUs found for this instance'', pm1)
      else let (fired, pm2) = fire_drains (sort_strings touched) pm1 in (Inr fired, pm2))"

section \<open>Node lifecycle\<close>

fun find_pool :: "string \<Rightarrow> pool_config list \<Rightarrow> pool_config option" where
  "find_pool p [] = None"
| "find_pool p (c # cs) = (if pc_name c = p then Some c else find_pool p cs)"

definition provision_node :: "string \<Rightarrow> tick \<Rightarrow> int \<Rightarrow> 'c placement \<Rightarrow> ((string \<times> tick) \<times> 'c placement) outcome" where
  "provision_node pool clock delay pm =
     (case find_pool pool (pm_pools pm) of
        None \<Rightarrow> Inl (Panic ''ProvisionNode: unknown pool'')
      | Some c \<Rightarrow> (let (n, pm1) = new_node c NodeProvisioning clock pm in Inr ((nd_id n, clock + delay), register_node n pm1)))"

definition drain_node :: "string \<Rightarrow> 'c placement \<Rightarrow> ((string + string list) \<times> 'c placement) outcome" where
  "drain_node i pm =
     (case map_of (pm_nodes pm) i of
        None \<Rightarrow> Inr (Inl ''DrainNode: unknown node'', pm)
      | Some n \<Rightarrow>
          (if nd_state n \<noteq> NodeReady then Inr (Inl ''DrainNode: node is not Ready'', pm)
           else obind (transition_node n NodeDraining) (\<lambda>n1.
             (if allocated_count pm n1 = 0 then Inr (Inr [i], set_node i (\<lambda>_. n1) pm)
              else Inr (Inr [], set_node i (\<lambda>_. n1\<lparr>nd_drain := True\<rparr>) pm)))))"

definition mark_node_terminated :: "string \<Rightarrow> 'c placement \<Rightarrow> ((string + string list) \<times> 'c placement) outcome" where
  "mark_node_terminated i pm =
     (case map_of (pm_nodes pm) i of
        None \<Rightarrow> Inr (Inl ''MarkNodeTerminated: unknown node'', pm)
      | Some n \<Rightarrow> obind (transition_node n NodeTerminated) (\<lambda>n1.
          let pm1 = allocate_gpus '''' (nd_gpus n1) pm in
          (if nd_drain n1 then Inr (Inr [i], set_node i (\<lambda>_. n1\<lparr>nd_drain := False\<rparr>) pm1)
           else Inr (Inr [], set_node i (\<lambda>_. n1) pm1))))"

definition mark_node_ready :: "string \<Rightarrow> 'c placement \<Rightarrow> (string option \<times> 'c placement) outcome" where
  "mark_node_ready i pm =
     (case map_of (pm_nodes pm) i of
        None \<Rightarrow> Inr (Some ''MarkNodeReady: unknown node'', pm)
      | Some n \<Rightarrow> obind (transition_node n NodeReady) (\<lambda>n1. Inr (None, set_node i (\<lambda>_. n1) pm)))"

section \<open>Pending instances\<close>

definition add_pending :: "'c pending_instance \<Rightarrow> 'c placement \<Rightarrow> 'c placement" where
  "add_pending p pm = pm\<lparr>pm_pending := pm_pending pm @ [p]\<rparr>"

text \<open>
  The retry loop: a placed instance is replaced by the last pending one and the index stays;
  a failed one moves the index on. The pending list is the first argument that shrinks.
\<close>

function retry_loop :: "nat \<Rightarrow> nat \<Rightarrow> 'c pending_instance list \<Rightarrow> 'c placed_instance list \<Rightarrow> 'c placement \<Rightarrow>
    'c placed_instance list \<times> 'c pending_instance list \<times> 'c placement" where
  "retry_loop i max_iter ps acc pm =
     (if \<not> (i < length ps \<and> i < max_iter) then (acc, ps, pm)
      else let p = ps ! i in
        case place_instance (pi_id p) (pi_gpu_type p) (pi_tp p) pm of
          (Inr (nid, gs, t), pm1) \<Rightarrow>
            retry_loop i max_iter (take (length ps - 1) (ps[i := ps ! (length ps - 1)]))
              (acc @ [\<lparr>pl_id = pi_id p, pl_node = nid, pl_gpus = gs, pl_gpu_type = t, pl_tp = pi_tp p, pl_cfg = pi_cfg p\<rparr>]) pm1
        | (Inl _, pm1) \<Rightarrow> retry_loop (i + 1) max_iter ps acc pm1)"
  by pat_completeness auto
termination
  by (relation "measure (\<lambda>(i, max_iter, ps, acc, pm). length ps - i)") auto

declare retry_loop.simps [simp del]

definition retry_pending :: "'c placement \<Rightarrow> 'c placed_instance list \<times> 'c placement" where
  "retry_pending pm =
     (if pm_pending pm = [] then ([], pm)
      else let (placed, ps, pm1) = retry_loop 0 (length (pm_pending pm)) (pm_pending pm) [] pm in
        (placed, pm1\<lparr>pm_pending := ps\<rparr>))"

end
