(* ===== verification/Placement_Safe.thy ===== *)
theory Placement_Safe
  imports Placement
begin

text \<open>
  Well-formedness of the placement inventory and its preservation by every operation: names
  are unambiguous, every GPU belongs to one node, a node's drain callback waits exactly while
  an instance holds one of its GPUs. The placement passes and the release are specified on
  the allocation map.
\<close>

section \<open>Names\<close>

lemma dec_nat_no_dash: "CHR ''-'' \<notin> set (dec_int (int n))"
proof -
  have "CHR ''-'' \<notin> set (nat_digits n)" using nat_digits_chars [of "CHR ''-''" n] char_of_digit_neq(2) by metis
  then show ?thesis by (simp add: dec_int_def)
qed

lemma last_sep_unique:
  assumes "c \<notin> set xs" "c \<notin> set ys" "r @ c # xs = r' @ c # ys"
  shows "r = r' \<and> xs = ys"
proof -
  have "rev xs @ c # rev r = rev ys @ c # rev r'" using arg_cong [OF assms(3), of rev] by simp
  then have "rev xs = rev ys \<and> rev r = rev r'" using sep_unique assms(1,2) by (metis set_rev)
  then show ?thesis by simp
qed

lemma node_name_inj: "node_name p i = node_name q j \<longleftrightarrow> p = q \<and> i = j"
  using last_sep_unique [OF dec_nat_no_dash dec_nat_no_dash, of p i q j] dec_int_inj
  by (fastforce simp: node_name_def)

lemma gpu_name_inj: "gpu_name n i = gpu_name m j \<longleftrightarrow> n = m \<and> i = j"
proof
  assume "gpu_name n i = gpu_name m j"
  then have "(n @ ''-gpu'') @ CHR ''-'' # dec_int (int i) = (m @ ''-gpu'') @ CHR ''-'' # dec_int (int j)"
    by (simp add: gpu_name_def)
  from last_sep_unique [OF dec_nat_no_dash dec_nat_no_dash this] show "n = m \<and> i = j"
    using dec_int_inj by fastforce
qed simp

section \<open>The invariant\<close>

definition node_wf :: "'c placement \<Rightarrow> string \<Rightarrow> node \<Rightarrow> bool" where
  "node_wf pm i n \<longleftrightarrow> nd_id n = i \<and> (\<exists>k < pm_next pm (nd_pool n). i = node_name (nd_pool n) k) \<and>
     (\<exists>c \<in> set (pm_pools pm). nd_pool n = pc_name c \<and> nd_gpu_type n = pc_gpu_type c \<and> nd_total n = pc_gpus_per_node c) \<and>
     nd_gpus n = map (gpu_name i) [0..<nat (nd_total n)] \<and>
     (\<forall>g \<in> set (nd_gpus n). \<exists>x. pm_gpus pm g = Some x \<and> gp_node x = i)"

definition drain_ok :: "'c placement \<Rightarrow> node \<Rightarrow> bool" where
  "drain_ok pm n \<longleftrightarrow> (nd_drain n \<longleftrightarrow> nd_state n = NodeDraining \<and> 0 < allocated_count pm n)"

definition pools_ok :: "pool_config list \<Rightarrow> bool" where
  "pools_ok cs \<longleftrightarrow> distinct (map pc_name cs) \<and> distinct (map pc_gpu_type cs) \<and> (\<forall>c \<in> set cs. pool_valid c = None)"

definition pm_ok :: "'c placement \<Rightarrow> bool" where
  "pm_ok pm \<longleftrightarrow> pools_ok (pm_pools pm) \<and> distinct (gm_keys (pm_nodes pm)) \<and>
     (\<forall>i n. map_of (pm_nodes pm) i = Some n \<longrightarrow> node_wf pm i n \<and> drain_ok pm n) \<and>
     (\<forall>p i. i \<in> set (pm_by_pool pm p) \<longleftrightarrow> (\<exists>n. map_of (pm_nodes pm) i = Some n \<and> nd_pool n = p)) \<and>
     (\<forall>p. distinct (pm_by_pool pm p)) \<and>
     (\<forall>g x. pm_gpus pm g = Some x \<longrightarrow> (\<exists>n. map_of (pm_nodes pm) (gp_node x) = Some n \<and> g \<in> set (nd_gpus n)))"

lemma pool_valid_pos: "pool_valid c = None \<Longrightarrow> 0 < pc_gpus_per_node c"
  by (simp add: pool_valid_def split: if_splits)

lemma pm_node_wf: "pm_ok pm \<Longrightarrow> map_of (pm_nodes pm) i = Some n \<Longrightarrow> node_wf pm i n"
  by (simp add: pm_ok_def)

lemma node_at_Some [simp]: "map_of (pm_nodes pm) i = Some n \<Longrightarrow> node_at pm i = n"
  by (simp add: node_at_def)

lemma pm_by_pool_iff: "pm_ok pm \<Longrightarrow> i \<in> set (pm_by_pool pm p) \<longleftrightarrow> (\<exists>n. map_of (pm_nodes pm) i = Some n \<and> nd_pool n = p)"
  by (simp add: pm_ok_def)

lemma node_total_pos:
  assumes "pm_ok pm" "map_of (pm_nodes pm) i = Some n"
  shows "0 < nd_total n" "int (length (nd_gpus n)) = nd_total n" "distinct (nd_gpus n)"
proof -
  have w: "node_wf pm i n" by (rule pm_node_wf [OF assms])
  then obtain c where "c \<in> set (pm_pools pm)" "nd_total n = pc_gpus_per_node c" by (auto simp: node_wf_def)
  then show p: "0 < nd_total n" using pool_valid_pos assms(1) by (auto simp: pm_ok_def pools_ok_def)
  have g: "nd_gpus n = map (gpu_name i) [0..<nat (nd_total n)]" using w by (simp add: node_wf_def)
  then show "int (length (nd_gpus n)) = nd_total n" using p by simp
  show "distinct (nd_gpus n)" by (simp add: g distinct_map inj_on_def gpu_name_inj)
qed

lemma counts_sum: "allocated_count pm n + free_count pm n = int (length (nd_gpus n))"
  unfolding allocated_count_def free_count_def
  using sum_length_filter_compl [of "\<lambda>g. alloc_at pm g = ''''" "nd_gpus n"] by simp

lemma node_of_gpu:
  assumes "pm_ok pm" "map_of (pm_nodes pm) i = Some n" "map_of (pm_nodes pm) j = Some m" "g \<in> set (nd_gpus n)" "g \<in> set (nd_gpus m)"
  shows "i = j"
  using pm_node_wf [OF assms(1,2)] pm_node_wf [OF assms(1,3)] assms(4,5) unfolding node_wf_def by (metis option.inject)

section \<open>A change of the allocation\<close>

lemma allocate_gpus_alloc:
  assumes "pm_gpus pm g \<noteq> None"
  shows "alloc_at (allocate_gpus inst gs pm) g = (if g \<in> set gs then inst else alloc_at pm g)"
  using assms by (auto simp: alloc_at_def allocate_gpus_def)

lemma allocate_gpus_fields [simp]:
  "pm_pools (allocate_gpus inst gs pm) = pm_pools pm" "pm_nodes (allocate_gpus inst gs pm) = pm_nodes pm"
  "pm_by_pool (allocate_gpus inst gs pm) = pm_by_pool pm" "pm_next (allocate_gpus inst gs pm) = pm_next pm"
  "pm_pending (allocate_gpus inst gs pm) = pm_pending pm"
  by (simp_all add: allocate_gpus_def)

lemma allocate_gpus_some: "(\<exists>x. pm_gpus (allocate_gpus inst gs pm) g = Some x \<and> gp_node x = i) \<longleftrightarrow> (\<exists>x. pm_gpus pm g = Some x \<and> gp_node x = i)"
  by (cases "pm_gpus pm g") (auto simp: allocate_gpus_def)

lemma node_wf_allocate [simp]: "node_wf (allocate_gpus inst gs pm) i n = node_wf pm i n"
  by (simp add: node_wf_def allocate_gpus_some)

text \<open>The part of the invariant that does not depend on the allocation.\<close>

lemma pm_ok_allocate:
  assumes "pm_ok pm" "\<forall>i n. map_of (pm_nodes pm) i = Some n \<longrightarrow> drain_ok (allocate_gpus inst gs pm) n"
  shows "pm_ok (allocate_gpus inst gs pm)"
proof -
  have "\<exists>n. map_of (pm_nodes pm) (gp_node x) = Some n \<and> g \<in> set (nd_gpus n)" if "pm_gpus (allocate_gpus inst gs pm) g = Some x" for g x
  proof -
    have "\<exists>y. pm_gpus pm g = Some y \<and> gp_node y = gp_node x"
      using that by (cases "pm_gpus pm g") (auto simp: allocate_gpus_def split: if_splits)
    then obtain y where "pm_gpus pm g = Some y" "gp_node y = gp_node x" by blast
    then show ?thesis using assms(1) unfolding pm_ok_def by metis
  qed
  then show ?thesis using assms unfolding pm_ok_def by simp
qed

lemma gpu_known:
  assumes "pm_ok pm" "map_of (pm_nodes pm) i = Some n" "g \<in> set (nd_gpus n)"
  shows "pm_gpus pm g \<noteq> None"
  using pm_node_wf [OF assms(1,2)] assms(3) by (auto simp: node_wf_def)

lemma allocated_count_cong:
  assumes "\<And>g. g \<in> set (nd_gpus n) \<Longrightarrow> alloc_at pm g = alloc_at pm' g"
  shows "allocated_count pm n = allocated_count pm' n"
proof -
  have "filter (\<lambda>g. alloc_at pm g \<noteq> '''') (nd_gpus n) = filter (\<lambda>g. alloc_at pm' g \<noteq> '''') (nd_gpus n)"
    by (rule filter_cong) (simp_all add: assms)
  then show ?thesis by (simp add: allocated_count_def)
qed

section \<open>The two passes\<close>

lemma length_free_gpus: "free_count pm n = int (length (free_gpus pm n))"
  by (simp add: free_count_def free_gpus_def)

lemma pass1_nodes_Some:
  "pass1_nodes pm tp ns = Some (i, gs) \<Longrightarrow> 0 < tp \<Longrightarrow>
   \<exists>j \<in> set ns. i = nd_id (node_at pm j) \<and> nd_state (node_at pm j) = NodeReady \<and> gs = take (nat tp) (free_gpus pm (node_at pm j)) \<and>
     int (length gs) = tp"
  by (induction "ns") (auto simp: Let_def split: if_splits)

lemma pass1_nodes_None:
  "pass1_nodes pm tp ns = None \<Longrightarrow> 0 < tp \<Longrightarrow> j \<in> set ns \<Longrightarrow> nd_state (node_at pm j) = NodeReady \<Longrightarrow> free_count pm (node_at pm j) < tp"
  by (induction "ns") (auto simp: Let_def length_free_gpus split: if_splits)

lemma pass1_Some:
  "pass1 pm gt tp cs = Some (i, gs, t) \<Longrightarrow>
   \<exists>c \<in> set cs. pool_matches gt c \<and> t = pc_gpu_type c \<and> pass1_nodes pm tp (pm_by_pool pm (pc_name c)) = Some (i, gs)"
  by (induction cs) (auto split: if_splits option.splits)

lemma pass1_None:
  "pass1 pm gt tp cs = None \<Longrightarrow> c \<in> set cs \<Longrightarrow> pool_matches gt c \<Longrightarrow> pass1_nodes pm tp (pm_by_pool pm (pc_name c)) = None"
  by (induction cs) (auto split: if_splits option.splits)

definition spans :: "'c placement \<Rightarrow> string \<Rightarrow> int \<Rightarrow> pool_config \<Rightarrow> bool" where
  "spans pm gt tp c \<longleftrightarrow> pool_matches gt c \<and> pc_gpus_per_node c < tp \<and> tp mod pc_gpus_per_node c = 0 \<and>
     tp div pc_gpus_per_node c \<le> int (length (filter (whole_free pm) (pm_by_pool pm (pc_name c))))"

lemma pass2_Some:
  "pass2 pm gt tp cs = Some (ns, t) \<Longrightarrow>
   \<exists>c \<in> set cs. spans pm gt tp c \<and> t = pc_gpu_type c \<and> 0 < pc_gpus_per_node c \<and> int (length ns) = tp div pc_gpus_per_node c \<and>
     ns = take (nat (tp div pc_gpus_per_node c)) (filter (whole_free pm) (pm_by_pool pm (pc_name c)))"
proof (induction cs)
  case (Cons c cs)
  let ?gpn = "pc_gpus_per_node c" and ?wf = "filter (whole_free pm) (pm_by_pool pm (pc_name c))"
  show ?case
  proof (cases "\<not> pool_matches gt c \<or> ?gpn \<le> 0 \<or> tp \<le> ?gpn \<or> tp mod ?gpn \<noteq> 0 \<or> int (length (take (nat (tp div ?gpn)) ?wf)) < tp div ?gpn")
    case True
    then have "pass2 pm gt tp cs = Some (ns, t)" using Cons.prems by (auto simp: Let_def split: if_splits)
    then show ?thesis using Cons.IH by auto
  next
    case False
    then have e: "ns = take (nat (tp div ?gpn)) ?wf" "t = pc_gpu_type c" using Cons.prems by (auto simp: Let_def split: if_splits)
    have d: "0 \<le> tp div ?gpn" using False by (simp add: pos_imp_zdiv_nonneg_iff)
    have "\<not> int (length (take (nat (tp div ?gpn)) ?wf)) < tp div ?gpn" using False by blast
    then have "tp div ?gpn \<le> int (length ?wf)" "int (length ns) = tp div ?gpn" using d unfolding e by (simp_all add: min_def split: if_splits)
    then show ?thesis using False e by (intro bexI [of _ c]) (auto simp: spans_def)
  qed
qed simp

lemma pass2_None:
  "pass2 pm gt tp cs = None \<Longrightarrow> c \<in> set cs \<Longrightarrow> 0 < pc_gpus_per_node c \<Longrightarrow> \<not> spans pm gt tp c"
proof (induction cs)
  case (Cons d cs)
  let ?gpn = "pc_gpus_per_node d" and ?wf = "filter (whole_free pm) (pm_by_pool pm (pc_name d))"
  have n: "pass2 pm gt tp cs = None" using Cons.prems(1) by (auto simp: Let_def split: if_splits)
  have "\<not> spans pm gt tp d" if "0 < ?gpn"
  proof
    assume s: "spans pm gt tp d"
    then have "0 \<le> tp div ?gpn" using that by (simp add: spans_def pos_imp_zdiv_nonneg_iff)
    then have "int (length (take (nat (tp div ?gpn)) ?wf)) = tp div ?gpn" using s by (auto simp: spans_def min_def)
    then have "\<not> int (length (take (nat (tp div ?gpn)) ?wf)) < tp div ?gpn" by linarith
    then show False using Cons.prems(1) s that by (auto simp: spans_def Let_def)
  qed
  then show ?case using Cons.IH [OF n] Cons.prems by auto
qed simp

section \<open>Placing\<close>

text \<open>Whether an instance fits: on one Ready node, or over whole free nodes of one pool.\<close>

definition single_fit :: "'c placement \<Rightarrow> string \<Rightarrow> int \<Rightarrow> bool" where
  "single_fit pm gt tp \<longleftrightarrow> (\<exists>i n. map_of (pm_nodes pm) i = Some n \<and> (gt = '''' \<or> nd_gpu_type n = gt) \<and>
     nd_state n = NodeReady \<and> tp \<le> free_count pm n)"

definition span_fit :: "'c placement \<Rightarrow> string \<Rightarrow> int \<Rightarrow> bool" where
  "span_fit pm gt tp \<longleftrightarrow> (\<exists>c \<in> set (pm_pools pm). spans pm gt tp c)"

lemma pool_node:
  assumes "pm_ok pm" "c \<in> set (pm_pools pm)" "i \<in> set (pm_by_pool pm (pc_name c))"
  obtains n where "map_of (pm_nodes pm) i = Some n" "nd_id n = i" "nd_pool n = pc_name c" "nd_gpu_type n = pc_gpu_type c"
    "nd_total n = pc_gpus_per_node c"
proof -
  obtain n where n: "map_of (pm_nodes pm) i = Some n" "nd_pool n = pc_name c" using assms pm_by_pool_iff by metis
  have w: "node_wf pm i n" by (rule pm_node_wf [OF assms(1) n(1)])
  then obtain d where d: "d \<in> set (pm_pools pm)" "nd_pool n = pc_name d" "nd_gpu_type n = pc_gpu_type d" "nd_total n = pc_gpus_per_node d"
    unfolding node_wf_def by blast
  have "d = c" using assms(1,2) d(1,2) n(2) by (auto simp: pm_ok_def pools_ok_def distinct_map inj_on_def)
  then show ?thesis using that n d w by (simp add: node_wf_def)
qed

lemma node_pool:
  assumes "pm_ok pm" "map_of (pm_nodes pm) i = Some n"
  obtains c where "c \<in> set (pm_pools pm)" "i \<in> set (pm_by_pool pm (pc_name c))" "nd_gpu_type n = pc_gpu_type c"
    "nd_total n = pc_gpus_per_node c"
proof -
  obtain c where c: "c \<in> set (pm_pools pm)" "nd_pool n = pc_name c" "nd_gpu_type n = pc_gpu_type c" "nd_total n = pc_gpus_per_node c"
    using pm_node_wf [OF assms] unfolding node_wf_def by blast
  then have "i \<in> set (pm_by_pool pm (pc_name c))" using assms pm_by_pool_iff by metis
  then show ?thesis using that c by blast
qed

lemma pass1_single_fit:
  assumes ok: "pm_ok pm" and tp: "0 < tp"
  shows "pass1 pm gt tp (pm_pools pm) = None \<longleftrightarrow> \<not> single_fit pm gt tp"
proof
  assume n: "pass1 pm gt tp (pm_pools pm) = None"
  show "\<not> single_fit pm gt tp"
  proof
    assume "single_fit pm gt tp"
    then obtain i n where i: "map_of (pm_nodes pm) i = Some n" "gt = '''' \<or> nd_gpu_type n = gt" "nd_state n = NodeReady" "tp \<le> free_count pm n"
      unfolding single_fit_def by blast
    obtain c where c: "c \<in> set (pm_pools pm)" "i \<in> set (pm_by_pool pm (pc_name c))" "nd_gpu_type n = pc_gpu_type c"
      using node_pool [OF ok i(1)] by metis
    have q: "pass1_nodes pm tp (pm_by_pool pm (pc_name c)) = None"
      by (rule pass1_None [OF n c(1)]) (use i(2) c(3) in \<open>auto simp: pool_matches_def\<close>)
    show False using pass1_nodes_None [OF q tp c(2)] i by simp
  qed
next
  assume nf: "\<not> single_fit pm gt tp"
  show "pass1 pm gt tp (pm_pools pm) = None"
  proof (rule ccontr)
    assume "pass1 pm gt tp (pm_pools pm) \<noteq> None"
    then obtain i gs t where "pass1 pm gt tp (pm_pools pm) = Some (i, gs, t)" by auto
    then obtain c where c: "c \<in> set (pm_pools pm)" "pool_matches gt c" "pass1_nodes pm tp (pm_by_pool pm (pc_name c)) = Some (i, gs)"
      using pass1_Some by metis
    obtain j where j: "j \<in> set (pm_by_pool pm (pc_name c))" "nd_state (node_at pm j) = NodeReady"
        "gs = take (nat tp) (free_gpus pm (node_at pm j))" "int (length gs) = tp"
      using pass1_nodes_Some [OF c(3) tp] by blast
    obtain n where n: "map_of (pm_nodes pm) j = Some n" "nd_gpu_type n = pc_gpu_type c" using pool_node [OF ok c(1) j(1)] by metis
    have "tp \<le> free_count pm n" using j(3,4) n(1) by (auto simp: length_free_gpus)
    then show False using nf n j(2) c(2) unfolding single_fit_def pool_matches_def by force
  qed
qed

lemma pass2_span_fit:
  assumes ok: "pm_ok pm"
  shows "pass2 pm gt tp (pm_pools pm) = None \<longleftrightarrow> \<not> span_fit pm gt tp"
proof -
  have pos: "0 < pc_gpus_per_node c" if "c \<in> set (pm_pools pm)" for c
    using ok that pool_valid_pos by (auto simp: pm_ok_def pools_ok_def)
  have "pass2 pm gt tp (pm_pools pm) = None \<Longrightarrow> \<not> span_fit pm gt tp"
    using pass2_None pos unfolding span_fit_def by blast
  moreover have "pass2 pm gt tp (pm_pools pm) = Some r \<Longrightarrow> span_fit pm gt tp" for r
    using pass2_Some [of pm gt tp "pm_pools pm" "fst r" "snd r"] unfolding span_fit_def by auto
  ultimately show ?thesis by (cases "pass2 pm gt tp (pm_pools pm)") auto
qed

text \<open>The nodes a placement uses: one Ready node with room, or whole free Ready nodes of a pool.\<close>

definition placed_on :: "'c placement \<Rightarrow> string list \<Rightarrow> string list \<Rightarrow> string \<Rightarrow> bool" where
  "placed_on pm ns gs t \<longleftrightarrow> ns \<noteq> [] \<and> distinct ns \<and>
     (\<forall>i \<in> set ns. \<exists>n. map_of (pm_nodes pm) i = Some n \<and> nd_state n = NodeReady \<and> nd_gpu_type n = t) \<and>
     (\<exists>p. \<forall>i \<in> set ns. nd_pool (node_at pm i) = p) \<and>
     (if length ns = 1 then set gs \<subseteq> set (nd_gpus (node_at pm (hd ns)))
      else gs = concat (map (\<lambda>i. nd_gpus (node_at pm i)) ns))"

definition placed_result :: "'c placement \<Rightarrow> string \<Rightarrow> string \<Rightarrow> int \<Rightarrow> string \<times> string list \<times> string \<Rightarrow> bool" where
  "placed_result pm inst gt tp r \<longleftrightarrow> (case r of (i, gs, t) \<Rightarrow>
     int (length gs) = tp \<and> distinct gs \<and> (gt = '''' \<or> t = gt) \<and>
     (\<forall>g \<in> set gs. pm_gpus pm g \<noteq> None \<and> alloc_at pm g = '''') \<and>
     (\<exists>ns. placed_on pm ns gs t \<and> i = hd ns \<and> (length ns = 1 \<longleftrightarrow> single_fit pm gt tp)))"

lemma whole_free_gpus:
  assumes "pm_ok pm" "map_of (pm_nodes pm) i = Some n" "free_count pm n = nd_total n" "g \<in> set (nd_gpus n)"
  shows "alloc_at pm g = ''''"
proof -
  have "length (filter (\<lambda>g. alloc_at pm g = '''') (nd_gpus n)) = length (nd_gpus n)"
    using assms(3) node_total_pos(2) [OF assms(1,2)] by (simp add: free_count_def)
  then show ?thesis
    using length_filter_less [OF assms(4), of "\<lambda>g. alloc_at pm g = ''''"] by (cases "alloc_at pm g = ''''") simp_all
qed

lemma pass1_result:
  assumes ok: "pm_ok pm" and tp: "0 < tp" and p: "pass1 pm gt tp (pm_pools pm) = Some (i, gs, t)"
  shows "placed_result pm inst gt tp (i, gs, t)"
proof -
  obtain c where c: "c \<in> set (pm_pools pm)" "pool_matches gt c" "t = pc_gpu_type c" "pass1_nodes pm tp (pm_by_pool pm (pc_name c)) = Some (i, gs)"
    using pass1_Some [OF p] by blast
  obtain j where j: "j \<in> set (pm_by_pool pm (pc_name c))" "i = nd_id (node_at pm j)" "nd_state (node_at pm j) = NodeReady"
      "gs = take (nat tp) (free_gpus pm (node_at pm j))" "int (length gs) = tp"
    using pass1_nodes_Some [OF c(4) tp] by blast
  obtain n where n: "map_of (pm_nodes pm) j = Some n" "nd_id n = j" "nd_gpu_type n = pc_gpu_type c" using pool_node [OF ok c(1) j(1)] by metis
  have sub: "set gs \<subseteq> {g \<in> set (nd_gpus n). alloc_at pm g = ''''}"
    using j(4) n(1) set_take_subset [of "nat tp" "free_gpus pm n"] by (auto simp: free_gpus_def)
  have d: "distinct gs" using j(4) n(1) node_total_pos(3) [OF ok n(1)] by (simp add: free_gpus_def)
  have "single_fit pm gt tp" using pass1_single_fit [OF ok tp, of gt] p by simp
  moreover have "placed_on pm [j] gs t" using n j(3) sub c(3) by (auto simp: placed_on_def)
  moreover have "\<forall>g \<in> set gs. pm_gpus pm g \<noteq> None \<and> alloc_at pm g = ''''" using sub gpu_known [OF ok n(1)] by blast
  moreover have "i = hd [j]" using j(2) n by simp
  ultimately show ?thesis
    using d j(5) c(2,3) unfolding placed_result_def pool_matches_def by (auto intro!: exI [of _ "[j]"])
qed

lemma pass2_result:
  assumes ok: "pm_ok pm" and tp: "0 < tp" and nf: "\<not> single_fit pm gt tp" and p: "pass2 pm gt tp (pm_pools pm) = Some (ns, t)"
  shows "placed_result pm inst gt tp (nd_id (node_at pm (ns ! 0)), concat (map (\<lambda>i. nd_gpus (node_at pm i)) ns), t)"
proof -
  obtain c where c: "c \<in> set (pm_pools pm)" "spans pm gt tp c" "t = pc_gpu_type c" "0 < pc_gpus_per_node c"
      "int (length ns) = tp div pc_gpus_per_node c" "ns = take (nat (tp div pc_gpus_per_node c)) (filter (whole_free pm) (pm_by_pool pm (pc_name c)))"
    using pass2_Some [OF p] by blast
  let ?gpn = "pc_gpus_per_node c"
  have two: "2 \<le> tp div ?gpn"
  proof -
    have "tp = tp div ?gpn * ?gpn" using c(2) by (auto simp: spans_def)
    moreover have "?gpn < tp" using c(2) by (simp add: spans_def)
    moreover have "k * ?gpn \<le> ?gpn" if "k \<le> 1" for k using that c(4) mult_right_mono [of k 1 ?gpn] by simp
    ultimately show ?thesis by (metis linorder_not_le one_le_numeral zless_imp_add1_zle one_add_one)
  qed
  have sub: "set ns \<subseteq> {i \<in> set (pm_by_pool pm (pc_name c)). whole_free pm i}"
    unfolding c(6) using set_take_subset by fastforce
  have nodes: "\<exists>n. map_of (pm_nodes pm) i = Some n \<and> nd_id n = i \<and> nd_pool n = pc_name c \<and> nd_gpu_type n = t \<and> nd_total n = ?gpn \<and>
      nd_state n = NodeReady \<and> free_count pm n = nd_total n" if "i \<in> set ns" for i
  proof -
    have i: "i \<in> set (pm_by_pool pm (pc_name c))" "whole_free pm i" using sub that by auto
    obtain n where "map_of (pm_nodes pm) i = Some n" "nd_id n = i" "nd_pool n = pc_name c" "nd_gpu_type n = pc_gpu_type c" "nd_total n = ?gpn"
      using pool_node [OF ok c(1) i(1)] by metis
    then show ?thesis using i(2) c(3) by (auto simp: whole_free_def)
  qed
  have dist: "distinct ns" using ok c(6) by (auto simp: pm_ok_def)
  let ?gs = "concat (map (\<lambda>i. nd_gpus (node_at pm i)) ns)"
  have len: "length (nd_gpus (node_at pm i)) = nat ?gpn" if "i \<in> set ns" for i
    using nodes [OF that] node_total_pos(2) [OF ok] by (metis nat_int node_at_Some)
  have "length ?gs = nat ?gpn * length ns"
    by (rule length_concat_const) (use len in \<open>simp add: \<close>)
  then have "int (length ?gs) = tp" using c(2,4,5) by (simp add: spans_def) (metis add.right_neutral mult_div_mod_eq)
  moreover have "distinct ?gs"
  proof (rule distinct_concat)
    show "distinct (map (\<lambda>i. nd_gpus (node_at pm i)) ns)"
      unfolding distinct_map
    proof (intro conjI inj_onI)
      fix i j assume ij: "i \<in> set ns" "j \<in> set ns" "nd_gpus (node_at pm i) = nd_gpus (node_at pm j)"
      obtain n m where nm: "map_of (pm_nodes pm) i = Some n" "map_of (pm_nodes pm) j = Some m" using nodes ij by metis
      have "nd_gpus n \<noteq> []" using node_total_pos(1,2) [OF ok nm(1)] by auto
      then have "hd (nd_gpus n) \<in> set (nd_gpus n)" by simp
      moreover have "nd_gpus n = nd_gpus m" using ij(3) by (simp only: node_at_Some [OF nm(1)] node_at_Some [OF nm(2)])
      ultimately show "i = j" using node_of_gpu [OF ok nm] by metis
    qed (rule dist)
    show "distinct ys" if "ys \<in> set (map (\<lambda>i. nd_gpus (node_at pm i)) ns)" for ys
    proof -
      note y = that
      obtain i where i: "i \<in> set ns" "ys = nd_gpus (node_at pm i)" using y by auto
      obtain n where n: "map_of (pm_nodes pm) i = Some n" using nodes [OF i(1)] by blast
      show ?thesis using node_total_pos(3) [OF ok n] by (simp only: i(2) node_at_Some [OF n])
    qed
    show "set xs \<inter> set ys = {}" if "xs \<in> set (map (\<lambda>i. nd_gpus (node_at pm i)) ns)" "ys \<in> set (map (\<lambda>i. nd_gpus (node_at pm i)) ns)" "xs \<noteq> ys" for xs ys
    proof -
      note xy = that
      obtain i j where ij: "i \<in> set ns" "xs = nd_gpus (node_at pm i)" "j \<in> set ns" "ys = nd_gpus (node_at pm j)" using xy(1,2) by auto
      obtain n m where nm: "map_of (pm_nodes pm) i = Some n" "map_of (pm_nodes pm) j = Some m" using nodes ij by metis
      then show ?thesis using node_of_gpu [OF ok nm] ij xy(3) by auto
    qed
  qed
  moreover have "\<forall>g \<in> set ?gs. pm_gpus pm g \<noteq> None \<and> alloc_at pm g = ''''"
  proof
    fix g assume "g \<in> set ?gs"
    then obtain i where i: "i \<in> set ns" "g \<in> set (nd_gpus (node_at pm i))" by auto
    obtain n where n: "map_of (pm_nodes pm) i = Some n" "free_count pm n = nd_total n" using nodes [OF i(1)] by blast
    then show "pm_gpus pm g \<noteq> None \<and> alloc_at pm g = ''''"
      using whole_free_gpus [OF ok n] gpu_known [OF ok n(1)] i(2) by simp
  qed
  moreover have ne: "ns \<noteq> []" "length ns \<noteq> 1" using c(5) two by auto
  have "placed_on pm ns ?gs t"
    unfolding placed_on_def using ne dist nodes by (auto simp: if_splits) (metis node_at_Some)+
  moreover have "nd_id (node_at pm (ns ! 0)) = hd ns"
    using nodes [of "hd ns"] ne by (auto simp: hd_conv_nth)
  ultimately show ?thesis
    using c(2,3) nf ne unfolding placed_result_def spans_def pool_matches_def by auto
qed

end
