(* ===== verification/Placement_Ops.thy ===== *)
theory Placement_Ops
  imports Placement_Safe
begin

text \<open>
  What every operation of the placement manager does to a well-formed inventory, and that it
  leaves one: placing and its inverse, releasing, the node lifecycle and the retry of pending
  instances.
\<close>

section \<open>Placing\<close>

lemma span_warned_ok [simp]:
  "pm_ok (pm\<lparr>pm_span_warned := b\<rparr>) = pm_ok pm" "alloc_at (pm\<lparr>pm_span_warned := b\<rparr>) = alloc_at pm"
  by (simp_all add: pm_ok_def node_wf_def drain_ok_def allocated_count_def alloc_at_def fun_eq_iff)

lemma pending_ok [simp]:
  "pm_ok (pm\<lparr>pm_pending := ps\<rparr>) = pm_ok pm" "alloc_at (pm\<lparr>pm_pending := ps\<rparr>) = alloc_at pm"
  by (simp_all add: pm_ok_def node_wf_def drain_ok_def allocated_count_def alloc_at_def fun_eq_iff)

lemma placed_gpu_node:
  assumes "pm_ok pm" "placed_on pm ns gs t" "g \<in> set gs"
  obtains i n where "i \<in> set ns" "map_of (pm_nodes pm) i = Some n" "nd_state n = NodeReady" "g \<in> set (nd_gpus n)"
proof (cases "length ns = 1")
  case True
  then have "hd ns \<in> set ns" "g \<in> set (nd_gpus (node_at pm (hd ns)))" using assms(2,3) by (auto simp: placed_on_def)
  then show ?thesis using that assms(2) unfolding placed_on_def by (metis node_at_Some)
next
  case False
  then have "gs = concat (map (\<lambda>i. nd_gpus (node_at pm i)) ns)" using assms(2) by (simp add: placed_on_def)
  then obtain i where "i \<in> set ns" "g \<in> set (nd_gpus (node_at pm i))" using assms(3) by auto
  then show ?thesis using that assms(2) unfolding placed_on_def by (metis node_at_Some)
qed

lemma place_instance_cases:
  assumes ok: "pm_ok pm"
  obtains (placed) i gs t pm' where "place_instance inst gt tp pm = (Inr (i, gs, t), pm')" "1 \<le> tp"
      "placed_result pm inst gt tp (i, gs, t)" "pm' = allocate_gpus inst gs pm \<or> pm' = (allocate_gpus inst gs pm)\<lparr>pm_span_warned := True\<rparr>"
      "single_fit pm gt tp \<or> span_fit pm gt tp"
  | (failed) e where "place_instance inst gt tp pm = (Inl e, pm)" "tp < 1 \<or> (\<not> single_fit pm gt tp \<and> \<not> span_fit pm gt tp)"
proof (cases "tp < 1")
  case True
  then show ?thesis using failed by (simp add: place_instance_def)
next
  case False
  then have tp: "0 < tp" by simp
  note P1 = pass1_single_fit [OF ok tp, of gt] and P2 = pass2_span_fit [OF ok, of gt tp]
  show ?thesis
  proof (cases "pass1 pm gt tp (pm_pools pm)")
    case (Some r)
    obtain i gs t where r: "r = (i, gs, t)" by (cases r)
    have "place_instance inst gt tp pm = (Inr (i, gs, t), allocate_gpus inst gs pm)"
      using False Some r by (simp add: place_instance_def)
    then show ?thesis using placed [OF _ _ pass1_result [OF ok tp Some [unfolded r]]] False P1 Some by simp
  next
    case None
    then have ns: "\<not> single_fit pm gt tp" using P1 by simp
    show ?thesis
    proof (cases "pass2 pm gt tp (pm_pools pm)")
      case None2: None
      then have "\<exists>e. place_instance inst gt tp pm = (Inl e, pm)" using None False by (simp add: place_instance_def)
      then show ?thesis using failed ns P2 None2 by auto
    next
      case (Some r)
      obtain is0 t where r: "r = (is0, t)" by (cases r)
      let ?gs = "concat (map (\<lambda>i. nd_gpus (node_at pm i)) is0)"
      have "place_instance inst gt tp pm = (Inr (nd_id (node_at pm (is0 ! 0)), ?gs, t), (allocate_gpus inst ?gs pm)\<lparr>pm_span_warned := True\<rparr>)"
        using False None Some r by (simp add: place_instance_def Let_def)
      then show ?thesis using placed [OF _ _ pass2_result [OF ok tp ns Some [unfolded r]]] False P2 Some by simp
    qed
  qed
qed

lemma allocate_ready_ok:
  assumes ok: "pm_ok pm" and on: "placed_on pm ns gs t"
  shows "pm_ok (allocate_gpus inst gs pm)"
proof (rule pm_ok_allocate [OF ok], intro allI impI)
  fix i n assume n: "map_of (pm_nodes pm) i = Some n"
  have d: "drain_ok pm n" using ok n by (simp add: pm_ok_def)
  show "drain_ok (allocate_gpus inst gs pm) n"
  proof (cases "nd_state n = NodeDraining")
    case True
    have "alloc_at (allocate_gpus inst gs pm) g = alloc_at pm g" if g: "g \<in> set (nd_gpus n)" for g
    proof -
      have "g \<notin> set gs"
      proof
        assume "g \<in> set gs"
        then obtain j m where m: "map_of (pm_nodes pm) j = Some m" "nd_state m = NodeReady" "g \<in> set (nd_gpus m)"
          using placed_gpu_node [OF ok on] by metis
        then have "i = j" using node_of_gpu [OF ok n m(1) g m(3)] by simp
        then show False using n m True by simp
      qed
      then show ?thesis using allocate_gpus_alloc [OF gpu_known [OF ok n g]] by simp
    qed
    then have "allocated_count (allocate_gpus inst gs pm) n = allocated_count pm n" by (rule allocated_count_cong)
    then show ?thesis using d by (simp add: drain_ok_def)
  next
    case False
    then show ?thesis using d by (simp add: drain_ok_def)
  qed
qed

lemma place_ok:
  assumes ok: "pm_ok pm"
  shows "pm_ok (snd (place_instance inst gt tp pm))"
  using ok
proof (cases rule: place_instance_cases [where inst = inst and gt = gt and tp = tp])
  case (placed i gs t pm')
  then obtain ns where "placed_on pm ns gs t" by (auto simp: placed_result_def)
  then have "pm_ok (allocate_gpus inst gs pm)" by (rule allocate_ready_ok [OF ok])
  then show ?thesis using placed by auto
next
  case (failed e)
  then show ?thesis using ok by simp
qed

section \<open>Placement only takes room\<close>

text \<open>An inventory with the same nodes and no GPU freed offers no placement it did not offer before.\<close>

definition less_free :: "'c placement \<Rightarrow> 'c placement \<Rightarrow> bool" where
  "less_free pm pm' \<longleftrightarrow> pm_nodes pm' = pm_nodes pm \<and> pm_pools pm' = pm_pools pm \<and> pm_by_pool pm' = pm_by_pool pm \<and>
     (\<forall>g. alloc_at pm' g = '''' \<longrightarrow> alloc_at pm g = '''')"

lemma less_free_refl: "less_free pm pm"
  by (simp add: less_free_def)

lemma less_free_trans: "less_free a b \<Longrightarrow> less_free b c \<Longrightarrow> less_free a c"
  by (simp add: less_free_def)

lemma length_filter_mono: "(\<And>x. x \<in> set xs \<Longrightarrow> P x \<Longrightarrow> Q x) \<Longrightarrow> length (filter P xs) \<le> length (filter Q xs)"
  by (induction xs) (auto simp: le_SucI)

lemma less_free_count: "less_free pm pm' \<Longrightarrow> free_count pm' n \<le> free_count pm n"
  unfolding free_count_def using length_filter_mono [of "nd_gpus n" "\<lambda>g. alloc_at pm' g = ''''" "\<lambda>g. alloc_at pm g = ''''"]
  by (simp add: less_free_def)

lemma less_free_single: "less_free pm pm' \<Longrightarrow> single_fit pm' gt tp \<Longrightarrow> single_fit pm gt tp"
proof -
  assume l: "less_free pm pm'" and s: "single_fit pm' gt tp"
  obtain i n where n: "map_of (pm_nodes pm') i = Some n" "gt = '''' \<or> nd_gpu_type n = gt" "nd_state n = NodeReady" "tp \<le> free_count pm' n"
    using s unfolding single_fit_def by blast
  have "tp \<le> free_count pm n" using n(4) less_free_count [OF l, of n] by simp
  moreover have "map_of (pm_nodes pm) i = Some n" using n(1) l by (simp add: less_free_def)
  ultimately show ?thesis using n unfolding single_fit_def by blast
qed

lemma free_count_le: "pm_ok pm \<Longrightarrow> map_of (pm_nodes pm) i = Some n \<Longrightarrow> free_count pm n \<le> nd_total n"
  using node_total_pos(2) by (metis free_count_def length_filter_le of_nat_le_iff)

lemma less_free_span:
  assumes ok: "pm_ok pm" and l: "less_free pm pm'" and s: "span_fit pm' gt tp"
  shows "span_fit pm gt tp"
proof -
  obtain c where c: "c \<in> set (pm_pools pm)" "spans pm' gt tp c" using s l by (auto simp: span_fit_def less_free_def)
  have e: "node_at pm' i = node_at pm i" for i using l by (simp add: node_at_def less_free_def)
  have "whole_free pm i" if i: "i \<in> set (pm_by_pool pm (pc_name c))" "whole_free pm' i" for i
  proof -
    obtain n where n: "map_of (pm_nodes pm) i = Some n" using pool_node [OF ok c(1) i(1)] by metis
    have w: "nd_state n = NodeReady" "free_count pm' n = nd_total n" using i(2) by (simp_all add: whole_free_def e node_at_Some [OF n])
    then have "free_count pm n = nd_total n" using less_free_count [OF l, of n] free_count_le [OF ok n] by linarith
    then show ?thesis using w by (simp add: whole_free_def node_at_Some [OF n])
  qed
  then have "length (filter (whole_free pm') (pm_by_pool pm (pc_name c))) \<le> length (filter (whole_free pm) (pm_by_pool pm (pc_name c)))"
    by (rule length_filter_mono)
  then have "spans pm gt tp c" using c(2) l by (auto simp: spans_def less_free_def)
  then show ?thesis using c(1) by (auto simp: span_fit_def)
qed

lemma alloc_at_taken:
  "alloc_at (allocate_gpus inst gs pm) g = '''' \<Longrightarrow> \<forall>g \<in> set gs. alloc_at pm g = '''' \<Longrightarrow> alloc_at pm g = ''''"
  by (cases "g \<in> set gs") (auto simp: alloc_at_def allocate_gpus_def)

lemma place_less_free:
  assumes "pm_ok pm"
  shows "less_free pm (snd (place_instance inst gt tp pm))"
  using assms
proof (cases rule: place_instance_cases [where inst = inst and gt = gt and tp = tp])
  case (placed i gs t pm')
  then have "\<forall>g \<in> set gs. alloc_at pm g = ''''" by (simp add: placed_result_def)
  then show ?thesis using placed(1,4) alloc_at_taken by (auto simp: less_free_def)
next
  case (failed e)
  then show ?thesis by (simp add: less_free_refl)
qed

section \<open>Releasing\<close>

lemma free_instance_alloc:
  assumes "pm_ok pm" "pm_gpus pm g \<noteq> None"
  shows "alloc_at (free_instance inst pm) g = (if alloc_at pm g = inst then '''' else alloc_at pm g)"
proof -
  obtain x where x: "pm_gpus pm g = Some x" using assms(2) by blast
  then obtain n where n: "map_of (pm_nodes pm) (gp_node x) = Some n" "g \<in> set (nd_gpus n)" using assms(1) unfolding pm_ok_def by blast
  have "(gp_node x, n) \<in> set (pm_nodes pm)" using n(1) by (rule map_of_SomeD)
  then have "g \<in> set (concat (map (\<lambda>e. nd_gpus (snd e)) (pm_nodes pm)))" using n(2) by force
  then show ?thesis unfolding free_instance_def by (subst allocate_gpus_alloc [OF assms(2)]) auto
qed

lemma free_instance_fields [simp]:
  "pm_pools (free_instance inst pm) = pm_pools pm" "pm_nodes (free_instance inst pm) = pm_nodes pm"
  "pm_by_pool (free_instance inst pm) = pm_by_pool pm" "pm_next (free_instance inst pm) = pm_next pm"
  "pm_pending (free_instance inst pm) = pm_pending pm"
  by (simp_all add: free_instance_def)

lemma free_instance_gpus: "(pm_gpus (free_instance inst pm) g = None) = (pm_gpus pm g = None)"
  by (auto simp: free_instance_def allocate_gpus_def)

text \<open>All of the invariant but the drain flags, which a release may leave set until it fires them.\<close>

definition core_ok :: "'c placement \<Rightarrow> bool" where
  "core_ok pm \<longleftrightarrow> pools_ok (pm_pools pm) \<and> distinct (gm_keys (pm_nodes pm)) \<and>
     (\<forall>i n. map_of (pm_nodes pm) i = Some n \<longrightarrow> node_wf pm i n) \<and>
     (\<forall>p i. i \<in> set (pm_by_pool pm p) \<longleftrightarrow> (\<exists>n. map_of (pm_nodes pm) i = Some n \<and> nd_pool n = p)) \<and>
     (\<forall>p. distinct (pm_by_pool pm p)) \<and>
     (\<forall>g x. pm_gpus pm g = Some x \<longrightarrow> (\<exists>n. map_of (pm_nodes pm) (gp_node x) = Some n \<and> g \<in> set (nd_gpus n)))"

lemma pm_ok_core: "pm_ok pm \<longleftrightarrow> core_ok pm \<and> (\<forall>i n. map_of (pm_nodes pm) i = Some n \<longrightarrow> drain_ok pm n)"
  unfolding pm_ok_def core_ok_def by blast

lemma core_ok_allocate: "core_ok pm \<Longrightarrow> core_ok (allocate_gpus inst gs pm)"
proof -
  assume a: "core_ok pm"
  have "\<exists>n. map_of (pm_nodes pm) (gp_node x) = Some n \<and> g \<in> set (nd_gpus n)" if "pm_gpus (allocate_gpus inst gs pm) g = Some x" for g x
  proof -
    have "\<exists>y. pm_gpus pm g = Some y \<and> gp_node y = gp_node x"
      using that by (cases "pm_gpus pm g") (auto simp: allocate_gpus_def split: if_splits)
    then obtain y where "pm_gpus pm g = Some y" "gp_node y = gp_node x" by blast
    then show ?thesis using a unfolding core_ok_def by metis
  qed
  then show ?thesis using a unfolding core_ok_def by simp
qed

text \<open>A node replaced by one that differs in its state and its flag.\<close>

definition same_node :: "node \<Rightarrow> node \<Rightarrow> bool" where
  "same_node n n' \<longleftrightarrow> nd_id n' = nd_id n \<and> nd_pool n' = nd_pool n \<and> nd_gpu_type n' = nd_gpu_type n \<and> nd_total n' = nd_total n \<and>
     nd_gpus n' = nd_gpus n"

lemma set_node_get:
  "map_of (pm_nodes (set_node i f pm)) j = (if j = i then Some (f (node_at pm i)) else map_of (pm_nodes pm) j)"
  by (simp add: set_node_def)

lemma set_node_fields [simp]:
  "pm_pools (set_node i f pm) = pm_pools pm" "pm_by_pool (set_node i f pm) = pm_by_pool pm" "pm_gpus (set_node i f pm) = pm_gpus pm"
  "pm_next (set_node i f pm) = pm_next pm" "pm_pending (set_node i f pm) = pm_pending pm" "alloc_at (set_node i f pm) = alloc_at pm"
  "allocated_count (set_node i f pm) = allocated_count pm" "free_count (set_node i f pm) = free_count pm"
  by (simp_all add: set_node_def alloc_at_def allocated_count_def free_count_def fun_eq_iff)

lemma core_ok_set_node:
  assumes ok: "core_ok pm" and n: "map_of (pm_nodes pm) i = Some n" and s: "same_node n (f n)"
  shows "core_ok (set_node i f pm)"
proof -
  have g: "map_of (pm_nodes (set_node i f pm)) j = (if j = i then Some (f n) else map_of (pm_nodes pm) j)" for j
    using n by (simp add: set_node_get)
  have wf: "node_wf (set_node i f pm) j m = node_wf pm j m" for j m by (simp add: node_wf_def)
  have "node_wf pm i n" using ok n by (simp add: core_ok_def)
  then have fn: "node_wf pm i (f n)" using s by (simp add: node_wf_def same_node_def)
  have ex: "(\<exists>m. map_of (pm_nodes (set_node i f pm)) j = Some m \<and> P m) \<longleftrightarrow> (\<exists>m. map_of (pm_nodes pm) j = Some m \<and> P m)"
    if "P (f n) = P n" for j P using n that by (cases "j = i") (simp_all add: g)
  have e1: "(\<exists>m. map_of (pm_nodes (set_node i f pm)) j = Some m \<and> nd_pool m = p) \<longleftrightarrow> (\<exists>m. map_of (pm_nodes pm) j = Some m \<and> nd_pool m = p)" for j p
    by (rule ex) (use s in \<open>simp add: same_node_def\<close>)
  have e2: "(\<exists>m. map_of (pm_nodes (set_node i f pm)) j = Some m \<and> h \<in> set (nd_gpus m)) \<longleftrightarrow> (\<exists>m. map_of (pm_nodes pm) j = Some m \<and> h \<in> set (nd_gpus m))" for j h
    by (rule ex) (use s in \<open>simp add: same_node_def\<close>)
  have keys: "gm_keys (pm_nodes (set_node i f pm)) = gm_keys (pm_nodes pm)"
    unfolding set_node_def using gm_update_present [OF n] by simp
  show ?thesis
    unfolding core_ok_def
  proof (intro conjI)
    show "\<forall>j m. map_of (pm_nodes (set_node i f pm)) j = Some m \<longrightarrow> node_wf (set_node i f pm) j m"
      using ok fn unfolding core_ok_def wf g by auto
    show "\<forall>p j. j \<in> set (pm_by_pool (set_node i f pm) p) \<longleftrightarrow> (\<exists>m. map_of (pm_nodes (set_node i f pm)) j = Some m \<and> nd_pool m = p)"
      using ok unfolding core_ok_def set_node_fields e1 by blast
    show "\<forall>h x. pm_gpus (set_node i f pm) h = Some x \<longrightarrow> (\<exists>m. map_of (pm_nodes (set_node i f pm)) (gp_node x) = Some m \<and> h \<in> set (nd_gpus m))"
      using ok unfolding core_ok_def set_node_fields e2 by blast
    show "pools_ok (pm_pools (set_node i f pm))" using ok by (simp add: core_ok_def)
    show "distinct (gm_keys (pm_nodes (set_node i f pm)))" unfolding keys using ok by (simp add: core_ok_def)
    show "\<forall>p. distinct (pm_by_pool (set_node i f pm) p)" using ok by (simp add: core_ok_def)
  qed
qed

text \<open>The drain checks fire exactly the nodes that are due, and clear their flags.\<close>

definition drain_due :: "'c placement \<Rightarrow> string \<Rightarrow> bool" where
  "drain_due pm i \<longleftrightarrow> nd_state (node_at pm i) = NodeDraining \<and> allocated_count pm (node_at pm i) = 0 \<and> nd_drain (node_at pm i)"

lemma fire_drains_spec:
  assumes "core_ok pm" "distinct ns" "\<forall>i \<in> set ns. map_of (pm_nodes pm) i \<noteq> None" "fire_drains ns pm = (fired, pm')"
  shows "fired = filter (drain_due pm) ns \<and> core_ok pm' \<and> pm_gpus pm' = pm_gpus pm \<and> pm_pending pm' = pm_pending pm \<and>
    (\<forall>j. map_of (pm_nodes pm') j =
       (if j \<in> set fired then map_option (\<lambda>n. n\<lparr>nd_drain := False\<rparr>) (map_of (pm_nodes pm) j) else map_of (pm_nodes pm) j))"
  using assms
proof (induction ns arbitrary: pm fired pm')
  case (Cons i ns)
  obtain n where n: "map_of (pm_nodes pm) i = Some n" using Cons.prems(3) by auto
  show ?case
  proof (cases "drain_due pm i")
    case False
    then have "fire_drains ns pm = (fired, pm')" using Cons.prems(4) by (auto simp: drain_due_def Let_def split: if_splits)
    then show ?thesis using Cons.IH [of pm fired pm'] Cons.prems(1,2,3) False by simp
  next
    case True
    let ?pm1 = "set_node i (\<lambda>n. n\<lparr>nd_drain := False\<rparr>) pm"
    obtain f1 where f1: "fire_drains ns ?pm1 = (f1, pm')" "fired = i # f1"
      using Cons.prems(4) True by (auto simp: drain_due_def Let_def split: prod.splits)
    have ok1: "core_ok ?pm1" by (rule core_ok_set_node [OF Cons.prems(1) n]) (simp add: same_node_def)
    have g: "map_of (pm_nodes ?pm1) j = (if j = i then Some (n\<lparr>nd_drain := False\<rparr>) else map_of (pm_nodes pm) j)" for j
      using n by (simp add: set_node_get)
    have "\<forall>j \<in> set ns. map_of (pm_nodes ?pm1) j \<noteq> None" using Cons.prems(3) unfolding g by auto
    note ih = Cons.IH [OF ok1 _ this f1(1)]
    have "drain_due ?pm1 j = drain_due pm j" if "j \<noteq> i" for j
      using that by (simp add: drain_due_def node_at_def g)
    moreover have "\<forall>j \<in> set ns. j \<noteq> i" using Cons.prems(2) by auto
    ultimately have flt: "filter (drain_due ?pm1) ns = filter (drain_due pm) ns" by (intro filter_cong refl) blast
    have inn: "i \<notin> set f1" using ih Cons.prems(2) by auto
    show ?thesis
    proof (intro conjI allI)
      fix j
      show "map_of (pm_nodes pm') j =
         (if j \<in> set fired then map_option (\<lambda>n. n\<lparr>nd_drain := False\<rparr>) (map_of (pm_nodes pm) j) else map_of (pm_nodes pm) j)"
        using ih Cons.prems(2) inn f1(2) n by (cases "j = i") (simp_all add: g)
    qed (use ih Cons.prems(2) f1(2) True flt in auto)
  qed
qed simp

lemma held_by_count:
  assumes "\<not> held_by inst pm n" "pm_ok pm" "map_of (pm_nodes pm) i = Some n"
  shows "allocated_count (free_instance inst pm) n = allocated_count pm n"
proof (rule allocated_count_cong)
  fix g assume g: "g \<in> set (nd_gpus n)"
  then show "alloc_at (free_instance inst pm) g = alloc_at pm g"
    using free_instance_alloc [OF assms(2) gpu_known [OF assms(2,3) g]] assms(1) by (auto simp: held_by_def)
qed

lemma free_instance_count_le:
  assumes "pm_ok pm" "map_of (pm_nodes pm) i = Some n"
  shows "allocated_count (free_instance inst pm) n \<le> allocated_count pm n"
proof -
  have "length (filter (\<lambda>g. alloc_at (free_instance inst pm) g \<noteq> '''') (nd_gpus n)) \<le> length (filter (\<lambda>g. alloc_at pm g \<noteq> '''') (nd_gpus n))"
    by (rule length_filter_mono) (use free_instance_alloc [OF assms(1) gpu_known [OF assms]] in \<open>auto split: if_splits\<close>)
  then show ?thesis by (simp add: allocated_count_def)
qed

lemma free_release_ok:
  assumes ok: "pm_ok pm" and r: "release_instance inst pm = (r, pm')"
  shows "pm_ok pm'"
    "pm_gpus pm g \<noteq> None \<Longrightarrow> alloc_at pm' g = (if alloc_at pm g = inst then '''' else alloc_at pm g)"
    "(\<exists>e. r = Inl e) \<longleftrightarrow> (\<forall>i n. map_of (pm_nodes pm) i = Some n \<longrightarrow> \<not> held_by inst pm n)"
    "r = Inr fired \<Longrightarrow> sorted fired \<and> distinct fired \<and> (\<forall>i. i \<in> set fired \<longleftrightarrow>
       (\<exists>n. map_of (pm_nodes pm) i = Some n \<and> held_by inst pm n \<and> nd_drain n \<and> allocated_count pm' n = 0))"
    "pm_pending pm' = pm_pending pm"
proof -
  let ?t = "map fst (filter (\<lambda>e. held_by inst pm (snd e)) (pm_nodes pm))" and ?pm1 = "free_instance inst pm"
  have core: "core_ok pm" using ok by (simp only: pm_ok_core)
  then have dk: "distinct (gm_keys (pm_nodes pm))" by (simp only: core_ok_def)
  have dt: "distinct ?t" using dk by (simp add: distinct_map inj_on_def)
  have mem: "i \<in> set ?t \<longleftrightarrow> (\<exists>n. map_of (pm_nodes pm) i = Some n \<and> held_by inst pm n)" for i
    using dk by (auto simp: image_iff)
  have core1: "core_ok ?pm1" using core unfolding free_instance_def by (rule core_ok_allocate)
  obtain fired0 pm2 where f: "fire_drains (sort_strings ?t) ?pm1 = (fired0, pm2)" by fastforce
  have "distinct (sort_strings ?t)" using dt by simp
  moreover have "\<forall>i \<in> set (sort_strings ?t). map_of (pm_nodes ?pm1) i \<noteq> None"
    unfolding sort_strings_simps(1) free_instance_fields using mem by blast
  ultimately have F: "fired0 = filter (drain_due ?pm1) (sort_strings ?t)" "core_ok pm2" "pm_gpus pm2 = pm_gpus ?pm1" "pm_pending pm2 = pm_pending pm"
      "\<And>j. map_of (pm_nodes pm2) j = (if j \<in> set fired0 then map_option (\<lambda>n. n\<lparr>nd_drain := False\<rparr>) (map_of (pm_nodes pm) j) else map_of (pm_nodes pm) j)"
    using fire_drains_spec [OF core1 _ _ f] by simp_all
  have al: "alloc_at pm2 = alloc_at ?pm1" "allocated_count pm2 = allocated_count ?pm1" using F(3) by (simp_all add: alloc_at_def allocated_count_def fun_eq_iff)
  have e0: "fire_drains (sort_strings ?t) ?pm1 = ([], ?pm1)" if "?t = []" using that by (simp add: sort_strings_def)
  have p': "pm' = pm2" "r = (if ?t = [] then Inl ''ReleaseInstance: no GPUs found for this instance'' else Inr fired0)"
    using r f e0 by (auto simp: release_instance_def Let_def split: if_splits prod.splits)
  have due: "drain_due ?pm1 i \<longleftrightarrow> nd_drain n \<and> allocated_count ?pm1 n = 0" if n: "map_of (pm_nodes pm) i = Some n" for i n
  proof -
    have "drain_ok pm n" using ok n by (simp add: pm_ok_core)
    then show ?thesis using n by (auto simp: drain_due_def drain_ok_def node_at_def)
  qed
  have fm: "i \<in> set fired0 \<longleftrightarrow> (\<exists>n. map_of (pm_nodes pm) i = Some n \<and> held_by inst pm n \<and> nd_drain n \<and> allocated_count ?pm1 n = 0)" for i
    unfolding F(1) set_filter sort_strings_simps(1) using mem [of i] due by auto
  show "pm_ok pm'"
    unfolding p'(1) pm_ok_core
  proof (intro conjI allI impI)
    fix j m assume m: "map_of (pm_nodes pm2) j = Some m"
    then obtain n where n: "map_of (pm_nodes pm) j = Some n" unfolding F(5) by (auto split: if_splits)
    have d: "drain_ok pm n" using ok n by (simp add: pm_ok_core)
    show "drain_ok pm2 m"
    proof (cases "j \<in> set fired0")
      case True
      then have "m = n\<lparr>nd_drain := False\<rparr>" using m n by (simp add: F(5))
      moreover have "allocated_count ?pm1 n = 0" using True n fm by auto
      ultimately show ?thesis by (simp add: drain_ok_def al(2) allocated_count_def)
    next
      case False
      then have mn: "m = n" using m n by (simp add: F(5))
      have nn: "0 \<le> allocated_count ?pm1 n" by (simp add: allocated_count_def)
      show ?thesis
      proof (cases "held_by inst pm n")
        case True
        then have "\<not> (nd_drain n \<and> allocated_count ?pm1 n = 0)" using False n fm by blast
        then show ?thesis using d free_instance_count_le [OF ok n, of inst] nn unfolding mn drain_ok_def al(2) by auto
      next
        case False
        then show ?thesis using d held_by_count [OF False ok n] unfolding mn drain_ok_def al(2) by simp
      qed
    qed
  qed (rule F(2))
  show "alloc_at pm' g = (if alloc_at pm g = inst then '''' else alloc_at pm g)" if "pm_gpus pm g \<noteq> None"
    unfolding p'(1) al(1) by (rule free_instance_alloc [OF ok that])
  show "(\<exists>e. r = Inl e) \<longleftrightarrow> (\<forall>i n. map_of (pm_nodes pm) i = Some n \<longrightarrow> \<not> held_by inst pm n)"
  proof -
    have "(\<exists>e. (if b then Inl x else Inr y) = (Inl e :: string + string list)) \<longleftrightarrow> b" for b x y by simp
    then have "(\<exists>e. r = Inl e) \<longleftrightarrow> ?t = []" unfolding p'(2) .
    also have "(xs = []) = (\<forall>i. i \<notin> set xs)" for xs :: "string list" by (cases xs) auto
    finally show ?thesis unfolding mem by blast
  qed
  show "sorted fired \<and> distinct fired \<and> (\<forall>i. i \<in> set fired \<longleftrightarrow>
       (\<exists>n. map_of (pm_nodes pm) i = Some n \<and> held_by inst pm n \<and> nd_drain n \<and> allocated_count pm' n = 0))" if "r = Inr fired"
  proof -
    have "fired = fired0" using that p'(2) by (auto split: if_splits)
    moreover have "sorted fired0" "distinct fired0" using dt unfolding F(1) by (simp_all add: sorted_wrt_filter)
    ultimately show ?thesis using fm unfolding p'(1) al(2) by blast
  qed
  show "pm_pending pm' = pm_pending pm" using F(4) p'(1) by simp
qed

section \<open>Node lifecycle\<close>

lemma core_drain_ok_set_node:
  assumes ok: "pm_ok pm" and n: "map_of (pm_nodes pm) i = Some n" and s: "same_node n m" and d: "drain_ok pm m"
  shows "pm_ok (set_node i (\<lambda>_. m) pm)"
proof -
  have "core_ok pm" using ok by (simp only: pm_ok_core)
  then have "core_ok (set_node i (\<lambda>_. m) pm)" by (rule core_ok_set_node [OF _ n s])
  moreover have "drain_ok (set_node i (\<lambda>_. m) pm) k = drain_ok pm k" for k by (simp add: drain_ok_def)
  ultimately show ?thesis
    unfolding pm_ok_core set_node_get using d ok unfolding pm_ok_core by auto
qed

lemma same_node_upd [simp]: "same_node n (n\<lparr>nd_state := s\<rparr>)" "same_node n (n\<lparr>nd_state := s, nd_drain := b\<rparr>)"
  by (simp_all add: same_node_def)

lemma allocated_count_upd [simp]:
  "allocated_count pm (n\<lparr>nd_state := s\<rparr>) = allocated_count pm n" "allocated_count pm (n\<lparr>nd_drain := b\<rparr>) = allocated_count pm n"
  by (simp_all add: allocated_count_def)

lemma allocated_nonneg: "0 \<le> allocated_count pm n"
  by (simp add: allocated_count_def)

text \<open>Draining fires at once when the node is empty, and stores the callback otherwise.\<close>

lemma drain_node_ok:
  assumes ok: "pm_ok pm"
  obtains (unknown) e where "drain_node i pm = Inr (Inl e, pm)" "\<forall>n. map_of (pm_nodes pm) i = Some n \<longrightarrow> nd_state n \<noteq> NodeReady"
  | (drained) n pm' where "drain_node i pm = Inr (Inr (if allocated_count pm n = 0 then [i] else []), pm')"
      "map_of (pm_nodes pm) i = Some n" "nd_state n = NodeReady" "pm_ok pm'" "pm_gpus pm' = pm_gpus pm" "pm_pending pm' = pm_pending pm"
      "\<exists>m. map_of (pm_nodes pm') i = Some m \<and> nd_state m = NodeDraining \<and> (nd_drain m \<longleftrightarrow> 0 < allocated_count pm n)"
proof (cases "map_of (pm_nodes pm) i")
  case None
  then show ?thesis using unknown by (simp add: drain_node_def)
next
  case (Some n)
  show ?thesis
  proof (cases "nd_state n = NodeReady")
    case False
    then show ?thesis using unknown Some by (simp add: drain_node_def)
  next
    case True
    have nd: "\<not> nd_drain n" using ok Some True by (auto simp: pm_ok_core drain_ok_def)
    let ?m = "n\<lparr>nd_state := NodeDraining, nd_drain := 0 < allocated_count pm n\<rparr>"
    have m: "?m = (if allocated_count pm n = 0 then n\<lparr>nd_state := NodeDraining\<rparr> else n\<lparr>nd_state := NodeDraining, nd_drain := True\<rparr>)"
      using nd allocated_nonneg [of pm n] by (cases n) auto
    have "drain_node i pm = Inr (Inr (if allocated_count pm n = 0 then [i] else []), set_node i (\<lambda>_. ?m) pm)"
      unfolding m using Some True by (simp add: drain_node_def transition_node_def valid_node_transitions_def)
    moreover have "pm_ok (set_node i (\<lambda>_. ?m) pm)"
      by (rule core_drain_ok_set_node [OF ok Some]) (simp_all add: drain_ok_def)
    ultimately show ?thesis using drained [OF _ Some True] by (simp add: set_node_get)
  qed
qed

lemma mark_node_ready_ok:
  assumes ok: "pm_ok pm" and r: "mark_node_ready i pm = Inr (e, pm')"
  shows "pm_ok pm'"
proof (cases "map_of (pm_nodes pm) i")
  case None
  then show ?thesis using ok r by (simp add: mark_node_ready_def)
next
  case (Some n)
  then have e: "nd_state n = NodeProvisioning" "pm' = set_node i (\<lambda>_. n\<lparr>nd_state := NodeReady\<rparr>) pm"
    using r by (auto simp: mark_node_ready_def transition_node_def valid_node_transitions_def split: if_splits node_state.splits)
  have "\<not> nd_drain n" using ok Some e(1) by (auto simp: pm_ok_core drain_ok_def)
  then show ?thesis unfolding e(2) by (intro core_drain_ok_set_node [OF ok Some]) (simp_all add: drain_ok_def)
qed

lemma drain_ok_free:
  assumes ok: "pm_ok pm" and n: "map_of (pm_nodes pm) i = Some n" and m: "map_of (pm_nodes pm) j = Some m" and ne: "j \<noteq> i"
  shows "drain_ok (allocate_gpus '''' (nd_gpus n) pm) m"
proof -
  have "alloc_at (allocate_gpus '''' (nd_gpus n) pm) g = alloc_at pm g" if g: "g \<in> set (nd_gpus m)" for g
    using allocate_gpus_alloc [OF gpu_known [OF ok m g]] node_of_gpu [OF ok n m] ne g by auto
  then have "allocated_count (allocate_gpus '''' (nd_gpus n) pm) m = allocated_count pm m" by (rule allocated_count_cong)
  then show ?thesis using ok m by (simp add: pm_ok_core drain_ok_def)
qed

lemma mark_node_terminated_ok:
  assumes ok: "pm_ok pm" and r: "mark_node_terminated i pm = Inr (e, pm')"
  shows "pm_ok pm'"
proof (cases "map_of (pm_nodes pm) i")
  case None
  then show ?thesis using ok r by (simp add: mark_node_terminated_def)
next
  case (Some n)
  let ?pm1 = "allocate_gpus '''' (nd_gpus n) pm" and ?m = "n\<lparr>nd_state := NodeTerminated, nd_drain := False\<rparr>"
  have p': "pm' = set_node i (\<lambda>_. ?m) ?pm1"
  proof (cases "nd_drain n")
    case True
    then show ?thesis using r Some by (auto simp: mark_node_terminated_def transition_node_def Let_def split: if_splits)
  next
    case False
    then have m: "?m = n\<lparr>nd_state := NodeTerminated\<rparr>" by (cases n) simp
    show ?thesis unfolding m using r Some False by (auto simp: mark_node_terminated_def transition_node_def Let_def split: if_splits)
  qed
  have core: "core_ok ?pm1" using ok core_ok_allocate pm_ok_core by blast
  have n1: "map_of (pm_nodes ?pm1) i = Some n" using Some by simp
  have "core_ok pm'" unfolding p' by (rule core_ok_set_node [OF core n1]) simp
  moreover have "drain_ok pm' k" if "map_of (pm_nodes pm') j = Some k" for j k
  proof (cases "j = i")
    case True
    then have "k = ?m" using that unfolding p' set_node_get by simp
    then show ?thesis by (simp add: drain_ok_def)
  next
    case False
    then have "map_of (pm_nodes pm) j = Some k" using that unfolding p' set_node_get by simp
    then have "drain_ok ?pm1 k" using drain_ok_free [OF ok Some _ False] by blast
    then show ?thesis unfolding p' by (simp add: drain_ok_def)
  qed
  ultimately show ?thesis by (simp add: pm_ok_core)
qed

section \<open>New nodes\<close>

lemma fold_store:
  "foldl (\<lambda>m g. m(g \<mapsto> F g)) m gs g = (if g \<in> set gs then Some (F g) else m g)"
  by (induction gs arbitrary: m) auto

lemma add_node_ok:
  assumes ok: "pm_ok pm" and c: "c \<in> set (pm_pools pm)" and st: "st \<noteq> NodeDraining"
  shows "pm_ok (add_node c st clock pm)" "pm_pools (add_node c st clock pm) = pm_pools pm"
    "\<And>g. pm_gpus pm g \<noteq> None \<Longrightarrow> alloc_at (add_node c st clock pm) g = alloc_at pm g"
proof -
  define idx where "idx = pm_next pm (pc_name c)"
  define nid where "nid = node_name (pc_name c) idx"
  define ids where "ids = map (gpu_name nid) [0..<nat (pc_gpus_per_node c)]"
  define F where "F = (\<lambda>g. \<lparr>gp_id = g, gp_node = nid, gp_pool = pc_name c, gp_type = pc_gpu_type c, gp_memory = pc_memory c, gp_alloc = ''''\<rparr>)"
  define n where "n = \<lparr>nd_id = nid, nd_pool = pc_name c, nd_gpu_type = pc_gpu_type c, nd_total = pc_gpus_per_node c, nd_gpus = ids,
           nd_state = st, nd_cost_start = clock, nd_drain = False\<rparr>"
  define pm' where "pm' = add_node c st clock pm"
  have p': "pm' = pm\<lparr>pm_next := (pm_next pm)(pc_name c := idx + 1), pm_gpus := foldl (\<lambda>m g. m(g \<mapsto> F g)) (pm_gpus pm) ids,
      pm_nodes := AList.update nid n (pm_nodes pm), pm_by_pool := (pm_by_pool pm)(pc_name c := pm_by_pool pm (pc_name c) @ [nid])\<rparr>"
    by (simp add: pm'_def add_node_def new_node_def register_node_def Let_def n_def ids_def nid_def idx_def F_def)
  have fresh: "map_of (pm_nodes pm) nid = None"
  proof (rule ccontr)
    assume "map_of (pm_nodes pm) nid \<noteq> None"
    then obtain m where m: "map_of (pm_nodes pm) nid = Some m" by blast
    then have "node_wf pm nid m" by (rule pm_node_wf [OF ok])
    then obtain k where "k < pm_next pm (nd_pool m)" "nid = node_name (nd_pool m) k" by (auto simp: node_wf_def)
    then show False unfolding nid_def node_name_inj by (auto simp: idx_def)
  qed
  have gfresh: "g \<notin> set ids" if g: "pm_gpus pm g = Some x" for g x
  proof
    assume i: "g \<in> set ids"
    obtain m where m: "map_of (pm_nodes pm) (gp_node x) = Some m" "g \<in> set (nd_gpus m)" using ok g unfolding pm_ok_def by blast
    have "nd_gpus m = map (gpu_name (gp_node x)) [0..<nat (nd_total m)]" using pm_node_wf [OF ok m(1)] by (simp add: node_wf_def)
    then have "gp_node x = nid" using m(2) i by (auto simp: ids_def gpu_name_inj)
    then show False using fresh m(1) by simp
  qed
  have G: "pm_gpus pm' g = (if g \<in> set ids then Some (F g) else pm_gpus pm g)" for g by (simp add: p' fold_store)
  have N: "map_of (pm_nodes pm') j = (if j = nid then Some n else map_of (pm_nodes pm) j)" for j by (simp add: p')
  show al: "\<And>g. pm_gpus pm g \<noteq> None \<Longrightarrow> alloc_at (add_node c st clock pm) g = alloc_at pm g"
    using gfresh unfolding pm'_def [symmetric] alloc_at_def G by fastforce
  show "pm_pools (add_node c st clock pm) = pm_pools pm" unfolding pm'_def [symmetric] by (simp add: p')
  have old: "node_wf pm' j m" if m: "map_of (pm_nodes pm) j = Some m" for j m
  proof -
    have w: "node_wf pm j m" by (rule pm_node_wf [OF ok m])
    have "\<exists>x. pm_gpus pm' g = Some x \<and> gp_node x = j" if "g \<in> set (nd_gpus m)" for g
      using w that gfresh unfolding node_wf_def G by metis
    moreover have "\<exists>k < pm_next pm' (nd_pool m). j = node_name (nd_pool m) k"
    proof -
      obtain k where "k < pm_next pm (nd_pool m)" "j = node_name (nd_pool m) k" using w by (auto simp: node_wf_def)
      then show ?thesis by (intro exI [of _ k]) (auto simp: p' idx_def)
    qed
    ultimately show ?thesis using w unfolding node_wf_def by (simp add: p')
  qed
  have oldd: "drain_ok pm' m" if m: "map_of (pm_nodes pm) j = Some m" for j m
  proof -
    have "allocated_count pm' m = allocated_count pm m"
      by (rule allocated_count_cong) (use al gpu_known [OF ok m] in \<open>simp add: pm'_def\<close>)
    then show ?thesis using ok m by (simp add: pm_ok_core drain_ok_def)
  qed
  have new: "node_wf pm' nid n" "drain_ok pm' n"
  proof -
    show "node_wf pm' nid n"
      unfolding node_wf_def
      by (intro conjI) (use c in \<open>auto simp: n_def ids_def p' nid_def G [unfolded p'] fold_store F_def\<close>)
    show "drain_ok pm' n" using st by (simp add: drain_ok_def n_def)
  qed
  show "pm_ok (add_node c st clock pm)"
    unfolding pm'_def [symmetric] pm_ok_core core_ok_def
  proof (intro conjI allI)
    show "pools_ok (pm_pools pm')" using ok by (simp add: pm_ok_def p')
    show "distinct (gm_keys (pm_nodes pm'))" using ok gm_update_distinct by (auto simp: pm_ok_def p')
    show "map_of (pm_nodes pm') j = Some m \<longrightarrow> node_wf pm' j m" for j m unfolding N using new old by auto
    show "map_of (pm_nodes pm') j = Some m \<longrightarrow> drain_ok pm' m" for j m unfolding N using new oldd by auto
    have bp: "pm_by_pool pm' p = (if p = pc_name c then pm_by_pool pm p @ [nid] else pm_by_pool pm p)" for p by (simp add: p')
    have bi: "j \<in> set (pm_by_pool pm p) \<longleftrightarrow> (\<exists>m. map_of (pm_nodes pm) j = Some m \<and> nd_pool m = p)" for j p using ok by (simp only: pm_ok_def)
    show "j \<in> set (pm_by_pool pm' p) \<longleftrightarrow> (\<exists>m. map_of (pm_nodes pm') j = Some m \<and> nd_pool m = p)" for p j
      unfolding bp N using bi [of j p] fresh by (auto simp: n_def)
    show "distinct (pm_by_pool pm' p)" for p
      unfolding bp using bi [of nid p] fresh ok by (auto simp: pm_ok_def)
    show "pm_gpus pm' g = Some x \<longrightarrow> (\<exists>m. map_of (pm_nodes pm') (gp_node x) = Some m \<and> g \<in> set (nd_gpus m))" for g x
    proof (cases "g \<in> set ids")
      case True
      then show ?thesis unfolding G N by (auto simp: F_def n_def)
    next
      case False
      have "\<exists>m. map_of (pm_nodes pm) (gp_node x) = Some m \<and> g \<in> set (nd_gpus m)" if "pm_gpus pm g = Some x"
        using ok that unfolding pm_ok_def by blast
      then show ?thesis unfolding G N using False fresh by auto
    qed
  qed
qed

end
