(* ===== verification/Placement_Properties.thy ===== *)
theory Placement_Properties
  imports Placement_Ops
begin

text \<open>
  The retry of pending instances, every inventory the manager can reach, and the properties of
  placement: INV-A, exactness and atomicity of \<open>PlaceInstance\<close>, its inverse, completeness of the
  retry.
\<close>

section \<open>Retrying\<close>

definition cannot_place :: "'c placement \<Rightarrow> 'c pending_instance \<Rightarrow> bool" where
  "cannot_place pm p \<longleftrightarrow> pi_tp p < 1 \<or> (\<not> single_fit pm (pi_gpu_type p) (pi_tp p) \<and> \<not> span_fit pm (pi_gpu_type p) (pi_tp p))"

lemma cannot_place_mono: "pm_ok pm \<Longrightarrow> less_free pm pm' \<Longrightarrow> cannot_place pm p \<Longrightarrow> cannot_place pm' p"
  using less_free_single less_free_span unfolding cannot_place_def by blast

lemma mset_swap_remove:
  assumes "i < length ps"
  shows "mset (take (length ps - 1) (ps[i := ps ! (length ps - 1)])) + {#ps ! i#} = mset ps"
proof -
  have "ps \<noteq> []" using assms by auto
  then obtain xs l where ps: "ps = xs @ [l]" by (metis rev_exhaust)
  show ?thesis
  proof (cases "i = length xs")
    case True
    then show ?thesis by (simp add: ps)
  next
    case False
    then have i: "i < length xs" using assms by (simp add: ps)
    then have "mset (xs[i := l]) = add_mset l (mset xs - {#xs ! i#})" by (rule mset_update)
    moreover have "xs ! i \<in># mset xs" using i by simp
    ultimately have "mset (xs[i := l]) + {#xs ! i#} = add_mset l (mset xs)" by simp
    then show ?thesis using i by (simp add: ps list_update_append1 nth_append)
  qed
qed

abbreviation pending_key :: "'c pending_instance \<Rightarrow> string \<times> int \<times> 'c" where
  "pending_key p \<equiv> (pi_id p, pi_tp p, pi_cfg p)"

abbreviation placed_key :: "'c placed_instance \<Rightarrow> string \<times> int \<times> 'c" where
  "placed_key p \<equiv> (pl_id p, pl_tp p, pl_cfg p)"

lemma retry_loop_spec:
  assumes "pm_ok pm" "i \<le> length ps" "length ps \<le> max_iter" "\<forall>k < i. cannot_place pm (ps ! k)"
    "retry_loop i max_iter ps acc pm = (acc', ps', pm')"
  shows "pm_ok pm' \<and> less_free pm pm' \<and> (\<forall>p \<in> set ps'. cannot_place pm' p) \<and>
    mset (map placed_key acc') + mset (map pending_key ps') = mset (map placed_key acc) + mset (map pending_key ps)"
  using assms
proof (induction i max_iter ps acc pm arbitrary: acc' ps' pm' rule: retry_loop.induct)
  case (1 i max_iter ps acc pm)
  let ?p = "ps ! i" and ?ps1 = "take (length ps - 1) (ps[i := ps ! (length ps - 1)])"
  show ?case
  proof (cases "i < length ps")
    case False
    then have e: "acc' = acc" "ps' = ps" "pm' = pm" using 1(7) by (subst (asm) (1) retry_loop.simps, simp)+
    have "\<forall>p \<in> set ps. cannot_place pm p" using 1(4,6) False by (auto simp: in_set_conv_nth)
    then show ?thesis using e 1(3) by (simp add: less_free_refl)
  next
    case True
    then have run: "i < length ps \<and> i < max_iter" using 1(5) by simp
    show ?thesis
      using 1(3)
    proof (cases rule: place_instance_cases [where inst = "pi_id ?p" and gt = "pi_gpu_type ?p" and tp = "pi_tp ?p"])
      case (placed nid gs t pm1)
      let ?r = "\<lparr>pl_id = pi_id ?p, pl_node = nid, pl_gpus = gs, pl_gpu_type = t, pl_tp = pi_tp ?p, pl_cfg = pi_cfg ?p\<rparr>"
      have ok1: "pm_ok pm1" and lf: "less_free pm pm1"
        using place_ok [OF 1(3)] place_less_free [OF 1(3)] placed(1) by (metis snd_conv)+
      have r: "retry_loop i max_iter ?ps1 (acc @ [?r]) pm1 = (acc', ps', pm')"
        using 1(7) run placed(1) by (subst (asm) (1) retry_loop.simps) (simp add: Let_def)
      have below: "\<forall>k < i. cannot_place pm1 (?ps1 ! k)"
        using 1(6) cannot_place_mono [OF 1(3) lf] True by simp
      have "pm_ok pm' \<and> less_free pm1 pm' \<and> (\<forall>p \<in> set ps'. cannot_place pm' p) \<and>
          mset (map placed_key acc') + mset (map pending_key ps') = mset (map placed_key (acc @ [?r])) + mset (map pending_key ?ps1)"
        by (rule 1(2) [OF _ refl placed(1) [symmetric] refl refl refl ok1 _ _ below r]) (use run 1(5) in auto)
      moreover have "mset (map pending_key ?ps1) + {#pending_key ?p#} = mset (map pending_key ps)"
        using arg_cong [OF mset_swap_remove [OF True], of "image_mset pending_key"] by simp
      ultimately show ?thesis using less_free_trans [OF lf] by (auto simp: ac_simps)
    next
      case (failed e)
      have r: "retry_loop (i + 1) max_iter ps acc pm = (acc', ps', pm')"
        using 1(7) run failed(1) by (subst (asm) (1) retry_loop.simps) (simp add: Let_def)
      have "cannot_place pm ?p" using failed(2) by (auto simp: cannot_place_def)
      then have below: "\<forall>k < i + 1. cannot_place pm (ps ! k)" using 1(6) by (auto simp: less_Suc_eq)
      show ?thesis
        by (rule 1(1) [OF _ refl failed(1) [symmetric] refl 1(3) _ 1(5) below r]) (use run in auto)
    qed
  qed
qed

lemma whole_free_pending [simp]: "whole_free (pm\<lparr>pm_pending := ps\<rparr>) = whole_free pm"
  by (simp add: fun_eq_iff whole_free_def free_count_def node_at_def)

lemma cannot_place_pending: "cannot_place (pm\<lparr>pm_pending := ps\<rparr>) p = cannot_place pm p"
  by (simp add: cannot_place_def single_fit_def span_fit_def spans_def free_count_def)

lemma retry_pending_ok:
  assumes ok: "pm_ok pm" and r: "retry_pending pm = (placed, pm')"
  shows "pm_ok pm'" "\<forall>p \<in> set (pm_pending pm'). cannot_place pm' p"
    "mset (map placed_key placed) + mset (map pending_key (pm_pending pm')) = mset (map pending_key (pm_pending pm))"
proof -
  have "pm_ok pm' \<and> (\<forall>p \<in> set (pm_pending pm'). cannot_place pm' p) \<and>
    mset (map placed_key placed) + mset (map pending_key (pm_pending pm')) = mset (map pending_key (pm_pending pm))"
  proof (cases "pm_pending pm = []")
    case True
    then show ?thesis using r ok by (simp add: retry_pending_def)
  next
    case False
    obtain ps pm1 where l: "retry_loop 0 (length (pm_pending pm)) (pm_pending pm) [] pm = (placed, ps, pm1)" "pm' = pm1\<lparr>pm_pending := ps\<rparr>"
      using r False by (auto simp: retry_pending_def split: prod.splits)
    have S: "pm_ok pm1 \<and> less_free pm pm1 \<and> (\<forall>p \<in> set ps. cannot_place pm1 p) \<and>
        mset (map placed_key placed) + mset (map pending_key ps) = mset (map placed_key []) + mset (map pending_key (pm_pending pm))"
      by (rule retry_loop_spec [OF ok _ _ _ l(1)]) simp_all
    then show ?thesis using l(2) by (simp add: cannot_place_pending)
  qed
  then show "pm_ok pm'" "\<forall>p \<in> set (pm_pending pm'). cannot_place pm' p"
    "mset (map placed_key placed) + mset (map pending_key (pm_pending pm')) = mset (map pending_key (pm_pending pm))" by blast+
qed

section \<open>Every reachable inventory\<close>

inductive pm_reach :: "pool_config list \<Rightarrow> 'c placement \<Rightarrow> bool" where
  reach_new: "new_placement pools clock = Inr pm \<Longrightarrow> pm_reach pools pm"
| reach_place: "pm_reach pools pm \<Longrightarrow> place_instance inst gt tp pm = (r, pm') \<Longrightarrow> pm_reach pools pm'"
| reach_release: "pm_reach pools pm \<Longrightarrow> release_instance inst pm = (res, pm') \<Longrightarrow> pm_reach pools pm'"
| reach_provision: "pm_reach pools pm \<Longrightarrow> provision_node pool clock delay pm = Inr (nt, pm') \<Longrightarrow> pm_reach pools pm'"
| reach_drain: "pm_reach pools pm \<Longrightarrow> drain_node i pm = Inr (res, pm') \<Longrightarrow> pm_reach pools pm'"
| reach_terminated: "pm_reach pools pm \<Longrightarrow> mark_node_terminated i pm = Inr (res, pm') \<Longrightarrow> pm_reach pools pm'"
| reach_ready: "pm_reach pools pm \<Longrightarrow> mark_node_ready i pm = Inr (er, pm') \<Longrightarrow> pm_reach pools pm'"
| reach_pending: "pm_reach pools pm \<Longrightarrow> pm_reach pools (add_pending p pm)"
| reach_retry: "pm_reach pools pm \<Longrightarrow> retry_pending pm = (placed, pm') \<Longrightarrow> pm_reach pools pm'"

lemma check_pools_ok:
  "check_pools names types cs = Inr () \<Longrightarrow>
   pools_ok cs \<and> (\<forall>c \<in> set cs. pc_name c \<notin> set names \<and> pc_gpu_type c \<notin> set types)"
proof (induction cs arbitrary: names types)
  case (Cons c cs)
  then have "check_pools (pc_name c # names) (pc_gpu_type c # types) cs = Inr ()" "pool_valid c = None"
    "pc_name c \<notin> set names" "pc_gpu_type c \<notin> set types" by (auto split: if_splits)
  then show ?case using Cons.IH by (fastforce simp: pools_ok_def)
qed (simp add: pools_ok_def)

lemma add_nodes_ok:
  "pm_ok pm \<Longrightarrow> c \<in> set (pm_pools pm) \<Longrightarrow> pm_ok (add_nodes k c clock pm) \<and> pm_pools (add_nodes k c clock pm) = pm_pools pm"
proof (induction k arbitrary: pm)
  case (Suc k)
  then show ?case using add_node_ok(1,2) [OF Suc.prems, of NodeReady clock] by simp
qed simp

lemma fold_pools_ok:
  "pm_ok pm \<Longrightarrow> set cs \<subseteq> set (pm_pools pm) \<Longrightarrow>
   pm_ok (foldl (\<lambda>pm c. add_nodes (nat (pc_initial c)) c clock pm) pm cs) \<and>
   pm_pools (foldl (\<lambda>pm c. add_nodes (nat (pc_initial c)) c clock pm) pm cs) = pm_pools pm"
proof (induction cs arbitrary: pm)
  case (Cons c cs)
  then show ?case using add_nodes_ok [of pm c "nat (pc_initial c)" clock] by simp
qed simp

lemma new_placement_ok: "new_placement pools clock = Inr pm \<Longrightarrow> pm_ok pm \<and> pm_pools pm = pools"
proof -
  assume n: "new_placement pools clock = Inr pm"
  let ?e = "\<lparr>pm_pools = pools, pm_nodes = [], pm_by_pool = (\<lambda>_. []), pm_gpus = (\<lambda>_. None), pm_pending = [],
          pm_next = (\<lambda>_. 0), pm_span_warned = False\<rparr>"
  have "check_pools [] [] pools = Inr ()" using n by (cases "check_pools [] [] pools") (auto simp: new_placement_def)
  then have "pools_ok pools" using check_pools_ok by blast
  then have "pm_ok ?e" by (simp add: pm_ok_def)
  moreover have "pm = foldl (\<lambda>pm c. add_nodes (nat (pc_initial c)) c clock pm) ?e pools"
    using n by (auto simp: new_placement_def obind_Inr_iff)
  ultimately show ?thesis using fold_pools_ok [of ?e pools clock] by simp
qed

lemma find_pool_mem: "find_pool p cs = Some c \<Longrightarrow> c \<in> set cs \<and> pc_name c = p"
  by (induction cs) (auto split: if_splits)

lemma provision_ok:
  assumes ok: "pm_ok pm" and r: "provision_node pool clock delay pm = Inr (nt, pm')"
  shows "pm_ok pm'"
proof -
  obtain c where c: "find_pool pool (pm_pools pm) = Some c" using r by (auto simp: provision_node_def split: option.splits)
  have "pm' = add_node c NodeProvisioning clock pm"
    using r c by (auto simp: provision_node_def add_node_def split: prod.splits)
  then show ?thesis using add_node_ok(1) [OF ok, of c NodeProvisioning clock] find_pool_mem [OF c] by simp
qed

lemma pm_reach_ok: "pm_reach pools pm \<Longrightarrow> pm_ok pm"
proof (induction rule: pm_reach.induct)
  case (reach_new pools clock pm)
  then show ?case using new_placement_ok by blast
next
  case (reach_place pools pm inst gt tp r pm')
  then show ?case using place_ok by (metis snd_conv)
next
  case (reach_release pools pm inst res pm')
  then show ?case using free_release_ok(1) by blast
next
  case (reach_provision pools pm pool clock delay nt pm')
  then show ?case using provision_ok by blast
next
  case (reach_drain pools pm i res pm')
  show ?case
    using reach_drain(3) by (cases rule: drain_node_ok [where i = i]) (use reach_drain in auto)
next
  case (reach_terminated pools pm i res pm')
  then show ?case using mark_node_terminated_ok by blast
next
  case (reach_ready pools pm i er pm')
  then show ?case using mark_node_ready_ok by blast
next
  case (reach_pending pools pm p)
  then show ?case by (simp add: add_pending_def)
next
  case (reach_retry pools pm placed pm')
  then show ?case using retry_pending_ok(1) by blast
qed

lemma first_violation_None:
  "first_violation pm ns = None \<longleftrightarrow> (\<forall>i \<in> set ns. allocated_count pm (node_at pm i) + free_count pm (node_at pm i) = nd_total (node_at pm i))"
  by (induction ns) (auto simp: Let_def)

section \<open>The properties\<close>

text \<open>C25 INV-A and the drain protocol: in every inventory the manager reaches, the conservation
  check reports nothing, each GPU of the index sits in exactly one node, and a drain callback
  is stored exactly on the draining nodes some instance still holds a GPU of.\<close>

theorem placement_conserves_gpus:
  assumes "pm_reach pools pm"
  shows "(verify_conservation pm = None) \<and>
    (pm_gpus pm g \<noteq> None \<longrightarrow> (\<exists>!i. \<exists>n. map_of (pm_nodes pm) i = Some n \<and> g \<in> set (nd_gpus n))) \<and>
    (map_of (pm_nodes pm) i = Some n \<longrightarrow> allocated_count pm n + free_count pm n = nd_total n \<and>
       (nd_drain n \<longleftrightarrow> nd_state n = NodeDraining \<and> 0 < allocated_count pm n))"
proof (intro conjI)
  have ok: "pm_ok pm" by (rule pm_reach_ok [OF assms])
  have sum: "allocated_count pm n + free_count pm n = nd_total n" if "map_of (pm_nodes pm) i = Some n" for i n
    using node_total_pos(2) [OF ok that] counts_sum [of pm n] by simp
  have "\<exists>n. map_of (pm_nodes pm) i = Some n" if "i \<in> set (gm_keys (pm_nodes pm))" for i
    using that unfolding gm_keys_set by blast
  then show "verify_conservation pm = None"
    using sum unfolding verify_conservation_def first_violation_None sort_strings_simps(1) by (metis node_at_Some)
  show "pm_gpus pm g \<noteq> None \<longrightarrow> (\<exists>!i. \<exists>n. map_of (pm_nodes pm) i = Some n \<and> g \<in> set (nd_gpus n))"
  proof
    assume "pm_gpus pm g \<noteq> None"
    then have "\<exists>i n. map_of (pm_nodes pm) i = Some n \<and> g \<in> set (nd_gpus n)" using ok unfolding pm_ok_def by blast
    then show "\<exists>!i. \<exists>n. map_of (pm_nodes pm) i = Some n \<and> g \<in> set (nd_gpus n)" using node_of_gpu [OF ok] by blast
  qed
  show "map_of (pm_nodes pm) i = Some n \<longrightarrow> allocated_count pm n + free_count pm n = nd_total n \<and>
       (nd_drain n \<longleftrightarrow> nd_state n = NodeDraining \<and> 0 < allocated_count pm n)"
    using sum ok unfolding pm_ok_core drain_ok_def by blast
qed

text \<open>C26 \<open>PlaceInstance\<close> is exact and atomic: it succeeds exactly when the degree is positive and
  the instance fits on one Ready node or over whole free nodes of one pool; then it takes
  exactly that many distinct free GPUs, all on Ready nodes of one pool of the asked type, on
  one node whenever one has room, and touches no other GPU; otherwise it changes nothing.\<close>

theorem place_instance_exact:
  assumes "pm_reach pools pm"
  shows "(1 \<le> tp \<and> (single_fit pm gt tp \<or> span_fit pm gt tp) \<and>
      (\<exists>i gs t pm'. place_instance inst gt tp pm = (Inr (i, gs, t), pm') \<and> placed_result pm inst gt tp (i, gs, t) \<and>
         pm_nodes pm' = pm_nodes pm \<and> pm_pending pm' = pm_pending pm \<and>
         (\<forall>g. pm_gpus pm g \<noteq> None \<longrightarrow> alloc_at pm' g = (if g \<in> set gs then inst else alloc_at pm g)))) \<or>
    ((tp < 1 \<or> (\<not> single_fit pm gt tp \<and> \<not> span_fit pm gt tp)) \<and> (\<exists>e. place_instance inst gt tp pm = (Inl e, pm)))"
  using pm_reach_ok [OF assms]
proof (cases rule: place_instance_cases [where inst = inst and gt = gt and tp = tp])
  case (placed i gs t pm')
  have "alloc_at pm' g = (if g \<in> set gs then inst else alloc_at pm g)" if "pm_gpus pm g \<noteq> None" for g
    using placed(4) allocate_gpus_alloc [OF that] by auto
  moreover have "pm_nodes pm' = pm_nodes pm" "pm_pending pm' = pm_pending pm" using placed(4) by auto
  ultimately show ?thesis using placed by blast
next
  case (failed e)
  then show ?thesis by blast
qed

text \<open>Release undoes placement: releasing an instance right after it was placed gives every GPU
  back to whom it belonged before, and fires no drain callback.\<close>

theorem place_release_roundtrip:
  assumes "pm_reach pools pm" "inst \<noteq> ''''" "\<forall>i n. map_of (pm_nodes pm) i = Some n \<longrightarrow> \<not> held_by inst pm n"
    "place_instance inst gt tp pm = (Inr r, pm1)"
  shows "\<exists>pm2. release_instance inst pm1 = (Inr [], pm2) \<and> (\<forall>g. pm_gpus pm g \<noteq> None \<longrightarrow> alloc_at pm2 g = alloc_at pm g)"
proof -
  have ok: "pm_ok pm" by (rule pm_reach_ok [OF assms(1)])
  obtain i gs t where p: "r = (i, gs, t)" "1 \<le> tp" "placed_result pm inst gt tp (i, gs, t)"
      "pm1 = allocate_gpus inst gs pm \<or> pm1 = (allocate_gpus inst gs pm)\<lparr>pm_span_warned := True\<rparr>"
    using ok
  proof (cases rule: place_instance_cases [where inst = inst and gt = gt and tp = tp])
    case (placed i gs t pm')
    then show ?thesis using that assms(4) by simp
  next
    case (failed e)
    then show ?thesis using assms(4) by simp
  qed
  have ok1: "pm_ok pm1" using place_ok [OF ok, of inst gt tp] assms(4) by simp
  have n1: "pm_nodes pm1 = pm_nodes pm" and known: "(pm_gpus pm1 g = None) = (pm_gpus pm g = None)" for g
    using p(4) by (auto simp: allocate_gpus_def split: if_splits)
  obtain ns where ns: "placed_on pm ns gs t" using p(3) by (auto simp: placed_result_def)
  obtain res pm2 where rel: "release_instance inst pm1 = (res, pm2)" by fastforce
  note R = free_release_ok [OF ok1 rel]
  have al1: "alloc_at pm1 g = (if g \<in> set gs then inst else alloc_at pm g)" if "pm_gpus pm g \<noteq> None" for g
    using p(4) allocate_gpus_alloc [OF that] by auto
  have gsn: "gs \<noteq> []" using p(2,3) by (auto simp: placed_result_def)
  then obtain g0 where g0: "g0 \<in> set gs" by (meson hd_in_set)
  have ready: "\<exists>i n. map_of (pm_nodes pm) i = Some n \<and> nd_state n = NodeReady \<and> g \<in> set (nd_gpus n)" if "g \<in> set gs" for g
    using placed_gpu_node [OF ok ns that] by metis
  obtain i0 n0 where h0: "map_of (pm_nodes pm) i0 = Some n0" "g0 \<in> set (nd_gpus n0)" using ready [OF g0] by blast
  have "held_by inst pm1 n0" using h0 g0 al1 [OF gpu_known [OF ok h0]] by (auto simp: held_by_def)
  then have "\<nexists>e. res = Inl e" using R(3) h0(1) n1 by auto
  then obtain fired where f: "res = Inr fired" by (cases res) auto
  have other: "alloc_at pm g \<noteq> inst" if "map_of (pm_nodes pm) i = Some n" "g \<in> set (nd_gpus n)" for i n g
    using assms(3) that by (auto simp: held_by_def)
  have "i \<notin> set fired" for i
  proof
    assume "i \<in> set fired"
    then obtain n where n: "map_of (pm_nodes pm) i = Some n" "held_by inst pm1 n" "nd_drain n" using R(4) [OF f] n1 by auto
    then obtain g where g: "g \<in> set (nd_gpus n)" "alloc_at pm1 g = inst" by (auto simp: held_by_def)
    then have "g \<in> set gs" using al1 [OF gpu_known [OF ok n(1) g(1)]] other [OF n(1) g(1)] by (auto split: if_splits)
    then obtain j m where m: "map_of (pm_nodes pm) j = Some m" "nd_state m = NodeReady" "g \<in> set (nd_gpus m)" using ready by blast
    have "i = j" by (rule node_of_gpu [OF ok n(1) m(1) g(1) m(3)])
    then show False using m n ok by (auto simp: pm_ok_core drain_ok_def)
  qed
  then have "fired = []" by (meson hd_in_set)
  moreover have "alloc_at pm2 g = alloc_at pm g" if k: "pm_gpus pm g \<noteq> None" for g
  proof -
    obtain i n where "map_of (pm_nodes pm) i = Some n" "g \<in> set (nd_gpus n)" using ok k unfolding pm_ok_def by blast
    then have "alloc_at pm g \<noteq> inst" by (rule other)
    moreover have "g \<in> set gs \<longrightarrow> alloc_at pm g = ''''" using p(3) by (simp add: placed_result_def)
    ultimately show ?thesis using R(2) [of g] al1 [OF k] k known by auto
  qed
  ultimately show ?thesis using rel f by blast
qed

text \<open>C27 \<open>RetryPendingInstances\<close> is complete: it loses and invents no pending instance, and none it
  leaves pending could be placed in the inventory it leaves.\<close>

theorem retry_places_all_it_can:
  assumes "pm_reach pools pm" "retry_pending pm = (placed, pm')"
  shows "(mset (map placed_key placed) + mset (map pending_key (pm_pending pm')) = mset (map pending_key (pm_pending pm))) \<and>
    (\<forall>p \<in> set (pm_pending pm'). \<exists>e. place_instance (pi_id p) (pi_gpu_type p) (pi_tp p) pm' = (Inl e, pm'))"
proof (intro conjI)
  note R = retry_pending_ok [OF pm_reach_ok [OF assms(1)] assms(2)]
  show "mset (map placed_key placed) + mset (map pending_key (pm_pending pm')) = mset (map pending_key (pm_pending pm))" by (rule R(3))
  show "\<forall>p \<in> set (pm_pending pm'). \<exists>e. place_instance (pi_id p) (pi_gpu_type p) (pi_tp p) pm' = (Inl e, pm')"
  proof
    fix p assume "p \<in> set (pm_pending pm')"
    then have "cannot_place pm' p" using R(2) by blast
    then show "\<exists>e. place_instance (pi_id p) (pi_gpu_type p) (pi_tp p) pm' = (Inl e, pm')"
      using place_instance_cases [OF R(1), of "pi_id p" "pi_gpu_type p" "pi_tp p"] by (metis cannot_place_def linorder_not_less)
  qed
qed

section \<open>A concrete inventory\<close>

text \<open>One pool of two nodes with two GPUs each.\<close>

definition demo_pool :: pool_config where
  "demo_pool = \<lparr>pc_name = ''p'', pc_gpu_type = ''H100'', pc_gpus_per_node = 2, pc_memory = 80, pc_initial = 2, pc_min = 0, pc_max = 4,
     pc_delay_mean = 0, pc_delay_stddev = 0, pc_cost = 3\<rparr>"

definition demo_inventory :: "unit placement" where
  "demo_inventory = (case new_placement [demo_pool] 0 of Inr pm \<Rightarrow> pm)"

lemma demo_reach: "pm_reach [demo_pool] demo_inventory"
proof (rule reach_new)
  have "case new_placement [demo_pool] 0 of Inl _ \<Rightarrow> False | Inr (pm :: unit placement) \<Rightarrow> True" by code_simp
  then obtain pm :: "unit placement" where "new_placement [demo_pool] 0 = Inr pm" by (cases "new_placement [demo_pool] 0 :: unit placement outcome") auto
  then show "new_placement [demo_pool] 0 = Inr demo_inventory" by (simp add: demo_inventory_def)
qed

text \<open>Two instances wait, one over both nodes; after the retry one is placed and one still waits.\<close>

definition waiting_instance :: "string \<Rightarrow> int \<Rightarrow> unit pending_instance" where
  "waiting_instance i tp = \<lparr>pi_id = i, pi_model = ''m'', pi_gpu_type = ''H100'', pi_tp = tp, pi_cfg = ()\<rparr>"

definition demo_waiting :: "unit placement" where
  "demo_waiting = add_pending (waiting_instance ''b'' 2) (add_pending (waiting_instance ''a'' 4) demo_inventory)"

lemma demo_waiting_reach: "pm_reach [demo_pool] demo_waiting"
  unfolding demo_waiting_def by (intro reach_pending demo_reach)

theorem placement_conserves_gpus_witness:
  "pm_reach [demo_pool] demo_inventory \<and> node_count demo_inventory = 2 \<and> gpu_count ''p'' demo_inventory = 4 \<and> verify_conservation demo_inventory = None"
proof -
  have "node_count demo_inventory = 2 \<and> gpu_count ''p'' demo_inventory = 4" by code_simp
  then show ?thesis using placement_conserves_gpus [OF demo_reach] demo_reach by blast
qed

theorem place_instance_exact_witness:
  "\<exists>gs pm'. place_instance ''i'' ''H100'' 4 demo_inventory = (Inr (''p-0'', gs, ''H100''), pm') \<and>
     placed_result demo_inventory ''i'' ''H100'' 4 (''p-0'', gs, ''H100'')"
proof -
  have "case place_instance ''i'' ''H100'' 4 demo_inventory of (Inr (i, gs, t), _) \<Rightarrow> i = ''p-0'' \<and> t = ''H100'' | _ \<Rightarrow> False" by code_simp
  then obtain gs pm' where "place_instance ''i'' ''H100'' 4 demo_inventory = (Inr (''p-0'', gs, ''H100''), pm')"
    by (auto split: sum.splits prod.splits)
  then show ?thesis using place_instance_exact [OF demo_reach, of 4 "''H100''" "''i''"] by auto
qed

theorem place_release_roundtrip_witness:
  "\<exists>r pm1 pm2. place_instance ''i'' ''H100'' 2 demo_inventory = (Inr r, pm1) \<and> release_instance ''i'' pm1 = (Inr [], pm2)"
proof -
  have "case place_instance ''i'' ''H100'' 2 demo_inventory of (Inr _, _) \<Rightarrow> True | _ \<Rightarrow> False" by code_simp
  then obtain r pm1 where p: "place_instance ''i'' ''H100'' 2 demo_inventory = (Inr r, pm1)" by (auto split: sum.splits prod.splits)
  have "list_all (\<lambda>e. \<not> held_by ''i'' demo_inventory (snd e)) (pm_nodes demo_inventory)" by code_simp
  then have h: "\<forall>i n. map_of (pm_nodes demo_inventory) i = Some n \<longrightarrow> \<not> held_by ''i'' demo_inventory n"
    by (auto simp: list_all_iff dest!: map_of_SomeD)
  show ?thesis using place_release_roundtrip [OF demo_reach _ h p] p by blast
qed

theorem retry_places_all_it_can_witness:
  "\<exists>placed pm'. retry_pending demo_waiting = (placed, pm') \<and> map pl_id placed = [''a''] \<and> map pi_id (pm_pending pm') = [''b''] \<and>
     (\<forall>p \<in> set (pm_pending pm'). \<exists>e. place_instance (pi_id p) (pi_gpu_type p) (pi_tp p) pm' = (Inl e, pm'))"
proof -
  obtain placed pm' where r: "retry_pending demo_waiting = (placed, pm')" by fastforce
  have "case retry_pending demo_waiting of (placed, pm') \<Rightarrow> map pl_id placed = [''a''] \<and> map pi_id (pm_pending pm') = [''b'']" by code_simp
  then show ?thesis using r retry_places_all_it_can [OF demo_waiting_reach r] by auto
qed

text \<open>\<open>NodeReadyEvent\<close> treats a node terminated before it became ready as a legitimate race
  whose error it logs, but \<open>MarkNodeReady\<close> returns no error for it: the transition panics.\<close>

theorem ready_after_termination_panics:
  "\<exists>pm pm1 nt res. pm_reach [demo_pool] demo_inventory \<and> provision_node ''p'' 0 5 demo_inventory = Inr (nt, pm) \<and>
     mark_node_terminated (fst nt) pm = Inr (res, pm1) \<and> pm_reach [demo_pool] pm1 \<and>
     mark_node_ready (fst nt) pm1 = Inl (Panic ''transitionNode: invalid transition'')"
proof -
  have c: "case provision_node ''p'' 0 5 demo_inventory of Inl _ \<Rightarrow> False | Inr (nt, pm) \<Rightarrow>
      (case mark_node_terminated (fst nt) pm of Inl _ \<Rightarrow> False | Inr (res, pm1) \<Rightarrow>
        (case mark_node_ready (fst nt) pm1 of Inl e \<Rightarrow> e = Panic ''transitionNode: invalid transition'' | Inr _ \<Rightarrow> False))"
    by code_simp
  obtain nt pm where a1: "provision_node ''p'' 0 5 demo_inventory = Inr (nt, pm)"
    using c by (cases "provision_node ''p'' 0 5 demo_inventory") auto
  obtain res pm1 where a2: "mark_node_terminated (fst nt) pm = Inr (res, pm1)"
    using c by (cases "mark_node_terminated (fst nt) pm") (auto simp: a1)
  have "mark_node_ready (fst nt) pm1 = Inl (Panic ''transitionNode: invalid transition'')"
    using c by (cases "mark_node_ready (fst nt) pm1") (simp_all add: a1 a2)
  note a = a1 a2 this
  have "pm_reach [demo_pool] pm1" by (rule reach_terminated [OF reach_provision [OF demo_reach a(1)] a(2)])
  then show ?thesis using a demo_reach by blast
qed

end
