(* ===== verification/Transfer_Station.thy ===== *)
theory Transfer_Station
  imports Heap_Queue
begin

text \<open>
  The queueing station for transfers between the CPU tier and secondary tiers
  (\<open>sim/kvtransfer/station.go\<close>): two FIFO queues and two server groups per tier, a completion
  heap over all tiers, a clock that only \<open>Submit\<close> and \<open>Poll\<close> move. Bandwidths, the ramp and the
  jitter factor are exact rationals; \<open>math.Round\<close> of a positive value is the floor of the value
  plus one half. A job is a value: its pointer is in one queue, then in the heap. The injected
  service time is the Go function the configuration holds.
\<close>

section \<open>Configuration and state\<close>

datatype direction = ReadDir | WriteDir

datatype server_class = ReadServer | WriteServer

record transfer_job =
  tj_tier :: int
  tj_dir :: direction
  tj_bytes :: int
  tj_submit :: tick
  tj_jitter :: rat

record tier_config =
  tc_nread :: int
  tc_nwrite :: int
  tc_read_base :: int
  tc_write_base :: int
  tc_read_bw :: rat
  tc_write_bw :: rat
  tc_service :: "(direction \<Rightarrow> int \<Rightarrow> int \<Rightarrow> int) option"
  tc_qsat :: int
  tc_f1 :: rat
  tc_max_depth :: int

definition max_service_ticks :: int where
  "max_service_ticks = 2 ^ 60"

record job =
  jb_id :: int
  jb_tier :: nat
  jb_dir :: direction
  jb_bytes :: int
  jb_submit :: tick
  jb_complete :: tick
  jb_server :: server_class
  jb_jitter :: rat

record tier_state =
  ts_cfg :: tier_config
  ts_readq :: "job list"
  ts_writeq :: "job list"
  ts_free_read :: int
  ts_free_write :: int
  ts_active_read :: int
  ts_active_write :: int

record station =
  st_tiers :: "tier_state list"
  st_inflight :: "job list"
  st_last :: tick
  st_next :: int
  st_completed :: "int list"

definition validate_tier :: "tier_config \<Rightarrow> string option" where
  "validate_tier tc =
     (if tc_nread tc < 0 then Some ''NRead must be >= 0''
      else if tc_nwrite tc < 0 then Some ''NWrite must be >= 0''
      else if tc_nread tc + tc_nwrite tc < 1 then Some ''must have NRead+NWrite >= 1''
      else if tc_read_base tc < 0 \<or> tc_write_base tc < 0 then Some ''base ticks must be >= 0''
      else if tc_service tc = None \<and> \<not> tc_read_bw tc > 0 then Some ''ReadBytesPerTick must be > 0''
      else if tc_service tc = None \<and> \<not> tc_write_bw tc > 0 then Some ''WriteBytesPerTick must be > 0''
      else if tc_max_depth tc < 0 then Some ''MaxQueueDepth must be >= 0''
      else if tc_qsat tc < 0 then Some ''SaturationQueueDepth must be >= 0''
      else if tc_qsat tc \<ge> 2 \<and> (\<not> tc_f1 tc > 0 \<or> tc_f1 tc > 1) then Some ''SingleTransferFraction must be in (0,1]''
      else None)"

fun new_tiers :: "tier_config list \<Rightarrow> string + tier_state list" where
  "new_tiers [] = Inr []"
| "new_tiers (tc # tcs) =
     (case validate_tier tc of
        Some e \<Rightarrow> Inl e
      | None \<Rightarrow> (case new_tiers tcs of
            Inl e \<Rightarrow> Inl e
          | Inr ts \<Rightarrow> Inr (\<lparr>ts_cfg = tc, ts_readq = [], ts_writeq = [], ts_free_read = tc_nread tc, ts_free_write = tc_nwrite tc,
                            ts_active_read = 0, ts_active_write = 0\<rparr> # ts)))"

definition new_station :: "tier_config list \<Rightarrow> string + station" where
  "new_station tcs =
     (if tcs = [] then Inl ''Config.Tiers must contain at least one tier''
      else case new_tiers tcs of
          Inl e \<Rightarrow> Inl e
        | Inr ts \<Rightarrow> Inr \<lparr>st_tiers = ts, st_inflight = [], st_last = 0, st_next = 0, st_completed = []\<rparr>)"

section \<open>Service times\<close>

definition effective_bandwidth :: "rat \<Rightarrow> int \<Rightarrow> int \<Rightarrow> rat \<Rightarrow> rat" where
  "effective_bandwidth bw q0 qsat f1 =
     (if qsat < 2 \<or> f1 \<le> 0 \<or> f1 \<ge> 1 then bw
      else let q = (if q0 < 1 then 1 else q0) in
        if q \<ge> qsat then bw
        else bw * (f1 + (1 - f1) * of_int (q - 1) / of_int (qsat - 1)))"

definition service_ticks :: "tier_config \<Rightarrow> direction \<Rightarrow> int \<Rightarrow> int \<Rightarrow> int outcome" where
  "service_ticks c dir bytes q =
     (case tc_service c of
        Some f \<Rightarrow>
          (if bytes < 0 then Inl (Panic ''kvtransfer: negative bytes'')
           else let t = f dir bytes (max 1 q) in
             if t < 1 then Inl (Panic ''kvtransfer: injected service time'') else Inr t)
      | None \<Rightarrow>
          (let (base, bw) = (case dir of ReadDir \<Rightarrow> (tc_read_base c, tc_read_bw c) | WriteDir \<Rightarrow> (tc_write_base c, tc_write_bw c)) in
           if bytes < 0 then Inl (Panic ''kvtransfer: negative bytes'')
           else let v = of_int bytes / effective_bandwidth bw q (tc_qsat c) (tc_f1 c) in
             Inr (base + (if v \<ge> of_int max_service_ticks then max_service_ticks else \<lfloor>v\<rfloor>))))"

section \<open>The completion heap\<close>

definition dir_code :: "direction \<Rightarrow> int" where
  "dir_code d = (case d of ReadDir \<Rightarrow> 0 | WriteDir \<Rightarrow> 1)"

definition job_less :: "job \<Rightarrow> job \<Rightarrow> bool" where
  "job_less a b \<longleftrightarrow>
     (if jb_complete a \<noteq> jb_complete b then jb_complete a < jb_complete b
      else if jb_submit a \<noteq> jb_submit b then jb_submit a < jb_submit b
      else if jb_tier a \<noteq> jb_tier b then jb_tier a < jb_tier b
      else if dir_code (jb_dir a) \<noteq> dir_code (jb_dir b) then dir_code (jb_dir a) < dir_code (jb_dir b)
      else jb_id a < jb_id b)"

section \<open>Starting work\<close>

text \<open>The depth counts the job itself; a positive jitter factor scales and rounds the service time.\<close>

definition jittered :: "rat \<Rightarrow> int \<Rightarrow> int" where
  "jittered f svc =
     (if f > 0 then
        (let j = of_int svc * f; r = \<lfloor>j + 1 / 2\<rfloor> in if of_int r \<ge> (of_int max_service_ticks :: rat) then max_service_ticks else r)
      else svc)"

definition start_job :: "job \<Rightarrow> server_class \<Rightarrow> tick \<Rightarrow> tier_state \<Rightarrow> job list \<Rightarrow> (tier_state \<times> job list) outcome" where
  "start_job nj sc start ts h =
     (let q = (case jb_dir nj of ReadDir \<Rightarrow> ts_active_read ts + 1 | WriteDir \<Rightarrow> ts_active_write ts + 1) in
      obind (service_ticks (ts_cfg ts) (jb_dir nj) (jb_bytes nj) q) (\<lambda>svc.
        let nj1 = nj\<lparr>jb_server := sc, jb_complete := start + jittered (jb_jitter nj) svc\<rparr>;
            ts1 = (case jb_dir nj of ReadDir \<Rightarrow> ts\<lparr>ts_active_read := ts_active_read ts + 1\<rparr>
                                   | WriteDir \<Rightarrow> ts\<lparr>ts_active_write := ts_active_write ts + 1\<rparr>)
        in Inr (ts1, heap_push job_less nj1 h)))"

lemma start_job_queues:
  "start_job nj sc start ts h = Inr (ts1, h1) \<Longrightarrow>
   ts_readq ts1 = ts_readq ts \<and> ts_writeq ts1 = ts_writeq ts \<and> length h1 = Suc (length h)"
  by (auto simp: start_job_def Let_def obind_Inr_iff length_heap_push split: direction.splits)

lemma obind_cong [fundef_cong]:
  "x = x' \<Longrightarrow> (\<And>y. x' = Inr y \<Longrightarrow> f y = g y) \<Longrightarrow> obind x f = obind x' g"
  by (cases x') auto

text \<open>The head of the first queue, or of the second when the first is empty.\<close>

definition pop_read_first :: "tier_state \<Rightarrow> job \<times> tier_state" where
  "pop_read_first ts =
     (if ts_readq ts \<noteq> [] then (hd (ts_readq ts), ts\<lparr>ts_readq := tl (ts_readq ts)\<rparr>)
      else (hd (ts_writeq ts), ts\<lparr>ts_writeq := tl (ts_writeq ts)\<rparr>))"

definition pop_write_first :: "tier_state \<Rightarrow> job \<times> tier_state" where
  "pop_write_first ts =
     (if ts_writeq ts \<noteq> [] then (hd (ts_writeq ts), ts\<lparr>ts_writeq := tl (ts_writeq ts)\<rparr>)
      else (hd (ts_readq ts), ts\<lparr>ts_readq := tl (ts_readq ts)\<rparr>))"

definition queued :: "tier_state \<Rightarrow> nat" where
  "queued ts = length (ts_readq ts) + length (ts_writeq ts)"

function assign_read :: "tick \<Rightarrow> tier_state \<Rightarrow> job list \<Rightarrow> (tier_state \<times> job list) outcome" where
  "assign_read start ts h =
     (if ts_free_read ts > 0 \<and> (ts_readq ts \<noteq> [] \<or> ts_writeq ts \<noteq> [])
      then obind (start_job (fst (pop_read_first ts)) ReadServer start (snd (pop_read_first ts)) h) (\<lambda>r.
             assign_read start ((fst r)\<lparr>ts_free_read := ts_free_read (fst r) - 1\<rparr>) (snd r))
      else Inr (ts, h))"
  by pat_completeness auto
termination
proof (relation "measure (\<lambda>(start, ts, h). queued ts)")
  fix start ts h r
  assume ne: "0 < ts_free_read ts \<and> (ts_readq ts \<noteq> [] \<or> ts_writeq ts \<noteq> [])"
    and r: "start_job (fst (pop_read_first ts)) ReadServer start (snd (pop_read_first ts)) h = Inr r"
  have "ts_readq (fst r) = ts_readq (snd (pop_read_first ts)) \<and> ts_writeq (fst r) = ts_writeq (snd (pop_read_first ts))"
    using start_job_queues [of _ _ _ _ _ "fst r" "snd r"] r by simp
  then show "((start, (fst r)\<lparr>ts_free_read := ts_free_read (fst r) - 1\<rparr>, snd r), (start, ts, h)) \<in> measure (\<lambda>(start, ts, h). queued ts)"
    using ne by (auto simp: queued_def pop_read_first_def)
qed simp

function assign_write :: "tick \<Rightarrow> tier_state \<Rightarrow> job list \<Rightarrow> (tier_state \<times> job list) outcome" where
  "assign_write start ts h =
     (if ts_free_write ts > 0 \<and> (ts_writeq ts \<noteq> [] \<or> ts_readq ts \<noteq> [])
      then obind (start_job (fst (pop_write_first ts)) WriteServer start (snd (pop_write_first ts)) h) (\<lambda>r.
             assign_write start ((fst r)\<lparr>ts_free_write := ts_free_write (fst r) - 1\<rparr>) (snd r))
      else Inr (ts, h))"
  by pat_completeness auto
termination
proof (relation "measure (\<lambda>(start, ts, h). queued ts)")
  fix start ts h r
  assume ne: "0 < ts_free_write ts \<and> (ts_writeq ts \<noteq> [] \<or> ts_readq ts \<noteq> [])"
    and r: "start_job (fst (pop_write_first ts)) WriteServer start (snd (pop_write_first ts)) h = Inr r"
  have "ts_readq (fst r) = ts_readq (snd (pop_write_first ts)) \<and> ts_writeq (fst r) = ts_writeq (snd (pop_write_first ts))"
    using start_job_queues [of _ _ _ _ _ "fst r" "snd r"] r by simp
  then show "((start, (fst r)\<lparr>ts_free_write := ts_free_write (fst r) - 1\<rparr>, snd r), (start, ts, h)) \<in> measure (\<lambda>(start, ts, h). queued ts)"
    using ne by (auto simp: queued_def pop_write_first_def)
qed simp

declare assign_read.simps [simp del] assign_write.simps [simp del]

definition assign :: "nat \<Rightarrow> tick \<Rightarrow> station \<Rightarrow> station outcome" where
  "assign i start s =
     (if i \<ge> length (st_tiers s) then Inl IndexOutOfRange
      else obind (assign_read start (st_tiers s ! i) (st_inflight s)) (\<lambda>(ts1, h1).
        obind (assign_write start ts1 h1) (\<lambda>(ts2, h2).
          Inr (s\<lparr>st_tiers := (st_tiers s)[i := ts2], st_inflight := h2\<rparr>))))"

text \<open>What a popped job gives back to its tier.\<close>

definition free_server :: "job \<Rightarrow> tier_state \<Rightarrow> tier_state" where
  "free_server j ts =
     (let ts1 = (case jb_server j of ReadServer \<Rightarrow> ts\<lparr>ts_free_read := ts_free_read ts + 1\<rparr>
                                   | WriteServer \<Rightarrow> ts\<lparr>ts_free_write := ts_free_write ts + 1\<rparr>)
      in case jb_dir j of ReadDir \<Rightarrow> ts1\<lparr>ts_active_read := ts_active_read ts1 - 1\<rparr>
                        | WriteDir \<Rightarrow> ts1\<lparr>ts_active_write := ts_active_write ts1 - 1\<rparr>)"

definition finish_job :: "job \<Rightarrow> job list \<Rightarrow> station \<Rightarrow> station" where
  "finish_job j h s =
     s\<lparr>st_inflight := h, st_tiers := (st_tiers s)[jb_tier j := free_server j (st_tiers s ! jb_tier j)],
       st_completed := st_completed s @ [jb_id j]\<rparr>"

definition total_jobs :: "station \<Rightarrow> nat" where
  "total_jobs s = length (st_inflight s) + (\<Sum>ts\<leftarrow>st_tiers s. queued ts)"

lemma assign_read_total: "assign_read start ts h = Inr (ts', h') \<Longrightarrow> queued ts' + length h' = queued ts + length h"
proof (induction start ts h arbitrary: ts' h' rule: assign_read.induct)
  case (1 start ts h)
  show ?case
  proof (cases "ts_free_read ts > 0 \<and> (ts_readq ts \<noteq> [] \<or> ts_writeq ts \<noteq> [])")
    case False
    have "assign_read start ts h = Inr (ts, h)" by (subst assign_read.simps) (simp only: False if_False)
    then show ?thesis using 1(2) by simp
  next
    case True
    obtain r where r: "start_job (fst (pop_read_first ts)) ReadServer start (snd (pop_read_first ts)) h = Inr r"
        "assign_read start ((fst r)\<lparr>ts_free_read := ts_free_read (fst r) - 1\<rparr>) (snd r) = Inr (ts', h')"
      using 1(2) True by (subst (asm) assign_read.simps) (auto simp: obind_Inr_iff)
    have "queued (fst r) + 1 = queued ts" "length (snd r) = Suc (length h)"
      using start_job_queues [of _ _ _ _ _ "fst r" "snd r"] r(1) True by (auto simp: queued_def pop_read_first_def split: if_splits)
    then show ?thesis using 1(1) [OF True r(1) r(2)] by (simp add: queued_def)
  qed
qed

lemma assign_write_total: "assign_write start ts h = Inr (ts', h') \<Longrightarrow> queued ts' + length h' = queued ts + length h"
proof (induction start ts h arbitrary: ts' h' rule: assign_write.induct)
  case (1 start ts h)
  show ?case
  proof (cases "ts_free_write ts > 0 \<and> (ts_writeq ts \<noteq> [] \<or> ts_readq ts \<noteq> [])")
    case False
    have "assign_write start ts h = Inr (ts, h)" by (subst assign_write.simps) (simp only: False if_False)
    then show ?thesis using 1(2) by simp
  next
    case True
    obtain r where r: "start_job (fst (pop_write_first ts)) WriteServer start (snd (pop_write_first ts)) h = Inr r"
        "assign_write start ((fst r)\<lparr>ts_free_write := ts_free_write (fst r) - 1\<rparr>) (snd r) = Inr (ts', h')"
      using 1(2) True by (subst (asm) assign_write.simps) (auto simp: obind_Inr_iff)
    have "queued (fst r) + 1 = queued ts" "length (snd r) = Suc (length h)"
      using start_job_queues [of _ _ _ _ _ "fst r" "snd r"] r(1) True by (auto simp: queued_def pop_write_first_def split: if_splits)
    then show ?thesis using 1(1) [OF True r(1) r(2)] by (simp add: queued_def)
  qed
qed

lemma assign_total: "assign i start s = Inr s' \<Longrightarrow> total_jobs s' = total_jobs s \<and> length (st_tiers s') = length (st_tiers s)"
proof -
  assume a: "assign i start s = Inr s'"
  then have i: "i < length (st_tiers s)" by (auto simp: assign_def split: if_splits)
  obtain ts1 h1 ts2 h2 where t: "assign_read start (st_tiers s ! i) (st_inflight s) = Inr (ts1, h1)" "assign_write start ts1 h1 = Inr (ts2, h2)"
      "s' = s\<lparr>st_tiers := (st_tiers s)[i := ts2], st_inflight := h2\<rparr>"
    using a i by (auto simp: assign_def obind_Inr_iff)
  then show ?thesis
    using assign_read_total [OF t(1)] assign_write_total [OF t(2)] sum_list_upd [OF i, where y = ts2 and f = queued] by (simp add: total_jobs_def)
qed

lemma queued_free_server [simp]: "queued (free_server j ts) = queued ts"
  by (auto simp: queued_def free_server_def Let_def split: server_class.splits direction.splits)

text \<open>
  The loop of \<open>advance\<close> ends because every round completes a job and none is added: the
  number of jobs in the station is its measure.
\<close>

function advance_loop :: "tick \<Rightarrow> station \<Rightarrow> station outcome" where
  "advance_loop target s =
     (case heap_pop job_less (st_inflight s) of
        None \<Rightarrow> Inr s
      | Some (j, h) \<Rightarrow>
          (if jb_complete (hd (st_inflight s)) > target then Inr s
           else if jb_tier j \<ge> length (st_tiers s) then Inl IndexOutOfRange
           else obind (assign (jb_tier j) (jb_complete j) (finish_job j h s)) (\<lambda>s1. advance_loop target s1)))"
  by pat_completeness auto
termination
proof (relation "measure (\<lambda>(target, s). total_jobs s)")
  fix target s x2 j h s1
  assume p: "heap_pop job_less (st_inflight s) = Some x2" "(j, h) = x2" "\<not> target < jb_complete (hd (st_inflight s))"
    and t: "\<not> length (st_tiers s) \<le> jb_tier j" and a: "assign (jb_tier j) (jb_complete j) (finish_job j h s) = Inr s1"
  have "total_jobs s1 = total_jobs (finish_job j h s)" using assign_total [OF a] by simp
  moreover have "length (st_inflight s) = Suc (length h)" using arg_cong [OF heap_pop_SomeD(3), of job_less "st_inflight s" j h size] p(1,2) by simp
  moreover have "(\<Sum>ts\<leftarrow>(st_tiers s)[jb_tier j := free_server j (st_tiers s ! jb_tier j)]. queued ts) = (\<Sum>ts\<leftarrow>st_tiers s. queued ts)"
    using sum_list_upd [of "jb_tier j" "st_tiers s", where y = "free_server j (st_tiers s ! jb_tier j)" and f = queued] t by simp
  ultimately show "((target, s1), (target, s)) \<in> measure (\<lambda>(target, s). total_jobs s)"
    by (simp add: total_jobs_def finish_job_def)
qed simp

declare advance_loop.simps [simp del]

definition advance :: "tick \<Rightarrow> station \<Rightarrow> station outcome" where
  "advance target s =
     (if target \<le> st_last s then Inr s else obind (advance_loop target s) (\<lambda>s1. Inr (s1\<lparr>st_last := target\<rparr>)))"

section \<open>The interface\<close>

definition check_tier :: "int \<Rightarrow> station \<Rightarrow> unit outcome" where
  "check_tier i s = (if i < 0 \<or> i \<ge> int (length (st_tiers s)) then Inl (Panic ''kvtransfer: tier out of range'') else Inr ())"

definition service_ticks_at_depth :: "int \<Rightarrow> direction \<Rightarrow> int \<Rightarrow> int \<Rightarrow> station \<Rightarrow> int outcome" where
  "service_ticks_at_depth i dir bytes q s =
     obind (check_tier i s) (\<lambda>_. service_ticks (ts_cfg (st_tiers s ! nat i)) dir bytes q)"

definition station_service_ticks :: "int \<Rightarrow> direction \<Rightarrow> int \<Rightarrow> station \<Rightarrow> int outcome" where
  "station_service_ticks i dir bytes s =
     obind (check_tier i s) (\<lambda>_. service_ticks (ts_cfg (st_tiers s ! nat i)) dir bytes 1)"

definition push_queue :: "job \<Rightarrow> tier_state \<Rightarrow> tier_state" where
  "push_queue nj ts = (case jb_dir nj of ReadDir \<Rightarrow> ts\<lparr>ts_readq := ts_readq ts @ [nj]\<rparr> | WriteDir \<Rightarrow> ts\<lparr>ts_writeq := ts_writeq ts @ [nj]\<rparr>)"

definition submit :: "transfer_job \<Rightarrow> station \<Rightarrow> ((int \<times> bool) \<times> station) outcome" where
  "submit j s =
     obind (check_tier (tj_tier j) s) (\<lambda>_.
       if tj_bytes j < 0 then Inl (Panic ''kvtransfer: negative bytes'')
       else obind (advance (tj_submit j) s) (\<lambda>s1.
         let i = nat (tj_tier j); ts = st_tiers s1 ! i;
             depth = int (length (case tj_dir j of ReadDir \<Rightarrow> ts_readq ts | WriteDir \<Rightarrow> ts_writeq ts))
         in if tc_max_depth (ts_cfg ts) > 0 \<and> depth \<ge> tc_max_depth (ts_cfg ts) then Inr ((0, False), s1)
            else let k = st_next s1 + 1;
                     nj = \<lparr>jb_id = k, jb_tier = i, jb_dir = tj_dir j, jb_bytes = tj_bytes j, jb_submit = tj_submit j,
                           jb_complete = 0, jb_server = ReadServer, jb_jitter = tj_jitter j\<rparr>;
                     s2 = s1\<lparr>st_next := k, st_tiers := (st_tiers s1)[i := push_queue nj ts]\<rparr>;
                     start = (if tj_submit j < st_last s2 then st_last s2 else tj_submit j)
                 in obind (assign i start s2) (\<lambda>s3. Inr ((k, True), s3))))"

definition poll :: "tick \<Rightarrow> station \<Rightarrow> (int list \<times> station) outcome" where
  "poll now s = obind (advance now s) (\<lambda>s1. Inr (st_completed s1, s1\<lparr>st_completed := []\<rparr>))"

definition active_jobs :: "int \<Rightarrow> direction \<Rightarrow> station \<Rightarrow> int outcome" where
  "active_jobs i dir s =
     obind (check_tier i s) (\<lambda>_. Inr (case dir of ReadDir \<Rightarrow> ts_active_read (st_tiers s ! nat i) | WriteDir \<Rightarrow> ts_active_write (st_tiers s ! nat i)))"

end
