(* ===== verification/Station_Safe.thy ===== *)
theory Station_Safe
  imports Transfer_Station
begin

text \<open>
  The accounting of the transfer station (its contract BC-S1 and BC-S2): every server is free or
  serves one job of the completion heap, the active counts count the heap's jobs by direction, a
  server is free only when both queues of its tier are empty, and no job is lost or invented.
\<close>

section \<open>Counting the jobs in service\<close>

definition served :: "nat \<Rightarrow> server_class \<Rightarrow> job list \<Rightarrow> nat" where
  "served i sc h = size {#j \<in># mset h. jb_tier j = i \<and> jb_server j = sc#}"

definition moving :: "nat \<Rightarrow> direction \<Rightarrow> job list \<Rightarrow> nat" where
  "moving i d h = size {#j \<in># mset h. jb_tier j = i \<and> jb_dir j = d#}"

lemma served_push: "served i sc (heap_push lt j h) = served i sc h + (if jb_tier j = i \<and> jb_server j = sc then 1 else 0)"
  by (simp add: served_def mset_heap_push)

lemma moving_push: "moving i d (heap_push lt j h) = moving i d h + (if jb_tier j = i \<and> jb_dir j = d then 1 else 0)"
  by (simp add: moving_def mset_heap_push)

lemma served_pop:
  "heap_pop lt h = Some (j, h') \<Longrightarrow> served i sc h = served i sc h' + (if jb_tier j = i \<and> jb_server j = sc then 1 else 0)"
  by (simp add: served_def heap_pop_SomeD(3))

lemma moving_pop:
  "heap_pop lt h = Some (j, h') \<Longrightarrow> moving i d h = moving i d h' + (if jb_tier j = i \<and> jb_dir j = d then 1 else 0)"
  by (simp add: moving_def heap_pop_SomeD(3))

section \<open>The invariant\<close>

text \<open>An injected service-time function must return at least one tick: the code panics otherwise.\<close>

definition tier_cfg_ok :: "tier_config \<Rightarrow> bool" where
  "tier_cfg_ok c \<longleftrightarrow> validate_tier c = None \<and> (\<forall>f d b q. tc_service c = Some f \<longrightarrow> 0 \<le> b \<longrightarrow> 1 \<le> q \<longrightarrow> 1 \<le> f d b q)"

definition tier_ok :: "nat \<Rightarrow> job list \<Rightarrow> tier_state \<Rightarrow> bool" where
  "tier_ok i h ts \<longleftrightarrow>
     tier_cfg_ok (ts_cfg ts) \<and>
     0 \<le> ts_free_read ts \<and> 0 \<le> ts_free_write ts \<and>
     ts_free_read ts + int (served i ReadServer h) = tc_nread (ts_cfg ts) \<and>
     ts_free_write ts + int (served i WriteServer h) = tc_nwrite (ts_cfg ts) \<and>
     ts_active_read ts = int (moving i ReadDir h) \<and>
     ts_active_write ts = int (moving i WriteDir h) \<and>
     (\<forall>j\<in>set (ts_readq ts). jb_tier j = i \<and> jb_dir j = ReadDir \<and> 0 \<le> jb_bytes j) \<and>
     (\<forall>j\<in>set (ts_writeq ts). jb_tier j = i \<and> jb_dir j = WriteDir \<and> 0 \<le> jb_bytes j)"

definition work_conserving :: "tier_state \<Rightarrow> bool" where
  "work_conserving ts \<longleftrightarrow> (ts_free_read ts > 0 \<or> ts_free_write ts > 0 \<longrightarrow> ts_readq ts = [] \<and> ts_writeq ts = [])"

definition tier_ids :: "tier_state \<Rightarrow> int multiset" where
  "tier_ids ts = image_mset jb_id (mset (ts_readq ts) + mset (ts_writeq ts))"

definition heap_ids :: "job list \<Rightarrow> int multiset" where
  "heap_ids h = image_mset jb_id (mset h)"

section \<open>Service times\<close>

lemma effective_bandwidth_pos:
  assumes "0 < bw"
  shows "0 < effective_bandwidth bw q qsat f1"
proof -
  have "0 < f1 + (1 - f1) * of_int (r - 1) / of_int (qsat - 1)" if "0 < f1" "f1 < 1" "1 \<le> r" "2 \<le> qsat" for r :: int
  proof -
    have "0 \<le> (1 - f1) * of_int (r - 1) / (of_int (qsat - 1) :: rat)" using that by (intro divide_nonneg_nonneg mult_nonneg_nonneg) auto
    then show ?thesis using that by linarith
  qed
  then show ?thesis using assms unfolding effective_bandwidth_def Let_def by (auto intro!: mult_pos_pos)
qed

lemma effective_bandwidth_le:
  assumes "0 < bw"
  shows "effective_bandwidth bw q qsat f1 \<le> bw"
proof -
  have "f1 + (1 - f1) * of_int (r - 1) / of_int (qsat - 1) \<le> 1" if "0 < f1" "f1 < 1" "r < qsat" "1 \<le> r" for r :: int
  proof -
    have "of_int (r - 1) / (of_int (qsat - 1) :: rat) \<le> 1" using that by (auto simp: divide_le_eq)
    then have "(1 - f1) * (of_int (r - 1) / of_int (qsat - 1)) \<le> (1 - f1) * 1" using that by (intro mult_left_mono) auto
    then show ?thesis by simp
  qed
  then have "bw * (f1 + (1 - f1) * of_int (r - 1) / of_int (qsat - 1)) \<le> bw * 1" if "0 < f1" "f1 < 1" "r < qsat" "1 \<le> r" for r :: int
    using that assms by (intro mult_left_mono) auto
  then show ?thesis using assms unfolding effective_bandwidth_def Let_def by auto
qed

lemma service_ticks_total:
  assumes "tier_cfg_ok c" "0 \<le> bytes"
  obtains t where "service_ticks c d bytes q = Inr t" "0 \<le> t"
proof -
  have "\<exists>t. service_ticks c d bytes q = Inr t \<and> 0 \<le> t"
  proof (cases "tc_service c")
    case None
    have bw: "0 < tc_read_bw c" "0 < tc_write_bw c" "0 \<le> tc_read_base c" "0 \<le> tc_write_base c"
      using assms(1) None by (auto simp: tier_cfg_ok_def validate_tier_def split: if_splits)
    show ?thesis
      using None assms(2) bw effective_bandwidth_pos [OF bw(1)] effective_bandwidth_pos [OF bw(2)]
      by (cases d) (auto simp: service_ticks_def Let_def max_service_ticks_def divide_nonneg_pos less_imp_le)
  next
    case (Some f)
    have "1 \<le> f d bytes (max 1 q)" using assms Some by (auto simp: tier_cfg_ok_def)
    then show ?thesis using Some assms(2) by (auto simp: service_ticks_def Let_def)
  qed
  then show thesis using that by blast
qed

lemma jittered_nonneg: "0 \<le> svc \<Longrightarrow> 0 \<le> jittered f svc"
  by (auto simp: jittered_def Let_def max_service_ticks_def intro!: add_nonneg_nonneg)

section \<open>Starting a job\<close>

interpretation jobs: weak_order job_less
  by unfold_locales (auto simp: job_less_def split: if_splits)

definition others_same :: "nat \<Rightarrow> job list \<Rightarrow> job list \<Rightarrow> bool" where
  "others_same i h h' \<longleftrightarrow> (\<forall>k. k \<noteq> i \<longrightarrow> (\<forall>sc. served k sc h' = served k sc h) \<and> (\<forall>d. moving k d h' = moving k d h))"

lemma others_same_refl [simp]: "others_same i h h"
  by (simp add: others_same_def)

lemma others_same_trans: "others_same i h h1 \<Longrightarrow> others_same i h1 h2 \<Longrightarrow> others_same i h h2"
  by (simp add: others_same_def)

lemma tier_ok_others: "others_same i h h' \<Longrightarrow> k \<noteq> i \<Longrightarrow> tier_ok k h' ts = tier_ok k h ts"
  by (simp add: others_same_def tier_ok_def)

lemma start_job_total:
  assumes "tier_cfg_ok (ts_cfg ts)" "0 \<le> jb_bytes nj"
  obtains t where "0 \<le> t"
    "start_job nj sc start ts h = Inr (case jb_dir nj of ReadDir \<Rightarrow> ts\<lparr>ts_active_read := ts_active_read ts + 1\<rparr>
       | WriteDir \<Rightarrow> ts\<lparr>ts_active_write := ts_active_write ts + 1\<rparr>,
       heap_push job_less (nj\<lparr>jb_server := sc, jb_complete := start + t\<rparr>) h)"
proof -
  define q where "q = (case jb_dir nj of ReadDir \<Rightarrow> ts_active_read ts + 1 | WriteDir \<Rightarrow> ts_active_write ts + 1)"
  obtain v where "service_ticks (ts_cfg ts) (jb_dir nj) (jb_bytes nj) q = Inr v" "0 \<le> v"
    by (rule service_ticks_total [OF assms])
  then show thesis
    using that [of "jittered (jb_jitter nj) v"] jittered_nonneg [of v] by (simp add: start_job_def Let_def q_def)
qed

text \<open>What one round of either loop of \<open>assign\<close> keeps.\<close>

definition round_keeps :: "nat \<Rightarrow> tick \<Rightarrow> tier_state \<Rightarrow> job list \<Rightarrow> tier_state \<Rightarrow> job list \<Rightarrow> bool" where
  "round_keeps i start ts h ts' h' \<longleftrightarrow>
     (tier_ok i h ts \<longrightarrow> tier_ok i h' ts') \<and>
     ts_cfg ts' = ts_cfg ts \<and>
     others_same i h h' \<and>
     (jobs.is_heap h \<longrightarrow> jobs.is_heap h') \<and>
     tier_ids ts' + heap_ids h' = tier_ids ts + heap_ids h \<and>
     (\<forall>j\<in>set h'. j \<in> set h \<or> jb_tier j = i \<and> start \<le> jb_complete j) \<and>
     set (ts_readq ts') \<subseteq> set (ts_readq ts) \<and> set (ts_writeq ts') \<subseteq> set (ts_writeq ts)"

lemma round_keeps_refl: "round_keeps i start ts h ts h"
  by (simp add: round_keeps_def)

lemma round_keeps_trans:
  assumes "round_keeps i start ts h ts1 h1" "round_keeps i start ts1 h1 ts2 h2"
  shows "round_keeps i start ts h ts2 h2"
  using assms unfolding round_keeps_def by (auto intro: others_same_trans)

lemma push_keeps:
  fixes nj :: job and start t :: int and sc :: server_class
  defines "j1 \<equiv> nj\<lparr>jb_server := sc, jb_complete := start + t\<rparr>"
  assumes "0 \<le> t" "jb_tier nj = i"
  shows "others_same i h (heap_push job_less j1 h)"
    "jobs.is_heap h \<longrightarrow> jobs.is_heap (heap_push job_less j1 h)"
    "heap_ids (heap_push job_less j1 h) = add_mset (jb_id nj) (heap_ids h)"
    "\<forall>j\<in>set (heap_push job_less j1 h). j \<in> set h \<or> jb_tier j = i \<and> start \<le> jb_complete j"
    "served i sc' (heap_push job_less j1 h) = served i sc' h + (if sc = sc' then 1 else 0)"
    "moving i d (heap_push job_less j1 h) = moving i d h + (if jb_dir nj = d then 1 else 0)"
proof -
  have s: "set (heap_push job_less j1 h) = insert j1 (set h)"
    using arg_cong [OF mset_heap_push [of job_less "j1" h], of set_mset] by simp
  show "\<forall>j\<in>set (heap_push job_less j1 h). j \<in> set h \<or> jb_tier j = i \<and> start \<le> jb_complete j"
    using assms unfolding s by (auto simp: j1_def)
qed (use assms in \<open>auto simp: others_same_def served_push moving_push heap_ids_def mset_heap_push jobs.heap_push_heap j1_def\<close>)

definition use_server :: "server_class \<Rightarrow> tier_state \<Rightarrow> tier_state" where
  "use_server sc ts = (case sc of ReadServer \<Rightarrow> ts\<lparr>ts_free_read := ts_free_read ts - 1\<rparr>
                                | WriteServer \<Rightarrow> ts\<lparr>ts_free_write := ts_free_write ts - 1\<rparr>)"

text \<open>The tier after the start: the head is gone from its queue, a server and the direction are counted.\<close>

definition after_start :: "server_class \<Rightarrow> direction \<Rightarrow> job list \<Rightarrow> job list \<Rightarrow> tier_state \<Rightarrow> tier_state" where
  "after_start sc d r w ts =
     (let ts0 = ts\<lparr>ts_readq := r, ts_writeq := w\<rparr>;
          ts1 = (case d of ReadDir \<Rightarrow> ts0\<lparr>ts_active_read := ts_active_read ts0 + 1\<rparr>
                         | WriteDir \<Rightarrow> ts0\<lparr>ts_active_write := ts_active_write ts0 + 1\<rparr>)
      in use_server sc ts1)"

lemma after_start_fields [simp]:
  "ts_cfg (after_start sc d r w ts) = ts_cfg ts"
  "ts_readq (after_start sc d r w ts) = r" "ts_writeq (after_start sc d r w ts) = w"
  "ts_free_read (after_start sc d r w ts) = ts_free_read ts - (if sc = ReadServer then 1 else 0)"
  "ts_free_write (after_start sc d r w ts) = ts_free_write ts - (if sc = WriteServer then 1 else 0)"
  "ts_active_read (after_start sc d r w ts) = ts_active_read ts + (if d = ReadDir then 1 else 0)"
  "ts_active_write (after_start sc d r w ts) = ts_active_write ts + (if d = WriteDir then 1 else 0)"
  by (cases sc; cases d; simp add: after_start_def use_server_def)+

lemma tier_ok_start:
  assumes ok: "tier_ok i h ts"
    and free: "0 < (case sc of ReadServer \<Rightarrow> ts_free_read ts | WriteServer \<Rightarrow> ts_free_write ts)"
    and sub: "set r \<subseteq> set (ts_readq ts)" "set w \<subseteq> set (ts_writeq ts)"
    and s: "\<And>sc'. served i sc' h1 = served i sc' h + (if sc = sc' then 1 else 0)"
    and m: "\<And>d'. moving i d' h1 = moving i d' h + (if d = d' then 1 else 0)"
  shows "tier_ok i h1 (after_start sc d r w ts)"
  using ok free sub unfolding tier_ok_def after_start_fields s m
  by (cases sc; cases d; intro conjI; elim conjE; clarsimp; blast)

lemma start_round:
  assumes ok: "tier_ok i h ts"
    and free: "0 < (case sc of ReadServer \<Rightarrow> ts_free_read ts | WriteServer \<Rightarrow> ts_free_write ts)"
    and ts0: "ts0 = ts\<lparr>ts_readq := r, ts_writeq := w\<rparr>"
    and q: "ts_readq ts = nj # r \<and> ts_writeq ts = w \<or> ts_readq ts = r \<and> ts_writeq ts = nj # w"
  obtains ts1 h1 where "start_job nj sc start ts0 h = Inr (ts1, h1)" "round_keeps i start ts h (use_server sc ts1) h1"
proof -
  have nj: "jb_tier nj = i" "0 \<le> jb_bytes nj" using q ok by (auto simp: tier_ok_def)
  have "tier_cfg_ok (ts_cfg ts0)" using ok ts0 by (simp add: tier_ok_def)
  then obtain t where t: "0 \<le> t" "start_job nj sc start ts0 h = Inr (case jb_dir nj of ReadDir \<Rightarrow> ts0\<lparr>ts_active_read := ts_active_read ts0 + 1\<rparr>
       | WriteDir \<Rightarrow> ts0\<lparr>ts_active_write := ts_active_write ts0 + 1\<rparr>,
       heap_push job_less (nj\<lparr>jb_server := sc, jb_complete := start + t\<rparr>) h)" (is "_ = Inr (?ts1, ?h1)")
    using start_job_total [of ts0 nj sc start h] nj(2) by blast
  note k = push_keeps [OF t(1) nj(1), where h = h and start = start and sc = sc]
  have ts: "use_server sc ?ts1 = after_start sc (jb_dir nj) r w ts" unfolding after_start_def Let_def ts0 ..
  have sub: "set r \<subseteq> set (ts_readq ts)" "set w \<subseteq> set (ts_writeq ts)" using q by auto
  have "tier_ok i ?h1 (after_start sc (jb_dir nj) r w ts)" by (rule tier_ok_start [OF ok free sub k(5) k(6)])
  moreover have "tier_ids (after_start sc (jb_dir nj) r w ts) + heap_ids ?h1 = tier_ids ts + heap_ids h"
    unfolding k(3) tier_ids_def after_start_fields using q by (elim disjE conjE) simp_all
  ultimately have "round_keeps i start ts h (use_server sc ?ts1) ?h1"
    unfolding round_keeps_def ts after_start_fields using k(1,2,4) sub by blast
  then show thesis using that t(2) by blast
qed

lemma assign_read_keeps:
  "tier_ok i h ts \<Longrightarrow> \<exists>ts' h'. assign_read start ts h = Inr (ts', h') \<and> round_keeps i start ts h ts' h' \<and>
     (ts_free_read ts' = 0 \<or> ts_readq ts' = [] \<and> ts_writeq ts' = [])"
proof (induction start ts h rule: assign_read.induct)
  case (1 start ts h)
  show ?case
  proof (cases "ts_free_read ts > 0 \<and> (ts_readq ts \<noteq> [] \<or> ts_writeq ts \<noteq> [])")
    case False
    then have "assign_read start ts h = Inr (ts, h)" by (subst assign_read.simps) (simp only: False if_False)
    moreover have "0 \<le> ts_free_read ts" using 1(2) by (simp add: tier_ok_def)
    ultimately show ?thesis using False by (auto simp: round_keeps_refl)
  next
    case True
    obtain r w where "snd (pop_read_first ts) = ts\<lparr>ts_readq := r, ts_writeq := w\<rparr>"
        "ts_readq ts = fst (pop_read_first ts) # r \<and> ts_writeq ts = w \<or> ts_readq ts = r \<and> ts_writeq ts = fst (pop_read_first ts) # w"
      using True by (cases "ts_readq ts"; cases "ts_writeq ts") (force simp: pop_read_first_def)+
    then obtain ts1 h1 where s: "start_job (fst (pop_read_first ts)) ReadServer start (snd (pop_read_first ts)) h = Inr (ts1, h1)"
        "round_keeps i start ts h (use_server ReadServer ts1) h1"
      using start_round [OF 1(2), of ReadServer] True by (metis server_class.simps(3))
    then have "tier_ok i h1 (use_server ReadServer ts1)" using 1(2) by (simp add: round_keeps_def)
    then obtain ts' h' where t: "assign_read start (use_server ReadServer ts1) h1 = Inr (ts', h')"
        "round_keeps i start (use_server ReadServer ts1) h1 ts' h'" "ts_free_read ts' = 0 \<or> ts_readq ts' = [] \<and> ts_writeq ts' = []"
      using 1(1) [OF True s(1)] by (auto simp: use_server_def)
    have "assign_read start ts h = Inr (ts', h')" using True s(1) t(1) by (subst assign_read.simps) (simp add: use_server_def)
    then show ?thesis using round_keeps_trans [OF s(2) t(2)] t(3) by blast
  qed
qed

lemma assign_write_keeps:
  "tier_ok i h ts \<Longrightarrow> \<exists>ts' h'. assign_write start ts h = Inr (ts', h') \<and> round_keeps i start ts h ts' h' \<and>
     ts_free_read ts' = ts_free_read ts \<and> (ts_free_write ts' = 0 \<or> ts_readq ts' = [] \<and> ts_writeq ts' = [])"
proof (induction start ts h rule: assign_write.induct)
  case (1 start ts h)
  show ?case
  proof (cases "ts_free_write ts > 0 \<and> (ts_writeq ts \<noteq> [] \<or> ts_readq ts \<noteq> [])")
    case False
    then have "assign_write start ts h = Inr (ts, h)" by (subst assign_write.simps) (simp only: False if_False)
    moreover have "0 \<le> ts_free_write ts" using 1(2) by (simp add: tier_ok_def)
    ultimately show ?thesis using False by (auto simp: round_keeps_refl)
  next
    case True
    obtain r w where p: "snd (pop_write_first ts) = ts\<lparr>ts_readq := r, ts_writeq := w\<rparr>"
        "ts_readq ts = fst (pop_write_first ts) # r \<and> ts_writeq ts = w \<or> ts_readq ts = r \<and> ts_writeq ts = fst (pop_write_first ts) # w"
      using True by (cases "ts_readq ts"; cases "ts_writeq ts") (force simp: pop_write_first_def)+
    then obtain ts1 h1 where s: "start_job (fst (pop_write_first ts)) WriteServer start (snd (pop_write_first ts)) h = Inr (ts1, h1)"
        "round_keeps i start ts h (use_server WriteServer ts1) h1"
      using start_round [OF 1(2), of WriteServer] True by (metis server_class.simps(4))
    then have "tier_ok i h1 (use_server WriteServer ts1)" using 1(2) by (simp add: round_keeps_def)
    then obtain ts' h' where t: "assign_write start (use_server WriteServer ts1) h1 = Inr (ts', h')"
        "round_keeps i start (use_server WriteServer ts1) h1 ts' h'" "ts_free_read ts' = ts_free_read ts1"
        "ts_free_write ts' = 0 \<or> ts_readq ts' = [] \<and> ts_writeq ts' = []"
      using 1(1) [OF True s(1)] by (auto simp: use_server_def)
    have "ts_free_read ts1 = ts_free_read ts"
      using s(1) p(1) by (auto simp: start_job_def Let_def obind_Inr_iff split: direction.splits)
    moreover have "assign_write start ts h = Inr (ts', h')" using True s(1) t(1) by (subst assign_write.simps) (simp add: use_server_def)
    ultimately show ?thesis using round_keeps_trans [OF s(2) t(2)] t(3,4) by auto
  qed
qed

section \<open>The station\<close>

definition station_ids :: "station \<Rightarrow> int multiset" where
  "station_ids s = (\<Sum>ts\<leftarrow>st_tiers s. tier_ids ts) + heap_ids (st_inflight s) + mset (st_completed s)"

definition tiers_ok :: "station \<Rightarrow> bool" where
  "tiers_ok s \<longleftrightarrow>
     (\<forall>i < length (st_tiers s). tier_ok i (st_inflight s) (st_tiers s ! i)) \<and>
     jobs.is_heap (st_inflight s) \<and>
     (\<forall>j \<in> set (st_inflight s). jb_tier j < length (st_tiers s) \<and> st_last s \<le> jb_complete j)"

definition all_work_conserving :: "station \<Rightarrow> bool" where
  "all_work_conserving s \<longleftrightarrow> (\<forall>i < length (st_tiers s). work_conserving (st_tiers s ! i))"

definition station_ok :: "station \<Rightarrow> bool" where
  "station_ok s \<longleftrightarrow> tiers_ok s \<and> all_work_conserving s"

definition same_counters :: "station \<Rightarrow> station \<Rightarrow> bool" where
  "same_counters s s' \<longleftrightarrow> st_last s' = st_last s \<and> st_next s' = st_next s \<and> length (st_tiers s') = length (st_tiers s) \<and>
     map ts_cfg (st_tiers s') = map ts_cfg (st_tiers s)"

lemma assign_ok:
  assumes ok: "tiers_ok s" and i: "i < length (st_tiers s)" and start: "st_last s \<le> start"
  obtains s' where "assign i start s = Inr s'" "tiers_ok s'" "same_counters s s'" "st_completed s' = st_completed s"
    "station_ids s' = station_ids s" "work_conserving (st_tiers s' ! i)" "\<And>k. k \<noteq> i \<Longrightarrow> st_tiers s' ! k = st_tiers s ! k"
    "\<And>j. j \<in> set (st_inflight s') \<Longrightarrow> j \<in> set (st_inflight s) \<or> start \<le> jb_complete j"
proof -
  let ?ts = "st_tiers s ! i" and ?h = "st_inflight s"
  have t: "tier_ok i ?h ?ts" using ok i by (simp add: tiers_ok_def)
  obtain ts1 h1 where r: "assign_read start ?ts ?h = Inr (ts1, h1)" "round_keeps i start ?ts ?h ts1 h1"
      "ts_free_read ts1 = 0 \<or> ts_readq ts1 = [] \<and> ts_writeq ts1 = []"
    using assign_read_keeps [OF t] by blast
  have "tier_ok i h1 ts1" using r(2) t by (simp add: round_keeps_def)
  then obtain ts2 h2 where w: "assign_write start ts1 h1 = Inr (ts2, h2)" "round_keeps i start ts1 h1 ts2 h2"
      "ts_free_read ts2 = ts_free_read ts1" "ts_free_write ts2 = 0 \<or> ts_readq ts2 = [] \<and> ts_writeq ts2 = []"
    using assign_write_keeps by blast
  define s' where "s' = s\<lparr>st_tiers := (st_tiers s)[i := ts2], st_inflight := h2\<rparr>"
  have k: "round_keeps i start ?ts ?h ts2 h2" by (rule round_keeps_trans [OF r(2) w(2)])
  have t2: "tier_ok i h2 ts2" using k t by (simp add: round_keeps_def)
  have o: "others_same i ?h h2" using k by (simp add: round_keeps_def)
  have jobs: "j \<in> set ?h \<or> jb_tier j = i \<and> start \<le> jb_complete j" if "j \<in> set h2" for j
    using k that by (simp add: round_keeps_def)
  have "tier_ok n h2 ((st_tiers s)[i := ts2] ! n)" if "n < length (st_tiers s)" for n
    using that t2 ok tier_ok_others [OF o, of n "st_tiers s ! n"] by (cases "n = i") (auto simp: tiers_ok_def)
  moreover have "jobs.is_heap h2" using k ok by (simp add: round_keeps_def tiers_ok_def)
  moreover have "jb_tier j < length (st_tiers s) \<and> st_last s \<le> jb_complete j" if "j \<in> set h2" for j
    using jobs [OF that] ok i start by (auto simp: tiers_ok_def)
  ultimately have ok': "tiers_ok s'" by (simp add: tiers_ok_def s'_def)
  have "(\<Sum>x\<leftarrow>(st_tiers s)[i := ts2]. tier_ids x) + heap_ids h2 + tier_ids ?ts = (\<Sum>x\<leftarrow>st_tiers s. tier_ids x) + (tier_ids ts2 + heap_ids h2)"
    using sum_list_upd [OF i, where f = tier_ids and y = ts2] by (simp add: ac_simps)
  also have "\<dots> = (\<Sum>x\<leftarrow>st_tiers s. tier_ids x) + heap_ids ?h + tier_ids ?ts" using k by (simp add: round_keeps_def)
  finally have ids: "station_ids s' = station_ids s" by (simp add: station_ids_def s'_def)
  have wc: "work_conserving ts2"
  proof -
    have "set (ts_readq ts2) \<subseteq> set (ts_readq ts1)" "set (ts_writeq ts2) \<subseteq> set (ts_writeq ts1)"
      using w(2) unfolding round_keeps_def by blast+
    then have "ts_free_read ts2 = 0 \<or> ts_readq ts2 = [] \<and> ts_writeq ts2 = []" using r(3) w(3) by auto
    then show ?thesis using w(4) unfolding work_conserving_def by force
  qed
  have cfg: "map ts_cfg ((st_tiers s)[i := ts2]) = map ts_cfg (st_tiers s)"
    using k by (simp add: map_update round_keeps_def list_update_same_conv i)
  show thesis
  proof (rule that)
    show "assign i start s = Inr s'" using i r(1) w(1) by (simp add: assign_def s'_def)
    show "same_counters s s'" using cfg by (simp add: same_counters_def s'_def)
  qed (use ok' ids wc i jobs in \<open>auto simp: s'_def\<close>)
qed

section \<open>Completions\<close>

lemma free_server_fields [simp]:
  "ts_cfg (free_server j ts) = ts_cfg ts" "ts_readq (free_server j ts) = ts_readq ts" "ts_writeq (free_server j ts) = ts_writeq ts"
  "ts_free_read (free_server j ts) = ts_free_read ts + (if jb_server j = ReadServer then 1 else 0)"
  "ts_free_write (free_server j ts) = ts_free_write ts + (if jb_server j = WriteServer then 1 else 0)"
  "ts_active_read (free_server j ts) = ts_active_read ts - (if jb_dir j = ReadDir then 1 else 0)"
  "ts_active_write (free_server j ts) = ts_active_write ts - (if jb_dir j = WriteDir then 1 else 0)"
  by (cases "jb_server j"; cases "jb_dir j"; simp add: free_server_def Let_def)+

lemma tier_ok_pop:
  assumes "heap_pop job_less h = Some (j, h')" "tier_ok i h ts"
  shows "tier_ok i h' (if jb_tier j = i then free_server j ts else ts)"
  using assms(2) unfolding tier_ok_def served_pop [OF assms(1)] moving_pop [OF assms(1)]
  by (cases "jb_tier j = i"; cases "jb_server j"; cases "jb_dir j"; simp)

lemma finish_job_ok:
  assumes ok: "tiers_ok s" and p: "heap_pop job_less (st_inflight s) = Some (j, h)"
  shows "tiers_ok (finish_job j h s)" "jb_tier j < length (st_tiers s)" "st_last s \<le> jb_complete j"
    "station_ids (finish_job j h s) = station_ids s" "same_counters s (finish_job j h s)"
    "\<And>k. k \<noteq> jb_tier j \<Longrightarrow> st_tiers (finish_job j h s) ! k = st_tiers s ! k"
proof -
  have j: "j \<in> set (st_inflight s)" and sub: "set h \<subseteq> set (st_inflight s)"
    using arg_cong [OF heap_pop_SomeD(3) [OF p], of set_mset] by auto
  then show t: "jb_tier j < length (st_tiers s)" and "st_last s \<le> jb_complete j" using ok by (auto simp: tiers_ok_def)
  have "tier_ok i h (st_tiers (finish_job j h s) ! i)" if "i < length (st_tiers s)" for i
    using tier_ok_pop [OF p, of i "st_tiers s ! i"] ok that t by (auto simp: finish_job_def tiers_ok_def nth_list_update)
  moreover have "jobs.is_heap h" using jobs.heap_pop_heap [OF _ p] ok by (simp add: tiers_ok_def)
  ultimately show "tiers_ok (finish_job j h s)" using ok sub by (auto simp: tiers_ok_def finish_job_def)
  have q: "tier_ids (free_server j ts) = tier_ids ts" for ts by (simp add: tier_ids_def)
  have "(\<Sum>x\<leftarrow>(st_tiers s)[jb_tier j := free_server j (st_tiers s ! jb_tier j)]. tier_ids x) = (\<Sum>x\<leftarrow>st_tiers s. tier_ids x)"
    using sum_list_upd [OF t, where f = tier_ids and y = "free_server j (st_tiers s ! jb_tier j)"] by (simp add: q)
  moreover have "heap_ids (st_inflight s) = add_mset (jb_id j) (heap_ids h)"
    by (simp add: heap_ids_def heap_pop_SomeD(3) [OF p])
  ultimately show "station_ids (finish_job j h s) = station_ids s" by (simp add: station_ids_def finish_job_def)
  show "same_counters s (finish_job j h s)"
    using t by (simp add: same_counters_def finish_job_def map_update list_update_same_conv)
  show "\<And>k. k \<noteq> jb_tier j \<Longrightarrow> st_tiers (finish_job j h s) ! k = st_tiers s ! k" by (simp add: finish_job_def)
qed

lemma same_counters_trans: "same_counters s s1 \<Longrightarrow> same_counters s1 s2 \<Longrightarrow> same_counters s s2"
  by (simp add: same_counters_def)

lemma root_earliest:
  assumes "jobs.is_heap h" "j \<in> set h"
  shows "jb_complete (hd h) \<le> jb_complete j"
proof -
  obtain k where "k < length h" "j = h ! k" using assms(2) by (auto simp: in_set_conv_nth)
  then have "\<not> job_less j (h ! 0)" using jobs.heap_root_least [OF assms(1)] by simp
  moreover have "h ! 0 = hd h" using assms(2) by (metis hd_conv_nth empty_iff list.set(1))
  ultimately show ?thesis unfolding job_less_def by (auto split: if_splits)
qed

lemma advance_loop_ok:
  "tiers_ok s \<Longrightarrow> all_work_conserving s \<Longrightarrow> \<exists>s'. advance_loop target s = Inr s' \<and> tiers_ok s' \<and> all_work_conserving s' \<and>
     same_counters s s' \<and> station_ids s' = station_ids s \<and> (\<forall>j \<in> set (st_inflight s'). target < jb_complete j)"
proof (induction target s rule: advance_loop.induct)
  case (1 target s)
  show ?case
  proof (cases "heap_pop job_less (st_inflight s)")
    case None
    then have "advance_loop target s = Inr s" by (subst advance_loop.simps) (simp only: option.case)
    then show ?thesis using 1(2,3) None by (auto simp: same_counters_def)
  next
    case (Some jh)
    then obtain j h where p: "heap_pop job_less (st_inflight s) = Some (j, h)" by (cases jh) auto
    note F = finish_job_ok [OF 1(2) p]
    show ?thesis
    proof (cases "target < jb_complete (hd (st_inflight s))")
      case True
      then have "advance_loop target s = Inr s" using p by (subst advance_loop.simps) simp
      moreover have "\<forall>j \<in> set (st_inflight s). target < jb_complete j"
        using True root_earliest [of "st_inflight s"] 1(2) by (fastforce simp: tiers_ok_def)
      ultimately show ?thesis using 1(2,3) by (auto simp: same_counters_def)
    next
      case False
      have c: "jb_tier j < length (st_tiers (finish_job j h s))" "st_last (finish_job j h s) \<le> jb_complete j"
        using F(2,3) by (simp_all add: finish_job_def)
      obtain s1 where a: "assign (jb_tier j) (jb_complete j) (finish_job j h s) = Inr s1" "tiers_ok s1" "same_counters (finish_job j h s) s1"
          "station_ids s1 = station_ids (finish_job j h s)" "work_conserving (st_tiers s1 ! jb_tier j)"
          "\<And>k. k \<noteq> jb_tier j \<Longrightarrow> st_tiers s1 ! k = st_tiers (finish_job j h s) ! k"
        using assign_ok [OF F(1) c] by metis
      have len: "length (st_tiers s1) = length (st_tiers s)" using a(3) F(5) by (simp add: same_counters_def)
      have "work_conserving (st_tiers s1 ! k)" if "k < length (st_tiers s)" for k
      proof (cases "k = jb_tier j")
        case True
        then show ?thesis using a(5) by simp
      next
        case other: False
        then have "st_tiers s1 ! k = st_tiers s ! k" using a(6) F(6) by metis
        then show ?thesis using 1(3) that by (simp add: all_work_conserving_def)
      qed
      then have "all_work_conserving s1" using len by (simp add: all_work_conserving_def)
      then obtain s2 where "advance_loop target s1 = Inr s2" "tiers_ok s2" "all_work_conserving s2" "same_counters s1 s2"
          "station_ids s2 = station_ids s1" "\<forall>j \<in> set (st_inflight s2). target < jb_complete j"
        using 1(1) [OF p refl False _ a(1) a(2)] F(2) by auto
      moreover have "advance_loop target s = advance_loop target s1"
        using p False F(2) a(1) by (subst advance_loop.simps) simp
      ultimately show ?thesis
        using a(3,4) F(4,5) same_counters_trans by metis
    qed
  qed
qed

end
