(* ===== verification/Station_Properties.thy ===== *)
theory Station_Properties
  imports Station_Safe
begin

text \<open>
  What the transfer station promises its callers over every sequence of submissions and polls: the
  server accounting and work conservation, polling in steps or at once, and completion of every
  accepted job.
\<close>

section \<open>Submitting and polling\<close>

lemma advance_ok:
  assumes "station_ok s"
  obtains s' where "advance t s = Inr s'" "station_ok s'" "station_ids s' = station_ids s" "st_next s' = st_next s"
    "st_last s' = max t (st_last s)" "length (st_tiers s') = length (st_tiers s)" "map ts_cfg (st_tiers s') = map ts_cfg (st_tiers s)"
proof (cases "t \<le> st_last s")
  case True
  then show ?thesis using that [of s] assms by (simp add: advance_def)
next
  case False
  obtain s1 where s1: "advance_loop t s = Inr s1" "tiers_ok s1" "all_work_conserving s1" "same_counters s s1"
      "station_ids s1 = station_ids s" "\<forall>j \<in> set (st_inflight s1). t < jb_complete j"
    using advance_loop_ok [of s t] assms unfolding station_ok_def by blast
  have "station_ok (s1\<lparr>st_last := t\<rparr>)"
    using s1(2,3,6) by (auto simp: station_ok_def tiers_ok_def all_work_conserving_def)
  moreover have "station_ids (s1\<lparr>st_last := t\<rparr>) = station_ids s" using s1(5) by (simp add: station_ids_def)
  moreover have "advance t s = Inr (s1\<lparr>st_last := t\<rparr>)" using False s1(1) by (simp add: advance_def)
  ultimately show ?thesis using that s1(4) False by (simp add: same_counters_def)
qed

lemma poll_ok:
  assumes "station_ok s"
  obtains xs s' where "poll t s = Inr (xs, s')" "station_ok s'" "mset xs + station_ids s' = station_ids s" "st_next s' = st_next s"
    "map ts_cfg (st_tiers s') = map ts_cfg (st_tiers s)"
proof -
  obtain s1 where s1: "advance t s = Inr s1" "station_ok s1" "station_ids s1 = station_ids s" "st_next s1 = st_next s"
      "map ts_cfg (st_tiers s1) = map ts_cfg (st_tiers s)"
    using advance_ok [OF assms, of t] by metis
  have "station_ok (s1\<lparr>st_completed := []\<rparr>)" using s1(2) by (simp add: station_ok_def tiers_ok_def all_work_conserving_def)
  moreover have "mset (st_completed s1) + station_ids (s1\<lparr>st_completed := []\<rparr>) = station_ids s" using s1(3) by (simp add: station_ids_def ac_simps)
  ultimately show thesis using that [of "st_completed s1" "s1\<lparr>st_completed := []\<rparr>"] s1(1,4,5) by (simp add: poll_def)
qed

lemma push_queue_ok:
  assumes "tier_ok i h ts" "jb_tier nj = i" "0 \<le> jb_bytes nj"
  shows "tier_ok i h (push_queue nj ts)" "tier_ids (push_queue nj ts) = add_mset (jb_id nj) (tier_ids ts)"
  using assms by (cases "jb_dir nj"; simp add: tier_ok_def push_queue_def tier_ids_def)+

lemma submit_ok:
  assumes ok: "station_ok s" and j: "0 \<le> tj_tier j" "tj_tier j < int (length (st_tiers s))" "0 \<le> tj_bytes j"
  obtains k b s' where "submit j s = Inr ((k, b), s')" "station_ok s'"
    "if b then k = st_next s + 1 \<and> st_next s' = k \<and> station_ids s' = add_mset k (station_ids s)
     else k = 0 \<and> st_next s' = st_next s \<and> station_ids s' = station_ids s"
    "map ts_cfg (st_tiers s') = map ts_cfg (st_tiers s)" "tc_max_depth (ts_cfg (st_tiers s ! nat (tj_tier j))) = 0 \<Longrightarrow> b"
proof -
  define i where "i = nat (tj_tier j)"
  obtain s1 where s1: "advance (tj_submit j) s = Inr s1" "station_ok s1" "station_ids s1 = station_ids s" "st_next s1 = st_next s"
      "length (st_tiers s1) = length (st_tiers s)" "map ts_cfg (st_tiers s1) = map ts_cfg (st_tiers s)"
    using advance_ok [OF ok, of "tj_submit j"] by metis
  have i: "i < length (st_tiers s1)" using j s1(5) by (simp add: i_def)
  have cfg: "ts_cfg (st_tiers s1 ! i) = ts_cfg (st_tiers s ! i)" using s1(5,6) i by (metis nth_map)
  define full where "full = (tc_max_depth (ts_cfg (st_tiers s1 ! i)) > 0 \<and>
    int (length (case tj_dir j of ReadDir \<Rightarrow> ts_readq (st_tiers s1 ! i) | WriteDir \<Rightarrow> ts_writeq (st_tiers s1 ! i))) \<ge> tc_max_depth (ts_cfg (st_tiers s1 ! i)))"
  define nj where "nj = \<lparr>jb_id = st_next s1 + 1, jb_tier = i, jb_dir = tj_dir j, jb_bytes = tj_bytes j, jb_submit = tj_submit j,
                         jb_complete = 0, jb_server = ReadServer, jb_jitter = tj_jitter j\<rparr>"
  define s2 where "s2 = s1\<lparr>st_next := st_next s1 + 1, st_tiers := (st_tiers s1)[i := push_queue nj (st_tiers s1 ! i)]\<rparr>"
  define start where "start = (if tj_submit j < st_last s2 then st_last s2 else tj_submit j)"
  have sub: "submit j s = (if full then Inr ((0, False), s1) else obind (assign i start s2) (\<lambda>s3. Inr ((st_next s1 + 1, True), s3)))"
    unfolding full_def start_def s2_def nj_def i_def submit_def check_tier_def Let_def using j s1(1) by simp
  show thesis
  proof (cases full)
    case True
    then have "tc_max_depth (ts_cfg (st_tiers s ! i)) \<noteq> 0" using cfg by (auto simp: full_def)
    then show thesis using that [of 0 False s1] True sub s1 by (simp add: i_def)
  next
    case False
    have nj: "jb_tier nj = i" "0 \<le> jb_bytes nj" "jb_id nj = st_next s1 + 1" using j by (simp_all add: nj_def)
    have t1: "tier_ok i (st_inflight s1) (st_tiers s1 ! i)" using s1(2) i by (simp add: station_ok_def tiers_ok_def)
    note P = push_queue_ok [OF t1 nj(1,2)]
    have ok2: "tiers_ok s2" using s1(2) P(1) i by (auto simp: station_ok_def tiers_ok_def s2_def nth_list_update)
    have ids2: "station_ids s2 = add_mset (st_next s1 + 1) (station_ids s1)"
      using sum_list_upd [OF i, where f = tier_ids and y = "push_queue nj (st_tiers s1 ! i)"] P(2) nj(3)
      by (simp add: station_ids_def s2_def)
    have cfg2: "map ts_cfg (st_tiers s2) = map ts_cfg (st_tiers s1)"
      using i by (cases "jb_dir nj") (simp_all add: s2_def map_update push_queue_def list_update_same_conv)
    have i2: "i < length (st_tiers s2)" using i by (simp add: s2_def)
    have st: "st_last s2 \<le> start" by (simp add: start_def)
    obtain s3 where s3: "assign i start s2 = Inr s3" "tiers_ok s3" "same_counters s2 s3" "station_ids s3 = station_ids s2"
        "work_conserving (st_tiers s3 ! i)" "\<And>k. k \<noteq> i \<Longrightarrow> st_tiers s3 ! k = st_tiers s2 ! k"
      using assign_ok [OF ok2 i2 st] by metis
    have "work_conserving (st_tiers s3 ! k)" if "k < length (st_tiers s3)" for k
      using that s3(3,5) s3(6) [of k] s1(2) by (cases "k = i") (auto simp: s2_def station_ok_def all_work_conserving_def same_counters_def)
    then have "station_ok s3" using s3(2) by (simp add: station_ok_def all_work_conserving_def)
    then show thesis
      using that [of "st_next s1 + 1" True s3] sub False s3(1,3,4) ids2 s1(3,4,6) cfg2 by (simp add: same_counters_def) (simp add: s2_def)
  qed
qed

section \<open>Reachable stations\<close>

text \<open>The list holds the ids that polls have returned so far. Callers submit within the tiers.\<close>

inductive station_reach :: "tier_config list \<Rightarrow> int list \<Rightarrow> station \<Rightarrow> bool" for tcs where
  reach_new: "new_station tcs = Inr s \<Longrightarrow> \<forall>c \<in> set tcs. tier_cfg_ok c \<Longrightarrow> station_reach tcs [] s"
| reach_submit: "station_reach tcs out s \<Longrightarrow> submit j s = Inr (r, s') \<Longrightarrow> station_reach tcs out s'"
| reach_poll: "station_reach tcs out s \<Longrightarrow> poll t s = Inr (xs, s') \<Longrightarrow> station_reach tcs (out @ xs) s'"

lemma new_tiers_ok:
  "new_tiers tcs = Inr tss \<Longrightarrow> \<forall>c \<in> set tcs. tier_cfg_ok c \<Longrightarrow>
   (\<forall>ts \<in> set tss. tier_ok i [] ts \<and> work_conserving ts \<and> tier_ids ts = {#}) \<and> length tss = length tcs"
proof (induction tcs arbitrary: tss)
  case (Cons c tcs)
  then obtain ts where n: "validate_tier c = None" "new_tiers tcs = Inr ts"
      "tss = \<lparr>ts_cfg = c, ts_readq = [], ts_writeq = [], ts_free_read = tc_nread c, ts_free_write = tc_nwrite c, ts_active_read = 0, ts_active_write = 0\<rparr> # ts"
    by (auto split: option.splits sum.splits)
  have "0 \<le> tc_nread c" "0 \<le> tc_nwrite c" using n(1) by (auto simp: validate_tier_def split: if_splits)
  then have "tier_ok i [] (hd tss) \<and> work_conserving (hd tss) \<and> tier_ids (hd tss) = {#}"
    using Cons.prems(2) n(3) by (simp add: tier_ok_def served_def moving_def work_conserving_def tier_ids_def)
  then show ?case using Cons.IH [OF n(2)] Cons.prems(2) n(3) by simp
qed simp

lemma new_station_ok:
  assumes "new_station tcs = Inr s" "\<forall>c \<in> set tcs. tier_cfg_ok c"
  shows "station_ok s" "station_ids s = {#}" "st_next s = 0"
proof -
  obtain tss where t: "new_tiers tcs = Inr tss" "s = \<lparr>st_tiers = tss, st_inflight = [], st_last = 0, st_next = 0, st_completed = []\<rparr>"
    using assms(1) by (auto simp: new_station_def split: if_splits sum.splits)
  note N = new_tiers_ok [OF t(1) assms(2)]
  have "tier_ok i [] (tss ! i) \<and> work_conserving (tss ! i)" if "i < length tss" for i using N [of i] that by simp
  moreover have "jobs.is_heap []" by (simp add: jobs.is_heap_def)
  ultimately show "station_ok s" by (simp add: station_ok_def tiers_ok_def all_work_conserving_def t(2))
  have "\<forall>ts \<in> set tss. tier_ids ts = {#}" using N by blast
  then have "(\<Sum>x\<leftarrow>tss. tier_ids x) = {#}" by (induction tss) auto
  then show "station_ids s = {#}" by (simp add: station_ids_def t(2) heap_ids_def)
qed (use assms in \<open>auto simp: new_station_def split: if_splits sum.splits\<close>)

lemma submit_Inr_args:
  "submit j s = Inr r \<Longrightarrow> 0 \<le> tj_tier j \<and> tj_tier j < int (length (st_tiers s)) \<and> 0 \<le> tj_bytes j"
  by (auto simp: submit_def check_tier_def split: if_splits)

lemma station_reach_ok:
  "station_reach tcs out s \<Longrightarrow> station_ok s \<and> 0 \<le> st_next s \<and> mset out + station_ids s = mset [1..st_next s]"
proof (induction rule: station_reach.induct)
  case (reach_new s)
  then show ?case using new_station_ok by simp
next
  case (reach_submit out s j r s')
  then have ok: "station_ok s" by blast
  obtain k b s2 where k: "submit j s = Inr ((k, b), s2)" "station_ok s2"
      "if b then k = st_next s + 1 \<and> st_next s2 = k \<and> station_ids s2 = add_mset k (station_ids s)
       else k = 0 \<and> st_next s2 = st_next s \<and> station_ids s2 = station_ids s"
    using submit_ok [OF ok] submit_Inr_args [OF reach_submit.hyps(2)] by metis
  have "mset [1..st_next s + 1] = add_mset (st_next s + 1) (mset [1..st_next s])"
    using reach_submit.IH upto_rec2 [of 1 "st_next s + 1"] by simp
  then show ?case using k reach_submit by (cases b) auto
next
  case (reach_poll out s t xs s')
  then have ok: "station_ok s" by blast
  then show ?case using poll_ok [OF ok, of t] reach_poll by (metis Pair_inject mset_append sum.inject(2) union_assoc)
qed

section \<open>Polling in steps\<close>

text \<open>Neither the clock nor the ids already collected influence the completion loop.\<close>

definition rebase :: "tick \<Rightarrow> int list \<Rightarrow> station \<Rightarrow> station" where
  "rebase x xs s = s\<lparr>st_last := x, st_completed := xs @ st_completed s\<rparr>"

lemma rebase_fields [simp]:
  "st_tiers (rebase x xs s) = st_tiers s" "st_inflight (rebase x xs s) = st_inflight s"
  "st_next (rebase x xs s) = st_next s" "st_last (rebase x xs s) = x" "st_completed (rebase x xs s) = xs @ st_completed s"
  by (simp_all add: rebase_def)

lemma assign_rebase: "assign i start (rebase x xs s) = obind (assign i start s) (\<lambda>s1. Inr (rebase x xs s1))"
  by (auto simp: assign_def rebase_def obind_def split: sum.splits)

lemma finish_rebase: "finish_job j h (rebase x xs s) = rebase x xs (finish_job j h s)"
  by (simp add: finish_job_def rebase_def)

lemma advance_loop_rebase: "advance_loop t (rebase x xs s) = obind (advance_loop t s) (\<lambda>s1. Inr (rebase x xs s1))"
proof (induction t s rule: advance_loop.induct)
  case (1 t s)
  show ?case
  proof (cases "heap_pop job_less (st_inflight s)")
    case None
    then show ?thesis by (subst (1 2) advance_loop.simps) (simp del: heap_pop_None)
  next
    case (Some jh)
    then obtain j h where p: "heap_pop job_less (st_inflight s) = Some (j, h)" by (cases jh) auto
    show ?thesis
    proof (cases "t < jb_complete (hd (st_inflight s)) \<or> length (st_tiers s) \<le> jb_tier j")
      case True
      then show ?thesis using p by (subst (1 2) advance_loop.simps) auto
    next
      case False
      then show ?thesis
        using p 1 [OF p refl]
        by (subst (1 2) advance_loop.simps) (cases "assign (jb_tier j) (jb_complete j) (finish_job j h s)"; simp add: finish_rebase assign_rebase)
    qed
  qed
qed

lemma advance_loop_compose: "t1 \<le> t2 \<Longrightarrow> obind (advance_loop t1 s) (advance_loop t2) = advance_loop t2 s"
proof (induction t1 s rule: advance_loop.induct)
  case (1 t1 s)
  show ?case
  proof (cases "heap_pop job_less (st_inflight s)")
    case None
    then have "advance_loop t1 s = Inr s" by (subst advance_loop.simps) (simp only: option.case)
    then show ?thesis by simp
  next
    case (Some jh)
    then obtain j h where p: "heap_pop job_less (st_inflight s) = Some (j, h)" by (cases jh) auto
    show ?thesis
    proof (cases "t1 < jb_complete (hd (st_inflight s))")
      case True
      then have "advance_loop t1 s = Inr s" using p by (subst advance_loop.simps) simp
      then show ?thesis by simp
    next
      case False
      have l: "advance_loop t s = (if length (st_tiers s) \<le> jb_tier j then Inl IndexOutOfRange
          else obind (assign (jb_tier j) (jb_complete j) (finish_job j h s)) (advance_loop t))" if "t1 \<le> t" for t
        using p False that by (subst advance_loop.simps) simp
      show ?thesis
      proof (cases "length (st_tiers s) \<le> jb_tier j")
        case True
        then show ?thesis using l [of t1] l [of t2] 1(2) by simp
      next
        case in_range: False
        show ?thesis
        proof (cases "assign (jb_tier j) (jb_complete j) (finish_job j h s)")
          case (Inl e)
          then show ?thesis using l [of t1] l [of t2] 1(2) in_range by simp
        next
          case (Inr s1)
          then show ?thesis using l [of t1] l [of t2] 1(1) [OF p refl False in_range Inr 1(2)] 1(2) in_range by simp
        qed
      qed
    qed
  qed
qed

lemma rebase_id: "rebase (st_last s) [] s = s"
  by (simp add: rebase_def)

lemma rebase_clear: "rebase (st_last s) (st_completed s) (s\<lparr>st_completed := []\<rparr>) = s"
  by (simp add: rebase_def)

lemma poll_past: "t \<le> st_last s \<Longrightarrow> poll t s = Inr (st_completed s, s\<lparr>st_completed := []\<rparr>)"
  by (simp add: poll_def advance_def)

lemma poll_later:
  "st_last s < t \<Longrightarrow> poll t s = obind (advance_loop t s) (\<lambda>s1. Inr (st_completed s1, s1\<lparr>st_last := t, st_completed := []\<rparr>))"
  by (auto simp: poll_def advance_def obind_def split: sum.splits)

lemma poll_cleared:
  "poll t s = obind (poll t (s\<lparr>st_completed := []\<rparr>)) (\<lambda>(ys, s2). Inr (st_completed s @ ys, s2))"
proof (cases "t \<le> st_last s")
  case True
  then show ?thesis by (simp add: poll_past)
next
  case False
  have "advance_loop t s = obind (advance_loop t (s\<lparr>st_completed := []\<rparr>)) (\<lambda>s1. Inr (rebase (st_last s) (st_completed s) s1))"
    using advance_loop_rebase [of t "st_last s" "st_completed s" "s\<lparr>st_completed := []\<rparr>"] unfolding rebase_clear .
  then show ?thesis
    using False by (cases "advance_loop t (s\<lparr>st_completed := []\<rparr>)") (simp_all add: poll_later rebase_def)
qed

section \<open>Completion\<close>

lemma idle_station_empty:
  assumes "station_ok s" "st_inflight s = []"
  shows "total_jobs s = 0"
proof -
  have "queued ts = 0" if "ts \<in> set (st_tiers s)" for ts
  proof -
    obtain i where i: "i < length (st_tiers s)" "ts = st_tiers s ! i" using \<open>ts \<in> set (st_tiers s)\<close> by (auto simp: in_set_conv_nth)
    then have ok: "tier_ok i [] ts" and wc: "work_conserving ts"
      using assms by (auto simp: station_ok_def tiers_ok_def all_work_conserving_def)
    have "1 \<le> tc_nread (ts_cfg ts) + tc_nwrite (ts_cfg ts)"
      using ok by (auto simp: tier_ok_def tier_cfg_ok_def validate_tier_def split: if_splits)
    then have "ts_free_read ts > 0 \<or> ts_free_write ts > 0" using ok by (auto simp: tier_ok_def served_def)
    then show "queued ts = 0" using wc by (auto simp: work_conserving_def queued_def)
  qed
  then have "(\<Sum>ts\<leftarrow>st_tiers s. queued ts) = 0" by simp
  then show ?thesis using assms(2) by (simp add: total_jobs_def)
qed

lemma finish_total: "jb_tier j < length (st_tiers s) \<Longrightarrow> heap_pop job_less (st_inflight s) = Some (j, h) \<Longrightarrow> total_jobs (finish_job j h s) < total_jobs s"
  using arg_cong [OF heap_pop_SomeD(3), of job_less "st_inflight s" j h size]
    sum_list_upd [of "jb_tier j" "st_tiers s" queued "free_server j (st_tiers s ! jb_tier j)"]
  by (simp add: total_jobs_def finish_job_def)

lemma drained_stays: "st_inflight s = [] \<Longrightarrow> advance_loop t s = Inr s"
  by (subst advance_loop.simps) (simp only: heap_pop_None [THEN iffD2] option.case)

lemma advance_loop_le: "advance_loop t s = Inr s' \<Longrightarrow> total_jobs s' \<le> total_jobs s"
proof (induction t s rule: advance_loop.induct)
  case (1 t s)
  show ?case
  proof (cases "heap_pop job_less (st_inflight s)")
    case None
    then show ?thesis using 1(2) drained_stays by simp
  next
    case (Some jh)
    then obtain j h where p: "heap_pop job_less (st_inflight s) = Some (j, h)" by (cases jh) auto
    show ?thesis
    proof (cases "t < jb_complete (hd (st_inflight s))")
      case True
      then show ?thesis using 1(2) p by (subst (asm) advance_loop.simps) simp
    next
      case False
      then obtain s1 where s1: "jb_tier j < length (st_tiers s)" "assign (jb_tier j) (jb_complete j) (finish_job j h s) = Inr s1" "advance_loop t s1 = Inr s'"
        using 1(2) p by (subst (asm) advance_loop.simps) (auto simp: obind_Inr_iff split: if_splits)
      then show ?thesis
        using 1(1) [OF p refl False _ s1(2,3)] assign_total [OF s1(2)] finish_total [OF s1(1) p] by simp
    qed
  qed
qed

lemma advance_drains: "station_ok s \<Longrightarrow> \<exists>t s'. advance_loop t s = Inr s' \<and> st_inflight s' = [] \<and> total_jobs s' = 0"
proof (induction "total_jobs s" arbitrary: s rule: less_induct)
  case less
  have ok: "tiers_ok s" "all_work_conserving s" using less.prems by (simp_all add: station_ok_def)
  show ?case
  proof (cases "heap_pop job_less (st_inflight s)")
    case None
    then show ?thesis using idle_station_empty [OF less.prems] drained_stays by auto
  next
    case (Some jh)
    then obtain j h where p: "heap_pop job_less (st_inflight s) = Some (j, h)" by (cases jh) auto
    note F = finish_job_ok [OF ok(1) p]
    let ?t0 = "jb_complete (hd (st_inflight s))"
    obtain s1 where s1: "advance_loop ?t0 s = Inr s1" "tiers_ok s1" "all_work_conserving s1"
        "\<forall>j \<in> set (st_inflight s1). ?t0 < jb_complete j"
      using advance_loop_ok [OF ok, of ?t0] by blast
    have "total_jobs s1 < total_jobs s"
    proof -
      obtain s0 where "assign (jb_tier j) (jb_complete j) (finish_job j h s) = Inr s0" "advance_loop ?t0 s0 = Inr s1"
        using s1(1) p F(2) by (subst (asm) advance_loop.simps) (auto simp: obind_Inr_iff)
      then show ?thesis using advance_loop_le assign_total finish_total [OF F(2) p] by (metis le_less_trans)
    qed
    then obtain t s2 where s2: "advance_loop t s1 = Inr s2" "st_inflight s2 = []" "total_jobs s2 = 0"
      using less.hyps s1(2,3) unfolding station_ok_def by blast
    define T where "T = max t ?t0"
    have "advance_loop T s = advance_loop T s1" using advance_loop_compose [of ?t0 T s] s1(1) by (simp add: T_def)
    also have "\<dots> = advance_loop T s2" using advance_loop_compose [of t T s1] s2(1) by (simp add: T_def)
    finally show ?thesis using drained_stays [OF s2(2)] s2 by metis
  qed
qed

section \<open>The promises\<close>

text \<open>C31 BC-S1 and BC-S2, over every sequence of submissions and polls: on every tier the free servers
  and the jobs they serve add up to the configured servers of both classes, the active counts
  are the jobs in service by direction, no server is free while a job waits; and every id
  handed out is in a queue, in service, completed or already polled, exactly once.\<close>

theorem station_accounting:
  assumes "station_reach tcs out s"
  shows "(\<forall>i < length (st_tiers s). let ts = st_tiers s ! i; h = st_inflight s in
      ts_free_read ts + int (served i ReadServer h) = tc_nread (ts_cfg ts) \<and>
      ts_free_write ts + int (served i WriteServer h) = tc_nwrite (ts_cfg ts) \<and>
      ts_active_read ts = int (moving i ReadDir h) \<and> ts_active_write ts = int (moving i WriteDir h) \<and>
      (ts_free_read ts > 0 \<or> ts_free_write ts > 0 \<longrightarrow> ts_readq ts = [] \<and> ts_writeq ts = [])) \<and>
    mset out + station_ids s = mset [1..st_next s]"
proof -
  have ok: "station_ok s" "mset out + station_ids s = mset [1..st_next s]" using station_reach_ok [OF assms] by blast+
  show ?thesis
    using ok unfolding Let_def station_ok_def tiers_ok_def all_work_conserving_def tier_ok_def work_conserving_def by blast
qed

text \<open>Polling is compositional: one poll at a later tick returns what a poll now and a poll then
  return together, in the same order, and leaves the same station; a panic of either is a
  panic of the late poll. The completion order does not depend on when callers look.\<close>

theorem polls_compose:
  assumes "t1 \<le> t2"
  shows "obind (poll t1 s) (\<lambda>(xs, s1). obind (poll t2 s1) (\<lambda>(ys, s2). Inr (xs @ ys, s2))) = poll t2 s"
proof (cases "t1 \<le> st_last s")
  case True
  then show ?thesis using poll_cleared [of t2 s] by (simp add: poll_past)
next
  case False
  note l = advance_loop_compose [OF assms, of s, symmetric]
  show ?thesis
  proof (cases "advance_loop t1 s")
    case (Inl e)
    then show ?thesis using l False assms by (simp add: poll_later)
  next
    case (Inr s1)
    have "advance_loop t2 (s1\<lparr>st_last := t1\<rparr>) = obind (advance_loop t2 s1) (\<lambda>s2. Inr (s2\<lparr>st_last := t1\<rparr>))"
      using advance_loop_rebase [of t2 t1 "[]" s1] by (simp add: rebase_def)
    then have "poll t2 (s1\<lparr>st_last := t1\<rparr>) = poll t2 s"
    proof (cases "t1 = t2")
      case True
      then show ?thesis using False Inr by (simp add: poll_later poll_past)
    next
      case later: False
      have "st_last s < t2" "t1 < t2" using False assms later by simp_all
      moreover have "advance_loop t2 s = advance_loop t2 s1" using l Inr by simp
      ultimately show ?thesis using \<open>advance_loop t2 (s1\<lparr>st_last := t1\<rparr>) = _\<close>
        by (cases "advance_loop t2 s1") (simp_all add: poll_later)
    qed
    then show ?thesis using Inr False poll_cleared [of t2 "s1\<lparr>st_last := t1\<rparr>"] by (simp add: poll_later)
  qed
qed

lemma sum_list_no_ids: "\<forall>m \<in> set ms. m = {#} \<Longrightarrow> sum_list ms = {#}"
  by (induction ms) auto

lemma poll_drains:
  assumes ok: "station_ok s"
  shows "\<exists>t. \<forall>t' \<ge> t. \<exists>xs s'. poll t' s = Inr (xs, s') \<and> total_jobs s' = 0 \<and> station_ids s' = {#} \<and> mset xs = station_ids s"
proof -
  obtain t s1 where s1: "advance_loop t s = Inr s1" "st_inflight s1 = []" "total_jobs s1 = 0" using advance_drains [OF ok] by blast
  have "\<exists>xs s'. poll t' s = Inr (xs, s') \<and> total_jobs s' = 0 \<and> station_ids s' = {#} \<and> mset xs = station_ids s"
    if "max t (st_last s + 1) \<le> t'" for t'
  proof -
    have "advance_loop t' s = Inr s1" using advance_loop_compose [of t t' s] that s1(1) drained_stays [OF s1(2)] by simp
    then have p: "poll t' s = Inr (st_completed s1, s1\<lparr>st_last := t', st_completed := []\<rparr>)" (is "_ = Inr (?xs, ?s2)")
      using that by (simp add: poll_later)
    have e: "total_jobs ?s2 = 0" "st_inflight ?s2 = []" using s1(2,3) by (simp_all add: total_jobs_def)
    have "tier_ids ts = {#}" if "ts \<in> set (st_tiers ?s2)" for ts
      using e(1) that by (auto simp: total_jobs_def queued_def tier_ids_def)
    then have "\<forall>m \<in> set (map tier_ids (st_tiers ?s2)). m = {#}" by simp
    then have "(\<Sum>ts\<leftarrow>st_tiers ?s2. tier_ids ts) = {#}" by (rule sum_list_no_ids)
    then have "station_ids ?s2 = {#}" using e(2) by (simp add: station_ids_def heap_ids_def)
    moreover have "mset ?xs + station_ids ?s2 = station_ids s" using poll_ok [OF ok, of t'] p by (metis Pair_inject sum.inject(2))
    ultimately show ?thesis using p e(1) by auto
  qed
  then show ?thesis by blast
qed

text \<open>Every accepted transfer completes: from any station the callers can build there is a tick such
  that a poll at it or later empties the station, and then every id ever handed out has been
  polled exactly once.\<close>

theorem station_drains:
  assumes "station_reach tcs out s"
  shows "\<exists>t. \<forall>t' \<ge> t. \<exists>xs s'. poll t' s = Inr (xs, s') \<and> total_jobs s' = 0 \<and> mset (out @ xs) = mset [1..st_next s]"
proof -
  have ok: "station_ok s" and ids: "mset out + station_ids s = mset [1..st_next s]" using station_reach_ok [OF assms] by blast+
  then have "mset (out @ xs) = mset [1..st_next s]" if "mset xs = station_ids s" for xs using that by simp
  then show ?thesis using poll_drains [OF ok] by metis
qed

section \<open>A concrete station\<close>

lemma case_Inr_iff: "(case x of Inl e \<Rightarrow> False | Inr y \<Rightarrow> P y) \<longleftrightarrow> (\<exists>y. x = Inr y \<and> P y)"
  by (cases x) auto

text \<open>One tier with one read and one write server.\<close>

definition demo_tier :: "int \<Rightarrow> tier_config" where
  "demo_tier base = \<lparr>tc_nread = 1, tc_nwrite = 1, tc_read_base = base, tc_write_base = base, tc_read_bw = 10, tc_write_bw = 10,
                tc_service = None, tc_qsat = 0, tc_f1 = 0, tc_max_depth = 0\<rparr>"

definition demo_transfer :: "direction \<Rightarrow> int \<Rightarrow> transfer_job" where
  "demo_transfer d b = \<lparr>tj_tier = 0, tj_dir = d, tj_bytes = b, tj_submit = 5, tj_jitter = 0\<rparr>"

definition demo_station :: "station outcome" where
  "demo_station = (case new_station [demo_tier 2] of Inl _ \<Rightarrow> Inl IndexOutOfRange
     | Inr s \<Rightarrow> obind (submit (demo_transfer ReadDir 30) s) (\<lambda>(_, s1). obind (submit (demo_transfer ReadDir 10) s1) (\<lambda>(_, s2).
         obind (submit (demo_transfer WriteDir 0) s2) (\<lambda>(_, s3). Inr s3))))"

lemma demo_station_reach:
  obtains s where "demo_station = Inr s" "station_reach [demo_tier 2] [] s"
proof -
  have "case demo_station of Inr s \<Rightarrow> True | _ \<Rightarrow> False" by code_simp
  then obtain s where s: "demo_station = Inr s" by (auto split: sum.splits)
  then obtain s0 r1 s1 r2 s2 r3 where
    "new_station [demo_tier 2] = Inr s0" "submit (demo_transfer ReadDir 30) s0 = Inr (r1, s1)"
    "submit (demo_transfer ReadDir 10) s1 = Inr (r2, s2)" "submit (demo_transfer WriteDir 0) s2 = Inr (r3, s)"
    by (auto simp: demo_station_def obind_Inr_iff split: sum.splits)
  moreover have "tier_cfg_ok (demo_tier 2)" by (simp add: tier_cfg_ok_def demo_tier_def validate_tier_def)
  ultimately have "station_reach [demo_tier 2] [] s" by (metis empty_iff empty_set reach_new reach_submit set_ConsD)
  then show thesis using that s by blast
qed

theorem station_accounting_witness:
  "\<exists>s. station_reach [demo_tier 2] [] s \<and> st_next s = 3 \<and> station_ids s = mset [1, 2, 3] \<and> ts_active_read (st_tiers s ! 0) = 2"
proof (rule demo_station_reach)
  fix s assume s: "demo_station = Inr s" "station_reach [demo_tier 2] [] s"
  have "case demo_station of Inr s \<Rightarrow> st_next s = 3 \<and> ts_active_read (st_tiers s ! 0) = 2 | _ \<Rightarrow> False" by code_simp
  then have n: "st_next s = 3" "ts_active_read (st_tiers s ! 0) = 2" unfolding s(1) by simp_all
  have "[1..3] = [1, 2, 3 :: int]" by code_simp
  then show ?thesis using station_accounting [OF s(2)] n s(2) by auto
qed

theorem polls_compose_witness:
  "\<exists>s xs s1 ys s2. demo_station = Inr s \<and> poll 7 s = Inr (xs, s1) \<and> poll 12 s1 = Inr (ys, s2) \<and> xs = [] \<and> ys = [2, 1, 3] \<and>
     poll 12 s = Inr (xs @ ys, s2)"
proof -
  have "case demo_station of Inr s \<Rightarrow> (case poll 7 s of Inr (xs, s1) \<Rightarrow> (case poll 12 s1 of Inr (ys, s2) \<Rightarrow> xs = [] \<and> ys = [2, 1, 3] | _ \<Rightarrow> False) | _ \<Rightarrow> False) | _ \<Rightarrow> False"
    by code_simp
  then obtain s xs s1 ys s2 where "demo_station = Inr s" "poll 7 s = Inr (xs, s1)" "poll 12 s1 = Inr (ys, s2)" "xs = []" "ys = [2, 1, 3]"
    unfolding case_Inr_iff by auto
  note e = this
  have "poll 12 s = Inr (xs @ ys, s2)" using polls_compose [of 7 12 s] e(2,3) by simp
  then show ?thesis using e by blast
qed

theorem station_drains_witness:
  "\<exists>s t xs s'. station_reach [demo_tier 2] [] s \<and> st_next s = 3 \<and> poll t s = Inr (xs, s') \<and> mset xs = mset [1, 2, 3]"
proof (rule demo_station_reach)
  fix s assume s: "demo_station = Inr s" "station_reach [demo_tier 2] [] s"
  have "case demo_station of Inr s \<Rightarrow> st_next s = 3 | _ \<Rightarrow> False" by code_simp
  then have n: "st_next s = 3" unfolding s(1) by simp
  have "[1..3] = [1, 2, 3 :: int]" by code_simp
  moreover obtain t where "\<forall>t' \<ge> t. \<exists>xs s'. poll t' s = Inr (xs, s') \<and> total_jobs s' = 0 \<and> mset ([] @ xs) = mset [1..st_next s]"
    using station_drains [OF s(2)] by blast
  ultimately have "\<exists>xs s'. poll t s = Inr (xs, s') \<and> mset xs = mset [1, 2, 3]" using n by (metis append_Nil order_refl)
  then show ?thesis using n s(2) by blast
qed

text \<open>A transfer whose service takes no time is due at the tick of its submission, which the clock has
  reached already: \<open>advance\<close> returns at once for that tick, so a poll at it does not report the
  transfer and its server stays taken, although the comment says that completions due at the
  clock were processed when the clock got there.\<close>

theorem due_completion_not_polled:
  "\<exists>s0 s1 s2 s3. new_station [demo_tier 0] = Inr s0 \<and> submit (demo_transfer ReadDir 0) s0 = Inr ((1, True), s1) \<and>
     poll 5 s1 = Inr ([], s2) \<and> map jb_complete (st_inflight s2) = [5] \<and> st_last s2 = 5 \<and> poll 6 s2 = Inr ([1], s3)"
proof -
  have "case new_station [demo_tier 0] of Inr s0 \<Rightarrow> (case submit (demo_transfer ReadDir 0) s0 of Inr (r, s1) \<Rightarrow> r = (1, True) \<and>
      (case poll 5 s1 of Inr (xs, s2) \<Rightarrow> xs = [] \<and> map jb_complete (st_inflight s2) = [5] \<and> st_last s2 = 5 \<and>
        (case poll 6 s2 of Inr (ys, s3) \<Rightarrow> ys = [1] | _ \<Rightarrow> False) | _ \<Rightarrow> False) | _ \<Rightarrow> False) | _ \<Rightarrow> False" by code_simp
  then show ?thesis unfolding case_Inr_iff by auto
qed

end
