(* ===== verification/KV_Reload.thy ===== *)
theory KV_Reload
  imports KV_Accounting "HOL-Library.Signed_Division"
begin

text \<open>
  What the two offloading caches share (\<open>sim/kv/tiered.go\<close>, \<open>sim/kv/offload_chain.go\<close>): bringing a
  block back from the CPU onto the GPU free list, where the next prefix lookup finds it, and
  allocating for a request after such a reload. The lemmas show that a reload keeps the
  invariant of the GPU cache and no request notices it, and what the allocation after a
  reload commits for a request the GPU has not seen.
\<close>

section \<open>Reloading one block\<close>

definition kv_reload_block :: "string \<Rightarrow> token list \<Rightarrow> kv_cache \<Rightarrow> kv_cache option" where
  "kv_reload_block h toks s =
     (case kv_pop_free s of
        None \<Rightarrow> None
      | Some (b, s1) \<Rightarrow>
         (let old = kb_hash (kc_blocks s1 ! b);
              s2 = (if old \<noteq> '''' then kv_set_block b (\<lambda>k. k\<lparr>kb_hash := ''''\<rparr>) (s1\<lparr>kc_hash := (kc_hash s1)(old := None)\<rparr>) else s1);
              s3 = kv_set_block b (\<lambda>k. k\<lparr>kb_tokens := toks, kb_hash := h, kb_ref := 0, kb_in_use := False\<rparr>) s2
          in Some (kv_append_free b (s3\<lparr>kc_hash := (kc_hash s3)(h \<mapsto> b)\<rparr>))))"

section \<open>Allocating after a reload\<close>

text \<open>A slice of a list of block identifiers, which panics outside its bounds.\<close>

definition id_slice :: "nat list \<Rightarrow> int \<Rightarrow> int \<Rightarrow> nat list outcome" where
  "id_slice ids a b = (if 0 \<le> a \<and> a \<le> b \<and> b \<le> int (length ids) then Inr (take (nat (b - a)) (drop (nat a) ids)) else Inl IndexOutOfRange)"

text \<open>Where the walk resumes: past the blocks the caller matched and those the request owns.\<close>

definition resume_seed :: "rid \<Rightarrow> nat list \<Rightarrow> kv_cache \<Rightarrow> (nat \<times> string) outcome" where
  "resume_seed r cached s =
     obind (if cached = [] then Inr (0, '''') else obind (kv_block_at s (last cached)) (\<lambda>k. Inr (length cached, kb_hash k))) (\<lambda>(n, prev).
       case kc_req s r of
         None \<Rightarrow> Inr (n, prev)
       | Some owned \<Rightarrow> (if length owned > n then obind (kv_block_at s (last owned)) (\<lambda>k. Inr (length owned, kb_hash k)) else Inr (n, prev)))"

text \<open>Committing what the reload made available up to block \<open>stop\<close>.\<close>

definition commit_reloaded :: "rid \<Rightarrow> int \<Rightarrow> int \<Rightarrow> nat list \<Rightarrow> kv_cache \<Rightarrow> kv_cache outcome" where
  "commit_reloaded r start stop ids s =
     (if kc_req s r \<noteq> None
      then (let a = (start + int (kc_bs s) - 1) sdiv int (kc_bs s) in
            if a < stop then obind (id_slice ids a stop) (\<lambda>bs. commit_cached_blocks r bs s) else Inr s)
      else obind (id_slice ids 0 stop) (\<lambda>bs. commit_cached_blocks r bs s))"

definition allocate_reloaded :: "request \<Rightarrow> int \<Rightarrow> int \<Rightarrow> nat list \<Rightarrow> kv_cache \<Rightarrow> (bool \<times> kv_cache) outcome" where
  "allocate_reloaded req start stop cached s =
     (let ids = get_cached_blocks s (full_input_tokens req);
          bs = int (kc_bs s);
          new_start = int (length ids) * bs;
          r = rq_id req
      in if new_start > start
         then (if new_start \<ge> stop
               then obind (commit_reloaded r start (min ((stop + bs - 1) sdiv bs) (int (length ids))) ids s) (\<lambda>s1. Inr (True, s1))
               else obind (commit_reloaded r start (new_start sdiv bs) ids s) (\<lambda>s1.
                      allocate_kv_blocks req new_start stop ids s1))
         else allocate_kv_blocks req start stop cached s)"

section \<open>A reload keeps the invariant\<close>

lemma hash_free_list:
  assumes "kv_free_ok s" "b < kc_total s" "\<not> kb_in_use (blk s b)"
    and "kc_links s' = dll_append b (dll_unlink b (kc_links s))" "kc_free_cnt s' = kc_free_cnt s" "kc_total s' = kc_total s"
    and "\<And>c. c < kc_total s \<Longrightarrow> kb_in_use (blk s' c) = kb_in_use (blk s c)"
  shows "kv_free_ok s'"
proof -
  obtain fl where fl: "dll_list (kc_links s) fl" "kc_free_cnt s = int (length fl)"
    "set fl = {b. b < kc_total s \<and> \<not> kb_in_use (blk s b)}"
    using assms(1) by (auto simp: kv_free_ok_def)
  then have b: "b \<in> set fl" using assms(2,3) by simp
  have "dll_list (kc_links s') (remove1 b fl @ [b])" using dll_touch_list [OF fl(1) b] assms(4) by simp
  moreover have "set (remove1 b fl @ [b]) = {c. c < kc_total s' \<and> \<not> kb_in_use (blk s' c)}"
    using fl(3) dll_list_distinct [OF fl(1)] b assms(6,7) by (auto simp: set_remove1_eq)
  moreover have "length (remove1 b fl @ [b]) = length fl" using b by (simp add: length_remove1) (metis Suc_pred length_pos_if_in_set)
  ultimately show ?thesis unfolding kv_free_ok_def using fl(2) assms(5) by metis
qed

definition kv_reloaded :: "nat \<Rightarrow> string \<Rightarrow> token list \<Rightarrow> kv_cache \<Rightarrow> kv_cache" where
  "kv_reloaded b h toks s =
     (let m = (if kb_hash (blk s b) \<noteq> [] then (kc_hash s)(kb_hash (blk s b) := None) else kc_hash s)
      in s\<lparr>kc_blocks := (kc_blocks s)[b := \<lparr>kb_ref = 0, kb_in_use = False, kb_hash = h, kb_tokens = toks\<rparr>],
           kc_links := dll_append b (dll_unlink b (kc_links s)), kc_hash := m(h \<mapsto> b)\<rparr>)"

lemma kv_reloaded_fields [simp]:
  "kc_total (kv_reloaded b h toks s) = kc_total s" "kc_bs (kv_reloaded b h toks s) = kc_bs s"
  "kc_req (kv_reloaded b h toks s) = kc_req s" "kc_free_cnt (kv_reloaded b h toks s) = kc_free_cnt s"
  "kc_hits (kv_reloaded b h toks s) = kc_hits s" "kc_misses (kv_reloaded b h toks s) = kc_misses s"
  "kv_table (kv_reloaded b h toks s) r = kv_table s r"
  by (simp_all add: kv_reloaded_def Let_def kv_table_def)

lemma kv_reloaded_blk:
  "b < length (kc_blocks s) \<Longrightarrow> blk (kv_reloaded b h toks s) c =
     (if c = b then \<lparr>kb_ref = 0, kb_in_use = False, kb_hash = h, kb_tokens = toks\<rparr> else blk s c)"
  by (simp add: kv_reloaded_def Let_def)

lemma kv_reload_block_eq:
  assumes "dl_head (kc_links s) = Some b" "b < length (kc_blocks s)"
  shows "kv_reload_block h toks s = Some (kv_reloaded b h toks s)"
  unfolding kv_reload_block_def kv_pop_free_def assms(1) option.case prod.case Let_def
  using assms(2)
  by (cases "blk s b") (simp add: kv_remove_free_eq kv_append_free_eq kv_set_block_def kv_reloaded_def Let_def)

lemma kv_reload_ok:
  assumes inv: "kv_inv s" and toks: "length toks = kc_bs s" and h: "h \<noteq> []" and r: "kv_reload_block h toks s = Some s'"
  obtains b where "b < kc_total s" "\<not> kb_in_use (blk s b)" "s' = kv_reloaded b h toks s" "kv_inv s'"
proof -
  have acct: "kv_acct [] s" and held: "kv_held_ok s" and index: "kv_index_ok s" and free: "kv_free_ok s" and len: "length (kc_blocks s) = kc_total s"
    using inv by (auto simp: kv_inv_def kv_acct_def)
  obtain b where b: "dl_head (kc_links s) = Some b"
    using r by (auto simp: kv_reload_block_def kv_pop_free_def split: option.splits)
  then have idle: "b < kc_total s" "\<not> kb_in_use (blk s b)" using kv_free_head [OF free] by auto
  then have bl: "b < length (kc_blocks s)" using len by simp
  have s': "s' = kv_reloaded b h toks s" using kv_reload_block_eq [OF b bl] r by simp
  have unheld: "refs (kc_req s) b = 0" "\<And>q. b \<notin> set (kv_table s q)" using kv_idle_unheld [OF acct idle] by auto
  have free': "kv_free_ok s'"
  proof (rule hash_free_list [OF free idle])
    show "kc_links s' = dll_append b (dll_unlink b (kc_links s))" by (simp add: s' kv_reloaded_def Let_def)
  qed (use idle bl in \<open>auto simp: s' kv_reloaded_blk\<close>)
  have "kv_acct [] s'"
    using acct free' unheld(1) len bl unfolding kv_acct_def s' by (auto simp: kv_reloaded_blk) (simp_all add: kv_reloaded_def Let_def)
  moreover have "kv_held_ok s'"
    unfolding kv_held_ok_def
  proof (intro allI impI)
    fix q ids c assume ids: "kc_req s' q = Some ids" "c \<in> set ids"
    then have "c \<in> set (kv_table s q)" by (simp add: s' kv_table_def)
    then have "c \<noteq> b" using unheld(2) by blast
    then show "kb_tokens (blk s' c) \<noteq> [] \<and> length (kb_tokens (blk s' c)) \<le> kc_bs s' \<and>
        (length (kb_tokens (blk s' c)) \<noteq> kc_bs s' \<longrightarrow> c = last ids \<and> refs (kc_req s') c = 1)"
      using held ids unfolding kv_held_ok_def s' by (simp add: kv_reloaded_blk [OF bl])
  qed
  moreover have "kv_index_ok s'"
    unfolding kv_index_ok_def
  proof (intro conjI allI impI)
    fix k c assume "kc_hash s' k = Some c"
    then have "k = h \<and> c = b \<or> (c < kc_total s \<and> c \<noteq> b \<and> kb_hash (blk s c) = k \<and> k \<noteq> [])"
      using index unfolding s' kv_reloaded_def kv_index_ok_def by (auto simp: Let_def split: if_splits)
    then show "c < kc_total s'" "kb_hash (blk s' c) = k" "k \<noteq> []"
      using idle(1) h by (auto simp: s' kv_reloaded_blk bl)
  next
    fix c assume "c < kc_total s'" "kb_hash (blk s' c) \<noteq> []"
    then show "length (kb_tokens (blk s' c)) = kc_bs s'"
      using index toks unfolding s' by (auto simp: kv_reloaded_blk bl kv_index_ok_def split: if_splits)
  qed
  ultimately have "kv_inv s'" by (simp add: kv_inv_def)
  then show thesis using that idle s' by blast
qed

lemma kv_reload_None: "kv_inv s \<Longrightarrow> kv_reload_block h toks s = None \<longleftrightarrow> kc_free_cnt s = 0"
  using kv_free_head [of s] by (auto simp: kv_reload_block_def kv_pop_free_def kv_inv_def kv_acct_def Let_def split: option.splits)

text \<open>No block anybody holds is touched.\<close>

lemma kv_reloaded_held:
  assumes "kv_inv s" "b < kc_total s" "\<not> kb_in_use (blk s b)" "c \<in> set (kv_table s r)"
  shows "blk (kv_reloaded b h toks s) c = blk s c"
proof -
  have "kv_acct [] s" "b < length (kc_blocks s)" using assms by (simp_all add: kv_inv_def kv_acct_def)
  then show ?thesis using kv_idle_unheld(2) [of "[]" s b r] assms by (auto simp: kv_reloaded_blk)
qed

definition reload_frame :: "kv_cache \<Rightarrow> kv_cache \<Rightarrow> bool" where
  "reload_frame s s' \<longleftrightarrow> kc_total s' = kc_total s \<and> kc_bs s' = kc_bs s \<and> kc_req s' = kc_req s \<and> kc_free_cnt s' = kc_free_cnt s \<and>
     (\<forall>r c. c \<in> set (kv_table s r) \<longrightarrow> blk s' c = blk s c) \<and>
     (\<forall>c < kc_total s. length (kb_tokens (blk s c)) = kc_bs s \<longrightarrow> length (kb_tokens (blk s' c)) = kc_bs s)"

lemma reload_frame_refl [simp]: "reload_frame s s"
  by (simp add: reload_frame_def)

lemma reload_frame_trans: "reload_frame s s1 \<Longrightarrow> reload_frame s1 s2 \<Longrightarrow> reload_frame s s2"
  by (simp add: reload_frame_def kv_table_def)

lemma reload_frame_stored: "reload_frame s s' \<Longrightarrow> kv_stored s' r = kv_stored s r"
proof -
  assume f: "reload_frame s s'"
  then have "kv_table s' r = kv_table s r" by (simp add: reload_frame_def kv_table_def)
  moreover have "map (\<lambda>b. kb_tokens (blk s' b)) (kv_table s r) = map (\<lambda>b. kb_tokens (blk s b)) (kv_table s r)"
    using f unfolding reload_frame_def map_eq_conv by metis
  ultimately show ?thesis by (simp only: kv_stored_def)
qed

lemma kv_reload_frame:
  "kv_inv s \<Longrightarrow> b < kc_total s \<Longrightarrow> \<not> kb_in_use (blk s b) \<Longrightarrow> length toks = kc_bs s \<Longrightarrow> reload_frame s (kv_reloaded b h toks s)"
  by (auto simp: reload_frame_def kv_reloaded_held kv_reloaded_blk kv_inv_def kv_acct_def)

text \<open>The keys stay explained when the reloaded block's is.\<close>

lemma kv_reload_keys:
  assumes "kv_inv s" "kv_keys U s" "b < kc_total s" "(p, toks) \<in> U" "prev_ok p" "h = hash_block p toks"
  shows "kv_keys U (kv_reloaded b h toks s)"
  using assms unfolding kv_keys_def by (auto simp: kv_reloaded_blk kv_inv_def kv_acct_def)

section \<open>Allocation after a reload\<close>

lemma sdiv_nonneg: "0 \<le> a \<Longrightarrow> 0 < b \<Longrightarrow> a sdiv b = a div (b :: int)"
  by (auto simp: signed_divide_int_def sgn_if)

lemma id_slice_prefix: "n \<le> length ids \<Longrightarrow> id_slice ids 0 (int n) = Inr (take n ids)"
  by (simp add: id_slice_def)

lemma commit_reloaded_new:
  assumes inv: "kv_inv s" and new: "kc_req s r = None" and n: "n \<le> length ids"
    and ids: "\<forall>b \<in> set ids. b < kc_total s \<and> length (kb_tokens (blk s b)) = kc_bs s"
  obtains s' where "commit_reloaded r start (int n) ids s = Inr s'" "kv_inv s'" "kv_frame r s s'" "kv_table s' r = take n ids"
    "kc_hash s' = kc_hash s" "\<And>c. kb_tokens (blk s' c) = kb_tokens (blk s c) \<and> kb_hash (blk s' c) = kb_hash (blk s c)"
proof -
  have last: "kv_last_full r s" using new by (simp add: kv_last_full_def)
  have "\<forall>b \<in> set (take n ids). b < kc_total s \<and> length (kb_tokens (blk s b)) = kc_bs s"
    using ids by (meson in_set_takeD)
  from commit_cached_blocks_ok [OF inv this last] obtain s' where
    "commit_cached_blocks r (take n ids) s = Inr s'" "kv_inv s'" "kv_frame r s s'" "kv_table s' r = kv_table s r @ take n ids"
    "kc_hash s' = kc_hash s" "\<forall>c. kb_tokens (blk s' c) = kb_tokens (blk s c) \<and> kb_hash (blk s' c) = kb_hash (blk s c)"
    by blast
  moreover have "kv_table s r = []" using new by (simp add: kv_table_def)
  ultimately show thesis using that new id_slice_prefix [OF n] by (simp add: commit_reloaded_def)
qed

lemma stored_cached:
  assumes "kv_inv s" "kv_keys U s" "inj_on (\<lambda>b. hash_block (fst b) (snd b)) (U \<union> chain_pairs (kc_bs s) (length ts div kc_bs s) [] ts)"
    and "kv_table s' r = take n (get_cached_blocks s ts)" "\<And>c. kb_tokens (blk s' c) = kb_tokens (blk s c)"
    and "n \<le> length (get_cached_blocks s ts)"
  shows "kv_stored s' r = take (n * kc_bs s) ts"
proof -
  have "map (\<lambda>b. kb_tokens (blk s b)) (take n (get_cached_blocks s ts)) = map (nth_block (kc_bs s) ts) [0..<n]"
    using get_cached_tokens [OF assms(1-3)] assms(6) by (intro nth_equalityI) simp_all
  then show ?thesis using assms(4,5) concat_blocks [of "kc_bs s" ts n] by (simp add: kv_stored_def)
qed

text \<open>
  What the code does for a request the GPU has not seen, when the reload made the cached
  prefix longer than the one the caller knew: on success the request holds exactly the
  prompt up to \<open>stop\<close> (whole blocks when the cache covers it), on failure it keeps the
  committed prefix.
\<close>

lemma allocate_reloaded_new:
  assumes inv: "kv_inv s" and keys: "kv_keys U s" and new: "kc_req s (rq_id q) = None"
    and inj: "inj_on (\<lambda>b. hash_block (fst b) (snd b)) (U \<union> chain_pairs (kc_bs s) (length (rq_input q) div kc_bs s) [] (rq_input q))"
    and pre: "rq_progress q < input_len q" and rng: "0 \<le> start" "start \<le> int hi" "int hi \<le> input_len q"
    and longer: "start < int (length (get_cached_blocks s (rq_input q)) * kc_bs s)"
  defines "n \<equiv> length (get_cached_blocks s (rq_input q))"
  obtains ok s' where "allocate_reloaded q start (int hi) cached s = Inr (ok, s')" "kv_inv s'" "kv_frame (rq_id q) s s'"
    "kv_stored s' (rq_id q) = take (if \<not> ok then n * kc_bs s else if hi \<le> n * kc_bs s then ceil_div hi (kc_bs s) * kc_bs s else hi) (rq_input q)"
    "kv_keys (U \<union> kv_pairs s' (rq_id q)) s'" "\<not> ok \<Longrightarrow> n * kc_bs s < hi"
proof -
  let ?r = "rq_id q" and ?ids = "get_cached_blocks s (rq_input q)" and ?bs = "kc_bs s"
  have bs: "0 < ?bs" using inv by (simp add: kv_inv_def kv_acct_def)
  have full: "\<forall>b \<in> set ?ids. b < kc_total s \<and> length (kb_tokens (blk s b)) = kc_bs s" using get_cached_full [OF inv] by blast
  have st: "int (length ?ids) * int ?bs > start" using longer by simp
  have cov: "int n * int ?bs \<ge> int hi \<longleftrightarrow> hi \<le> n * ?bs" by (metis of_nat_le_iff of_nat_mult)
  show thesis
  proof (cases "hi \<le> n * ?bs")
    case True
    define m where "m = ceil_div hi ?bs"
    have "ceil_div hi ?bs \<le> n"
    proof -
      have "hi + ?bs - 1 < Suc n * ?bs" using True bs by simp
      then show ?thesis unfolding ceil_div_def using less_mult_imp_div_less less_Suc_eq_le by blast
    qed
    then have m: "m \<le> length ?ids" "min ((int hi + int ?bs - 1) sdiv int ?bs) (int (length ?ids)) = int m"
      using ceil_div_int [OF bs, of hi] bs by (auto simp: m_def n_def sdiv_nonneg)
    obtain s' where s': "commit_reloaded ?r start (int m) ?ids s = Inr s'" "kv_inv s'" "kv_frame ?r s s'" "kv_table s' ?r = take m ?ids"
        "kc_hash s' = kc_hash s" "\<And>c. kb_tokens (blk s' c) = kb_tokens (blk s c) \<and> kb_hash (blk s' c) = kb_hash (blk s c)"
      using commit_reloaded_new [OF inv new m(1) full, of start] by blast
    have "allocate_reloaded q start (int hi) cached s = Inr (True, s')"
      using st True cov s'(1) m(2) by (simp add: allocate_reloaded_def full_input_tokens_def Let_def n_def)
    moreover have "kv_stored s' ?r = take (m * ?bs) (rq_input q)"
      using stored_cached [OF inv keys inj s'(4) _ m(1)] s'(6) by blast
    moreover have "kv_keys (U \<union> kv_pairs s' ?r) s'"
      using keys s'(6) kv_frame_geometry(1) [OF s'(3)] unfolding kv_keys_def by fastforce
    ultimately show thesis using that s'(2,3) True by (simp add: m_def)
  next
    case False
    obtain s1 where s1: "commit_reloaded ?r start (int n) ?ids s = Inr s1" "kv_inv s1" "kv_frame ?r s s1" "kv_table s1 ?r = take n ?ids"
        "kc_hash s1 = kc_hash s" "\<And>c. kb_tokens (blk s1 c) = kb_tokens (blk s c) \<and> kb_hash (blk s1 c) = kb_hash (blk s c)"
      using commit_reloaded_new [OF inv new _ full, of n start] by (auto simp: n_def)
    note geo = kv_frame_geometry [OF s1(3)]
    have nst: "int n * int ?bs sdiv int ?bs = int n" using bs by (simp add: sdiv_nonneg)
    have alloc: "allocate_reloaded q start (int hi) cached s = allocate_kv_blocks q (int (n * ?bs)) (int hi) ?ids s1"
      using st False cov s1(1) nst by (simp add: allocate_reloaded_def full_input_tokens_def Let_def n_def)
    have tab: "kv_table s1 ?r = ?ids" using s1(4) by (simp add: n_def)
    have "?ids \<noteq> []" using longer rng(1) by auto
    then have known: "kc_req s1 ?r \<noteq> None" using tab by (cases "kc_req s1 ?r") (simp_all add: kv_table_def)
    have args: "kv_alloc_args q (int (n * ?bs)) (int hi) ?ids s1"
      using pre False rng full s1(6) geo by (simp add: kv_alloc_args_def del: of_nat_mult)
    have toks: "kv_new_tokens q (int (n * ?bs)) (int hi) = Inr (take (hi - n * ?bs) (drop (n * ?bs) (rq_input q)))"
      using pre False rng(3) by (simp add: kv_new_tokens_def input_token_slice_def nat_diff_distrib' del: of_nat_mult)
    have base: "kv_stored s1 ?r = take (n * ?bs) (rq_input q)"
      using stored_cached [OF inv keys inj s1(4)] s1(6) by (simp add: n_def)
    have keys1: "kv_keys (U \<union> kv_pairs s1 ?r) s1"
      using keys s1(6) geo(1) unfolding kv_keys_def by fastforce
    let ?toks = "take (hi - n * ?bs) (drop (n * ?bs) (rq_input q))"
    show thesis
    proof (cases "int (kv_need s1 ?r (length ?toks)) + kv_idle ?ids s1 \<le> kc_free_cnt s1")
      case True
      then obtain s2 where s2: "allocate_kv_blocks q (int (n * ?bs)) (int hi) ?ids s1 = Inr (True, s2)" "kv_inv s2" "kv_frame ?r s1 s2"
          "kv_stored s2 ?r = kv_stored s1 ?r @ kv_added ?r ?ids ?toks s1" "kv_keys (U \<union> kv_pairs s2 ?r) s2"
        using allocate_cases [OF s1(2) args toks] keys1 by auto
      have "kv_stored s2 ?r = take hi (rq_input q)"
        using s2(4) base known False by (simp add: kv_added_def) (metis le_add_diff_inverse nat_le_linear take_add)
      then show thesis using that alloc s2 kv_frame_trans [OF s1(3) s2(3)] False by simp
    next
      case no: False
      then have "allocate_kv_blocks q (int (n * ?bs)) (int hi) ?ids s1 = Inr (False, s1)"
        using allocate_cases [OF s1(2) args toks] by simp
      then show thesis using that alloc s1(2,3) base keys1 False by simp
    qed
  qed
qed

text \<open>
  In general the invariant survives when the request's last block has no room: then what is
  committed goes behind full blocks. Without that the commit would leave a block with room in
  the middle of the table.
\<close>

lemma commit_reloaded_inv:
  assumes inv: "kv_inv s" and last: "kv_last_full r s" and b: "0 \<le> start" "0 \<le> stop" "stop \<le> int (length ids)"
    and ids: "\<forall>b \<in> set ids. b < kc_total s \<and> length (kb_tokens (blk s b)) = kc_bs s"
  obtains s' where "commit_reloaded r start stop ids s = Inr s'" "kv_inv s'" "kv_frame r s s'"
    "\<And>c. kb_tokens (blk s' c) = kb_tokens (blk s c) \<and> kb_hash (blk s' c) = kb_hash (blk s c)"
    "\<And>U. kv_keys (U \<union> kv_pairs s r) s \<Longrightarrow> kv_keys (U \<union> kv_pairs s' r) s'"
proof -
  have bs: "0 < kc_bs s" using inv by (simp add: kv_inv_def kv_acct_def)
  let ?a = "(start + int (kc_bs s) - 1) sdiv int (kc_bs s)"
  note goal = that
  have a: "0 \<le> ?a" using b(1) bs by (simp add: sdiv_nonneg pos_imp_zdiv_nonneg_iff)
  have commit: thesis if "commit_reloaded r start stop ids s = commit_cached_blocks r cs s" "set cs \<subseteq> set ids" for cs
  proof -
    have "\<forall>b \<in> set cs. b < kc_total s \<and> length (kb_tokens (blk s b)) = kc_bs s" using ids that(2) by blast
    from commit_cached_blocks_ok [OF inv this last] obtain s' where s': "commit_cached_blocks r cs s = Inr s'" "kv_inv s'" "kv_frame r s s'"
        "kv_table s' r = kv_table s r @ cs" "\<forall>c. kb_tokens (blk s' c) = kb_tokens (blk s c) \<and> kb_hash (blk s' c) = kb_hash (blk s c)" by blast
    have sub: "kv_pairs s r \<subseteq> kv_pairs s' r" by (rule kv_pairs_extend [OF s'(4)]) (use s'(5) in simp)
    have "kv_keys (U \<union> kv_pairs s' r) s'" if k: "kv_keys (U \<union> kv_pairs s r) s" for U
    proof -
      have "kv_keys (U \<union> kv_pairs s r) s'" using k s'(5) kv_frame_geometry(1) [OF s'(3)] by (simp add: kv_keys_def)
      then show ?thesis by (rule kv_keys_mono) (use sub in blast)
    qed
    then show thesis using \<open>commit_reloaded r start stop ids s = _\<close> s' goal by metis
  qed
  show thesis
  proof (cases "kc_req s r = None")
    case True
    then show thesis
      using commit [of "take (nat stop) ids"] id_slice_prefix [of "nat stop" ids] b by (simp add: commit_reloaded_def set_take_subset nat_le_iff)
  next
    case known: False
    show thesis
    proof (cases "?a < stop")
      case True
      then have "id_slice ids ?a stop = Inr (take (nat (stop - ?a)) (drop (nat ?a) ids))" using a b by (simp add: id_slice_def)
      then have "commit_reloaded r start stop ids s = commit_cached_blocks r (take (nat (stop - ?a)) (drop (nat ?a) ids)) s"
        using known True by (simp add: commit_reloaded_def Let_def)
      then show thesis by (rule commit) (meson in_set_dropD in_set_takeD subsetI)
    next
      case False
      then show thesis using commit [of "[]"] known by (simp add: commit_reloaded_def)
    qed
  qed
qed

lemma allocate_reloaded_inv:
  assumes inv: "kv_inv s" and last: "kv_last_full (rq_id q) s" and args: "kv_alloc_args q start stop cached s"
  obtains ok s' where "allocate_reloaded q start stop cached s = Inr (ok, s')" "kv_inv s'" "kv_frame (rq_id q) s s'"
    "\<And>U. kv_keys (U \<union> kv_pairs s (rq_id q)) s \<Longrightarrow> kv_keys (U \<union> kv_pairs s' (rq_id q)) s'"
proof -
  let ?r = "rq_id q" and ?ids = "get_cached_blocks s (rq_input q)" and ?bs = "int (kc_bs s)"
  let ?n = "int (length ?ids) * ?bs"
  note goal = that
  have bs: "0 < kc_bs s" using inv by (simp add: kv_inv_def kv_acct_def)
  have full: "\<forall>b \<in> set ?ids. b < kc_total s \<and> length (kb_tokens (blk s b)) = kc_bs s" using get_cached_full [OF inv] by blast
  have alloc: thesis if a: "kv_alloc_args q lo stop cs s1" and eq: "allocate_reloaded q start stop cached s = allocate_kv_blocks q lo stop cs s1"
    and s1: "kv_inv s1" "kv_frame ?r s s1" "\<And>U. kv_keys (U \<union> kv_pairs s ?r) s \<Longrightarrow> kv_keys (U \<union> kv_pairs s1 ?r) s1" for lo cs s1
  proof -
    obtain toks where toks: "kv_new_tokens q lo stop = Inr toks" by (rule kv_new_tokens_ok [OF a])
    show thesis
    proof (cases "int (kv_need s1 ?r (length toks)) + kv_idle cs s1 \<le> kc_free_cnt s1")
      case True
      then obtain s2 where s2: "allocate_kv_blocks q lo stop cs s1 = Inr (True, s2)" "kv_inv s2" "kv_frame ?r s1 s2"
          "\<And>U. kv_keys (U \<union> kv_pairs s1 ?r) s1 \<Longrightarrow> kv_keys (U \<union> kv_pairs s2 ?r) s2"
        using allocate_cases [OF s1(1) a toks] by auto
      show thesis
      proof (rule goal)
        show "allocate_reloaded q start stop cached s = Inr (True, s2)" using eq s2(1) by simp
        show "kv_frame ?r s s2" by (rule kv_frame_trans [OF s1(2) s2(3)])
      qed (use s2(2,4) s1(3) in blast)+
    next
      case False
      then have "allocate_kv_blocks q lo stop cs s1 = Inr (False, s1)" using allocate_cases [OF s1(1) a toks] by simp
      then show thesis using goal eq s1 by metis
    qed
  qed
  show thesis
  proof (cases "?n > start")
    case False
    then have "allocate_reloaded q start stop cached s = allocate_kv_blocks q start stop cached s"
      by (simp add: allocate_reloaded_def full_input_tokens_def Let_def)
    then show thesis using alloc [OF args] inv by simp
  next
    case True
    have "int (length ?ids) \<le> int (length (rq_input q) div kc_bs s)" using get_cached_length [of s "rq_input q"] by linarith
    then have "?n \<le> int (length (rq_input q) div kc_bs s) * ?bs" by (intro mult_right_mono) auto
    also have "\<dots> \<le> int (length (rq_input q))" by (metis div_times_less_eq_dividend of_nat_le_iff of_nat_mult)
    finally have n: "?n \<le> input_len q" by (simp add: input_len_def)
    have pre: "rq_progress q < input_len q" and rng: "0 \<le> start" "start \<le> stop" "stop \<le> input_len q"
      using args True n by (auto simp: kv_alloc_args_def split: if_splits)
    let ?e = "if ?n \<ge> stop then min ((stop + ?bs - 1) sdiv ?bs) (int (length ?ids)) else ?n sdiv ?bs"
    have e: "0 \<le> ?e" "?e \<le> int (length ?ids)" using rng bs by (auto simp: sdiv_nonneg pos_imp_zdiv_nonneg_iff)
    obtain s1 where s1: "commit_reloaded ?r start ?e ?ids s = Inr s1" "kv_inv s1" "kv_frame ?r s s1"
        "\<And>c. kb_tokens (blk s1 c) = kb_tokens (blk s c) \<and> kb_hash (blk s1 c) = kb_hash (blk s c)"
        "\<And>U. kv_keys (U \<union> kv_pairs s ?r) s \<Longrightarrow> kv_keys (U \<union> kv_pairs s1 ?r) s1"
      using commit_reloaded_inv [OF inv last rng(1) e full] by metis
    show thesis
    proof (cases "?n \<ge> stop")
      case cover: True
      then have "allocate_reloaded q start stop cached s = Inr (True, s1)"
        using True s1(1) by (simp add: allocate_reloaded_def full_input_tokens_def Let_def)
      then show thesis using goal s1 by metis
    next
      case tail: False
      have "allocate_reloaded q start stop cached s = allocate_kv_blocks q ?n stop ?ids s1"
        using True tail s1(1) by (simp add: allocate_reloaded_def full_input_tokens_def Let_def)
      moreover have "kv_alloc_args q ?n stop ?ids s1"
        using pre tail rng full s1(4) kv_frame_geometry [OF s1(3)] by (simp add: kv_alloc_args_def)
      ultimately show thesis using alloc s1(2,3,5) by metis
    qed
  qed
qed

end
