(* ===== verification/Tiered_Cache.thy ===== *)
theory Tiered_Cache
  imports KV_Reload
begin

text \<open>
  The two-tier cache of \<open>--kv-cpu-blocks\<close> (\<open>sim/kv/tiered.go\<close>): the GPU cache and a CPU tier that
  mirrors its full blocks, an LRU list of blocks addressed by content key. A CPU block's
  token slice comes from a pool that is filled once; \<open>copy\<close> overwrites its front. The
  bandwidth is an exact rational, so that its not-a-number checks have no counterpart.
\<close>

section \<open>The CPU tier\<close>

record mirror_tier =
  mt_blocks :: "string \<rightharpoonup> token list"
  mt_links :: "string dll"
  mt_capacity :: int
  mt_used :: int
  mt_bs :: int
  mt_pool :: "token list list"
  mt_evictions :: int

definition new_mirror_tier :: "int \<Rightarrow> int \<Rightarrow> mirror_tier outcome" where
  "new_mirror_tier cap bs =
     (if cap \<le> 0 then Inl (Panic ''newCpuTier: capacity must be > 0'')
      else if bs \<le> 0 then Inl (Panic ''newCpuTier: blockSize must be > 0'')
      else Inr \<lparr>mt_blocks = Map.empty, mt_links = dll_empty, mt_capacity = cap, mt_used = 0, mt_bs = bs,
                mt_pool = replicate (nat cap) (replicate (nat bs) 0), mt_evictions = 0\<rparr>)"

definition mt_evict_head :: "mirror_tier \<Rightarrow> mirror_tier" where
  "mt_evict_head c =
     (case dl_head (mt_links c) of
        None \<Rightarrow> c
      | Some h \<Rightarrow> c\<lparr>mt_links := dll_unlink h (mt_links c), mt_blocks := (mt_blocks c)(h := None), mt_used := mt_used c - 1,
                    mt_evictions := mt_evictions c + 1, mt_pool := mt_pool c @ [the (mt_blocks c h)]\<rparr>)"

definition go_copy :: "'a list \<Rightarrow> 'a list \<Rightarrow> 'a list" where
  "go_copy dst src = take (length dst) src @ drop (length src) dst"

definition mt_store :: "string \<Rightarrow> token list \<Rightarrow> mirror_tier \<Rightarrow> mirror_tier" where
  "mt_store h toks c =
     (if mt_blocks c h \<noteq> None then c
      else (let c1 = (if mt_used c \<ge> mt_capacity c then mt_evict_head c else c);
                (slice, pool) = (if mt_pool c1 \<noteq> [] then (go_copy (last (mt_pool c1)) toks, butlast (mt_pool c1)) else (toks, mt_pool c1))
            in c1\<lparr>mt_pool := pool, mt_blocks := (mt_blocks c1)(h \<mapsto> slice), mt_links := dll_append h (mt_links c1), mt_used := mt_used c1 + 1\<rparr>))"

definition mt_touch :: "string \<Rightarrow> mirror_tier \<Rightarrow> mirror_tier" where
  "mt_touch h c = (if mt_blocks c h = None then c else c\<lparr>mt_links := dll_append h (dll_unlink h (mt_links c))\<rparr>)"

definition mt_lookup :: "string \<Rightarrow> mirror_tier \<Rightarrow> token list option" where
  "mt_lookup h c = mt_blocks c h"

section \<open>The tiered cache\<close>

record tiered =
  td_gpu :: kv_cache
  td_cpu :: mirror_tier
  td_per_block :: int
  td_pending :: int
  td_cpu_hits :: int
  td_cpu_misses :: int
  td_mirrors :: int

definition new_tiered :: "kv_cache \<Rightarrow> int \<Rightarrow> rat \<Rightarrow> int \<Rightarrow> tiered outcome" where
  "new_tiered gpu blocks bandwidth base =
     (if bandwidth \<le> 0 then Inl (Panic ''NewTieredKVCache: KVTransferBandwidth must be finite and > 0'')
      else if blocks \<le> 0 then Inl (Panic ''NewTieredKVCache: cpuBlocks must be > 0'')
      else if base < 0 then Inl (Panic ''NewTieredKVCache: baseLat must be >= 0'')
      else (let ticks = \<lceil>of_int (int (kc_bs gpu)) / bandwidth\<rceil> in
            if ticks < 1 \<or> ticks \<ge> 2 ^ 63 then Inl (Panic ''NewTieredKVCache: bandwidth charge does not fit int64'')
            else if base > max_int64 - ticks then Inl (Panic ''NewTieredKVCache: baseLat plus the bandwidth charge exceeds int64'')
            else obind (new_mirror_tier blocks (int (kc_bs gpu))) (\<lambda>c.
              Inr \<lparr>td_gpu = gpu, td_cpu = c, td_per_block = base + ticks, td_pending = 0, td_cpu_hits = 0, td_cpu_misses = 0, td_mirrors = 0\<rparr>)))"

definition new_tiered_ticks :: "kv_cache \<Rightarrow> int \<Rightarrow> int \<Rightarrow> tiered outcome" where
  "new_tiered_ticks gpu blocks ticks =
     (if ticks < 1 then Inl (Panic ''NewTieredKVCacheWithBlockTicks: ticksPerBlock must be >= 1'')
      else new_tiered gpu blocks (of_int (int (kc_bs gpu))) (ticks - 1))"

definition accumulate_latency :: "tiered \<Rightarrow> tiered outcome" where
  "accumulate_latency t =
     (if td_pending t > max_int64 - td_per_block t then Inl (Panic ''TieredKVCache: pending transfer latency exceeds int64'')
      else Inr (t\<lparr>td_pending := td_pending t + td_per_block t\<rparr>))"

text \<open>
  The walk over the prompt's blocks: \<open>n\<close> of them are left in \<open>toks\<close>. At most \<open>limit\<close> blocks are
  reloaded, so that no free block is popped twice.
\<close>

fun reload_loop :: "nat \<Rightarrow> token list \<Rightarrow> string \<Rightarrow> int \<Rightarrow> int \<Rightarrow> tiered \<Rightarrow> (bool \<times> tiered) outcome" where
  "reload_loop 0 toks prev limit cnt t = Inr (cnt > 0, t)"
| "reload_loop (Suc n) toks prev limit cnt t =
     (let bs = kc_bs (td_gpu t); h = hash_block prev (take bs toks) in
      if kc_hash (td_gpu t) h \<noteq> None then reload_loop n (drop bs toks) h limit cnt t
      else (case mt_lookup h (td_cpu t) of
              None \<Rightarrow> Inr (cnt > 0, t)
            | Some ctoks \<Rightarrow>
               (if cnt \<ge> limit then Inr (cnt > 0, t)
                else (case kv_reload_block h ctoks (td_gpu t) of
                        None \<Rightarrow> Inr (cnt > 0, t)
                      | Some gpu \<Rightarrow>
                          obind (accumulate_latency (t\<lparr>td_gpu := gpu\<rparr>)) (\<lambda>t1.
                            reload_loop n (drop bs toks) h limit (cnt + 1)
                              (t1\<lparr>td_cpu := mt_touch h (td_cpu t1), td_cpu_hits := td_cpu_hits t1 + 1\<rparr>))))))"

definition reload_prefix :: "token list \<Rightarrow> nat \<Rightarrow> string \<Rightarrow> tiered \<Rightarrow> (bool \<times> tiered) outcome" where
  "reload_prefix toks start prev t =
     (let bs = kc_bs (td_gpu t)
      in reload_loop (length toks div bs - start) (drop (start * bs) toks) prev (kv_count_free (td_gpu t)) 0 t)"

definition td_allocate :: "request \<Rightarrow> int \<Rightarrow> int \<Rightarrow> nat list \<Rightarrow> tiered \<Rightarrow> (bool \<times> tiered) outcome" where
  "td_allocate req start stop cached t =
     obind (resume_seed (rq_id req) cached (td_gpu t)) (\<lambda>(n, prev).
     obind (reload_prefix (full_input_tokens req) n prev t) (\<lambda>(reloaded, t1).
       if reloaded
       then obind (allocate_reloaded req start stop cached (td_gpu t1)) (\<lambda>(ok, gpu). Inr (ok, t1\<lparr>td_gpu := gpu\<rparr>))
       else obind (allocate_kv_blocks req start stop cached (td_gpu t1)) (\<lambda>(ok, gpu).
              Inr (ok, t1\<lparr>td_gpu := gpu, td_cpu_misses := td_cpu_misses t1 + (if ok then 0 else 1)\<rparr>))))"

section \<open>Queries and the mirror\<close>

fun reloadable_loop :: "nat \<Rightarrow> token list \<Rightarrow> string \<Rightarrow> tiered \<Rightarrow> int" where
  "reloadable_loop 0 toks prev t = 0"
| "reloadable_loop (Suc n) toks prev t =
     (let bs = kc_bs (td_gpu t); h = hash_block prev (take bs toks) in
      if kc_hash (td_gpu t) h \<noteq> None \<or> mt_lookup h (td_cpu t) \<noteq> None
      then 1 + reloadable_loop n (drop bs toks) h t else 0)"

definition td_reloadable_end :: "request \<Rightarrow> int \<Rightarrow> tiered \<Rightarrow> (int \<times> bool) outcome" where
  "td_reloadable_end req start t =
     (if kc_req (td_gpu t) (rq_id req) \<noteq> None \<or> rq_decode_sub req then Inr (start, False)
      else (let bs = kc_bs (td_gpu t); toks = full_input_tokens req; n = length toks div bs; sb = start sdiv int bs in
            if sb \<ge> int n then Inr (start, False)
            else if sb < 0 then Inl IndexOutOfRange
            else obind (if sb > 0
                        then (let ids = get_cached_blocks (td_gpu t) toks
                              in if int (length ids) \<ge> sb
                                 then obind (kv_block_at (td_gpu t) (ids ! nat (sb - 1))) (\<lambda>k. Inr (kb_hash k)) else Inr '''')
                        else Inr '''') (\<lambda>prev.
              let e = start + reloadable_loop (n - nat sb) (drop (nat sb * bs) toks) prev t * int bs
              in Inr (e, e > start))))"

definition mirror_block :: "nat \<Rightarrow> tiered \<Rightarrow> tiered outcome" where
  "mirror_block b t =
     obind (kv_block_at (td_gpu t) b) (\<lambda>k.
       if kb_hash k = '''' \<or> length (kb_tokens k) < kc_bs (td_gpu t) then Inr t
       else if mt_lookup (kb_hash k) (td_cpu t) \<noteq> None then Inr (t\<lparr>td_cpu := mt_touch (kb_hash k) (td_cpu t)\<rparr>)
       else Inr (t\<lparr>td_cpu := mt_store (kb_hash k) (kb_tokens k) (td_cpu t), td_mirrors := td_mirrors t + 1\<rparr>))"

fun mirror_blocks :: "nat list \<Rightarrow> tiered \<Rightarrow> tiered outcome" where
  "mirror_blocks [] t = Inr t"
| "mirror_blocks (b # bs) t = obind (mirror_block b t) (mirror_blocks bs)"

fun td_mirror :: "rid list \<Rightarrow> tiered \<Rightarrow> tiered outcome" where
  "td_mirror [] t = Inr t"
| "td_mirror (r # rs) t =
     (case kc_req (td_gpu t) r of
        None \<Rightarrow> td_mirror rs t
      | Some ids \<Rightarrow> obind (mirror_blocks ids t) (td_mirror rs))"

definition td_release :: "rid \<Rightarrow> tiered \<Rightarrow> tiered outcome" where
  "td_release r t = obind (release_kv_blocks r (td_gpu t)) (\<lambda>gpu. Inr (t\<lparr>td_gpu := gpu\<rparr>))"

definition td_consume_latency :: "tiered \<Rightarrow> int \<times> tiered" where
  "td_consume_latency t = (td_pending t, t\<lparr>td_pending := 0\<rparr>)"

definition td_hit_rate :: "tiered \<Rightarrow> rat" where
  "td_hit_rate t =
     (let hits = kc_hits (td_gpu t); total = hits + (kc_misses (td_gpu t) + td_cpu_misses t)
      in if total = 0 then 0 else of_int hits / of_int total)"

definition td_thrashing_rate :: "tiered \<Rightarrow> rat" where
  "td_thrashing_rate t = (if td_mirrors t = 0 then 0 else of_int (mt_evictions (td_cpu t)) / of_int (td_mirrors t))"

end
