(* ===== verification/Tiered_Safe.thy ===== *)
theory Tiered_Safe
  imports Tiered_Cache
begin

text \<open>
  The invariant of the two-tier cache: the GPU cache keeps its own, the CPU tier is an exact
  LRU list whose slices come from the pool, every CPU block is full and filed under the key
  of its contents, and the pending latency is a number of block charges that fits 64 bits.
\<close>

section \<open>The CPU tier\<close>

definition mt_ok :: "mirror_tier \<Rightarrow> bool" where
  "mt_ok c \<longleftrightarrow> 0 < mt_capacity c \<and> mt_used c \<le> mt_capacity c \<and> 0 \<le> mt_bs c \<and>
     (\<exists>xs. dll_list (mt_links c) xs \<and> set xs = dom (mt_blocks c) \<and> mt_used c = int (length xs)) \<and>
     int (length (mt_pool c)) + mt_used c = mt_capacity c \<and>
     (\<forall>s \<in> set (mt_pool c). length s = nat (mt_bs c)) \<and>
     (\<forall>h toks. mt_blocks c h = Some toks \<longrightarrow> length toks = nat (mt_bs c))"

lemma new_mirror_ok: "new_mirror_tier cap bs = Inr c \<Longrightarrow> mt_ok c \<and> mt_blocks c = Map.empty \<and> mt_bs c = bs \<and> mt_capacity c = cap"
  by (auto simp: new_mirror_tier_def mt_ok_def dll_list_empty split: if_splits intro!: exI [of _ "[]"])

lemma mt_touch_ok:
  assumes "mt_ok c"
  shows "mt_ok (mt_touch h c) \<and> mt_blocks (mt_touch h c) = mt_blocks c \<and> mt_bs (mt_touch h c) = mt_bs c \<and> mt_capacity (mt_touch h c) = mt_capacity c"
proof (cases "mt_blocks c h = None")
  case True
  then show ?thesis using assms by (simp add: mt_touch_def)
next
  case False
  obtain xs where xs: "dll_list (mt_links c) xs" "set xs = dom (mt_blocks c)" "mt_used c = int (length xs)"
    using assms by (auto simp: mt_ok_def)
  then have h: "h \<in> set xs" using False by auto
  have "dll_list (dll_append h (dll_unlink h (mt_links c))) (remove1 h xs @ [h])" by (rule dll_touch_list [OF xs(1) h])
  moreover have "set (remove1 h xs @ [h]) = set xs" using dll_list_distinct [OF xs(1)] h by (auto simp: set_remove1_eq)
  moreover have "length (remove1 h xs @ [h]) = length xs" using h by (simp add: length_remove1) (metis Suc_pred length_pos_if_in_set)
  ultimately have "\<exists>ys. dll_list (dll_append h (dll_unlink h (mt_links c))) ys \<and> set ys = dom (mt_blocks c) \<and> mt_used c = int (length ys)"
    using xs(2,3) by metis
  then show ?thesis using assms False by (simp add: mt_touch_def mt_ok_def)
qed

lemma mt_evict_head_ok:
  assumes "mt_ok c" "mt_used c > 0"
  obtains h where "mt_ok (mt_evict_head c)" "mt_blocks (mt_evict_head c) = (mt_blocks c)(h := None)" "mt_used (mt_evict_head c) = mt_used c - 1"
    "mt_bs (mt_evict_head c) = mt_bs c" "mt_capacity (mt_evict_head c) = mt_capacity c" "mt_pool (mt_evict_head c) \<noteq> []"
proof -
  obtain xs where xs: "dll_list (mt_links c) xs" "set xs = dom (mt_blocks c)" "mt_used c = int (length xs)"
    using assms by (auto simp: mt_ok_def)
  obtain h ys where hy: "xs = h # ys" using xs(3) assms(2) by (cases xs) auto
  have hd: "dl_head (mt_links c) = Some h" using dll_list_head [OF xs(1)] hy by simp
  have "dll_list (dll_unlink h (mt_links c)) ys" using dll_unlink_list [OF xs(1)] hy by fastforce
  moreover have "h \<notin> set ys" using dll_list_distinct [OF xs(1)] hy by simp
  then have "set ys = dom ((mt_blocks c)(h := None))" using xs(2) hy by auto
  ultimately have "\<exists>ys. dll_list (dll_unlink h (mt_links c)) ys \<and> set ys = dom ((mt_blocks c)(h := None)) \<and> mt_used c - 1 = int (length ys)"
    using xs(3) hy by (intro exI [of _ ys]) auto
  moreover have "length (the (mt_blocks c h)) = nat (mt_bs c)"
    using assms(1) xs(2) hy unfolding mt_ok_def by (metis domD list.set_intros(1) option.sel)
  ultimately have "mt_ok (mt_evict_head c)"
    using assms(1) unfolding mt_ok_def mt_evict_head_def hd option.case by (simp split: if_splits)
  then show thesis using that by (simp add: mt_evict_head_def hd)
qed

lemma length_go_copy: "length src = length dst \<Longrightarrow> go_copy dst src = src"
  by (simp add: go_copy_def)

lemma mt_store_ok:
  assumes "mt_ok c" "length toks = nat (mt_bs c)"
  shows "mt_ok (mt_store h toks c) \<and> mt_bs (mt_store h toks c) = mt_bs c \<and> mt_capacity (mt_store h toks c) = mt_capacity c \<and>
    mt_blocks (mt_store h toks c) \<subseteq>\<^sub>m (if mt_blocks c h = None then (mt_blocks c)(h \<mapsto> toks) else mt_blocks c) \<and>
    mt_blocks (mt_store h toks c) h \<noteq> None"
proof (cases "mt_blocks c h = None")
  case False
  then show ?thesis using assms by (auto simp: mt_store_def)
next
  case True
  define c1 where "c1 = (if mt_used c \<ge> mt_capacity c then mt_evict_head c else c)"
  have c1: "mt_ok c1 \<and> mt_bs c1 = mt_bs c \<and> mt_capacity c1 = mt_capacity c \<and> mt_blocks c1 \<subseteq>\<^sub>m mt_blocks c \<and> mt_pool c1 \<noteq> [] \<and> mt_used c1 < mt_capacity c"
  proof (cases "mt_used c \<ge> mt_capacity c")
    case True
    then have "mt_used c > 0" using assms(1) by (simp add: mt_ok_def)
    obtain g where e: "mt_ok (mt_evict_head c)" "mt_blocks (mt_evict_head c) = (mt_blocks c)(g := None)" "mt_used (mt_evict_head c) = mt_used c - 1"
        "mt_bs (mt_evict_head c) = mt_bs c" "mt_capacity (mt_evict_head c) = mt_capacity c" "mt_pool (mt_evict_head c) \<noteq> []"
      by (rule mt_evict_head_ok [OF assms(1) \<open>mt_used c > 0\<close>])
    have "mt_used c \<le> mt_capacity c" using assms(1) by (simp add: mt_ok_def)
    then show ?thesis using True e(1,3-6) unfolding c1_def e(2) by (auto simp: e(2) map_le_def)
  next
    case False
    then show ?thesis using assms(1) by (auto simp: c1_def mt_ok_def)
  qed
  have none: "mt_blocks c1 h = None" using c1 True by (metis domIff map_le_def)
  have slice: "go_copy (last (mt_pool c1)) toks = toks"
  proof -
    have "length (last (mt_pool c1)) = nat (mt_bs c1)" using c1 unfolding mt_ok_def by (meson last_in_set)
    then show ?thesis using c1 assms(2) by (simp add: length_go_copy)
  qed
  have eq: "mt_store h toks c = c1\<lparr>mt_pool := butlast (mt_pool c1), mt_blocks := (mt_blocks c1)(h \<mapsto> toks), mt_links := dll_append h (mt_links c1), mt_used := mt_used c1 + 1\<rparr>"
    using True c1 slice by (simp add: mt_store_def c1_def [symmetric] Let_def)
  obtain xs where xs: "dll_list (mt_links c1) xs" "set xs = dom (mt_blocks c1)" "mt_used c1 = int (length xs)"
    using c1 by (auto simp: mt_ok_def)
  then have "h \<notin> set xs" using none by auto
  then have "dll_list (dll_append h (mt_links c1)) (xs @ [h])" by (rule dll_append_list [OF xs(1)])
  then have "\<exists>ys. dll_list (dll_append h (mt_links c1)) ys \<and> set ys = dom ((mt_blocks c1)(h \<mapsto> toks)) \<and> mt_used c1 + 1 = int (length ys)"
    using xs(2,3) by (intro exI [of _ "xs @ [h]"]) auto
  moreover have "int (length (butlast (mt_pool c1))) + (mt_used c1 + 1) = mt_capacity c1"
  proof -
    have "int (length (butlast (mt_pool c1))) = int (length (mt_pool c1)) - 1"
      using c1 by (cases "mt_pool c1" rule: rev_cases) simp_all
    then show ?thesis using c1 by (simp add: mt_ok_def)
  qed
  moreover have "\<forall>s \<in> set (butlast (mt_pool c1)). length s = nat (mt_bs c1)" using c1 unfolding mt_ok_def by (meson in_set_butlastD)
  ultimately have "mt_ok (mt_store h toks c)"
    using c1 assms(2) unfolding eq mt_ok_def by auto
  moreover have "(mt_blocks c1)(h \<mapsto> toks) \<subseteq>\<^sub>m (mt_blocks c)(h \<mapsto> toks)" using c1 by (simp add: map_le_upd)
  ultimately show ?thesis using True c1 by (simp add: eq)
qed

section \<open>The tiered cache\<close>

text \<open>Every block on the CPU is filed under the hash of a pair of \<open>U\<close> with its own tokens.\<close>

definition mt_keys :: "(string \<times> token list) set \<Rightarrow> mirror_tier \<Rightarrow> bool" where
  "mt_keys U c \<longleftrightarrow> (\<forall>h toks. mt_blocks c h = Some toks \<longrightarrow> (\<exists>p. prev_ok p \<and> (p, toks) \<in> U \<and> h = hash_block p toks))"

definition td_ok :: "(string \<times> token list) set \<Rightarrow> tiered \<Rightarrow> bool" where
  "td_ok U t \<longleftrightarrow> kv_inv (td_gpu t) \<and> kv_keys U (td_gpu t) \<and> mt_ok (td_cpu t) \<and> mt_keys U (td_cpu t) \<and>
     mt_bs (td_cpu t) = int (kc_bs (td_gpu t)) \<and>
     1 \<le> td_per_block t \<and> td_per_block t \<le> max_int64 \<and> 0 \<le> td_pending t \<and> td_pending t \<le> max_int64"

lemma mt_keys_mono: "mt_keys U c \<Longrightarrow> U \<subseteq> V \<Longrightarrow> mt_keys V c"
  unfolding mt_keys_def by blast

lemma mt_keys_sub: "mt_keys U c \<Longrightarrow> mt_blocks c' \<subseteq>\<^sub>m mt_blocks c \<Longrightarrow> mt_keys U c'"
  unfolding mt_keys_def map_le_def by (metis domI)

lemma td_ok_mono: "td_ok U t \<Longrightarrow> U \<subseteq> V \<Longrightarrow> td_ok V t"
  by (auto simp: td_ok_def intro: kv_keys_mono mt_keys_mono)

text \<open>What a walk does: it reloads blocks and charges for each of them, and nothing else.\<close>

definition walk_frame :: "tiered \<Rightarrow> tiered \<Rightarrow> bool" where
  "walk_frame t t' \<longleftrightarrow> reload_frame (td_gpu t) (td_gpu t') \<and> td_per_block t' = td_per_block t \<and>
     td_cpu_hits t \<le> td_cpu_hits t' \<and> td_pending t' = td_pending t + td_per_block t * (td_cpu_hits t' - td_cpu_hits t) \<and>
     td_cpu_misses t' = td_cpu_misses t \<and> td_mirrors t' = td_mirrors t \<and> mt_blocks (td_cpu t') = mt_blocks (td_cpu t)"

lemma walk_frame_refl [simp]: "walk_frame t t"
  by (simp add: walk_frame_def)

lemma walk_frame_trans: "walk_frame t t1 \<Longrightarrow> walk_frame t1 t2 \<Longrightarrow> walk_frame t t2"
  unfolding walk_frame_def by (auto intro: reload_frame_trans simp: algebra_simps)

lemma reload_step_ok:
  assumes ok: "td_ok U t" and c: "mt_lookup h (td_cpu t) = Some toks" and r: "kv_reload_block h toks (td_gpu t) = Some gpu"
    and a: "accumulate_latency (t\<lparr>td_gpu := gpu\<rparr>) = Inr t1"
  defines "t2 \<equiv> t1\<lparr>td_cpu := mt_touch h (td_cpu t1), td_cpu_hits := td_cpu_hits t1 + 1\<rparr>"
  shows "td_ok U t2" "walk_frame t t2" "td_cpu_hits t2 = td_cpu_hits t + 1"
proof -
  have inv: "kv_inv (td_gpu t)" using ok by (simp add: td_ok_def)
  obtain p where p: "prev_ok p" "(p, toks) \<in> U" "h = hash_block p toks" using ok c by (auto simp: td_ok_def mt_keys_def mt_lookup_def)
  have len: "length toks = kc_bs (td_gpu t)" using ok c by (auto simp: td_ok_def mt_ok_def mt_lookup_def)
  have h: "h \<noteq> []" using p(3) hash_block_nonempty by simp
  obtain b where b: "b < kc_total (td_gpu t)" "\<not> kb_in_use (blk (td_gpu t) b)" "gpu = kv_reloaded b h toks (td_gpu t)" "kv_inv gpu"
    by (rule kv_reload_ok [OF inv len h r])
  have t1: "t1 = t\<lparr>td_gpu := gpu, td_pending := td_pending t + td_per_block t\<rparr>" "td_pending t + td_per_block t \<le> max_int64"
    using a by (auto simp: accumulate_latency_def split: if_splits)
  have touch: "mt_ok (mt_touch h (td_cpu t)) \<and> mt_blocks (mt_touch h (td_cpu t)) = mt_blocks (td_cpu t) \<and> mt_bs (mt_touch h (td_cpu t)) = mt_bs (td_cpu t)"
    using mt_touch_ok [of "td_cpu t" h] ok by (simp add: td_ok_def)
  have "kv_keys U gpu" unfolding b(3) by (rule kv_reload_keys [OF inv _ b(1) p(2,1,3)]) (use ok in \<open>simp add: td_ok_def\<close>)
  moreover have "mt_keys U (mt_touch h (td_cpu t))" using ok touch by (simp add: td_ok_def mt_keys_def)
  moreover have "kc_bs gpu = kc_bs (td_gpu t)" using b(3) by simp
  ultimately show "td_ok U t2" using ok b(4) touch t1(2) by (simp add: t2_def t1(1) td_ok_def)
  have "reload_frame (td_gpu t) gpu" unfolding b(3) by (rule kv_reload_frame [OF inv b(1,2) len])
  then show "walk_frame t t2" using touch by (simp add: walk_frame_def t2_def t1(1))
  show "td_cpu_hits t2 = td_cpu_hits t + 1" by (simp add: t2_def t1(1))
qed

text \<open>
  The walk returns, or it stops at the panic of \<open>accumulateTransferLatency\<close>; it answers true
  exactly when it has reloaded something.
\<close>

lemma reload_loop_ok:
  assumes "td_ok U t" "0 \<le> cnt"
  shows "(\<exists>t'. reload_loop n toks prev limit cnt t = Inr (cnt + (td_cpu_hits t' - td_cpu_hits t) > 0, t') \<and> td_ok U t' \<and> walk_frame t t') \<or>
    reload_loop n toks prev limit cnt t = Inl (Panic ''TieredKVCache: pending transfer latency exceeds int64'')"
  using assms
proof (induction n arbitrary: toks prev cnt t)
  case 0
  then show ?case by (auto intro!: exI [of _ t])
next
  case (Suc n)
  let ?h = "hash_block prev (take (kc_bs (td_gpu t)) toks)"
  have stop: ?case if "reload_loop (Suc n) toks prev limit cnt t = Inr (cnt > 0, t)"
    using Suc.prems that by (intro disjI1 exI [of _ t]) simp
  show ?case
  proof (cases "kc_hash (td_gpu t) ?h \<noteq> None")
    case True
    then show ?thesis using Suc.IH [OF Suc.prems, of "drop (kc_bs (td_gpu t)) toks" ?h] by (simp add: Let_def)
  next
    case miss: False
    show ?thesis
    proof (cases "mt_lookup ?h (td_cpu t)")
      case None
      show ?thesis by (rule stop) (use miss None in \<open>simp add: Let_def\<close>)
    next
      case (Some ctoks)
      show ?thesis
      proof (cases "cnt \<ge> limit \<or> kv_reload_block ?h ctoks (td_gpu t) = None")
        case True
        show ?thesis by (rule stop) (use miss Some True in \<open>auto simp: Let_def\<close>)
      next
        case False
        then obtain gpu where gpu: "kv_reload_block ?h ctoks (td_gpu t) = Some gpu" by auto
        show ?thesis
        proof (cases "accumulate_latency (t\<lparr>td_gpu := gpu\<rparr>)")
          case (Inl e)
          then have "e = Panic ''TieredKVCache: pending transfer latency exceeds int64''"
            by (auto simp: accumulate_latency_def split: if_splits)
          then show ?thesis using miss Some False gpu Inl by (simp add: Let_def)
        next
          case (Inr t1)
          note S = reload_step_ok [OF Suc.prems(1) Some gpu Inr]
          have "0 \<le> cnt + 1" using Suc.prems(2) by simp
          from Suc.IH [OF S(1) this, of "drop (kc_bs (td_gpu t)) toks" ?h]
          show ?thesis
            using miss Some False gpu Inr S(3) walk_frame_trans [OF S(2)] by (auto simp: Let_def algebra_simps)
        qed
      qed
    qed
  qed
qed

section \<open>Mirroring\<close>

lemma mirror_block_ok:
  assumes ok: "td_ok U t" and b: "b < kc_total (td_gpu t)"
  obtains t' where "mirror_block b t = Inr t'" "td_ok U t'" "td_gpu t' = td_gpu t" "td_pending t' = td_pending t"
proof -
  have len: "length (kc_blocks (td_gpu t)) = kc_total (td_gpu t)" and index: "kv_index_ok (td_gpu t)"
    using ok by (auto simp: td_ok_def kv_inv_def kv_acct_def)
  let ?k = "blk (td_gpu t) b"
  have at: "kv_block_at (td_gpu t) b = Inr ?k" using b len by (simp add: kv_block_at_def)
  show thesis
  proof (cases "kb_hash ?k = '''' \<or> length (kb_tokens ?k) < kc_bs (td_gpu t)")
    case True
    then show thesis using that [of t] ok at by (simp add: mirror_block_def)
  next
    case False
    have touch: "mt_ok (mt_touch (kb_hash ?k) (td_cpu t)) \<and> mt_blocks (mt_touch (kb_hash ?k) (td_cpu t)) = mt_blocks (td_cpu t) \<and>
        mt_bs (mt_touch (kb_hash ?k) (td_cpu t)) = mt_bs (td_cpu t)"
      using mt_touch_ok [of "td_cpu t" "kb_hash ?k"] ok by (simp add: td_ok_def)
    show thesis
    proof (cases "mt_lookup (kb_hash ?k) (td_cpu t) = None")
      case hit: False
      have "td_ok U (t\<lparr>td_cpu := mt_touch (kb_hash ?k) (td_cpu t)\<rparr>)" using ok touch by (simp add: td_ok_def mt_keys_def)
      then show thesis using that False hit at by (simp add: mirror_block_def)
    next
      case miss: True
      have tl: "length (kb_tokens ?k) = kc_bs (td_gpu t)" using index b False by (auto simp: kv_index_ok_def)
      have st: "mt_ok (mt_store (kb_hash ?k) (kb_tokens ?k) (td_cpu t))" "mt_bs (mt_store (kb_hash ?k) (kb_tokens ?k) (td_cpu t)) = mt_bs (td_cpu t)"
          "mt_blocks (mt_store (kb_hash ?k) (kb_tokens ?k) (td_cpu t)) \<subseteq>\<^sub>m (mt_blocks (td_cpu t))(kb_hash ?k \<mapsto> kb_tokens ?k)"
        using mt_store_ok [of "td_cpu t" "kb_tokens ?k" "kb_hash ?k"] ok tl miss by (auto simp: td_ok_def mt_lookup_def)
      have "\<exists>p. prev_ok p \<and> (p, kb_tokens ?k) \<in> U \<and> kb_hash ?k = hash_block p (kb_tokens ?k)"
        using ok b False by (simp add: td_ok_def kv_keys_def)
      then have "mt_keys U ((td_cpu t)\<lparr>mt_blocks := (mt_blocks (td_cpu t))(kb_hash ?k \<mapsto> kb_tokens ?k)\<rparr>)"
        using ok by (auto simp: td_ok_def mt_keys_def)
      then have "mt_keys U (mt_store (kb_hash ?k) (kb_tokens ?k) (td_cpu t))" using mt_keys_sub [where c' = "mt_store (kb_hash ?k) (kb_tokens ?k) (td_cpu t)"] st(3) by simp
      then have "td_ok U (t\<lparr>td_cpu := mt_store (kb_hash ?k) (kb_tokens ?k) (td_cpu t), td_mirrors := td_mirrors t + 1\<rparr>)"
        using ok st(1,2) by (simp add: td_ok_def)
      then show thesis using that False miss at by (simp add: mirror_block_def)
    qed
  qed
qed

lemma mirror_blocks_ok:
  "td_ok U t \<Longrightarrow> \<forall>b \<in> set bs. b < kc_total (td_gpu t) \<Longrightarrow>
   \<exists>t'. mirror_blocks bs t = Inr t' \<and> td_ok U t' \<and> td_gpu t' = td_gpu t \<and> td_pending t' = td_pending t"
proof (induction bs arbitrary: t)
  case (Cons b bs)
  obtain t1 where t1: "mirror_block b t = Inr t1" "td_ok U t1" "td_gpu t1 = td_gpu t" "td_pending t1 = td_pending t"
    using mirror_block_ok [OF Cons.prems(1), of b] Cons.prems(2) by auto
  then show ?case using Cons.IH [OF t1(2)] Cons.prems(2) by simp
qed simp

lemma td_mirror_ok:
  "td_ok U t \<Longrightarrow> \<exists>t'. td_mirror rs t = Inr t' \<and> td_ok U t' \<and> td_gpu t' = td_gpu t \<and> td_pending t' = td_pending t"
proof (induction rs arbitrary: t)
  case (Cons r rs)
  show ?case
  proof (cases "kc_req (td_gpu t) r")
    case None
    then show ?thesis using Cons.IH [OF Cons.prems] by simp
  next
    case (Some ids)
    have "\<forall>b \<in> set ids. b < kc_total (td_gpu t)" using Some Cons.prems by (auto simp: td_ok_def kv_inv_def kv_acct_def)
    then obtain t1 where t1: "mirror_blocks ids t = Inr t1" "td_ok U t1" "td_gpu t1 = td_gpu t" "td_pending t1 = td_pending t"
      using mirror_blocks_ok [OF Cons.prems] by blast
    then show ?thesis using Cons.IH [OF t1(2)] Some by simp
  qed
qed simp

section \<open>Allocation and release\<close>

lemma resume_seed_new: "kc_req s r = None \<Longrightarrow> \<forall>b \<in> set cached. b < length (kc_blocks s) \<Longrightarrow>
   \<exists>prev. resume_seed r cached s = Inr (length cached, prev) \<and> (cached \<noteq> [] \<longrightarrow> prev = kb_hash (blk s (last cached))) \<and> (cached = [] \<longrightarrow> prev = '''')"
  by (cases cached rule: rev_cases) (auto simp: resume_seed_def kv_block_at_def)

lemma td_release_ok:
  assumes "td_ok U t"
  obtains t' where "td_release r t = Inr t'" "td_ok U t'"
proof -
  obtain s2 where s2: "release_kv_blocks r (td_gpu t) = Inr s2" "kv_inv s2" "kv_frame r (td_gpu t) s2"
      "\<forall>c. kb_tokens (blk s2 c) = kb_tokens (blk (td_gpu t) c) \<and> kb_hash (blk s2 c) = kb_hash (blk (td_gpu t) c)"
    using release_ok [of "td_gpu t" r] assms by (auto simp: td_ok_def)
  note geo = kv_frame_geometry [OF s2(3)]
  have "kv_keys U s2" using assms s2(4) geo(1) by (simp add: td_ok_def kv_keys_def)
  then have "td_ok U (t\<lparr>td_gpu := s2\<rparr>)" using assms s2(2) geo(2) by (simp add: td_ok_def)
  then show thesis using that s2(1) by (simp add: td_release_def)
qed

end
