(* ===== verification/Tiered_Properties.thy ===== *)
theory Tiered_Properties
  imports Tiered_Safe KV_Properties
begin

text \<open>
  What the two-tier cache promises over every run, and two ways in which its allocation goes
  wrong: the walk pops the request's own matched blocks off the free list, and a running
  request with a partly filled block is told that tokens are stored which are not.
\<close>

section \<open>One allocation\<close>

definition latency_panic :: go_error where
  "latency_panic = Panic ''TieredKVCache: pending transfer latency exceeds int64''"

definition walk_from :: "request \<Rightarrow> nat list \<Rightarrow> tiered \<Rightarrow> (bool \<times> tiered) outcome" where
  "walk_from q cached t =
     obind (resume_seed (rq_id q) cached (td_gpu t)) (\<lambda>(n, prev). reload_prefix (full_input_tokens q) n prev t)"

lemma td_allocate_walk:
  "td_allocate q start stop cached t = obind (walk_from q cached t) (\<lambda>(reloaded, t1).
       if reloaded
       then obind (allocate_reloaded q start stop cached (td_gpu t1)) (\<lambda>(ok, gpu). Inr (ok, t1\<lparr>td_gpu := gpu\<rparr>))
       else obind (allocate_kv_blocks q start stop cached (td_gpu t1)) (\<lambda>(ok, gpu).
              Inr (ok, t1\<lparr>td_gpu := gpu, td_cpu_misses := td_cpu_misses t1 + (if ok then 0 else 1)\<rparr>)))"
  by (cases "resume_seed (rq_id q) cached (td_gpu t)") (simp_all add: td_allocate_def walk_from_def split_beta)

lemma reload_loop_count: "0 < cnt \<Longrightarrow> reload_loop n toks prev limit cnt t = Inr (b, t') \<Longrightarrow> b"
proof (induction n arbitrary: toks prev cnt t)
  case (Suc n)
  have "b" if "reload_loop n tk h limit (cnt + 1) t1 = Inr (b, t')" for tk h t1 using Suc.IH [OF _ that] Suc.prems(1) by simp
  then show ?case using Suc.prems Suc.IH by (auto simp: Let_def obind_Inr_iff split: if_splits option.splits)
qed auto

lemma reload_loop_nothing: "0 \<le> cnt \<Longrightarrow> reload_loop n toks prev limit cnt t = Inr (False, t') \<Longrightarrow> t' = t"
proof (induction n arbitrary: toks prev t)
  case (Suc n)
  have "\<not> reload_loop n tk h limit (cnt + 1) t1 = Inr (False, t')" for tk h t1
    using reload_loop_count [of "cnt + 1"] Suc.prems(1) by auto
  then show ?case
    using Suc by (auto simp: Let_def obind_Inr_iff split: if_splits option.splits)
qed auto

lemma walk_ok:
  assumes ok: "td_ok U t" and c: "\<forall>b \<in> set cached. b < kc_total (td_gpu t)"
  shows "walk_from q cached t = Inl latency_panic \<or>
    (\<exists>b t1. walk_from q cached t = Inr (b, t1) \<and> td_ok U t1 \<and> walk_frame t t1 \<and> (b \<longleftrightarrow> td_cpu_hits t < td_cpu_hits t1) \<and> (\<not> b \<longrightarrow> t1 = t))"
proof -
  have acct: "kv_acct [] (td_gpu t)" using ok by (simp add: td_ok_def kv_inv_def)
  then have "length (kc_blocks (td_gpu t)) = kc_total (td_gpu t)"
      "\<And>ids. kc_req (td_gpu t) (rq_id q) = Some ids \<Longrightarrow> ids \<noteq> [] \<and> (\<forall>b \<in> set ids. b < kc_total (td_gpu t))"
    by (auto simp: kv_acct_def)
  then have "\<exists>n prev. resume_seed (rq_id q) cached (td_gpu t) = Inr (n, prev)"
    using c by (cases "cached = []"; cases "kc_req (td_gpu t) (rq_id q)") (auto simp: resume_seed_def kv_block_at_def)
  then obtain n prev where s: "resume_seed (rq_id q) cached (td_gpu t) = Inr (n, prev)" by blast
  let ?bs = "kc_bs (td_gpu t)"
  have w: "walk_from q cached t = reload_loop (length (rq_input q) div ?bs - n) (drop (n * ?bs) (rq_input q)) prev (kv_count_free (td_gpu t)) 0 t"
    using s by (simp add: walk_from_def reload_prefix_def full_input_tokens_def Let_def)
  have n: "\<not> b \<longrightarrow> t1 = t" if "walk_from q cached t = Inr (b, t1)" for b t1
    using reload_loop_nothing [OF order_refl, of _ _ prev] that unfolding w by (cases b) auto
  from reload_loop_ok [OF ok order_refl, of "length (rq_input q) div ?bs - n" "drop (n * ?bs) (rq_input q)" prev "kv_count_free (td_gpu t)"]
  show ?thesis using n unfolding w latency_panic_def by fastforce
qed

lemma walk_last_full: "walk_frame t t1 \<Longrightarrow> kv_last_full r (td_gpu t) \<Longrightarrow> kv_acct [] (td_gpu t) \<Longrightarrow> kv_last_full r (td_gpu t1)"
  unfolding kv_last_full_def walk_frame_def reload_frame_def kv_acct_def by (metis in_kv_table last_in_set)

lemma td_allocate_ok:
  assumes ok: "td_ok U t" and args: "kv_alloc_args q start stop cached (td_gpu t)"
    and safe: "kv_last_full (rq_id q) (td_gpu t) \<or> (\<forall>t1. walk_from q cached t \<noteq> Inr (True, t1))"
  shows "td_allocate q start stop cached t = Inl latency_panic \<or>
    (\<exists>b t'. td_allocate q start stop cached t = Inr (b, t') \<and>
       td_ok (U \<union> kv_pairs (td_gpu t) (rq_id q) \<union> kv_pairs (td_gpu t') (rq_id q)) t' \<and> kv_frame (rq_id q) (td_gpu t) (td_gpu t'))"
proof -
  let ?r = "rq_id q"
  have c: "\<forall>b \<in> set cached. b < kc_total (td_gpu t)" using args by (simp add: kv_alloc_args_def)
  show ?thesis
  proof (cases "walk_from q cached t = Inl latency_panic")
    case True
    then show ?thesis by (simp add: td_allocate_walk)
  next
    case False
    then obtain b t1 where w: "walk_from q cached t = Inr (b, t1)" "td_ok U t1" "walk_frame t t1"
      using walk_ok [OF ok c] by blast
    have rf: "reload_frame (td_gpu t) (td_gpu t1)" using w(3) by (simp add: walk_frame_def)
    have tab: "kv_table (td_gpu t1) ?r = kv_table (td_gpu t) ?r" using rf by (simp add: reload_frame_def kv_table_def)
    have pairs: "kv_pairs (td_gpu t1) ?r = kv_pairs (td_gpu t) ?r"
    proof -
      have "kv_pairs (td_gpu t) ?r \<subseteq> kv_pairs (td_gpu t1) ?r"
        by (rule kv_pairs_extend [of _ _ _ "[]"]) (use tab rf in \<open>auto simp: reload_frame_def\<close>)
      moreover have "kv_pairs (td_gpu t1) ?r \<subseteq> kv_pairs (td_gpu t) ?r"
        by (rule kv_pairs_extend [of _ _ _ "[]"]) (use tab rf in \<open>auto simp: reload_frame_def\<close>)
      ultimately show ?thesis by blast
    qed
    have frame0: "kv_frame ?r (td_gpu t) (td_gpu t1)"
      using rf reload_frame_stored [OF rf] by (simp add: kv_frame_def reload_frame_def)
    have args1: "kv_alloc_args q start stop cached (td_gpu t1)"
      using args rf by (auto simp: kv_alloc_args_def reload_frame_def)
    have inv1: "kv_inv (td_gpu t1)" and keys1: "kv_keys (U \<union> kv_pairs (td_gpu t1) ?r) (td_gpu t1)"
      using w(2) kv_keys_mono by (auto simp: td_ok_def)
    have fin: "td_ok (U \<union> kv_pairs (td_gpu t) ?r \<union> kv_pairs g ?r) (t1\<lparr>td_gpu := g, td_cpu_misses := m\<rparr>) \<and> kv_frame ?r (td_gpu t) g"
      if "kv_inv g" "kv_frame ?r (td_gpu t1) g" "kv_keys (U \<union> kv_pairs g ?r) g" for g m
      using that w(2) frame0 kv_frame_trans kv_frame_geometry(2) [OF that(2)]
      by (auto simp: td_ok_def intro: kv_keys_mono mt_keys_mono)
    show ?thesis
    proof (cases b)
      case True
      then have "kv_last_full ?r (td_gpu t)" using safe w(1) by auto
      then have "kv_last_full ?r (td_gpu t1)" using walk_last_full [OF w(3)] ok by (simp add: td_ok_def kv_inv_def)
      then obtain ok2 g where g: "allocate_reloaded q start stop cached (td_gpu t1) = Inr (ok2, g)" "kv_inv g" "kv_frame ?r (td_gpu t1) g"
          "kv_keys (U \<union> kv_pairs g ?r) g"
        using allocate_reloaded_inv [OF inv1 _ args1] keys1 by metis
      then show ?thesis using w(1) True fin [OF g(2-4), of "td_cpu_misses t1"] by (simp add: td_allocate_walk)
    next
      case none: False
      obtain toks where toks: "kv_new_tokens q start stop = Inr toks" by (rule kv_new_tokens_ok [OF args])
      show ?thesis
      proof (cases "int (kv_need (td_gpu t1) ?r (length toks)) + kv_idle cached (td_gpu t1) \<le> kc_free_cnt (td_gpu t1)")
        case True
        then obtain g where g: "allocate_kv_blocks q start stop cached (td_gpu t1) = Inr (True, g)" "kv_inv g" "kv_frame ?r (td_gpu t1) g"
            "kv_keys (U \<union> kv_pairs g ?r) g"
          using allocate_cases [OF inv1 args1 toks] keys1 by auto
        then show ?thesis using w(1) none fin [OF g(2-4), of "td_cpu_misses t1"] by (auto simp: td_allocate_walk)
      next
        case False
        then have "allocate_kv_blocks q start stop cached (td_gpu t1) = Inr (False, td_gpu t1)"
          using allocate_cases [OF inv1 args1 toks] by simp
        then show ?thesis using w(1) none fin [OF inv1 _ keys1, of "td_cpu_misses t1 + 1"]
          by (auto simp: td_allocate_walk intro: exI [of _ False])
      qed
    qed
  qed
qed

section \<open>Runs\<close>

text \<open>
  The states a two-tier cache reaches. A running request whose last block has room asks only
  when the walk finds nothing to reload: what happens otherwise is the last theorem of this
  theory. \<open>U\<close> collects the blocks keyed so far.
\<close>

inductive td_run :: "tiered \<Rightarrow> (string \<times> token list) set \<Rightarrow> bool" where
  run_new: "new_kv_cache n k = Inr g \<Longrightarrow> new_tiered g blocks bw base = Inr t \<Longrightarrow> td_run t {}"
| run_alloc: "td_run t U \<Longrightarrow> kv_alloc_args q start stop cached (td_gpu t) \<Longrightarrow>
    kv_last_full (rq_id q) (td_gpu t) \<or> (\<forall>t1. walk_from q cached t \<noteq> Inr (True, t1)) \<Longrightarrow>
    td_allocate q start stop cached t = Inr (b, t') \<Longrightarrow>
    td_run t' (U \<union> kv_pairs (td_gpu t) (rq_id q) \<union> kv_pairs (td_gpu t') (rq_id q))"
| run_release: "td_run t U \<Longrightarrow> td_release r t = Inr t' \<Longrightarrow> td_run t' U"
| run_mirror: "td_run t U \<Longrightarrow> td_mirror rs t = Inr t' \<Longrightarrow> td_run t' U"
| run_consume: "td_run t U \<Longrightarrow> td_consume_latency t = (lat, t') \<Longrightarrow> td_run t' U"

lemma new_tiered_ok:
  assumes "new_kv_cache n k = Inr g" "new_tiered g blocks bw base = Inr t"
  shows "td_ok {} t \<and> td_gpu t = g \<and> mt_blocks (td_cpu t) = Map.empty"
proof -
  note N = new_kv_cache_ok [OF assms(1)]
  define ticks where "ticks = \<lceil>of_int (int (kc_bs g)) / bw\<rceil>"
  obtain c where c: "new_mirror_tier blocks (int (kc_bs g)) = Inr c"
      "t = \<lparr>td_gpu = g, td_cpu = c, td_per_block = base + ticks, td_pending = 0, td_cpu_hits = 0, td_cpu_misses = 0, td_mirrors = 0\<rparr>"
      "0 \<le> base" "1 \<le> ticks" "base \<le> max_int64 - ticks"
    using assms(2) unfolding new_tiered_def Let_def ticks_def [symmetric] by (auto simp: obind_Inr_iff split: if_splits)
  have m: "mt_ok c" "mt_blocks c = Map.empty" "mt_bs c = int (kc_bs g)" using new_mirror_ok [OF c(1)] by auto
  have "mt_keys {} c" using m(2) by (simp add: mt_keys_def)
  moreover have "kv_inv g" "kv_keys {} g" using N by simp_all
  moreover have "1 \<le> base + ticks" "base + ticks \<le> max_int64" "0 \<le> max_int64" using c(3-5) by linarith+
  ultimately show ?thesis using m unfolding td_ok_def c(2) by simp
qed

lemma td_run_ok: "td_run t U \<Longrightarrow> td_ok U t"
proof (induction rule: td_run.induct)
  case (run_new n k g blocks bw base t)
  then show ?case using new_tiered_ok by blast
next
  case (run_alloc t U q start stop cached b t')
  then show ?case using td_allocate_ok [OF run_alloc.IH run_alloc.hyps(2,3)] by auto
next
  case (run_release t U r t')
  then show ?case using td_release_ok [OF run_release.IH] by (metis sum.inject(2))
next
  case (run_mirror t U rs t')
  then show ?case using td_mirror_ok [OF run_mirror.IH, of rs] by auto
next
  case (run_consume t U lat t')
  then show ?case by (auto simp: td_consume_latency_def td_ok_def)
qed

section \<open>The promises\<close>

text \<open>C28 Over every run of the two-tier cache: INV-4 holds on the GPU; the CPU tier's list is exactly
  its blocks, within capacity, and its slice pool covers the rest of the capacity, so that no
  store allocates; every CPU block is full and filed under the hash of its own tokens; and the
  pending latency neither wraps nor is negative.\<close>

theorem tiered_invariants:
  assumes "td_run t U"
  shows "verify_block_conservation (td_gpu t) = Some None \<and>
    (\<exists>xs. dll_list (mt_links (td_cpu t)) xs \<and> set xs = dom (mt_blocks (td_cpu t)) \<and> mt_used (td_cpu t) = int (length xs)) \<and>
    mt_used (td_cpu t) \<le> mt_capacity (td_cpu t) \<and>
    int (length (mt_pool (td_cpu t))) + mt_used (td_cpu t) = mt_capacity (td_cpu t) \<and>
    (\<forall>h toks. mt_blocks (td_cpu t) h = Some toks \<longrightarrow> length toks = kc_bs (td_gpu t) \<and> (\<exists>p. (p, toks) \<in> U \<and> h = hash_block p toks)) \<and>
    0 \<le> td_pending t \<and> td_pending t \<le> max_int64"
proof -
  have ok: "td_ok U t" by (rule td_run_ok [OF assms])
  then have "kv_acct [] (td_gpu t)" by (simp add: td_ok_def kv_inv_def)
  then have "verify_block_conservation (td_gpu t) = Some None" by (rule verify_block_conservation_ok)
  moreover have "length toks = kc_bs (td_gpu t) \<and> (\<exists>p. (p, toks) \<in> U \<and> h = hash_block p toks)"
    if "mt_blocks (td_cpu t) h = Some toks" for h toks
    using ok that unfolding td_ok_def mt_ok_def mt_keys_def by (metis nat_int)
  ultimately show ?thesis using ok unfolding td_ok_def mt_ok_def by blast
qed

text \<open>Error behaviour and bounds of an allocation: for the arguments the scheduler passes it returns or
  stops at the overflow panic, never at an index or the free-list panic; the walk charges one
  block transfer for every block it reloads, and nobody else's tokens change.\<close>

theorem tiered_allocate_returns:
  assumes "td_run t U" "kv_alloc_args q start stop cached (td_gpu t)"
    and "kv_last_full (rq_id q) (td_gpu t) \<or> (\<forall>t1. walk_from q cached t \<noteq> Inr (True, t1))"
  shows "td_allocate q start stop cached t = Inl latency_panic \<or>
    (\<exists>b t'. td_allocate q start stop cached t = Inr (b, t') \<and>
       td_pending t' = td_pending t + td_per_block t * (td_cpu_hits t' - td_cpu_hits t) \<and> td_cpu_hits t \<le> td_cpu_hits t' \<and>
       (\<forall>r. r \<noteq> rq_id q \<longrightarrow> kc_req (td_gpu t') r = kc_req (td_gpu t) r \<and> kv_stored (td_gpu t') r = kv_stored (td_gpu t) r))"
proof -
  have ok: "td_ok U t" by (rule td_run_ok [OF assms(1)])
  have c: "\<forall>b \<in> set cached. b < kc_total (td_gpu t)" using assms(2) by (simp add: kv_alloc_args_def)
  have lat: "td_pending t' = td_pending t + td_per_block t * (td_cpu_hits t' - td_cpu_hits t) \<and> td_cpu_hits t \<le> td_cpu_hits t'"
    if "td_allocate q start stop cached t = Inr (b, t')" for b t'
  proof -
    have "walk_from q cached t \<noteq> Inl latency_panic" using that by (auto simp: td_allocate_walk)
    then obtain b1 t1 where w: "walk_from q cached t = Inr (b1, t1)" "walk_frame t t1"
      using walk_ok [OF ok c, of q] by blast
    then have "td_pending t' = td_pending t1 \<and> td_cpu_hits t' = td_cpu_hits t1"
      using that by (auto simp: td_allocate_walk obind_Inr_iff split: if_splits)
    then show ?thesis using w(2) by (simp add: walk_frame_def)
  qed
  from td_allocate_ok [OF ok assms(2,3)] show ?thesis
  proof
    assume "\<exists>b t'. td_allocate q start stop cached t = Inr (b, t') \<and>
       td_ok (U \<union> kv_pairs (td_gpu t) (rq_id q) \<union> kv_pairs (td_gpu t') (rq_id q)) t' \<and> kv_frame (rq_id q) (td_gpu t) (td_gpu t')"
    then obtain b t' where "td_allocate q start stop cached t = Inr (b, t')" "kv_frame (rq_id q) (td_gpu t) (td_gpu t')" by blast
    then show ?thesis using lat unfolding kv_frame_def by blast
  qed simp
qed

text \<open>Reload is sound where the walk leaves the matched blocks alone: a request new to the GPU that is
  admitted with the blocks a lookup of its prompt found holds exactly a prefix of its prompt
  that reaches at least to \<open>hi\<close>, whether its blocks came from the GPU, the CPU or were
  computed, unless two of the blocks hashed collide.\<close>

theorem tiered_prefix_sound:
  assumes "td_run t U" "kc_req (td_gpu t) (rq_id q) = None" "rq_progress q < input_len q"
    and inj: "inj_on (\<lambda>b. hash_block (fst b) (snd b))
           (U \<union> chain_pairs (kc_bs (td_gpu t)) (length (rq_input q) div kc_bs (td_gpu t)) [] (rq_input q))"
    and lo: "lo = length (get_cached_blocks (td_gpu t) (rq_input q)) * kc_bs (td_gpu t)" and hi: "lo < hi" "int hi \<le> input_len q"
    and alloc: "td_allocate q (int lo) (int hi) (get_cached_blocks (td_gpu t) (rq_input q)) t = Inr (True, t')"
    and kept: "\<forall>t1. walk_from q (get_cached_blocks (td_gpu t) (rq_input q)) t = Inr (True, t1) \<longrightarrow>
           lo < length (get_cached_blocks (td_gpu t1) (rq_input q)) * kc_bs (td_gpu t)"
  shows "\<exists>m \<ge> hi. kv_stored (td_gpu t') (rq_id q) = take m (rq_input q)"
proof -
  let ?ids = "get_cached_blocks (td_gpu t) (rq_input q)" and ?r = "rq_id q"
  have ok: "td_ok U t" by (rule td_run_ok [OF assms(1)])
  have inv: "kv_inv (td_gpu t)" and keys: "kv_keys U (td_gpu t)" using ok by (simp_all add: td_ok_def)
  have c: "\<forall>b \<in> set ?ids. b < kc_total (td_gpu t)" using get_cached_full [OF inv] by blast
  have "walk_from q ?ids t \<noteq> Inl latency_panic" using alloc by (auto simp: td_allocate_walk)
  then obtain b t1 where w: "walk_from q ?ids t = Inr (b, t1)" "td_ok U t1" "walk_frame t t1" "\<not> b \<longrightarrow> t1 = t"
    using walk_ok [OF ok c] by blast
  show ?thesis
  proof (cases b)
    case True
    have bs: "kc_bs (td_gpu t1) = kc_bs (td_gpu t)" "kc_req (td_gpu t1) ?r = None"
      using w(3) assms(2) by (simp_all add: walk_frame_def reload_frame_def)
    have inv1: "kv_inv (td_gpu t1)" "kv_keys U (td_gpu t1)" using w(2) by (simp_all add: td_ok_def)
    have inj1: "inj_on (\<lambda>b. hash_block (fst b) (snd b)) (U \<union> chain_pairs (kc_bs (td_gpu t1)) (length (rq_input q) div kc_bs (td_gpu t1)) [] (rq_input q))"
      using inj bs by simp
    have longer: "int lo < int (length (get_cached_blocks (td_gpu t1) (rq_input q)) * kc_bs (td_gpu t1))"
      unfolding of_nat_less_iff bs(1) using kept w(1) True by auto
    have pos: "0 < kc_bs (td_gpu t1)" using inv1 by (simp add: kv_inv_def kv_acct_def)
    obtain ok2 g where g: "allocate_reloaded q (int lo) (int hi) ?ids (td_gpu t1) = Inr (ok2, g)"
      "kv_stored g ?r = take (if \<not> ok2 then length (get_cached_blocks (td_gpu t1) (rq_input q)) * kc_bs (td_gpu t1)
         else if hi \<le> length (get_cached_blocks (td_gpu t1) (rq_input q)) * kc_bs (td_gpu t1) then ceil_div hi (kc_bs (td_gpu t1)) * kc_bs (td_gpu t1) else hi) (rq_input q)"
      using allocate_reloaded_new [OF inv1 bs(2) inj1 assms(3), of "int lo" hi ?ids] hi longer by (metis nat_less_le of_nat_0_le_iff of_nat_mono)
    then have "ok2" "td_gpu t' = g" using alloc w(1) True by (auto simp: td_allocate_walk)
    moreover have "hi \<le> ceil_div hi (kc_bs (td_gpu t1)) * kc_bs (td_gpu t1)"
    proof -
      have "hi + kc_bs (td_gpu t1) - 1 < (ceil_div hi (kc_bs (td_gpu t1)) + 1) * kc_bs (td_gpu t1)"
        unfolding ceil_div_def using pos by (metis dividend_less_times_div add.commute mult.commute mult_Suc Suc_eq_plus1)
      then show ?thesis using pos by simp
    qed
    ultimately show ?thesis using g(2) by auto
  next
    case False
    let ?toks = "take (hi - lo) (drop lo (rq_input q))"
    have args: "kv_alloc_args q (int lo) (int hi) ?ids (td_gpu t)"
      using assms(3) hi get_cached_full [OF inv] by (simp add: kv_alloc_args_def)
    have toks: "kv_new_tokens q (int lo) (int hi) = Inr ?toks" "?toks \<noteq> []"
      using assms(3) hi by (auto simp: kv_new_tokens_def input_token_slice_def input_len_def nat_diff_distrib)
    have "concat (map (\<lambda>b. kb_tokens (blk (td_gpu t) b)) ?ids) = take lo (rq_input q)"
      unfolding lo by (rule get_cached_concat [OF inv keys inj])
    then have "kv_added ?r ?ids ?toks (td_gpu t) = take hi (rq_input q)"
      using assms(2) toks(2) hi(1) take_add [of lo "hi - lo" "rq_input q"] by (simp add: kv_added_def)
    moreover have "kv_stored (td_gpu t') ?r = kv_stored (td_gpu t) ?r @ kv_added ?r ?ids ?toks (td_gpu t)"
      using allocate_cases [OF inv args toks(1)] alloc w(1,4) False by (auto simp: td_allocate_walk obind_Inr_iff split: if_splits)
    ultimately show ?thesis using kv_stored_fresh [OF assms(2)] by auto
  qed
qed

section \<open>Two defects\<close>

text \<open>Two free blocks of one token: block 0 holds the first block of a prompt, the CPU the second.\<close>

definition popped_state :: tiered where
  "popped_state = \<lparr>td_gpu = \<lparr>kc_total = 2, kc_bs = 1,
       kc_blocks = [\<lparr>kb_ref = 0, kb_in_use = False, kb_hash = hash_block '''' [7], kb_tokens = [7]\<rparr>, empty_kv_block],
       kc_req = Map.empty, kc_hash = [hash_block '''' [7] \<mapsto> 0], kc_links = dll_append 1 (dll_append 0 dll_empty), kc_free_cnt = 2, kc_hits = 0, kc_misses = 1\<rparr>,
     td_cpu = \<lparr>mt_blocks = [hash_block (hash_block '''' [7]) [8] \<mapsto> [8]], mt_links = dll_append (hash_block (hash_block '''' [7]) [8]) dll_empty,
       mt_capacity = 1, mt_used = 1, mt_bs = 1, mt_pool = [], mt_evictions = 0\<rparr>,
     td_per_block = 1, td_pending = 0, td_cpu_hits = 0, td_cpu_misses = 0, td_mirrors = 1\<rparr>"

lemma popped_state_ok: "td_ok {('''', [7]), (hash_block '''' [7], [8])} popped_state"
proof -
  have l: "dll_list (dll_append 1 (dll_append 0 dll_empty)) [0, 1 :: nat]"
    using dll_append_list [OF dll_append_list [OF dll_list_empty, of "0 :: nat"], of 1] by simp
  have m: "dll_list (dll_append k dll_empty) [k]" for k :: string using dll_append_list [OF dll_list_empty, of k] by simp
  have two: "b < 2 \<longleftrightarrow> b = 0 \<or> b = 1" for b :: nat by auto
  have set2: "{b :: nat. b = 0 \<or> b = Suc 0} = {0, Suc 0}" by auto
  have r0: "refs Map.empty b = 0" for b by (simp add: refs_empty)
  have "kv_free_ok (td_gpu popped_state)"
    unfolding kv_free_ok_def popped_state_def using l by (intro exI [of _ "[0, 1]"]) (auto simp: empty_kv_block_def nth_Cons')
  then have "kv_acct [] (td_gpu popped_state)"
    by (auto simp: kv_acct_def popped_state_def two r0 empty_kv_block_def nth_Cons')
  moreover have "kv_held_ok (td_gpu popped_state)" by (simp add: kv_held_ok_def popped_state_def)
  moreover have "kv_index_ok (td_gpu popped_state)"
    by (auto simp: kv_index_ok_def popped_state_def two hash_block_nonempty empty_kv_block_def nth_Cons' split: if_splits)
  moreover have "kv_keys {('''', [7]), (hash_block '''' [7], [8])} (td_gpu popped_state)"
    by (auto simp: kv_keys_def popped_state_def two empty_kv_block_def nth_Cons' prev_ok_Nil)
  moreover have "mt_ok (td_cpu popped_state)"
    unfolding mt_ok_def popped_state_def using m by (auto intro!: exI [of _ "[hash_block (hash_block '''' [7]) [8]]"] split: if_splits)
  moreover have "mt_keys {('''', [7]), (hash_block '''' [7], [8])} (td_cpu popped_state)"
    using prev_ok_hash_block by (auto simp: mt_keys_def popped_state_def split: if_splits)
  ultimately show ?thesis by (simp add: td_ok_def kv_inv_def) (simp add: popped_state_def max_int64_def)
qed

lemma popped_fields:
  "kc_bs (td_gpu popped_state) = 1" "kc_hash (td_gpu popped_state) = [hash_block '''' [7] \<mapsto> 0]" "kc_req (td_gpu popped_state) = Map.empty"
  "kc_free_cnt (td_gpu popped_state) = 2" "dl_head (kc_links (td_gpu popped_state)) = Some 0" "length (kc_blocks (td_gpu popped_state)) = 2"
  "kb_hash (blk (td_gpu popped_state) 0) = hash_block '''' [7]" "\<not> kb_in_use (blk (td_gpu popped_state) 0)" "kc_total (td_gpu popped_state) = 2"
  "mt_blocks (td_cpu popped_state) = [hash_block (hash_block '''' [7]) [8] \<mapsto> [8]]" "td_pending popped_state = 0" "td_per_block popped_state = 1"
  by (simp_all add: popped_state_def dll_append_def dll_empty_def)

text \<open>C29 The walk pops free blocks from the head of the free list and does not spare the ones the caller
  matched: here it overwrites block 0, which holds the first token of the prompt, with the
  second; the lookup after the reload finds no longer prefix, so the code allocates with the
  caller's list as it was, answers true, and the request's blocks hold the second token twice
  (unless the keys of the two blocks collide). The comment calls this case safe.\<close>

theorem reload_pops_matched_prefix:
  "hash_block (hash_block '''' [7]) [8] = hash_block '''' [7] \<or>
   (td_ok {('''', [7]), (hash_block '''' [7], [8])} popped_state \<and> get_cached_blocks (td_gpu popped_state) [7, 8] = [0] \<and>
    (\<exists>t'. td_allocate (demo_request ''a'' [7, 8] []) 1 2 [0] popped_state = Inr (True, t') \<and> kv_stored (td_gpu t') ''a'' = [8, 8]))"
proof -
  let ?h0 = "hash_block '''' [7]" and ?q = "demo_request ''a'' [7, 8] []"
  let ?h1 = "hash_block ?h0 [8]" and ?g = "td_gpu popped_state"
  have "td_ok {('''', [7]), (?h0, [8])} popped_state \<and> get_cached_blocks ?g [7, 8] = [0] \<and>
    (\<exists>t'. td_allocate ?q 1 2 [0] popped_state = Inr (True, t') \<and> kv_stored (td_gpu t') ''a'' = [8, 8])" if ne: "?h1 \<noteq> ?h0"
  proof -
  note P = popped_fields
  have c0: "get_cached_blocks ?g [7, 8] = [0]"
    using ne by (simp add: get_cached_blocks_def P numeral_2_eq_2 Let_def)
  have inv: "kv_inv ?g" using popped_state_ok by (simp add: td_ok_def)
  define g1 where "g1 = kv_reloaded 0 ?h1 [8] ?g"
  have r: "kv_reload_block ?h1 [8] ?g = Some g1" unfolding g1_def by (rule kv_reload_block_eq) (simp_all add: P)
  have inv1: "kv_inv g1"
    using kv_reload_ok [OF inv _ _ r] hash_block_nonempty P(1) by (metis One_nat_def length_Cons list.size(3))
  have seed: "resume_seed ''a'' [0] ?g = Inr (1, ?h0)" by (simp add: resume_seed_def kv_block_at_def P)
  define t1 where "t1 = popped_state\<lparr>td_gpu := g1, td_pending := 1, td_cpu := mt_touch ?h1 (td_cpu popped_state), td_cpu_hits := td_cpu_hits popped_state + 1\<rparr>"
  have walk: "walk_from ?q [0] popped_state = Inr (True, t1)"
    using ne r by (simp add: walk_from_def seed reload_prefix_def full_input_tokens_def P Let_def kv_count_free_def mt_lookup_def
        accumulate_latency_def max_int64_def t1_def)
  have c1: "get_cached_blocks g1 [7, 8] = []"
    using ne by (simp add: get_cached_blocks_def g1_def P numeral_2_eq_2 Let_def) (simp add: kv_reloaded_def P Let_def)
  have blk1: "kb_tokens (blk g1 0) = [8]" "\<not> kb_in_use (blk g1 0)" by (simp_all add: g1_def kv_reloaded_blk P)
  have f1: "kc_bs g1 = 1" "kc_req g1 = Map.empty" "kc_free_cnt g1 = 2" "kc_total g1 = 2" by (simp_all add: g1_def P)
  have args: "kv_alloc_args ?q 1 2 [0] g1" by (simp add: kv_alloc_args_def input_len_def blk1 f1)
  have toks: "kv_new_tokens ?q 1 2 = Inr [8]" by (simp add: kv_new_tokens_def input_token_slice_def input_len_def)
  have "int (kv_need g1 (rq_id ?q) (length [8 :: token])) + kv_idle [0] g1 \<le> kc_free_cnt g1"
    by (simp add: kv_need_def kv_room_def kv_table_def f1 ceil_div_def kv_idle_def blk1)
  then obtain g2 where g2: "allocate_kv_blocks ?q 1 2 [0] g1 = Inr (True, g2)"
      "kv_stored g2 (rq_id ?q) = kv_stored g1 (rq_id ?q) @ kv_added (rq_id ?q) [0] [8] g1"
    using allocate_cases [OF inv1 args toks] by auto
  have "allocate_reloaded ?q 1 2 [0] g1 = Inr (True, g2)" using g2(1) c1 by (simp add: allocate_reloaded_def full_input_tokens_def f1 Let_def)
  then have "td_allocate ?q 1 2 [0] popped_state = Inr (True, t1\<lparr>td_gpu := g2\<rparr>)"
    using walk by (simp add: td_allocate_walk t1_def)
  moreover have "kv_stored g2 ''a'' = [8, 8]"
    using g2(2) kv_stored_fresh [of g1 "''a''"] by (simp add: kv_added_def f1 blk1)
  ultimately show "td_ok {('''', [7]), (?h0, [8])} popped_state \<and> get_cached_blocks ?g [7, 8] = [0] \<and>
    (\<exists>t'. td_allocate ?q 1 2 [0] popped_state = Inr (True, t') \<and> kv_stored (td_gpu t') ''a'' = [8, 8])"
    using popped_state_ok c0 by auto
  qed
  then show ?thesis by blast
qed

text \<open>A running request with one token of its first block stored; the CPU holds a block of the same
  two tokens that its prompt repeats.\<close>

definition skipped_state :: tiered where
  "skipped_state = \<lparr>td_gpu = \<lparr>kc_total = 2, kc_bs = 2,
       kc_blocks = [\<lparr>kb_ref = 1, kb_in_use = True, kb_hash = '''', kb_tokens = [7]\<rparr>, empty_kv_block],
       kc_req = [''a'' \<mapsto> [0]], kc_hash = Map.empty, kc_links = dll_append 1 dll_empty, kc_free_cnt = 1, kc_hits = 0, kc_misses = 1\<rparr>,
     td_cpu = \<lparr>mt_blocks = [hash_block '''' [7, 8] \<mapsto> [7, 8]], mt_links = dll_append (hash_block '''' [7, 8]) dll_empty,
       mt_capacity = 1, mt_used = 1, mt_bs = 2, mt_pool = [], mt_evictions = 0\<rparr>,
     td_per_block = 1, td_pending = 0, td_cpu_hits = 0, td_cpu_misses = 0, td_mirrors = 1\<rparr>"

lemma skipped_state_ok: "td_ok {('''', [7, 8])} skipped_state"
proof -
  have m: "dll_list (dll_append k dll_empty) [k]" for k :: 'x using dll_append_list [OF dll_list_empty, of k] by simp
  have two: "b < 2 \<longleftrightarrow> b = 0 \<or> b = 1" for b :: nat by auto
  have r: "refs [''a'' \<mapsto> [0 :: nat]] b = (if b = 0 then 1 else 0)" for b
    using refs_upd [of Map.empty "''a''" "[0]" b] by (simp add: refs_empty)
  have "kv_free_ok (td_gpu skipped_state)"
    unfolding kv_free_ok_def skipped_state_def using m [of "1 :: nat"]
    by (intro exI [of _ "[1]"]) (auto simp: empty_kv_block_def nth_Cons' split: if_splits)
  then have "kv_acct [] (td_gpu skipped_state)"
    by (auto simp: kv_acct_def skipped_state_def two r empty_kv_block_def nth_Cons' split: if_splits)
  moreover have "kv_held_ok (td_gpu skipped_state)" by (auto simp: kv_held_ok_def skipped_state_def r split: if_splits)
  moreover have "kv_index_ok (td_gpu skipped_state)"
    by (auto simp: kv_index_ok_def skipped_state_def two empty_kv_block_def nth_Cons')
  moreover have "kv_keys {('''', [7, 8])} (td_gpu skipped_state)"
    by (auto simp: kv_keys_def skipped_state_def two empty_kv_block_def nth_Cons')
  moreover have "mt_ok (td_cpu skipped_state)"
    unfolding mt_ok_def skipped_state_def using m [of "hash_block '''' [7, 8]"] by (auto intro!: exI [of _ "[hash_block '''' [7, 8]]"] split: if_splits)
  moreover have "mt_keys {('''', [7, 8])} (td_cpu skipped_state)"
    by (auto simp: mt_keys_def skipped_state_def prev_ok_Nil split: if_splits)
  ultimately show ?thesis by (simp add: td_ok_def kv_inv_def) (simp add: skipped_state_def max_int64_def)
qed

lemma skipped_fields:
  "kc_bs (td_gpu skipped_state) = 2" "kc_hash (td_gpu skipped_state) = Map.empty" "kc_req (td_gpu skipped_state) = [''a'' \<mapsto> [0]]"
  "kc_free_cnt (td_gpu skipped_state) = 1" "dl_head (kc_links (td_gpu skipped_state)) = Some 1" "length (kc_blocks (td_gpu skipped_state)) = 2"
  "blk (td_gpu skipped_state) 0 = \<lparr>kb_ref = 1, kb_in_use = True, kb_hash = '''', kb_tokens = [7]\<rparr>"
  "mt_blocks (td_cpu skipped_state) = [hash_block '''' [7, 8] \<mapsto> [7, 8]]" "td_pending skipped_state = 0" "td_per_block skipped_state = 1"
  "kb_hash (blk (td_gpu skipped_state) 1) = ''''"
  by (simp_all add: skipped_state_def dll_append_def dll_empty_def empty_kv_block_def)

text \<open>C30 The walk for a running request is seeded with the empty hash of its partly filled last block,
  although the comment says that this is what it avoids: a prompt that repeats its first block
  finds that block on the CPU, the lookup after the reload covers the asked range, and the
  code answers true although the token between \<open>startIndex\<close> and \<open>endIndex\<close> is stored nowhere.\<close>

theorem running_reload_skips_tokens:
  "td_ok {('''', [7, 8])} skipped_state \<and> kv_stored (td_gpu skipped_state) ''a'' = [7] \<and>
   (\<exists>t'. td_allocate ((demo_request ''a'' [7, 8, 7, 8] [])\<lparr>rq_progress := 1\<rparr>) 1 2 [] skipped_state = Inr (True, t') \<and>
      kv_stored (td_gpu t') ''a'' = [7])"
proof -
  let ?q = "(demo_request ''a'' [7, 8, 7, 8] [])\<lparr>rq_progress := 1\<rparr>" and ?h = "hash_block '''' [7, 8]"
  let ?g = "td_gpu skipped_state"
  note P = skipped_fields
  define g1 where "g1 = kv_reloaded 1 ?h [7, 8] ?g"
  have r: "kv_reload_block ?h [7, 8] ?g = Some g1" unfolding g1_def by (rule kv_reload_block_eq) (simp_all add: P)
  have seed: "resume_seed ''a'' [] ?g = Inr (1, '''')" by (simp add: resume_seed_def kv_block_at_def P)
  define t1 where "t1 = skipped_state\<lparr>td_gpu := g1, td_pending := 1, td_cpu := mt_touch ?h (td_cpu skipped_state), td_cpu_hits := td_cpu_hits skipped_state + 1\<rparr>"
  have walk: "walk_from ?q [] skipped_state = Inr (True, t1)"
    using r by (simp add: walk_from_def seed reload_prefix_def full_input_tokens_def P Let_def kv_count_free_def mt_lookup_def
        accumulate_latency_def max_int64_def t1_def)
  have bs1: "kc_bs g1 = 2" "kc_req g1 = [''a'' \<mapsto> [0]]" by (simp_all add: g1_def P)
  have "kc_hash g1 = [?h \<mapsto> 1]" unfolding g1_def kv_reloaded_def Let_def by (simp add: P)
  then have c1: "0 < length (get_cached_loop (kc_hash g1) 2 (Suc (Suc 0)) '''' [7, 8, 7, 8])"
    by (simp add: Let_def)
  have "get_cached_blocks g1 [7, 8, 7, 8] = get_cached_loop (kc_hash g1) 2 (Suc (Suc 0)) '''' [7, 8, 7, 8]"
    unfolding get_cached_blocks_def bs1 by (rule arg_cong [where f = "\<lambda>n. get_cached_loop (kc_hash g1) 2 n '''' [7, 8, 7, 8]"]) simp
  then have c1: "0 < length (get_cached_blocks g1 [7, 8, 7, 8])" using c1 by simp
  then obtain m where m: "length (get_cached_blocks g1 [7, 8, 7, 8]) = Suc m" using gr0_implies_Suc by blast
  have "allocate_reloaded ?q 1 2 [] g1 = Inr (True, g1)"
    using m by (simp add: allocate_reloaded_def full_input_tokens_def bs1 Let_def commit_reloaded_def sdiv_nonneg)
  then have "td_allocate ?q 1 2 [] skipped_state = Inr (True, t1\<lparr>td_gpu := g1\<rparr>)"
    using walk by (simp add: td_allocate_walk t1_def)
  moreover have "kv_stored ?g ''a'' = [7]" by (simp add: kv_stored_def kv_table_def P)
  moreover have "kv_stored g1 ''a'' = [7]"
    by (simp add: kv_stored_def kv_table_def bs1) (simp add: g1_def kv_reloaded_blk P)
  ultimately show ?thesis using skipped_state_ok by auto
qed

section \<open>A concrete run\<close>

lemma demo_tiered:
  obtains g t where "new_kv_cache 3 2 = Inr g" "new_tiered g 1 2 0 = Inr t" "td_run t {}" "td_gpu t = g" "mt_blocks (td_cpu t) = Map.empty"
proof -
  obtain g where g: "new_kv_cache 3 2 = Inr g" using new_kv_cache_Inr [of 3 2] by auto
  have bs: "kc_bs g = 2" using new_kv_cache_ok(3) [OF g] by simp
  obtain c where "new_mirror_tier 1 2 = Inr c" by (simp add: new_mirror_tier_def)
  then have "\<exists>t. new_tiered g 1 2 0 = Inr t" by (simp add: new_tiered_def bs max_int64_def Let_def)
  then obtain t where t: "new_tiered g 1 2 0 = Inr t" by blast
  show thesis using that [OF g t run_new [OF g t]] new_tiered_ok [OF g t] by simp
qed

theorem tiered_invariants_witness:
  "\<exists>t. td_run t {} \<and> verify_block_conservation (td_gpu t) = Some None \<and> mt_used (td_cpu t) \<le> mt_capacity (td_cpu t)"
proof (rule demo_tiered)
  fix g t assume "td_run t {}"
  then show ?thesis using tiered_invariants [of t "{}"] by blast
qed

lemma demo_walk:
  assumes "td_gpu t = g" "mt_blocks (td_cpu t) = Map.empty" "new_kv_cache 3 2 = Inr g"
  shows "walk_from demo_q [] t = Inr (False, t)" "get_cached_blocks g [7, 8, 9] = []"
proof -
  note N = new_kv_cache_ok [OF assms(3)]
  have h: "kc_hash g = Map.empty" "kc_req g = Map.empty" "kc_bs g = 2" using N(3-5) by auto
  show "walk_from demo_q [] t = Inr (False, t)"
    using assms(1,2) h by (simp add: walk_from_def resume_seed_def reload_prefix_def full_input_tokens_def Let_def mt_lookup_def)
  show "get_cached_blocks g [7, 8, 9] = []" using h by (simp add: get_cached_blocks_def Let_def)
qed

theorem tiered_allocate_returns_witness:
  "\<exists>t b t'. td_run t {} \<and> td_allocate demo_q 0 3 [] t = Inr (b, t') \<and> td_pending t' = td_pending t + td_per_block t * (td_cpu_hits t' - td_cpu_hits t)"
proof (rule demo_tiered)
  fix g t assume t: "td_run t {}" "td_gpu t = g" "mt_blocks (td_cpu t) = Map.empty" "new_kv_cache 3 2 = Inr g"
  have a: "kv_alloc_args demo_q 0 3 [] (td_gpu t)" using demo_alloc(1) [OF t(4)] t(2) by simp
  have w: "walk_from demo_q [] t = Inr (False, t)" by (rule demo_walk(1) [OF t(2-4)])
  then have "kv_last_full (rq_id demo_q) (td_gpu t) \<or> (\<forall>t1. walk_from demo_q [] t \<noteq> Inr (True, t1))" by simp
  note R = tiered_allocate_returns [OF t(1) a this]
  obtain s' where "allocate_kv_blocks demo_q 0 3 [] g = Inr (True, s')" using demo_alloc(4) [OF t(4)] by blast
  then have "td_allocate demo_q 0 3 [] t \<noteq> Inl latency_panic" using w t(2) by (simp add: td_allocate_walk)
  then show ?thesis using R t(1) by blast
qed

theorem tiered_prefix_sound_witness:
  "\<exists>t t' m. td_run t {} \<and> td_allocate demo_q 0 3 [] t = Inr (True, t') \<and> 3 \<le> m \<and> kv_stored (td_gpu t') ''a'' = take m [7, 8, 9]"
proof (rule demo_tiered)
  fix g t assume t: "td_run t {}" "td_gpu t = g" "mt_blocks (td_cpu t) = Map.empty" "new_kv_cache 3 2 = Inr g"
  note N = new_kv_cache_ok [OF t(4)] and W = demo_walk [OF t(2-4)]
  have bs: "kc_bs g = 2" "kc_req g = Map.empty" using N(3,4) by auto
  obtain s' where s': "allocate_kv_blocks demo_q 0 3 [] g = Inr (True, s')" using demo_alloc(4) [OF t(4)] by blast
  then have a: "td_allocate demo_q 0 3 [] t = Inr (True, t\<lparr>td_gpu := s', td_cpu_misses := td_cpu_misses t\<rparr>)"
    using W(1) t(2) by (simp add: td_allocate_walk)
  have inj: "inj_on (\<lambda>b. hash_block (fst b) (snd b)) ({} \<union> chain_pairs (kc_bs (td_gpu t)) (length (rq_input demo_q) div kc_bs (td_gpu t)) [] (rq_input demo_q))"
    using t(2) bs by (auto simp: chain_pairs_def inj_on_def numeral_3_eq_3 lessThan_Suc)
  have "\<exists>m \<ge> 3. kv_stored (td_gpu (t\<lparr>td_gpu := s', td_cpu_misses := td_cpu_misses t\<rparr>)) (rq_id demo_q) = take m (rq_input demo_q)"
    by (rule tiered_prefix_sound [where lo = 0 and hi = 3, OF t(1) _ _ inj]) (use a W t(2) bs in \<open>simp_all add: input_len_def\<close>)
  moreover have "rq_id demo_q = ''a''" "rq_input demo_q = [7, 8, 9]" by simp_all
  ultimately show ?thesis using a t(1) unfolding \<open>rq_id demo_q = ''a''\<close> \<open>rq_input demo_q = [7, 8, 9]\<close> by blast
qed

end
