(* ===== verification/Offload_Config.thy ===== *)
theory Offload_Config
  imports Sim_Prelude
begin

text \<open>
  The KV-offload configuration (\<open>sim/kv_offload_config.go\<close>) with its validation, and the ordered
  secondary tiers of the chain (\<open>sim/kv/offload_secondary.go\<close>). Bandwidths, latencies and
  fractions are exact rationals: the guards against NaN and infinities have nothing to reject.
\<close>

section \<open>Configuration\<close>

record offload_tier =
  ot_type :: string
  ot_root :: string
  ot_nread :: int
  ot_nwrite :: int
  ot_locality :: string
  ot_read_bw :: rat
  ot_write_bw :: rat
  ot_base :: rat
  ot_qsat :: int
  ot_f1 :: rat
  ot_jitter :: rat
  ot_service :: "(bool \<Rightarrow> int \<Rightarrow> int \<Rightarrow> int) option"

record offload_config =
  of_enabled :: bool
  of_cpu_bytes :: int
  of_block_bytes :: int
  of_block_size :: int
  of_per_chunk :: int
  of_tokens_per_hash :: int
  of_policy :: string
  of_prompt_only :: bool
  of_tiers :: "offload_tier list"

text \<open>The message names the field, as in the code; \<open>None\<close> is the nil error.\<close>

definition positive_finite :: "rat \<Rightarrow> string \<Rightarrow> string option" where
  "positive_finite v field = (if v \<le> 0 then Some field else None)"

definition validate_offload_tier :: "offload_tier \<Rightarrow> string option" where
  "validate_offload_tier t =
     (if ot_type t \<noteq> ''fs'' then Some ''type''
      else if ot_root t = '''' then Some ''root_dir''
      else if ot_locality t \<noteq> '''' \<and> ot_locality t \<noteq> ''LOCAL'' \<and> ot_locality t \<noteq> ''REMOTE'' then Some ''locality''
      else if ot_nread t \<le> 0 then Some ''n_read_threads''
      else if ot_nwrite t \<le> 0 then Some ''n_write_threads''
      else case positive_finite (ot_read_bw t) ''read_bandwidth'' of
        Some e \<Rightarrow> Some e
      | None \<Rightarrow>
          (case positive_finite (ot_write_bw t) ''write_bandwidth'' of
             Some e \<Rightarrow> Some e
           | None \<Rightarrow>
               (if ot_base t < 0 then Some ''base_latency''
                else if ot_qsat t < 0 then Some ''saturation_queue_depth''
                else if ot_qsat t \<ge> 2 \<and> \<not> (ot_f1 t > 0 \<and> ot_f1 t \<le> 1) then Some ''single_transfer_fraction''
                else if ot_jitter t < 0 then Some ''latency_jitter_stddev''
                else None)))"

fun validate_tiers :: "offload_tier list \<Rightarrow> string option" where
  "validate_tiers [] = None"
| "validate_tiers (t # ts) = (case validate_offload_tier t of Some e \<Rightarrow> Some e | None \<Rightarrow> validate_tiers ts)"

definition validate_offload :: "offload_config \<Rightarrow> string option" where
  "validate_offload c =
     (if \<not> of_enabled c then None
      else if of_cpu_bytes c \<le> 0 then Some ''cpu_bytes_to_use''
      else if of_block_size c \<le> 0 then Some ''block_size''
      else if of_per_chunk c \<le> 0 then Some ''blocks_per_chunk''
      else if of_tokens_per_hash c \<le> 0 then Some ''tokens_per_hash''
      else if of_policy c \<noteq> ''lru'' \<and> of_policy c \<noteq> ''arc'' then Some ''eviction_policy''
      else validate_tiers (of_tiers c))"

lemma validate_tiers_None: "validate_tiers ts = None \<longleftrightarrow> (\<forall>t \<in> set ts. validate_offload_tier t = None)"
  by (induction ts) (auto split: option.splits)

lemma validate_offload_tierD:
  assumes "validate_offload_tier t = None"
  shows "0 < ot_nread t" "0 < ot_nwrite t" "0 < ot_read_bw t" "0 < ot_write_bw t" "0 \<le> ot_base t" "0 \<le> ot_qsat t"
    "2 \<le> ot_qsat t \<Longrightarrow> 0 < ot_f1 t \<and> ot_f1 t \<le> 1" "0 \<le> ot_jitter t"
  using assms by (auto simp: validate_offload_tier_def positive_finite_def split: if_splits)

section \<open>Secondary tiers\<close>

record secondary_tier =
  sc_holds :: "string set"

definition new_secondary_tier :: secondary_tier where
  "new_secondary_tier = \<lparr>sc_holds = {}\<rparr>"

definition sc_store :: "string \<Rightarrow> secondary_tier \<Rightarrow> secondary_tier" where
  "sc_store k s = s\<lparr>sc_holds := insert k (sc_holds s)\<rparr>"

definition sc_drop :: "string \<Rightarrow> secondary_tier \<Rightarrow> secondary_tier" where
  "sc_drop k s = s\<lparr>sc_holds := sc_holds s - {k}\<rparr>"

definition sc_has :: "string \<Rightarrow> secondary_tier \<Rightarrow> bool" where
  "sc_has k s \<longleftrightarrow> k \<in> sc_holds s"

fun lookup_secondary :: "secondary_tier list \<Rightarrow> string \<Rightarrow> nat option" where
  "lookup_secondary [] k = None"
| "lookup_secondary (t # ts) k = (if sc_has k t then Some 0 else map_option Suc (lookup_secondary ts k))"

text \<open>The lowest tier that holds the key, whatever order the copies arrived in (BC-C6).\<close>

lemma lookup_secondary_Some:
  "lookup_secondary ts k = Some i \<longleftrightarrow> i < length ts \<and> sc_has k (ts ! i) \<and> (\<forall>j < i. \<not> sc_has k (ts ! j))"
proof (induction ts arbitrary: i)
  case (Cons t ts)
  show ?case using Cons.IH [of "i - 1"] by (cases i) (auto simp: nth_Cons split: nat.splits)
qed simp

lemma lookup_secondary_None: "lookup_secondary ts k = None \<longleftrightarrow> (\<forall>t \<in> set ts. \<not> sc_has k t)"
  by (induction ts) auto

end
