(* ===== verification/Offload_Chain.thy ===== *)
theory Offload_Chain
  imports Offload_Config KV_Reload CPU_Tier Transfer_Station
begin

text \<open>
  The N-tier offload chain (\<open>sim/kv/offload_chain.go\<close>, \<open>sim/kv/offload_deferral.go\<close>): the GPU
  cache, the CPU staging tier, the secondary tiers and the transfer station composed as
  \<open>OffloadCache\<close> composes them. The seeded random source of the latency jitter is a stream of
  normal draws with the number of draws taken.
\<close>

section \<open>State\<close>

record job_ref =
  jr_keys :: "block_key list"
  jr_tier :: nat
  jr_dir :: direction

datatype deferral_phase = DeferRetry | DeferPromoting

record deferral =
  df_phase :: deferral_phase
  df_keys :: "block_key list"
  df_tier :: int
  df_has_job :: bool
  df_start :: tick
  df_resolved :: bool
  df_recompute :: bool

datatype fetch_kind = FetchNone | FetchSecondary | FetchPending

record fetch_class =
  fc_kind :: fetch_kind
  fc_run :: "block_key list"
  fc_tier :: int

record offload =
  oc_gpu :: kv_cache
  oc_cpu :: cpu_tier
  oc_secondary :: "secondary_tier list"
  oc_station :: "station option"
  oc_inflight :: "int \<rightharpoonup> job_ref"
  oc_deferred :: "(rid, deferral) go_map"
  oc_known :: "block_key set"
  oc_block_bytes :: int
  oc_prompt_only :: bool
  oc_per_chunk :: int
  oc_clock :: tick
  oc_jitter :: "rat list"
  oc_rng :: "(nat \<Rightarrow> rat) option"
  oc_draws :: nat
  oc_misses :: int
  oc_fired :: int
  oc_failed :: int
  oc_reloads :: int
  oc_skipped :: int
  oc_deferrals :: int

definition max_defer_ticks :: int where
  "max_defer_ticks = 1000000000"

definition jitter_min_factor :: rat where
  "jitter_min_factor = 1 / 20"

section \<open>Construction\<close>

text \<open>\<open>math.Round\<close>: half away from zero.\<close>

definition go_round :: "rat \<Rightarrow> int" where
  "go_round x = (if x \<ge> 0 then \<lfloor>x + 1 / 2\<rfloor> else \<lceil>x - 1 / 2\<rceil>)"

definition station_tier :: "offload_tier \<Rightarrow> tier_config" where
  "station_tier t =
     \<lparr>tc_nread = ot_nread t, tc_nwrite = ot_nwrite t, tc_read_base = go_round (ot_base t), tc_write_base = go_round (ot_base t),
      tc_read_bw = ot_read_bw t, tc_write_bw = ot_write_bw t,
      tc_service = map_option (\<lambda>price dir bytes q. price (dir = WriteDir) bytes q) (ot_service t),
      tc_qsat = ot_qsat t, tc_f1 = ot_f1 t, tc_max_depth = 0\<rparr>"

definition new_offload :: "kv_cache \<Rightarrow> offload_config \<Rightarrow> (nat \<Rightarrow> rat) option \<Rightarrow> offload outcome" where
  "new_offload gpu c rng =
     (if \<not> of_enabled c then Inl (Panic ''NewOffloadCache: called with an inert (disabled) offload config'')
      else if of_block_bytes c \<le> 0 then Inl (Panic ''NewOffloadCache: PerBlockBytes must be > 0'')
      else if of_per_chunk c \<noteq> 1 then Inl (Panic ''NewOffloadCache: H1 supports blocks_per_chunk == 1 only'')
      else if of_policy c \<noteq> ''lru'' then Inl (Panic ''NewOffloadCache: H1 supports eviction_policy lru only'')
      else (let capacity = of_cpu_bytes c sdiv of_block_bytes c in
        if capacity < 1 then Inl (Panic ''NewOffloadCache: cpu_bytes_to_use is smaller than one block'')
        else obind (new_cpu_tier capacity) (\<lambda>cpu.
          if \<exists>t \<in> set (of_tiers c). ot_jitter t > 0 \<and> rng = None
          then Inl (Panic ''NewOffloadCache: latency_jitter_stddev>0 but no RNG was supplied'')
          else obind (if of_tiers c = [] then Inr None
                      else case new_station (map station_tier (of_tiers c)) of
                             Inl e \<Rightarrow> Inl (Panic ''NewOffloadCache: transfer station config invalid'')
                           | Inr s \<Rightarrow> Inr (Some s)) (\<lambda>st.
            Inr \<lparr>oc_gpu = gpu, oc_cpu = cpu, oc_secondary = map (\<lambda>_. new_secondary_tier) (of_tiers c), oc_station = st,
                 oc_inflight = Map.empty, oc_deferred = [], oc_known = {}, oc_block_bytes = of_block_bytes c,
                 oc_prompt_only = of_prompt_only c, oc_per_chunk = of_per_chunk c, oc_clock = 0,
                 oc_jitter = map ot_jitter (of_tiers c), oc_rng = rng, oc_draws = 0, oc_misses = 0, oc_fired = 0,
                 oc_failed = 0, oc_reloads = 0, oc_skipped = 0, oc_deferrals = 0\<rparr>))))"

section \<open>Transfers\<close>

definition draw_jitter :: "nat \<Rightarrow> offload \<Rightarrow> rat \<times> offload" where
  "draw_jitter tier o1 =
     (if tier \<ge> length (oc_jitter o1) \<or> oc_jitter o1 ! tier \<le> 0 then (0, o1)
      else case oc_rng o1 of
        None \<Rightarrow> (0, o1)
      | Some rng \<Rightarrow> (max jitter_min_factor (1 + rng (oc_draws o1) * oc_jitter o1 ! tier), o1\<lparr>oc_draws := oc_draws o1 + 1\<rparr>))"

text \<open>A submission to the station at the chain's clock; without a station the call dereferences nil.\<close>

definition submit_transfer :: "nat \<Rightarrow> direction \<Rightarrow> int \<Rightarrow> offload \<Rightarrow> ((int \<times> bool) \<times> offload) outcome" where
  "submit_transfer tier dir bytes o1 =
     (case oc_station o1 of
        None \<Rightarrow> Inl (Panic ''invalid memory address or nil pointer dereference'')
      | Some st \<Rightarrow>
          (let (f, o2) = draw_jitter tier o1
           in obind (submit \<lparr>tj_tier = int tier, tj_dir = dir, tj_bytes = bytes, tj_submit = oc_clock o2, tj_jitter = f\<rparr> st)
                (\<lambda>(r, st1). Inr (r, o2\<lparr>oc_station := Some st1\<rparr>))))"

text \<open>The run of blocks on the first tier that holds the head of \<open>keys\<close>.\<close>

definition gather_secondary_run :: "block_key list \<Rightarrow> offload \<Rightarrow> (block_key list \<times> nat) option" where
  "gather_secondary_run keys o1 =
     (if oc_station o1 = None \<or> oc_secondary o1 = [] then None
      else case lookup_secondary (oc_secondary o1) (hd keys) of
        None \<Rightarrow> None
      | Some tier \<Rightarrow>
          Some (hd keys # takeWhile (\<lambda>k. kc_hash (oc_gpu o1) k = None \<and> ct_lookup k (oc_cpu o1) = CpuMiss \<and>
                                         lookup_secondary (oc_secondary o1) k = Some tier) (tl keys), tier))"

definition fire_promotion :: "block_key list \<Rightarrow> nat \<Rightarrow> offload \<Rightarrow> (bool \<times> offload) outcome" where
  "fire_promotion run tier o1 =
     (let (granted, cpu) = ct_prepare_store run (oc_cpu o1); o2 = o1\<lparr>oc_cpu := cpu\<rparr> in
      if granted = 0 then Inr (False, o2\<lparr>oc_failed := oc_failed o2 + 1\<rparr>)
      else obind (submit_transfer tier ReadDir (granted * oc_block_bytes o2) o2) (\<lambda>((jid, accepted), o3).
        if \<not> accepted then Inr (False, o3\<lparr>oc_cpu := fold (\<lambda>k. ct_complete_store k False) run (oc_cpu o3)\<rparr>)
        else Inr (True, o3\<lparr>oc_fired := oc_fired o3 + 1,
                           oc_inflight := (oc_inflight o3)(jid \<mapsto> \<lparr>jr_keys = run, jr_tier = tier, jr_dir = ReadDir\<rparr>)\<rparr>)))"

definition maybe_promote :: "block_key list \<Rightarrow> offload \<Rightarrow> offload outcome" where
  "maybe_promote keys o1 =
     (case gather_secondary_run keys o1 of
        None \<Rightarrow> Inr o1
      | Some (run, tier) \<Rightarrow> obind (fire_promotion run tier o1) (\<lambda>(_, o2). Inr o2))"

text \<open>What \<open>SetClock\<close> does with one completed transfer.\<close>

definition apply_completion :: "int \<Rightarrow> offload \<Rightarrow> offload outcome" where
  "apply_completion jid o1 =
     (case oc_inflight o1 jid of
        None \<Rightarrow> Inr o1
      | Some ref \<Rightarrow>
          (let o2 = o1\<lparr>oc_inflight := (oc_inflight o1)(jid := None)\<rparr> in
           case jr_dir ref of
             ReadDir \<Rightarrow> Inr (o2\<lparr>oc_cpu := fold (\<lambda>k. ct_complete_store k True) (jr_keys ref) (oc_cpu o2)\<rparr>)
           | WriteDir \<Rightarrow>
               (if jr_tier ref \<ge> length (oc_secondary o2) \<and> jr_keys ref \<noteq> [] then Inl IndexOutOfRange
                else Inr (o2\<lparr>oc_secondary := (oc_secondary o2)[jr_tier ref := fold sc_store (jr_keys ref) (oc_secondary o2 ! jr_tier ref)],
                             oc_cpu := fold ct_unpin (jr_keys ref) (oc_cpu o2)\<rparr>))))"

fun apply_completions :: "int list \<Rightarrow> offload \<Rightarrow> offload outcome" where
  "apply_completions [] o1 = Inr o1"
| "apply_completions (i # ids) o1 = obind (apply_completion i o1) (apply_completions ids)"

definition oc_set_clock :: "tick \<Rightarrow> offload \<Rightarrow> offload outcome" where
  "oc_set_clock now o1 =
     (let o2 = o1\<lparr>oc_clock := now\<rparr> in
      case oc_station o2 of
        None \<Rightarrow> Inr o2
      | Some st \<Rightarrow> obind (poll now st) (\<lambda>(ids, st1). apply_completions ids (o2\<lparr>oc_station := Some st1\<rparr>)))"

section \<open>Allocation\<close>

text \<open>The walk over the uncached tail; \<open>keys\<close> and \<open>toks\<close> are the tails still to visit.\<close>

fun consult_loop :: "block_key list \<Rightarrow> token list \<Rightarrow> int \<Rightarrow> int \<Rightarrow> offload \<Rightarrow> (bool \<times> offload) outcome" where
  "consult_loop [] toks limit cnt o1 = Inr (cnt > 0, o1)"
| "consult_loop (h # hs) toks limit cnt o1 =
     (let bs = kc_bs (oc_gpu o1) in
      if kc_hash (oc_gpu o1) h \<noteq> None then consult_loop hs (drop bs toks) limit cnt o1
      else case ct_lookup h (oc_cpu o1) of
        CpuHit \<Rightarrow>
          (if cnt \<ge> limit then Inr (cnt > 0, o1)
           else case kv_reload_block h (take bs toks) (oc_gpu o1) of
             None \<Rightarrow> Inr (cnt > 0, o1)
           | Some gpu \<Rightarrow> consult_loop hs (drop bs toks) limit (cnt + 1)
               (o1\<lparr>oc_gpu := gpu, oc_cpu := ct_touch_key h (oc_cpu o1), oc_reloads := oc_reloads o1 + 1\<rparr>))
      | CpuHitPending \<Rightarrow> Inr (cnt > 0, o1)
      | CpuMiss \<Rightarrow> obind (maybe_promote (h # hs) o1) (\<lambda>o2. Inr (cnt > 0, o2)))"

definition consult_and_reload :: "token list \<Rightarrow> nat \<Rightarrow> string \<Rightarrow> offload \<Rightarrow> (bool \<times> offload) outcome" where
  "consult_and_reload toks start prev o1 =
     (let bs = kc_bs (oc_gpu o1); n = length toks div bs in
      if start \<ge> n then Inr (False, o1)
      else obind (derive_chunk_keys prev (drop (start * bs) toks) (int bs)) (\<lambda>keys.
             consult_loop keys (drop (start * bs) toks) (kv_count_free (oc_gpu o1)) 0 o1))"

definition allocate_through_chain :: "request \<Rightarrow> int \<Rightarrow> int \<Rightarrow> nat list \<Rightarrow> offload \<Rightarrow> (bool \<times> offload) outcome" where
  "allocate_through_chain req start stop cached o1 =
     obind (resume_seed (rq_id req) cached (oc_gpu o1)) (\<lambda>(n, prev).
     obind (consult_and_reload (full_input_tokens req) n prev o1) (\<lambda>(reloaded, o2).
       if reloaded
       then obind (allocate_reloaded req start stop cached (oc_gpu o2)) (\<lambda>(ok, gpu). Inr (ok, o2\<lparr>oc_gpu := gpu\<rparr>))
       else obind (allocate_kv_blocks req start stop cached (oc_gpu o2)) (\<lambda>(ok, gpu).
              Inr (ok, o2\<lparr>oc_gpu := gpu, oc_misses := oc_misses o2 + (if ok then 0 else 1)\<rparr>))))"

section \<open>Deferral\<close>

fun classify_loop :: "block_key list \<Rightarrow> offload \<Rightarrow> fetch_class" where
  "classify_loop [] o1 = \<lparr>fc_kind = FetchNone, fc_run = [], fc_tier = -1\<rparr>"
| "classify_loop (h # hs) o1 =
     (if kc_hash (oc_gpu o1) h \<noteq> None then classify_loop hs o1
      else case ct_lookup h (oc_cpu o1) of
        CpuHit \<Rightarrow> classify_loop hs o1
      | CpuHitPending \<Rightarrow> \<lparr>fc_kind = FetchPending, fc_run = [h], fc_tier = -1\<rparr>
      | CpuMiss \<Rightarrow> (case gather_secondary_run (h # hs) o1 of
            Some (run, tier) \<Rightarrow> \<lparr>fc_kind = FetchSecondary, fc_run = run, fc_tier = int tier\<rparr>
          | None \<Rightarrow> \<lparr>fc_kind = FetchNone, fc_run = [], fc_tier = -1\<rparr>))"

definition classify_fetch :: "token list \<Rightarrow> nat \<Rightarrow> string \<Rightarrow> offload \<Rightarrow> fetch_class outcome" where
  "classify_fetch toks start prev o1 =
     (let none = \<lparr>fc_kind = FetchNone, fc_run = [], fc_tier = -1\<rparr>; bs = kc_bs (oc_gpu o1) in
      if oc_station o1 = None \<or> oc_secondary o1 = [] then Inr none
      else if start \<ge> length toks div bs then Inr none
      else obind (derive_chunk_keys prev (drop (start * bs) toks) (int bs)) (\<lambda>keys. Inr (classify_loop keys o1)))"

definition all_known :: "block_key list \<Rightarrow> offload \<Rightarrow> bool" where
  "all_known keys o1 \<longleftrightarrow> (\<forall>k \<in> set keys. k \<in> oc_known o1)"

definition mark_known :: "block_key list \<Rightarrow> offload \<Rightarrow> offload" where
  "mark_known keys o1 = o1\<lparr>oc_known := oc_known o1 \<union> set keys\<rparr>"

definition register_deferral :: "rid \<Rightarrow> fetch_class \<Rightarrow> offload \<Rightarrow> offload outcome" where
  "register_deferral r fc o1 =
     (let o2 = o1\<lparr>oc_deferrals := oc_deferrals o1 + 1\<rparr>;
          st = \<lparr>df_phase = DeferRetry, df_keys = fc_run fc, df_tier = fc_tier fc, df_has_job = False, df_start = oc_clock o2,
                df_resolved = False, df_recompute = False\<rparr>
      in obind (case fc_kind fc of
                  FetchPending \<Rightarrow> Inr (st\<lparr>df_phase := DeferPromoting, df_tier := -1\<rparr>, o2)
                | FetchSecondary \<Rightarrow>
                    (if all_known (fc_run fc) o2
                     then obind (fire_promotion (fc_run fc) (nat (fc_tier fc)) (mark_known (fc_run fc) o2)) (\<lambda>(ok, o3).
                            Inr (if ok then st\<lparr>df_phase := DeferPromoting, df_has_job := True\<rparr> else st\<lparr>df_recompute := True\<rparr>, o3))
                     else Inr (st\<lparr>df_phase := DeferRetry\<rparr>, o2))
                | FetchNone \<Rightarrow> Inr (st, o2)) (\<lambda>(st1, o3).
           Inr (o3\<lparr>oc_deferred := AList.update r st1 (oc_deferred o3)\<rparr>)))"

definition oc_allocate :: "request \<Rightarrow> int \<Rightarrow> int \<Rightarrow> nat list \<Rightarrow> offload \<Rightarrow> (bool \<times> offload) outcome" where
  "oc_allocate req start stop cached o1 =
     (let r = rq_id req in
      if kc_req (oc_gpu o1) r = None \<and> \<not> rq_decode_sub req
      then obind (resume_seed r cached (oc_gpu o1)) (\<lambda>(n, prev).
             case map_of (oc_deferred o1) r of
               Some st \<Rightarrow>
                 (if \<not> df_resolved st \<and> \<not> df_recompute st then Inr (False, o1)
                  else obind (allocate_through_chain req start stop cached o1) (\<lambda>(ok, o2).
                         Inr (ok, if ok then o2\<lparr>oc_deferred := AList.delete r (oc_deferred o2)\<rparr> else o2)))
             | None \<Rightarrow>
                 obind (classify_fetch (full_input_tokens req) n prev o1) (\<lambda>fc.
                   if fc_kind fc \<noteq> FetchNone then obind (register_deferral r fc o1) (\<lambda>o2. Inr (False, o2))
                   else allocate_through_chain req start stop cached o1))
      else allocate_through_chain req start stop cached o1)"

fun awaited_loop :: "block_key list \<Rightarrow> bool \<Rightarrow> cpu_tier \<Rightarrow> cpu_lookup" where
  "awaited_loop [] all_hit c = (if all_hit then CpuHit else CpuHitPending)"
| "awaited_loop (k # ks) all_hit c =
     (case ct_lookup k c of CpuMiss \<Rightarrow> CpuMiss | CpuHitPending \<Rightarrow> awaited_loop ks False c | CpuHit \<Rightarrow> awaited_loop ks all_hit c)"

definition awaited_state :: "block_key list \<Rightarrow> offload \<Rightarrow> cpu_lookup" where
  "awaited_state keys o1 = awaited_loop keys True (oc_cpu o1)"

text \<open>One round for one pending episode, then the backstop.\<close>

definition poll_episode :: "deferral \<Rightarrow> offload \<Rightarrow> (deferral \<times> offload) outcome" where
  "poll_episode st o1 =
     (case df_phase st of
        DeferRetry \<Rightarrow>
          (let o2 = mark_known (df_keys st) o1 in
           case awaited_state (df_keys st) o2 of
             CpuHit \<Rightarrow> Inr (st\<lparr>df_resolved := True\<rparr>, o2)
           | CpuHitPending \<Rightarrow> Inr (st\<lparr>df_phase := DeferPromoting\<rparr>, o2)
           | CpuMiss \<Rightarrow> obind (fire_promotion (df_keys st) (nat (df_tier st)) o2) (\<lambda>(ok, o3).
               Inr (if ok then st\<lparr>df_phase := DeferPromoting, df_has_job := True\<rparr> else st\<lparr>df_recompute := True\<rparr>, o3)))
      | DeferPromoting \<Rightarrow>
          (case awaited_state (df_keys st) o1 of
             CpuHit \<Rightarrow> Inr (st\<lparr>df_resolved := True\<rparr>, o1)
           | CpuMiss \<Rightarrow> Inr (st\<lparr>df_recompute := True\<rparr>, o1)
           | CpuHitPending \<Rightarrow> Inr (st, o1)))"

fun poll_loop :: "rid list \<Rightarrow> tick \<Rightarrow> offload \<Rightarrow> (rid list \<times> offload) outcome" where
  "poll_loop [] now o1 = Inr ([], o1)"
| "poll_loop (r # rs) now o1 =
     (case map_of (oc_deferred o1) r of
        None \<Rightarrow> Inl (Panic ''invalid memory address or nil pointer dereference'')
      | Some st \<Rightarrow>
          (if df_resolved st \<or> df_recompute st then poll_loop rs now o1
           else obind (poll_episode st o1) (\<lambda>(st1, o2).
             let pending = \<not> df_resolved st1 \<and> \<not> df_recompute st1;
                 late = now - df_start st1 > max_defer_ticks;
                 st2 = (if pending \<and> late then st1\<lparr>df_recompute := True\<rparr> else st1)
             in obind (poll_loop rs now (o2\<lparr>oc_deferred := AList.update r st2 (oc_deferred o2)\<rparr>)) (\<lambda>(still, o3).
                  Inr (if pending \<and> \<not> late then r # still else still, o3)))))"

definition poll_deferred :: "tick \<Rightarrow> offload \<Rightarrow> (rid list \<times> offload) outcome" where
  "poll_deferred now o1 =
     (let o2 = o1\<lparr>oc_clock := now\<rparr> in
      if oc_deferred o2 = [] then Inr ([], o2) else poll_loop (sort (gm_keys (oc_deferred o2))) now o2)"

definition oc_is_deferred :: "rid \<Rightarrow> offload \<Rightarrow> bool" where
  "oc_is_deferred r o1 = (case map_of (oc_deferred o1) r of None \<Rightarrow> False | Some st \<Rightarrow> \<not> df_resolved st \<and> \<not> df_recompute st)"

definition oc_clear_deferred :: "rid \<Rightarrow> offload \<Rightarrow> offload" where
  "oc_clear_deferred r o1 = o1\<lparr>oc_deferred := AList.delete r (oc_deferred o1)\<rparr>"

section \<open>The mirror and the cascade\<close>

fun cascade_loop :: "nat list \<Rightarrow> block_key \<Rightarrow> offload \<Rightarrow> offload outcome" where
  "cascade_loop [] k o1 = Inr o1"
| "cascade_loop (tier # ts) k o1 =
     obind (submit_transfer tier WriteDir (oc_block_bytes o1) (o1\<lparr>oc_cpu := ct_pin k (oc_cpu o1)\<rparr>)) (\<lambda>((jid, accepted), o2).
       cascade_loop ts k
         (if \<not> accepted then o2\<lparr>oc_cpu := ct_unpin k (oc_cpu o2)\<rparr>
          else o2\<lparr>oc_inflight := (oc_inflight o2)(jid \<mapsto> \<lparr>jr_keys = [k], jr_tier = tier, jr_dir = WriteDir\<rparr>)\<rparr>))"

definition cascade :: "block_key \<Rightarrow> offload \<Rightarrow> offload outcome" where
  "cascade k o1 = (if oc_station o1 = None then Inr o1 else cascade_loop [0..<length (oc_secondary o1)] k o1)"

definition oc_mirror_block :: "nat \<Rightarrow> offload \<Rightarrow> offload outcome" where
  "oc_mirror_block b o1 =
     obind (kv_block_at (oc_gpu o1) b) (\<lambda>k.
       if kb_hash k = '''' \<or> length (kb_tokens k) < kc_bs (oc_gpu o1) then Inr o1
       else if ct_lookup (kb_hash k) (oc_cpu o1) \<noteq> CpuMiss then Inr (o1\<lparr>oc_cpu := ct_touch_key (kb_hash k) (oc_cpu o1)\<rparr>)
       else (let (stored, cpu) = ct_store (kb_hash k) (oc_cpu o1); o2 = o1\<lparr>oc_cpu := cpu\<rparr> in
             if \<not> stored then Inr (o2\<lparr>oc_skipped := oc_skipped o2 + 1\<rparr>) else cascade (kb_hash k) o2))"

fun oc_mirror_blocks :: "nat list \<Rightarrow> offload \<Rightarrow> offload outcome" where
  "oc_mirror_blocks [] o1 = Inr o1"
| "oc_mirror_blocks (b # bs) o1 = obind (oc_mirror_block b o1) (oc_mirror_blocks bs)"

definition max_offload_blocks :: "request \<Rightarrow> nat list \<Rightarrow> offload \<Rightarrow> int" where
  "max_offload_blocks req ids o1 =
     (let bs = int (kc_bs (oc_gpu o1));
          n = (if oc_prompt_only o1 then min (int (length ids) * bs) (input_len req) else int (length ids) * bs)
      in (n sdiv (bs * oc_per_chunk o1)) * oc_per_chunk o1)"

fun oc_mirror :: "request list \<Rightarrow> offload \<Rightarrow> offload outcome" where
  "oc_mirror [] o1 = Inr o1"
| "oc_mirror (q # qs) o1 =
     (case kc_req (oc_gpu o1) (rq_id q) of
        None \<Rightarrow> oc_mirror qs o1
      | Some ids \<Rightarrow> obind (oc_mirror_blocks (take (nat (max_offload_blocks q ids o1)) ids) o1) (oc_mirror qs))"

section \<open>Queries\<close>

fun oc_reloadable_loop :: "block_key list \<Rightarrow> offload \<Rightarrow> int" where
  "oc_reloadable_loop [] o1 = 0"
| "oc_reloadable_loop (h # hs) o1 =
     (if kc_hash (oc_gpu o1) h \<noteq> None \<or> ct_lookup h (oc_cpu o1) = CpuHit then 1 + oc_reloadable_loop hs o1 else 0)"

definition oc_reloadable_end :: "request \<Rightarrow> int \<Rightarrow> offload \<Rightarrow> (int \<times> bool) outcome" where
  "oc_reloadable_end req start o1 =
     (if kc_req (oc_gpu o1) (rq_id req) \<noteq> None \<or> rq_decode_sub req then Inr (start, False)
      else (let bs = kc_bs (oc_gpu o1); toks = full_input_tokens req; sb = start sdiv int bs in
            if sb \<ge> int (length toks div bs) then Inr (start, False)
            else if sb < 0 then Inl IndexOutOfRange
            else obind (if sb > 0
                        then (let ids = get_cached_blocks (oc_gpu o1) toks
                              in if int (length ids) \<ge> sb
                                 then obind (kv_block_at (oc_gpu o1) (ids ! nat (sb - 1))) (\<lambda>k. Inr (kb_hash k)) else Inr '''')
                        else Inr '''') (\<lambda>prev.
                 obind (derive_chunk_keys prev (drop (nat sb * bs) toks) (int bs)) (\<lambda>keys.
              let e = start + oc_reloadable_loop keys o1 * int bs
              in Inr (e, e > start)))))"

definition oc_release :: "rid \<Rightarrow> offload \<Rightarrow> offload outcome" where
  "oc_release r o1 = obind (release_kv_blocks r (oc_gpu o1)) (\<lambda>gpu. Inr (o1\<lparr>oc_gpu := gpu\<rparr>))"

definition oc_hit_rate :: "offload \<Rightarrow> rat" where
  "oc_hit_rate o1 =
     (let hits = kc_hits (oc_gpu o1); total = hits + kc_misses (oc_gpu o1) + oc_misses o1
      in if total = 0 then 0 else of_int hits / of_int total)"

definition oc_thrashing_rate :: "offload \<Rightarrow> rat" where
  "oc_thrashing_rate o1 =
     (let attempts = oc_fired o1 + oc_failed o1 in if attempts = 0 then 0 else of_int (oc_failed o1) / of_int attempts)"

end
