(* ===== verification/Offload_Safe.thy ===== *)
theory Offload_Safe
  imports Offload_Chain Station_Properties
begin

text \<open>
  The invariant that ties the CPU tier to the transfer station: a slot that is not ready is the
  target of a promotion in flight, a pinned block is the source of as many replica writes as
  its count says, and the transfers the chain remembers are exactly those the station holds.
\<close>

section \<open>What the tier operations do to its blocks\<close>

abbreviation rcs :: "cpu_tier \<Rightarrow> block_key \<rightharpoonup> int" where
  "rcs t \<equiv> map_of (ct_blocks t)"

lemma ct_lookup_iff:
  "ct_lookup k t = CpuMiss \<longleftrightarrow> rcs t k = None" "ct_lookup k t = CpuHitPending \<longleftrightarrow> rcs t k = Some (-1)"
  "ct_lookup k t = CpuHit \<longleftrightarrow> (\<exists>rc. rcs t k = Some rc \<and> rc \<noteq> -1)"
  by (auto simp: ct_lookup_def split: option.splits)

lemma ct_unlink_blocks [simp]: "ct_blocks (ct_unlink k t) = ct_blocks t"
  by (simp add: ct_unlink_def Let_def)

lemma ct_touch_key_blocks [simp]: "ct_blocks (ct_touch_key k t) = ct_blocks t"
  by (simp add: ct_touch_key_def ct_touch_def ct_append_def split: option.split)

lemma ct_evict_loop_sub: "rcs (snd (ct_evict_loop n cnt t)) \<subseteq>\<^sub>m rcs t"
proof (induction n arbitrary: cnt t)
  case (Suc n)
  show ?case
  proof (cases "dl_head (ct_links t)")
    case (Some k)
    have "rcs (ct_evict_head k t) \<subseteq>\<^sub>m rcs t" by (simp add: ct_evict_head_def Let_def map_le_def)
    then show ?thesis using Some Suc.IH [of "cnt + 1" "ct_evict_head k t"] map_le_trans by fastforce
  qed simp
qed simp

lemma ct_evict_sub: "rcs (snd (ct_evict n t)) \<subseteq>\<^sub>m rcs t"
  by (simp add: ct_evict_def ct_evict_loop_sub)

lemma ct_store_from:
  assumes "ct_store k t = (ok, t')"
  shows "rcs t' j = Some rc \<Longrightarrow> rcs t j = Some rc \<or> j = k \<and> rcs t k = None \<and> rc = 0" "ok \<Longrightarrow> rcs t k = None \<Longrightarrow> rcs t' k = Some 0"
proof -
  have "map_le (rcs (snd (ct_evict 1 t))) (rcs t)" by (rule ct_evict_sub)
  then have e: "rcs t1 i = Some x \<Longrightarrow> rcs t i = Some x" if "ct_evict 1 t = (c, t1)" for c t1 i x
    using that unfolding map_le_def by (metis domI snd_conv)
  show "rcs t' j = Some rc \<Longrightarrow> rcs t j = Some rc \<or> j = k \<and> rcs t k = None \<and> rc = 0"
    using assms by (auto simp: ct_store_def ct_touch_def ct_append_def Let_def split: option.splits prod.splits if_splits dest: e)
  show "ok \<Longrightarrow> rcs t k = None \<Longrightarrow> rcs t' k = Some 0"
    using assms by (auto simp: ct_store_def ct_append_def Let_def split: prod.splits if_splits)
qed

lemma ct_reserve_blocks: "rcs (ct_reserve ks t) = (\<lambda>k. if k \<in> set ks then Some (-1) else rcs t k)"
  by (induction ks arbitrary: t) (auto simp: fun_eq_iff)

lemma ct_prepare_from:
  assumes "ct_prepare_store ks t = (n, t')" "rcs t' j = Some rc"
  shows "rcs t j = Some rc \<or> j \<in> set ks \<and> rcs t j = None \<and> rc = -1"
proof -
  have "map_le (rcs (snd (ct_evict m t))) (rcs t)" for m by (rule ct_evict_sub)
  then have e: "rcs (snd (ct_evict m t)) j = Some rc \<Longrightarrow> rcs t j = Some rc" for m unfolding map_le_def by (metis domI)
  show ?thesis using assms by (auto simp: ct_prepare_store_def Let_def ct_reserve_blocks split: if_splits dest: e)
qed

lemma ct_complete_rcs: "rcs (ct_complete_store k True t) = (if rcs t k = Some (-1) then (rcs t)(k \<mapsto> 0) else rcs t)"
  by (simp add: ct_complete_store_def ct_append_def Let_def split: option.split)

lemma ct_pin_rcs: "rcs (ct_pin k t) = (case rcs t k of None \<Rightarrow> rcs t | Some rc \<Rightarrow> if rc < 0 then rcs t else (rcs t)(k \<mapsto> rc + 1))"
  by (simp add: ct_pin_def Let_def split: option.split)

lemma ct_unpin_rcs: "rcs (ct_unpin k t) = (case rcs t k of None \<Rightarrow> rcs t | Some rc \<Rightarrow> if rc \<le> 0 then rcs t else (rcs t)(k \<mapsto> rc - 1))"
  by (simp add: ct_unpin_def ct_append_def Let_def split: option.split)

lemma complete_fold_rcs:
  "rcs (fold (\<lambda>k. ct_complete_store k True) ks t) = (\<lambda>k. if k \<in> set ks \<and> rcs t k = Some (-1) then Some 0 else rcs t k)"
  by (induction ks arbitrary: t) (auto simp: ct_complete_rcs fun_eq_iff)

definition ct_fine :: "cpu_tier \<Rightarrow> bool" where
  "ct_fine t \<longleftrightarrow> (\<exists>xs. ct_inv t xs)"

lemma ct_fine_steps:
  assumes "ct_fine t"
  shows "ct_fine (ct_touch_key k t)" "ct_fine (ct_complete_store k ok t)" "ct_fine (ct_pin k t)" "ct_fine (ct_unpin k t)"
    "ct_store k t = (b, t') \<Longrightarrow> ct_fine t'" "distinct ks \<Longrightarrow> ct_prepare_store ks t = (n, t') \<Longrightarrow> ct_fine t'"
proof -
  obtain xs where xs: "ct_inv t xs" using assms by (auto simp: ct_fine_def)
  show "ct_fine (ct_touch_key k t)" "ct_fine (ct_complete_store k ok t)" "ct_fine (ct_pin k t)" "ct_fine (ct_unpin k t)"
    using ct_touch_key_inv [OF xs] ct_complete_inv [OF xs] ct_pin_inv [OF xs] ct_unpin_inv [OF xs] unfolding ct_fine_def by meson+
  show "ct_store k t = (b, t') \<Longrightarrow> ct_fine t'" using ct_store_ok [OF xs] unfolding ct_fine_def by blast
  show "distinct ks \<Longrightarrow> ct_prepare_store ks t = (n, t') \<Longrightarrow> ct_fine t'" using ct_prepare_ok [OF xs] unfolding ct_fine_def by blast
qed

lemma ct_fine_fold_complete: "ct_fine t \<Longrightarrow> ct_fine (fold (\<lambda>k. ct_complete_store k ok) ks t)"
  by (induction ks arbitrary: t) (auto intro: ct_fine_steps)

text \<open>A reservation keeps the blocks that are locked.\<close>

lemma ct_prepare_locked:
  assumes "ct_fine t" "distinct ks" "ct_prepare_store ks t = (n, t')" "rcs t j = Some rc" "rc \<noteq> 0"
  shows "rcs t' j = Some rc"
  using assms ct_prepare_ok unfolding ct_fine_def by meson

lemma ct_store_locked:
  assumes "ct_fine t" "ct_store k t = (b, t')" "rcs t j = Some rc" "rc \<noteq> 0"
  shows "rcs t' j = Some rc"
  using assms ct_store_ok unfolding ct_fine_def by meson

lemma ct_prepare_granted:
  assumes "ct_prepare_store ks t = (n, t')"
  shows "0 \<le> n" "n = 0 \<Longrightarrow> t' = t" "n \<noteq> 0 \<Longrightarrow> k \<in> set ks \<Longrightarrow> rcs t' k \<noteq> None \<or> rcs t k \<noteq> None"
  using assms by (auto simp: ct_prepare_store_def Let_def ct_reserve_blocks split: if_splits)

section \<open>Transfers in flight\<close>

definition write_of :: "block_key \<Rightarrow> job_ref \<Rightarrow> bool" where
  "write_of k ref \<longleftrightarrow> jr_dir ref = WriteDir \<and> jr_keys ref = [k]"

definition writes :: "(int \<rightharpoonup> job_ref) \<Rightarrow> block_key \<Rightarrow> nat" where
  "writes m k = card {i. \<exists>ref. m i = Some ref \<and> write_of k ref}"

definition fetching :: "(int \<rightharpoonup> job_ref) \<Rightarrow> block_key \<Rightarrow> bool" where
  "fetching m k \<longleftrightarrow> (\<exists>i ref. m i = Some ref \<and> jr_dir ref = ReadDir \<and> k \<in> set (jr_keys ref))"

lemma finite_writes: "finite (dom m) \<Longrightarrow> finite {i. \<exists>ref. m i = Some ref \<and> write_of k ref}"
  by (rule finite_subset [of _ "dom m"]) auto

lemma writes_add:
  assumes "finite (dom m)" "m i = None"
  shows "writes (m(i \<mapsto> ref)) k = writes m k + (if write_of k ref then 1 else 0)"
proof -
  let ?W = "{j. \<exists>r. m j = Some r \<and> write_of k r}"
  have "{j. \<exists>r. (m(i \<mapsto> ref)) j = Some r \<and> write_of k r} = (if write_of k ref then insert i ?W else ?W)"
    using assms(2) by auto
  moreover have "i \<notin> ?W" using assms(2) by simp
  ultimately show ?thesis using finite_writes [OF assms(1)] by (simp add: writes_def)
qed

lemma writes_remove:
  assumes "finite (dom m)" "m i = Some ref"
  shows "writes m k = writes (m(i := None)) k + (if write_of k ref then 1 else 0)"
proof -
  have "m = (m(i := None))(i \<mapsto> ref)" using assms(2) by auto
  then show ?thesis using writes_add [of "m(i := None)" i ref k] assms(1) by simp
qed

lemma writes_empty [simp]: "writes Map.empty k = 0"
  by (simp add: writes_def)

text \<open>The references agree with the CPU tier.\<close>

definition refs_agree :: "(int \<rightharpoonup> job_ref) \<Rightarrow> cpu_tier \<Rightarrow> bool" where
  "refs_agree m t \<longleftrightarrow> finite (dom m) \<and>
     (\<forall>k. rcs t k = Some (-1) \<longrightarrow> fetching m k) \<and>
     (\<forall>k. int (writes m k) = (case rcs t k of Some rc \<Rightarrow> max 0 rc | None \<Rightarrow> 0))"

lemma refs_agreeD:
  assumes "refs_agree m t"
  shows "finite (dom m)" "rcs t k = Some (-1) \<Longrightarrow> fetching m k" "int (writes m k) = (case rcs t k of Some rc \<Rightarrow> max 0 rc | None \<Rightarrow> 0)"
  using assms by (auto simp: refs_agree_def)

lemma refs_agree_same: "refs_agree m t \<Longrightarrow> rcs t' = rcs t \<Longrightarrow> refs_agree m t'"
  by (simp add: refs_agree_def)

text \<open>A promotion, and its completion.\<close>

lemma refs_agree_promote:
  assumes a: "refs_agree m t" and i: "m i = None" and p: "ct_prepare_store run t = (n, t')"
    and f: "ct_fine t" "distinct run" and ref: "jr_dir ref = ReadDir" "jr_keys ref = run"
  shows "refs_agree (m(i \<mapsto> ref)) t'"
  unfolding refs_agree_def
proof (intro conjI allI impI)
  note D = refs_agreeD [OF a]
  show "finite (dom (m(i \<mapsto> ref)))" using D(1) by simp
  fix k
  have fetch: "fetching (m(i \<mapsto> ref)) k" if "fetching m k \<or> k \<in> set run"
    using that
  proof
    assume "fetching m k"
    then obtain j r where j: "m j = Some r" "jr_dir r = ReadDir" "k \<in> set (jr_keys r)" by (auto simp: fetching_def)
    then have "(m(i \<mapsto> ref)) j = Some r" using i by auto
    then show ?thesis using j(2,3) unfolding fetching_def by blast
  next
    assume "k \<in> set run"
    then show ?thesis using ref unfolding fetching_def by (intro exI [of _ i]) auto
  qed
  show "fetching (m(i \<mapsto> ref)) k" if "rcs t' k = Some (-1)"
    using ct_prepare_from [OF p that] D(2) fetch by blast
  have w: "writes (m(i \<mapsto> ref)) k = writes m k" using writes_add [OF D(1) i] ref(1) by (simp add: write_of_def)
  show "int (writes (m(i \<mapsto> ref)) k) = (case rcs t' k of Some rc \<Rightarrow> max 0 rc | None \<Rightarrow> 0)"
  proof (cases "rcs t k")
    case None
    then show ?thesis using w D(3) [of k] ct_prepare_from [OF p, of k] by (cases "rcs t' k") auto
  next
    case (Some rc)
    show ?thesis
    proof (cases "rc = 0")
      case True
      then show ?thesis using w D(3) [of k] ct_prepare_from [OF p, of k] Some by (cases "rcs t' k") auto
    next
      case False
      then show ?thesis using w D(3) [of k] ct_prepare_locked [OF f(1,2) p Some False] Some by simp
    qed
  qed
qed

lemma refs_agree_fetched:
  assumes a: "refs_agree m t" and i: "m i = Some ref" and ref: "jr_dir ref = ReadDir"
  shows "refs_agree (m(i := None)) (fold (\<lambda>k. ct_complete_store k True) (jr_keys ref) t)"
  unfolding refs_agree_def complete_fold_rcs
proof (intro conjI allI impI)
  note D = refs_agreeD [OF a]
  show "finite (dom (m(i := None)))" using D(1) by simp
  fix k
  show "fetching (m(i := None)) k" if "(if k \<in> set (jr_keys ref) \<and> rcs t k = Some (-1) then Some 0 else rcs t k) = Some (-1)"
  proof -
    have k: "rcs t k = Some (-1)" "k \<notin> set (jr_keys ref)" using that by (auto split: if_splits)
    obtain j r where j: "m j = Some r" "jr_dir r = ReadDir" "k \<in> set (jr_keys r)" using D(2) [OF k(1)] unfolding fetching_def by blast
    then have "(m(i := None)) j = Some r" using k(2) i by auto
    then show ?thesis using j(2,3) unfolding fetching_def by blast
  qed
  have "writes (m(i := None)) k = writes m k" using writes_remove [OF D(1) i] ref by (simp add: write_of_def)
  then show "int (writes (m(i := None)) k) =
      (case (if k \<in> set (jr_keys ref) \<and> rcs t k = Some (-1) then Some 0 else rcs t k) of Some rc \<Rightarrow> max 0 rc | None \<Rightarrow> 0)"
    using D(3) [of k] by (auto split: option.splits)
qed

text \<open>A replica write, and its completion.\<close>

lemma refs_agree_pin:
  assumes a: "refs_agree m t" and i: "m i = None" and k: "rcs t k = Some rc" "0 \<le> rc"
    and ref: "jr_dir ref = WriteDir" "jr_keys ref = [k]"
  shows "refs_agree (m(i \<mapsto> ref)) (ct_pin k t)"
  unfolding refs_agree_def
proof (intro conjI allI impI)
  note D = refs_agreeD [OF a]
  have m: "rcs (ct_pin k t) = (rcs t)(k \<mapsto> rc + 1)" using k by (simp add: ct_pin_rcs)
  show "finite (dom (m(i \<mapsto> ref)))" using D(1) by simp
  fix j
  show "fetching (m(i \<mapsto> ref)) j" if "rcs (ct_pin k t) j = Some (-1)"
  proof -
    have "fetching m j" using that m k(2) D(2) [of j] by (auto split: if_splits)
    then obtain l r where l: "m l = Some r" "jr_dir r = ReadDir" "j \<in> set (jr_keys r)" by (auto simp: fetching_def)
    then have "(m(i \<mapsto> ref)) l = Some r" using i by auto
    then show ?thesis using l(2,3) unfolding fetching_def by blast
  qed
  show "int (writes (m(i \<mapsto> ref)) j) = (case rcs (ct_pin k t) j of Some rc \<Rightarrow> max 0 rc | None \<Rightarrow> 0)"
    using writes_add [OF D(1) i, of ref j] D(3) [of j] k m ref by (auto simp: write_of_def)
qed

lemma refs_agree_written:
  assumes a: "refs_agree m t" and i: "m i = Some ref" and ref: "jr_dir ref = WriteDir" "jr_keys ref = [k]"
  shows "refs_agree (m(i := None)) (ct_unpin k t)"
  unfolding refs_agree_def
proof (intro conjI allI impI)
  note D = refs_agreeD [OF a]
  have w: "writes m j = writes (m(i := None)) j + (if j = k then 1 else 0)" for j
    using writes_remove [OF D(1) i, of j] ref by (auto simp: write_of_def)
  obtain rc where rc: "rcs t k = Some rc" "0 < rc"
    using D(3) [of k] w [of k] by (cases "rcs t k") (auto simp: max_def split: if_splits)
  then have m: "rcs (ct_unpin k t) = (rcs t)(k \<mapsto> rc - 1)" by (simp add: ct_unpin_rcs)
  show "finite (dom (m(i := None)))" using D(1) by simp
  fix j
  show "fetching (m(i := None)) j" if "rcs (ct_unpin k t) j = Some (-1)"
  proof -
    have "fetching m j" using that m rc(2) D(2) [of j] by (auto split: if_splits)
    then obtain l r where l: "m l = Some r" "jr_dir r = ReadDir" "j \<in> set (jr_keys r)" by (auto simp: fetching_def)
    then have "(m(i := None)) l = Some r" using i ref(1) by auto
    then show ?thesis using l(2,3) unfolding fetching_def by blast
  qed
  show "int (writes (m(i := None)) j) = (case rcs (ct_unpin k t) j of Some rc \<Rightarrow> max 0 rc | None \<Rightarrow> 0)"
    using w [of j] D(3) [of j] rc m by (auto split: option.splits)
qed

lemma refs_agree_store:
  assumes a: "refs_agree m t" and f: "ct_fine t" and s: "ct_store k t = (b, t')"
  shows "refs_agree m t'"
  unfolding refs_agree_def
proof (intro conjI allI impI)
  note D = refs_agreeD [OF a] and F = ct_store_from [OF s]
  show "finite (dom m)" by (rule D(1))
  fix j
  have from_t: "rcs t j = Some rc \<or> rcs t j = None \<and> rc = 0" if "rcs t' j = Some rc" for rc
    using F(1) [OF that] by auto
  show "fetching m j" if "rcs t' j = Some (-1)" using from_t [OF that] D(2) by auto
  show "int (writes m j) = (case rcs t' j of Some rc \<Rightarrow> max 0 rc | None \<Rightarrow> 0)"
  proof (cases "rcs t j")
    case None
    then show ?thesis using D(3) [of j] from_t by (cases "rcs t' j") auto
  next
    case (Some rc)
    then show ?thesis using D(3) [of j] from_t ct_store_locked [OF f s Some] by (cases "rc = 0"; cases "rcs t' j") auto
  qed
qed

section \<open>The invariant of the chain\<close>

definition st_good :: "nat \<Rightarrow> station \<Rightarrow> bool" where
  "st_good n st \<longleftrightarrow> station_ok st \<and> length (st_tiers st) = n \<and> (\<forall>c \<in> set (map ts_cfg (st_tiers st)). tc_max_depth c = 0) \<and>
     (\<forall>i. count (station_ids st) i \<le> 1) \<and> (\<forall>i \<in># station_ids st. i \<le> st_next st)"

definition held_ids :: "offload \<Rightarrow> int set" where
  "held_ids o1 = (case oc_station o1 of None \<Rightarrow> {} | Some st \<Rightarrow> set_mset (station_ids st))"

definition episode_ok :: "nat \<Rightarrow> deferral \<Rightarrow> bool" where
  "episode_ok n st \<longleftrightarrow> distinct (df_keys st) \<and>
     (df_phase st = DeferRetry \<and> \<not> df_resolved st \<and> \<not> df_recompute st \<longrightarrow> 0 \<le> df_tier st \<and> df_tier st < int n)"

definition ref_ok :: "nat \<Rightarrow> job_ref \<Rightarrow> bool" where
  "ref_ok n ref \<longleftrightarrow> jr_tier ref < n \<and> (jr_dir ref = WriteDir \<longrightarrow> (\<exists>k. jr_keys ref = [k]))"

definition oc_core :: "offload \<Rightarrow> bool" where
  "oc_core o1 \<longleftrightarrow> ct_fine (oc_cpu o1) \<and> refs_agree (oc_inflight o1) (oc_cpu o1) \<and> 0 < oc_block_bytes o1 \<and>
     (\<forall>ref \<in> ran (oc_inflight o1). ref_ok (length (oc_secondary o1)) ref) \<and>
     (case oc_station o1 of None \<Rightarrow> oc_secondary o1 = [] | Some st \<Rightarrow> st_good (length (oc_secondary o1)) st) \<and>
     distinct (gm_keys (oc_deferred o1)) \<and>
     (\<forall>r st. map_of (oc_deferred o1) r = Some st \<longrightarrow> episode_ok (length (oc_secondary o1)) st)"

definition oc_ok :: "offload \<Rightarrow> bool" where
  "oc_ok o1 \<longleftrightarrow> oc_core o1 \<and> dom (oc_inflight o1) = held_ids o1"

lemma oc_coreD:
  assumes "oc_core o1"
  shows "ct_fine (oc_cpu o1)" "refs_agree (oc_inflight o1) (oc_cpu o1)" "0 < oc_block_bytes o1"
    "oc_inflight o1 i = Some ref \<Longrightarrow> ref_ok (length (oc_secondary o1)) ref"
    "oc_station o1 = None \<Longrightarrow> oc_secondary o1 = []" "oc_station o1 = Some st \<Longrightarrow> st_good (length (oc_secondary o1)) st"
    "distinct (gm_keys (oc_deferred o1))" "map_of (oc_deferred o1) r = Some ep \<Longrightarrow> episode_ok (length (oc_secondary o1)) ep"
  using assms by (auto simp: oc_core_def ran_def split: option.splits)

lemma oc_coreI:
  assumes "ct_fine (oc_cpu o1)" "refs_agree (oc_inflight o1) (oc_cpu o1)" "0 < oc_block_bytes o1"
    "\<And>i ref. oc_inflight o1 i = Some ref \<Longrightarrow> ref_ok (length (oc_secondary o1)) ref"
    "oc_station o1 = None \<Longrightarrow> oc_secondary o1 = []" "\<And>st. oc_station o1 = Some st \<Longrightarrow> st_good (length (oc_secondary o1)) st"
    "distinct (gm_keys (oc_deferred o1))" "\<And>r ep. map_of (oc_deferred o1) r = Some ep \<Longrightarrow> episode_ok (length (oc_secondary o1)) ep"
  shows "oc_core o1"
  using assms by (auto simp: oc_core_def ran_def split: option.splits)

lemma oc_core_change:
  assumes core: "oc_core o1" and c: "ct_fine (oc_cpu o2)" "refs_agree (oc_inflight o2) (oc_cpu o2)"
    and r: "\<And>i ref. oc_inflight o2 i = Some ref \<Longrightarrow> oc_inflight o1 i = Some ref \<or> ref_ok (length (oc_secondary o1)) ref"
    and st: "oc_station o2 = oc_station o1 \<or> (\<exists>st. oc_station o2 = Some st \<and> st_good (length (oc_secondary o1)) st)"
    and eq: "length (oc_secondary o2) = length (oc_secondary o1)" "oc_block_bytes o2 = oc_block_bytes o1" "oc_deferred o2 = oc_deferred o1"
  shows "oc_core o2"
proof -
  note C = oc_coreD [OF core]
  show ?thesis
  proof (rule oc_coreI [OF c])
    show "0 < oc_block_bytes o2" using C(3) eq(2) by simp
    show "ref_ok (length (oc_secondary o2)) ref" if "oc_inflight o2 i = Some ref" for i ref using r [OF that] C(4) eq(1) by auto
    show "oc_secondary o2 = []" if "oc_station o2 = None"
    proof -
      have "oc_station o1 = None" using st that by auto
      then show ?thesis using C(5) eq(1) by simp
    qed
    show "st_good (length (oc_secondary o2)) x" if "oc_station o2 = Some x" for x using st that C(6) eq(1) by auto
    show "distinct (gm_keys (oc_deferred o2))" using C(7) unfolding eq .
    show "episode_ok (length (oc_secondary o2)) ep" if "map_of (oc_deferred o2) r = Some ep" for r ep using C(8) that unfolding eq by blast
  qed
qed

text \<open>What the parts of the chain other than the GPU do not touch, and the reverse.\<close>

definition chain_frame :: "offload \<Rightarrow> offload \<Rightarrow> bool" where
  "chain_frame o1 o2 \<longleftrightarrow> oc_gpu o2 = oc_gpu o1 \<and> oc_deferred o2 = oc_deferred o1 \<and> length (oc_secondary o2) = length (oc_secondary o1) \<and>
     oc_clock o2 = oc_clock o1 \<and> (oc_station o2 = None \<longleftrightarrow> oc_station o1 = None)"

lemma chain_frame_refl [simp]: "chain_frame o1 o1"
  by (simp add: chain_frame_def)

lemma chain_frame_trans: "chain_frame o1 o2 \<Longrightarrow> chain_frame o2 o3 \<Longrightarrow> chain_frame o1 o3"
  by (simp add: chain_frame_def)

lemma oc_ok_same:
  assumes "oc_ok o1" and eq: "oc_cpu o2 = oc_cpu o1" "oc_inflight o2 = oc_inflight o1" "oc_block_bytes o2 = oc_block_bytes o1"
    "oc_secondary o2 = oc_secondary o1" "oc_station o2 = oc_station o1" "oc_deferred o2 = oc_deferred o1"
  shows "oc_ok o2"
  using assms(1) unfolding oc_ok_def oc_core_def held_ids_def eq .

lemma oc_ok_counters:
  assumes "oc_ok o1"
  shows "oc_ok (o1\<lparr>oc_gpu := g\<rparr>)" "oc_ok (o1\<lparr>oc_failed := n\<rparr>)" "oc_ok (o1\<lparr>oc_misses := n\<rparr>)" "oc_ok (o1\<lparr>oc_reloads := n\<rparr>)"
    "oc_ok (o1\<lparr>oc_skipped := n\<rparr>)" "oc_ok (o1\<lparr>oc_deferrals := n\<rparr>)" "oc_ok (o1\<lparr>oc_clock := n\<rparr>)" "oc_ok (o1\<lparr>oc_known := ks\<rparr>)"
  by (rule oc_ok_same [OF assms]; simp)+

lemma oc_ok_cpu:
  assumes "oc_ok o1" and c: "ct_fine c" "refs_agree (oc_inflight o1) c"
  shows "oc_ok (o1\<lparr>oc_cpu := c\<rparr>)"
proof -
  let ?o2 = "o1\<lparr>oc_cpu := c\<rparr>"
  have core: "oc_core o1" and dom: "dom (oc_inflight o1) = held_ids o1" using assms(1) by (simp_all add: oc_ok_def)
  have "oc_core ?o2" by (rule oc_core_change [OF core]) (use c in simp_all)
  moreover have "held_ids ?o2 = held_ids o1" by (simp add: held_ids_def)
  ultimately show ?thesis using dom by (simp add: oc_ok_def)
qed

section \<open>Submitting\<close>

lemma submit_transfer_ok:
  assumes g: "oc_station o1 = Some st" "st_good n st" and t: "tier < n" "0 \<le> bytes"
  obtains st' d where "submit_transfer tier dir bytes o1 = Inr ((st_next st + 1, True), o1\<lparr>oc_draws := d, oc_station := Some st'\<rparr>)"
    "st_good n st'" "station_ids st' = add_mset (st_next st + 1) (station_ids st)" "st_next st + 1 \<notin># station_ids st"
proof -
  obtain f d where j: "draw_jitter tier o1 = (f, o1\<lparr>oc_draws := d\<rparr>)"
  proof -
    have "\<exists>f d. draw_jitter tier o1 = (f, o1\<lparr>oc_draws := d\<rparr>)"
    proof (cases "tier \<ge> length (oc_jitter o1) \<or> oc_jitter o1 ! tier \<le> 0 \<or> oc_rng o1 = None")
      case True
      then have "draw_jitter tier o1 = (0, o1)" by (auto simp: draw_jitter_def)
      then show ?thesis by (intro exI [of _ 0] exI [of _ "oc_draws o1"]) simp
    next
      case False
      then obtain rng where "oc_rng o1 = Some rng" by auto
      then have "draw_jitter tier o1 =
          (max jitter_min_factor (1 + rng (oc_draws o1) * oc_jitter o1 ! tier), o1\<lparr>oc_draws := oc_draws o1 + 1\<rparr>)"
        using False by (simp add: draw_jitter_def)
      then show ?thesis by blast
    qed
    then show thesis using that by blast
  qed
  let ?j = "\<lparr>tj_tier = int tier, tj_dir = dir, tj_bytes = bytes, tj_submit = oc_clock o1, tj_jitter = f\<rparr>"
  have ok: "station_ok st" and len: "length (st_tiers st) = n" using g(2) by (simp_all add: st_good_def)
  have d: "tc_max_depth (ts_cfg (st_tiers st ! nat (tj_tier ?j))) = 0" using g(2) t(1) by (auto simp: st_good_def)
  have a: "0 \<le> tj_tier ?j" "tj_tier ?j < int (length (st_tiers st))" "0 \<le> tj_bytes ?j" using t len by simp_all
  obtain k b st' where "submit ?j st = Inr ((k, b), st')" "station_ok st'" "b"
      "if b then k = st_next st + 1 \<and> st_next st' = k \<and> station_ids st' = add_mset k (station_ids st)
       else k = 0 \<and> st_next st' = st_next st \<and> station_ids st' = station_ids st" "map ts_cfg (st_tiers st') = map ts_cfg (st_tiers st)"
    by (rule submit_ok [OF ok a]) (use d in blast)
  then have s: "submit ?j st = Inr ((st_next st + 1, True), st')" "station_ok st'" "st_next st' = st_next st + 1"
      "station_ids st' = add_mset (st_next st + 1) (station_ids st)" "map ts_cfg (st_tiers st') = map ts_cfg (st_tiers st)"
    by simp_all
  have fresh: "st_next st + 1 \<notin># station_ids st" using g(2) by (auto simp: st_good_def)
  have "length (st_tiers st') = n" using s(5) len by (metis length_map)
  then have "st_good n st'"
    using g(2) s fresh unfolding st_good_def s(4,5) by (auto simp: not_in_iff)
  then show thesis using that [where d = d and st' = st'] g(1) j s(1,4) fresh by (simp add: submit_transfer_def)
qed

lemma fire_promotion_ok:
  assumes ok: "oc_ok o1" and run: "distinct run" and t: "tier < length (oc_secondary o1)"
  shows "\<exists>b o2. fire_promotion run tier o1 = Inr (b, o2) \<and> oc_ok o2 \<and> chain_frame o1 o2"
proof -
  have core: "oc_core o1" and dom: "dom (oc_inflight o1) = held_ids o1" using ok by (simp_all add: oc_ok_def)
  note C = oc_coreD [OF core]
  obtain st where st: "oc_station o1 = Some st" using C(5) t by (cases "oc_station o1") auto
  obtain n cpu where p: "ct_prepare_store run (oc_cpu o1) = (n, cpu)" by fastforce
  show ?thesis
  proof (cases "n = 0")
    case True
    then have "cpu = oc_cpu o1" using ct_prepare_granted [OF p] by simp
    then show ?thesis using p True ok by (intro exI [of _ False]) (simp add: fire_promotion_def oc_ok_counters chain_frame_def)
  next
    case False
    let ?o2 = "o1\<lparr>oc_cpu := cpu\<rparr>" and ?id = "st_next st + 1" and ?ref = "\<lparr>jr_keys = run, jr_tier = tier, jr_dir = ReadDir\<rparr>"
    have "0 \<le> n * oc_block_bytes ?o2" using ct_prepare_granted(1) [OF p] C(3) by simp
    have st2: "oc_station ?o2 = Some st" using st by simp
    obtain st' d where
      s: "submit_transfer tier ReadDir (n * oc_block_bytes ?o2) ?o2 = Inr ((?id, True), ?o2\<lparr>oc_draws := d, oc_station := Some st'\<rparr>)"
        "st_good (length (oc_secondary o1)) st'" "station_ids st' = add_mset ?id (station_ids st)" "?id \<notin># station_ids st"
      by (rule submit_transfer_ok [OF st2 C(6) [OF st] t \<open>0 \<le> n * oc_block_bytes ?o2\<close>, of ReadDir])
    let ?o3 = "?o2\<lparr>oc_draws := d, oc_station := Some st', oc_fired := oc_fired o1 + 1, oc_inflight := (oc_inflight o1)(?id \<mapsto> ?ref)\<rparr>"
    have none: "oc_inflight o1 ?id = None" using dom s(4) st by (auto simp: held_ids_def)
    have "refs_agree ((oc_inflight o1)(?id \<mapsto> ?ref)) cpu" by (rule refs_agree_promote [OF C(2) none p C(1) run]) simp_all
    then have "oc_core ?o3"
      by (intro oc_core_change [OF core]) (use s(2) t ct_fine_steps(6) [OF C(1) run p] in \<open>auto simp: ref_ok_def split: if_splits\<close>)
    moreover have "dom (oc_inflight ?o3) = held_ids ?o3" using dom st s(3) by (simp add: held_ids_def)
    ultimately have "oc_ok ?o3" by (simp add: oc_ok_def)
    moreover have "fire_promotion run tier o1 = Inr (True, ?o3)" using p False s(1) by (simp add: fire_promotion_def)
    ultimately show ?thesis using st by (auto simp: chain_frame_def)
  qed
qed

section \<open>The clock\<close>

lemma apply_completion_ok:
  assumes core: "oc_core o1" and i: "oc_inflight o1 i = Some ref"
  obtains o2 where "apply_completion i o1 = Inr o2" "oc_core o2" "oc_inflight o2 = (oc_inflight o1)(i := None)" "chain_frame o1 o2"
    "oc_station o2 = oc_station o1"
proof -
  note C = oc_coreD [OF core]
  have r: "ref_ok (length (oc_secondary o1)) ref" by (rule C(4) [OF i])
  show thesis
  proof (cases "jr_dir ref")
    case ReadDir
    let ?o2 = "o1\<lparr>oc_inflight := (oc_inflight o1)(i := None), oc_cpu := fold (\<lambda>k. ct_complete_store k True) (jr_keys ref) (oc_cpu o1)\<rparr>"
    have "oc_core ?o2"
      by (rule oc_core_change [OF core]) (use C(1) refs_agree_fetched [OF C(2) i ReadDir] ct_fine_fold_complete in \<open>simp_all split: if_splits\<close>)
    then show thesis using that [of ?o2] i ReadDir by (simp add: apply_completion_def chain_frame_def)
  next
    case WriteDir
    then obtain k where k: "jr_keys ref = [k]" "jr_tier ref < length (oc_secondary o1)" using r by (auto simp: ref_ok_def)
    let ?s = "(oc_secondary o1)[jr_tier ref := sc_store k (oc_secondary o1 ! jr_tier ref)]"
    let ?o2 = "o1\<lparr>oc_inflight := (oc_inflight o1)(i := None), oc_secondary := ?s, oc_cpu := ct_unpin k (oc_cpu o1)\<rparr>"
    have "oc_core ?o2"
      by (rule oc_core_change [OF core]) (use refs_agree_written [OF C(2) i WriteDir k(1)] ct_fine_steps(4) [OF C(1)] in \<open>simp_all split: if_splits\<close>)
    then show thesis using that [of ?o2] i WriteDir k by (simp add: apply_completion_def chain_frame_def)
  qed
qed

lemma apply_completions_ok:
  "oc_core o1 \<Longrightarrow> distinct ids \<Longrightarrow> set ids \<subseteq> dom (oc_inflight o1) \<Longrightarrow>
   \<exists>o2. apply_completions ids o1 = Inr o2 \<and> oc_core o2 \<and> dom (oc_inflight o2) = dom (oc_inflight o1) - set ids \<and>
     chain_frame o1 o2 \<and> oc_station o2 = oc_station o1"
proof (induction ids arbitrary: o1)
  case (Cons i ids)
  obtain ref where "oc_inflight o1 i = Some ref" using Cons.prems(3) by auto
  from apply_completion_ok [OF Cons.prems(1) this] obtain o2 where o2: "apply_completion i o1 = Inr o2" "oc_core o2"
      "oc_inflight o2 = (oc_inflight o1)(i := None)" "chain_frame o1 o2" "oc_station o2 = oc_station o1" by metis
  have "set ids \<subseteq> dom (oc_inflight o2)" using Cons.prems(2,3) o2(3) by auto
  from Cons.IH [OF o2(2) _ this] obtain o3 where o3: "apply_completions ids o2 = Inr o3" "oc_core o3"
      "dom (oc_inflight o3) = dom (oc_inflight o2) - set ids" "chain_frame o2 o3" "oc_station o3 = oc_station o2"
    using Cons.prems(2) by auto
  then show ?case using o2 chain_frame_trans [OF o2(4) o3(4)] by auto
qed simp

lemma st_good_poll:
  assumes g: "st_good n st"
  obtains xs st' where "poll now st = Inr (xs, st')" "st_good n st'" "distinct xs" "set xs \<subseteq> set_mset (station_ids st)"
    "set_mset (station_ids st') = set_mset (station_ids st) - set xs"
proof -
  have ok: "station_ok st" using g by (simp add: st_good_def)
  obtain xs st' where p: "poll now st = Inr (xs, st')" "station_ok st'" "mset xs + station_ids st' = station_ids st" "st_next st' = st_next st"
      "map ts_cfg (st_tiers st') = map ts_cfg (st_tiers st)"
    using poll_ok [OF ok, of now] by metis
  have c: "count (mset xs) i + count (station_ids st') i \<le> 1" for i
    using g p(3) by (metis count_union st_good_def)
  have "length (st_tiers st') = n" using p(5) g by (metis length_map st_good_def)
  moreover have "\<forall>i. count (station_ids st') i \<le> 1" using c by (meson le_add2 order_trans)
  moreover have "\<forall>i \<in># station_ids st'. i \<le> st_next st'"
    using g p(3,4) by (metis st_good_def union_iff)
  ultimately have good: "st_good n st'" using g p(2,5) by (simp add: st_good_def)
  have "distinct xs" unfolding distinct_count_atmost_1
  proof (intro allI)
    fix i
    have "i \<in> set xs \<Longrightarrow> 1 \<le> count (mset xs) i" by (simp add: Suc_leI count_greater_zero_iff)
    then have "i \<in> set xs \<Longrightarrow> count (mset xs) i = 1" using c [of i] by linarith
    then show "count (mset xs) i = (if i \<in> set xs then 1 else 0)" by (auto simp: count_mset_0_iff)
  qed
  moreover have "set_mset (station_ids st') = set_mset (station_ids st) - set xs"
  proof -
    have "i \<notin># station_ids st'" if "i \<in> set xs" for i
    proof -
      have "1 \<le> count (mset xs) i" using that by (simp add: Suc_leI)
      then have "count (station_ids st') i = 0" using c [of i] by linarith
      then show ?thesis by (simp add: count_eq_zero_iff)
    qed
    moreover have "set_mset (station_ids st) = set xs \<union> set_mset (station_ids st')" by (simp flip: p(3))
    ultimately show ?thesis by blast
  qed
  moreover have "set xs \<subseteq> set_mset (station_ids st)" using p(3) by (metis set_mset_mset set_mset_union sup_ge1)
  ultimately show thesis using that p(1) good by blast
qed

lemma oc_set_clock_ok:
  assumes ok: "oc_ok o1"
  obtains o2 where "oc_set_clock now o1 = Inr o2" "oc_ok o2" "chain_frame (o1\<lparr>oc_clock := now\<rparr>) o2"
proof (cases "oc_station o1")
  case None
  then show thesis using that [of "o1\<lparr>oc_clock := now\<rparr>"] ok by (simp add: oc_set_clock_def oc_ok_counters)
next
  case (Some st)
  have core: "oc_core o1" and dom: "dom (oc_inflight o1) = set_mset (station_ids st)" using ok Some by (simp_all add: oc_ok_def held_ids_def)
  note C = oc_coreD [OF core]
  obtain xs st' where p: "poll now st = Inr (xs, st')" "st_good (length (oc_secondary o1)) st'" "distinct xs" "set xs \<subseteq> set_mset (station_ids st)"
      "set_mset (station_ids st') = set_mset (station_ids st) - set xs"
    using st_good_poll [OF C(6) [OF Some], of now] by metis
  let ?o2 = "o1\<lparr>oc_clock := now, oc_station := Some st'\<rparr>"
  have "oc_core ?o2" by (rule oc_core_change [OF core]) (use C(1,2) p(2) in simp_all)
  then obtain o3 where o3: "apply_completions xs ?o2 = Inr o3" "oc_core o3" "dom (oc_inflight o3) = dom (oc_inflight ?o2) - set xs"
      "chain_frame ?o2 o3" "oc_station o3 = oc_station ?o2"
    using apply_completions_ok [of ?o2 xs] p(3,4) dom by auto
  have "oc_ok o3" using o3(2,3,5) dom p(5) by (simp add: oc_ok_def held_ids_def)
  moreover have "oc_set_clock now o1 = Inr o3" using Some p(1) o3(1) by (simp add: oc_set_clock_def)
  moreover have "chain_frame (o1\<lparr>oc_clock := now\<rparr>) o3" using o3(4) Some by (simp add: chain_frame_def)
  ultimately show thesis using that by blast
qed

end
