(* ===== verification/Offload_Ops.thy ===== *)
theory Offload_Ops
  imports Offload_Safe
begin

text \<open>
  Every operation of the offload chain keeps its invariant and stops at none of its panics:
  the walk that reloads and promotes, the allocation with its deferral, the rounds of the
  deferred requests, the mirror with its cascade.
\<close>

section \<open>The walk\<close>

definition oc_good :: "offload \<Rightarrow> bool" where
  "oc_good o1 \<longleftrightarrow> oc_ok o1 \<and> kv_inv (oc_gpu o1)"

definition tail_frame :: "offload \<Rightarrow> offload \<Rightarrow> bool" where
  "tail_frame o1 o2 \<longleftrightarrow> oc_deferred o2 = oc_deferred o1 \<and> length (oc_secondary o2) = length (oc_secondary o1) \<and> oc_clock o2 = oc_clock o1"

lemma tail_frame_refl [simp]: "tail_frame o1 o1"
  by (simp add: tail_frame_def)

lemma tail_frame_trans: "tail_frame o1 o2 \<Longrightarrow> tail_frame o2 o3 \<Longrightarrow> tail_frame o1 o3"
  by (simp add: tail_frame_def)

lemma chain_tail: "chain_frame o1 o2 \<Longrightarrow> tail_frame o1 o2"
  by (simp add: chain_frame_def tail_frame_def)

lemma gather_run:
  assumes "gather_secondary_run keys o1 = Some (run, tier)" "keys \<noteq> []"
  shows "set run \<subseteq> set keys" "distinct keys \<Longrightarrow> distinct run" "tier < length (oc_secondary o1)"
proof -
  obtain k ks where keys: "keys = k # ks" using assms(2) by (cases keys) auto
  have r: "lookup_secondary (oc_secondary o1) k = Some tier"
      "run = k # takeWhile (\<lambda>j. kc_hash (oc_gpu o1) j = None \<and> ct_lookup j (oc_cpu o1) = CpuMiss \<and> lookup_secondary (oc_secondary o1) j = Some tier) ks"
    using assms(1) keys by (auto simp: gather_secondary_run_def split: if_splits option.splits)
  show "set run \<subseteq> set keys" using r(2) keys set_takeWhileD by fastforce
  show "distinct keys \<Longrightarrow> distinct run" using r(2) keys by (auto dest: set_takeWhileD)
  show "tier < length (oc_secondary o1)" using r(1) by (simp add: lookup_secondary_Some)
qed

lemma maybe_promote_ok:
  assumes "oc_ok o1" "distinct keys" "keys \<noteq> []"
  shows "\<exists>o2. maybe_promote keys o1 = Inr o2 \<and> oc_ok o2 \<and> chain_frame o1 o2"
proof (cases "gather_secondary_run keys o1")
  case None
  then show ?thesis using assms(1) by (simp add: maybe_promote_def)
next
  case (Some rt)
  then obtain run tier where g: "gather_secondary_run keys o1 = Some (run, tier)" by (cases rt) auto
  from fire_promotion_ok [OF assms(1) gather_run(2) [OF g assms(3,2)] gather_run(3) [OF g assms(3)]] obtain b o2 where
    "fire_promotion run tier o1 = Inr (b, o2)" "oc_ok o2" "chain_frame o1 o2" by blast
  then show ?thesis using g by (simp add: maybe_promote_def)
qed

lemma consult_loop_ok:
  "oc_ok o1 \<Longrightarrow> kv_inv (oc_gpu o1) \<Longrightarrow> distinct keys \<Longrightarrow> '''' \<notin> set keys \<Longrightarrow> length keys * kc_bs (oc_gpu o1) \<le> length toks \<Longrightarrow> 0 \<le> cnt \<Longrightarrow>
   \<exists>b o2. consult_loop keys toks limit cnt o1 = Inr (b, o2) \<and> oc_ok o2 \<and> kv_inv (oc_gpu o2) \<and> reload_frame (oc_gpu o1) (oc_gpu o2) \<and>
     tail_frame o1 o2 \<and> (0 < cnt \<longrightarrow> b) \<and> (\<not> b \<longrightarrow> oc_gpu o2 = oc_gpu o1)"
proof (induction keys arbitrary: toks cnt o1)
  case Nil
  then show ?case by (intro exI [of _ "0 < cnt"] exI [of _ o1]) simp
next
  case (Cons h hs)
  let ?bs = "kc_bs (oc_gpu o1)"
  have len: "length hs * ?bs \<le> length (drop ?bs toks)" "length (take ?bs toks) = ?bs" using Cons.prems(5) by simp_all
  have stop: ?case if "consult_loop (h # hs) toks limit cnt o1 = Inr (cnt > 0, o1)"
    using that Cons.prems(1,2) by (intro exI [of _ "0 < cnt"] exI [of _ o1]) simp
  show ?case
  proof (cases "kc_hash (oc_gpu o1) h = None")
    case False
    then show ?thesis using Cons.IH [OF Cons.prems(1,2) _ _ len(1) Cons.prems(6)] Cons.prems(3,4) by (simp add: Let_def)
  next
    case miss: True
    show ?thesis
    proof (cases "ct_lookup h (oc_cpu o1)")
      case CpuMiss
      obtain o2 where "maybe_promote (h # hs) o1 = Inr o2" "oc_ok o2" "chain_frame o1 o2"
        using maybe_promote_ok [OF Cons.prems(1,3)] by auto
      then show ?thesis using miss CpuMiss Cons.prems(2) chain_tail [of o1 o2]
        by (intro exI [of _ "0 < cnt"] exI [of _ o2]) (simp add: Let_def chain_frame_def)
    next
      case CpuHitPending
      show ?thesis by (rule stop) (use miss CpuHitPending in \<open>simp add: Let_def\<close>)
    next
      case CpuHit
      show ?thesis
      proof (cases "cnt \<ge> limit \<or> kv_reload_block h (take ?bs toks) (oc_gpu o1) = None")
        case True
        show ?thesis by (rule stop) (use miss CpuHit True in \<open>auto simp: Let_def\<close>)
      next
        case False
        then obtain g where g: "kv_reload_block h (take ?bs toks) (oc_gpu o1) = Some g" by auto
        have h: "h \<noteq> []" using Cons.prems(4) by auto
        obtain b where b: "b < kc_total (oc_gpu o1)" "\<not> kb_in_use (blk (oc_gpu o1) b)" "g = kv_reloaded b h (take ?bs toks) (oc_gpu o1)" "kv_inv g"
          by (rule kv_reload_ok [OF Cons.prems(2) len(2) h g])
        have frame: "reload_frame (oc_gpu o1) g" unfolding b(3) by (rule kv_reload_frame [OF Cons.prems(2) b(1,2) len(2)])
        let ?o2 = "o1\<lparr>oc_gpu := g, oc_cpu := ct_touch_key h (oc_cpu o1), oc_reloads := oc_reloads o1 + 1\<rparr>"
        have "oc_core o1" using Cons.prems(1) by (simp add: oc_ok_def)
        note C = oc_coreD [OF this]
        have "refs_agree (oc_inflight o1) (ct_touch_key h (oc_cpu o1))" using C(2) by (rule refs_agree_same) simp
        then have "oc_ok (o1\<lparr>oc_cpu := ct_touch_key h (oc_cpu o1)\<rparr>)" by (rule oc_ok_cpu [OF Cons.prems(1) ct_fine_steps(1) [OF C(1)]])
        then have ok2: "oc_ok ?o2" by (rule oc_ok_same) simp_all
        have bs: "kc_bs g = ?bs" using b(3) by simp
        have c: "consult_loop (h # hs) toks limit cnt o1 = consult_loop hs (drop ?bs toks) limit (cnt + 1) ?o2"
          using miss CpuHit False g by (simp add: Let_def)
        have "kv_inv (oc_gpu ?o2)" "distinct hs" "'''' \<notin> set hs" "length hs * kc_bs (oc_gpu ?o2) \<le> length (drop ?bs toks)" "0 \<le> cnt + 1"
          using b(4) Cons.prems(3,4,6) len(1) bs by simp_all
        from Cons.IH [OF ok2 this] obtain x o3 where o3: "consult_loop hs (drop ?bs toks) limit (cnt + 1) ?o2 = Inr (x, o3)" "oc_ok o3" "kv_inv (oc_gpu o3)"
            "reload_frame (oc_gpu ?o2) (oc_gpu o3)" "tail_frame ?o2 o3" "x"
          using Cons.prems(6) by auto
        have "reload_frame (oc_gpu o1) (oc_gpu o3)" using frame o3(4) reload_frame_trans by simp
        moreover have "tail_frame o1 o3" using o3(5) by (simp add: tail_frame_def)
        ultimately show ?thesis using c o3 by auto
      qed
    qed
  qed
qed

section \<open>Keys\<close>

text \<open>
  The keys the walk of an allocation looks up. That no two of them are equal is the only fact
  about the hash the chain relies on.
\<close>

definition walk_keys :: "request \<Rightarrow> nat list \<Rightarrow> offload \<Rightarrow> block_key list" where
  "walk_keys q cached o1 =
     (case resume_seed (rq_id q) cached (oc_gpu o1) of
        Inl e \<Rightarrow> []
      | Inr (n, prev) \<Rightarrow> (let bs = kc_bs (oc_gpu o1); ts = drop (n * bs) (rq_input q) in block_hashes_loop bs (length ts div bs) prev ts))"

lemma block_hashes_nonempty: "'''' \<notin> set (block_hashes_loop bs n p ts)"
  by (induction n arbitrary: p ts) (auto simp: Let_def hash_block_nonempty)

lemma resume_seed_total:
  assumes "kv_inv s" "\<forall>b \<in> set cached. b < kc_total s"
  shows "\<exists>n prev. resume_seed r cached s = Inr (n, prev)"
proof -
  have "length (kc_blocks s) = kc_total s" "\<And>ids. kc_req s r = Some ids \<Longrightarrow> ids \<noteq> [] \<and> (\<forall>b \<in> set ids. b < kc_total s)"
    using assms(1) by (auto simp: kv_inv_def kv_acct_def)
  then show ?thesis
    using assms(2) by (cases "cached = []"; cases "kc_req s r") (auto simp: resume_seed_def kv_block_at_def)
qed

lemma derive_keys: "0 < bs \<Longrightarrow> derive_chunk_keys prev ts (int bs) = Inr (block_hashes_loop bs (length ts div bs) prev ts)"
  by (simp add: derive_chunk_keys_def)

definition consult_from :: "request \<Rightarrow> nat list \<Rightarrow> offload \<Rightarrow> (bool \<times> offload) outcome" where
  "consult_from q cached o1 =
     obind (resume_seed (rq_id q) cached (oc_gpu o1)) (\<lambda>(n, prev). consult_and_reload (full_input_tokens q) n prev o1)"

lemma consult_from_ok:
  assumes good: "oc_good o1" and c: "\<forall>b \<in> set cached. b < kc_total (oc_gpu o1)" and d: "distinct (walk_keys q cached o1)"
  shows "\<exists>b o2. consult_from q cached o1 = Inr (b, o2) \<and> oc_good o2 \<and> reload_frame (oc_gpu o1) (oc_gpu o2) \<and> tail_frame o1 o2 \<and>
    (\<not> b \<longrightarrow> oc_gpu o2 = oc_gpu o1)"
proof -
  have ok: "oc_ok o1" and inv: "kv_inv (oc_gpu o1)" using good by (simp_all add: oc_good_def)
  have bs: "0 < kc_bs (oc_gpu o1)" using inv by (simp add: kv_inv_def kv_acct_def)
  obtain n prev where s: "resume_seed (rq_id q) cached (oc_gpu o1) = Inr (n, prev)" using resume_seed_total [OF inv c] by blast
  let ?bs = "kc_bs (oc_gpu o1)" and ?ts = "drop (n * kc_bs (oc_gpu o1)) (rq_input q)"
  let ?keys = "block_hashes_loop ?bs (length ?ts div ?bs) prev ?ts"
  show ?thesis
  proof (cases "n \<ge> length (rq_input q) div ?bs")
    case True
    then have "consult_from q cached o1 = Inr (False, o1)"
      using s by (simp add: consult_from_def consult_and_reload_def full_input_tokens_def Let_def)
    then show ?thesis using good by auto
  next
    case False
    have keys: "walk_keys q cached o1 = ?keys" using s by (simp add: walk_keys_def Let_def)
    have "length ?keys * ?bs \<le> length ?ts" by (simp only: length_block_hashes_loop) (rule div_times_less_eq_dividend)
    from consult_loop_ok [OF ok inv _ block_hashes_nonempty this order_refl] d keys obtain b o2 where
      o2: "consult_loop ?keys ?ts (kv_count_free (oc_gpu o1)) 0 o1 = Inr (b, o2)" "oc_ok o2" "kv_inv (oc_gpu o2)"
        "reload_frame (oc_gpu o1) (oc_gpu o2)" "tail_frame o1 o2" "\<not> b \<longrightarrow> oc_gpu o2 = oc_gpu o1"
      by (metis (no_types, lifting))
    have "consult_from q cached o1 = Inr (b, o2)"
      using s False derive_keys [OF bs] o2(1) by (simp add: consult_from_def consult_and_reload_def full_input_tokens_def Let_def)
    then show ?thesis using o2 by (auto simp: oc_good_def)
  qed
qed

section \<open>Allocation\<close>

lemma allocate_chain_consult:
  "allocate_through_chain q start stop cached o1 = obind (consult_from q cached o1) (\<lambda>(reloaded, o2).
       if reloaded
       then obind (allocate_reloaded q start stop cached (oc_gpu o2)) (\<lambda>(ok, gpu). Inr (ok, o2\<lparr>oc_gpu := gpu\<rparr>))
       else obind (allocate_kv_blocks q start stop cached (oc_gpu o2)) (\<lambda>(ok, gpu).
              Inr (ok, o2\<lparr>oc_gpu := gpu, oc_misses := oc_misses o2 + (if ok then 0 else 1)\<rparr>)))"
  by (cases "resume_seed (rq_id q) cached (oc_gpu o1)") (simp_all add: allocate_through_chain_def consult_from_def split_beta)

text \<open>As for the two-tier cache, a running request whose last block has room must find nothing to reload.\<close>

definition chain_safe :: "request \<Rightarrow> nat list \<Rightarrow> offload \<Rightarrow> bool" where
  "chain_safe q cached o1 \<longleftrightarrow> kv_last_full (rq_id q) (oc_gpu o1) \<or> (\<forall>o2. consult_from q cached o1 \<noteq> Inr (True, o2))"

lemma oc_good_gpu: "oc_good o1 \<Longrightarrow> kv_inv g \<Longrightarrow> oc_good (o1\<lparr>oc_gpu := g\<rparr>)"
  by (simp add: oc_good_def oc_ok_counters)

lemma allocate_kv_blocks_total:
  assumes inv: "kv_inv s" and args: "kv_alloc_args q start stop cached s"
  obtains ok s' where "allocate_kv_blocks q start stop cached s = Inr (ok, s')" "kv_inv s'" "kv_frame (rq_id q) s s'"
proof -
  obtain toks where toks: "kv_new_tokens q start stop = Inr toks" by (rule kv_new_tokens_ok [OF args])
  show thesis
  proof (cases "int (kv_need s (rq_id q) (length toks)) + kv_idle cached s \<le> kc_free_cnt s")
    case True
    then show thesis using allocate_cases [OF inv args toks] that by auto
  next
    case False
    then show thesis using allocate_cases [OF inv args toks] that inv by auto
  qed
qed

lemma allocate_through_chain_ok:
  assumes good: "oc_good o1" and args: "kv_alloc_args q start stop cached (oc_gpu o1)"
    and d: "distinct (walk_keys q cached o1)" and safe: "chain_safe q cached o1"
  shows "\<exists>b o2. allocate_through_chain q start stop cached o1 = Inr (b, o2) \<and> oc_good o2 \<and> tail_frame o1 o2 \<and>
    kv_frame (rq_id q) (oc_gpu o1) (oc_gpu o2)"
proof -
  have c: "\<forall>b \<in> set cached. b < kc_total (oc_gpu o1)" using args by (simp add: kv_alloc_args_def)
  obtain r o2 where w: "consult_from q cached o1 = Inr (r, o2)" "oc_good o2" "reload_frame (oc_gpu o1) (oc_gpu o2)" "tail_frame o1 o2"
    using consult_from_ok [OF good c d] by blast
  have inv2: "kv_inv (oc_gpu o2)" using w(2) by (simp add: oc_good_def)
  have args2: "kv_alloc_args q start stop cached (oc_gpu o2)" using args w(3) by (auto simp: kv_alloc_args_def reload_frame_def)
  have frame: "kv_frame (rq_id q) (oc_gpu o1) (oc_gpu o2)"
    using w(3) reload_frame_stored [OF w(3)] by (simp add: kv_frame_def reload_frame_def)
  have acct: "kv_acct [] (oc_gpu o1)" using good by (simp add: oc_good_def kv_inv_def)
  show ?thesis
  proof (cases r)
    case True
    then have "kv_last_full (rq_id q) (oc_gpu o1)" using safe w(1) by (auto simp: chain_safe_def)
    then have last: "kv_last_full (rq_id q) (oc_gpu o2)"
      using w(3) acct unfolding kv_last_full_def reload_frame_def kv_acct_def by (metis in_kv_table last_in_set)
    from allocate_reloaded_inv [OF inv2 last args2] obtain ok g where
      g: "allocate_reloaded q start stop cached (oc_gpu o2) = Inr (ok, g)" "kv_inv g" "kv_frame (rq_id q) (oc_gpu o2) g" by metis
    have "allocate_through_chain q start stop cached o1 = Inr (ok, o2\<lparr>oc_gpu := g\<rparr>)"
      using w(1) True g(1) by (simp add: allocate_chain_consult)
    moreover have "tail_frame o1 (o2\<lparr>oc_gpu := g\<rparr>)" using w(4) by (simp add: tail_frame_def)
    ultimately show ?thesis using oc_good_gpu [OF w(2) g(2)] kv_frame_trans [OF frame g(3)] by auto
  next
    case False
    obtain ok g where g: "allocate_kv_blocks q start stop cached (oc_gpu o2) = Inr (ok, g)" "kv_inv g" "kv_frame (rq_id q) (oc_gpu o2) g"
      by (rule allocate_kv_blocks_total [OF inv2 args2])
    let ?o3 = "o2\<lparr>oc_gpu := g, oc_misses := oc_misses o2 + (if ok then 0 else 1)\<rparr>"
    have "oc_good ?o3" using oc_good_gpu [OF w(2) g(2)] by (simp add: oc_good_def oc_ok_counters)
    moreover have "allocate_through_chain q start stop cached o1 = Inr (ok, ?o3)" using w(1) False g(1) by (simp add: allocate_chain_consult)
    moreover have "tail_frame o1 ?o3" using w(4) by (simp add: tail_frame_def)
    ultimately show ?thesis using kv_frame_trans [OF frame g(3)] by auto
  qed
qed

section \<open>Deferral\<close>

lemma oc_core_deferred:
  assumes "oc_core o1" "episode_ok (length (oc_secondary o1)) st"
  shows "oc_core (o1\<lparr>oc_deferred := AList.update r st (oc_deferred o1)\<rparr>)"
proof -
  note C = oc_coreD [OF assms(1)]
  let ?o2 = "o1\<lparr>oc_deferred := AList.update r st (oc_deferred o1)\<rparr>"
  show ?thesis
  proof (rule oc_coreI)
    show "distinct (gm_keys (oc_deferred ?o2))" using gm_update_distinct [OF C(7)] by simp
    show "episode_ok (length (oc_secondary ?o2)) ep" if "map_of (oc_deferred ?o2) r' = Some ep" for r' ep
      using that assms(2) C(8) by (auto split: if_splits)
  qed (use C(1-6) in simp_all)
qed

lemma oc_good_deferred:
  assumes "oc_good o1" "episode_ok (length (oc_secondary o1)) st"
  shows "oc_good (o1\<lparr>oc_deferred := AList.update r st (oc_deferred o1)\<rparr>)"
  using assms oc_core_deferred [of o1 st r] by (simp add: oc_good_def oc_ok_def held_ids_def)

lemma oc_good_forget:
  assumes "oc_good o1"
  shows "oc_good (o1\<lparr>oc_deferred := AList.delete r (oc_deferred o1)\<rparr>)"
proof -
  let ?o2 = "o1\<lparr>oc_deferred := AList.delete r (oc_deferred o1)\<rparr>"
  have core: "oc_core o1" using assms by (simp add: oc_good_def oc_ok_def)
  note C = oc_coreD [OF core]
  have "oc_core ?o2"
  proof (rule oc_coreI)
    show "distinct (gm_keys (oc_deferred ?o2))" using gm_delete_distinct [OF C(7)] by simp
    show "episode_ok (length (oc_secondary ?o2)) ep" if "map_of (oc_deferred ?o2) r' = Some ep" for r' ep
      using that C(8) by (auto split: if_splits)
  qed (use C(1-6) in simp_all)
  then show ?thesis using assms by (simp add: oc_good_def oc_ok_def held_ids_def)
qed

lemma oc_good_steps:
  assumes "oc_good o1"
  shows "oc_good (mark_known ks o1)" "oc_good (o1\<lparr>oc_deferrals := n\<rparr>)" "oc_good (o1\<lparr>oc_clock := now\<rparr>)" "oc_good (oc_clear_deferred r o1)"
  using assms oc_good_forget [OF assms] by (simp_all add: oc_good_def mark_known_def oc_ok_counters oc_clear_deferred_def)

lemma classify_loop_run:
  assumes "distinct keys" "fc_kind (classify_loop keys o1) \<noteq> FetchNone"
  shows "distinct (fc_run (classify_loop keys o1)) \<and>
    (fc_kind (classify_loop keys o1) = FetchSecondary \<longrightarrow>
       0 \<le> fc_tier (classify_loop keys o1) \<and> fc_tier (classify_loop keys o1) < int (length (oc_secondary o1)))"
  using assms
proof (induction keys)
  case (Cons h hs)
  then show ?case using gather_run [of "h # hs" o1]
    by (auto split: cpu_lookup.splits option.splits prod.splits if_splits)
qed simp

lemma fire_promotion_good:
  assumes "oc_good o1" "distinct run" "tier < length (oc_secondary o1)"
  shows "\<exists>b o2. fire_promotion run tier o1 = Inr (b, o2) \<and> oc_good o2 \<and> chain_frame o1 o2"
proof -
  have "oc_ok o1" using assms(1) by (simp add: oc_good_def)
  from fire_promotion_ok [OF this assms(2,3)] obtain b o2 where "fire_promotion run tier o1 = Inr (b, o2)" "oc_ok o2" "chain_frame o1 o2" by blast
  moreover have "kv_inv (oc_gpu o2)" using assms(1) \<open>chain_frame o1 o2\<close> by (simp add: oc_good_def chain_frame_def)
  ultimately show ?thesis by (auto simp: oc_good_def)
qed

lemma register_deferral_ok:
  assumes good: "oc_good o1" and fc: "distinct (fc_run fc)" "fc_kind fc = FetchSecondary \<Longrightarrow> 0 \<le> fc_tier fc \<and> fc_tier fc < int (length (oc_secondary o1))"
    and k: "fc_kind fc \<noteq> FetchNone"
  shows "\<exists>o2. register_deferral r fc o1 = Inr o2 \<and> oc_good o2 \<and> oc_gpu o2 = oc_gpu o1"
proof -
  let ?o2 = "o1\<lparr>oc_deferrals := oc_deferrals o1 + 1\<rparr>"
  let ?st = "\<lparr>df_phase = DeferRetry, df_keys = fc_run fc, df_tier = fc_tier fc, df_has_job = False, df_start = oc_clock ?o2,
                df_resolved = False, df_recompute = False\<rparr>"
  have good2: "oc_good ?o2" by (rule oc_good_steps(2) [OF good])
  have fin: ?thesis if "register_deferral r fc o1 = Inr (w\<lparr>oc_deferred := AList.update r st (oc_deferred w)\<rparr>)"
      "oc_good w" "episode_ok (length (oc_secondary w)) st" "oc_gpu w = oc_gpu o1" for w st
    using that oc_good_deferred [of w st r] by simp
  show ?thesis
  proof (cases "fc_kind fc")
    case FetchPending
    show ?thesis
      by (rule fin [where w = ?o2 and st = "?st\<lparr>df_phase := DeferPromoting, df_tier := -1\<rparr>"])
        (use FetchPending good2 fc in \<open>simp_all add: register_deferral_def episode_ok_def Let_def\<close>)
  next
    case FetchSecondary
    show ?thesis
    proof (cases "all_known (fc_run fc) ?o2")
      case True
      let ?m = "mark_known (fc_run fc) ?o2"
      have m: "oc_good ?m" "length (oc_secondary ?m) = length (oc_secondary o1)" "oc_gpu ?m = oc_gpu o1"
        using oc_good_steps(1) [OF good2] by (simp_all add: mark_known_def)
      have "nat (fc_tier fc) < length (oc_secondary o1)" using fc(2) [OF FetchSecondary] by linarith
      then have "nat (fc_tier fc) < length (oc_secondary ?m)" unfolding m(2) .
      from fire_promotion_good [OF m(1) fc(1) this] obtain b o3 where
        o3: "fire_promotion (fc_run fc) (nat (fc_tier fc)) ?m = Inr (b, o3)" "oc_good o3" "chain_frame ?m o3" by blast
      show ?thesis
        by (rule fin [where w = o3 and st = "if b then ?st\<lparr>df_phase := DeferPromoting, df_has_job := True\<rparr> else ?st\<lparr>df_recompute := True\<rparr>"])
          (use FetchSecondary True o3 m fc in \<open>simp_all add: register_deferral_def episode_ok_def Let_def chain_frame_def\<close>)
    next
      case False
      show ?thesis
        by (rule fin [where w = ?o2 and st = ?st]) (use FetchSecondary False good2 fc in \<open>simp_all add: register_deferral_def episode_ok_def Let_def\<close>)
    qed
  qed (use k in simp)
qed

lemma oc_allocate_ok:
  assumes good: "oc_good o1" and args: "kv_alloc_args q start stop cached (oc_gpu o1)"
    and d: "distinct (walk_keys q cached o1)" and safe: "chain_safe q cached o1"
  shows "\<exists>b o2. oc_allocate q start stop cached o1 = Inr (b, o2) \<and> oc_good o2 \<and> kv_frame (rq_id q) (oc_gpu o1) (oc_gpu o2)"
proof -
  have c: "\<forall>b \<in> set cached. b < kc_total (oc_gpu o1)" using args by (simp add: kv_alloc_args_def)
  have inv: "kv_inv (oc_gpu o1)" using good by (simp add: oc_good_def)
  have bs: "0 < kc_bs (oc_gpu o1)" using inv by (simp add: kv_inv_def kv_acct_def)
  obtain n prev where s: "resume_seed (rq_id q) cached (oc_gpu o1) = Inr (n, prev)" using resume_seed_total [OF inv c] by blast
  obtain b o2 where a: "allocate_through_chain q start stop cached o1 = Inr (b, o2)" "oc_good o2" "kv_frame (rq_id q) (oc_gpu o1) (oc_gpu o2)"
    using allocate_through_chain_ok [OF good args d safe] by blast
  show ?thesis
  proof (cases "kc_req (oc_gpu o1) (rq_id q) = None \<and> \<not> rq_decode_sub q")
    case False
    then have "oc_allocate q start stop cached o1 = allocate_through_chain q start stop cached o1" by (auto simp: oc_allocate_def)
    then show ?thesis using a by auto
  next
    case new: True
    show ?thesis
    proof (cases "map_of (oc_deferred o1) (rq_id q)")
      case (Some st)
      show ?thesis
      proof (cases "\<not> df_resolved st \<and> \<not> df_recompute st")
        case True
        then have "oc_allocate q start stop cached o1 = Inr (False, o1)" using new Some s by (simp add: oc_allocate_def)
        then show ?thesis using good by auto
      next
        case False
        then have "oc_allocate q start stop cached o1 = Inr (b, if b then o2\<lparr>oc_deferred := AList.delete (rq_id q) (oc_deferred o2)\<rparr> else o2)"
          using False new Some s a(1) by (auto simp: oc_allocate_def)
        then show ?thesis using a(2,3) oc_good_forget [OF a(2)] by auto
      qed
    next
      case None
      have "\<exists>fc. classify_fetch (full_input_tokens q) n prev o1 = Inr fc \<and> (fc_kind fc \<noteq> FetchNone \<longrightarrow> distinct (fc_run fc) \<and>
          (fc_kind fc = FetchSecondary \<longrightarrow> 0 \<le> fc_tier fc \<and> fc_tier fc < int (length (oc_secondary o1))))"
      proof (cases "oc_station o1 = None \<or> oc_secondary o1 = [] \<or> n \<ge> length (full_input_tokens q) div kc_bs (oc_gpu o1)")
        case True
        then have "classify_fetch (full_input_tokens q) n prev o1 = Inr \<lparr>fc_kind = FetchNone, fc_run = [], fc_tier = -1\<rparr>"
          by (auto simp: classify_fetch_def Let_def)
        then show ?thesis by simp
      next
        case False
        then obtain x where "oc_station o1 = Some x" "oc_secondary o1 \<noteq> []" "\<not> n \<ge> length (full_input_tokens q) div kc_bs (oc_gpu o1)" by auto
        then have "classify_fetch (full_input_tokens q) n prev o1 = Inr (classify_loop (walk_keys q cached o1) o1)"
          using s derive_keys [OF bs] by (simp add: classify_fetch_def walk_keys_def full_input_tokens_def Let_def)
        then show ?thesis using classify_loop_run [OF d] by auto
      qed
      then obtain fc where fc: "classify_fetch (full_input_tokens q) n prev o1 = Inr fc" "fc_kind fc \<noteq> FetchNone \<longrightarrow> distinct (fc_run fc) \<and>
          (fc_kind fc = FetchSecondary \<longrightarrow> 0 \<le> fc_tier fc \<and> fc_tier fc < int (length (oc_secondary o1)))" by blast
      show ?thesis
      proof (cases "fc_kind fc = FetchNone")
        case True
        then have "oc_allocate q start stop cached o1 = allocate_through_chain q start stop cached o1"
          using new None s fc(1) by (simp add: oc_allocate_def)
        then show ?thesis using a by auto
      next
        case False
        obtain o3 where o3: "register_deferral (rq_id q) fc o1 = Inr o3" "oc_good o3" "oc_gpu o3 = oc_gpu o1"
          using register_deferral_ok [OF good _ _ False] fc(2) False by blast
        then have "oc_allocate q start stop cached o1 = Inr (False, o3)" using new None s fc(1) False by (simp add: oc_allocate_def)
        then show ?thesis using o3 by auto
      qed
    qed
  qed
qed

section \<open>Rounds\<close>

lemma awaited_loop_miss: "awaited_loop ks b c = CpuMiss \<longleftrightarrow> (\<exists>k \<in> set ks. ct_lookup k c = CpuMiss)"
  by (induction ks arbitrary: b) (auto split: cpu_lookup.splits)

lemma awaited_loop_pending:
  "awaited_loop ks b c = CpuHitPending \<Longrightarrow> (\<exists>k \<in> set ks. ct_lookup k c = CpuHitPending) \<or> \<not> b"
  by (induction ks arbitrary: b) (auto split: cpu_lookup.splits if_splits)

lemma awaited_state_pending: "awaited_state ks o1 = CpuHitPending \<Longrightarrow> \<exists>k \<in> set ks. rcs (oc_cpu o1) k = Some (-1)"
  using awaited_loop_pending [of ks True "oc_cpu o1"] by (auto simp: awaited_state_def ct_lookup_iff)

text \<open>After a round a pending episode has left the first phase.\<close>

lemma poll_episode_ok:
  assumes good: "oc_good o1" and e: "episode_ok (length (oc_secondary o1)) st" and p: "\<not> df_resolved st" "\<not> df_recompute st"
  shows "\<exists>st1 o2. poll_episode st o1 = Inr (st1, o2) \<and> oc_good o2 \<and> chain_frame o1 o2 \<and> episode_ok (length (oc_secondary o1)) st1 \<and>
    (\<not> df_resolved st1 \<and> \<not> df_recompute st1 \<longrightarrow> df_phase st1 = DeferPromoting)"
proof (cases "df_phase st")
  case DeferPromoting
  then show ?thesis
    using good e p by (cases "awaited_state (df_keys st) o1") (auto simp: poll_episode_def episode_ok_def)
next
  case DeferRetry
  let ?m = "mark_known (df_keys st) o1"
  have m: "oc_good ?m" "chain_frame o1 ?m" "length (oc_secondary ?m) = length (oc_secondary o1)"
    using oc_good_steps(1) [OF good] by (simp_all add: mark_known_def chain_frame_def)
  show ?thesis
  proof (cases "awaited_state (df_keys st) ?m = CpuMiss")
    case True
    have "distinct (df_keys st)" "nat (df_tier st) < length (oc_secondary ?m)" using e p DeferRetry m(3) by (auto simp: episode_ok_def)
    from fire_promotion_good [OF m(1) this] obtain b o2 where
      o2: "fire_promotion (df_keys st) (nat (df_tier st)) ?m = Inr (b, o2)" "oc_good o2" "chain_frame ?m o2" by blast
    then have "poll_episode st o1 = Inr (if b then st\<lparr>df_phase := DeferPromoting, df_has_job := True\<rparr> else st\<lparr>df_recompute := True\<rparr>, o2)"
      using DeferRetry True by (simp add: poll_episode_def Let_def)
    then show ?thesis using o2 chain_frame_trans [OF m(2) o2(3)] e p by (auto simp: episode_ok_def)
  next
    case False
    then show ?thesis
      using DeferRetry m e by (cases "awaited_state (df_keys st) ?m") (auto simp: poll_episode_def Let_def episode_ok_def)
  qed
qed

text \<open>What a round leaves: the ids it answers are those still pending, all of them awaiting a promotion.\<close>

definition round_done :: "rid list \<Rightarrow> rid list \<Rightarrow> offload \<Rightarrow> offload \<Rightarrow> bool" where
  "round_done rs still o1 o2 \<longleftrightarrow> oc_good o2 \<and> oc_gpu o2 = oc_gpu o1 \<and> dom (map_of (oc_deferred o2)) = dom (map_of (oc_deferred o1)) \<and>
    (\<forall>r st. map_of (oc_deferred o2) r = Some st \<longrightarrow>
       (r \<in> set still \<longrightarrow> \<not> df_resolved st \<and> \<not> df_recompute st) \<and>
       (r \<notin> set rs \<longrightarrow> map_of (oc_deferred o1) r = Some st) \<and>
       (r \<in> set rs \<and> \<not> df_resolved st \<and> \<not> df_recompute st \<longrightarrow> r \<in> set still \<and> df_phase st = DeferPromoting)) \<and>
    set still \<subseteq> set rs"

lemma round_doneD:
  assumes "round_done rs still o1 o2"
  shows "oc_good o2" "oc_gpu o2 = oc_gpu o1" "dom (map_of (oc_deferred o2)) = dom (map_of (oc_deferred o1))" "set still \<subseteq> set rs"
    "map_of (oc_deferred o2) r = Some st \<Longrightarrow> r \<in> set still \<Longrightarrow> \<not> df_resolved st \<and> \<not> df_recompute st"
    "map_of (oc_deferred o2) r = Some st \<Longrightarrow> r \<notin> set rs \<Longrightarrow> map_of (oc_deferred o1) r = Some st"
    "map_of (oc_deferred o2) r = Some st \<Longrightarrow> r \<in> set rs \<Longrightarrow> \<not> df_resolved st \<Longrightarrow> \<not> df_recompute st \<Longrightarrow> r \<in> set still \<and> df_phase st = DeferPromoting"
  using assms unfolding round_done_def by blast+

lemma poll_loop_ok:
  assumes "oc_good o1" "\<forall>r \<in> set rs. map_of (oc_deferred o1) r \<noteq> None" "distinct rs"
  shows "\<exists>still o2. poll_loop rs now o1 = Inr (still, o2) \<and> round_done rs still o1 o2"
  using assms
proof (induction rs arbitrary: o1)
  case Nil
  then show ?case by (simp add: round_done_def)
next
  case (Cons r rs)
  obtain st where st: "map_of (oc_deferred o1) r = Some st" using Cons.prems(2) by fastforce
  have r: "r \<notin> set rs" "distinct rs" using Cons.prems(3) by simp_all
  show ?case
  proof (cases "df_resolved st \<or> df_recompute st")
    case True
    then have eq: "poll_loop (r # rs) now o1 = poll_loop rs now o1" using st by simp
    have "\<forall>x \<in> set rs. map_of (oc_deferred o1) x \<noteq> None" using Cons.prems(2) by simp
    from Cons.IH [OF Cons.prems(1) this r(2)] obtain still o2 where p: "poll_loop rs now o1 = Inr (still, o2)" "round_done rs still o1 o2" by blast
    note D = round_doneD [OF p(2)]
    have "round_done (r # rs) still o1 o2"
      unfolding round_done_def
    proof (intro conjI allI impI)
      fix x y assume xy: "map_of (oc_deferred o2) x = Some y"
      have top: "x = r \<Longrightarrow> y = st" using D(6) [OF xy] r(1) st by simp
      show "\<not> df_resolved y" "\<not> df_recompute y" if "x \<in> set still" using D(5) [OF xy that] by blast+
      show "map_of (oc_deferred o1) x = Some y" if "x \<notin> set (r # rs)" using D(6) [OF xy] that by simp
      show "x \<in> set still" "df_phase y = DeferPromoting" if "x \<in> set (r # rs) \<and> \<not> df_resolved y \<and> \<not> df_recompute y"
        using D(7) [OF xy] top that True by auto
    qed (use D(1-4) in auto)
    then show ?thesis using eq p(1) by auto
  next
    case False
    have core: "oc_core o1" using Cons.prems(1) by (simp add: oc_good_def oc_ok_def)
    note C = oc_coreD [OF core]
    obtain st1 o2 where e: "poll_episode st o1 = Inr (st1, o2)" "oc_good o2" "chain_frame o1 o2" "episode_ok (length (oc_secondary o1)) st1"
        "\<not> df_resolved st1 \<and> \<not> df_recompute st1 \<longrightarrow> df_phase st1 = DeferPromoting"
      using poll_episode_ok [OF Cons.prems(1) C(8) [OF st]] False by auto
    define pending late st2 where "pending = (\<not> df_resolved st1 \<and> \<not> df_recompute st1)" and "late = (now - df_start st1 > max_defer_ticks)"
      and "st2 = (if pending \<and> late then st1\<lparr>df_recompute := True\<rparr> else st1)"
    let ?o3 = "o2\<lparr>oc_deferred := AList.update r st2 (oc_deferred o2)\<rparr>"
    have "episode_ok (length (oc_secondary o2)) st2" using e(3,4) by (simp add: st2_def episode_ok_def chain_frame_def)
    then have good3: "oc_good ?o3" by (rule oc_good_deferred [OF e(2)])
    have d3: "map_of (oc_deferred ?o3) = (map_of (oc_deferred o1))(r \<mapsto> st2)" using e(3) by (simp add: chain_frame_def)
    have "\<forall>x \<in> set rs. map_of (oc_deferred ?o3) x \<noteq> None" using Cons.prems(2) unfolding d3 by auto
    from Cons.IH [OF good3 this r(2)] obtain still o4 where p: "poll_loop rs now ?o3 = Inr (still, o4)" "round_done rs still ?o3 o4" by blast
    note D = round_doneD [OF p(2), unfolded d3]
    let ?still = "if pending \<and> \<not> late then r # still else still"
    have eq: "poll_loop (r # rs) now o1 = Inr (?still, o4)"
      using st False e(1) p(1) unfolding pending_def late_def st2_def by (simp add: Let_def split del: if_split)
    have pd: "(\<not> df_resolved st2 \<and> \<not> df_recompute st2) \<longleftrightarrow> pending \<and> \<not> late" by (auto simp: st2_def pending_def)
    have ph: "pending \<longrightarrow> df_phase st2 = DeferPromoting" using e(5) by (simp add: pending_def st2_def)
    have "round_done (r # rs) ?still o1 o4"
      unfolding round_done_def
    proof (intro conjI allI impI)
      fix x y assume xy: "map_of (oc_deferred o4) x = Some y"
      have top: "x = r \<Longrightarrow> y = st2" using D(6) [OF xy] r(1) by simp
      have nr: "x \<in> set still \<Longrightarrow> x \<noteq> r" using D(4) r(1) by blast
      show "\<not> df_resolved y" "\<not> df_recompute y" if "x \<in> set ?still" using D(5) [OF xy] top pd that by (auto split: if_splits)
      show "map_of (oc_deferred o1) x = Some y" if "x \<notin> set (r # rs)" using D(6) [OF xy] that by simp
      show "x \<in> set ?still" "df_phase y = DeferPromoting" if "x \<in> set (r # rs) \<and> \<not> df_resolved y \<and> \<not> df_recompute y"
        using D(7) [OF xy] top pd ph that by (auto split: if_splits)
    next
      show "dom (map_of (oc_deferred o4)) = dom (map_of (oc_deferred o1))" using D(3) st by auto
      show "oc_gpu o4 = oc_gpu o1" using D(2) e(3) by (simp add: chain_frame_def)
      show "set ?still \<subseteq> set (r # rs)" using D(4) by auto
    qed (rule D(1))
    then show ?thesis using eq by blast
  qed
qed

lemma poll_deferred_ok:
  assumes "oc_good o1"
  shows "\<exists>still o2. poll_deferred now o1 = Inr (still, o2) \<and> oc_good o2 \<and> oc_gpu o2 = oc_gpu o1 \<and>
    (\<forall>r. r \<in> set still \<longleftrightarrow> oc_is_deferred r o2) \<and>
    (\<forall>r st. map_of (oc_deferred o2) r = Some st \<and> \<not> df_resolved st \<and> \<not> df_recompute st \<longrightarrow> df_phase st = DeferPromoting)"
proof -
  let ?o2 = "o1\<lparr>oc_clock := now\<rparr>" and ?rs = "sort (gm_keys (oc_deferred o1))"
  have good: "oc_good ?o2" by (rule oc_good_steps(3) [OF assms])
  show ?thesis
  proof (cases "oc_deferred o1 = []")
    case True
    then show ?thesis using good by (auto simp: poll_deferred_def oc_is_deferred_def)
  next
    case False
    have "oc_core o1" using assms by (simp add: oc_good_def oc_ok_def)
    then have d: "distinct ?rs" using oc_coreD(7) by simp
    have "\<forall>r \<in> set ?rs. map_of (oc_deferred ?o2) r \<noteq> None" by (auto simp: map_of_eq_None_iff image_iff)
    from poll_loop_ok [OF good this d] obtain still o3 where p: "poll_loop ?rs now ?o2 = Inr (still, o3)" "round_done ?rs still ?o2 o3" by blast
    note D = round_doneD [OF p(2)]
    have keys: "set ?rs = dom (map_of (oc_deferred o3))" unfolding D(3) set_sort gm_keys_set by simp
    have "r \<in> set still \<longleftrightarrow> oc_is_deferred r o3" for r
    proof (cases "map_of (oc_deferred o3) r")
      case None
      then have "r \<notin> set still" using D(4) keys by auto
      then show ?thesis using None by (simp add: oc_is_deferred_def)
    next
      case (Some st)
      then have "r \<in> set ?rs" unfolding keys by blast
      then show ?thesis using D(5,7) [OF Some] Some by (auto simp: oc_is_deferred_def)
    qed
    moreover have "df_phase st = DeferPromoting" if "map_of (oc_deferred o3) r = Some st" "\<not> df_resolved st" "\<not> df_recompute st" for r st
      using D(7) [OF that(1) _ that(2,3)] that(1) unfolding keys by blast
    moreover have "poll_deferred now o1 = Inr (still, o3)" using False p(1) by (simp add: poll_deferred_def)
    ultimately show ?thesis using D(1,2) by auto
  qed
qed

end
