(* ===== verification/Offload_Properties.thy ===== *)
theory Offload_Properties
  imports Offload_Ops KV_Properties
begin

text \<open>
  What the offload chain promises over every run: its accounting between CPU tier and transfer
  station, error-free operations, and the end of every transfer and every deferral.
\<close>

section \<open>Mirror, release, construction\<close>

lemma cascade_loop_ok:
  "oc_ok o1 \<Longrightarrow> \<forall>t \<in> set ts. t < length (oc_secondary o1) \<Longrightarrow> rcs (oc_cpu o1) k = Some rc \<Longrightarrow> 0 \<le> rc \<Longrightarrow>
   \<exists>o2. cascade_loop ts k o1 = Inr o2 \<and> oc_ok o2 \<and> chain_frame o1 o2"
proof (induction ts arbitrary: o1 rc)
  case (Cons tier ts)
  have core: "oc_core o1" and dom: "dom (oc_inflight o1) = held_ids o1" using Cons.prems(1) by (simp_all add: oc_ok_def)
  note C = oc_coreD [OF core]
  have t: "tier < length (oc_secondary o1)" using Cons.prems(2) by simp
  obtain st where st: "oc_station o1 = Some st" using C(5) t by (cases "oc_station o1") auto
  let ?o2 = "o1\<lparr>oc_cpu := ct_pin k (oc_cpu o1)\<rparr>" and ?id = "st_next st + 1" and ?ref = "\<lparr>jr_keys = [k], jr_tier = tier, jr_dir = WriteDir\<rparr>"
  have st2: "oc_station ?o2 = Some st" using st by simp
  have "0 \<le> oc_block_bytes o1" using C(3) by simp
  obtain st' d where s: "submit_transfer tier WriteDir (oc_block_bytes o1) ?o2 = Inr ((?id, True), ?o2\<lparr>oc_draws := d, oc_station := Some st'\<rparr>)"
      "st_good (length (oc_secondary o1)) st'" "station_ids st' = add_mset ?id (station_ids st)" "?id \<notin># station_ids st"
    by (rule submit_transfer_ok [OF st2 C(6) [OF st] t \<open>0 \<le> oc_block_bytes o1\<close>, of WriteDir])
  let ?o3 = "?o2\<lparr>oc_draws := d, oc_station := Some st', oc_inflight := (oc_inflight o1)(?id \<mapsto> ?ref)\<rparr>"
  have none: "oc_inflight o1 ?id = None" using dom s(4) st by (auto simp: held_ids_def)
  have "refs_agree ((oc_inflight o1)(?id \<mapsto> ?ref)) (ct_pin k (oc_cpu o1))"
    by (rule refs_agree_pin [OF C(2) none Cons.prems(3,4)]) simp_all
  then have "oc_core ?o3"
    by (intro oc_core_change [OF core]) (use s(2) t ct_fine_steps(3) [OF C(1)] in \<open>auto simp: ref_ok_def split: if_splits\<close>)
  moreover have "dom (oc_inflight ?o3) = held_ids ?o3" using dom st s(3) by (simp add: held_ids_def)
  ultimately have ok3: "oc_ok ?o3" by (simp add: oc_ok_def)
  have f: "chain_frame o1 ?o3" using st by (simp add: chain_frame_def)
  have p: "rcs (oc_cpu ?o3) k = Some (rc + 1)" "0 \<le> rc + 1" using Cons.prems(3,4) by (simp_all add: ct_pin_rcs)
  have "\<forall>t \<in> set ts. t < length (oc_secondary ?o3)" using Cons.prems(2) by simp
  from Cons.IH [OF ok3 this p] obtain o4 where o4: "cascade_loop ts k ?o3 = Inr o4" "oc_ok o4" "chain_frame ?o3 o4" by blast
  have "cascade_loop (tier # ts) k o1 = Inr o4" using s(1) o4(1) by simp
  then show ?case using o4(2) chain_frame_trans [OF f o4(3)] by blast
qed simp

lemma oc_mirror_block_ok:
  assumes good: "oc_good o1" and b: "b < kc_total (oc_gpu o1)"
  shows "\<exists>o2. oc_mirror_block b o1 = Inr o2 \<and> oc_good o2 \<and> chain_frame o1 o2"
proof -
  have ok: "oc_ok o1" and inv: "kv_inv (oc_gpu o1)" using good by (simp_all add: oc_good_def)
  have core: "oc_core o1" using ok by (simp add: oc_ok_def)
  note C = oc_coreD [OF core]
  let ?k = "kb_hash (blk (oc_gpu o1) b)"
  have at: "kv_block_at (oc_gpu o1) b = Inr (blk (oc_gpu o1) b)" using b inv by (simp add: kv_block_at_def kv_inv_def kv_acct_def)
  have fin: ?thesis if "oc_mirror_block b o1 = Inr o2" "oc_ok o2" "chain_frame o1 o2" for o2
    using that inv by (auto simp: oc_good_def chain_frame_def)
  consider "?k = '''' \<or> length (kb_tokens (blk (oc_gpu o1) b)) < kc_bs (oc_gpu o1)"
    | "\<not> (?k = '''' \<or> length (kb_tokens (blk (oc_gpu o1) b)) < kc_bs (oc_gpu o1))" "ct_lookup ?k (oc_cpu o1) \<noteq> CpuMiss"
    | "\<not> (?k = '''' \<or> length (kb_tokens (blk (oc_gpu o1) b)) < kc_bs (oc_gpu o1))" "ct_lookup ?k (oc_cpu o1) = CpuMiss" by blast
  then show ?thesis
  proof cases
    case 1
    then show ?thesis using fin [of o1] at ok by (simp add: oc_mirror_block_def)
  next
    case 2
    have "refs_agree (oc_inflight o1) (ct_touch_key ?k (oc_cpu o1))" using C(2) by (rule refs_agree_same) simp
    then have "oc_ok (o1\<lparr>oc_cpu := ct_touch_key ?k (oc_cpu o1)\<rparr>)" by (rule oc_ok_cpu [OF ok ct_fine_steps(1) [OF C(1)]])
    then show ?thesis using fin 2 at by (simp add: oc_mirror_block_def chain_frame_def)
  next
    case 3
    obtain stored cpu where s: "ct_store ?k (oc_cpu o1) = (stored, cpu)" by fastforce
    have ok2: "oc_ok (o1\<lparr>oc_cpu := cpu\<rparr>)"
      by (rule oc_ok_cpu [OF ok ct_fine_steps(5) [OF C(1) s] refs_agree_store [OF C(2,1) s]])
    show ?thesis
    proof (cases stored)
      case False
      have "oc_ok (o1\<lparr>oc_cpu := cpu, oc_skipped := oc_skipped o1 + 1\<rparr>)" by (rule oc_ok_counters(5) [OF ok2])
      then show ?thesis using fin 3 at s False by (simp add: oc_mirror_block_def chain_frame_def)
    next
      case True
      have m: "oc_mirror_block b o1 = cascade ?k (o1\<lparr>oc_cpu := cpu\<rparr>)" using 3 at s True by (simp add: oc_mirror_block_def)
      show ?thesis
      proof (cases "oc_station o1 = None")
        case True
        then show ?thesis using fin [of "o1\<lparr>oc_cpu := cpu\<rparr>"] m ok2 by (simp add: cascade_def chain_frame_def)
      next
        case False
        have "rcs (oc_cpu (o1\<lparr>oc_cpu := cpu\<rparr>)) ?k = Some 0" using ct_store_from(2) [OF s] True 3(2) by (simp add: ct_lookup_iff)
        from cascade_loop_ok [OF ok2 _ this order_refl, of "[0..<length (oc_secondary o1)]"] obtain o2 where
          o2: "cascade_loop [0..<length (oc_secondary o1)] ?k (o1\<lparr>oc_cpu := cpu\<rparr>) = Inr o2" "oc_ok o2" "chain_frame (o1\<lparr>oc_cpu := cpu\<rparr>) o2" by auto
        have "chain_frame o1 o2" using o2(3) by (simp add: chain_frame_def)
        then show ?thesis using fin m False o2(1,2) by (simp add: cascade_def)
      qed
    qed
  qed
qed

lemma oc_mirror_blocks_ok:
  "oc_good o1 \<Longrightarrow> \<forall>b \<in> set bs. b < kc_total (oc_gpu o1) \<Longrightarrow> \<exists>o2. oc_mirror_blocks bs o1 = Inr o2 \<and> oc_good o2 \<and> chain_frame o1 o2"
proof (induction bs arbitrary: o1)
  case (Cons b bs)
  obtain o2 where o2: "oc_mirror_block b o1 = Inr o2" "oc_good o2" "chain_frame o1 o2"
    using oc_mirror_block_ok [OF Cons.prems(1), of b] Cons.prems(2) by auto
  have "\<forall>b \<in> set bs. b < kc_total (oc_gpu o2)" using Cons.prems(2) o2(3) by (simp add: chain_frame_def)
  from Cons.IH [OF o2(2) this] show ?case using o2(1) chain_frame_trans [OF o2(3)] by auto
qed simp

lemma oc_mirror_ok: "oc_good o1 \<Longrightarrow> \<exists>o2. oc_mirror qs o1 = Inr o2 \<and> oc_good o2 \<and> chain_frame o1 o2"
proof (induction qs arbitrary: o1)
  case (Cons q qs)
  show ?case
  proof (cases "kc_req (oc_gpu o1) (rq_id q)")
    case None
    then show ?thesis using Cons.IH [OF Cons.prems] by simp
  next
    case (Some ids)
    have "\<forall>b \<in> set ids. b < kc_total (oc_gpu o1)" using Some Cons.prems by (auto simp: oc_good_def kv_inv_def kv_acct_def)
    then have "\<forall>b \<in> set (take (nat (max_offload_blocks q ids o1)) ids). b < kc_total (oc_gpu o1)" by (meson in_set_takeD)
    from oc_mirror_blocks_ok [OF Cons.prems this] obtain o2 where
      o2: "oc_mirror_blocks (take (nat (max_offload_blocks q ids o1)) ids) o1 = Inr o2" "oc_good o2" "chain_frame o1 o2" by blast
    then show ?thesis using Cons.IH [OF o2(2)] Some chain_frame_trans [OF o2(3)] by auto
  qed
qed simp

lemma oc_release_ok:
  assumes "oc_good o1"
  shows "\<exists>o2. oc_release r o1 = Inr o2 \<and> oc_good o2"
proof -
  obtain g where "release_kv_blocks r (oc_gpu o1) = Inr g" "kv_inv g" using release_ok [of "oc_gpu o1" r] assms by (auto simp: oc_good_def)
  then show ?thesis using oc_good_gpu [OF assms] by (auto simp: oc_release_def)
qed

lemma new_offload_ok:
  assumes g: "kv_inv g" and n: "new_offload g c rng = Inr o1" and t: "\<forall>x \<in> set (of_tiers c). tier_cfg_ok (station_tier x)"
  shows "oc_good o1"
proof -
  obtain cpu st where s: "new_cpu_tier (of_cpu_bytes c sdiv of_block_bytes c) = Inr cpu" "0 < of_block_bytes c"
      "oc_cpu o1 = cpu" "oc_station o1 = st" "oc_gpu o1 = g" "oc_secondary o1 = map (\<lambda>_. new_secondary_tier) (of_tiers c)" "oc_inflight o1 = Map.empty"
      "oc_deferred o1 = []" "oc_block_bytes o1 = of_block_bytes c"
      "if of_tiers c = [] then st = None else \<exists>s. new_station (map station_tier (of_tiers c)) = Inr s \<and> st = Some s"
    using n unfolding new_offload_def
    by (auto simp: Let_def obind_Inr_iff split: if_splits sum.splits)
  have cpu: "ct_fine cpu" "ct_blocks cpu = []"
    using ct_inv_new [OF s(1)] s(1) by (auto simp: ct_fine_def new_cpu_tier_def split: if_splits)
  have "refs_agree Map.empty cpu" using cpu(2) by (simp add: refs_agree_def)
  have good: "st_good (length (of_tiers c)) x" "station_ids x = {#}" if "st = Some x" for x
  proof -
    have x: "new_station (map station_tier (of_tiers c)) = Inr x" using s(10) that by (auto split: if_splits)
    have "\<forall>k \<in> set (map station_tier (of_tiers c)). tier_cfg_ok k" using t by simp
    note N = new_station_ok [OF x this]
    have "map ts_cfg (st_tiers x) = map station_tier (of_tiers c)"
    proof -
      have "new_tiers cs = Inr ts \<Longrightarrow> map ts_cfg ts = cs" for cs ts
        by (induction cs arbitrary: ts) (auto split: option.splits sum.splits)
      then show ?thesis using x by (auto simp: new_station_def split: if_splits sum.splits)
    qed
    then have m: "map ts_cfg (st_tiers x) = map station_tier (of_tiers c)" "length (st_tiers x) = length (of_tiers c)" by (simp, metis length_map)
    show "station_ids x = {#}" by (rule N(2))
    have "\<forall>k \<in> set (map ts_cfg (st_tiers x)). tc_max_depth k = 0" unfolding m(1) by (auto simp: station_tier_def)
    then show "st_good (length (of_tiers c)) x" using N(1,2) m(2) by (simp add: st_good_def)
  qed
  have "oc_core o1"
  proof (rule oc_coreI)
    show "ct_fine (oc_cpu o1)" "refs_agree (oc_inflight o1) (oc_cpu o1)" using cpu \<open>refs_agree Map.empty cpu\<close> s(3,7) by simp_all
    show "oc_station o1 = None \<Longrightarrow> oc_secondary o1 = []" using s(4,6,10) by (auto split: if_splits)
    show "st_good (length (oc_secondary o1)) x" if "oc_station o1 = Some x" for x using good(1) that s(4,6) by simp
  qed (use s in auto)
  moreover have "held_ids o1 = {}" using s(4) good(2) by (cases st) (auto simp: held_ids_def)
  ultimately show ?thesis using g s(5,7) by (simp add: oc_good_def oc_ok_def)
qed

section \<open>Runs\<close>

text \<open>A latency backend that prices a tier's transfers must charge at least one tick (the station panics otherwise).\<close>

definition prices_ok :: "offload_config \<Rightarrow> bool" where
  "prices_ok c \<longleftrightarrow> (\<forall>t \<in> set (of_tiers c). \<forall>f w b q. ot_service t = Some f \<longrightarrow> 0 \<le> b \<longrightarrow> 1 \<le> q \<longrightarrow> 1 \<le> f w b q)"

inductive oc_run :: "offload \<Rightarrow> bool" where
  run_new: "new_kv_cache n k = Inr g \<Longrightarrow> prices_ok c \<Longrightarrow> new_offload g c rng = Inr s \<Longrightarrow> oc_run s"
| run_allocate: "oc_run s \<Longrightarrow> kv_alloc_args q start stop cached (oc_gpu s) \<Longrightarrow> distinct (walk_keys q cached s) \<Longrightarrow> chain_safe q cached s \<Longrightarrow>
    oc_allocate q start stop cached s = Inr (b, s') \<Longrightarrow> oc_run s'"
| run_release: "oc_run s \<Longrightarrow> oc_release r s = Inr s' \<Longrightarrow> oc_run s'"
| run_mirror: "oc_run s \<Longrightarrow> oc_mirror qs s = Inr s' \<Longrightarrow> oc_run s'"
| run_clock: "oc_run s \<Longrightarrow> oc_set_clock now s = Inr s' \<Longrightarrow> oc_run s'"
| run_poll: "oc_run s \<Longrightarrow> poll_deferred now s = Inr (still, s') \<Longrightarrow> oc_run s'"
| run_clear: "oc_run s \<Longrightarrow> oc_run (oc_clear_deferred r s)"

lemma new_tiers_valid: "new_tiers cs = Inr ts \<Longrightarrow> \<forall>c \<in> set cs. validate_tier c = None"
  by (induction cs arbitrary: ts) (auto split: option.splits sum.splits)

lemma new_offload_cfg:
  assumes "prices_ok c" "new_offload g c rng = Inr s"
  shows "\<forall>x \<in> set (of_tiers c). tier_cfg_ok (station_tier x)"
proof (cases "of_tiers c = []")
  case False
  then obtain st where "new_station (map station_tier (of_tiers c)) = Inr st"
    using assms(2) unfolding new_offload_def by (auto simp: Let_def obind_Inr_iff split: if_splits sum.splits)
  then obtain ts where "new_tiers (map station_tier (of_tiers c)) = Inr ts" by (auto simp: new_station_def split: if_splits sum.splits)
  then have v: "\<forall>x \<in> set (of_tiers c). validate_tier (station_tier x) = None" using new_tiers_valid by fastforce
  show ?thesis
  proof
    fix x assume x: "x \<in> set (of_tiers c)"
    have "1 \<le> f d b q" if f: "tc_service (station_tier x) = Some f" and p: "0 \<le> b" "1 \<le> q" for f d b q
    proof -
      obtain g where "ot_service x = Some g" "f = (\<lambda>dir bytes q. g (dir = WriteDir) bytes q)" using f by (auto simp: station_tier_def)
      then show ?thesis using assms(1) x p unfolding prices_ok_def by blast
    qed
    then show "tier_cfg_ok (station_tier x)" using v x unfolding tier_cfg_ok_def by blast
  qed
qed simp

lemma oc_set_clock_good:
  assumes "oc_good s"
  shows "\<exists>s'. oc_set_clock now s = Inr s' \<and> oc_good s' \<and> chain_frame (s\<lparr>oc_clock := now\<rparr>) s'"
proof -
  have "oc_ok s" using assms by (simp add: oc_good_def)
  from oc_set_clock_ok [OF this, of now] obtain s' where "oc_set_clock now s = Inr s'" "oc_ok s'" "chain_frame (s\<lparr>oc_clock := now\<rparr>) s'" by metis
  then show ?thesis using assms by (auto simp: oc_good_def chain_frame_def)
qed

lemma oc_run_good: "oc_run s \<Longrightarrow> oc_good s"
proof (induction rule: oc_run.induct)
  case (run_new n k g c rng s)
  have "kv_inv g" using new_kv_cache_ok [OF run_new(1)] by simp
  then show ?case using new_offload_ok run_new(3) new_offload_cfg [OF run_new(2,3)] by blast
next
  case (run_allocate s q start stop cached b s')
  then show ?case using oc_allocate_ok [OF run_allocate.IH run_allocate.hyps(2-4)] by auto
next
  case (run_release s r s')
  then show ?case using oc_release_ok [OF run_release.IH, of r] by auto
next
  case (run_mirror s qs s')
  then show ?case using oc_mirror_ok [OF run_mirror.IH, of qs] by auto
next
  case (run_clock s now s')
  then show ?case using oc_set_clock_good [OF run_clock.IH, of now] by auto
next
  case (run_poll s now still s')
  then show ?case using poll_deferred_ok [OF run_poll.IH, of now] by auto
next
  case (run_clear s r)
  then show ?case using oc_good_steps(4) by blast
qed

section \<open>Draining\<close>

lemma oc_set_clock_drains:
  assumes good: "oc_good s"
  shows "\<exists>t. \<forall>t' \<ge> t. \<exists>s'. oc_set_clock t' s = Inr s' \<and> oc_good s' \<and> oc_deferred s' = oc_deferred s \<and> oc_inflight s' = Map.empty"
proof (cases "oc_station s")
  case None
  have "dom (oc_inflight s) = {}" using good None by (simp add: oc_good_def oc_ok_def held_ids_def)
  then have "oc_inflight s = Map.empty" by simp
  moreover have "oc_set_clock t s = Inr (s\<lparr>oc_clock := t\<rparr>)" for t using None by (simp add: oc_set_clock_def)
  ultimately show ?thesis using oc_good_steps(3) [OF good] by simp
next
  case (Some st)
  have "oc_core s" using good by (simp add: oc_good_def oc_ok_def)
  then have "st_good (length (oc_secondary s)) st" using oc_coreD(6) Some by blast
  then have "station_ok st" by (simp add: st_good_def)
  from poll_drains [OF this] obtain t where t: "\<And>t'. t \<le> t' \<Longrightarrow> \<exists>xs st'. poll t' st = Inr (xs, st') \<and> station_ids st' = {#}" by blast
  have "\<exists>s'. oc_set_clock t' s = Inr s' \<and> oc_good s' \<and> oc_deferred s' = oc_deferred s \<and> oc_inflight s' = Map.empty" if le: "t \<le> t'" for t'
  proof -
    obtain xs st' where p: "poll t' st = Inr (xs, st')" "station_ids st' = {#}" using t [OF le] by blast
    obtain s' where s': "oc_set_clock t' s = Inr s'" "oc_good s'" "chain_frame (s\<lparr>oc_clock := t'\<rparr>) s'" using oc_set_clock_good [OF good] by blast
    have a: "apply_completions xs (s\<lparr>oc_clock := t', oc_station := Some st'\<rparr>) = Inr s'" using s'(1) Some p(1) by (simp add: oc_set_clock_def)
    have "oc_station s2 = oc_station s1" if "apply_completions is s1 = Inr s2" for "is" s1 s2
      using that
    proof (induction "is" arbitrary: s1)
      case (Cons i "is")
      then obtain s3 where s3: "apply_completion i s1 = Inr s3" "apply_completions is s3 = Inr s2" by (auto simp: obind_Inr_iff)
      then have "oc_station s3 = oc_station s1" by (auto simp: apply_completion_def Let_def split: option.splits direction.splits if_splits)
      then show ?case using Cons.IH [OF s3(2)] by simp
    qed simp
    from this [OF a] have "oc_station s' = Some st'" by simp
    then have "dom (oc_inflight s') = {}" using s'(2) p(2) by (simp add: oc_good_def oc_ok_def held_ids_def)
    then show ?thesis using s' by (simp add: chain_frame_def)
  qed
  then show ?thesis by blast
qed

lemma drained_cpu:
  assumes "oc_good s" "oc_inflight s = Map.empty"
  shows "rcs (oc_cpu s) k = None \<or> rcs (oc_cpu s) k = Some 0" "ct_evictable (oc_cpu s) = ct_used (oc_cpu s)"
proof -
  have core: "oc_core s" using assms(1) by (simp add: oc_good_def oc_ok_def)
  note C = oc_coreD [OF core]
  obtain xs where xs: "ct_inv (oc_cpu s) xs" using C(1) by (auto simp: ct_fine_def)
  have z: "rcs (oc_cpu s) k = None \<or> rcs (oc_cpu s) k = Some 0" for k
  proof (cases "rcs (oc_cpu s) k")
    case (Some rc)
    have "rc \<noteq> -1" using refs_agreeD(2) [OF C(2), of k] Some assms(2) by (auto simp: fetching_def)
    moreover have "max 0 rc = 0" using refs_agreeD(3) [OF C(2), of k] Some assms(2) by simp
    moreover have "-1 \<le> rc" using ct_invD(8) [OF xs Some] .
    ultimately show ?thesis using Some by auto
  qed simp
  then show "rcs (oc_cpu s) k = None \<or> rcs (oc_cpu s) k = Some 0" .
  have d: "distinct (gm_keys (ct_blocks (oc_cpu s)))" by (rule ct_invD(3) [OF xs])
  have "rc = 0" if "(k, rc) \<in> set (ct_blocks (oc_cpu s))" for k rc
    using z [of k] map_of_is_SomeI [OF d that] by simp
  then have "filter (\<lambda>(_, rc). rc = 0) (ct_blocks (oc_cpu s)) = ct_blocks (oc_cpu s)" by (auto intro: filter_True)
  then show "ct_evictable (oc_cpu s) = ct_used (oc_cpu s)"
    using ct_scan_eq [OF xs] ct_invD(5) [OF xs] by (simp add: ct_scan_evictable_def gm_len_def)
qed

text \<open>A round over episodes that only wait for promotions, when none is in flight.\<close>

lemma poll_loop_idle:
  assumes "poll_loop rs now s = Inr (still, s')" "\<And>k. rcs (oc_cpu s) k \<noteq> Some (-1)"
    "\<forall>r st. map_of (oc_deferred s) r = Some st \<and> \<not> df_resolved st \<and> \<not> df_recompute st \<longrightarrow> df_phase st = DeferPromoting"
  shows "still = []"
  using assms
proof (induction rs arbitrary: s still s')
  case (Cons r rs)
  obtain st where st: "map_of (oc_deferred s) r = Some st" using Cons.prems(1) by (auto split: option.splits)
  show ?case
  proof (cases "df_resolved st \<or> df_recompute st")
    case True
    then have "poll_loop rs now s = Inr (still, s')" using Cons.prems(1) st by simp
    then show ?thesis using Cons.IH Cons.prems(2,3) by blast
  next
    case False
    then have ph: "df_phase st = DeferPromoting" using Cons.prems(3) st by blast
    have "awaited_state (df_keys st) s \<noteq> CpuHitPending" using awaited_state_pending Cons.prems(2) by blast
    then obtain st1 where e: "poll_episode st s = Inr (st1, s)" "df_resolved st1 \<or> df_recompute st1"
      using ph by (cases "awaited_state (df_keys st) s") (auto simp: poll_episode_def)
    let ?s2 = "s\<lparr>oc_deferred := AList.update r st1 (oc_deferred s)\<rparr>"
    have p: "poll_loop rs now ?s2 = Inr (still, s')"
      using Cons.prems(1) st False e by (auto simp: Let_def obind_Inr_iff)
    have "map_of (oc_deferred ?s2) = (map_of (oc_deferred s))(r \<mapsto> st1)" by simp
    then have "\<forall>x y. map_of (oc_deferred ?s2) x = Some y \<and> \<not> df_resolved y \<and> \<not> df_recompute y \<longrightarrow> df_phase y = DeferPromoting"
      using Cons.prems(3) e(2) by (metis fun_upd_apply option.inject)
    then show ?thesis using Cons.IH [OF p] Cons.prems(2) by simp
  qed
qed simp

section \<open>The promises\<close>

text \<open>C32 The chain's accounting, over every run: INV-4 holds on the GPU; a CPU slot that is not ready is
  the target of a promotion in flight, so none is stranded; a readable block's reference count
  is the number of its replica writes in flight, and no block with a write in flight has been
  evicted; the transfers the chain remembers are exactly those the station holds.\<close>

theorem offload_accounting:
  assumes "oc_run s"
  shows "verify_block_conservation (oc_gpu s) = Some None \<and>
    ct_used (oc_cpu s) \<le> ct_capacity (oc_cpu s) \<and> ct_evictable (oc_cpu s) = ct_scan_evictable (oc_cpu s) \<and>
    (\<forall>k. ct_lookup k (oc_cpu s) = CpuHitPending \<longrightarrow> fetching (oc_inflight s) k) \<and>
    (\<forall>k. 0 < writes (oc_inflight s) k \<longrightarrow> ct_lookup k (oc_cpu s) = CpuHit) \<and>
    (\<forall>k rc. rcs (oc_cpu s) k = Some rc \<and> 0 \<le> rc \<longrightarrow> rc = int (writes (oc_inflight s) k)) \<and>
    dom (oc_inflight s) = (case oc_station s of None \<Rightarrow> {} | Some st \<Rightarrow> set_mset (station_ids st))"
proof -
  have good: "oc_good s" by (rule oc_run_good [OF assms])
  then have core: "oc_core s" and dom: "dom (oc_inflight s) = held_ids s" and inv: "kv_inv (oc_gpu s)" by (simp_all add: oc_good_def oc_ok_def)
  note C = oc_coreD [OF core]
  obtain xs where xs: "ct_inv (oc_cpu s) xs" using C(1) by (auto simp: ct_fine_def)
  have "kv_acct [] (oc_gpu s)" using inv by (simp add: kv_inv_def)
  then have v: "verify_block_conservation (oc_gpu s) = Some None" by (rule verify_block_conservation_ok)
  have w: "int (writes (oc_inflight s) k) = (case rcs (oc_cpu s) k of Some rc \<Rightarrow> max 0 rc | None \<Rightarrow> 0)" for k by (rule refs_agreeD(3) [OF C(2)])
  have "ct_lookup k (oc_cpu s) = CpuHit" if "0 < writes (oc_inflight s) k" for k
    using w [of k] that by (auto simp: ct_lookup_iff split: option.splits)
  moreover have "rc = int (writes (oc_inflight s) k)" if "rcs (oc_cpu s) k = Some rc" "0 \<le> rc" for k rc
    using w [of k] that by simp
  ultimately show ?thesis
    using v ct_invD(6) [OF xs] ct_scan_eq [OF xs] refs_agreeD(2) [OF C(2)] dom unfolding held_ids_def ct_lookup_iff(2) by simp
qed

text \<open>No operation of a reachable chain takes one of its panics (index, nil station, free list), for
  the arguments the scheduler passes; an allocation changes nobody else's blocks.\<close>

theorem offload_operations_return:
  assumes "oc_run s" "kv_alloc_args q start stop cached (oc_gpu s)" "distinct (walk_keys q cached s)" "chain_safe q cached s"
  shows "(\<exists>b s'. oc_allocate q start stop cached s = Inr (b, s') \<and>
       (\<forall>r. r \<noteq> rq_id q \<longrightarrow> kc_req (oc_gpu s') r = kc_req (oc_gpu s) r \<and> kv_stored (oc_gpu s') r = kv_stored (oc_gpu s) r)) \<and>
    (\<exists>s'. oc_mirror qs s = Inr s' \<and> oc_gpu s' = oc_gpu s) \<and> (\<exists>s'. oc_release r s = Inr s') \<and>
    (\<exists>s'. oc_set_clock now s = Inr s') \<and> (\<exists>still s'. poll_deferred now s = Inr (still, s') \<and> (\<forall>r. r \<in> set still \<longleftrightarrow> oc_is_deferred r s'))"
proof -
  have good: "oc_good s" by (rule oc_run_good [OF assms(1)])
  have "\<exists>b s'. oc_allocate q start stop cached s = Inr (b, s') \<and> kv_frame (rq_id q) (oc_gpu s) (oc_gpu s')"
    using oc_allocate_ok [OF good assms(2-4)] by blast
  then show ?thesis
    using oc_mirror_ok [OF good, of qs] oc_release_ok [OF good, of r] oc_set_clock_good [OF good, of now] poll_deferred_ok [OF good, of now]
    unfolding kv_frame_def chain_frame_def by blast
qed

text \<open>C33 Every transfer ends: from any reachable chain there is a tick such that setting the clock to it or
  later leaves no transfer in flight, no slot waiting for data, and every CPU block evictable.\<close>

theorem offload_drains:
  assumes "oc_run s"
  shows "\<exists>t. \<forall>t' \<ge> t. \<exists>s'. oc_set_clock t' s = Inr s' \<and> oc_inflight s' = Map.empty \<and>
    (\<forall>k. ct_lookup k (oc_cpu s') \<noteq> CpuHitPending) \<and> ct_evictable (oc_cpu s') = ct_used (oc_cpu s')"
proof -
  obtain t where t: "\<And>t'. t \<le> t' \<Longrightarrow> \<exists>s'. oc_set_clock t' s = Inr s' \<and> oc_good s' \<and> oc_inflight s' = Map.empty"
    using oc_set_clock_drains [OF oc_run_good [OF assms]] by blast
  have "(\<forall>k. ct_lookup k (oc_cpu s') \<noteq> CpuHitPending) \<and> ct_evictable (oc_cpu s') = ct_used (oc_cpu s')"
    if "oc_good s'" "oc_inflight s' = Map.empty" for s'
  proof -
    have "rcs (oc_cpu s') k \<noteq> Some (-1)" for k using drained_cpu(1) [OF that, of k] by auto
    then show ?thesis using drained_cpu(2) [OF that] unfolding ct_lookup_iff(2) by blast
  qed
  then show ?thesis using t by metis
qed

text \<open>C34 No request is set aside for ever (BC-T3): after any round there is a tick such that a round at
  that tick or later answers that nobody is deferred any more, whether the fetched blocks
  arrived, were lost, or were never granted a slot.\<close>

theorem deferral_ends:
  assumes "oc_run s"
  shows "\<exists>still s1. poll_deferred now s = Inr (still, s1) \<and>
    (\<exists>t. \<forall>t' \<ge> t. \<exists>s2 s3. oc_set_clock t' s1 = Inr s2 \<and> poll_deferred t' s2 = Inr ([], s3) \<and> (\<forall>r. \<not> oc_is_deferred r s3))"
proof -
  obtain still s1 where s1: "poll_deferred now s = Inr (still, s1)" "oc_good s1"
      "\<forall>r st. map_of (oc_deferred s1) r = Some st \<and> \<not> df_resolved st \<and> \<not> df_recompute st \<longrightarrow> df_phase st = DeferPromoting"
    using poll_deferred_ok [OF oc_run_good [OF assms], of now] by blast
  obtain t where t: "\<And>t'. t \<le> t' \<Longrightarrow> \<exists>s2. oc_set_clock t' s1 = Inr s2 \<and> oc_good s2 \<and> oc_deferred s2 = oc_deferred s1 \<and> oc_inflight s2 = Map.empty"
    using oc_set_clock_drains [OF s1(2)] by blast
  have "\<exists>s2 s3. oc_set_clock t' s1 = Inr s2 \<and> poll_deferred t' s2 = Inr ([], s3) \<and> (\<forall>r. \<not> oc_is_deferred r s3)" if le: "t \<le> t'" for t'
  proof -
    obtain s2 where s2: "oc_set_clock t' s1 = Inr s2" "oc_good s2" "oc_deferred s2 = oc_deferred s1" "oc_inflight s2 = Map.empty"
      using t [OF le] by blast
    obtain st2 s3 where s3: "poll_deferred t' s2 = Inr (st2, s3)" "\<forall>r. r \<in> set st2 \<longleftrightarrow> oc_is_deferred r s3"
      using poll_deferred_ok [OF s2(2), of t'] by blast
    have idle: "rcs (oc_cpu (s2\<lparr>oc_clock := t'\<rparr>)) k \<noteq> Some (-1)" for k using drained_cpu(1) [OF s2(2,4), of k] by auto
    have ph: "\<forall>r st. map_of (oc_deferred (s2\<lparr>oc_clock := t'\<rparr>)) r = Some st \<and> \<not> df_resolved st \<and> \<not> df_recompute st \<longrightarrow> df_phase st = DeferPromoting"
      using s1(3) s2(3) by simp
    have "st2 = []"
    proof (cases "oc_deferred s2 = []")
      case False
      then have "poll_loop (sort (gm_keys (oc_deferred s2))) t' (s2\<lparr>oc_clock := t'\<rparr>) = Inr (st2, s3)" using s3(1) by (simp add: poll_deferred_def)
      from poll_loop_idle [OF this idle ph] show ?thesis .
    qed (use s3(1) in \<open>simp add: poll_deferred_def\<close>)
    then show ?thesis using s2(1) s3 by auto
  qed
  then show ?thesis using s1(1) by blast
qed

section \<open>A concrete chain\<close>

text \<open>Three GPU blocks, room for two on the CPU, one secondary tier.\<close>

definition demo_offload :: offload_config where
  "demo_offload = \<lparr>of_enabled = True, of_cpu_bytes = 4, of_block_bytes = 2, of_block_size = 2, of_per_chunk = 1, of_tokens_per_hash = 2,
     of_policy = ''lru'', of_prompt_only = True,
     of_tiers = [\<lparr>ot_type = ''fs'', ot_root = ''kv'', ot_nread = 1, ot_nwrite = 1, ot_locality = '''', ot_read_bw = 1, ot_write_bw = 1,
       ot_base = 3, ot_qsat = 1, ot_f1 = 1, ot_jitter = 0, ot_service = None\<rparr>]\<rparr>"

lemma demo_chain:
  obtains g s where "new_kv_cache 3 2 = Inr g" "oc_run s" "oc_gpu s = g" "oc_station s \<noteq> None" "validate_offload demo_offload = None"
proof -
  obtain g where g: "new_kv_cache 3 2 = Inr g" using new_kv_cache_Inr [of 3 2] by auto
  have cap: "(4 :: int) sdiv 2 = 2" by (simp add: sdiv_nonneg)
  have "\<exists>s. new_offload g demo_offload None = Inr s \<and> oc_gpu s = g \<and> oc_station s \<noteq> None"
    by (simp add: new_offload_def demo_offload_def cap new_cpu_tier_def new_station_def station_tier_def validate_tier_def go_round_def Let_def)
  then obtain s where s: "new_offload g demo_offload None = Inr s" "oc_gpu s = g" "oc_station s \<noteq> None" by blast
  have "prices_ok demo_offload" by (simp add: prices_ok_def demo_offload_def)
  then have "oc_run s" using run_new [OF g _ s(1)] by simp
  moreover have "validate_offload demo_offload = None"
    by (simp add: validate_offload_def demo_offload_def validate_offload_tier_def positive_finite_def)
  ultimately show thesis using that g s(2,3) by blast
qed

theorem offload_accounting_witness:
  "\<exists>s. oc_run s \<and> oc_station s \<noteq> None \<and> verify_block_conservation (oc_gpu s) = Some None \<and> ct_used (oc_cpu s) \<le> ct_capacity (oc_cpu s)"
proof (rule demo_chain)
  fix g s assume "oc_run s" "oc_station s \<noteq> None"
  then show ?thesis using offload_accounting [of s] by blast
qed

theorem offload_operations_return_witness:
  "\<exists>s b s'. oc_run s \<and> oc_station s \<noteq> None \<and> oc_allocate demo_q 0 3 [] s = Inr (b, s')"
proof (rule demo_chain)
  fix g s assume s: "new_kv_cache 3 2 = Inr g" "oc_run s" "oc_gpu s = g" "oc_station s \<noteq> None"
  note N = new_kv_cache_ok [OF s(1)]
  have h: "kc_req g = Map.empty" "kc_bs g = 2" using N(3-5) by auto
  have a: "kv_alloc_args demo_q 0 3 [] (oc_gpu s)" using demo_alloc(1) [OF s(1)] s(3) by simp
  have seed: "resume_seed (rq_id demo_q) [] (oc_gpu s) = Inr (0, '''')" using h s(3) by (simp add: resume_seed_def)
  have "walk_keys demo_q [] s = [hash_block '''' [7, 8]]"
  proof -
    have "block_hashes_loop 2 (Suc 0) '''' [7, 8, 9] = [hash_block '''' [7, 8]]" by (simp add: Let_def)
    then show ?thesis using seed h s(3) by (simp add: walk_keys_def Let_def)
  qed
  then have d: "distinct (walk_keys demo_q [] s)" by simp
  have "chain_safe demo_q [] s" using h s(3) by (simp add: chain_safe_def kv_last_full_def)
  then have "\<exists>b s'. oc_allocate demo_q 0 3 [] s = Inr (b, s')" using offload_operations_return [OF s(2) a d] by blast
  then show ?thesis using s(2,4) by blast
qed

theorem offload_drains_witness:
  "\<exists>s t s'. oc_run s \<and> oc_station s \<noteq> None \<and> oc_set_clock t s = Inr s' \<and> oc_inflight s' = Map.empty"
proof (rule demo_chain)
  fix g s assume s: "oc_run s" "oc_station s \<noteq> None"
  then show ?thesis using offload_drains [OF s(1)] by blast
qed

theorem deferral_ends_witness:
  "\<exists>s still s1 s2 s3 t. oc_run s \<and> oc_station s \<noteq> None \<and> poll_deferred 0 s = Inr (still, s1) \<and> oc_set_clock t s1 = Inr s2 \<and>
     poll_deferred t s2 = Inr ([], s3)"
proof (rule demo_chain)
  fix g s assume s: "oc_run s" "oc_station s \<noteq> None"
  then show ?thesis using deferral_ends [OF s(1), of 0] by blast
qed

end
