(* ===== verification/Router_Scorers.thy ===== *)
theory Router_Scorers
  imports Prefix_Index Request_Model
begin

text \<open>
  What the router sees and how it scores it (\<open>sim/routing.go\<close>, \<open>sim/routing_scorers.go\<close>,
  \<open>sim/routing_nohit_lru_scorer.go\<close>, \<open>sim/routing_precise_prefix_scorer.go\<close>,
  \<open>sim/routing_prefix_scorer.go\<close>). A score map is a partial map to exact rationals, read with
  Go's zero for a missing key. A scorer that shares variables with its observer through a
  closure carries them as a record; the two functions of a closure are the functions
  \<open>run_scorer\<close> and \<open>observe\<close> on it. The cache query is a parameter of the router: a map
  from instance IDs to functions counting cached blocks, \<open>None\<close> when the map is nil; an absent
  entry and a nil function are the same.
\<close>

section \<open>Snapshots\<close>

record snapshot =
  sn_id :: string
  sn_queue :: int
  sn_batch :: int
  sn_kv_util :: rat
  sn_free_kv :: int
  sn_hit_rate :: rat
  sn_inflight :: int
  sn_preemptions :: int
  sn_model :: string
  sn_gpu :: string
  sn_tp :: int
  sn_cost :: rat
  sn_total_kv :: int
  sn_kv_used :: int
  sn_ttft :: rat
  sn_itl :: rat
  sn_dispatch :: rat
  sn_avg_in :: rat
  sn_avg_out :: rat
  sn_max_batch :: rat
  sn_resident :: "string \<rightharpoonup> bool"

definition effective_load :: "snapshot \<Rightarrow> int" where
  "effective_load s = sn_queue s + sn_batch s + sn_inflight s"

definition new_routing_snapshot :: "string \<Rightarrow> snapshot outcome" where
  "new_routing_snapshot i =
     (if i = '''' then Inl (Panic ''NewRoutingSnapshot: id must not be empty'')
      else Inr \<lparr>sn_id = i, sn_queue = 0, sn_batch = 0, sn_kv_util = 0, sn_free_kv = 0, sn_hit_rate = 0, sn_inflight = 0,
        sn_preemptions = 0, sn_model = '''', sn_gpu = '''', sn_tp = 0, sn_cost = 0, sn_total_kv = 0, sn_kv_used = 0,
        sn_ttft = 0, sn_itl = 0, sn_dispatch = 0, sn_avg_in = 0, sn_avg_out = 0, sn_max_batch = 0, sn_resident = Map.empty\<rparr>)"

section \<open>Stateless scorers\<close>

type_synonym scores = "string \<rightharpoonup> rat"

definition score_of :: "scores \<Rightarrow> string \<Rightarrow> rat" where
  "score_of m i = (case m i of None \<Rightarrow> 0 | Some v \<Rightarrow> v)"

definition score_each :: "(snapshot \<Rightarrow> rat) \<Rightarrow> snapshot list \<Rightarrow> scores" where
  "score_each g snaps = fold (\<lambda>s m. m(sn_id s \<mapsto> g s)) snaps Map.empty"

text \<open>The loop that finds the range of a signal, from \<open>math.MaxInt\<close> and 0.\<close>

fun range_loop :: "(snapshot \<Rightarrow> int) \<Rightarrow> snapshot list \<Rightarrow> int \<Rightarrow> int \<Rightarrow> int \<times> int" where
  "range_loop f [] lo hi = (lo, hi)"
| "range_loop f (s # ss) lo hi = range_loop f ss (if f s < lo then f s else lo) (if f s > hi then f s else hi)"

definition inverted_min_max :: "(snapshot \<Rightarrow> int) \<Rightarrow> snapshot list \<Rightarrow> scores" where
  "inverted_min_max f snaps =
     (let (lo, hi) = range_loop f snaps max_int64 0
      in score_each (\<lambda>s. if hi = lo then 1 else of_int (hi - f s) / of_int (hi - lo)) snaps)"

definition score_queue_depth :: "snapshot list \<Rightarrow> scores" where
  "score_queue_depth snaps = inverted_min_max sn_queue snaps"

definition score_running_requests :: "snapshot list \<Rightarrow> scores" where
  "score_running_requests snaps = inverted_min_max sn_batch snaps"

text \<open>\<open>scoreVLLMDP\<close> keeps the raw scores in a map by instance and reads them back.\<close>

definition score_vllm_dp :: "snapshot list \<Rightarrow> scores" where
  "score_vllm_dp snaps =
     (let f = (\<lambda>s. sn_queue s * 4 + sn_batch s);
          raw = fold (\<lambda>s m. m(sn_id s \<mapsto> f s)) snaps Map.empty;
          (lo, hi) = range_loop f snaps max_int64 0
      in score_each (\<lambda>s. if hi = lo then 1 else of_int (hi - (case raw (sn_id s) of None \<Rightarrow> 0 | Some r \<Rightarrow> r)) / of_int (hi - lo)) snaps)"

definition score_kv_utilization :: "snapshot list \<Rightarrow> scores" where
  "score_kv_utilization snaps = score_each (\<lambda>s. 1 - sn_kv_util s) snaps"

definition score_load_balance :: "snapshot list \<Rightarrow> scores" where
  "score_load_balance snaps = score_each (\<lambda>s. 1 / (1 + of_int (effective_load s))) snaps"

definition score_active_requests :: "snapshot list \<Rightarrow> scores" where
  "score_active_requests snaps =
     (let hi = fold (\<lambda>s m. if sn_inflight s > m then sn_inflight s else m) snaps 0
      in score_each (\<lambda>s. if sn_inflight s = 0 \<or> hi = 0 then 1 else of_int (hi - sn_inflight s) / of_int hi) snaps)"

definition load_aware_threshold :: int where
  "load_aware_threshold = 128"

definition score_load_aware :: "snapshot list \<Rightarrow> scores" where
  "score_load_aware snaps = score_each (\<lambda>s.
     if sn_queue s = 0 then 1 / 2
     else (let clamped = (if sn_queue s > load_aware_threshold then load_aware_threshold else sn_queue s)
           in 1 / 2 * (1 - of_int clamped / of_int load_aware_threshold))) snaps"

text \<open>An instance is warm for a request when its adapter is resident; without an adapter, or
  when all are equally warm, every instance scores 1.\<close>

definition score_lora_affinity :: "request option \<Rightarrow> snapshot list \<Rightarrow> scores" where
  "score_lora_affinity req snaps =
     (let adapter = (case req of None \<Rightarrow> '''' | Some q \<Rightarrow> rq_adapter q)
      in if adapter = '''' then score_each (\<lambda>_. 1) snaps
         else (let f = (\<lambda>s. if sn_resident s adapter = Some True then 1 else 0 :: rat);
                   raw = fold (\<lambda>s m. m(sn_id s \<mapsto> f s)) snaps Map.empty;
                   lo = fold (\<lambda>s m. if f s < m then f s else m) snaps 1;
                   hi = fold (\<lambda>s m. if f s > m then f s else m) snaps 0
               in if hi = lo then score_each (\<lambda>_. 1) snaps
                  else score_each (\<lambda>s. (score_of raw (sn_id s) - lo) / (hi - lo)) snaps))"

section \<open>Scorers over the instances' caches\<close>

type_synonym cache_query = "(string \<rightharpoonup> (token list \<Rightarrow> int)) option"

definition cached_blocks :: "(string \<rightharpoonup> (token list \<Rightarrow> int)) \<Rightarrow> request \<Rightarrow> string \<Rightarrow> int" where
  "cached_blocks fns q i = (case fns i of None \<Rightarrow> 0 | Some fn \<Rightarrow> fn (full_input_tokens q))"

definition score_precise_prefix :: "cache_query \<Rightarrow> request option \<Rightarrow> snapshot list \<Rightarrow> scores" where
  "score_precise_prefix cache req snaps =
     (case (req, cache) of
        (Some q, Some fns) \<Rightarrow>
          (let f = (\<lambda>s. cached_blocks fns q (sn_id s));
               raw = fold (\<lambda>s m. m(sn_id s \<mapsto> f s)) snaps Map.empty;
               (lo, hi) = range_loop f snaps max_int64 0
           in score_each (\<lambda>s. if hi = lo then 1
                else of_int ((case raw (sn_id s) of None \<Rightarrow> 0 | Some r \<Rightarrow> r) - lo) / of_int (hi - lo)) snaps)
      | _ \<Rightarrow> score_each (\<lambda>_. 1) snaps)"

text \<open>The no-hit scorer: an order of instances by their last cold request, latest first, and what
  the scorer tells its observer.\<close>

record nohit =
  nh_order :: "string list"
  nh_set :: "string set"
  nh_warm :: bool
  nh_req :: rid

definition new_nohit :: nohit where
  "new_nohit = \<lparr>nh_order = [], nh_set = {}, nh_warm = False, nh_req = ''''\<rparr>"

text \<open>The loop that hands out the positions, and the loop over \<open>lruOrder\<close> that prunes it.\<close>

fun rank_loop :: "int \<Rightarrow> string list \<Rightarrow> int \<Rightarrow> scores \<Rightarrow> scores \<times> int" where
  "rank_loop tot [] rank m = (m, rank)"
| "rank_loop tot (i # ids) rank m = rank_loop tot ids (rank + 1) (m(i \<mapsto> 1 - of_int rank / of_int (tot - 1)))"

fun prune_loop :: "string set \<Rightarrow> string list \<Rightarrow> string list \<Rightarrow> string set \<Rightarrow> string list \<times> string set" where
  "prune_loop current [] pruned S = (pruned, S)"
| "prune_loop current (i # ids) pruned S =
     (if i \<in> current then prune_loop current ids (pruned @ [i]) S else prune_loop current ids pruned (S - {i}))"

definition score_nohit :: "cache_query \<Rightarrow> request option \<Rightarrow> snapshot list \<Rightarrow> nohit \<Rightarrow> scores \<times> nohit" where
  "score_nohit cache req snaps st =
     (case (req, cache) of
        (Some q, Some fns) \<Rightarrow>
          (let st1 = st\<lparr>nh_warm := list_ex (\<lambda>s. cached_blocks fns q (sn_id s) > 0) snaps, nh_req := rq_id q\<rparr>;
               tot = int (length snaps)
           in if nh_warm st1 then (score_each (\<lambda>_. 1 / 2) snaps, st1)
              else if tot \<le> 1 then (score_each (\<lambda>_. 1) snaps, st1)
              else (let (order, S) = prune_loop (set (map sn_id snaps)) (nh_order st1) [] (nh_set st1);
                        never = filter (\<lambda>i. i \<notin> S) (map sn_id snaps);
                        (m1, rank) = rank_loop tot never 0 Map.empty;
                        (m2, _) = rank_loop tot (rev order) rank m1
                    in (m2, st1\<lparr>nh_order := order, nh_set := S\<rparr>)))
      | _ \<Rightarrow> (score_each (\<lambda>_. 1 / 2) snaps, st\<lparr>nh_warm := True, nh_req := ''''\<rparr>))"

definition observe_nohit :: "request option \<Rightarrow> string \<Rightarrow> nohit \<Rightarrow> nohit" where
  "observe_nohit req target st =
     (case req of None \<Rightarrow> st
      | Some q \<Rightarrow>
          (if nh_warm st \<or> rq_id q \<noteq> nh_req st then st
           else (let order = (if target \<in> nh_set st then remove1 target (nh_order st) else nh_order st)
                 in st\<lparr>nh_order := target # order, nh_set := insert target (nh_set st)\<rparr>)))"

section \<open>The prefix-affinity scorer\<close>

record affinity =
  pa_index :: prefix_index
  pa_hashes :: "string list"
  pa_req :: rid

definition default_lru_capacity :: int where
  "default_lru_capacity = 10000"

definition new_affinity :: "int \<Rightarrow> affinity outcome" where
  "new_affinity bs = obind (new_prefix_index bs default_lru_capacity) (\<lambda>idx.
     Inr \<lparr>pa_index = idx, pa_hashes = [], pa_req = ''''\<rparr>)"

definition score_affinity :: "request option \<Rightarrow> snapshot list \<Rightarrow> affinity \<Rightarrow> (scores \<times> affinity) outcome" where
  "score_affinity req snaps st =
     (case req of
        None \<Rightarrow> Inr (Map.empty, st)
      | Some q \<Rightarrow> obind (px_compute_hashes (pa_index st) (full_input_tokens q)) (\<lambda>hs.
          Inr (score_each (\<lambda>s. if hs = [] then 0 else of_int (match_length hs (sn_id s) (pa_index st)) / of_nat (length hs)) snaps,
               st\<lparr>pa_hashes := hs, pa_req := rq_id q\<rparr>)))"

text \<open>The empty list of hashes is nil: \<open>ComputeBlockHashes\<close> returns nil for it.\<close>

definition observe_affinity :: "request option \<Rightarrow> string \<Rightarrow> affinity \<Rightarrow> affinity outcome" where
  "observe_affinity req target st =
     (case req of
        None \<Rightarrow> Inr st
      | Some q \<Rightarrow>
          obind (if rq_id q \<noteq> pa_req st \<or> pa_hashes st = []
                 then px_compute_hashes (pa_index st) (full_input_tokens q) else Inr (pa_hashes st)) (\<lambda>hs.
          obind (record_blocks hs target (pa_index st)) (\<lambda>idx. Inr (st\<lparr>pa_index := idx\<rparr>))))"

section \<open>Scorers by name\<close>

datatype scorer =
    PrefixAffinity affinity
  | PrecisePrefix cache_query
  | NoHitLRU cache_query nohit
  | QueueDepth
  | KVUtilization
  | LoadBalance
  | ActiveRequests
  | RunningRequests
  | LoadAware
  | VllmDP
  | LoraAffinity

definition valid_scorer_names :: "string list" where
  "valid_scorer_names = [''prefix-affinity'', ''precise-prefix-cache'', ''no-hit-lru'', ''queue-depth'', ''kv-utilization'',
     ''load-balance'', ''active-requests'', ''running-requests'', ''load-aware'', ''vllm-dp'', ''lora-affinity'']"

definition new_scorer :: "string \<Rightarrow> int \<Rightarrow> cache_query \<Rightarrow> scorer outcome" where
  "new_scorer name bs cache =
     (if name = ''prefix-affinity'' then obind (new_affinity bs) (\<lambda>a. Inr (PrefixAffinity a))
      else if name = ''precise-prefix-cache'' then Inr (PrecisePrefix cache)
      else if name = ''no-hit-lru'' then Inr (NoHitLRU cache new_nohit)
      else if name = ''queue-depth'' then Inr QueueDepth
      else if name = ''kv-utilization'' then Inr KVUtilization
      else if name = ''load-balance'' then Inr LoadBalance
      else if name = ''active-requests'' then Inr ActiveRequests
      else if name = ''running-requests'' then Inr RunningRequests
      else if name = ''load-aware'' then Inr LoadAware
      else if name = ''vllm-dp'' then Inr VllmDP
      else if name = ''lora-affinity'' then Inr LoraAffinity
      else Inl (Panic ''unknown scorer''))"

fun run_scorer :: "request option \<Rightarrow> snapshot list \<Rightarrow> scorer \<Rightarrow> (scores \<times> scorer) outcome" where
  "run_scorer req snaps (PrefixAffinity a) = obind (score_affinity req snaps a) (\<lambda>(m, a1). Inr (m, PrefixAffinity a1))"
| "run_scorer req snaps (PrecisePrefix c) = Inr (score_precise_prefix c req snaps, PrecisePrefix c)"
| "run_scorer req snaps (NoHitLRU c st) = (let (m, st1) = score_nohit c req snaps st in Inr (m, NoHitLRU c st1))"
| "run_scorer req snaps QueueDepth = Inr (score_queue_depth snaps, QueueDepth)"
| "run_scorer req snaps KVUtilization = Inr (score_kv_utilization snaps, KVUtilization)"
| "run_scorer req snaps LoadBalance = Inr (score_load_balance snaps, LoadBalance)"
| "run_scorer req snaps ActiveRequests = Inr (score_active_requests snaps, ActiveRequests)"
| "run_scorer req snaps RunningRequests = Inr (score_running_requests snaps, RunningRequests)"
| "run_scorer req snaps LoadAware = Inr (score_load_aware snaps, LoadAware)"
| "run_scorer req snaps VllmDP = Inr (score_vllm_dp snaps, VllmDP)"
| "run_scorer req snaps LoraAffinity = Inr (score_lora_affinity req snaps, LoraAffinity)"

text \<open>Only the two scorers with an observer change when a decision is reported to them.\<close>

fun observe :: "request option \<Rightarrow> string \<Rightarrow> scorer \<Rightarrow> scorer outcome" where
  "observe req target (PrefixAffinity a) = obind (observe_affinity req target a) (\<lambda>a1. Inr (PrefixAffinity a1))"
| "observe req target (NoHitLRU c st) = Inr (NoHitLRU c (observe_nohit req target st))"
| "observe req target sc = Inr sc"

end
