(* ===== verification/Router_Policy.thy ===== *)
theory Router_Policy
  imports Router_Scorers
begin

text \<open>
  The routing policies (\<open>sim/routing.go\<close>) and the construction of a weighted policy from its
  configuration (\<open>sim/routing_scorers.go\<close>). Policies are values returned updated. The source
  of random tie-breaks is a stream: the \<open>k\<close>-th call of \<open>Intn n\<close> answers \<open>rg_draw k n\<close>; a nil
  source is \<open>None\<close>. The readable reason of a decision is left out.
\<close>

record rng =
  rg_draw :: "nat \<Rightarrow> nat \<Rightarrow> nat"
  rg_used :: nat

definition rng_ok :: "rng option \<Rightarrow> bool" where
  "rng_ok g \<longleftrightarrow> (case g of None \<Rightarrow> True | Some r \<Rightarrow> \<forall>k n. 0 < n \<longrightarrow> rg_draw r k n < n)"

definition intn :: "nat \<Rightarrow> rng \<Rightarrow> nat \<times> rng" where
  "intn n r = (rg_draw r (rg_used r) n, r\<lparr>rg_used := rg_used r + 1\<rparr>)"

record router_state =
  ro_snapshots :: "snapshot list"
  ro_loading :: "snapshot list"
  ro_clock :: tick
  ro_selected :: string

record decision =
  dc_target :: string
  dc_scores :: "scores option"

definition new_routing_decision :: "string \<Rightarrow> decision outcome" where
  "new_routing_decision target =
     (if target = '''' then Inl (Panic ''NewRoutingDecision: target must not be empty'')
      else Inr \<lparr>dc_target = target, dc_scores = None\<rparr>)"

definition new_routing_decision_with_scores :: "string \<Rightarrow> scores \<Rightarrow> decision outcome" where
  "new_routing_decision_with_scores target m =
     (if target = '''' then Inl (Panic ''NewRoutingDecisionWithScores: target must not be empty'')
      else Inr \<lparr>dc_target = target, dc_scores = Some m\<rparr>)"

section \<open>Weighted scoring\<close>

record weighted =
  wp_scorers :: "scorer list"
  wp_weights :: "rat list"
  wp_rng :: "rng option"

definition clamp01 :: "rat \<Rightarrow> rat" where
  "clamp01 s = (let s1 = (if s < 0 then 0 else s) in if s1 > 1 then 1 else s1)"

definition add_dimension :: "rat \<Rightarrow> scores \<Rightarrow> snapshot list \<Rightarrow> scores \<Rightarrow> scores" where
  "add_dimension w ds snaps m =
     fold (\<lambda>s m. m(sn_id s \<mapsto> score_of m (sn_id s) + clamp01 (score_of ds (sn_id s)) * w)) snaps m"

text \<open>The loop over the scorers; \<open>ws.weights[i]\<close> is out of range when there are fewer weights.\<close>

fun score_loop :: "request option \<Rightarrow> snapshot list \<Rightarrow> scorer list \<Rightarrow> rat list \<Rightarrow> scores \<Rightarrow> (scores \<times> scorer list) outcome" where
  "score_loop req snaps [] ws m = Inr (m, [])"
| "score_loop req snaps (sc # scs) ws m =
     obind (run_scorer req snaps sc) (\<lambda>(ds, sc1).
       case ws of [] \<Rightarrow> Inl IndexOutOfRange
       | w # ws1 \<Rightarrow> obind (score_loop req snaps scs ws1 (add_dimension w ds snaps m)) (\<lambda>(m1, scs1). Inr (m1, sc1 # scs1)))"

fun best_loop :: "scores \<Rightarrow> snapshot list \<Rightarrow> rat \<Rightarrow> rat" where
  "best_loop m [] best = best"
| "best_loop m (s # ss) best = best_loop m ss (if score_of m (sn_id s) > best then score_of m (sn_id s) else best)"

text \<open>The indices of the tied snapshots, and the choice among them shared by the policies.\<close>

definition tied_at :: "(snapshot \<Rightarrow> bool) \<Rightarrow> snapshot list \<Rightarrow> nat list" where
  "tied_at P snaps = filter (\<lambda>i. P (snaps ! i)) [0..<length snaps]"

definition break_tie :: "nat list \<Rightarrow> rng option \<Rightarrow> (nat \<times> rng option) outcome" where
  "break_tie tied g =
     (if tied = [] then Inl IndexOutOfRange
      else case g of
        None \<Rightarrow> Inr (tied ! 0, g)
      | Some r \<Rightarrow> (if length tied > 1
                   then let (k, r1) = intn (length tied) r
                        in if k < length tied then Inr (tied ! k, Some r1) else Inl IndexOutOfRange
                   else Inr (tied ! 0, g)))"

fun observe_all :: "request option \<Rightarrow> string \<Rightarrow> scorer list \<Rightarrow> scorer list outcome" where
  "observe_all req target [] = Inr []"
| "observe_all req target (sc # scs) =
     obind (observe req target sc) (\<lambda>sc1. obind (observe_all req target scs) (\<lambda>scs1. Inr (sc1 # scs1)))"

definition route_weighted :: "request option \<Rightarrow> router_state \<Rightarrow> weighted \<Rightarrow> (decision \<times> weighted) outcome" where
  "route_weighted req st wp =
     (let snaps = ro_snapshots st
      in if snaps = [] then Inl (Panic ''WeightedScoring.Route: empty snapshots'')
         else obind (score_loop req snaps (wp_scorers wp) (wp_weights wp) Map.empty) (\<lambda>(m, scs).
              let best = best_loop m snaps (-1)
              in obind (break_tie (tied_at (\<lambda>s. score_of m (sn_id s) = best) snaps) (wp_rng wp)) (\<lambda>(k, g).
                 obind (observe_all req (sn_id (snaps ! k)) scs) (\<lambda>scs1.
                 obind (new_routing_decision_with_scores (sn_id (snaps ! k)) m) (\<lambda>d.
                   Inr (d, wp\<lparr>wp_scorers := scs1, wp_rng := g\<rparr>))))))"

section \<open>The other policies\<close>

definition route_round_robin :: "router_state \<Rightarrow> int \<Rightarrow> (decision \<times> int) outcome" where
  "route_round_robin st counter =
     (let snaps = ro_snapshots st
      in if snaps = [] then Inl (Panic ''RoundRobin.Route: empty snapshots'')
         else obind (new_routing_decision (sn_id (snaps ! nat (counter mod int (length snaps))))) (\<lambda>d. Inr (d, counter + 1)))"

definition route_least_loaded :: "router_state \<Rightarrow> rng option \<Rightarrow> (decision \<times> rng option) outcome" where
  "route_least_loaded st g =
     (case ro_snapshots st of
        [] \<Rightarrow> Inl (Panic ''LeastLoaded.Route: empty snapshots'')
      | s0 # ss \<Rightarrow>
          (let lo = fold (\<lambda>s m. if effective_load s < m then effective_load s else m) ss (effective_load s0)
           in obind (break_tie (tied_at (\<lambda>s. effective_load s = lo) (s0 # ss)) g) (\<lambda>(k, g1).
              obind (new_routing_decision (sn_id ((s0 # ss) ! k))) (\<lambda>d. Inr (d, g1)))))"

definition route_always_busiest :: "router_state \<Rightarrow> decision outcome" where
  "route_always_busiest st =
     (case ro_snapshots st of
        [] \<Rightarrow> Inl (Panic ''AlwaysBusiest.Route: empty snapshots'')
      | s0 # ss \<Rightarrow> new_routing_decision (sn_id (fold (\<lambda>s t. if effective_load s > effective_load t then s else t) ss s0)))"

datatype policy = RoundRobin int | LeastLoaded "rng option" | WeightedScoring weighted | AlwaysBusiest

fun route :: "request option \<Rightarrow> router_state \<Rightarrow> policy \<Rightarrow> (decision \<times> policy) outcome" where
  "route req st (RoundRobin c) = obind (route_round_robin st c) (\<lambda>(d, c1). Inr (d, RoundRobin c1))"
| "route req st (LeastLoaded g) = obind (route_least_loaded st g) (\<lambda>(d, g1). Inr (d, LeastLoaded g1))"
| "route req st (WeightedScoring w) = obind (route_weighted req st w) (\<lambda>(d, w1). Inr (d, WeightedScoring w1))"
| "route req st AlwaysBusiest = obind (route_always_busiest st) (\<lambda>d. Inr (d, AlwaysBusiest))"

section \<open>Construction\<close>

record scorer_config =
  so_name :: string
  so_weight :: rat

definition default_scorer_configs :: "scorer_config list" where
  "default_scorer_configs =
     [\<lparr>so_name = ''precise-prefix-cache'', so_weight = 2\<rparr>, \<lparr>so_name = ''queue-depth'', so_weight = 1\<rparr>,
      \<lparr>so_name = ''kv-utilization'', so_weight = 1\<rparr>]"

definition normalize_scorer_weights :: "scorer_config list \<Rightarrow> rat list outcome" where
  "normalize_scorer_weights cfgs =
     (let tot = sum_list (map so_weight cfgs)
      in if tot \<le> 0 then Inl (Panic ''scorer weights sum must be positive'') else Inr (map (\<lambda>c. so_weight c / tot) cfgs))"

fun new_scorers :: "scorer_config list \<Rightarrow> int \<Rightarrow> cache_query \<Rightarrow> scorer list outcome" where
  "new_scorers [] bs cache = Inr []"
| "new_scorers (c # cs) bs cache =
     obind (new_scorer (so_name c) bs cache) (\<lambda>sc. obind (new_scorers cs bs cache) (\<lambda>scs. Inr (sc # scs)))"

definition valid_routing_policies :: "string list" where
  "valid_routing_policies = ['''', ''round-robin'', ''least-loaded'', ''weighted'', ''always-busiest'']"

definition new_routing_policy :: "string \<Rightarrow> scorer_config list \<Rightarrow> int \<Rightarrow> rng option \<Rightarrow> cache_query \<Rightarrow> policy outcome" where
  "new_routing_policy name cfgs bs g cache =
     (if name \<notin> set valid_routing_policies then Inl (Panic ''unknown routing policy'')
      else if name = '''' \<or> name = ''round-robin'' then Inr (RoundRobin 0)
      else if name = ''least-loaded'' then Inr (LeastLoaded g)
      else if name = ''weighted'' then
        (let cs = (if cfgs = [] then default_scorer_configs else cfgs)
         in obind (new_scorers cs bs cache) (\<lambda>scs.
            obind (normalize_scorer_weights cs) (\<lambda>ws.
              Inr (WeightedScoring \<lparr>wp_scorers = scs, wp_weights = ws, wp_rng = g\<rparr>))))
      else Inr AlwaysBusiest)"

section \<open>Parsing a configuration\<close>

text \<open>\<open>strings.Split\<close>, \<open>strings.SplitN(_, _, 2)\<close> and \<open>strings.TrimSpace\<close> on ASCII strings. The value of
  \<open>strconv.ParseFloat\<close> is a parameter: \<open>None\<close> is its error, and it can answer an infinity or NaN.\<close>

fun split_on :: "char \<Rightarrow> string \<Rightarrow> string list" where
  "split_on c [] = [[]]"
| "split_on c (x # xs) =
     (if x = c then [] # split_on c xs
      else case split_on c xs of [] \<Rightarrow> [[x]] | y # ys \<Rightarrow> (x # y) # ys)"

definition split_two :: "char \<Rightarrow> string \<Rightarrow> string list" where
  "split_two c s = (if c \<in> set s then [takeWhile (\<lambda>x. x \<noteq> c) s, tl (dropWhile (\<lambda>x. x \<noteq> c) s)] else [s])"

definition is_space :: "char \<Rightarrow> bool" where
  "is_space c \<longleftrightarrow> c \<in> {CHR 0x09, CHR 0x0A, CHR 0x0B, CHR 0x0C, CHR 0x0D, CHR 0x20}"

definition trim_space :: "string \<Rightarrow> string" where
  "trim_space s = rev (dropWhile is_space (rev (dropWhile is_space s)))"

datatype go_float = Finite rat | Infinite | NaN

datatype scorer_error =
    MalformedConfig string
  | UnknownScorer string
  | DuplicateScorer string
  | InvalidWeight string
  | NonPositiveWeight string

fun parse_loop :: "(string \<Rightarrow> go_float option) \<Rightarrow> string list \<Rightarrow> string list \<Rightarrow> scorer_config list \<Rightarrow> scorer_error + scorer_config list" where
  "parse_loop parse_float [] seen acc = Inr acc"
| "parse_loop parse_float (part # parts) seen acc =
     (case split_two (CHR '':'') (trim_space part) of
        [n, w] \<Rightarrow>
          (let name = trim_space n
           in if name \<notin> set valid_scorer_names then Inl (UnknownScorer name)
              else if name \<in> set seen then Inl (DuplicateScorer name)
              else case parse_float (trim_space w) of
                None \<Rightarrow> Inl (InvalidWeight name)
              | Some (Finite x) \<Rightarrow> (if x \<le> 0 then Inl (NonPositiveWeight name)
                  else parse_loop parse_float parts (name # seen) (acc @ [\<lparr>so_name = name, so_weight = x\<rparr>]))
              | Some _ \<Rightarrow> Inl (NonPositiveWeight name))
      | _ \<Rightarrow> Inl (MalformedConfig (trim_space part)))"

definition parse_scorer_configs :: "(string \<Rightarrow> go_float option) \<Rightarrow> string \<Rightarrow> scorer_error + scorer_config list" where
  "parse_scorer_configs parse_float s = (if s = '''' then Inr [] else parse_loop parse_float (split_on (CHR '','') s) [] [])"

end
