(* ===== verification/Router_Safe.thy ===== *)
theory Router_Safe
  imports Router_Policy
begin

text \<open>
  What every routing decision rests on: score maps by instance, the invariant of the scorers
  with state, and that scoring, the choice of the maximum and the observers return.
\<close>

section \<open>Score maps\<close>

abbreviation sn_ids :: "snapshot list \<Rightarrow> string list" where
  "sn_ids snaps \<equiv> map sn_id snaps"

lemma score_of_upd [simp]: "score_of (m(i \<mapsto> v)) j = (if i = j then v else score_of m j)"
  by (simp add: score_of_def)

lemma score_of_empty [simp]: "score_of Map.empty i = 0"
  by (simp add: score_of_def)

lemma fold_upd_other: "i \<notin> set (sn_ids snaps) \<Longrightarrow> fold (\<lambda>s m. m(sn_id s \<mapsto> g s)) snaps m i = m i"
  by (induction snaps arbitrary: m) auto

lemma fold_upd_at:
  "s \<in> set snaps \<Longrightarrow> distinct (sn_ids snaps) \<Longrightarrow> fold (\<lambda>s m. m(sn_id s \<mapsto> g s)) snaps m (sn_id s) = Some (g s)"
proof (induction snaps arbitrary: m)
  case (Cons t snaps)
  show ?case
  proof (cases "s = t")
    case True
    then show ?thesis using Cons.prems(2) fold_upd_other [of "sn_id t" snaps g] by (simp del: fun_upd_apply add: fun_upd_same)
  next
    case False
    then show ?thesis using Cons by simp
  qed
qed simp

lemma score_each_at: "s \<in> set snaps \<Longrightarrow> distinct (sn_ids snaps) \<Longrightarrow> score_of (score_each g snaps) (sn_id s) = g s"
  by (simp add: score_each_def score_of_def fold_upd_at)

lemma clamp01_range: "0 \<le> clamp01 x" "clamp01 x \<le> 1"
  by (simp_all add: clamp01_def Let_def)

lemma add_dimension_other: "i \<notin> set (sn_ids snaps) \<Longrightarrow> score_of (add_dimension w ds snaps m) i = score_of m i"
  unfolding add_dimension_def by (induction snaps arbitrary: m) auto

lemma add_dimension_at:
  "i \<in> set (sn_ids snaps) \<Longrightarrow> distinct (sn_ids snaps) \<Longrightarrow>
     score_of (add_dimension w ds snaps m) i = score_of m i + clamp01 (score_of ds i) * w"
proof (induction snaps arbitrary: m)
  case (Cons s snaps)
  have step: "add_dimension w ds (s # snaps) m =
      add_dimension w ds snaps (m(sn_id s \<mapsto> score_of m (sn_id s) + clamp01 (score_of ds (sn_id s)) * w))"
    by (simp add: add_dimension_def)
  show ?case
  proof (cases "i = sn_id s")
    case True
    then show ?thesis using Cons.prems(2) add_dimension_other [of i snaps w ds] unfolding step by simp
  next
    case False
    then show ?thesis using Cons.prems Cons.IH unfolding step by simp
  qed
qed simp

text \<open>The composite score: each dimension clamped and weighted.\<close>

definition composite :: "scores list \<Rightarrow> rat list \<Rightarrow> string \<Rightarrow> rat" where
  "composite ds ws i = sum_list (map2 (\<lambda>d w. clamp01 (score_of d i) * w) ds ws)"

lemma composite_range:
  assumes "\<forall>w \<in> set ws. 0 \<le> w" "length ds = length ws"
  shows "0 \<le> composite ds ws i" "composite ds ws i \<le> sum_list ws"
proof -
  show "0 \<le> composite ds ws i" unfolding composite_def
    using assms clamp01_range(1) by (intro sum_list_nonneg) (auto dest: set_zip_rightD)
  show "composite ds ws i \<le> sum_list ws" using assms(2,1)
    by (induction ds ws rule: list_induct2) (auto simp: composite_def intro!: add_mono mult_left_le_one_le clamp01_range)
qed

section \<open>The scorers with state\<close>

definition affinity_ok :: "affinity \<Rightarrow> bool" where
  "affinity_ok a \<longleftrightarrow> 0 < px_block_size (pa_index a) \<and> (\<exists>v. px_rel (pa_index a) v)"

definition nohit_ok :: "nohit \<Rightarrow> bool" where
  "nohit_ok st \<longleftrightarrow> distinct (nh_order st) \<and> nh_set st = set (nh_order st)"

fun scorer_ok :: "scorer \<Rightarrow> bool" where
  "scorer_ok (PrefixAffinity a) = affinity_ok a"
| "scorer_ok (NoHitLRU c st) = nohit_ok st"
| "scorer_ok _ = True"

lemma px_hashes: "0 < px_block_size idx \<Longrightarrow> \<exists>hs. px_compute_hashes idx ts = Inr hs"
  by (simp add: px_compute_hashes_def compute_block_hashes_def)

lemma prune_loop_eq: "prune_loop cur ids p S = (p @ filter (\<lambda>i. i \<in> cur) ids, S - {i \<in> set ids. i \<notin> cur})"
  by (induction cur ids p S rule: prune_loop.induct) auto

lemma score_nohit_ok: "nohit_ok st \<Longrightarrow> nohit_ok (snd (score_nohit c req snaps st))"
  by (auto simp: score_nohit_def nohit_ok_def prune_loop_eq Let_def split: option.splits prod.splits)

lemma observe_nohit_ok: "nohit_ok st \<Longrightarrow> nohit_ok (observe_nohit req t st)"
  by (auto simp: observe_nohit_def nohit_ok_def Let_def split: option.splits)

lemma score_affinity_ok:
  assumes "affinity_ok a"
  shows "\<exists>m a1. score_affinity req snaps a = Inr (m, a1) \<and> affinity_ok a1"
proof (cases req)
  case (Some q)
  obtain hs where "px_compute_hashes (pa_index a) (full_input_tokens q) = Inr hs"
    using px_hashes assms unfolding affinity_ok_def by blast
  then show ?thesis using assms Some by (simp add: score_affinity_def affinity_ok_def)
qed (use assms in \<open>simp add: score_affinity_def\<close>)

lemma observe_affinity_ok:
  assumes "affinity_ok a"
  shows "\<exists>a1. observe_affinity req t a = Inr a1 \<and> affinity_ok a1"
proof (cases req)
  case (Some q)
  obtain v where v: "px_rel (pa_index a) v" "0 < px_block_size (pa_index a)" using assms unfolding affinity_ok_def by blast
  obtain hs where hs: "(if rq_id q \<noteq> pa_req a \<or> pa_hashes a = []
      then px_compute_hashes (pa_index a) (full_input_tokens q) else Inr (pa_hashes a)) = Inr hs"
    using px_hashes [OF v(2)] by (metis (full_types))
  obtain idx where "record_blocks hs t (pa_index a) = Inr idx" "px_block_size idx = px_block_size (pa_index a)"
      "\<exists>v. px_rel idx v"
    using record_blocks_ok [OF v(1)] by blast
  then show ?thesis using v hs Some by (simp add: observe_affinity_def affinity_ok_def)
qed (use assms in \<open>simp add: observe_affinity_def\<close>)

lemma run_scorer_ok:
  assumes "scorer_ok sc"
  shows "\<exists>m sc1. run_scorer req snaps sc = Inr (m, sc1) \<and> scorer_ok sc1"
proof (cases sc)
  case (PrefixAffinity a)
  then show ?thesis using assms score_affinity_ok [of a req snaps] by fastforce
next
  case (NoHitLRU c st)
  then show ?thesis using assms score_nohit_ok [of st c req snaps] by (cases "score_nohit c req snaps st") auto
qed (use assms in auto)

lemma observe_ok:
  assumes "scorer_ok sc"
  shows "\<exists>sc1. observe req t sc = Inr sc1 \<and> scorer_ok sc1"
proof (cases sc)
  case (PrefixAffinity a)
  then show ?thesis using assms observe_affinity_ok [of a req t] by fastforce
next
  case (NoHitLRU c st)
  then show ?thesis using assms observe_nohit_ok by simp
qed (use assms in auto)

lemma observe_all_ok:
  "\<forall>sc \<in> set scs. scorer_ok sc \<Longrightarrow>
     \<exists>scs1. observe_all req t scs = Inr scs1 \<and> length scs1 = length scs \<and> (\<forall>sc \<in> set scs1. scorer_ok sc)"
proof (induction scs)
  case (Cons sc scs)
  obtain sc1 where "observe req t sc = Inr sc1" "scorer_ok sc1" using observe_ok Cons.prems by (meson list.set_intros(1))
  then show ?case using Cons by fastforce
qed simp

text \<open>All dimensions are scored, and a composite is their weighted sum.\<close>

lemma score_loop_ok:
  assumes "\<forall>sc \<in> set scs. scorer_ok sc" "length scs = length ws" "distinct (sn_ids snaps)"
  shows "\<exists>m1 scs1 ds. score_loop req snaps scs ws m = Inr (m1, scs1) \<and> length scs1 = length scs \<and>
     (\<forall>sc \<in> set scs1. scorer_ok sc) \<and> list_all2 (\<lambda>sc d. \<exists>sc1. run_scorer req snaps sc = Inr (d, sc1)) scs ds \<and>
     (\<forall>i \<in> set (sn_ids snaps). score_of m1 i = score_of m i + composite ds ws i)"
  using assms(1,2)
proof (induction scs arbitrary: ws m)
  case Nil
  then show ?case by (simp add: composite_def)
next
  case (Cons sc scs)
  obtain w ws1 where ws: "ws = w # ws1" "length scs = length ws1" using Cons.prems(2) by (cases ws) auto
  obtain d sc1 where r: "run_scorer req snaps sc = Inr (d, sc1)" "scorer_ok sc1"
    using run_scorer_ok Cons.prems(1) by (meson list.set_intros(1))
  obtain m1 scs1 ds where loop: "score_loop req snaps scs ws1 (add_dimension w d snaps m) = Inr (m1, scs1)"
      "length scs1 = length scs" "\<forall>sc \<in> set scs1. scorer_ok sc"
      "list_all2 (\<lambda>sc d. \<exists>sc1. run_scorer req snaps sc = Inr (d, sc1)) scs ds"
      "\<forall>i \<in> set (sn_ids snaps). score_of m1 i = score_of (add_dimension w d snaps m) i + composite ds ws1 i"
    using Cons.IH [OF _ ws(2), of "add_dimension w d snaps m"] Cons.prems(1) by auto
  have "score_of m1 i = score_of m i + composite (d # ds) ws i" if "i \<in> set (sn_ids snaps)" for i
  proof -
    have "score_of m1 i = score_of (add_dimension w d snaps m) i + composite ds ws1 i" using loop(5) that by blast
    then show ?thesis using add_dimension_at [OF that assms(3)] by (simp add: composite_def ws)
  qed
  moreover have "score_loop req snaps (sc # scs) ws m = Inr (m1, sc1 # scs1)" using r(1) loop(1) ws by simp
  moreover have "list_all2 (\<lambda>sc d. \<exists>sc1. run_scorer req snaps sc = Inr (d, sc1)) (sc # scs) (d # ds)" using r(1) loop(4) by auto
  moreover have "length (sc1 # scs1) = length (sc # scs)" "\<forall>sc \<in> set (sc1 # scs1). scorer_ok sc" using loop(2,3) r(2) by simp_all
  ultimately show ?case by blast
qed

section \<open>The maximum and the ties\<close>

lemma best_loop_max:
  "b \<le> best_loop m snaps b \<and> (\<forall>s \<in> set snaps. score_of m (sn_id s) \<le> best_loop m snaps b) \<and>
   (best_loop m snaps b = b \<or> (\<exists>s \<in> set snaps. best_loop m snaps b = score_of m (sn_id s)))"
proof (induction m snaps b rule: best_loop.induct)
  case (2 m s ss b)
  then show ?case by (cases "score_of m (sn_id s) > b") (simp_all, force+)
qed simp

lemma tied_at_in: "k \<in> set (tied_at P snaps) \<longleftrightarrow> k < length snaps \<and> P (snaps ! k)"
  by (auto simp: tied_at_def)

lemma tied_at_ne: "s \<in> set snaps \<Longrightarrow> P s \<Longrightarrow> tied_at P snaps \<noteq> []"
  by (metis in_set_conv_nth tied_at_in empty_iff list.set(1))

lemma break_tie_ok:
  assumes "rng_ok g" "ks \<noteq> []"
  shows "\<exists>k g1. break_tie ks g = Inr (k, g1) \<and> k \<in> set ks \<and> rng_ok g1 \<and> (g = None \<longrightarrow> k = hd ks) \<and> (g1 = None \<longleftrightarrow> g = None)"
proof (cases g)
  case (Some r)
  have lt: "rg_draw r (rg_used r) (length ks) < length ks" using assms Some by (simp add: rng_ok_def)
  then have "ks ! rg_draw r (rg_used r) (length ks) \<in> set ks" by simp
  then show ?thesis using assms Some lt by (auto simp: break_tie_def intn_def rng_ok_def)
qed (use assms in \<open>simp add: break_tie_def hd_conv_nth rng_ok_def\<close>)

end
