(* ===== verification/Router_Properties.thy ===== *)
theory Router_Properties
  imports Router_Safe KV_Properties
begin

text \<open>
  The properties of the router: every configuration the parser accepts gives a policy that
  always decides and never panics, weighted scoring decides for the maximum of the weighted sum,
  round-robin and the no-hit scorer spread requests over all instances, and prefix affinity
  prefers the instance a shared prefix was sent to.
\<close>

section \<open>Policies that can be built\<close>

definition configs_ok :: "scorer_config list \<Rightarrow> bool" where
  "configs_ok cs \<longleftrightarrow> (\<forall>c \<in> set cs. so_name c \<in> set valid_scorer_names \<and> 0 < so_weight c) \<and> distinct (map so_name cs)"

lemma parse_loop_configs_ok:
  assumes "parse_loop pf parts seen acc = Inr cs" "configs_ok acc" "set seen = set (map so_name acc)"
  shows "configs_ok cs"
  using assms
proof (induction parts arbitrary: seen acc)
  case (Cons part parts)
  from Cons.prems(1) obtain n w x where s: "split_two (CHR '':'') (trim_space part) = [n, w]"
      "trim_space n \<in> set valid_scorer_names" "trim_space n \<notin> set seen" "0 < x"
      "parse_loop pf parts (trim_space n # seen) (acc @ [\<lparr>so_name = trim_space n, so_weight = x\<rparr>]) = Inr cs"
    by (auto simp: Let_def not_le split: list.splits if_splits option.splits go_float.splits)
  show ?case
  proof (rule Cons.IH [OF s(5)])
    show "configs_ok (acc @ [\<lparr>so_name = trim_space n, so_weight = x\<rparr>])"
      using s(2-4) Cons.prems(2,3) by (simp add: configs_ok_def)
    show "set (trim_space n # seen) = set (map so_name (acc @ [\<lparr>so_name = trim_space n, so_weight = x\<rparr>]))"
      using Cons.prems(3) by simp
  qed
qed simp

lemma parse_configs_ok: "parse_scorer_configs pf s = Inr cs \<Longrightarrow> configs_ok cs"
  using parse_loop_configs_ok [of pf "split_on (CHR '','') s" "[]" "[]" cs]
  by (cases "s = ''''") (auto simp: parse_scorer_configs_def configs_ok_def)

lemma default_configs_ok: "configs_ok default_scorer_configs"
  by (simp add: configs_ok_def default_scorer_configs_def valid_scorer_names_def)

text \<open>The invariant of a policy; \<open>b\<close> says whether it breaks ties at random.\<close>

definition weighted_ok :: "bool \<Rightarrow> weighted \<Rightarrow> bool" where
  "weighted_ok b w \<longleftrightarrow> (\<forall>sc \<in> set (wp_scorers w). scorer_ok sc) \<and> length (wp_scorers w) = length (wp_weights w) \<and>
     (\<forall>x \<in> set (wp_weights w). 0 \<le> x) \<and> sum_list (wp_weights w) = 1 \<and> rng_ok (wp_rng w) \<and> (b \<longleftrightarrow> wp_rng w \<noteq> None)"

fun policy_ok :: "bool \<Rightarrow> policy \<Rightarrow> bool" where
  "policy_ok b (RoundRobin c) \<longleftrightarrow> 0 \<le> c"
| "policy_ok b (LeastLoaded g) \<longleftrightarrow> rng_ok g"
| "policy_ok b (WeightedScoring w) \<longleftrightarrow> weighted_ok b w"
| "policy_ok b AlwaysBusiest \<longleftrightarrow> True"

lemma new_scorer_ok:
  assumes "name \<in> set valid_scorer_names" "0 < bs"
  shows "\<exists>sc. new_scorer name bs cache = Inr sc \<and> scorer_ok sc"
proof -
  have "new_prefix_index bs default_lru_capacity = Inr \<lparr>px_block_size = bs, px_lru_capacity = default_lru_capacity, px_instances = Map.empty\<rparr>"
    using assms(2) by (simp add: new_prefix_index_def default_lru_capacity_def)
  note idx = this px_rel_new [OF this]
  have "affinity_ok \<lparr>pa_index = \<lparr>px_block_size = bs, px_lru_capacity = default_lru_capacity, px_instances = Map.empty\<rparr>,
      pa_hashes = [], pa_req = ''''\<rparr>"
    using idx(2) assms(2) unfolding affinity_ok_def by (metis affinity.select_convs(1) prefix_index.select_convs(1))
  then show ?thesis using assms(1) idx(1)
    by (auto simp: valid_scorer_names_def new_scorer_def new_affinity_def new_nohit_def nohit_ok_def)
qed

lemma new_scorers_ok:
  assumes "\<forall>c \<in> set cs. so_name c \<in> set valid_scorer_names" "0 < bs"
  shows "\<exists>scs. new_scorers cs bs cache = Inr scs \<and> length scs = length cs \<and> (\<forall>sc \<in> set scs. scorer_ok sc)"
  using assms(1)
proof (induction cs)
  case (Cons c cs)
  obtain sc where "new_scorer (so_name c) bs cache = Inr sc" "scorer_ok sc"
    using new_scorer_ok [OF _ assms(2)] Cons.prems by (meson list.set_intros(1))
  then show ?case using Cons by fastforce
qed simp

lemma sum_list_divide: "sum_list (map (\<lambda>c. f c / (t::rat)) cs) = sum_list (map f cs) / t"
  by (induction cs) (auto simp: add_divide_distrib)

lemma normalize_ok:
  assumes "\<forall>c \<in> set cs. 0 < so_weight c" "cs \<noteq> []"
  shows "\<exists>ws. normalize_scorer_weights cs = Inr ws \<and> length ws = length cs \<and> (\<forall>x \<in> set ws. 0 \<le> x) \<and> sum_list ws = 1"
proof -
  have pos: "0 < sum_list (map so_weight cs)"
    using assms
  proof (induction cs)
    case (Cons c cs)
    then show ?case by (cases "cs = []") (auto intro: add_pos_pos)
  qed simp
  then show ?thesis using assms(1)
    by (auto simp: normalize_scorer_weights_def Let_def sum_list_divide intro!: divide_nonneg_pos less_imp_le)
qed

lemma new_policy_ok:
  assumes "configs_ok cfgs" "name \<in> set valid_routing_policies" "0 < bs" "rng_ok g"
  shows "\<exists>p. new_routing_policy name cfgs bs g cache = Inr p \<and> policy_ok (g \<noteq> None) p"
proof (cases "name = ''weighted''")
  case True
  define cs where "cs = (if cfgs = [] then default_scorer_configs else cfgs)"
  have cs: "configs_ok cs" "cs \<noteq> []"
    using assms(1) default_configs_ok unfolding cs_def by (auto simp: default_scorer_configs_def)
  obtain scs where scs: "new_scorers cs bs cache = Inr scs" "length scs = length cs" "\<forall>sc \<in> set scs. scorer_ok sc"
    using new_scorers_ok [OF _ assms(3), of cs cache] cs(1) unfolding configs_ok_def by blast
  obtain ws where ws: "normalize_scorer_weights cs = Inr ws" "length ws = length cs" "\<forall>x \<in> set ws. 0 \<le> x" "sum_list ws = 1"
    using normalize_ok [of cs] cs unfolding configs_ok_def by blast
  have "weighted_ok (g \<noteq> None) \<lparr>wp_scorers = scs, wp_weights = ws, wp_rng = g\<rparr>"
    using scs ws assms(4) by (simp add: weighted_ok_def)
  moreover have "new_routing_policy name cfgs bs g cache = Inr (WeightedScoring \<lparr>wp_scorers = scs, wp_weights = ws, wp_rng = g\<rparr>)"
    using True scs(1) ws(1) by (simp add: new_routing_policy_def valid_routing_policies_def cs_def [symmetric] Let_def)
  ultimately show ?thesis by simp
next
  case False
  then show ?thesis using assms by (auto simp: new_routing_policy_def valid_routing_policies_def)
qed

section \<open>Decisions\<close>

text \<open>What the cluster hands to a policy: at least one instance, and distinct IDs.\<close>

definition routable :: "router_state \<Rightarrow> bool" where
  "routable st \<longleftrightarrow> ro_snapshots st \<noteq> [] \<and> distinct (sn_ids (ro_snapshots st)) \<and> '''' \<notin> set (sn_ids (ro_snapshots st))"

lemma tied_hd:
  assumes "tied_at P snaps \<noteq> []" "j < hd (tied_at P snaps)"
  shows "\<not> P (snaps ! j)"
proof
  assume p: "P (snaps ! j)"
  have "hd (tied_at P snaps) < length snaps" using assms(1) hd_in_set tied_at_in by metis
  then have "j \<in> set (tied_at P snaps)" using assms(2) p by (simp add: tied_at_in)
  moreover have "sorted (tied_at P snaps)" by (simp add: tied_at_def sorted_wrt_filter)
  ultimately have "hd (tied_at P snaps) \<le> j" by (cases "tied_at P snaps") auto
  then show False using assms(2) by simp
qed

definition weighted_choice :: "bool \<Rightarrow> snapshot list \<Rightarrow> weighted \<Rightarrow> scores list \<Rightarrow> decision \<Rightarrow> bool" where
  "weighted_choice b snaps w ds d \<longleftrightarrow> (\<exists>m k. dc_scores d = Some m \<and> k < length snaps \<and> dc_target d = sn_id (snaps ! k) \<and>
     (\<forall>i \<in> set (sn_ids snaps). score_of m i = composite ds (wp_weights w) i \<and> 0 \<le> score_of m i \<and> score_of m i \<le> 1 \<and>
        score_of m i \<le> score_of m (dc_target d)) \<and>
     (\<not> b \<longrightarrow> (\<forall>j < k. score_of m (sn_id (snaps ! j)) < score_of m (dc_target d))))"

lemma route_weighted_ok:
  assumes "weighted_ok b w" "routable st"
  shows "\<exists>d w1 ds. route_weighted req st w = Inr (d, w1) \<and> weighted_ok b w1 \<and> dc_target d \<in> set (sn_ids (ro_snapshots st)) \<and>
    list_all2 (\<lambda>sc x. \<exists>sc1. run_scorer req (ro_snapshots st) sc = Inr (x, sc1)) (wp_scorers w) ds \<and>
    weighted_choice b (ro_snapshots st) w ds d"
proof -
  define snaps where "snaps = ro_snapshots st"
  have st: "snaps \<noteq> []" "distinct (sn_ids snaps)" "'''' \<notin> set (sn_ids snaps)" using assms(2) unfolding snaps_def routable_def by blast+
  have w: "\<forall>sc \<in> set (wp_scorers w). scorer_ok sc" "length (wp_scorers w) = length (wp_weights w)" "\<forall>x \<in> set (wp_weights w). 0 \<le> x"
      "sum_list (wp_weights w) = 1" "rng_ok (wp_rng w)" "b \<longleftrightarrow> wp_rng w \<noteq> None"
    using assms(1) unfolding weighted_ok_def by blast+
  obtain m scs ds where loop: "score_loop req snaps (wp_scorers w) (wp_weights w) Map.empty = Inr (m, scs)"
      "length scs = length (wp_scorers w)" "\<forall>sc \<in> set scs. scorer_ok sc"
      "list_all2 (\<lambda>sc x. \<exists>sc1. run_scorer req snaps sc = Inr (x, sc1)) (wp_scorers w) ds"
      "\<forall>i \<in> set (sn_ids snaps). score_of m i = score_of Map.empty i + composite ds (wp_weights w) i"
    using score_loop_ok [OF w(1,2) st(2)] by blast
  have m: "score_of m i = composite ds (wp_weights w) i" "0 \<le> score_of m i" "score_of m i \<le> 1" if "i \<in> set (sn_ids snaps)" for i
    using loop(5) that composite_range [OF w(3), of ds i] list_all2_lengthD [OF loop(4)] w(2,4) by auto
  define best where "best = best_loop m snaps (-1)"
  have best: "\<forall>s \<in> set snaps. score_of m (sn_id s) \<le> best" "best = -1 \<or> (\<exists>s \<in> set snaps. best = score_of m (sn_id s))"
    using best_loop_max [of "-1" m snaps] unfolding best_def by blast+
  have "best \<noteq> -1" using best(1) m(2) st(1) by (cases snaps) fastforce+
  then obtain s where s: "s \<in> set snaps" "score_of m (sn_id s) = best" using best(2) by metis
  let ?T = "tied_at (\<lambda>s. score_of m (sn_id s) = best) snaps"
  have ne: "?T \<noteq> []" using tied_at_ne [of s snaps "\<lambda>s. score_of m (sn_id s) = best"] s by blast
  obtain k g where k: "break_tie ?T (wp_rng w) = Inr (k, g)" "k \<in> set ?T" "rng_ok g"
      "wp_rng w = None \<longrightarrow> k = hd ?T" "g = None \<longleftrightarrow> wp_rng w = None"
    using break_tie_ok [OF w(5) ne] by (metis (lifting))
  have kin: "k < length snaps" "score_of m (sn_id (snaps ! k)) = best" using k(2) by (simp_all add: tied_at_in)
  then have tin: "sn_id (snaps ! k) \<in> set (sn_ids snaps)" by simp
  obtain scs1 where obs: "observe_all req (sn_id (snaps ! k)) scs = Inr scs1" "length scs1 = length scs" "\<forall>sc \<in> set scs1. scorer_ok sc"
    using observe_all_ok [OF loop(3)] by blast
  define d where "d = \<lparr>dc_target = sn_id (snaps ! k), dc_scores = Some m\<rparr>"
  have "route_weighted req st w = Inr (d, w\<lparr>wp_scorers := scs1, wp_rng := g\<rparr>)"
    using loop(1) k(1) obs(1) st(1,3) tin unfolding best_def
    by (auto simp: route_weighted_def Let_def snaps_def [symmetric] new_routing_decision_with_scores_def d_def)
  moreover have "weighted_ok b (w\<lparr>wp_scorers := scs1, wp_rng := g\<rparr>)"
    using w(2-4,6) obs(2,3) loop(2) k(3,5) by (simp add: weighted_ok_def)
  moreover have "\<forall>j < k. score_of m (sn_id (snaps ! j)) < score_of m (dc_target d)" if "\<not> b"
  proof -
    have hd: "k = hd ?T" using that w(6) k(4) by blast
    have "score_of m (sn_id (snaps ! j)) < best" if "j < k" for j
    proof -
      have "score_of m (sn_id (snaps ! j)) \<noteq> best" using tied_hd [OF ne] \<open>j < k\<close> hd by blast
      moreover have "snaps ! j \<in> set snaps" using \<open>j < k\<close> kin(1) by simp
      ultimately show ?thesis using best(1) by fastforce
    qed
    then show ?thesis using kin(2) by (simp add: d_def)
  qed
  then have "weighted_choice b snaps w ds d"
    unfolding weighted_choice_def using m best(1) kin by (intro exI [of _ m] exI [of _ k]) (auto simp: d_def)
  ultimately show ?thesis using loop(4) tin unfolding snaps_def d_def by auto
qed

lemma fold_least_attained: "\<exists>s \<in> set (s0 # ss). f s = fold (\<lambda>s m. if f s < m then f s else m) ss (f s0 :: int)"
proof (induction ss arbitrary: s0)
  case (Cons a ss)
  show ?case using Cons.IH [of "if f a < f s0 then a else s0"] by (auto split: if_splits)
qed simp

lemma fold_choice_in: "fold (\<lambda>s t. if P s t then s else t) ss s0 \<in> set (s0 # ss)"
proof (induction ss arbitrary: s0)
  case (Cons a ss)
  show ?case using Cons.IH [of "if P a s0 then a else s0"] by (auto split: if_splits)
qed simp

lemma route_ok:
  assumes "policy_ok b p" "routable st"
  shows "\<exists>d p1. route req st p = Inr (d, p1) \<and> policy_ok b p1 \<and> dc_target d \<in> set (sn_ids (ro_snapshots st))"
proof -
  let ?snaps = "ro_snapshots st"
  have st: "?snaps \<noteq> []" "'''' \<notin> set (sn_ids ?snaps)" using assms(2) unfolding routable_def by blast+
  have dec: "new_routing_decision (sn_id s) = Inr \<lparr>dc_target = sn_id s, dc_scores = None\<rparr>" if "s \<in> set ?snaps" for s
    using st(2) that by (force simp: new_routing_decision_def)
  show ?thesis
  proof (cases p)
    case (RoundRobin c)
    have "nat (c mod int (length ?snaps)) < length ?snaps"
      using st(1) by (simp add: nat_less_iff)
    then have "?snaps ! nat (c mod int (length ?snaps)) \<in> set ?snaps" by simp
    then show ?thesis using RoundRobin assms(1) st(1) dec by (simp add: route_round_robin_def Let_def)
  next
    case (LeastLoaded g)
    obtain s0 ss where ss: "?snaps = s0 # ss" using st(1) by (cases ?snaps) auto
    let ?lo = "fold (\<lambda>s m. if effective_load s < m then effective_load s else m) ss (effective_load s0)"
    define ks where "ks = tied_at (\<lambda>s. effective_load s = ?lo) (s0 # ss)"
    obtain s where "s \<in> set (s0 # ss)" "effective_load s = ?lo" using fold_least_attained [of s0 ss effective_load] by (rule bexE)
    from tied_at_ne [of s "s0 # ss" "\<lambda>s. effective_load s = ?lo", OF this] have "ks \<noteq> []" unfolding ks_def .
    moreover have "rng_ok g" using assms(1) LeastLoaded by simp
    ultimately obtain k g1 where k: "break_tie ks g = Inr (k, g1)" "k \<in> set ks" "rng_ok g1"
      using break_tie_ok by blast
    have "k < length (s0 # ss)" using k(2) unfolding ks_def tied_at_in by blast
    then have "(s0 # ss) ! k \<in> set ?snaps" unfolding ss by (rule nth_mem)
    then show ?thesis using LeastLoaded k dec [of "(s0 # ss) ! k"] ss
      by (auto simp: route_least_loaded_def Let_def ks_def [symmetric] simp del: nth_Cons')
  next
    case (WeightedScoring w)
    then show ?thesis using route_weighted_ok [of b w st req] assms by fastforce
  next
    case AlwaysBusiest
    obtain s0 ss where ss: "?snaps = s0 # ss" using st(1) by (cases ?snaps) auto
    have "fold (\<lambda>s t. if effective_load s > effective_load t then s else t) ss s0 \<in> set (s0 # ss)"
      by (rule fold_choice_in)
    then show ?thesis using AlwaysBusiest dec ss by (auto simp: route_always_busiest_def)
  qed
qed

inductive router_run :: "policy \<Rightarrow> policy \<Rightarrow> bool" for p0 where
  start: "router_run p0 p0"
| step: "router_run p0 p \<Longrightarrow> routable st \<Longrightarrow> route req st p = Inr (d, p1) \<Longrightarrow> router_run p0 p1"

lemma router_run_ok: "router_run p0 p \<Longrightarrow> policy_ok b p0 \<Longrightarrow> policy_ok b p"
proof (induction rule: router_run.induct)
  case (step p st req d p1)
  then show ?case using route_ok [of b p st req] by auto
qed simp

section \<open>Cold requests under the no-hit scorer\<close>

inductive nohit_run :: "cache_query \<Rightarrow> nohit \<Rightarrow> bool" for c where
  start: "nohit_run c new_nohit"
| score: "nohit_run c st \<Longrightarrow> score_nohit c req snaps st = (m, st1) \<Longrightarrow> nohit_run c st1"
| observe: "nohit_run c st \<Longrightarrow> nohit_run c (observe_nohit req t st)"

lemma nohit_run_ok: "nohit_run c st \<Longrightarrow> nohit_ok st"
proof (induction rule: nohit_run.induct)
  case start
  then show ?case by (simp add: new_nohit_def nohit_ok_def)
next
  case (score st req snaps m st1)
  then show ?case using score_nohit_ok [of st c req snaps] by simp
next
  case (observe st req t)
  then show ?case by (simp add: observe_nohit_ok)
qed

text \<open>The order in which cold requests visit the instances: never used ones as listed, then the
  others from the least recently used.\<close>

definition nh_ranking :: "string list \<Rightarrow> nohit \<Rightarrow> string list" where
  "nh_ranking ids st = filter (\<lambda>i. i \<notin> nh_set st) ids @ filter (\<lambda>i. i \<in> set ids) (rev (nh_order st))"

lemma nh_ranking_perm:
  assumes "nohit_ok st" "distinct ids"
  shows "distinct (nh_ranking ids st)" "set (nh_ranking ids st) = set ids" "length (nh_ranking ids st) = length ids"
proof -
  show d: "distinct (nh_ranking ids st)" and s: "set (nh_ranking ids st) = set ids"
    using assms by (auto simp: nh_ranking_def nohit_ok_def)
  show "length (nh_ranking ids st) = length ids" using d s assms(2) by (metis distinct_card)
qed

definition cold :: "(string \<rightharpoonup> (token list \<Rightarrow> int)) \<Rightarrow> request \<Rightarrow> string list \<Rightarrow> bool" where
  "cold fns q ids \<longleftrightarrow> (\<forall>i \<in> set ids. cached_blocks fns q i \<le> 0)"

lemma rank_loop_append:
  "rank_loop n (xs @ ys) r m = (let (m1, r1) = rank_loop n xs r m in rank_loop n ys r1 m1)"
  by (induction n xs r m rule: rank_loop.induct) (simp_all del: fun_upd_apply)

lemma rank_loop_next: "snd (rank_loop n ids r m) = r + int (length ids)"
  by (induction n ids r m rule: rank_loop.induct) (simp_all del: fun_upd_apply)

lemma rank_loop_other: "i \<notin> set ids \<Longrightarrow> score_of (fst (rank_loop n ids r m)) i = score_of m i"
  by (induction n ids r m rule: rank_loop.induct) (auto simp del: fun_upd_apply)

lemma rank_loop_at:
  "distinct ids \<Longrightarrow> k < length ids \<Longrightarrow> score_of (fst (rank_loop n ids r m)) (ids ! k) = 1 - of_int (r + int k) / of_int (n - 1)"
proof (induction n ids r m arbitrary: k rule: rank_loop.induct)
  case (2 n i ids r m)
  show ?case
  proof (cases k)
    case 0
    then show ?thesis using 2 rank_loop_other [of i ids n "r + 1"] by (simp del: fun_upd_apply)
  next
    case (Suc j)
    then show ?thesis using 2 by (simp add: algebra_simps del: fun_upd_apply)
  qed
qed simp

lemma cold_not_warm: "cold fns q (sn_ids snaps) \<Longrightarrow> \<not> list_ex (\<lambda>s. cached_blocks fns q (sn_id s) > 0) snaps"
  by (auto simp: cold_def list_ex_iff not_less)

text \<open>A cold request scores the instances by their place in that order, and its observer moves the
  instance that got it to the end.\<close>

lemma cold_ranking:
  assumes "nohit_ok st" "cold fns q (sn_ids snaps)" "distinct (sn_ids snaps)" "1 < length snaps"
  shows "\<exists>m st1. score_nohit (Some fns) (Some q) snaps st = (m, st1) \<and> nohit_ok st1 \<and>
     (\<forall>k < length snaps. score_of m (nh_ranking (sn_ids snaps) st ! k) = 1 - of_nat k / of_nat (length snaps - 1)) \<and>
     (\<forall>t \<in> set (sn_ids snaps). nh_ranking (sn_ids snaps) (observe_nohit (Some q) t st1) = remove1 t (nh_ranking (sn_ids snaps) st) @ [t])"
proof -
  let ?ids = "sn_ids snaps" and ?n = "int (length snaps)"
  define order where "order = filter (\<lambda>i. i \<in> set ?ids) (nh_order st)"
  define never where "never = filter (\<lambda>i. i \<notin> set (nh_order st)) ?ids"
  have ns: "nh_set st = set (nh_order st)" "distinct (nh_order st)" using assms(1) unfolding nohit_ok_def by blast+
  define m where "m = fst (rank_loop ?n (never @ rev order) 0 Map.empty)"
  define st1 where "st1 = st\<lparr>nh_warm := False, nh_req := rq_id q, nh_order := order, nh_set := set order\<rparr>"
  have rk: "nh_ranking ?ids st = never @ rev order"
    by (simp add: nh_ranking_def never_def order_def ns(1) rev_filter)
  have S: "set (nh_order st) - {i \<in> set (nh_order st). i \<notin> set ?ids} = set order" by (auto simp: order_def)
  have never2: "filter (\<lambda>i. i \<notin> set order) ?ids = never"
    unfolding never_def order_def by (rule filter_cong) auto
  have "score_nohit (Some fns) (Some q) snaps st = (m, st1)"
    using cold_not_warm [OF assms(2)] assms(4) S never2 rank_loop_append [of ?n never "rev order" 0 Map.empty]
    by (simp add: score_nohit_def prune_loop_eq ns(1) m_def st1_def Let_def case_prod_beta)
       (simp add: order_def)
  moreover have "nohit_ok st1" using ns(2) by (simp add: nohit_ok_def st1_def order_def)
  moreover have "score_of m (nh_ranking ?ids st ! k) = 1 - of_nat k / of_nat (length snaps - 1)" if "k < length snaps" for k
    using rank_loop_at [of "never @ rev order" k ?n 0 Map.empty] nh_ranking_perm [OF assms(1,3)] that assms(4)
    unfolding rk m_def by (simp add: of_nat_diff)
  moreover have "nh_ranking ?ids (observe_nohit (Some q) t st1) = remove1 t (nh_ranking ?ids st) @ [t]" if "t \<in> set ?ids" for t
  proof -
    have o: "observe_nohit (Some q) t st1 = st1\<lparr>nh_order := t # remove1 t order, nh_set := insert t (set order)\<rparr>"
      by (simp add: observe_nohit_def st1_def Let_def remove1_idem)
    have sub: "filter (\<lambda>i. i \<in> set ?ids) order = order" by (simp add: order_def)
    have d: "distinct order" using ns(2) by (simp add: order_def)
    have r1: "filter (\<lambda>i. i \<notin> insert t (set order)) ?ids = remove1 t never"
      unfolding never2 [symmetric] using assms(3) by (auto simp: distinct_remove1_removeAll removeAll_filter_not_eq intro!: filter_cong)
    have r2: "rev (remove1 t order) = remove1 t (rev order)" using d
      by (simp add: distinct_remove1_removeAll removeAll_filter_not_eq rev_filter)
    have r3: "filter (\<lambda>i. i \<in> set ?ids) (remove1 t order) = remove1 t order"
      using sub d by (auto simp: distinct_remove1_removeAll removeAll_filter_not_eq filter_id_conv intro!: filter_cong)
    have "remove1 t (never @ rev order) = remove1 t never @ remove1 t (rev order)"
      by (cases "t \<in> set never") (auto simp: remove1_append remove1_idem never_def order_def)
    then show ?thesis using that r1 r2 r3 unfolding rk o
      by (simp add: nh_ranking_def st1_def) (metis rev_filter)
  qed
  ultimately show ?thesis by blast
qed

lemma route_weighted_parts:
  assumes "route_weighted req st w = Inr (d, w1)"
  shows "wp_weights w1 = wp_weights w \<and> (\<exists>m scs. score_loop req (ro_snapshots st) (wp_scorers w) (wp_weights w) Map.empty = Inr (m, scs) \<and>
     observe_all req (dc_target d) scs = Inr (wp_scorers w1))"
  using assms
  by (fastforce simp: route_weighted_def Let_def obind_Inr_iff new_routing_decision_with_scores_def split: if_splits)

text \<open>A policy whose only scorer is the no-hit scorer.\<close>

definition nohit_policy :: "(string \<rightharpoonup> (token list \<Rightarrow> int)) \<Rightarrow> nohit \<Rightarrow> weighted \<Rightarrow> bool" where
  "nohit_policy fns st w \<longleftrightarrow> wp_scorers w = [NoHitLRU (Some fns) st] \<and> wp_weights w = [1] \<and> nohit_ok st \<and> rng_ok (wp_rng w)"

lemma nohit_policy_weighted: "nohit_policy fns st w \<Longrightarrow> weighted_ok (wp_rng w \<noteq> None) w"
  by (simp add: nohit_policy_def weighted_ok_def)

lemma nohit_policy_route:
  assumes "nohit_policy fns st w" "routable rs"
  shows "\<exists>d w1 m st1. route_weighted req rs w = Inr (d, w1) \<and> dc_target d \<in> set (sn_ids (ro_snapshots rs)) \<and>
     score_nohit (Some fns) req (ro_snapshots rs) st = (m, st1) \<and> nohit_policy fns (observe_nohit req (dc_target d) st1) w1 \<and>
     (\<forall>i \<in> set (sn_ids (ro_snapshots rs)). clamp01 (score_of m i) \<le> clamp01 (score_of m (dc_target d)))"
proof -
  obtain m st1 where m: "score_nohit (Some fns) req (ro_snapshots rs) st = (m, st1)" by (cases "score_nohit (Some fns) req (ro_snapshots rs) st")
  obtain d w1 ds where d: "route_weighted req rs w = Inr (d, w1)" "weighted_ok (wp_rng w \<noteq> None) w1" "dc_target d \<in> set (sn_ids (ro_snapshots rs))"
      "list_all2 (\<lambda>sc x. \<exists>sc1. run_scorer req (ro_snapshots rs) sc = Inr (x, sc1)) (wp_scorers w) ds"
      "weighted_choice (wp_rng w \<noteq> None) (ro_snapshots rs) w ds d"
    using route_weighted_ok [OF nohit_policy_weighted [OF assms(1)] assms(2)] by blast
  have w: "wp_scorers w = [NoHitLRU (Some fns) st]" "wp_weights w = [1]" "nohit_ok st" using assms(1) unfolding nohit_policy_def by blast+
  have ds: "ds = [m]" using d(4) m unfolding w by (auto simp: list_all2_Cons1)
  have parts: "wp_weights w1 = [1]" "wp_scorers w1 = [NoHitLRU (Some fns) (observe_nohit req (dc_target d) st1)]"
    using route_weighted_parts [OF d(1)] m unfolding w by auto
  have "nohit_ok (observe_nohit req (dc_target d) st1)"
    using observe_nohit_ok score_nohit_ok [OF w(3), of "Some fns" req "ro_snapshots rs"] m by simp
  then have "nohit_policy fns (observe_nohit req (dc_target d) st1) w1"
    using parts d(2) by (simp add: nohit_policy_def weighted_ok_def)
  moreover have "clamp01 (score_of m i) \<le> clamp01 (score_of m (dc_target d))" if i: "i \<in> set (sn_ids (ro_snapshots rs))" for i
  proof -
    have c: "composite ds (wp_weights w) j = clamp01 (score_of m j)" for j unfolding ds w by (simp add: composite_def)
    obtain m' where "\<forall>i \<in> set (sn_ids (ro_snapshots rs)). score_of m' i = composite ds (wp_weights w) i \<and> 0 \<le> score_of m' i \<and>
        score_of m' i \<le> 1 \<and> score_of m' i \<le> score_of m' (dc_target d)"
      using d(5) unfolding weighted_choice_def by blast
    then show ?thesis using i d(3) unfolding c by metis
  qed
  ultimately show ?thesis using d(1,3) m by blast
qed

lemma nohit_policy_cold:
  assumes "nohit_policy fns st w" "routable rs" "cold fns q (sn_ids (ro_snapshots rs))"
  shows "\<exists>d w1 st1. route_weighted (Some q) rs w = Inr (d, w1) \<and> nohit_policy fns st1 w1 \<and>
     dc_target d = hd (nh_ranking (sn_ids (ro_snapshots rs)) st) \<and>
     nh_ranking (sn_ids (ro_snapshots rs)) st1 = tl (nh_ranking (sn_ids (ro_snapshots rs)) st) @ [dc_target d]"
proof -
  let ?snaps = "ro_snapshots rs" and ?ids = "sn_ids (ro_snapshots rs)"
  have st: "?snaps \<noteq> []" "distinct ?ids" using assms(2) unfolding routable_def by blast+
  have ok: "nohit_ok st" using assms(1) unfolding nohit_policy_def by blast
  obtain d w1 m st1 where r: "route_weighted (Some q) rs w = Inr (d, w1)" "dc_target d \<in> set ?ids"
      "score_nohit (Some fns) (Some q) ?snaps st = (m, st1)" "nohit_policy fns (observe_nohit (Some q) (dc_target d) st1) w1"
      "\<forall>i \<in> set ?ids. clamp01 (score_of m i) \<le> clamp01 (score_of m (dc_target d))"
    using nohit_policy_route [OF assms(1,2)] by blast
  note perm = nh_ranking_perm [OF ok st(2)]
  show ?thesis
  proof (cases "1 < length ?snaps")
    case True
    have rank: "score_of m (nh_ranking ?ids st ! k) = 1 - of_nat k / of_nat (length ?snaps - 1)" if "k < length ?snaps" for k
      using cold_ranking [OF ok assms(3) st(2) True] r(3) that by auto
    have obs: "nh_ranking ?ids (observe_nohit (Some q) (dc_target d) st1) = remove1 (dc_target d) (nh_ranking ?ids st) @ [dc_target d]"
      using cold_ranking [OF ok assms(3) st(2) True] r(2,3) by auto
    obtain k where k: "k < length ?snaps" "dc_target d = nh_ranking ?ids st ! k"
      using r(2) perm(2,3) by (metis in_set_conv_nth length_map)
    have "nh_ranking ?ids st ! 0 \<in> set ?ids" using perm(2,3) True by (metis length_map nth_mem order_less_trans zero_less_one)
    then have "clamp01 1 \<le> clamp01 (1 - of_nat k / of_nat (length ?snaps - 1))"
      using r(5) rank [OF k(1)] rank [of 0] True unfolding k(2) by fastforce
    then have "(of_nat k :: rat) / of_nat (length ?snaps - 1) \<le> 0" by (auto simp: clamp01_def Let_def split: if_splits)
    then have "k = 0" using True by (simp add: divide_le_0_iff)
    then have "dc_target d = hd (nh_ranking ?ids st)" using k(2) perm(3) st(1) by (metis hd_conv_nth length_0_conv length_map)
    moreover have "remove1 (hd xs) xs = tl xs" for xs :: "string list" by (cases xs) auto
    ultimately show ?thesis using r(1,4) obs by metis
  next
    case False
    then obtain s where s: "?snaps = [s]" using st(1) by (cases ?snaps) auto
    have one: "xs = [sn_id s]" if "distinct xs" "set xs = {sn_id s}" for xs
    proof -
      have "length xs = Suc 0" using distinct_card [OF that(1)] that(2) by simp
      then obtain y where "xs = [y]" by (metis length_0_conv length_Suc_conv)
      then show ?thesis using that(2) by simp
    qed
    have "nohit_ok (observe_nohit (Some q) (dc_target d) st1)" using r(4) unfolding nohit_policy_def by blast
    note perm2 = nh_ranking_perm [OF this st(2)]
    have n1: "nh_ranking ?ids st = [sn_id s]" by (rule one) (use perm(1,2) s in simp_all)
    have n2: "nh_ranking ?ids (observe_nohit (Some q) (dc_target d) st1) = [sn_id s]" by (rule one) (use perm2(1,2) s in simp_all)
    have "dc_target d = sn_id s" using r(2) s by simp
    then show ?thesis using r(1,4) n1 n2 by fastforce
  qed
qed

section \<open>Runs of decisions\<close>

fun route_all :: "(request option \<times> router_state) list \<Rightarrow> policy \<Rightarrow> (string list \<times> policy) outcome" where
  "route_all [] p = Inr ([], p)"
| "route_all ((req, st) # rs) p =
     obind (route req st p) (\<lambda>(d, p1). obind (route_all rs p1) (\<lambda>(ts, p2). Inr (dc_target d # ts, p2)))"


lemma route_all_cold_from:
  assumes "nohit_policy fns st w" "nh_ranking ids st = xs @ ys" "length rs = length xs"
    "\<forall>(req, s) \<in> set rs. routable s \<and> sn_ids (ro_snapshots s) = ids \<and> (\<exists>q. req = Some q \<and> cold fns q ids)"
  shows "\<exists>p. route_all rs (WeightedScoring w) = Inr (xs, p)"
  using assms
proof (induction rs arbitrary: st w xs ys)
  case (Cons r rs)
  obtain x xs' where xs: "xs = x # xs'" "length rs = length xs'" using Cons.prems(3) by (cases xs) auto
  obtain req s where r: "r = (req, s)" by (cases r)
  obtain q where q: "req = Some q" "routable s" "sn_ids (ro_snapshots s) = ids" "cold fns q ids" using Cons.prems(4) r by auto
  obtain d w1 st1 where d: "route_weighted (Some q) s w = Inr (d, w1)" "nohit_policy fns st1 w1"
      "dc_target d = hd (nh_ranking ids st)" "nh_ranking ids st1 = tl (nh_ranking ids st) @ [dc_target d]"
    using nohit_policy_cold [OF Cons.prems(1) q(2), of q] q(4) unfolding q(3) by blast
  have "nh_ranking ids st1 = xs' @ (ys @ [x])" "dc_target d = x" using d(3,4) Cons.prems(2) xs by simp_all
  then show ?case using Cons.IH [OF d(2) _ xs(2), of "ys @ [x]"] Cons.prems(4) d(1) r q(1) xs(1) by auto
qed simp

lemma nohit_policy_run:
  assumes "router_run p0 p" "\<exists>st w. p0 = WeightedScoring w \<and> nohit_policy fns st w"
  shows "\<exists>st w. p = WeightedScoring w \<and> nohit_policy fns st w"
  using assms
proof (induction rule: router_run.induct)
  case (step p rs req d p1)
  then obtain st w where w: "p = WeightedScoring w" "nohit_policy fns st w" by blast
  obtain d1 w1 st1 where "route_weighted req rs w = Inr (d1, w1)" "nohit_policy fns st1 w1"
    using nohit_policy_route [OF w(2) step(2), of req] by blast
  then show ?case using step(3) w(1) by auto
qed simp

lemma new_nohit_policy:
  assumes "0 < x" "rng_ok g"
  shows "\<exists>w. new_routing_policy ''weighted'' [\<lparr>so_name = ''no-hit-lru'', so_weight = x\<rparr>] bs g (Some fns) = Inr (WeightedScoring w) \<and>
    nohit_policy fns new_nohit w"
  using assms by (simp add: new_routing_policy_def valid_routing_policies_def new_scorer_def normalize_scorer_weights_def
      nohit_policy_def nohit_ok_def new_nohit_def)

section \<open>The prefix index keeps what was just recorded\<close>

lemma mru_touch_keeps: "x \<in> set (take n xs) \<Longrightarrow> Suc n \<le> cap \<Longrightarrow> x \<in> set (take (Suc n) (mru_touch cap h xs))"
proof -
  assume x: "x \<in> set (take n xs)" and n: "Suc n \<le> cap"
  have "set (take n xs) \<subseteq> insert h (set (take n (remove1 h xs)))"
  proof (induction xs arbitrary: n)
    case (Cons y ys)
    then show ?case
    proof (cases n)
      case (Suc k)
      then show ?thesis using Cons.IH [of k] set_take_subset_set_take [of k "Suc k" ys] by auto
    qed simp
  qed simp
  then show ?thesis using x n by (auto simp: mru_touch_def min_absorb1)
qed

lemma fold_mru_touch_keeps: "x \<in> set (take n xs) \<Longrightarrow> n + length hs \<le> cap \<Longrightarrow> x \<in> set (take (n + length hs) (fold (mru_touch cap) hs xs))"
proof (induction hs arbitrary: n xs)
  case (Cons h hs)
  then show ?case using Cons.IH [of "Suc n" "mru_touch cap h xs"] mru_touch_keeps [of x n xs cap h] by simp
qed simp

lemma fold_mru_touch_new: "length hs \<le> cap \<Longrightarrow> set hs \<subseteq> set (fold (mru_touch cap) hs xs)"
proof (induction hs arbitrary: xs)
  case (Cons h hs)
  have "h \<in> set (take 1 (mru_touch cap h xs))" using Cons.prems by (cases cap) (simp_all add: mru_touch_def)
  from fold_mru_touch_keeps [OF this, of hs cap] Cons.prems
  have "h \<in> set (fold (mru_touch cap) hs (mru_touch cap h xs))" by (auto dest: in_set_takeD)
  then show ?case using Cons by simp
qed simp

lemma block_hashes_take:
  "k \<le> n \<Longrightarrow> k \<le> m \<Longrightarrow> take (k * bs) ts = take (k * bs) us \<Longrightarrow>
     take k (block_hashes_loop bs n p ts) = take k (block_hashes_loop bs m p us)"
proof (induction k arbitrary: n m p ts us)
  case (Suc k)
  obtain n' m' where nm: "n = Suc n'" "m = Suc m'" using Suc.prems(1,2) by (cases n; cases m) auto
  have h: "take bs ts = take bs us"
    using arg_cong [OF Suc.prems(3), of "take bs"] by (simp add: min_def split: if_splits)
  have "take (k * bs) (drop bs ts) = take (k * bs) (drop bs us)"
    using arg_cong [OF Suc.prems(3), of "drop bs"] by (simp add: drop_take)
  from Suc.IH [OF _ _ this, of n' m' "hash_block p (take bs us)"] show ?case using Suc.prems(1,2) h nm by (simp add: Let_def)
qed simp

lemma takeWhile_long: "set (take k hs) \<subseteq> S \<Longrightarrow> k \<le> length hs \<Longrightarrow> k \<le> length (takeWhile (\<lambda>h. h \<in> S) hs)"
proof (induction hs arbitrary: k)
  case (Cons h hs)
  then show ?case by (cases k) auto
qed simp

inductive affinity_run :: "int \<Rightarrow> affinity \<Rightarrow> bool" for bs where
  start: "new_affinity bs = Inr a \<Longrightarrow> affinity_run bs a"
| score: "affinity_run bs a \<Longrightarrow> score_affinity req snaps a = Inr (m, a1) \<Longrightarrow> affinity_run bs a1"
| observe: "affinity_run bs a \<Longrightarrow> observe_affinity req t a = Inr a1 \<Longrightarrow> affinity_run bs a1"

lemma affinity_run_ok:
  "affinity_run bs a \<Longrightarrow> px_block_size (pa_index a) = bs \<and> 0 < bs \<and> px_lru_capacity (pa_index a) = default_lru_capacity \<and>
     (\<exists>v. px_rel (pa_index a) v)"
proof (induction rule: affinity_run.induct)
  case (start a)
  then obtain idx where i: "new_prefix_index bs default_lru_capacity = Inr idx" "pa_index a = idx"
    by (auto simp: new_affinity_def obind_Inr_iff)
  then show ?case using px_rel_new [OF i(1)] by (auto simp: new_prefix_index_def split: if_splits)
next
  case (score a req snaps m a1)
  then show ?case by (auto simp: score_affinity_def obind_Inr_iff split: option.splits)
next
  case (observe a req t a1)
  obtain v where v: "px_rel (pa_index a) v" using observe.IH by blast
  have "pa_index a1 = pa_index a \<or> (\<exists>hs. record_blocks hs t (pa_index a) = Inr (pa_index a1))"
    using observe.hyps(2) by (auto simp: observe_affinity_def obind_Inr_iff split: option.splits)
  then show ?case
  proof
    assume "\<exists>hs. record_blocks hs t (pa_index a) = Inr (pa_index a1)"
    then obtain hs where hs: "record_blocks hs t (pa_index a) = Inr (pa_index a1)" by blast
    show ?thesis using record_blocks_ok [OF v, of hs t] hs observe.IH by auto
  qed (use observe.IH in simp)
qed

section \<open>Properties\<close>

text \<open>C35 The router always decides: a configuration \<open>ParseScorerConfigs\<close> accepts builds a policy of any
  valid name, and after any history of decisions over instances with distinct IDs the policy
  names one of the instances offered; no scorer, observer or tie-break panics.\<close>

theorem router_always_decides:
  assumes "parse_scorer_configs pf s = Inr cfgs" "name \<in> set valid_routing_policies" "0 < bs" "rng_ok g"
  shows "\<exists>p0. new_routing_policy name cfgs bs g cache = Inr p0 \<and>
    (\<forall>p req st. router_run p0 p \<longrightarrow> routable st \<longrightarrow>
       (\<exists>d p1. route req st p = Inr (d, p1) \<and> dc_target d \<in> set (sn_ids (ro_snapshots st))))"
proof -
  obtain p0 where p0: "new_routing_policy name cfgs bs g cache = Inr p0" "policy_ok (g \<noteq> None) p0"
    using new_policy_ok [OF parse_configs_ok [OF assms(1)] assms(2-4)] by blast
  have "\<exists>d p1. route req st p = Inr (d, p1) \<and> dc_target d \<in> set (sn_ids (ro_snapshots st))"
    if "router_run p0 p" "routable st" for p req st
    using route_ok [OF router_run_ok [OF that(1) p0(2)] that(2)] by blast
  then show ?thesis using p0(1) by blast
qed

text \<open>C36 Weighted scoring decides for the best instance: the reported score of an instance is the
  weighted sum of what the scorers say of it, each clamped to the unit interval, it is between 0
  and 1, and no instance scores more than the target; without random tie-breaking the target is
  the first such instance in the order of the snapshots.\<close>

theorem weighted_argmax:
  assumes "parse_scorer_configs pf s = Inr cfgs" "new_routing_policy ''weighted'' cfgs bs g cache = Inr p0"
    "0 < bs" "rng_ok g" "router_run p0 (WeightedScoring w)" "routable st"
  shows "\<exists>d w1 ds m k. route_weighted req st w = Inr (d, w1) \<and>
    list_all2 (\<lambda>sc x. \<exists>sc1. run_scorer req (ro_snapshots st) sc = Inr (x, sc1)) (wp_scorers w) ds \<and>
    dc_scores d = Some m \<and> k < length (ro_snapshots st) \<and> dc_target d = sn_id (ro_snapshots st ! k) \<and>
    (\<forall>i \<in> set (sn_ids (ro_snapshots st)). score_of m i = composite ds (wp_weights w) i \<and> 0 \<le> score_of m i \<and>
       score_of m i \<le> 1 \<and> score_of m i \<le> score_of m (dc_target d)) \<and>
    (g = None \<longrightarrow> (\<forall>j < k. score_of m (sn_id (ro_snapshots st ! j)) < score_of m (dc_target d)))"
proof -
  have "policy_ok (g \<noteq> None) p0"
    using new_policy_ok [OF parse_configs_ok [OF assms(1)] _ assms(3,4), of "''weighted''" cache] assms(2)
    by (auto simp: valid_routing_policies_def)
  then have "weighted_ok (g \<noteq> None) w" using router_run_ok [OF assms(5)] by fastforce
  from route_weighted_ok [OF this assms(6), of req] show ?thesis unfolding weighted_choice_def by blast
qed

text \<open>C37 Cold requests go round: under a policy that weighs only the no-hit scorer, after any history,
  any \<open>n\<close> successive requests no instance has cached blocks for, over the same \<open>n\<close> instances, go to
  every instance exactly once, with or without random tie-breaking.\<close>

theorem cold_requests_spread:
  assumes "new_routing_policy ''weighted'' [\<lparr>so_name = ''no-hit-lru'', so_weight = x\<rparr>] bs g (Some fns) = Inr p0"
    "0 < x" "rng_ok g" "router_run p0 p" "distinct ids" "length rs = length ids"
    "\<forall>(req, s) \<in> set rs. routable s \<and> sn_ids (ro_snapshots s) = ids \<and> (\<exists>q. req = Some q \<and> cold fns q ids)"
  shows "\<exists>ts p1. route_all rs p = Inr (ts, p1) \<and> distinct ts \<and> set ts = set ids"
proof -
  have "\<exists>st w. p0 = WeightedScoring w \<and> nohit_policy fns st w"
    using new_nohit_policy [OF assms(2,3), of bs fns] assms(1) by auto
  from nohit_policy_run [OF assms(4) this] obtain st w where w: "p = WeightedScoring w" "nohit_policy fns st w" by blast
  then have "nohit_ok st" unfolding nohit_policy_def by blast
  note perm = nh_ranking_perm [OF this assms(5)]
  have "\<exists>p1. route_all rs (WeightedScoring w) = Inr (nh_ranking ids st, p1)"
    using route_all_cold_from [OF w(2) _ _ assms(7), of "nh_ranking ids st" "[]"] perm(3) assms(6) by simp
  then show ?thesis using w(1) perm(1,2) by blast
qed

text \<open>C38 Prefix affinity follows shared prefixes: once a request was scored and sent to an instance, a
  request that shares its first \<open>k\<close> blocks scores at that instance at least \<open>k\<close> over the number
  of its own blocks (1 for a prompt that is a prefix in whole blocks), as long as the first prompt fits the index.\<close>

theorem affinity_follows_prefix:
  assumes "affinity_run bs a" "take (k * nat bs) (rq_input q1) = take (k * nat bs) (rq_input q2)"
    "k \<le> length (rq_input q1) div nat bs" "k \<le> length (rq_input q2) div nat bs" "0 < k"
    "int (length (rq_input q1) div nat bs) \<le> default_lru_capacity" "t \<in> set (sn_ids snaps)" "distinct (sn_ids snaps)"
  shows "\<exists>m1 a1 a2 m2 a3. score_affinity (Some q1) snaps a = Inr (m1, a1) \<and> observe_affinity (Some q1) t a1 = Inr a2 \<and>
    score_affinity (Some q2) snaps a2 = Inr (m2, a3) \<and> of_nat k / of_nat (length (rq_input q2) div nat bs) \<le> score_of m2 t"
proof -
  let ?h = "\<lambda>q. block_hashes_loop (nat bs) (length (rq_input q) div nat bs) '''' (rq_input q)"
  obtain v where bs: "px_block_size (pa_index a) = bs" "0 < bs" "px_lru_capacity (pa_index a) = default_lru_capacity"
    and v: "px_rel (pa_index a) v" using affinity_run_ok [OF assms(1)] by blast
  have hs: "px_compute_hashes i (full_input_tokens q) = Inr (?h q)" if "px_block_size i = bs" for i q
    using that bs(2) by (simp add: px_compute_hashes_def compute_block_hashes_def full_input_tokens_def)
  have ne: "?h q1 \<noteq> []" "?h q2 \<noteq> []" using assms(3-5) by (metis length_block_hashes_loop list.size(3) le_zero_eq less_numeral_extra(3))+
  define a1 where "a1 = a\<lparr>pa_hashes := ?h q1, pa_req := rq_id q1\<rparr>"
  obtain idx where idx: "record_blocks (?h q1) t (pa_index a) = Inr idx" "px_block_size idx = bs" "px_rel idx
      (v(t := fold (mru_touch (nat (px_lru_capacity (pa_index a)))) (?h q1) (v t)))"
    using record_blocks_ok [OF v, of "?h q1" t] bs(1) by blast
  define a2 where "a2 = a1\<lparr>pa_index := idx\<rparr>"
  have i2: "pa_index a2 = idx" by (simp add: a2_def)
  obtain m1 where s1: "score_affinity (Some q1) snaps a = Inr (m1, a1)" using hs [OF bs(1)] by (simp add: score_affinity_def a1_def)
  have o1: "observe_affinity (Some q1) t a1 = Inr a2"
    using idx(1) ne(1) by (simp add: observe_affinity_def a2_def a1_def)
  define m2 where "m2 = score_each (\<lambda>s. if ?h q2 = [] then 0 else of_int (match_length (?h q2) (sn_id s) idx) / of_nat (length (?h q2))) snaps"
  have s2: "score_affinity (Some q2) snaps a2 = Inr (m2, a2\<lparr>pa_hashes := ?h q2, pa_req := rq_id q2\<rparr>)"
    unfolding m2_def i2 [symmetric] using hs [of "pa_index a2" q2] idx(2) i2 by (simp add: score_affinity_def)
  have "set (?h q1) \<subseteq> set (fold (mru_touch (nat (px_lru_capacity (pa_index a)))) (?h q1) (v t))"
    using assms(6) bs(3) by (intro fold_mru_touch_new) simp
  moreover have "take k (?h q2) = take k (?h q1)" using block_hashes_take [OF assms(4,3) assms(2) [symmetric]] .
  ultimately have "set (take k (?h q2)) \<subseteq> set ((v(t := fold (mru_touch (nat (px_lru_capacity (pa_index a)))) (?h q1) (v t))) t)"
    by (auto dest: in_set_takeD)
  from takeWhile_long [OF this] have "int k \<le> match_length (?h q2) t idx"
    using px_rel_inst(5) [OF idx(3), of "?h q2" t] assms(4) by simp
  moreover obtain s where "s \<in> set snaps" "t = sn_id s" using assms(7) by auto
  ultimately have "of_nat k / of_nat (length (rq_input q2) div nat bs) \<le> score_of m2 t"
    using score_each_at [OF _ assms(8)] ne(2) unfolding m2_def
    by (simp add: divide_right_mono)
  then show ?thesis using s1 o1 s2 by blast
qed

section \<open>A concrete router\<close>

definition snap_of :: "string \<Rightarrow> int \<Rightarrow> snapshot" where
  "snap_of i depth = \<lparr>sn_id = i, sn_queue = depth, sn_batch = 1, sn_kv_util = 1 / 2, sn_free_kv = 4, sn_hit_rate = 0, sn_inflight = 0,
     sn_preemptions = 0, sn_model = '''', sn_gpu = '''', sn_tp = 1, sn_cost = 0, sn_total_kv = 8, sn_kv_used = 4,
     sn_ttft = 0, sn_itl = 0, sn_dispatch = 0, sn_avg_in = 0, sn_avg_out = 0, sn_max_batch = 0, sn_resident = Map.empty\<rparr>"

definition two_instances :: router_state where
  "two_instances = \<lparr>ro_snapshots = [snap_of ''a'' 3, snap_of ''b'' 1], ro_loading = [], ro_clock = 0, ro_selected = ''''\<rparr>"

definition one_digit :: "string \<Rightarrow> go_float option" where
  "one_digit s = (if s = ''2'' then Some (Finite 2) else if s = ''1'' then Some (Finite 1) else None)"

definition nothing_cached :: "string \<rightharpoonup> (token list \<Rightarrow> int)" where
  "nothing_cached = (\<lambda>i. if i = ''a'' then Some (\<lambda>_. 0) else None)"

lemma two_instances_routable: "routable two_instances" "sn_ids (ro_snapshots two_instances) = [''a'', ''b'']"
  "length (ro_snapshots two_instances) = 2"
  by (simp_all add: routable_def two_instances_def snap_of_def)

lemma one_digit_parse:
  "parse_scorer_configs one_digit ''queue-depth:2, no-hit-lru:1'' =
     Inr [\<lparr>so_name = ''queue-depth'', so_weight = 2\<rparr>, \<lparr>so_name = ''no-hit-lru'', so_weight = 1\<rparr>]"
  by code_simp

definition demo_weighted :: weighted where
  "demo_weighted = \<lparr>wp_scorers = [QueueDepth, NoHitLRU (Some nothing_cached) new_nohit], wp_weights = [2 / 3, 1 / 3], wp_rng = None\<rparr>"

lemma demo_weighted_new:
  "new_routing_policy ''weighted'' [\<lparr>so_name = ''queue-depth'', so_weight = 2\<rparr>, \<lparr>so_name = ''no-hit-lru'', so_weight = 1\<rparr>]
     16 None (Some nothing_cached) = Inr (WeightedScoring demo_weighted)"
  by (simp add: new_routing_policy_def valid_routing_policies_def new_scorer_def normalize_scorer_weights_def demo_weighted_def)

theorem router_always_decides_witness:
  "\<exists>d p1. route None two_instances (WeightedScoring demo_weighted) = Inr (d, p1) \<and> dc_target d \<in> {''a'', ''b''}"
  using router_always_decides [OF one_digit_parse, of "''weighted''" 16 None "Some nothing_cached"]
    demo_weighted_new router_run.start [of "WeightedScoring demo_weighted"] two_instances_routable
  by (fastforce simp: valid_routing_policies_def rng_ok_def)

theorem weighted_argmax_witness:
  "\<exists>d w1 m. route_weighted None two_instances demo_weighted = Inr (d, w1) \<and> dc_scores d = Some m \<and>
     score_of m ''a'' \<le> score_of m (dc_target d) \<and> score_of m ''b'' \<le> score_of m (dc_target d)"
  using weighted_argmax [OF one_digit_parse demo_weighted_new _ _ router_run.start two_instances_routable(1), of None]
  unfolding two_instances_routable by (auto simp: rng_ok_def)

theorem cold_requests_spread_witness:
  "\<exists>ts p1. route_all [(Some (demo_request ''r'' [1, 2] [3]), two_instances), (Some (demo_request ''s'' [4] [5]), two_instances)]
       (WeightedScoring \<lparr>wp_scorers = [NoHitLRU (Some nothing_cached) new_nohit], wp_weights = [1], wp_rng = None\<rparr>) = Inr (ts, p1) \<and>
     distinct ts \<and> set ts = {''a'', ''b''}"
proof -
  have new: "new_routing_policy ''weighted'' [\<lparr>so_name = ''no-hit-lru'', so_weight = 1\<rparr>] 16 None (Some nothing_cached) =
      Inr (WeightedScoring \<lparr>wp_scorers = [NoHitLRU (Some nothing_cached) new_nohit], wp_weights = [1], wp_rng = None\<rparr>)"
    by (simp add: new_routing_policy_def valid_routing_policies_def new_scorer_def normalize_scorer_weights_def)
  show ?thesis
    using cold_requests_spread [OF new _ _ router_run.start, of "[''a'', ''b'']"
        "[(Some (demo_request ''r'' [1, 2] [3]), two_instances), (Some (demo_request ''s'' [4] [5]), two_instances)]"] two_instances_routable
    by (simp add: rng_ok_def cold_def cached_blocks_def nothing_cached_def)
qed

theorem affinity_follows_prefix_witness:
  "\<exists>a m1 a1 a2 m2 a3. new_affinity 2 = Inr a \<and>
     score_affinity (Some (demo_request ''r'' [1, 2, 3, 4] [3])) (ro_snapshots two_instances) a = Inr (m1, a1) \<and>
     observe_affinity (Some (demo_request ''r'' [1, 2, 3, 4] [3])) ''b'' a1 = Inr a2 \<and>
     score_affinity (Some (demo_request ''s'' [1, 2, 9, 9] [3])) (ro_snapshots two_instances) a2 = Inr (m2, a3) \<and> 1 / 2 \<le> score_of m2 ''b''"
proof -
  define a where "a = \<lparr>pa_index = \<lparr>px_block_size = 2, px_lru_capacity = default_lru_capacity, px_instances = Map.empty\<rparr>, pa_hashes = [], pa_req = ''''\<rparr>"
  have a: "new_affinity 2 = Inr a"
    by (simp add: new_affinity_def new_prefix_index_def default_lru_capacity_def a_def)
  show ?thesis
    using affinity_follows_prefix [OF affinity_run.start [OF a], of 1 "demo_request ''r'' [1, 2, 3, 4] [3]" "demo_request ''s'' [1, 2, 9, 9] [3]"
        "''b''" "ro_snapshots two_instances"] a two_instances_routable
    by (auto simp: demo_request_def default_lru_capacity_def)
qed

end
