(* ===== verification/Admission.thy ===== *)
theory Admission
  imports Router_Policy Slo_Priority KV_Properties
begin

text \<open>
  Admission policies (\<open>sim/admission.go\<close>), the per-tenant budget tracker
  (\<open>sim/cluster/tenant.go\<close>) and the saturation detectors of flow control
  (\<open>sim/saturation.go\<close>). Thresholds, tokens and saturations are exact rationals; the checks that
  reject NaN and infinities have no counterpart. The figures of a readable reason are left out.
  The lemmas bound what a token bucket admits in any stretch of time.
\<close>

section \<open>Token bucket\<close>

record token_bucket =
  tb_capacity :: rat
  tb_rate :: rat
  tb_tokens :: rat
  tb_last :: tick

definition new_token_bucket :: "rat \<Rightarrow> rat \<Rightarrow> token_bucket outcome" where
  "new_token_bucket capacity rate =
     (if capacity \<le> 0 then Inl (Panic ''NewTokenBucket: capacity must be a finite value > 0'')
      else if rate \<le> 0 then Inl (Panic ''NewTokenBucket: refillRate must be a finite value > 0'')
      else Inr \<lparr>tb_capacity = capacity, tb_rate = rate, tb_tokens = capacity, tb_last = 0\<rparr>)"

definition tb_refill :: "tick \<Rightarrow> token_bucket \<Rightarrow> token_bucket" where
  "tb_refill clock tb =
     (let elapsed = clock - tb_last tb
      in if elapsed > 0
         then tb\<lparr>tb_tokens := min (tb_capacity tb) (tb_tokens tb + of_int elapsed * tb_rate tb / 1000000), tb_last := clock\<rparr>
         else tb)"

definition tb_admit :: "request \<Rightarrow> tick \<Rightarrow> token_bucket \<Rightarrow> (bool \<times> string) \<times> token_bucket" where
  "tb_admit q clock tb =
     (let tb1 = tb_refill clock tb; cost = of_int (input_len q)
      in if tb_tokens tb1 \<ge> cost then ((True, ''''), tb1\<lparr>tb_tokens := tb_tokens tb1 - cost\<rparr>)
         else ((False, ''insufficient tokens''), tb1))"

section \<open>Policies\<close>

record tier_shed =
  te_threshold :: int
  te_min_priority :: int
  te_map :: slo_map

definition new_tier_shed :: "int \<Rightarrow> int \<Rightarrow> slo_map option \<Rightarrow> tier_shed outcome" where
  "new_tier_shed threshold min_pri m =
     (if threshold < 0 then Inl (Panic ''NewTierShedAdmission: overloadThreshold must be >= 0'')
      else Inr \<lparr>te_threshold = threshold, te_min_priority = min_pri, te_map = (case m of None \<Rightarrow> default_slo_map | Some m \<Rightarrow> m)\<rparr>)"

definition tier_shed_admit :: "request \<Rightarrow> router_state \<Rightarrow> tier_shed \<Rightarrow> bool \<times> string" where
  "tier_shed_admit q st t =
     (let hi = fold (\<lambda>s m. if effective_load s > m then effective_load s else m) (ro_snapshots st) 0
      in if hi \<le> te_threshold t then (True, '''')
         else if slo_priority (te_map t) (rq_slo_class q) < te_min_priority t then (False, ''tier-shed'') else (True, ''''))"

record gaie_legacy =
  ga_qd :: rat
  ga_kv :: rat
  ga_map :: slo_map

definition new_gaie_legacy :: "rat \<Rightarrow> rat \<Rightarrow> slo_map option \<Rightarrow> gaie_legacy outcome" where
  "new_gaie_legacy qd kv m =
     (if qd \<le> 0 then Inl (Panic ''NewGAIELegacyAdmission: qdThreshold must be > 0'')
      else if kv \<le> 0 \<or> kv > 1 then Inl (Panic ''NewGAIELegacyAdmission: kvThreshold must be in (0, 1.0]'')
      else Inr \<lparr>ga_qd = qd, ga_kv = kv, ga_map = (case m of None \<Rightarrow> default_slo_map | Some m \<Rightarrow> m)\<rparr>)"

text \<open>The average over the instances of the larger of the two load ratios; 1 without instances.\<close>

definition pool_saturation :: "rat \<Rightarrow> rat \<Rightarrow> snapshot list \<Rightarrow> rat" where
  "pool_saturation qd kv snaps =
     (if snaps = [] then 1
      else fold (\<lambda>s x. x + max (of_int (sn_queue s) / qd) (sn_kv_util s / kv)) snaps 0 / of_nat (length snaps))"

definition gaie_admit :: "request \<Rightarrow> router_state \<Rightarrow> gaie_legacy \<Rightarrow> bool \<times> string" where
  "gaie_admit q st g =
     (if \<not> is_sheddable (ga_map g) (rq_slo_class q) then (True, '''')
      else if pool_saturation (ga_qd g) (ga_kv g) (ro_snapshots st) \<ge> 1 then (False, ''gaie-saturated'') else (True, ''''))"

datatype admission = AlwaysAdmit | TokenBucket token_bucket | RejectAll | TierShed tier_shed | GaieLegacy gaie_legacy

fun admit_request :: "request \<Rightarrow> router_state \<Rightarrow> admission \<Rightarrow> (bool \<times> string) \<times> admission" where
  "admit_request q st AlwaysAdmit = ((True, ''''), AlwaysAdmit)"
| "admit_request q st (TokenBucket tb) = (let (v, tb1) = tb_admit q (ro_clock st) tb in (v, TokenBucket tb1))"
| "admit_request q st RejectAll = ((False, ''reject-all''), RejectAll)"
| "admit_request q st (TierShed t) = (tier_shed_admit q st t, TierShed t)"
| "admit_request q st (GaieLegacy g) = (gaie_admit q st g, GaieLegacy g)"

definition valid_admission_policies :: "string list" where
  "valid_admission_policies = ['''', ''always-admit'', ''token-bucket'', ''reject-all'', ''tier-shed'', ''gaie-legacy'']"

definition new_admission_policy :: "string \<Rightarrow> rat \<Rightarrow> rat \<Rightarrow> admission outcome" where
  "new_admission_policy name capacity rate =
     (if name \<notin> set valid_admission_policies then Inl (Panic ''unknown admission policy'')
      else if name = '''' \<or> name = ''always-admit'' then Inr AlwaysAdmit
      else if name = ''token-bucket'' then obind (new_token_bucket capacity rate) (\<lambda>tb. Inr (TokenBucket tb))
      else if name = ''reject-all'' then Inr RejectAll
      else if name = ''tier-shed'' then Inl (Panic ''tier-shed requires NewTierShedAdmission; cannot use generic factory'')
      else Inl (Panic ''gaie-legacy requires NewGAIELegacyAdmission; cannot use generic factory''))"

section \<open>Tenants\<close>

record tenant_tracker =
  tk_budgets :: "string \<rightharpoonup> rat"
  tk_inflight :: "string \<Rightarrow> int"
  tk_capacity :: int

text \<open>The budgets are checked in some order of the map; the tenant of the panic is left out.\<close>

definition new_tenant_tracker :: "(string \<times> rat) list \<Rightarrow> int \<Rightarrow> tenant_tracker outcome" where
  "new_tenant_tracker budgets capacity =
     (if list_ex (\<lambda>(t, v). v < 0 \<or> v > 1) budgets then Inl (Panic ''NewTenantTracker: budget must be in [0, 1]'')
      else Inr \<lparr>tk_budgets = map_of budgets, tk_inflight = (\<lambda>_. 0), tk_capacity = (if capacity < 1 then 1 else capacity)\<rparr>)"

definition is_over_budget :: "string \<Rightarrow> tenant_tracker \<Rightarrow> bool" where
  "is_over_budget t tk =
     (if t = '''' then False
      else case tk_budgets tk t of
        None \<Rightarrow> False
      | Some b \<Rightarrow> of_int (tk_inflight tk t) > b * of_int (tk_capacity tk))"

definition tenant_start :: "string \<Rightarrow> tenant_tracker \<Rightarrow> tenant_tracker" where
  "tenant_start t tk = (if t = '''' then tk else tk\<lparr>tk_inflight := (tk_inflight tk)(t := tk_inflight tk t + 1)\<rparr>)"

definition tenant_complete :: "string \<Rightarrow> tenant_tracker \<Rightarrow> tenant_tracker" where
  "tenant_complete t tk =
     (if t = '''' then tk
      else if tk_inflight tk t > 0 then tk\<lparr>tk_inflight := (tk_inflight tk)(t := tk_inflight tk t - 1)\<rparr> else tk)"

text \<open>The check of \<open>TenantBudgetAdmission\<close>, made before the policy it wraps.\<close>

definition budget_sheds :: "request \<Rightarrow> tenant_tracker \<Rightarrow> slo_map \<Rightarrow> bool" where
  "budget_sheds q tk pm \<longleftrightarrow> is_over_budget (rq_tenant q) tk \<and> is_sheddable pm (rq_slo_class q)"

section \<open>Saturation detectors\<close>

datatype detector = NeverSaturated | UtilizationDetector rat rat | ConcurrencyDetector int

definition new_saturation_detector :: "string \<Rightarrow> rat \<Rightarrow> rat \<Rightarrow> int \<Rightarrow> detector outcome" where
  "new_saturation_detector name qd kv n =
     (if name = '''' \<or> name = ''never'' then Inr NeverSaturated
      else if name = ''utilization'' then
        (if qd \<le> 0 then Inl (Panic ''UtilizationDetector: queueDepthThreshold must be a finite value > 0'')
         else if kv \<le> 0 then Inl (Panic ''UtilizationDetector: kvCacheUtilThreshold must be a finite value > 0'')
         else Inr (UtilizationDetector qd kv))
      else if name = ''concurrency'' then
        (if n \<le> 0 then Inl (Panic ''ConcurrencyDetector: maxConcurrency must be > 0'') else Inr (ConcurrencyDetector n))
      else Inl (Panic ''unknown saturation detector''))"

fun saturation :: "router_state \<Rightarrow> detector \<Rightarrow> rat" where
  "saturation st NeverSaturated = 0"
| "saturation st (UtilizationDetector qd kv) = pool_saturation qd kv (ro_snapshots st)"
| "saturation st (ConcurrencyDetector n) =
     (if ro_snapshots st = [] then 1
      else of_int (fold (\<lambda>s x. x + sn_inflight s) (ro_snapshots st) 0) / of_int (int (length (ro_snapshots st)) * n))"

section \<open>What a token bucket admits\<close>

definition tb_ok :: "token_bucket \<Rightarrow> bool" where
  "tb_ok tb \<longleftrightarrow> 0 \<le> tb_tokens tb \<and> tb_tokens tb \<le> tb_capacity tb \<and> 0 < tb_capacity tb \<and> 0 < tb_rate tb"

text \<open>A stretch of arrivals: each request with the clock of its admission.\<close>

fun tb_run :: "(request \<times> tick) list \<Rightarrow> token_bucket \<Rightarrow> bool list \<times> token_bucket" where
  "tb_run [] tb = ([], tb)"
| "tb_run ((q, t) # qs) tb =
     (let ((ok, _), tb1) = tb_admit q t tb; (oks, tb2) = tb_run qs tb1 in (ok # oks, tb2))"

definition admitted_tokens :: "(request \<times> tick) list \<Rightarrow> bool list \<Rightarrow> int" where
  "admitted_tokens qs oks = sum_list (map2 (\<lambda>(q, _) ok. if ok then input_len q else 0) qs oks)"

lemma tb_refill_ok:
  assumes "tb_ok tb"
  shows "tb_ok (tb_refill t tb)" "tb_last tb \<le> tb_last (tb_refill t tb)" "t \<le> tb_last (tb_refill t tb)"
    "tb_last (tb_refill t tb) = max t (tb_last tb)"
    "tb_tokens (tb_refill t tb) \<le> tb_tokens tb + of_int (tb_last (tb_refill t tb) - tb_last tb) * tb_rate tb / 1000000"
    "tb_rate (tb_refill t tb) = tb_rate tb" "tb_capacity (tb_refill t tb) = tb_capacity tb"
  using assms by (auto simp: tb_refill_def tb_ok_def Let_def min_def intro: add_nonneg_nonneg)

lemma tb_admit_ok:
  assumes "tb_ok tb" "tb_admit q t tb = ((ok, why), tb1)"
  shows "tb_ok tb1" "tb_last tb1 = max t (tb_last tb)" "tb_rate tb1 = tb_rate tb" "tb_capacity tb1 = tb_capacity tb"
    "tb_tokens tb1 + (if ok then of_int (input_len q) else 0) \<le> tb_tokens tb + of_int (tb_last tb1 - tb_last tb) * tb_rate tb / 1000000"
    "ok \<longleftrightarrow> of_int (input_len q) \<le> tb_tokens (tb_refill t tb)"
proof -
  note r = tb_refill_ok [OF assms(1), of t]
  have c: "tb1 = (if ok then (tb_refill t tb)\<lparr>tb_tokens := tb_tokens (tb_refill t tb) - of_int (input_len q)\<rparr> else tb_refill t tb)"
      "ok \<longleftrightarrow> of_int (input_len q) \<le> tb_tokens (tb_refill t tb)"
    using assms(2) by (auto simp: tb_admit_def Let_def split: if_splits)

  have le: "x - of_int (input_len q) \<le> x" for x :: rat by simp
  have "tb_tokens (tb_refill t tb) - of_int (input_len q) \<le> tb_capacity (tb_refill t tb)"
    by (rule order_trans [OF le]) (use r(1) in \<open>simp add: tb_ok_def\<close>)
  then show "tb_ok tb1" using r(1) c unfolding tb_ok_def by (cases ok) simp_all
  show "tb_last tb1 = max t (tb_last tb)" "tb_rate tb1 = tb_rate tb" "tb_capacity tb1 = tb_capacity tb" using r c(1) by simp_all
  show "tb_tokens tb1 + (if ok then of_int (input_len q) else 0) \<le> tb_tokens tb + of_int (tb_last tb1 - tb_last tb) * tb_rate tb / 1000000"
    using r(5) c(1) by simp
  show "ok \<longleftrightarrow> of_int (input_len q) \<le> tb_tokens (tb_refill t tb)" by (rule c(2))
qed

lemma tb_run_ok:
  assumes "tb_ok tb" "tb_run qs tb = (oks, tb2)"
  shows "tb_ok tb2 \<and> tb_rate tb2 = tb_rate tb \<and> tb_capacity tb2 = tb_capacity tb \<and> tb_last tb \<le> tb_last tb2 \<and>
    tb_last tb2 = fold max (map snd qs) (tb_last tb) \<and>
    tb_tokens tb2 + of_int (admitted_tokens qs oks) \<le> tb_tokens tb + of_int (tb_last tb2 - tb_last tb) * tb_rate tb / 1000000"
  using assms
proof (induction qs arbitrary: tb oks)
  case (Cons x qs)
  obtain q t where x: "x = (q, t)" by (cases x)
  obtain ok why tb1 where a: "tb_admit q t tb = ((ok, why), tb1)" by (metis surj_pair)
  obtain oks1 where b: "tb_run qs tb1 = (oks1, tb2)" "oks = ok # oks1"
    using Cons.prems(2) a unfolding x by (auto simp: Let_def split: prod.splits)
  note one = tb_admit_ok [OF Cons.prems(1) a]
  note IH = Cons.IH [OF one(1) b(1)]
  have "admitted_tokens (x # qs) oks = (if ok then input_len q else 0) + admitted_tokens qs oks1"
    by (simp add: admitted_tokens_def x b(2))
  moreover have "tb_tokens tb2 + of_int (admitted_tokens qs oks1) + (if ok then of_int (input_len q) else 0)
      \<le> tb_tokens tb + of_int (tb_last tb2 - tb_last tb) * tb_rate tb / 1000000"
    using IH one(3,5) by (auto simp: field_simps split: if_splits)
  ultimately show ?case using IH one(2-4) by (auto simp: x)
qed (simp add: admitted_tokens_def)

inductive bucket_run :: "rat \<Rightarrow> rat \<Rightarrow> token_bucket \<Rightarrow> bool" for capacity rate where
  start: "new_token_bucket capacity rate = Inr tb \<Longrightarrow> bucket_run capacity rate tb"
| admit: "bucket_run capacity rate tb \<Longrightarrow> tb_admit q t tb = (v, tb1) \<Longrightarrow> bucket_run capacity rate tb1"

lemma bucket_run_ok: "bucket_run capacity rate tb \<Longrightarrow> tb_ok tb \<and> tb_capacity tb = capacity \<and> tb_rate tb = rate"
proof (induction rule: bucket_run.induct)
  case (start tb)
  then show ?case by (auto simp: new_token_bucket_def tb_ok_def split: if_splits)
next
  case (admit tb q t v tb1)
  then show ?case using tb_admit_ok [of tb q t "fst v" "snd v" tb1] by simp
qed

text \<open>C39 Rate limit: after any history, over any further stretch of requests the prompt tokens a token
  bucket admits are at most its capacity and what it refills in the time the stretch takes; and a
  request is refused only when its prompt is longer than the tokens the bucket then holds.\<close>

theorem token_bucket_rate:
  assumes "bucket_run capacity rate tb" "tb_run qs tb = (oks, tb2)"
  shows "of_int (admitted_tokens qs oks) \<le> capacity + of_int (fold max (map snd qs) (tb_last tb) - tb_last tb) * rate / 1000000 \<and>
    (\<forall>q t. tb_last tb \<le> t \<longrightarrow> fst (fst (tb_admit q t tb)) =
       (of_int (input_len q) \<le> min capacity (tb_tokens tb + of_int (t - tb_last tb) * rate / 1000000)))"
proof
  note b = bucket_run_ok [OF assms(1)]
  have "0 \<le> tb_tokens tb2" "tb_tokens tb \<le> capacity" using tb_run_ok [OF _ assms(2)] b by (auto simp: tb_ok_def)
  then show "of_int (admitted_tokens qs oks) \<le> capacity + of_int (fold max (map snd qs) (tb_last tb) - tb_last tb) * rate / 1000000"
    using tb_run_ok [OF _ assms(2)] b by (auto simp: field_simps)
  show "\<forall>q t. tb_last tb \<le> t \<longrightarrow> fst (fst (tb_admit q t tb)) =
       (of_int (input_len q) \<le> min capacity (tb_tokens tb + of_int (t - tb_last tb) * rate / 1000000))"
    using b by (auto simp: tb_admit_def tb_refill_def Let_def tb_ok_def)
qed

theorem token_bucket_rate_witness:
  "\<exists>tb oks tb2 qs. new_token_bucket 10 1000000 = Inr tb \<and> tb_run qs tb = (oks, tb2) \<and> map snd qs = [0, 3] \<and>
     of_int (admitted_tokens qs oks) \<le> (13 :: rat)"
proof -
  define tb where "tb = \<lparr>tb_capacity = 10, tb_rate = 1000000, tb_tokens = 10, tb_last = 0\<rparr>"
  have new: "new_token_bucket 10 1000000 = Inr tb" by (simp add: new_token_bucket_def tb_def)
  define qs where "qs = [(demo_request ''r'' [1, 2] [], 0), (demo_request ''r'' [1, 2] [], 3 :: tick)]"
  have snd: "map snd qs = [0, 3]" by (simp add: qs_def)
  obtain oks tb2 where r: "tb_run qs tb = (oks, tb2)" by (metis surj_pair)
  have "of_int (admitted_tokens qs oks) \<le> (13 :: rat)"
    using token_bucket_rate [OF bucket_run.start [OF new] r] snd by (simp add: tb_def)
  with new r snd show ?thesis by (intro exI conjI)
qed

end
