(* ===== verification/Eviction_Tracker.thy ===== *)
theory Eviction_Tracker
  imports Heap_Queue Request_Model Slo_Priority KV_Properties
begin

text \<open>
  The tracker of dispatched sheddable requests (\<open>sim/cluster/eviction_tracker.go\<close>): a heap of
  entries, most evictable first, and the entry each request ID was tracked under. An entry is
  addressed by the number it was made with; its \<open>index\<close> field, which \<open>Swap\<close>, \<open>Push\<close> and \<open>Pop\<close>
  keep equal to its place in the heap, is that place. The lemmas show that removal by index keeps
  the heap and that no operation indexes outside it.
\<close>

section \<open>heap.Remove\<close>

text \<open>Whether \<open>down\<close> moves the element at \<open>i\<close>.\<close>

definition heap_down_moves :: "('a \<Rightarrow> 'a \<Rightarrow> bool) \<Rightarrow> 'a list \<Rightarrow> nat \<Rightarrow> nat \<Rightarrow> bool" where
  "heap_down_moves lt h i n =
     (let j1 = 2 * i + 1; j2 = j1 + 1; j = (if j2 < n \<and> lt (h ! j2) (h ! j1) then j2 else j1)
      in j1 < n \<and> lt (h ! j) (h ! i))"

definition heap_sift :: "('a \<Rightarrow> 'a \<Rightarrow> bool) \<Rightarrow> 'a list \<Rightarrow> nat \<Rightarrow> nat \<Rightarrow> 'a list" where
  "heap_sift lt h i n = (if heap_down_moves lt h i n then heap_down lt h i n else heap_up lt h i)"

definition heap_remove :: "('a \<Rightarrow> 'a \<Rightarrow> bool) \<Rightarrow> nat \<Rightarrow> 'a list \<Rightarrow> 'a \<times> 'a list" where
  "heap_remove lt i h =
     (let n = length h - 1; h1 = (if n \<noteq> i then heap_sift lt (heap_swap h i n) i n else h)
      in (h1 ! n, take n h1))"

lemma heap_down_still: "\<not> heap_down_moves lt h i n \<Longrightarrow> heap_down lt h i n = h"
  by (subst heap_down.simps) (auto simp: heap_down_moves_def Let_def split: if_splits)

lemma heap_swap_take: "i < n \<Longrightarrow> j < n \<Longrightarrow> n \<le> length h \<Longrightarrow> take n (heap_swap h i j) = heap_swap (take n h) i j"
  by (simp add: heap_swap_def take_update_swap)

lemma heap_up_take: "j < n \<Longrightarrow> n \<le> length h \<Longrightarrow> take n (heap_up lt h j) = heap_up lt (take n h) j"
proof (induction lt h j rule: heap_up.induct)
  case (1 lt h j)
  have i: "par j < n" using 1(2) by auto
  show ?case
    by (subst (1 2) heap_up.simps) (use 1 i in \<open>auto simp: Let_def heap_swap_take\<close>)
qed

lemma heap_up_above: "j < k \<Longrightarrow> k < length h \<Longrightarrow> heap_up lt h j ! k = h ! k"
proof (induction lt h j rule: heap_up.induct)
  case (1 lt h j)
  have i: "par j \<le> j" by auto
  then show ?case
    by (subst heap_up.simps) (use 1 i in \<open>auto simp: Let_def heap_swap_nth\<close>)
qed

lemma heap_remove_mset:
  assumes "i < length h" "heap_remove lt i h = (x, h')"
  shows "x = h ! i" "mset h = add_mset x (mset h')"
proof -
  let ?n = "length h - 1"
  define g where "g = (if ?n \<noteq> i then heap_sift lt (heap_swap h i ?n) i ?n else h)"
  have x: "x = g ! ?n" "h' = take ?n g" using assms(2) unfolding heap_remove_def Let_def g_def by simp_all
  have n: "?n < length h" using assms(1) by simp
  have g: "mset g = mset h" "length g = length h"
    using assms(1) n by (simp_all add: g_def heap_sift_def mset_heap_down mset_heap_up mset_heap_swap length_heap_down length_heap_up)
  show "x = h ! i"
    using assms(1) n heap_down_above [of ?n "heap_swap h i ?n" ?n lt i] heap_up_above [of i ?n "heap_swap h i ?n" lt]
    unfolding x g_def by (simp add: heap_sift_def heap_swap_nth)
  have "g = take ?n g @ [g ! ?n]" using g(2) n by (metis Suc_diff_1 length_greater_0_conv list.size(3) not_less_zero take_Suc_conv_app_nth take_all_iff order_refl)
  then show "mset h = add_mset x (mset h')" using g(1) x by (metis add_mset_add_single mset_append mset_single_iff_right union_code mset.simps)
qed

context weak_order begin

lemma heap_remove_heap:
  assumes "is_heap h" "i < length h" "heap_remove lt i h = (x, h')"
  shows "is_heap h'"
proof (cases "i = length h - 1")
  case True
  then have "h' = take (length h - 1) h" using assms(3) by (simp add: heap_remove_def Let_def)
  then show ?thesis using assms(1) by (auto simp: is_heap_def)
next
  case False
  let ?n = "length h - 1" and ?g = "heap_swap h i (length h - 1)"
  have i: "i < ?n" "?n < length h" using False assms(2) by auto
  have nth: "?g ! k = (if k = i then h ! ?n else h ! k)" if "k < ?n" for k
    using heap_swap_nth [of i h ?n k] i that by auto
  have le: "\<not> lt (h ! k) (h ! par k)" if "0 < k" "k < ?n" for k using assms(1) that by (simp add: is_heap_def)
  have child: "\<not> lt (h ! c) (h ! par i)" if "0 < i" "c < ?n" "0 < c" "par c = i" for c
    using le [of c] le [of i] that i nlt_trans by metis
  have childg: "\<not> lt (?g ! c) (?g ! par i)" if "0 < i" "0 < c" "c < ?n" "par c = i" for c
    using child [of c] nth [of c] nth [of "par i"] that i par_less [of c] par_less [of i] by auto
  have other: "\<not> lt (?g ! k) (?g ! par k)" if "0 < k" "k < ?n" "k \<noteq> i" "par k \<noteq> i" for k
    using le [of k] nth [of k] nth [of "par k"] that by auto
  show ?thesis
  proof (cases "heap_down_moves lt ?g i ?n")
    case True
    let ?j = "if 2 * i + 1 + 1 < ?n \<and> lt (?g ! (2 * i + 1 + 1)) (?g ! (2 * i + 1)) then 2 * i + 1 + 1 else 2 * i + 1"
    have j: "?j < ?n" "lt (?g ! ?j) (?g ! i)" "par ?j = i" "0 < ?j" using True by (auto simp: heap_down_moves_def Let_def split: if_splits)
    have top: "\<not> lt (?g ! i) (?g ! par i)" if "0 < i"
      using childg [OF that j(4,1,3)] j(2) lt_trans by blast
    have "heap_prefix (heap_down lt ?g i ?n) ?n"
    proof (rule heap_down_heap)
      show "?n \<le> length ?g" "i < ?n \<or> ?n = 0" using i by simp_all
      show "\<not> lt (?g ! k) (?g ! par k)" if "0 < k" "k < ?n" "par k \<noteq> i" for k
        using other [OF that(1,2) _ that(3)] top that by (cases "k = i") auto
    qed (use childg in blast)
    moreover have "h' = take ?n (heap_down lt ?g i ?n)" using assms(3) True False by (auto simp: heap_remove_def heap_sift_def Let_def)
    ultimately show ?thesis by (auto simp: is_heap_def heap_prefix_def)
  next
    case still: False
    have small: "\<not> lt (?g ! c) (?g ! i)" if "0 < c" "c < ?n" "par c = i" for c
    proof -
      let ?a = "?g ! (2 * i + 1)" and ?b = "?g ! (2 * i + 2)" and ?x = "?g ! i"
      have c: "c = 2 * i + 1 \<or> c = 2 * i + 2" using that par_children by blast
      have j1: "2 * i + 1 < ?n" using c that by auto
      show ?thesis
      proof (cases "2 * i + 2 < ?n \<and> lt ?b ?a")
        case True
        then have "\<not> lt ?b ?x" using still j1 by (simp add: heap_down_moves_def Let_def)
        then have "\<not> lt ?a ?x" using True lt_trans [of ?b ?a ?x] by blast
        with \<open>\<not> lt ?b ?x\<close> show ?thesis using c by (elim disjE) (simp_all only: not_False_eq_True simp_thms)
      next
        case ge: False
        then have a: "\<not> lt ?a ?x" using still j1 by (auto simp: heap_down_moves_def Let_def)
        have b: "c = 2 * i + 2 \<Longrightarrow> \<not> lt ?b ?x" using ge that a nlt_trans [of ?a ?x ?b] by blast
        show ?thesis using c a b by (elim disjE) (simp_all only: simp_thms)
      qed
    qed
    have "h' = take ?n (heap_up lt ?g i)" using assms(3) still False by (auto simp: heap_remove_def heap_sift_def Let_def)
    then have h': "h' = heap_up lt (take ?n ?g) i" using heap_up_take [of i ?n ?g lt] i by simp
    show ?thesis unfolding h'
    proof (rule heap_up_heap)
      show "i < length (take ?n ?g)" using i by simp
      show "\<not> lt (take ?n ?g ! k) (take ?n ?g ! par k)" if "0 < k" "k < length (take ?n ?g)" "k \<noteq> i" for k
        using that small [of k] other [of k] by (cases "par k = i") auto
      show "\<not> lt (take ?n ?g ! c) (take ?n ?g ! par i)" if "0 < i" "0 < c" "c < length (take ?n ?g)" "par c = i" for c
        using childg [of c] that i par_less [of i] by auto
    qed
  qed
qed

end


section \<open>The tracker\<close>

record evict_entry =
  ve_req :: request
  ve_priority :: int
  ve_time :: tick
  ve_instance :: string
  ve_ptr :: nat

text \<open>\<open>Less\<close>: lowest priority first, then the newest dispatch.\<close>

definition ve_less :: "evict_entry \<Rightarrow> evict_entry \<Rightarrow> bool" where
  "ve_less a b = (if ve_priority a \<noteq> ve_priority b then ve_priority a < ve_priority b else ve_time a > ve_time b)"

interpretation veh: weak_order ve_less
  by unfold_locales (auto simp: ve_less_def split: if_splits)

record evict_tracker =
  vt_heap :: "evict_entry list"
  vt_by_id :: "string \<rightharpoonup> nat"
  vt_next :: nat

definition new_eviction_tracker :: evict_tracker where
  "new_eviction_tracker = \<lparr>vt_heap = [], vt_by_id = Map.empty, vt_next = 0\<rparr>"

definition vt_track :: "request \<Rightarrow> string \<Rightarrow> slo_map \<Rightarrow> evict_tracker \<Rightarrow> evict_tracker" where
  "vt_track q inst pm et =
     (if \<not> is_sheddable pm (rq_slo_class q) then et
      else let e = \<lparr>ve_req = q, ve_priority = slo_priority pm (rq_slo_class q), ve_time = rq_gw_dispatch q,
                    ve_instance = inst, ve_ptr = vt_next et\<rparr>
           in et\<lparr>vt_heap := heap_push ve_less e (vt_heap et), vt_by_id := (vt_by_id et)(rq_id q \<mapsto> ve_ptr e),
                 vt_next := vt_next et + 1\<rparr>)"

text \<open>The \<open>index\<close> field of an entry: its place in the heap, and -1 once it has left it.\<close>

fun place :: "nat \<Rightarrow> evict_entry list \<Rightarrow> nat option" where
  "place p [] = None"
| "place p (e # es) = (if ve_ptr e = p then Some 0 else map_option Suc (place p es))"

definition vt_untrack :: "string \<Rightarrow> evict_tracker \<Rightarrow> evict_tracker outcome" where
  "vt_untrack r et =
     (case vt_by_id et r of
        None \<Rightarrow> Inr et
      | Some p \<Rightarrow> (case place p (vt_heap et) of
          None \<Rightarrow> Inl IndexOutOfRange
        | Some i \<Rightarrow> Inr (et\<lparr>vt_heap := snd (heap_remove ve_less i (vt_heap et)), vt_by_id := (vt_by_id et)(r := None)\<rparr>)))"

definition vt_pop :: "evict_tracker \<Rightarrow> (request \<times> string) option \<times> evict_tracker" where
  "vt_pop et =
     (case heap_pop ve_less (vt_heap et) of
        None \<Rightarrow> (None, et)
      | Some (e, h) \<Rightarrow> (Some (ve_req e, ve_instance e), et\<lparr>vt_heap := h, vt_by_id := (vt_by_id et)(rq_id (ve_req e) := None)\<rparr>))"

definition vt_len :: "evict_tracker \<Rightarrow> int" where
  "vt_len et = int (length (vt_heap et))"

section \<open>What the tracker keeps\<close>

text \<open>
  The heap property; entries made by different calls; and a pointer under an ID is an entry of
  the heap with that ID. A request tracked again while it is still tracked leaves its first entry in
  the heap without a pointer to it.
\<close>

definition vt_inv :: "evict_tracker \<Rightarrow> bool" where
  "vt_inv et \<longleftrightarrow> veh.is_heap (vt_heap et) \<and> distinct (map ve_ptr (vt_heap et)) \<and>
     (\<forall>e \<in> set (vt_heap et). ve_ptr e < vt_next et) \<and>
     (\<forall>r p. vt_by_id et r = Some p \<longrightarrow> (\<exists>e \<in> set (vt_heap et). ve_ptr e = p \<and> rq_id (ve_req e) = r))"

lemma place_Some: "place p es = Some i \<Longrightarrow> i < length es \<and> ve_ptr (es ! i) = p"
  by (induction es arbitrary: i) (auto split: if_splits)

lemma place_None: "place p es = None \<longleftrightarrow> p \<notin> ve_ptr ` set es"
  by (induction es) auto

lemma vt_inv_new: "vt_inv new_eviction_tracker"
  by (simp add: vt_inv_def new_eviction_tracker_def)

lemma vt_inv_track: "vt_inv et \<Longrightarrow> vt_inv (vt_track q inst pm et)"
proof -
  assume inv: "vt_inv et"
  define e where "e = \<lparr>ve_req = q, ve_priority = slo_priority pm (rq_slo_class q), ve_time = rq_gw_dispatch q,
                    ve_instance = inst, ve_ptr = vt_next et\<rparr>"
  let ?h = "heap_push ve_less e (vt_heap et)"
  have m: "mset ?h = add_mset e (mset (vt_heap et))" by (rule mset_heap_push)
  then have s: "set ?h = insert e (set (vt_heap et))" by (metis set_mset_add_mset_insert set_mset_mset)
  have d: "distinct (map ve_ptr ?h)"
  proof -
    have "mset (map ve_ptr ?h) = mset (ve_ptr e # map ve_ptr (vt_heap et))" using m by simp
    moreover have "distinct (ve_ptr e # map ve_ptr (vt_heap et))" using inv by (auto simp: vt_inv_def e_def)
    ultimately show ?thesis by (metis mset_eq_imp_distinct_iff)
  qed
  have h: "veh.is_heap ?h" using inv veh.heap_push_heap by (simp add: vt_inv_def)
  have p: "ve_ptr e = vt_next et" "rq_id (ve_req e) = rq_id q" by (simp_all add: e_def)
  show ?thesis
    using inv h d s p unfolding vt_track_def e_def [symmetric] Let_def
    by (auto simp: vt_inv_def less_Suc_eq)
qed

lemma vt_inv_drop:
  assumes "vt_inv et" "mset (vt_heap et) = add_mset e (mset h)" "veh.is_heap h"
  shows "vt_inv (et\<lparr>vt_heap := h, vt_by_id := (vt_by_id et)(rq_id (ve_req e) := None)\<rparr>)"
proof -
  have s: "set (vt_heap et) = insert e (set h)" by (metis assms(2) set_mset_add_mset_insert set_mset_mset)
  have "mset (map ve_ptr (vt_heap et)) = mset (ve_ptr e # map ve_ptr h)" using assms(2) by simp
  moreover have "distinct (map ve_ptr (vt_heap et))" using assms(1) by (simp add: vt_inv_def)
  ultimately have d: "distinct (ve_ptr e # map ve_ptr h)" by (metis mset_eq_imp_distinct_iff)
  have "\<exists>f \<in> set h. ve_ptr f = p \<and> rq_id (ve_req f) = r" if at: "vt_by_id et r = Some p" "r \<noteq> rq_id (ve_req e)" for r p
  proof -
    obtain f where "f \<in> set (vt_heap et)" "ve_ptr f = p" "rq_id (ve_req f) = r" using assms(1) at(1) unfolding vt_inv_def by blast
    then show ?thesis using at(2) s by auto
  qed
  then show ?thesis using assms(1,3) s d by (auto simp: vt_inv_def)
qed

lemma vt_pop_Some:
  assumes "vt_inv et" "heap_pop ve_less (vt_heap et) = Some (e, h)"
  shows "vt_inv (snd (vt_pop et))" "e \<in> set (vt_heap et)" "f \<in> set (vt_heap et) \<Longrightarrow> \<not> ve_less f e"
    "mset (vt_heap et) = add_mset e (mset h)"
proof -
  show m: "mset (vt_heap et) = add_mset e (mset h)" by (rule heap_pop_SomeD(3) [OF assms(2)])
  then show "e \<in> set (vt_heap et)" by (metis insertI1 set_mset_add_mset_insert set_mset_mset)
  show "\<not> ve_less f e" if "f \<in> set (vt_heap et)"
    using veh.heap_pop_least [OF _ assms(2) that] assms(1) by (simp add: vt_inv_def)
  have "veh.is_heap h" using veh.heap_pop_heap [OF _ assms(2)] assms(1) by (simp add: vt_inv_def)
  then show "vt_inv (snd (vt_pop et))" using vt_inv_drop [OF assms(1) m] assms(2) by (simp add: vt_pop_def)
qed

lemma vt_inv_pop: "vt_inv et \<Longrightarrow> vt_inv (snd (vt_pop et))"
  by (cases "heap_pop ve_less (vt_heap et)") (auto simp: vt_pop_def dest: vt_pop_Some(1) split: option.splits prod.splits)

lemma vt_untrack_Some:
  assumes "vt_inv et" "vt_by_id et r = Some p"
  obtains e h where "e \<in> set (vt_heap et)" "ve_ptr e = p" "rq_id (ve_req e) = r" "mset (vt_heap et) = add_mset e (mset h)"
    "vt_untrack r et = Inr (et\<lparr>vt_heap := h, vt_by_id := (vt_by_id et)(r := None)\<rparr>)"
    "vt_inv (et\<lparr>vt_heap := h, vt_by_id := (vt_by_id et)(r := None)\<rparr>)"
proof -
  obtain e where e: "e \<in> set (vt_heap et)" "ve_ptr e = p" "rq_id (ve_req e) = r" using assms unfolding vt_inv_def by blast
  then obtain i where i: "place p (vt_heap et) = Some i" using place_None [of p "vt_heap et"] by (cases "place p (vt_heap et)") auto
  note at = place_Some [OF i]
  have same: "vt_heap et ! i = e"
    using assms(1) at e by (metis (no_types, lifting) distinct_map inj_on_eq_iff nth_mem vt_inv_def)
  obtain x h where r: "heap_remove ve_less i (vt_heap et) = (x, h)" by (metis surj_pair)
  note m = heap_remove_mset [OF _ r]
  have x: "x = e" "mset (vt_heap et) = add_mset e (mset h)" using m at same by simp_all
  have "veh.is_heap h" using veh.heap_remove_heap [OF _ _ r] at assms(1) by (simp add: vt_inv_def)
  then have "vt_inv (et\<lparr>vt_heap := h, vt_by_id := (vt_by_id et)(r := None)\<rparr>)" using vt_inv_drop [OF assms(1) x(2)] e by simp
  then show ?thesis using that e x(2) assms(2) i r by (simp add: vt_untrack_def)
qed

inductive tracked :: "slo_map \<Rightarrow> evict_tracker \<Rightarrow> bool" for pm where
  start: "tracked pm new_eviction_tracker"
| track: "tracked pm et \<Longrightarrow> tracked pm (vt_track q inst pm et)"
| untrack: "tracked pm et \<Longrightarrow> vt_untrack r et = Inr et1 \<Longrightarrow> tracked pm et1"
| pop: "tracked pm et \<Longrightarrow> vt_pop et = (v, et1) \<Longrightarrow> tracked pm et1"

text \<open>Every entry carries the priority of its class, which is sheddable, and the dispatch time it had.\<close>

definition vt_prio :: "slo_map \<Rightarrow> evict_tracker \<Rightarrow> bool" where
  "vt_prio pm et \<longleftrightarrow> (\<forall>e \<in> set (vt_heap et). ve_priority e = slo_priority pm (rq_slo_class (ve_req e)) \<and>
     ve_priority e < 0 \<and> ve_time e = rq_gw_dispatch (ve_req e))"

lemma vt_untrack_cases:
  assumes "vt_inv et"
  obtains "vt_by_id et r = None" "vt_untrack r et = Inr et"
  | e h where "vt_by_id et r = Some (ve_ptr e)" "e \<in> set (vt_heap et)" "rq_id (ve_req e) = r" "mset (vt_heap et) = add_mset e (mset h)"
    "vt_untrack r et = Inr (et\<lparr>vt_heap := h, vt_by_id := (vt_by_id et)(r := None)\<rparr>)"
    "vt_inv (et\<lparr>vt_heap := h, vt_by_id := (vt_by_id et)(r := None)\<rparr>)"
proof (cases "vt_by_id et r")
  case None
  then show ?thesis using that(1) by (simp add: vt_untrack_def)
next
  case (Some p)
  then show ?thesis using vt_untrack_Some [OF assms Some] that(2) by metis
qed

lemma tracked_ok: "tracked pm et \<Longrightarrow> vt_inv et \<and> vt_prio pm et"
proof (induction rule: tracked.induct)
  case start
  then show ?case using vt_inv_new by (simp add: vt_prio_def new_eviction_tracker_def)
next
  case (track et q inst)
  have "set (heap_push ve_less e (vt_heap et)) = insert e (set (vt_heap et))" for e
    by (metis mset_heap_push set_mset_add_mset_insert set_mset_mset)
  then have "vt_prio pm (vt_track q inst pm et)" using track.IH by (auto simp: vt_track_def vt_prio_def Let_def is_sheddable_def)
  then show ?case using track.IH vt_inv_track by blast
next
  case (untrack et r et1)
  then have inv: "vt_inv et" by blast
  show ?case
  proof (rule vt_untrack_cases [OF inv, of r])
    fix e h assume a: "mset (vt_heap et) = add_mset e (mset h)"
      "vt_untrack r et = Inr (et\<lparr>vt_heap := h, vt_by_id := (vt_by_id et)(r := None)\<rparr>)"
      "vt_inv (et\<lparr>vt_heap := h, vt_by_id := (vt_by_id et)(r := None)\<rparr>)"
    have "set (vt_heap et) = insert e (set h)" by (metis a(1) set_mset_add_mset_insert set_mset_mset)
    then show ?thesis using a(2,3) untrack by (auto simp: vt_prio_def)
  qed (use untrack in auto)
next
  case (pop et v et1)
  have inv: "vt_inv et1" using pop vt_inv_pop [of et] by simp
  have "vt_prio pm et1"
  proof (cases "heap_pop ve_less (vt_heap et)")
    case (Some x)
    obtain e h where x: "x = (e, h)" by (cases x)
    have "mset (vt_heap et) = add_mset e (mset h)" by (rule heap_pop_SomeD(3) [OF Some [unfolded x]])
    then have "set (vt_heap et) = insert e (set h)" by (metis set_mset_add_mset_insert set_mset_mset)
    then show ?thesis using pop Some x by (auto simp: vt_pop_def vt_prio_def)
  qed (use pop in \<open>simp add: vt_pop_def del: heap_pop_None\<close>)
  then show ?case using inv by blast
qed


lemma vt_untrack_returns: "tracked pm et \<Longrightarrow> \<exists>et1. vt_untrack r et = Inr et1"
  by (rule vt_untrack_cases [of et r]) (use tracked_ok in auto)

text \<open>What \<open>Untrack\<close> does to the heap: nothing, or the entry under the ID goes.\<close>

definition untrack_removes :: "string \<Rightarrow> evict_tracker \<Rightarrow> evict_tracker \<Rightarrow> bool" where
  "untrack_removes r et et1 \<longleftrightarrow>
     (case vt_by_id et r of
        None \<Rightarrow> et1 = et
      | Some p \<Rightarrow> \<exists>e. e \<in> set (vt_heap et) \<and> ve_ptr e = p \<and> rq_id (ve_req e) = r \<and>
          mset (vt_heap et) = add_mset e (mset (vt_heap et1)) \<and> vt_by_id et1 = (vt_by_id et)(r := None))"

lemma vt_untrack_removes:
  assumes "tracked pm et" "vt_untrack r et = Inr et1"
  shows "untrack_removes r et et1"
proof -
  have inv: "vt_inv et" using tracked_ok [OF assms(1)] by blast
  show ?thesis
  proof (rule vt_untrack_cases [OF inv, of r])
    assume "vt_by_id et r = None" "vt_untrack r et = Inr et"
    then show ?thesis using assms(2) by (simp add: untrack_removes_def)
  next
    fix e h assume a: "vt_by_id et r = Some (ve_ptr e)" "e \<in> set (vt_heap et)" "rq_id (ve_req e) = r"
      "mset (vt_heap et) = add_mset e (mset h)" "vt_untrack r et = Inr (et\<lparr>vt_heap := h, vt_by_id := (vt_by_id et)(r := None)\<rparr>)"
    then have "et1 = et\<lparr>vt_heap := h, vt_by_id := (vt_by_id et)(r := None)\<rparr>" using assms(2) by simp
    then show ?thesis unfolding untrack_removes_def using a by auto
  qed
qed

text \<open>C40 Eviction order: after any sequence of tracking, untracking and popping, untracking returns
  (no index outside the heap) and removes just the entry the ID was last tracked under; a pop
  of a tracker that holds entries returns a sheddable request of the lowest priority tracked, and
  of the newest dispatch among those, and removes just it.\<close>

theorem eviction_order:
  assumes "tracked pm et"
  shows "(\<forall>r. \<exists>et1. vt_untrack r et = Inr et1 \<and> untrack_removes r et et1) \<and>
    (case vt_pop et of
       (None, et1) \<Rightarrow> vt_len et = 0 \<and> et1 = et
     | (Some (q, inst), et1) \<Rightarrow>
         \<exists>e \<in> set (vt_heap et). ve_req e = q \<and> ve_instance e = inst \<and> is_sheddable pm (rq_slo_class q) \<and>
           mset (vt_heap et) = add_mset e (mset (vt_heap et1)) \<and> vt_by_id et1 (rq_id q) = None \<and>
           (\<forall>f \<in> set (vt_heap et).
              slo_priority pm (rq_slo_class q) < slo_priority pm (rq_slo_class (ve_req f)) \<or>
              slo_priority pm (rq_slo_class q) = slo_priority pm (rq_slo_class (ve_req f)) \<and> rq_gw_dispatch (ve_req f) \<le> rq_gw_dispatch q))"
proof
  show "\<forall>r. \<exists>et1. vt_untrack r et = Inr et1 \<and> untrack_removes r et et1"
    using vt_untrack_returns [OF assms] vt_untrack_removes [OF assms] by blast
  note ok = tracked_ok [OF assms]
  show "case vt_pop et of
       (None, et1) \<Rightarrow> vt_len et = 0 \<and> et1 = et
     | (Some (q, inst), et1) \<Rightarrow>
         \<exists>e \<in> set (vt_heap et). ve_req e = q \<and> ve_instance e = inst \<and> is_sheddable pm (rq_slo_class q) \<and>
           mset (vt_heap et) = add_mset e (mset (vt_heap et1)) \<and> vt_by_id et1 (rq_id q) = None \<and>
           (\<forall>f \<in> set (vt_heap et).
              slo_priority pm (rq_slo_class q) < slo_priority pm (rq_slo_class (ve_req f)) \<or>
              slo_priority pm (rq_slo_class q) = slo_priority pm (rq_slo_class (ve_req f)) \<and> rq_gw_dispatch (ve_req f) \<le> rq_gw_dispatch q)"
  proof (cases "heap_pop ve_less (vt_heap et)")
    case None
    have "vt_heap et = []" "vt_pop et = (None, et)" using None by (simp, simp add: vt_pop_def del: heap_pop_None)
    then show ?thesis by (simp add: vt_len_def)
  next
    case (Some x)
    obtain e h where x: "x = (e, h)" by (cases x)
    note p = vt_pop_Some [OF _ Some [unfolded x]]
    have e: "e \<in> set (vt_heap et)" using p(2) ok by blast
    have "ve_priority e < ve_priority f \<or> ve_priority e = ve_priority f \<and> ve_time f \<le> ve_time e" if "f \<in> set (vt_heap et)" for f
      using p(3) [OF _ that] ok by (auto simp: ve_less_def split: if_splits)
    then show ?thesis
      using Some x e p(4) ok by (auto simp: vt_pop_def vt_prio_def is_sheddable_def intro!: bexI [OF _ e])
  qed
qed

theorem eviction_order_witness:
  "\<exists>q inst et1. vt_pop (vt_track (demo_request ''b'' [1] []\<lparr>rq_slo_class := ''batch''\<rparr>) ''i2'' default_slo_map
       (vt_track (demo_request ''a'' [1] []\<lparr>rq_slo_class := ''batch''\<rparr>) ''i1'' default_slo_map new_eviction_tracker)) = (Some (q, inst), et1) \<and>
     is_sheddable default_slo_map (rq_slo_class q)"
proof -
  let ?et = "vt_track (demo_request ''b'' [1] []\<lparr>rq_slo_class := ''batch''\<rparr>) ''i2'' default_slo_map
       (vt_track (demo_request ''a'' [1] []\<lparr>rq_slo_class := ''batch''\<rparr>) ''i1'' default_slo_map new_eviction_tracker)"
  have t: "tracked default_slo_map ?et" by (intro tracked.intros)
  have b: "is_sheddable default_slo_map ''batch''"
    by (simp add: is_sheddable_def slo_priority_def default_slo_map_def)
  have len: "vt_len ?et \<noteq> 0" using b by (simp add: vt_track_def vt_len_def Let_def length_heap_push)
  obtain v et1 where p: "vt_pop ?et = (v, et1)" by (metis surj_pair)
  show ?thesis
    using eviction_order [OF t] len unfolding p by (cases v) auto
qed

end
