(* ===== verification/Spec2Isabelle.thy ===== *)
theory Spec2Isabelle
  imports Batch_Properties Sim_Properties Sim_Findings Prefix_Index CPU_Tier Flow_Control Placement_Properties Station_Properties Tiered_Properties Offload_Properties Router_Properties Admission Eviction_Tracker
begin

text \<open>
  Verification library of the BLIS inference simulator (Go module \<open>inference-sim\<close>): a
  discrete-event simulator of LLM serving with the scheduling and KV-cache behaviour of vLLM.
\<close>

end
